(* ===== verification/Prelude.thy ===== *)
theory Prelude
  imports Main "HOL-Library.Monad_Syntax"
begin

text \<open>
  The shared base of the library.

  \<^item> Rust's \<open>std::cmp::Ordering\<close> and the comparison of two elements of a total order.
  \<^item> Panics. A Rust function that can panic (\<open>unwrap\<close> of \<open>None\<close>, an index out of range, an
    \<open>assert!\<close>, a full fixed-capacity vector) returns an \<^typ>\<open>'a option\<close> in the model,
    and \<^const>\<open>None\<close> is the panic. The do-notation of \<open>Monad_Syntax\<close> propagates it the way
    unwinding does. A Rust \<open>Option<T>\<close> result is an option inside the panic option.
  \<^item> The slice and vector primitives the code uses, each with its panic.
  \<^item> Generic facts about lists that several components share.
\<close>

section \<open>Named collections\<close>

named_theorems panic_simps \<open>evaluation of the panic monad and of the vector primitives\<close>

section \<open>Ordering\<close>

datatype ordering = Less | Equal | Greater

definition ord_cmp :: "'a::linorder \<Rightarrow> 'a \<Rightarrow> ordering" where
  "ord_cmp a b = (if a < b then Less else if a = b then Equal else Greater)"

text \<open>Rust's \<open>Ordering::then\<close>.\<close>

fun ordering_then :: "ordering \<Rightarrow> ordering \<Rightarrow> ordering" where
  "ordering_then Equal b = b"
| "ordering_then Less b = Less"
| "ordering_then Greater b = Greater"

definition is_ge :: "ordering \<Rightarrow> bool" where
  "is_ge c \<longleftrightarrow> c \<noteq> Less"

lemma ord_cmp_Less [simp]: "ord_cmp a b = Less \<longleftrightarrow> a < b"
  by (auto simp: ord_cmp_def)

lemma ord_cmp_Equal [simp]: "ord_cmp a b = Equal \<longleftrightarrow> a = b"
  by (auto simp: ord_cmp_def)

lemma ord_cmp_Greater [simp]: "ord_cmp a b = Greater \<longleftrightarrow> b < a"
  by (auto simp: ord_cmp_def)

lemma ord_cmp_refl [simp]: "ord_cmp a a = Equal"
  by simp

section \<open>Panics and vector primitives\<close>

text \<open>An \<open>assert!\<close>: nothing on success, a panic otherwise.\<close>

definition assert_that :: "bool \<Rightarrow> unit option" where
  "assert_that b = (if b then Some () else None)"

lemma assert_that_True [panic_simps, simp]: "assert_that True = Some ()"
  by (simp add: assert_that_def)

lemma assert_that_False [panic_simps, simp]: "assert_that False = None"
  by (simp add: assert_that_def)

text \<open>Indexing \<open>xs[i]\<close> panics out of range; \<open>xs.get(i)\<close> is an ordinary Rust option.\<close>

definition index_at :: "'a list \<Rightarrow> nat \<Rightarrow> 'a option" where
  "index_at xs i = (if i < length xs then Some (xs ! i) else None)"

text \<open>The slices \<open>xs[i..]\<close> and \<open>xs[..i]\<close> panic when \<open>i\<close> is past the end.\<close>

definition slice_from :: "'a list \<Rightarrow> nat \<Rightarrow> 'a list option" where
  "slice_from xs i = (if i \<le> length xs then Some (drop i xs) else None)"

definition slice_to :: "'a list \<Rightarrow> nat \<Rightarrow> 'a list option" where
  "slice_to xs i = (if i \<le> length xs then Some (take i xs) else None)"

text \<open>\<open>first_mut().unwrap()\<close> and \<open>last_mut().unwrap()\<close>, with the rest of the vector.\<close>

definition first_rest :: "'a list \<Rightarrow> ('a \<times> 'a list) option" where
  "first_rest xs = (case xs of [] \<Rightarrow> None | x # ys \<Rightarrow> Some (x, ys))"

definition init_last :: "'a list \<Rightarrow> ('a list \<times> 'a) option" where
  "init_last xs = (if xs = [] then None else Some (butlast xs, last xs))"

text \<open>\<open>slice::first\<close> and \<open>slice::last\<close>: \<^const>\<open>None\<close> here is an ordinary value.\<close>

definition list_first :: "'a list \<Rightarrow> 'a option" where
  "list_first xs = (case xs of [] \<Rightarrow> None | x # _ \<Rightarrow> Some x)"

definition list_last :: "'a list \<Rightarrow> 'a option" where
  "list_last xs = (if xs = [] then None else Some (last xs))"

text \<open>A vector of fixed capacity \<open>n\<close>: filling it past the capacity panics.\<close>

definition fit :: "nat \<Rightarrow> 'a list \<Rightarrow> 'a list option" where
  "fit n xs = (if length xs \<le> n then Some xs else None)"

text \<open>A \<open>for\<close> loop whose body may panic.\<close>

fun for_each :: "('a \<Rightarrow> 's \<Rightarrow> 's option) \<Rightarrow> 'a list \<Rightarrow> 's \<Rightarrow> 's option" where
  "for_each f [] s = Some s"
| "for_each f (x # xs) s = do { s' \<leftarrow> f x s; for_each f xs s' }"

lemma index_at_Some [panic_simps, simp]: "i < length xs \<Longrightarrow> index_at xs i = Some (xs ! i)"
  by (simp add: index_at_def)

lemma slice_from_Some [panic_simps, simp]: "i \<le> length xs \<Longrightarrow> slice_from xs i = Some (drop i xs)"
  by (simp add: slice_from_def)

lemma slice_to_Some [panic_simps, simp]: "i \<le> length xs \<Longrightarrow> slice_to xs i = Some (take i xs)"
  by (simp add: slice_to_def)

lemma fit_Some [panic_simps, simp]: "length xs \<le> n \<Longrightarrow> fit n xs = Some xs"
  by (simp add: fit_def)

lemma first_rest_Cons [panic_simps, simp]: "first_rest (x # xs) = Some (x, xs)"
  by (simp add: first_rest_def)

lemma first_rest_None [simp]: "first_rest xs = None \<longleftrightarrow> xs = []"
  by (cases xs) (auto simp: first_rest_def)

lemma init_last_snoc [panic_simps, simp]: "init_last (xs @ [x]) = Some (xs, x)"
  by (simp add: init_last_def)

lemma init_last_Some_iff: "init_last xs = Some (ys, y) \<longleftrightarrow> xs = ys @ [y]"
  by (auto simp: init_last_def)

lemma first_rest_Some_iff: "first_rest xs = Some (y, ys) \<longleftrightarrow> xs = y # ys"
  by (auto simp: first_rest_def split: list.splits)

text \<open>
  Recursion through the panic monad and through the first or last child of a node: the
  congruence rule and the size facts the termination prover needs.
\<close>

declare Option.bind_cong [fundef_cong]

lemma size_init_last [termination_simp]:
  "init_last xs = Some (ys, y) \<Longrightarrow> f y < Suc (n + size_list f xs)"
  by (simp add: init_last_Some_iff)

lemma size_first_rest [termination_simp]:
  "first_rest xs = Some (y, ys) \<Longrightarrow> f y < Suc (n + size_list f xs)"
  by (simp add: first_rest_Some_iff)

lemma list_last_append: "list_last (xs @ ys) = (if ys = [] then list_last xs else list_last ys)"
  by (simp add: list_last_def)

lemma list_first_append: "list_first (xs @ ys) = (if xs = [] then list_first ys else list_first xs)"
  by (cases xs) (simp_all add: list_first_def)

lemma list_last_concat:
  "xss \<noteq> [] \<Longrightarrow> last xss \<noteq> [] \<Longrightarrow> list_last (concat xss) = list_last (last xss)"
  by (induction xss rule: rev_induct) (simp_all add: list_last_append)

lemma list_first_concat:
  "xss \<noteq> [] \<Longrightarrow> hd xss \<noteq> [] \<Longrightarrow> list_first (concat xss) = list_first (hd xss)"
  by (cases xss) (simp_all add: list_first_append)

section \<open>Lists\<close>

lemma concat_map_take_drop:
  "concat (map f (take k xs)) @ concat (map f (drop k xs)) = concat (map f xs)"
proof -
  have "map f xs = map f (take k xs) @ map f (drop k xs)"
    by (simp flip: map_append)
  then show ?thesis by simp
qed

lemma takeWhile_append_all:
  "(\<And>x. x \<in> set xs \<Longrightarrow> P x) \<Longrightarrow> takeWhile P (xs @ ys) = xs @ takeWhile P ys"
  by (induction xs) auto

section \<open>Loops\<close>

lemma for_each_append: "for_each f (xs @ ys) s = Option.bind (for_each f xs s) (for_each f ys)"
  by (induction xs arbitrary: s) (auto split: bind_split)

lemma for_each_map: "for_each f (map h xs) s = for_each (f \<circ> h) xs s"
  by (induction xs arbitrary: s) (auto split: bind_split)

lemma for_each_nested:
  "for_each (\<lambda>r. for_each (f r) cs) rs s = for_each (\<lambda>(r, c). f r c) (List.product rs cs) s"
  by (induction rs arbitrary: s) (auto simp: for_each_append for_each_map comp_def split: bind_split)

end
