(* ===== verification/SumTree_Base.thy ===== *)
theory SumTree_Base
  imports Prelude
begin

text \<open>
  The data of \<open>crates/sum_tree\<close>: a B+ tree whose leaves hold items and whose nodes hold a
  summary of everything below them.

  The traits \<open>Summary\<close>, \<open>Item\<close> and \<open>Dimension\<close> are records of their methods, at one fixed
  context \<open>cx\<close> (the code passes the same \<open>cx\<close> to every call). A \<open>SeekTarget\<close> is the function
  \<open>target.cmp(_, cx)\<close>, from a cursor location to an ordering. \<open>SumTree(Arc<Node>)\<close> is the node
  itself: \<open>Arc::make_mut\<close> copies on write, so a tree behaves as a value. Node heights
  (\<open>u8\<close>) and lengths are natural numbers.
\<close>

section \<open>Traits\<close>

record ('t, 's) summary_ops =
  s_zero :: 's
  s_add :: "'s \<Rightarrow> 's \<Rightarrow> 's"
  s_item :: "'t \<Rightarrow> 's"

record ('s, 'd) dim_ops =
  d_zero :: 'd
  d_add :: "'d \<Rightarrow> 's \<Rightarrow> 'd"

type_synonym 'd seek_target = "'d \<Rightarrow> ordering"

text \<open>\<open>Dimension::with_added_summary\<close> and \<open>Dimension::from_summary\<close>, the default methods.\<close>

definition with_added_summary :: "('s, 'd) dim_ops \<Rightarrow> 'd \<Rightarrow> 's \<Rightarrow> 'd" where
  "with_added_summary dim d s = d_add dim d s"

definition from_summary_dim :: "('s, 'd) dim_ops \<Rightarrow> 's \<Rightarrow> 'd" where
  "from_summary_dim dim s = d_add dim (d_zero dim) s"

text \<open>\<open>impl Dimension for T: Summary\<close>: a summary is a dimension of itself.\<close>

definition summary_dim :: "('t, 's) summary_ops \<Rightarrow> ('s, 's) dim_ops" where
  "summary_dim ops = \<lparr>d_zero = s_zero ops, d_add = s_add ops\<rparr>"

text \<open>\<open>impl Dimension for ()\<close>.\<close>

definition unit_dim :: "('s, unit) dim_ops" where
  "unit_dim = \<lparr>d_zero = (), d_add = (\<lambda>_ _. ())\<rparr>"

text \<open>\<open>impl Dimension for Dimensions<D1, D2, D3>\<close>, componentwise.\<close>

definition dimensions_dim ::
    "('s, 'd1) dim_ops \<Rightarrow> ('s, 'd2) dim_ops \<Rightarrow> ('s, 'd3) dim_ops \<Rightarrow> ('s, 'd1 \<times> 'd2 \<times> 'd3) dim_ops" where
  "dimensions_dim a b c =
     \<lparr>d_zero = (d_zero a, d_zero b, d_zero c),
      d_add = (\<lambda>(x, y, z) s. (d_add a x s, d_add b y s, d_add c z s))\<rparr>"

text \<open>\<open>impl SeekTarget<Dimensions<D1, D2, D3>> for D1\<close>: only the first component is compared.\<close>

definition dimensions_target :: "'d1 seek_target \<Rightarrow> ('d1 \<times> 'd2 \<times> 'd3) seek_target" where
  "dimensions_target target = (\<lambda>loc. target (fst loc))"

datatype bias = Left | Right

fun bias_invert :: "bias \<Rightarrow> bias" where
  "bias_invert Left = Right"
| "bias_invert Right = Left"

section \<open>Nodes\<close>

definition TREE_BASE :: nat where
  "TREE_BASE = 6"

abbreviation CAP :: nat where
  "CAP \<equiv> 2 * TREE_BASE"

datatype ('t, 's) node =
  Internal (Int_height: nat) (Int_summary: 's) (Int_child_summaries: "'s list")
    (Int_child_trees: "('t, 's) node list")
| Leaf (Leaf_summary: 's) (Leaf_items: "'t list") (Leaf_item_summaries: "'s list")

fun is_leaf :: "('t, 's) node \<Rightarrow> bool" where
  "is_leaf (Leaf _ _ _) = True"
| "is_leaf (Internal _ _ _ _) = False"

fun node_height :: "('t, 's) node \<Rightarrow> nat" where
  "node_height (Internal h _ _ _) = h"
| "node_height (Leaf _ _ _) = 0"

fun node_summary :: "('t, 's) node \<Rightarrow> 's" where
  "node_summary (Internal _ s _ _) = s"
| "node_summary (Leaf s _ _) = s"

fun child_summaries :: "('t, 's) node \<Rightarrow> 's list" where
  "child_summaries (Internal _ _ css _) = css"
| "child_summaries (Leaf _ _ ss) = ss"

text \<open>\<open>child_trees\<close> panics on a leaf, \<open>items\<close> on an internal node.\<close>

fun child_trees :: "('t, 's) node \<Rightarrow> ('t, 's) node list option" where
  "child_trees (Internal _ _ _ cts) = Some cts"
| "child_trees (Leaf _ _ _) = None"

fun items :: "('t, 's) node \<Rightarrow> 't list option" where
  "items (Leaf _ xs _) = Some xs"
| "items (Internal _ _ _ _) = None"

fun is_underflowing :: "('t, 's) node \<Rightarrow> bool" where
  "is_underflowing (Internal _ _ _ cts) \<longleftrightarrow> length cts < TREE_BASE"
| "is_underflowing (Leaf _ xs _) \<longleftrightarrow> length xs < TREE_BASE"

fun is_empty :: "('t, 's) node \<Rightarrow> bool" where
  "is_empty (Internal _ _ _ _) = False"
| "is_empty (Leaf _ xs _) = (xs = [])"

text \<open>The module's \<open>sum\<close>: fold \<open>add_summary\<close> over the values, from zero.\<close>

definition sum_summaries :: "('t, 's) summary_ops \<Rightarrow> 's list \<Rightarrow> 's" where
  "sum_summaries ops ss = foldl (s_add ops) (s_zero ops) ss"

fun leftmost_leaf :: "('t, 's) node \<Rightarrow> ('t, 's) node option" where
  "leftmost_leaf (Leaf s xs ss) = Some (Leaf s xs ss)"
| "leftmost_leaf (Internal h s css cts) =
     do { (c, _) \<leftarrow> first_rest cts; leftmost_leaf c }"

fun rightmost_leaf :: "('t, 's) node \<Rightarrow> ('t, 's) node option" where
  "rightmost_leaf (Leaf s xs ss) = Some (Leaf s xs ss)"
| "rightmost_leaf (Internal h s css cts) =
     do { (_, c) \<leftarrow> init_last cts; rightmost_leaf c }"

definition tree_first :: "('t, 's) node \<Rightarrow> 't option option" where
  "tree_first t = do { l \<leftarrow> leftmost_leaf t; xs \<leftarrow> items l; Some (list_first xs) }"

definition tree_last :: "('t, 's) node \<Rightarrow> 't option option" where
  "tree_last t = do { l \<leftarrow> rightmost_leaf t; xs \<leftarrow> items l; Some (list_last xs) }"

definition last_summary :: "('t, 's) node \<Rightarrow> 's option option" where
  "last_summary t = do { l \<leftarrow> rightmost_leaf t; Some (list_last (child_summaries l)) }"

definition extent :: "('s, 'd) dim_ops \<Rightarrow> ('t, 's) node \<Rightarrow> 'd" where
  "extent dim t = d_add dim (d_zero dim) (node_summary t)"

section \<open>The abstract sequence and well-formedness\<close>

text \<open>The sequence of items a tree stands for.\<close>

fun to_list :: "('t, 's) node \<Rightarrow> 't list" where
  "to_list (Leaf _ xs _) = xs"
| "to_list (Internal _ _ _ cts) = concat (map to_list cts)"

text \<open>
  Well-formedness of a non-empty tree: capacities, equal heights, cached summaries. The code keeps
  no lower bound on the number of children (\<open>from_iter\<close> leaves a short last node), only that
  no node is empty.
\<close>

fun wf_node :: "('t, 's) summary_ops \<Rightarrow> ('t, 's) node \<Rightarrow> bool" where
  "wf_node ops (Leaf s xs ss) \<longleftrightarrow>
     xs \<noteq> [] \<and> length xs \<le> CAP \<and> ss = map (s_item ops) xs \<and> s = sum_summaries ops ss"
| "wf_node ops (Internal h s css cts) \<longleftrightarrow>
     cts \<noteq> [] \<and> length cts \<le> CAP \<and> (\<forall>c \<in> set cts. wf_node ops c \<and> Suc (node_height c) = h) \<and>
     css = map node_summary cts \<and> s = sum_summaries ops css"

text \<open>\<open>SumTree::new\<close> and \<open>SumTree::from_summary\<close>.\<close>

definition new_tree :: "('t, 's) summary_ops \<Rightarrow> ('t, 's) node" where
  "new_tree ops = Leaf (s_zero ops) [] []"

definition from_summary :: "'s \<Rightarrow> ('t, 's) node" where
  "from_summary s = Leaf s [] []"

definition tree_ok :: "('t, 's) summary_ops \<Rightarrow> ('t, 's) node \<Rightarrow> bool" where
  "tree_ok ops t \<longleftrightarrow> t = new_tree ops \<or> wf_node ops t"

lemma TREE_BASE_pos [simp]: "0 < TREE_BASE"
  by (simp add: TREE_BASE_def)

lemma tree_ok_new [simp, intro]: "tree_ok ops (new_tree ops)"
  by (simp add: tree_ok_def)

lemma tree_ok_wf [intro]: "wf_node ops t \<Longrightarrow> tree_ok ops t"
  by (simp add: tree_ok_def)

lemma to_list_new [simp]: "to_list (new_tree ops) = []"
  by (simp add: new_tree_def)

lemma node_height_new [simp]: "node_height (new_tree ops) = 0"
  by (simp add: new_tree_def)

lemma is_empty_new [simp]: "is_empty (new_tree ops)"
  by (simp add: new_tree_def)

lemma to_list_nonempty: "wf_node ops t \<Longrightarrow> to_list t \<noteq> []"
  by (induction t) (auto simp: neq_Nil_conv)

lemma wf_not_empty: "wf_node ops t \<Longrightarrow> \<not> is_empty t"
  by (cases t) auto

lemma tree_ok_cases:
  assumes "tree_ok ops t"
  obtains "t = new_tree ops" "to_list t = []" "is_empty t"
    | "wf_node ops t" "to_list t \<noteq> []" "\<not> is_empty t"
  using assms by (auto simp: tree_ok_def dest: to_list_nonempty wf_not_empty)

lemma is_empty_iff: "tree_ok ops t \<Longrightarrow> is_empty t \<longleftrightarrow> to_list t = []"
  by (erule tree_ok_cases) auto

lemma wf_height_pos: "wf_node ops (Internal h s css cts) \<Longrightarrow> 0 < h"
  by (cases cts) auto

lemma wf_height_0: "wf_node ops t \<Longrightarrow> node_height t = 0 \<longleftrightarrow> is_leaf t"
  by (cases t) (auto simp del: wf_node.simps dest: wf_height_pos)

lemma child_summaries_length:
  "wf_node ops t \<Longrightarrow> length (child_summaries t) =
     (case t of Leaf _ xs _ \<Rightarrow> length xs | Internal _ _ _ cts \<Rightarrow> length cts)"
  by (cases t) auto

section \<open>The laws of summaries\<close>

text \<open>
  What the tree relies on. \<open>add_summary\<close> is associative and zero is a left unit; a right unit is
  not required, and the map keys of \<open>tree_map.rs\<close> do not have one.
\<close>

locale summary_laws =
  fixes ops :: "('t, 's) summary_ops"
  assumes add_assoc: "s_add ops (s_add ops a b) c = s_add ops a (s_add ops b c)"
    and zero_left: "s_add ops (s_zero ops) a = a"
begin

lemma foldl_add_assoc: "foldl (s_add ops) (s_add ops a b) ss = s_add ops a (foldl (s_add ops) b ss)"
  by (induction ss arbitrary: b) (simp_all add: add_assoc)

lemma sum_Nil [simp]: "sum_summaries ops [] = s_zero ops"
  by (simp add: sum_summaries_def)

lemma sum_Cons: "sum_summaries ops (s # ss) = foldl (s_add ops) s ss"
  by (simp add: sum_summaries_def zero_left)

lemma sum_snoc: "sum_summaries ops (ss @ [s]) = s_add ops (sum_summaries ops ss) s"
  by (simp add: sum_summaries_def)

lemma sum_single [simp]: "sum_summaries ops [s] = s"
  by (simp add: sum_Cons)

lemma sum_append:
  "ts \<noteq> [] \<Longrightarrow> sum_summaries ops (ss @ ts) = s_add ops (sum_summaries ops ss) (sum_summaries ops ts)"
  by (cases ts) (simp_all add: sum_summaries_def zero_left foldl_add_assoc)

text \<open>The summary of a sequence of items.\<close>

definition lsum :: "'t list \<Rightarrow> 's" where
  "lsum xs = sum_summaries ops (map (s_item ops) xs)"

lemma lsum_append: "ys \<noteq> [] \<Longrightarrow> lsum (xs @ ys) = s_add ops (lsum xs) (lsum ys)"
  by (simp add: lsum_def sum_append)

lemma lsum_Nil: "lsum [] = s_zero ops"
  by (simp add: lsum_def)

lemma sum_map_lsum:
  "(\<And>xs. xs \<in> set xss \<Longrightarrow> xs \<noteq> []) \<Longrightarrow> sum_summaries ops (map lsum xss) = lsum (concat xss)"
  by (induction xss rule: rev_induct) (auto simp: lsum_Nil sum_snoc lsum_append)

lemma wf_summary: "wf_node ops t \<Longrightarrow> node_summary t = lsum (to_list t)"
proof (induction t)
  case (Leaf s xs ss)
  then show ?case by (simp add: lsum_def)
next
  case (Internal h s css cts)
  have eq: "map node_summary cts = map lsum (map to_list cts)"
    using Internal by auto
  have "sum_summaries ops (map node_summary cts) = lsum (concat (map to_list cts))"
    unfolding eq using Internal.prems by (intro sum_map_lsum) (auto dest: to_list_nonempty)
  with Internal.prems show ?case by simp
qed

lemma ok_summary: "tree_ok ops t \<Longrightarrow> node_summary t = lsum (to_list t)"
  by (auto simp: tree_ok_def wf_summary new_tree_def lsum_Nil)

lemma wf_internal_sum:
  assumes "\<forall>c \<in> set cts. wf_node ops c" "cts \<noteq> []"
  shows "sum_summaries ops (map node_summary cts) = lsum (concat (map to_list cts))"
proof -
  have "map node_summary cts = map lsum (map to_list cts)"
    using assms by (auto simp: wf_summary)
  then show ?thesis using assms by (simp only:) (rule sum_map_lsum, auto dest: to_list_nonempty)
qed

text \<open>Building a node: the two shapes every operation ends in.\<close>

lemma wf_LeafI:
  "xs \<noteq> [] \<Longrightarrow> length xs \<le> CAP \<Longrightarrow> ss = map (s_item ops) xs \<Longrightarrow> s = lsum xs \<Longrightarrow> wf_node ops (Leaf s xs ss)"
  by (simp add: lsum_def)

lemma wf_InternalI:
  assumes "cts \<noteq> []" "length cts \<le> CAP" "\<forall>c \<in> set cts. wf_node ops c \<and> Suc (node_height c) = h"
    and "css = map node_summary cts" "s = lsum (concat (map to_list cts))"
  shows "wf_node ops (Internal h s css cts)"
  using assms by (simp add: wf_internal_sum)

end

text \<open>
  A dimension measures summaries: adding two summaries in turn is adding their sum. Again nothing is
  assumed about adding zero.
\<close>

locale dimension_laws = summary_laws ops
  for ops :: "('t, 's) summary_ops" +
  fixes dim :: "('s, 'd) dim_ops"
  assumes d_action: "d_add dim (d_add dim d a) b = d_add dim d (s_add ops a b)"
begin

text \<open>The position after a sequence of items, from a given start.\<close>

definition advance :: "'d \<Rightarrow> 't list \<Rightarrow> 'd" where
  "advance d xs = foldl (d_add dim) d (map (s_item ops) xs)"

lemma advance_Nil [simp]: "advance d [] = d"
  by (simp add: advance_def)

lemma advance_Cons: "advance d (x # xs) = advance (d_add dim d (s_item ops x)) xs"
  by (simp add: advance_def)

lemma advance_append: "advance d (xs @ ys) = advance (advance d xs) ys"
  by (simp add: advance_def)

lemma advance_single: "advance d [x] = d_add dim d (s_item ops x)"
  by (simp add: advance_def)

lemma d_add_lsum: "xs \<noteq> [] \<Longrightarrow> d_add dim d (lsum xs) = advance d xs"
proof (induction xs rule: rev_induct)
  case (snoc x xs)
  then show ?case
    by (cases "xs = []") (simp_all add: lsum_def sum_snoc advance_def flip: d_action)
qed simp

lemma d_add_wf: "wf_node ops t \<Longrightarrow> d_add dim d (node_summary t) = advance d (to_list t)"
  by (simp add: wf_summary d_add_lsum to_list_nonempty)

end

text \<open>Every summary type is a dimension of itself, and \<open>()\<close> and triples are dimensions.\<close>

context summary_laws
begin

lemma summary_dim_laws: "dimension_laws ops (summary_dim ops)"
  by unfold_locales (simp add: summary_dim_def add_assoc)

lemma unit_dim_laws: "dimension_laws ops unit_dim"
  by unfold_locales (simp add: unit_dim_def)

lemma dimensions_dim_laws:
  assumes "dimension_laws ops a" "dimension_laws ops b" "dimension_laws ops c"
  shows "dimension_laws ops (dimensions_dim a b c)"
  by unfold_locales
    (auto simp: dimensions_dim_def split: prod.splits intro!: dimension_laws.d_action assms)

end

end
