(* ===== verification/SumTree_Ops.thy ===== *)
theory SumTree_Ops
  imports SumTree_Base
begin

text \<open>
  The operations of \<open>sum_tree.rs\<close> that build and change a tree: \<open>append\<close> with its two
  directions (\<open>push_tree_recursive\<close>, \<open>append_large\<close>, \<open>merge_into_right\<close>), \<open>push\<close>,
  \<open>from_iter\<close>, \<open>from_par_iter\<close>, \<open>extend\<close>, \<open>update_first\<close>, \<open>update_last\<close>. A
  function that mutates \<open>self\<close> or \<open>large\<close> returns the new value beside its result. Every
  fixed-capacity vector is built through \<^const>\<open>fit\<close>, which panics past the capacity.
\<close>

section \<open>Appending\<close>

definition from_child_trees :: "('t, 's) summary_ops \<Rightarrow> ('t, 's) node \<Rightarrow> ('t, 's) node \<Rightarrow> ('t, 's) node" where
  "from_child_trees ops left right =
     (let css = [node_summary left, node_summary right]
      in Internal (node_height left + 1) (sum_summaries ops css) css [left, right])"

text \<open>
  The tail of the internal case of \<open>push_tree_recursive\<close>: either everything fits, or the children
  are divided at the midpoint and the right half is returned as a new sibling.
\<close>

definition push_children ::
    "('t, 's) summary_ops \<Rightarrow> nat \<Rightarrow> 's \<Rightarrow> 's list \<Rightarrow> ('t, 's) node list \<Rightarrow> 's list \<Rightarrow> ('t, 's) node list \<Rightarrow>
     (('t, 's) node \<times> ('t, 's) node option) option" where
  "push_children ops h s css cts summaries_to_append trees_to_append =
     (let child_count = length cts + length trees_to_append in
      if child_count > CAP then
        let midpoint = (child_count + child_count mod 2) div 2;
            all_summaries = css @ summaries_to_append;
            all_trees = cts @ trees_to_append
        in do {
          left_summaries \<leftarrow> fit CAP (take midpoint all_summaries);
          right_summaries \<leftarrow> fit CAP (drop midpoint all_summaries);
          left_trees \<leftarrow> fit CAP (take midpoint all_trees);
          right_trees \<leftarrow> fit CAP (drop midpoint all_trees);
          Some (Internal h (sum_summaries ops left_summaries) left_summaries left_trees,
                Some (Internal h (sum_summaries ops right_summaries) right_summaries right_trees))
        }
      else do {
        css' \<leftarrow> fit CAP (css @ summaries_to_append);
        cts' \<leftarrow> fit CAP (cts @ trees_to_append);
        Some (Internal h s css' cts', None)
      })"

fun push_tree_recursive ::
    "('t, 's) summary_ops \<Rightarrow> ('t, 's) node \<Rightarrow> ('t, 's) node \<Rightarrow> (('t, 's) node \<times> ('t, 's) node option) option" where
  "push_tree_recursive ops (Internal h s css cts) other =
     (let s' = s_add ops s (node_summary other) in
      if h < node_height other then None
      else if h - node_height other = 0 then do {
        other_trees \<leftarrow> child_trees other;
        push_children ops h s' css cts (child_summaries other) other_trees
      }
      else if h - node_height other = 1 \<and> \<not> is_underflowing other then
        push_children ops h s' css cts [node_summary other] [other]
      else do {
        (init_trees, last_child) \<leftarrow> init_last cts;
        (last_child', tree_to_append) \<leftarrow> push_tree_recursive ops last_child other;
        (init_summaries, _) \<leftarrow> init_last css;
        let css' = init_summaries @ [node_summary last_child'];
        let cts' = init_trees @ [last_child'];
        case tree_to_append of
          None \<Rightarrow> push_children ops h s' css' cts' [] []
        | Some split_tree \<Rightarrow> push_children ops h s' css' cts' [node_summary split_tree] [split_tree]
      })"
| "push_tree_recursive ops (Leaf s xs ss) other = do {
     other_items \<leftarrow> items other;
     let child_count = length xs + length other_items;
     if child_count > CAP then
       let midpoint = (child_count + child_count mod 2) div 2;
           all_items = xs @ other_items;
           all_summaries = ss @ child_summaries other
       in do {
         left_items \<leftarrow> fit CAP (take midpoint all_items);
         right_items \<leftarrow> fit CAP (drop midpoint all_items);
         left_summaries \<leftarrow> fit CAP (take midpoint all_summaries);
         right_summaries \<leftarrow> fit CAP (drop midpoint all_summaries);
         Some (Leaf (sum_summaries ops left_summaries) left_items left_summaries,
               Some (Leaf (sum_summaries ops right_summaries) right_items right_summaries))
       }
     else do {
       xs' \<leftarrow> fit CAP (xs @ other_items);
       ss' \<leftarrow> fit CAP (ss @ child_summaries other);
       Some (Leaf (s_add ops s (node_summary other)) xs' ss', None)
     }
   }"

text \<open>
  \<open>merge_into_right\<close>: \<open>large\<close> takes the contents of \<open>small\<close> in front of its own; on
  overflow the first half is returned and \<open>large\<close> keeps the second. Returns the new
  \<open>large\<close> and the result.
\<close>

fun merge_into_right ::
    "('t, 's) summary_ops \<Rightarrow> ('t, 's) node \<Rightarrow> ('t, 's) node \<Rightarrow> (('t, 's) node \<times> ('t, 's) node option) option" where
  "merge_into_right ops (Internal sh ss scss scts) (Internal h s css cts) =
     (let total_child_count = length cts + length scts in
      if total_child_count \<le> CAP then do {
        all_trees \<leftarrow> fit CAP (scts @ cts);
        all_summaries \<leftarrow> fit CAP (scss @ css);
        Some (Internal h (s_add ops ss s) all_summaries all_trees, None)
      }
      else let midpoint = (total_child_count + 1) div 2 in do {
        left_trees \<leftarrow> fit CAP (take midpoint (scts @ cts));
        cts' \<leftarrow> fit CAP (drop midpoint (scts @ cts));
        left_summaries \<leftarrow> fit CAP (take midpoint (scss @ css));
        css' \<leftarrow> fit CAP (drop midpoint (scss @ css));
        Some (Internal h (sum_summaries ops css') css' cts',
              Some (Internal h (sum_summaries ops left_summaries) left_summaries left_trees))
      })"
| "merge_into_right ops (Leaf ss sxs sss) (Leaf s xs iss) =
     (let total_child_count = length sxs + length xs in
      if total_child_count \<le> CAP then do {
        all_items \<leftarrow> fit CAP (sxs @ xs);
        all_summaries \<leftarrow> fit CAP (sss @ iss);
        Some (Leaf (s_add ops ss s) all_items all_summaries, None)
      }
      else let midpoint = (total_child_count + 1) div 2 in do {
        left_items \<leftarrow> fit CAP (take midpoint (sxs @ xs));
        xs' \<leftarrow> fit CAP (drop midpoint (sxs @ xs));
        left_summaries \<leftarrow> fit CAP (take midpoint (sss @ iss));
        iss' \<leftarrow> fit CAP (drop midpoint (sss @ iss));
        Some (Leaf (sum_summaries ops iss') xs' iss',
              Some (Leaf (sum_summaries ops left_summaries) left_items left_summaries))
      })"
| "merge_into_right ops _ _ = None"

text \<open>\<open>append_large\<close>: the new \<open>large\<close> and the tree that did not fit in front of it.\<close>

fun append_large ::
    "('t, 's) summary_ops \<Rightarrow> ('t, 's) node \<Rightarrow> ('t, 's) node \<Rightarrow> (('t, 's) node \<times> ('t, 's) node option) option" where
  "append_large ops small (Leaf s xs ss) =
     (if node_height small = 0 then
        if \<not> is_underflowing small then Some (Leaf s xs ss, Some small)
        else merge_into_right ops small (Leaf s xs ss)
      else None)"
| "append_large ops small (Internal h s css cts) =
     (if node_height small = h then
        if \<not> is_underflowing small then Some (Internal h s css cts, Some small)
        else merge_into_right ops small (Internal h s css cts)
      else do {
        let full_summary = s_add ops (node_summary small) s;
        (first, rest_trees) \<leftarrow> first_rest cts;
        (first', res) \<leftarrow> append_large ops small first;
        (_, rest_summaries) \<leftarrow> first_rest css;
        let cts' = first' # rest_trees;
        let css' = node_summary first' # rest_summaries;
        case res of
          None \<Rightarrow> Some (Internal h full_summary css' cts', None)
        | Some tree \<Rightarrow>
            if length cts' < CAP then do {
              css'' \<leftarrow> fit CAP (node_summary tree # css');
              cts'' \<leftarrow> fit CAP (tree # cts');
              Some (Internal h full_summary css'' cts'', None)
            }
            else do {
              drained_summaries \<leftarrow> slice_to css' TREE_BASE;
              kept_summaries \<leftarrow> slice_from css' TREE_BASE;
              new_child_summaries \<leftarrow> fit CAP (node_summary tree # drained_summaries);
              drained_trees \<leftarrow> slice_to cts' TREE_BASE;
              kept_trees \<leftarrow> slice_from cts' TREE_BASE;
              new_child_trees \<leftarrow> fit CAP (tree # drained_trees);
              Some (Internal h (sum_summaries ops kept_summaries) kept_summaries kept_trees,
                    Some (Internal h (sum_summaries ops new_child_summaries)
                           new_child_summaries new_child_trees))
            }
      })"

definition append_tree :: "('t, 's) summary_ops \<Rightarrow> ('t, 's) node \<Rightarrow> ('t, 's) node \<Rightarrow> ('t, 's) node option" where
  "append_tree ops self other =
     (if is_empty self then Some other
      else if \<not> is_empty other then
        if node_height self < node_height other then do {
          (other', res) \<leftarrow> append_large ops self other;
          case res of
            Some tree \<Rightarrow> Some (from_child_trees ops tree other')
          | None \<Rightarrow> Some other'
        }
        else do {
          (self', res) \<leftarrow> push_tree_recursive ops self other;
          case res of
            Some split_tree \<Rightarrow> Some (from_child_trees ops self' split_tree)
          | None \<Rightarrow> Some self'
        }
      else Some self)"

definition push :: "('t, 's) summary_ops \<Rightarrow> ('t, 's) node \<Rightarrow> 't \<Rightarrow> ('t, 's) node option" where
  "push ops self item =
     (let summary = s_item ops item in append_tree ops self (Leaf summary [item] [summary]))"

definition from_item :: "('t, 's) summary_ops \<Rightarrow> 't \<Rightarrow> ('t, 's) node option" where
  "from_item ops item = push ops (new_tree ops) item"

section \<open>Building from a sequence\<close>

text \<open>The chunks of \<open>2 * TREE_BASE\<close> elements that \<open>iter.by_ref().take(2 * TREE_BASE)\<close> collects in turn.\<close>

function chunks :: "'a list \<Rightarrow> 'a list list" where
  "chunks xs = (if xs = [] then [] else take CAP xs # chunks (drop CAP xs))"
  by pat_completeness auto
termination
  by (relation "measure length") (auto simp: TREE_BASE_def)

declare chunks.simps [simp del]

text \<open>
  One leaf of \<open>from_iter\<close> and \<open>from_par_iter\<close>: the summary starts from \<open>item_summaries[0]\<close>, not
  from zero.
\<close>

definition leaf_from_items :: "('t, 's) summary_ops \<Rightarrow> 't list \<Rightarrow> ('t, 's) node option" where
  "leaf_from_items ops xs = do {
     its \<leftarrow> fit CAP xs;
     item_summaries \<leftarrow> fit CAP (map (s_item ops) its);
     (s, rest) \<leftarrow> first_rest item_summaries;
     Some (Leaf (foldl (s_add ops) s rest) its item_summaries)
   }"

text \<open>One parent of \<open>from_par_iter\<close>, from a chunk of children.\<close>

definition parent_from_children ::
    "('t, 's) summary_ops \<Rightarrow> nat \<Rightarrow> ('t, 's) node list \<Rightarrow> ('t, 's) node option" where
  "parent_from_children ops height child_nodes = do {
     cts \<leftarrow> fit CAP child_nodes;
     css \<leftarrow> fit CAP (map node_summary cts);
     (s, rest) \<leftarrow> first_rest css;
     Some (Internal height (foldl (s_add ops) s rest) css cts)
   }"

text \<open>
  The \<open>for child_node in nodes.drain(..)\<close> loop of \<open>from_iter\<close>: children are added to the current
  parent, which is emitted when it is full and at the end.
\<close>

fun add_child :: "('t, 's) summary_ops \<Rightarrow> ('t, 's) node \<Rightarrow> ('t, 's) node \<Rightarrow> ('t, 's) node option" where
  "add_child ops (Internal h s css cts) child = do {
     css' \<leftarrow> fit CAP (css @ [node_summary child]);
     cts' \<leftarrow> fit CAP (cts @ [child]);
     Some (Internal h (s_add ops s (node_summary child)) css' cts')
   }"
| "add_child ops (Leaf _ _ _) child = None"

fun from_iter_level ::
    "('t, 's) summary_ops \<Rightarrow> nat \<Rightarrow> ('t, 's) node list \<Rightarrow> ('t, 's) node option \<Rightarrow> ('t, 's) node list \<Rightarrow>
     ('t, 's) node list option" where
  "from_iter_level ops height [] current parents =
     Some (parents @ (case current of None \<Rightarrow> [] | Some p \<Rightarrow> [p]))"
| "from_iter_level ops height (child # rest) current parents = do {
     let parent = (case current of Some p \<Rightarrow> p | None \<Rightarrow> Internal height (s_zero ops) [] []);
     parent' \<leftarrow> add_child ops parent child;
     trees \<leftarrow> child_trees parent';
     if length trees = CAP then from_iter_level ops height rest None (parents @ [parent'])
     else from_iter_level ops height rest (Some parent') parents
   }"

partial_function (option) from_iter_loop ::
    "('t, 's) summary_ops \<Rightarrow> nat \<Rightarrow> ('t, 's) node list \<Rightarrow> ('t, 's) node list option" where
  "from_iter_loop ops height nodes =
     (if length nodes > 1 then
        do { nodes' \<leftarrow> from_iter_level ops (height + 1) nodes None [];
             from_iter_loop ops (height + 1) nodes' }
      else Some nodes)"

declare from_iter_loop.simps [code]

definition from_iter :: "('t, 's) summary_ops \<Rightarrow> 't list \<Rightarrow> ('t, 's) node option" where
  "from_iter ops xs = do {
     leaves \<leftarrow> those (map (leaf_from_items ops) (chunks xs));
     nodes \<leftarrow> from_iter_loop ops 0 leaves;
     case nodes of [] \<Rightarrow> Some (new_tree ops) | _ \<Rightarrow> Some (last nodes)
   }"

text \<open>
  \<open>from_par_iter\<close> relies on rayon: \<open>item_chunks\<close> and \<open>node_chunks\<close> stand for
  \<open>into_par_iter().chunks(2 * TREE_BASE)\<close> on the items and on the nodes of one level.
\<close>

partial_function (option) from_par_iter_loop ::
    "(('t, 's) node list \<Rightarrow> ('t, 's) node list list) \<Rightarrow> ('t, 's) summary_ops \<Rightarrow> nat \<Rightarrow>
     ('t, 's) node list \<Rightarrow> ('t, 's) node list option" where
  "from_par_iter_loop node_chunks ops height nodes =
     (if length nodes > 1 then
        do { nodes' \<leftarrow> those (map (parent_from_children ops (height + 1)) (node_chunks nodes));
             from_par_iter_loop node_chunks ops (height + 1) nodes' }
      else Some nodes)"

declare from_par_iter_loop.simps [code]

definition from_par_iter ::
    "('t list \<Rightarrow> 't list list) \<Rightarrow> (('t, 's) node list \<Rightarrow> ('t, 's) node list list) \<Rightarrow>
     ('t, 's) summary_ops \<Rightarrow> 't list \<Rightarrow> ('t, 's) node option" where
  "from_par_iter item_chunks node_chunks ops xs = do {
     leaves \<leftarrow> those (map (leaf_from_items ops) (item_chunks xs));
     nodes \<leftarrow> from_par_iter_loop node_chunks ops 0 leaves;
     case nodes of [] \<Rightarrow> Some (new_tree ops) | _ \<Rightarrow> Some (last nodes)
   }"

definition tree_extend :: "('t, 's) summary_ops \<Rightarrow> ('t, 's) node \<Rightarrow> 't list \<Rightarrow> ('t, 's) node option" where
  "tree_extend ops self xs = do { t \<leftarrow> from_iter ops xs; append_tree ops self t }"

definition par_extend ::
    "('t list \<Rightarrow> 't list list) \<Rightarrow> (('t, 's) node list \<Rightarrow> ('t, 's) node list list) \<Rightarrow>
     ('t, 's) summary_ops \<Rightarrow> ('t, 's) node \<Rightarrow> 't list \<Rightarrow> ('t, 's) node option" where
  "par_extend item_chunks node_chunks ops self xs = do {
     t \<leftarrow> from_par_iter item_chunks node_chunks ops xs; append_tree ops self t }"

section \<open>Updating the first and the last item in place\<close>

text \<open>The closure \<open>f: FnOnce(&mut T)\<close> is the function from the old item to the new one.\<close>

fun update_last_recursive ::
    "('t, 's) summary_ops \<Rightarrow> ('t \<Rightarrow> 't) \<Rightarrow> ('t, 's) node \<Rightarrow> (('t, 's) node \<times> 's option) option" where
  "update_last_recursive ops f (Internal h s css cts) = do {
     (init_summaries, _) \<leftarrow> init_last css;
     (init_trees, last_child) \<leftarrow> init_last cts;
     (last_child', res) \<leftarrow> update_last_recursive ops f last_child;
     last_summary' \<leftarrow> res;
     let css' = init_summaries @ [last_summary'];
     let s' = sum_summaries ops css';
     Some (Internal h s' css' (init_trees @ [last_child']), Some s')
   }"
| "update_last_recursive ops f (Leaf s xs ss) =
     (case (init_last xs, init_last ss) of
        (Some (init_items, item), Some (init_summaries, _)) \<Rightarrow>
          let item' = f item;
              ss' = init_summaries @ [s_item ops item'];
              s' = sum_summaries ops ss'
          in Some (Leaf s' (init_items @ [item']) ss', Some s')
      | _ \<Rightarrow> Some (Leaf s xs ss, None))"

fun update_first_recursive ::
    "('t, 's) summary_ops \<Rightarrow> ('t \<Rightarrow> 't) \<Rightarrow> ('t, 's) node \<Rightarrow> (('t, 's) node \<times> 's option) option" where
  "update_first_recursive ops f (Internal h s css cts) = do {
     (_, rest_summaries) \<leftarrow> first_rest css;
     (first_child, rest_trees) \<leftarrow> first_rest cts;
     (first_child', res) \<leftarrow> update_first_recursive ops f first_child;
     first_summary' \<leftarrow> res;
     let css' = first_summary' # rest_summaries;
     let s' = sum_summaries ops css';
     Some (Internal h s' css' (first_child' # rest_trees), Some s')
   }"
| "update_first_recursive ops f (Leaf s xs ss) =
     (case (first_rest xs, first_rest ss) of
        (Some (item, rest_items), Some (_, rest_summaries)) \<Rightarrow>
          let item' = f item;
              ss' = s_item ops item' # rest_summaries;
              s' = sum_summaries ops ss'
          in Some (Leaf s' (item' # rest_items) ss', Some s')
      | _ \<Rightarrow> Some (Leaf s xs ss, None))"

definition update_last :: "('t, 's) summary_ops \<Rightarrow> ('t \<Rightarrow> 't) \<Rightarrow> ('t, 's) node \<Rightarrow> ('t, 's) node option" where
  "update_last ops f t = map_option fst (update_last_recursive ops f t)"

definition update_first :: "('t, 's) summary_ops \<Rightarrow> ('t \<Rightarrow> 't) \<Rightarrow> ('t, 's) node \<Rightarrow> ('t, 's) node option" where
  "update_first ops f t = map_option fst (update_first_recursive ops f t)"

section \<open>Correctness of appending\<close>

context summary_laws
begin

text \<open>
  What the two recursive directions return: one node, or two of the same height in order, that
  together hold the sequence.
\<close>

definition grown :: "nat \<Rightarrow> 't list \<Rightarrow> ('t, 's) node \<times> ('t, 's) node option \<Rightarrow> bool" where
  "grown h xs p \<longleftrightarrow> wf_node ops (fst p) \<and> node_height (fst p) = h \<and>
     (case snd p of
        None \<Rightarrow> to_list (fst p) = xs
      | Some r \<Rightarrow> wf_node ops r \<and> node_height r = h \<and> to_list (fst p) @ to_list r = xs)"

lemma divided_internal:
  assumes "\<forall>c \<in> set cts. wf_node ops c \<and> Suc (node_height c) = h"
    and "0 < m" "m < length cts" "m \<le> CAP" "length cts - m \<le> CAP"
  shows "wf_node ops (Internal h (sum_summaries ops (map node_summary (take m cts)))
             (map node_summary (take m cts)) (take m cts))"
    and "wf_node ops (Internal h (sum_summaries ops (map node_summary (drop m cts)))
             (map node_summary (drop m cts)) (drop m cts))"
  using assms by (auto dest: in_set_takeD in_set_dropD)

lemma divided_leaf:
  assumes "0 < m" "m < length xs" "m \<le> CAP" "length xs - m \<le> CAP"
  shows "wf_node ops (Leaf (sum_summaries ops (map (s_item ops) (take m xs)))
             (take m xs) (map (s_item ops) (take m xs)))"
    and "wf_node ops (Leaf (sum_summaries ops (map (s_item ops) (drop m xs)))
             (drop m xs) (map (s_item ops) (drop m xs)))"
  using assms by auto

lemma midpoint_bounds:
  fixes n :: nat
  assumes "CAP < n" "n \<le> CAP + CAP"
  shows "0 < (n + n mod 2) div 2" "(n + n mod 2) div 2 < n"
    "(n + n mod 2) div 2 \<le> CAP" "n - (n + n mod 2) div 2 \<le> CAP"
  using assms by (auto simp: TREE_BASE_def)

lemma push_children_ok:
  assumes kids: "\<forall>c \<in> set (cts @ ats). wf_node ops c \<and> Suc (node_height c) = h"
    and ne: "cts \<noteq> []" and len: "length cts \<le> CAP" "length ats \<le> CAP"
    and css: "css = map node_summary cts" and ass: "ass = map node_summary ats"
    and s: "s = lsum (concat (map to_list (cts @ ats)))"
  shows "\<exists>p. push_children ops h s css cts ass ats = Some p
           \<and> grown h (concat (map to_list (cts @ ats))) p"
proof -
  define all where "all = cts @ ats"
  have eqs: "length cts + length ats = length all" "css @ ass = map node_summary all"
      "cts @ ats = all"
    by (simp_all add: all_def css ass)
  show ?thesis
  proof (cases "length all > CAP")
    case True
    define m where "m = (length all + length all mod 2) div 2"
    have m: "0 < m" "m < length all" "m \<le> CAP" "length all - m \<le> CAP"
      unfolding m_def using True len eqs(1) by (intro midpoint_bounds; simp)+
    have "push_children ops h s css cts ass ats = Some
        (Internal h (sum_summaries ops (map node_summary (take m all)))
            (map node_summary (take m all)) (take m all),
         Some (Internal h (sum_summaries ops (map node_summary (drop m all)))
            (map node_summary (drop m all)) (drop m all)))"
      unfolding push_children_def Let_def eqs m_def [symmetric] using True m
      by (simp add: take_map drop_map)
    then show ?thesis
      using divided_internal [OF kids [unfolded eqs] m] concat_map_take_drop [of to_list m all]
      by (simp add: grown_def eqs del: wf_node.simps)
  next
    case False
    then have "wf_node ops (Internal h s (map node_summary all) all)"
      using kids ne s unfolding eqs by (intro wf_InternalI) (auto simp: all_def)
    with False show ?thesis
      unfolding push_children_def Let_def eqs by (simp add: grown_def del: wf_node.simps)
  qed
qed

lemma push_leaf_ok:
  assumes "wf_node ops (Leaf s xs ss)" "wf_node ops (Leaf os oxs oss)"
  shows "\<exists>p. push_tree_recursive ops (Leaf s xs ss) (Leaf os oxs oss) = Some p
           \<and> grown 0 (xs @ oxs) p"
proof -
  define all where "all = xs @ oxs"
  have eqs: "length xs + length oxs = length all" "xs @ oxs = all" "ss @ oss = map (s_item ops) all"
    using assms by (simp_all add: all_def)
  have sum: "s_add ops s os = lsum all"
    using assms by (simp add: all_def lsum_append) (simp add: lsum_def)
  show ?thesis
  proof (cases "length all > CAP")
    case True
    define m where "m = (length all + length all mod 2) div 2"
    have m: "0 < m" "m < length all" "m \<le> CAP" "length all - m \<le> CAP"
      unfolding m_def using True assms eqs(1) by (intro midpoint_bounds; simp)+
    have "push_tree_recursive ops (Leaf s xs ss) (Leaf os oxs oss) = Some
        (Leaf (sum_summaries ops (map (s_item ops) (take m all))) (take m all)
            (map (s_item ops) (take m all)),
         Some (Leaf (sum_summaries ops (map (s_item ops) (drop m all))) (drop m all)
            (map (s_item ops) (drop m all))))"
      unfolding push_tree_recursive.simps items.simps child_summaries.simps
        bind.bind_lunit Let_def eqs m_def [symmetric] using True m
      by (simp add: take_map drop_map)
    then show ?thesis
      using divided_leaf [OF m] by (simp add: grown_def eqs del: wf_node.simps)
  next
    case False
    then have "wf_node ops (Leaf (lsum all) all (map (s_item ops) all))"
      using assms by (intro wf_LeafI) (auto simp: all_def)
    with False show ?thesis
      unfolding push_tree_recursive.simps items.simps child_summaries.simps bind.bind_lunit Let_def eqs
      by (simp add: grown_def sum del: wf_node.simps)
  qed
qed

lemma wf_children:
  assumes "wf_node ops (Internal h s css cts)"
  shows "\<forall>c \<in> set cts. wf_node ops c \<and> Suc (node_height c) = h" "cts \<noteq> []" "length cts \<le> CAP"
    "css = map node_summary cts" "s = lsum (concat (map to_list cts))"
  using assms by (simp_all add: wf_internal_sum)

lemma push_tree_recursive_ok:
  assumes "wf_node ops self" "wf_node ops other" "node_height other \<le> node_height self"
  shows "\<exists>p. push_tree_recursive ops self other = Some p
           \<and> grown (node_height self) (to_list self @ to_list other) p"
  using assms
proof (induction self)
  case (Leaf s xs ss)
  then obtain os oxs oss where other: "other = Leaf os oxs oss"
    by (cases other) (auto dest: wf_height_pos simp del: wf_node.simps)
  with Leaf show ?case
    using push_leaf_ok by (simp del: wf_node.simps push_tree_recursive.simps)
next
  case (Internal h s css cts)
  note kids = wf_children [OF Internal.prems(1)]
  have ho: "node_height other \<le> h" using Internal.prems(3) by simp
  have s': "s_add ops s (node_summary other) = lsum (concat (map to_list cts) @ to_list other)"
    using Internal.prems(2) kids(5) by (simp add: wf_summary lsum_append to_list_nonempty)
  consider (same) "h - node_height other = 0"
    | (sibling) "h - node_height other = 1" "\<not> is_underflowing other"
    | (deep) "h - node_height other \<noteq> 0" "\<not> (h - node_height other = 1 \<and> \<not> is_underflowing other)"
    by blast
  then show ?case
  proof cases
    case same
    with ho have "h = node_height other" by simp
    moreover have "0 < h" using Internal.prems(1) by (rule wf_height_pos)
    ultimately obtain os ocss octs where other: "other = Internal h os ocss octs"
      by (cases other) auto
    note okids = wf_children [OF Internal.prems(2) [unfolded other]]
    from s' other have s'': "s_add ops s os = lsum (concat (map to_list (cts @ octs)))"
      by simp
    have all: "\<forall>c \<in> set (cts @ octs). wf_node ops c \<and> Suc (node_height c) = h"
      using kids(1) okids(1) by auto
    from push_children_ok [OF all kids(2,3) okids(3) kids(4) okids(4) s'']
    show ?thesis using ho same by (simp add: other)
  next
    case sibling
    from s' have s'': "s_add ops s (node_summary other) = lsum (concat (map to_list (cts @ [other])))"
      by simp
    have all: "\<forall>c \<in> set (cts @ [other]). wf_node ops c \<and> Suc (node_height c) = h"
      using kids(1) sibling Internal.prems(2) by auto
    from push_children_ok [OF all kids(2,3) _ kids(4) _ s'', of "[node_summary other]"]
    show ?thesis using ho sibling by (simp add: TREE_BASE_def)
  next
    case deep
    from kids(2) obtain its l where cts: "cts = its @ [l]" by (metis rev_exhaust)
    from kids(1) have l: "wf_node ops l" "Suc (node_height l) = h" by (auto simp: cts)
    have "node_height other \<le> node_height l" using deep(1) ho l(2) by linarith
    with Internal.IH [of l] Internal.prems(2) l(1) obtain l' r
      where rec: "push_tree_recursive ops l other = Some (l', r)"
        and g: "grown (node_height l) (to_list l @ to_list other) (l', r)"
      by (auto simp: cts)
    define ats where "ats = (case r of None \<Rightarrow> [] | Some t \<Rightarrow> [t])"
    have all: "\<forall>c \<in> set ((its @ [l']) @ ats). wf_node ops c \<and> Suc (node_height c) = h"
      using kids(1) g l(2) by (auto simp: cts ats_def grown_def split: option.splits)
    have lists: "concat (map to_list ((its @ [l']) @ ats)) = concat (map to_list cts) @ to_list other"
      using g by (auto simp: cts ats_def grown_def split: option.splits)
    have "\<exists>p. push_children ops h (s_add ops s (node_summary other)) (map node_summary (its @ [l']))
            (its @ [l']) (map node_summary ats) ats = Some p
          \<and> grown h (concat (map to_list ((its @ [l']) @ ats))) p"
      using kids(3) s' lists
      by (intro push_children_ok all) (auto simp: ats_def cts TREE_BASE_def split: option.splits)
    moreover have "push_tree_recursive ops (Internal h s css cts) other
        = push_children ops h (s_add ops s (node_summary other)) (map node_summary (its @ [l']))
            (its @ [l']) (map node_summary ats) ats"
      using ho deep rec kids(4) by (auto simp: Let_def cts ats_def split: option.splits)
    ultimately show ?thesis using lists by simp
  qed
qed

text \<open>The same from the other side: the returned node comes before the kept one.\<close>

definition grown_left :: "nat \<Rightarrow> 't list \<Rightarrow> ('t, 's) node \<times> ('t, 's) node option \<Rightarrow> bool" where
  "grown_left h xs p \<longleftrightarrow>
     (case snd p of None \<Rightarrow> grown h xs p | Some r \<Rightarrow> grown h xs (r, Some (fst p)))"

lemma merge_into_right_internal_ok:
  assumes "wf_node ops (Internal h ss scss scts)" "wf_node ops (Internal h s css cts)"
  shows "\<exists>p. merge_into_right ops (Internal h ss scss scts) (Internal h s css cts) = Some p
           \<and> grown_left h (concat (map to_list (scts @ cts))) p"
proof -
  note small = wf_children [OF assms(1)] and large = wf_children [OF assms(2)]
  define all where "all = scts @ cts"
  have eqs: "length cts + length scts = length all" "scts @ cts = all" "scss @ css = map node_summary all"
    by (simp_all add: all_def small(4) large(4))
  have kids: "\<forall>c \<in> set all. wf_node ops c \<and> Suc (node_height c) = h"
    using small(1) large(1) by (auto simp: all_def)
  have sum: "s_add ops ss s = lsum (concat (map to_list all))"
    using small(5) large(5) to_list_nonempty [OF assms(2)] by (simp add: all_def lsum_append)
  show ?thesis
  proof (cases "length all \<le> CAP")
    case True
    then have "wf_node ops (Internal h (lsum (concat (map to_list all))) (map node_summary all) all)"
      using kids small(2) by (intro wf_InternalI) (auto simp: all_def)
    with True show ?thesis
      unfolding merge_into_right.simps Let_def eqs by (simp add: grown_left_def grown_def sum del: wf_node.simps)
  next
    case False
    define m where "m = (length all + 1) div 2"
    have m: "0 < m" "m < length all" "m \<le> CAP" "length all - m \<le> CAP"
      unfolding m_def using False small(3) large(3) by (auto simp: TREE_BASE_def all_def)
    have "merge_into_right ops (Internal h ss scss scts) (Internal h s css cts) = Some
        (Internal h (sum_summaries ops (map node_summary (drop m all)))
            (map node_summary (drop m all)) (drop m all),
         Some (Internal h (sum_summaries ops (map node_summary (take m all)))
            (map node_summary (take m all)) (take m all)))"
      unfolding merge_into_right.simps Let_def eqs m_def [symmetric] using False m
      by (simp add: take_map drop_map)
    then show ?thesis
      using divided_internal [OF kids m] concat_map_take_drop [of to_list m all]
      by (simp add: grown_left_def grown_def eqs del: wf_node.simps)
  qed
qed

lemma merge_into_right_leaf_ok:
  assumes "wf_node ops (Leaf ss sxs sss)" "wf_node ops (Leaf s xs iss)"
  shows "\<exists>p. merge_into_right ops (Leaf ss sxs sss) (Leaf s xs iss) = Some p
           \<and> grown_left 0 (sxs @ xs) p"
proof -
  define all where "all = sxs @ xs"
  have eqs: "length sxs + length xs = length all" "sxs @ xs = all" "sss @ iss = map (s_item ops) all"
    using assms by (simp_all add: all_def)
  have sum: "s_add ops ss s = lsum all"
    using assms by (simp add: all_def lsum_append) (simp add: lsum_def)
  show ?thesis
  proof (cases "length all \<le> CAP")
    case True
    then have "wf_node ops (Leaf (lsum all) all (map (s_item ops) all))"
      using assms by (intro wf_LeafI) (auto simp: all_def)
    with True show ?thesis
      unfolding merge_into_right.simps Let_def eqs by (simp add: grown_left_def grown_def sum del: wf_node.simps)
  next
    case False
    define m where "m = (length all + 1) div 2"
    have m: "0 < m" "m < length all" "m \<le> CAP" "length all - m \<le> CAP"
      unfolding m_def using False assms by (auto simp: TREE_BASE_def all_def)
    have "merge_into_right ops (Leaf ss sxs sss) (Leaf s xs iss) = Some
        (Leaf (sum_summaries ops (map (s_item ops) (drop m all))) (drop m all)
            (map (s_item ops) (drop m all)),
         Some (Leaf (sum_summaries ops (map (s_item ops) (take m all))) (take m all)
            (map (s_item ops) (take m all))))"
      unfolding merge_into_right.simps Let_def eqs m_def [symmetric] using False m
      by (simp add: take_map drop_map)
    then show ?thesis
      using divided_leaf [OF m] by (simp add: grown_left_def grown_def eqs del: wf_node.simps)
  qed
qed

lemma append_large_same_ok:
  assumes "wf_node ops small" "wf_node ops large" "node_height small = node_height large"
  shows "\<exists>p. (if \<not> is_underflowing small then Some (large, Some small)
            else merge_into_right ops small large) = Some p
           \<and> grown_left (node_height large) (to_list small @ to_list large) p"
proof (cases large)
  case (Leaf s xs ss)
  with assms obtain s2 xs2 ss2 where "small = Leaf s2 xs2 ss2"
    by (cases small) (auto dest: wf_height_pos simp del: wf_node.simps)
  with Leaf assms merge_into_right_leaf_ok show ?thesis
    by (simp add: grown_left_def grown_def del: wf_node.simps merge_into_right.simps)
next
  case (Internal h s css cts)
  with assms obtain s2 css2 cts2 where "small = Internal h s2 css2 cts2"
    using wf_height_pos by (cases small) fastforce+
  with Internal assms merge_into_right_internal_ok show ?thesis
    by (simp add: grown_left_def grown_def del: wf_node.simps merge_into_right.simps)
qed

lemma append_large_ok:
  assumes "wf_node ops small" "wf_node ops large" "node_height small \<le> node_height large"
  shows "\<exists>p. append_large ops small large = Some p
           \<and> grown_left (node_height large) (to_list small @ to_list large) p"
  using assms
proof (induction large)
  case (Leaf s xs ss)
  then show ?case
    using append_large_same_ok [of small "Leaf s xs ss"] by (simp del: wf_node.simps)
next
  case (Internal h s css cts)
  note kids = wf_children [OF Internal.prems(2)]
  show ?case
  proof (cases "node_height small = h")
    case True
    with Internal.prems show ?thesis
      using append_large_same_ok [of small "Internal h s css cts"] by (simp del: wf_node.simps)
  next
    case False
    from kids(2) obtain c rs where cts: "cts = c # rs" by (cases cts) auto
    from kids(1) have c: "wf_node ops c" "Suc (node_height c) = h" by (auto simp: cts)
    have "node_height small \<le> node_height c" using False Internal.prems(3) c(2) by simp
    with Internal.IH [of c] Internal.prems(1) c(1) obtain c' r
      where rec: "append_large ops small c = Some (c', r)"
        and g: "grown_left (node_height c) (to_list small @ to_list c) (c', r)"
      by (auto simp: cts)
    define pre where "pre = (case r of None \<Rightarrow> [] | Some t \<Rightarrow> [t])"
    define all where "all = pre @ c' # rs"
    have kids': "\<forall>c \<in> set all. wf_node ops c \<and> Suc (node_height c) = h"
      using kids(1) g c(2)
      by (auto simp: cts all_def pre_def grown_left_def grown_def split: option.splits)
    have lists: "concat (map to_list all) = to_list small @ concat (map to_list cts)"
      using g by (auto simp: cts all_def pre_def grown_left_def grown_def split: option.splits)
    have sum: "s_add ops (node_summary small) s = lsum (concat (map to_list all))"
      unfolding lists using Internal.prems(1,2) kids(5) to_list_nonempty [OF Internal.prems(2)]
      by (simp add: wf_summary lsum_append)
    show ?thesis
    proof (cases "length all \<le> CAP")
      case True
      then have "wf_node ops (Internal h (lsum (concat (map to_list all))) (map node_summary all) all)"
        using kids' by (intro wf_InternalI) (auto simp: all_def)
      moreover have "append_large ops small (Internal h s css cts)
          = Some (Internal h (lsum (concat (map to_list all))) (map node_summary all) all, None)"
        using True False rec kids(4) sum
        by (auto simp: cts all_def pre_def Let_def split: option.splits)
      ultimately show ?thesis
        using lists by (simp add: grown_left_def grown_def del: wf_node.simps)
    next
      case large: False
      then obtain t where r: "r = Some t" and len: "length (c' # rs) = CAP"
        using kids(3) by (auto simp: all_def pre_def cts split: option.splits)
      define m where "m = Suc TREE_BASE"
      have m: "0 < m" "m < length all" "m \<le> CAP" "length all - m \<le> CAP"
        using len by (auto simp: all_def pre_def r m_def TREE_BASE_def)
      have "append_large ops small (Internal h s css cts) = Some
          (Internal h (sum_summaries ops (map node_summary (drop m all)))
              (map node_summary (drop m all)) (drop m all),
           Some (Internal h (sum_summaries ops (map node_summary (take m all)))
              (map node_summary (take m all)) (take m all)))"
        using False rec kids(4) r len m
        by (simp add: cts all_def pre_def Let_def m_def take_map drop_map flip: list.map(2))
          (simp add: TREE_BASE_def take_map drop_map)
      then show ?thesis
        using divided_internal [OF kids' m] concat_map_take_drop [of to_list m all] lists
        by (simp add: grown_left_def grown_def del: wf_node.simps)
    qed
  qed
qed

lemma from_child_trees_ok:
  assumes "wf_node ops l" "wf_node ops r" "node_height l = node_height r"
  shows "wf_node ops (from_child_trees ops l r)"
    and "to_list (from_child_trees ops l r) = to_list l @ to_list r"
  using assms by (auto simp: from_child_trees_def Let_def TREE_BASE_def)

lemma append_tree_ok:
  assumes "tree_ok ops self" "tree_ok ops other"
  shows "\<exists>t. append_tree ops self other = Some t \<and> tree_ok ops t \<and> to_list t = to_list self @ to_list other"
  using assms(1)
proof (cases rule: tree_ok_cases)
  case 1
  then show ?thesis using assms(2) by (simp add: append_tree_def)
next
  case self: 2
  show ?thesis using assms(2)
  proof (cases rule: tree_ok_cases)
    case 1
    then show ?thesis using assms(1) self by (simp add: append_tree_def)
  next
    case other: 2
    show ?thesis
    proof (cases "node_height self < node_height other")
      case True
      then obtain p where "append_large ops self other = Some p"
          "grown_left (node_height other) (to_list self @ to_list other) p"
        using append_large_ok [OF self(1) other(1)] by auto
      then show ?thesis using True self other
        by (cases p) (auto simp: append_tree_def grown_left_def grown_def from_child_trees_ok
            split: option.splits)
    next
      case False
      then obtain p where "push_tree_recursive ops self other = Some p"
          "grown (node_height self) (to_list self @ to_list other) p"
        using push_tree_recursive_ok [OF self(1) other(1)] by auto
      then show ?thesis using False self other
        by (cases p) (auto simp: append_tree_def grown_def from_child_trees_ok split: option.splits)
    qed
  qed
qed

lemma push_ok:
  assumes "tree_ok ops t"
  shows "\<exists>t'. push ops t x = Some t' \<and> tree_ok ops t' \<and> to_list t' = to_list t @ [x]"
proof -
  have "tree_ok ops (Leaf (s_item ops x) [x] [s_item ops x])"
    by (auto intro!: tree_ok_wf simp: TREE_BASE_def)
  from append_tree_ok [OF assms this] show ?thesis by (simp add: push_def Let_def)
qed

lemma from_item_ok: "\<exists>t. from_item ops x = Some t \<and> tree_ok ops t \<and> to_list t = [x]"
  using push_ok [of "new_tree ops" x] by (simp add: from_item_def)

end

section \<open>Correctness of building\<close>

lemma those_map_Some: "(\<And>x. x \<in> set xs \<Longrightarrow> f x = Some (g x)) \<Longrightarrow> those (map f xs) = Some (map g xs)"
  by (induction xs) auto

lemma concat_map_concat: "concat (map (concat \<circ> map f) xss) = concat (map f (concat xss))"
  by (induction xss) simp_all

lemma chunks_Nil [simp]: "chunks [] = []"
  by (subst chunks.simps) simp

lemma chunks_step: "xs \<noteq> [] \<Longrightarrow> chunks xs = take CAP xs # chunks (drop CAP xs)"
  by (subst chunks.simps) simp

lemma chunks_append_full:
  assumes "length xs = CAP"
  shows "chunks (xs @ ys) = xs # chunks ys"
proof -
  have "xs @ ys \<noteq> []" using assms by (auto simp: TREE_BASE_def)
  from chunks_step [OF this] show ?thesis using assms by simp
qed

lemma chunks_short: "xs \<noteq> [] \<Longrightarrow> length xs \<le> CAP \<Longrightarrow> chunks xs = [xs]"
  by (subst chunks.simps) auto

text \<open>Induction along the chunks.\<close>

lemma chunks_induct [case_names Nil Step]:
  assumes "P []" and "\<And>xs. xs \<noteq> [] \<Longrightarrow> P (drop CAP xs) \<Longrightarrow> P xs"
  shows "P xs"
proof (induction xs rule: chunks.induct)
  case (1 xs)
  then show ?case using assms by (cases "xs = []") auto
qed

lemma concat_chunks [simp]: "concat (chunks xs) = xs"
  by (induction xs rule: chunks_induct) (simp_all add: chunks_step)

lemma chunks_bounds: "\<forall>c \<in> set (chunks xs). c \<noteq> [] \<and> length c \<le> CAP"
proof (induction xs rule: chunks_induct)
  case (Step xs)
  then show ?case unfolding chunks_step [OF Step.hyps] by simp
qed simp

lemma chunks_subset: "c \<in> set (chunks xs) \<Longrightarrow> set c \<subseteq> set xs"
  by (metis concat_chunks UN_upper set_concat)

lemma length_chunks: "length (chunks xs) \<le> length xs"
proof (induction xs rule: chunks_induct)
  case (Step xs)
  then have "length (chunks xs) \<le> Suc (length xs - CAP)" by (simp add: chunks_step)
  also have "\<dots> \<le> length xs" using Step.hyps by (cases xs) (auto simp: TREE_BASE_def)
  finally show ?case .
qed simp

lemma length_chunks_less: "1 < length xs \<Longrightarrow> length (chunks xs) < length xs"
  using length_chunks [of "drop CAP xs"] by (subst chunks.simps) (auto simp: TREE_BASE_def)

definition parent_of :: "('t, 's) summary_ops \<Rightarrow> nat \<Rightarrow> ('t, 's) node list \<Rightarrow> ('t, 's) node" where
  "parent_of ops h cts =
     Internal h (sum_summaries ops (map node_summary cts)) (map node_summary cts) cts"

lemma from_iter_level_eq:
  "length cur < CAP \<Longrightarrow>
     from_iter_level ops h nodes (if cur = [] then None else Some (parent_of ops h cur)) ps
     = Some (ps @ map (parent_of ops h) (chunks (cur @ nodes)))"
proof (induction nodes arbitrary: cur ps)
  case Nil
  then show ?case by (simp add: chunks_short)
next
  case (Cons c nodes)
  have add: "add_child ops (case if cur = [] then None else Some (parent_of ops h cur) of
        Some p \<Rightarrow> p | None \<Rightarrow> Internal h (s_zero ops) [] []) c = Some (parent_of ops h (cur @ [c]))"
    using Cons.prems by (auto simp: parent_of_def sum_summaries_def)
  have trees: "child_trees (parent_of ops h (cur @ [c])) = Some (cur @ [c])"
    by (simp add: parent_of_def)
  have split: "chunks (cur @ c # nodes) = (cur @ [c]) # chunks nodes" if "length (cur @ [c]) = CAP"
    using chunks_append_full [OF that, of nodes] by simp
  show ?case
  proof (cases "length (cur @ [c]) = CAP")
    case True
    with Cons.IH [of "[]" "ps @ [parent_of ops h (cur @ [c])]"] split show ?thesis
      by (simp add: add trees Let_def)
  next
    case False
    with Cons.IH [of "cur @ [c]" ps] Cons.prems show ?thesis
      by (simp add: add trees Let_def)
  qed
qed

context summary_laws
begin

lemma leaf_from_items_eq:
  assumes "xs \<noteq> []" "length xs \<le> CAP"
  shows "leaf_from_items ops xs = Some (Leaf (lsum xs) xs (map (s_item ops) xs))"
  using assms by (cases xs) (simp_all add: leaf_from_items_def lsum_def sum_Cons)

lemma parent_from_children_eq:
  assumes "cts \<noteq> []" "length cts \<le> CAP"
  shows "parent_from_children ops h cts = Some (parent_of ops h cts)"
  using assms by (cases cts) (simp_all add: parent_from_children_def parent_of_def sum_Cons)

lemma parent_of_wf:
  assumes "cts \<noteq> []" "length cts \<le> CAP" "\<forall>c \<in> set cts. wf_node ops c \<and> node_height c = h"
  shows "wf_node ops (parent_of ops (Suc h) cts)" "node_height (parent_of ops (Suc h) cts) = Suc h"
    "to_list (parent_of ops (Suc h) cts) = concat (map to_list cts)"
  using assms by (auto simp: parent_of_def)

lemma from_iter_loop_ok:
  assumes "\<forall>n \<in> set nodes. wf_node ops n \<and> node_height n = h"
  shows "\<exists>ns. from_iter_loop ops h nodes = Some ns \<and> length ns \<le> 1
           \<and> (\<forall>n \<in> set ns. wf_node ops n) \<and> concat (map to_list ns) = concat (map to_list nodes)"
  using assms
proof (induction "length nodes" arbitrary: nodes h rule: less_induct)
  case less
  show ?case
  proof (cases "length nodes > 1")
    case True
    define ns where "ns = map (parent_of ops (Suc h)) (chunks nodes)"
    have lvl: "from_iter_level ops (h + 1) nodes None [] = Some ns"
      using from_iter_level_eq [of "[]" ops "Suc h" nodes "[]"] by (simp add: ns_def TREE_BASE_def)
    have chunk: "wf_node ops (parent_of ops (Suc h) c) \<and> node_height (parent_of ops (Suc h) c) = Suc h
        \<and> to_list (parent_of ops (Suc h) c) = concat (map to_list c)" if "c \<in> set (chunks nodes)" for c
      using parent_of_wf [of c h] chunks_bounds [of nodes] that chunks_subset [OF that] less.prems by blast
    have "map to_list ns = map (concat \<circ> map to_list) (chunks nodes)"
      using chunk by (simp add: ns_def)
    then have "concat (map to_list ns) = concat (map to_list (concat (chunks nodes)))"
      by (simp only: concat_map_concat)
    moreover have "\<forall>n \<in> set ns. wf_node ops n \<and> node_height n = Suc h"
      using chunk by (auto simp: ns_def)
    moreover have "length ns < length nodes"
      using length_chunks_less [OF True] by (simp add: ns_def)
    ultimately show ?thesis
      using less.hyps [of ns "Suc h"] True lvl by (subst from_iter_loop.simps) simp
  next
    case False
    with less.prems show ?thesis by (subst from_iter_loop.simps) auto
  qed
qed

lemma from_iter_leaves:
  "those (map (leaf_from_items ops) (chunks xs))
     = Some (map (\<lambda>c. Leaf (lsum c) c (map (s_item ops) c)) (chunks xs))"
  by (rule those_map_Some) (use chunks_bounds in \<open>auto intro!: leaf_from_items_eq\<close>)

lemma from_iter_ok: "\<exists>t. from_iter ops xs = Some t \<and> tree_ok ops t \<and> to_list t = xs"
proof -
  define leaves where "leaves = map (\<lambda>c. Leaf (lsum c) c (map (s_item ops) c)) (chunks xs)"
  have "\<forall>n \<in> set leaves. wf_node ops n \<and> node_height n = 0"
    using chunks_bounds [of xs] by (auto simp: leaves_def lsum_def)
  then obtain ns where ns: "from_iter_loop ops 0 leaves = Some ns" "length ns \<le> 1"
      "\<forall>n \<in> set ns. wf_node ops n" "concat (map to_list ns) = concat (map to_list leaves)"
    using from_iter_loop_ok by blast
  have "concat (map to_list leaves) = xs" by (simp add: leaves_def comp_def)
  moreover have "from_iter ops xs = (case ns of [] \<Rightarrow> Some (new_tree ops) | _ \<Rightarrow> Some (last ns))"
    using ns(1) by (simp add: from_iter_def from_iter_leaves leaves_def)
  ultimately show ?thesis
    using ns(2-4) by (cases ns) (auto split: list.splits)
qed

lemma from_par_iter_loop_eq:
  assumes "\<And>ns. node_chunks ns = chunks ns"
  shows "from_par_iter_loop node_chunks ops h nodes = from_iter_loop ops h nodes"
proof (induction "length nodes" arbitrary: nodes h rule: less_induct)
  case less
  have "those (map (parent_from_children ops (h + 1)) (node_chunks nodes))
      = Some (map (parent_of ops (Suc h)) (chunks nodes))"
    unfolding assms
    by (rule those_map_Some) (use chunks_bounds in \<open>auto intro!: parent_from_children_eq\<close>)
  moreover have "from_iter_level ops (h + 1) nodes None []
      = Some (map (parent_of ops (Suc h)) (chunks nodes))"
    using from_iter_level_eq [of "[]" ops "Suc h" nodes "[]"] by (simp add: TREE_BASE_def)
  ultimately show ?case
    using less.hyps [of "map (parent_of ops (Suc h)) (chunks nodes)" "Suc h"]
    by (subst from_iter_loop.simps, subst from_par_iter_loop.simps) (simp add: length_chunks_less)
qed

lemma from_par_iter_eq:
  assumes "\<And>ns. node_chunks ns = chunks ns" "item_chunks xs = chunks xs"
  shows "from_par_iter item_chunks node_chunks ops xs = from_iter ops xs"
  using assms by (simp add: from_par_iter_def from_iter_def from_par_iter_loop_eq)

lemma tree_extend_ok:
  assumes "tree_ok ops t"
  shows "\<exists>t'. tree_extend ops t xs = Some t' \<and> tree_ok ops t' \<and> to_list t' = to_list t @ xs"
  using from_iter_ok [of xs] append_tree_ok [OF assms] by (auto simp: tree_extend_def)

end

section \<open>Correctness of the in-place updates\<close>

context summary_laws
begin

lemma update_last_recursive_ok:
  assumes "wf_node ops t"
  shows "\<exists>t'. update_last_recursive ops f t = Some (t', Some (node_summary t')) \<and> wf_node ops t'
           \<and> node_height t' = node_height t
           \<and> to_list t' = butlast (to_list t) @ [f (last (to_list t))]"
  using assms
proof (induction t)
  case (Leaf s xs ss)
  then obtain ys y where "xs = ys @ [y]" by (metis rev_exhaust wf_node.simps(1))
  with Leaf show ?case by (simp add: Let_def)
next
  case (Internal h s css cts)
  note kids = wf_children [OF Internal.prems]
  from kids(2) obtain its l where cts: "cts = its @ [l]" by (metis rev_exhaust)
  from kids(1) have l: "wf_node ops l" "Suc (node_height l) = h" by (auto simp: cts)
  from Internal.IH [of l] l(1) obtain l' where rec:
      "update_last_recursive ops f l = Some (l', Some (node_summary l'))" "wf_node ops l'"
      "node_height l' = node_height l" "to_list l' = butlast (to_list l) @ [f (last (to_list l))]"
    by (auto simp: cts)
  have "wf_node ops (parent_of ops h (its @ [l']))"
    using kids l rec by (auto simp: parent_of_def cts)
  moreover have "update_last_recursive ops f (Internal h s css cts)
      = Some (parent_of ops h (its @ [l']), Some (node_summary (parent_of ops h (its @ [l']))))"
    using rec kids(4) by (simp add: cts Let_def parent_of_def)
  ultimately show ?case
    using rec(4) to_list_nonempty [OF l(1)] by (auto simp: cts parent_of_def butlast_append)
qed

lemma update_first_recursive_ok:
  assumes "wf_node ops t"
  shows "\<exists>t'. update_first_recursive ops f t = Some (t', Some (node_summary t')) \<and> wf_node ops t'
           \<and> node_height t' = node_height t \<and> to_list t' = f (hd (to_list t)) # tl (to_list t)"
  using assms
proof (induction t)
  case (Leaf s xs ss)
  then show ?case by (cases xs) (simp_all add: Let_def)
next
  case (Internal h s css cts)
  note kids = wf_children [OF Internal.prems]
  from kids(2) obtain c rs where cts: "cts = c # rs" by (cases cts) auto
  from kids(1) have c: "wf_node ops c" "Suc (node_height c) = h" by (auto simp: cts)
  from Internal.IH [of c] c(1) obtain c' where rec:
      "update_first_recursive ops f c = Some (c', Some (node_summary c'))" "wf_node ops c'"
      "node_height c' = node_height c" "to_list c' = f (hd (to_list c)) # tl (to_list c)"
    by (auto simp: cts)
  have "wf_node ops (parent_of ops h (c' # rs))"
    using kids c rec by (auto simp: parent_of_def cts)
  moreover have "update_first_recursive ops f (Internal h s css cts)
      = Some (parent_of ops h (c' # rs), Some (node_summary (parent_of ops h (c' # rs))))"
    using rec kids(4) by (simp add: cts Let_def parent_of_def)
  ultimately show ?case
    using rec(4) to_list_nonempty [OF c(1)] by (auto simp: cts parent_of_def)
qed

lemma update_last_ok:
  assumes "tree_ok ops t"
  shows "\<exists>t'. update_last ops f t = Some t' \<and> tree_ok ops t' \<and> node_height t' = node_height t
     \<and> to_list t' = (if to_list t = [] then [] else butlast (to_list t) @ [f (last (to_list t))])"
  using assms
proof (cases rule: tree_ok_cases)
  case 1
  then show ?thesis by (simp add: update_last_def new_tree_def init_last_def tree_ok_def)
next
  case 2
  from update_last_recursive_ok [OF this(1), of f] this show ?thesis by (auto simp: update_last_def)
qed

lemma update_first_ok:
  assumes "tree_ok ops t"
  shows "\<exists>t'. update_first ops f t = Some t' \<and> tree_ok ops t' \<and> node_height t' = node_height t
     \<and> to_list t' = (if to_list t = [] then [] else f (hd (to_list t)) # tl (to_list t))"
  using assms
proof (cases rule: tree_ok_cases)
  case 1
  then show ?thesis by (simp add: update_first_def new_tree_def first_rest_def tree_ok_def)
next
  case 2
  from update_first_recursive_ok [OF this(1), of f] this show ?thesis by (auto simp: update_first_def)
qed

end

section \<open>First and last\<close>

lemma leftmost_leaf_ok:
  "wf_node ops t \<Longrightarrow> \<exists>s xs ss. leftmost_leaf t = Some (Leaf s xs ss) \<and> wf_node ops (Leaf s xs ss)
     \<and> list_first (to_list t) = list_first xs"
proof (induction t)
  case (Internal h s css cts)
  then obtain c rs where cts: "cts = c # rs" by (cases cts) auto
  with Internal.prems have "wf_node ops c" by simp
  with Internal.IH [of c] show ?case
    by (simp add: cts list_first_append to_list_nonempty del: wf_node.simps(1))
qed simp

lemma rightmost_leaf_ok:
  "wf_node ops t \<Longrightarrow> \<exists>s xs ss. rightmost_leaf t = Some (Leaf s xs ss) \<and> wf_node ops (Leaf s xs ss)
     \<and> list_last (to_list t) = list_last xs"
proof (induction t)
  case (Internal h s css cts)
  then obtain its c where cts: "cts = its @ [c]" by (metis rev_exhaust wf_node.simps(2))
  with Internal.prems have "wf_node ops c" by simp
  with Internal.IH [of c] show ?case
    by (simp add: cts list_last_append to_list_nonempty del: wf_node.simps(1))
qed simp

lemma tree_first_eq: "tree_ok ops t \<Longrightarrow> tree_first t = Some (list_first (to_list t))"
  by (auto simp: tree_ok_def tree_first_def new_tree_def list_first_def dest: leftmost_leaf_ok)

lemma tree_last_eq: "tree_ok ops t \<Longrightarrow> tree_last t = Some (list_last (to_list t))"
  by (auto simp: tree_ok_def tree_last_def new_tree_def list_last_def dest: rightmost_leaf_ok)

lemma last_summary_eq:
  "tree_ok ops t \<Longrightarrow> last_summary t = Some (map_option (s_item ops) (list_last (to_list t)))"
  by (auto simp: tree_ok_def last_summary_def new_tree_def list_last_def last_map dest: rightmost_leaf_ok)

end
