(* ===== verification/SumTree_Find.thy ===== *)
theory SumTree_Find
  imports SumTree_Ops
begin

text \<open>
  The direct searches of \<open>sum_tree.rs\<close>: \<open>find\<close>, \<open>find_exact\<close> and \<open>find_with_prev\<close>. They
  walk down the tree comparing the target with the end of each child, and skip a child without
  looking inside it. The reference they are compared with scans the items one by one.
\<close>

section \<open>The searches\<close>

definition target_in_child :: "'d seek_target \<Rightarrow> bias \<Rightarrow> 'd \<Rightarrow> bool" where
  "target_in_child target bias child_end \<longleftrightarrow>
     target child_end = Less \<or> (target child_end = Equal \<and> bias = Left)"

text \<open>The \<open>EXACT\<close> const parameter of \<open>find_iterate\<close> is the boolean \<open>exact\<close>.\<close>

definition entry_found :: "bool \<Rightarrow> 'd seek_target \<Rightarrow> bias \<Rightarrow> 'd \<Rightarrow> bool" where
  "entry_found exact target bias child_end \<longleftrightarrow>
     (if exact then target child_end = Equal
      else target child_end = Less \<or> (target child_end = Equal \<and> bias = Left))"

fun find_in_leaf ::
    "('s, 'd) dim_ops \<Rightarrow> bool \<Rightarrow> 'd seek_target \<Rightarrow> bias \<Rightarrow> 'd \<Rightarrow> 't list \<Rightarrow> 's list \<Rightarrow> ('t \<times> 'd) option \<times> 'd" where
  "find_in_leaf dim exact target bias position (item # xs) (item_summary # ss) =
     (let child_end = d_add dim position item_summary in
      if entry_found exact target bias child_end then (Some (item, child_end), position)
      else find_in_leaf dim exact target bias child_end xs ss)"
| "find_in_leaf dim exact target bias position _ _ = (None, position)"

text \<open>
  \<open>find_iterate\<close>: the descent is the recursion on the child, the \<open>for\<close> loop over the children
  is \<open>find_children\<close>. The second component of the result is the final \<open>*position\<close>.
\<close>

fun find_iterate ::
    "('s, 'd) dim_ops \<Rightarrow> bool \<Rightarrow> 'd seek_target \<Rightarrow> bias \<Rightarrow> 'd \<Rightarrow> ('t, 's) node \<Rightarrow> ('t \<times> 'd) option \<times> 'd"
  and find_children ::
    "('s, 'd) dim_ops \<Rightarrow> bool \<Rightarrow> 'd seek_target \<Rightarrow> bias \<Rightarrow> 'd \<Rightarrow> ('t, 's) node list \<Rightarrow> 's list \<Rightarrow>
     ('t \<times> 'd) option \<times> 'd" where
  "find_iterate dim exact target bias position (Internal h s css cts) =
     find_children dim exact target bias position cts css"
| "find_iterate dim exact target bias position (Leaf s xs ss) =
     find_in_leaf dim exact target bias position xs ss"
| "find_children dim exact target bias position (child_tree # cts) (child_summary # css) =
     (let child_end = with_added_summary dim position child_summary in
      if target_in_child target bias child_end
      then find_iterate dim exact target bias position child_tree
      else find_children dim exact target bias child_end cts css)"
| "find_children dim exact target bias position _ _ = (None, position)"

definition find_generic ::
    "('s, 'd) dim_ops \<Rightarrow> bool \<Rightarrow> ('t, 's) node \<Rightarrow> 'd seek_target \<Rightarrow> bias \<Rightarrow> 'd \<times> 'd \<times> 't option" where
  "find_generic dim exact t target bias =
     (let tree_end = with_added_summary dim (d_zero dim) (node_summary t);
          comparison = target tree_end
      in if comparison = Greater \<or> (comparison = Equal \<and> bias = Right)
         then (tree_end, tree_end, None)
         else case find_iterate dim exact target bias (d_zero dim) t of
                (Some (item, end_pos), pos) \<Rightarrow> (pos, end_pos, Some item)
              | (None, pos) \<Rightarrow> (pos, pos, None))"

definition find_exact ::
    "('s, 'd) dim_ops \<Rightarrow> ('t, 's) node \<Rightarrow> 'd seek_target \<Rightarrow> bias \<Rightarrow> 'd \<times> 'd \<times> 't option" where
  "find_exact dim t target bias = find_generic dim True t target bias"

definition find ::
    "('s, 'd) dim_ops \<Rightarrow> ('t, 's) node \<Rightarrow> 'd seek_target \<Rightarrow> bias \<Rightarrow> 'd \<times> 'd \<times> 't option" where
  "find dim t target bias = find_generic dim False t target bias"

text \<open>
  \<open>find_with_prev_iterate\<close> also carries the item before the position; \<open>child_tree.last()\<close> can
  panic on a malformed tree. The code instantiates \<open>EXACT\<close> with \<open>false\<close> only.
\<close>

fun find_prev_in_leaf ::
    "('s, 'd) dim_ops \<Rightarrow> bool \<Rightarrow> 'd seek_target \<Rightarrow> bias \<Rightarrow> 't option \<Rightarrow> 'd \<Rightarrow> 't list \<Rightarrow> 's list \<Rightarrow>
     ('t option \<times> 't \<times> 'd) option \<times> 'd" where
  "find_prev_in_leaf dim exact target bias prev position (item # xs) (item_summary # ss) =
     (let child_end = d_add dim position item_summary in
      if entry_found exact target bias child_end then (Some (prev, item, child_end), position)
      else find_prev_in_leaf dim exact target bias (Some item) child_end xs ss)"
| "find_prev_in_leaf dim exact target bias prev position _ _ = (None, position)"

fun find_with_prev_iterate ::
    "('s, 'd) dim_ops \<Rightarrow> bool \<Rightarrow> 'd seek_target \<Rightarrow> bias \<Rightarrow> 't option \<Rightarrow> 'd \<Rightarrow> ('t, 's) node \<Rightarrow>
     (('t option \<times> 't \<times> 'd) option \<times> 'd) option"
  and find_with_prev_children ::
    "('s, 'd) dim_ops \<Rightarrow> bool \<Rightarrow> 'd seek_target \<Rightarrow> bias \<Rightarrow> 't option \<Rightarrow> 'd \<Rightarrow> ('t, 's) node list \<Rightarrow> 's list \<Rightarrow>
     (('t option \<times> 't \<times> 'd) option \<times> 'd) option" where
  "find_with_prev_iterate dim exact target bias prev position (Internal h s css cts) =
     find_with_prev_children dim exact target bias prev position cts css"
| "find_with_prev_iterate dim exact target bias prev position (Leaf s xs ss) =
     Some (find_prev_in_leaf dim exact target bias prev position xs ss)"
| "find_with_prev_children dim exact target bias prev position (child_tree # cts) (child_summary # css) =
     (let child_end = with_added_summary dim position child_summary in
      if target_in_child target bias child_end
      then find_with_prev_iterate dim exact target bias prev position child_tree
      else do {
        prev' \<leftarrow> tree_last child_tree;
        find_with_prev_children dim exact target bias prev' child_end cts css
      })"
| "find_with_prev_children dim exact target bias prev position _ _ = Some (None, position)"

definition find_with_prev ::
    "('s, 'd) dim_ops \<Rightarrow> ('t, 's) node \<Rightarrow> 'd seek_target \<Rightarrow> bias \<Rightarrow> ('d \<times> 'd \<times> ('t option \<times> 't) option) option" where
  "find_with_prev dim t target bias =
     (let tree_end = with_added_summary dim (d_zero dim) (node_summary t);
          comparison = target tree_end
      in if comparison = Greater \<or> (comparison = Equal \<and> bias = Right)
         then Some (tree_end, tree_end, None)
         else map_option (\<lambda>r. case r of
                (Some (prev, item, end_pos), pos) \<Rightarrow> (pos, end_pos, Some (prev, item))
              | (None, pos) \<Rightarrow> (pos, pos, None))
            (find_with_prev_iterate dim False target bias None (d_zero dim) t))"

section \<open>The linear reference\<close>

text \<open>A position is passed over when the target lies beyond it.\<close>

definition skips :: "'d seek_target \<Rightarrow> bias \<Rightarrow> 'd \<Rightarrow> bool" where
  "skips target bias d \<longleftrightarrow> target d = Greater \<or> (target d = Equal \<and> bias = Right)"

lemma target_in_child_iff: "target_in_child target bias d \<longleftrightarrow> \<not> skips target bias d"
  unfolding target_in_child_def skips_def by (cases "target d"; cases bias) auto

lemma entry_found_False: "entry_found False target bias d \<longleftrightarrow> \<not> skips target bias d"
  unfolding entry_found_def skips_def by (cases "target d"; cases bias) auto

text \<open>
  A target fits a list of positions when its answers only move from \<open>Greater\<close> over \<open>Equal\<close> to
  \<open>Less\<close> along it: the hypothesis under which whole subtrees may be skipped.
\<close>

definition mono_target :: "'d seek_target \<Rightarrow> 'd list \<Rightarrow> bool" where
  "mono_target target ds \<longleftrightarrow>
     sorted_wrt (\<lambda>a b. (target b = Greater \<longrightarrow> target a = Greater) \<and> (target a = Less \<longrightarrow> target b = Less)) ds"

lemma mono_target_append:
  "mono_target target (as @ bs) \<longleftrightarrow> mono_target target as \<and> mono_target target bs \<and>
     (\<forall>a \<in> set as. \<forall>b \<in> set bs. (target b = Greater \<longrightarrow> target a = Greater) \<and> (target a = Less \<longrightarrow> target b = Less))"
  by (auto simp: mono_target_def sorted_wrt_append)

lemma mono_skips:
  assumes "mono_target target (as @ [b])" "skips target bias b" "a \<in> set as"
  shows "skips target bias a"
  using assms unfolding mono_target_append skips_def by (cases "target a") auto

context dimension_laws
begin

text \<open>The end position of every item.\<close>

fun ends :: "'d \<Rightarrow> 't list \<Rightarrow> 'd list" where
  "ends d [] = []"
| "ends d (x # xs) = d_add dim d (s_item ops x) # ends (d_add dim d (s_item ops x)) xs"

lemma ends_append: "ends d (xs @ ys) = ends d xs @ ends (advance d xs) ys"
  by (induction xs arbitrary: d) (simp_all add: advance_Cons)

lemma length_ends [simp]: "length (ends d xs) = length xs"
  by (induction xs arbitrary: d) simp_all

lemma ends_Nil_iff [simp]: "ends d xs = [] \<longleftrightarrow> xs = []"
  by (cases xs) simp_all

lemma last_ends: "xs \<noteq> [] \<Longrightarrow> last (ends d xs) = advance d xs"
  by (induction xs arbitrary: d) (auto simp: advance_Cons split: if_splits)

lemma ends_nth: "i < length xs \<Longrightarrow> ends d xs ! i = advance d (take (Suc i) xs)"
  by (induction xs arbitrary: d i) (auto simp: advance_Cons nth_Cons split: nat.splits)

lemma ends_snoc_last: "xs \<noteq> [] \<Longrightarrow> ends d xs = butlast (ends d xs) @ [advance d xs]"
  using last_ends [of xs d] append_butlast_last_id [of "ends d xs"] by (cases xs) auto

text \<open>With a fitting target, a block is passed over iff its end is.\<close>

lemma all_skip_iff:
  assumes "mono_target target (ends d xs)" "xs \<noteq> []"
  shows "(\<forall>e \<in> set (ends d xs). skips target bias e) \<longleftrightarrow> skips target bias (advance d xs)"
proof -
  note snoc = ends_snoc_last [OF assms(2), of d]
  have "skips target bias a" if "a \<in> set (butlast (ends d xs))" "skips target bias (advance d xs)" for a
    using mono_skips [of target "butlast (ends d xs)" "advance d xs"] assms(1) that snoc by metis
  then show ?thesis by (subst (1) snoc) auto
qed

fun linear_find :: "'d seek_target \<Rightarrow> bias \<Rightarrow> 't option \<Rightarrow> 'd \<Rightarrow> 't list \<Rightarrow> ('t option \<times> 't \<times> 'd) option \<times> 'd" where
  "linear_find target bias prev d [] = (None, d)"
| "linear_find target bias prev d (x # xs) =
     (let e = d_add dim d (s_item ops x) in
      if skips target bias e then linear_find target bias (Some x) e xs else (Some (prev, x, e), d))"

lemma linear_find_append_all:
  "linear_find target bias prev d (xs @ ys) =
     (if \<forall>e \<in> set (ends d xs). skips target bias e
      then linear_find target bias (if xs = [] then prev else list_last xs) (advance d xs) ys
      else linear_find target bias prev d xs)"
  by (induction xs arbitrary: d prev) (auto simp: Let_def advance_Cons list_last_def)

lemma linear_find_append:
  assumes "mono_target target (ends d xs)" "xs \<noteq> []"
  shows "linear_find target bias prev d (xs @ ys) =
     (if skips target bias (advance d xs)
      then linear_find target bias (list_last xs) (advance d xs) ys
      else linear_find target bias prev d xs)"
  using assms(2) unfolding linear_find_append_all all_skip_iff [OF assms, of bias] by simp

text \<open>The reference in terms of indices: the first item whose end is not passed over.\<close>

definition skip_count :: "'d seek_target \<Rightarrow> bias \<Rightarrow> 'd \<Rightarrow> 't list \<Rightarrow> nat" where
  "skip_count target bias d xs = length (takeWhile (skips target bias) (ends d xs))"

lemma skip_count_le: "skip_count target bias d xs \<le> length xs"
  using length_takeWhile_le [of "skips target bias" "ends d xs"] by (simp add: skip_count_def)

lemma linear_find_eq:
  "linear_find target bias prev d xs =
     (let n = skip_count target bias d xs in
      if n < length xs
      then (Some (if n = 0 then prev else Some (xs ! (n - 1)), xs ! n, advance d (take (Suc n) xs)),
            advance d (take n xs))
      else (None, advance d xs))"
proof (induction xs arbitrary: d prev)
  case (Cons x xs)
  then show ?case
    by (cases "skip_count target bias (d_add dim d (s_item ops x)) xs")
      (auto simp: Let_def skip_count_def advance_Cons)
qed (simp add: skip_count_def)

section \<open>Correctness of the searches\<close>

definition drop_prev :: "('t option \<times> 't \<times> 'd) option \<times> 'd \<Rightarrow> ('t \<times> 'd) option \<times> 'd" where
  "drop_prev r = (map_option snd (fst r), snd r)"

lemma find_in_leaf_eq:
  "find_in_leaf dim False target bias d xs (map (s_item ops) xs) = drop_prev (linear_find target bias prev d xs)"
  by (induction xs arbitrary: d prev) (simp_all add: Let_def entry_found_False drop_prev_def)

lemma find_prev_in_leaf_eq:
  "find_prev_in_leaf dim False target bias prev d xs (map (s_item ops) xs) = linear_find target bias prev d xs"
  by (induction xs arbitrary: d prev) (simp_all add: Let_def entry_found_False)

lemma mono_ends_concat:
  assumes "mono_target target (ends d (xs @ ys))"
  shows "mono_target target (ends d xs)" "mono_target target (ends (advance d xs) ys)"
  using assms by (simp_all add: ends_append mono_target_append)

lemma find_children_eq:
  assumes "\<forall>c \<in> set cts. wf_node ops c \<and> (\<forall>d prev. mono_target target (ends d (to_list c)) \<longrightarrow>
             find_iterate dim False target bias d c = drop_prev (linear_find target bias prev d (to_list c)))"
    and "mono_target target (ends d (concat (map to_list cts)))"
  shows "find_children dim False target bias d cts (map node_summary cts)
           = drop_prev (linear_find target bias prev d (concat (map to_list cts)))"
  using assms
proof (induction cts arbitrary: d prev)
  case (Cons c cts)
  then have wf: "wf_node ops c" by simp
  have m: "mono_target target (ends d (to_list c))"
      "mono_target target (ends (advance d (to_list c)) (concat (map to_list cts)))"
    using mono_ends_concat [of target d "to_list c" "concat (map to_list cts)"] Cons.prems(2) by simp_all
  show ?case
    using linear_find_append [OF m(1) to_list_nonempty [OF wf]] Cons.IH [OF _ m(2)] Cons.prems(1) m(1)
    by (simp add: Let_def with_added_summary_def d_add_wf [OF wf] target_in_child_iff)
qed (simp add: drop_prev_def)

lemma find_iterate_eq:
  "wf_node ops t \<Longrightarrow> mono_target target (ends d (to_list t)) \<Longrightarrow>
     find_iterate dim False target bias d t = drop_prev (linear_find target bias prev d (to_list t))"
proof (induction t arbitrary: d prev)
  case (Internal h s css cts)
  have "\<forall>c \<in> set cts. wf_node ops c \<and> (\<forall>d prev. mono_target target (ends d (to_list c)) \<longrightarrow>
      find_iterate dim False target bias d c = drop_prev (linear_find target bias prev d (to_list c)))"
    using Internal.IH Internal.prems(1) by simp
  from find_children_eq [OF this] Internal.prems show ?case by simp
qed (simp add: find_in_leaf_eq)

lemma find_with_prev_children_eq:
  assumes "\<forall>c \<in> set cts. wf_node ops c \<and> (\<forall>d prev. mono_target target (ends d (to_list c)) \<longrightarrow>
             find_with_prev_iterate dim False target bias prev d c = Some (linear_find target bias prev d (to_list c)))"
    and "mono_target target (ends d (concat (map to_list cts)))"
  shows "find_with_prev_children dim False target bias prev d cts (map node_summary cts)
           = Some (linear_find target bias prev d (concat (map to_list cts)))"
  using assms
proof (induction cts arbitrary: d prev)
  case (Cons c cts)
  then have wf: "wf_node ops c" by simp
  have m: "mono_target target (ends d (to_list c))"
      "mono_target target (ends (advance d (to_list c)) (concat (map to_list cts)))"
    using mono_ends_concat [of target d "to_list c" "concat (map to_list cts)"] Cons.prems(2) by simp_all
  show ?case
    using linear_find_append [OF m(1) to_list_nonempty [OF wf]] Cons.IH [OF _ m(2)] Cons.prems(1) m(1)
    by (simp add: Let_def with_added_summary_def d_add_wf [OF wf] target_in_child_iff
        tree_last_eq [OF tree_ok_wf [OF wf]])
qed simp

lemma find_with_prev_iterate_eq:
  "wf_node ops t \<Longrightarrow> mono_target target (ends d (to_list t)) \<Longrightarrow>
     find_with_prev_iterate dim False target bias prev d t = Some (linear_find target bias prev d (to_list t))"
proof (induction t arbitrary: d prev)
  case (Internal h s css cts)
  have "\<forall>c \<in> set cts. wf_node ops c \<and> (\<forall>d prev. mono_target target (ends d (to_list c)) \<longrightarrow>
      find_with_prev_iterate dim False target bias prev d c = Some (linear_find target bias prev d (to_list c)))"
    using Internal.IH Internal.prems(1) by simp
  from find_with_prev_children_eq [OF this] Internal.prems show ?case by simp
qed (simp add: find_prev_in_leaf_eq)

text \<open>The exact search, at the bias its only caller uses.\<close>

definition exact_of :: "'d seek_target \<Rightarrow> ('t option \<times> 't \<times> 'd) option \<times> 'd \<Rightarrow> ('t \<times> 'd) option" where
  "exact_of target r =
     (case fst r of Some (_, x, e) \<Rightarrow> if target e = Equal then Some (x, e) else None | None \<Rightarrow> None)"

lemma find_in_leaf_none:
  "\<forall>e \<in> set (ends d xs). target e \<noteq> Equal \<Longrightarrow>
     fst (find_in_leaf dim True target bias d xs (map (s_item ops) xs)) = None"
  by (induction xs arbitrary: d) (simp_all add: Let_def entry_found_def)

lemma find_in_leaf_exact:
  "mono_target target (ends d xs) \<Longrightarrow>
     fst (find_in_leaf dim True target Left d xs (map (s_item ops) xs))
       = exact_of target (linear_find target Left prev d xs)"
proof (induction xs arbitrary: d prev)
  case (Cons x xs)
  define e where "e = d_add dim d (s_item ops x)"
  have m: "mono_target target (ends e xs)" "\<forall>b \<in> set (ends e xs). target e = Less \<longrightarrow> target b = Less"
    using Cons.prems by (simp_all add: mono_target_def e_def)
  show ?case
  proof (cases "target e")
    case Less
    with m(2) find_in_leaf_none [of e xs target] show ?thesis
      by (simp add: Let_def entry_found_def skips_def exact_of_def flip: e_def)
  next
    case Equal
    then show ?thesis by (simp add: Let_def entry_found_def skips_def exact_of_def flip: e_def)
  next
    case Greater
    with Cons.IH [OF m(1)] show ?thesis
      by (simp add: Let_def entry_found_def skips_def flip: e_def)
  qed
qed (simp add: exact_of_def)

lemma find_children_exact:
  assumes "\<forall>c \<in> set cts. wf_node ops c \<and> (\<forall>d prev. mono_target target (ends d (to_list c)) \<longrightarrow>
             fst (find_iterate dim True target Left d c) = exact_of target (linear_find target Left prev d (to_list c)))"
    and "mono_target target (ends d (concat (map to_list cts)))"
  shows "fst (find_children dim True target Left d cts (map node_summary cts))
           = exact_of target (linear_find target Left prev d (concat (map to_list cts)))"
  using assms
proof (induction cts arbitrary: d prev)
  case (Cons c cts)
  then have wf: "wf_node ops c" by simp
  have m: "mono_target target (ends d (to_list c))"
      "mono_target target (ends (advance d (to_list c)) (concat (map to_list cts)))"
    using mono_ends_concat [of target d "to_list c" "concat (map to_list cts)"] Cons.prems(2) by simp_all
  show ?case
    using linear_find_append [OF m(1) to_list_nonempty [OF wf]] Cons.IH [OF _ m(2)] Cons.prems(1) m(1)
    by (simp add: Let_def with_added_summary_def d_add_wf [OF wf] target_in_child_iff)
qed (simp add: exact_of_def)

lemma find_iterate_exact:
  "wf_node ops t \<Longrightarrow> mono_target target (ends d (to_list t)) \<Longrightarrow>
     fst (find_iterate dim True target Left d t) = exact_of target (linear_find target Left prev d (to_list t))"
proof (induction t arbitrary: d prev)
  case (Internal h s css cts)
  have "\<forall>c \<in> set cts. wf_node ops c \<and> (\<forall>d prev. mono_target target (ends d (to_list c)) \<longrightarrow>
      fst (find_iterate dim True target Left d c) = exact_of target (linear_find target Left prev d (to_list c)))"
    using Internal.IH Internal.prems(1) by simp
  from find_children_exact [OF this] Internal.prems show ?case by simp
qed (simp add: find_in_leaf_exact)

text \<open>The whole searches on a non-empty tree, against the linear scan.\<close>

lemma find_not_skipped:
  assumes "wf_node ops t" "mono_target target (ends (d_zero dim) (to_list t))"
    and "skips target bias (advance (d_zero dim) (to_list t))"
  shows "linear_find target bias prev (d_zero dim) (to_list t) = (None, advance (d_zero dim) (to_list t))"
  using linear_find_append [OF assms(2) to_list_nonempty [OF assms(1)], of bias prev "[]"] assms(3) by simp

lemma find_ok:
  assumes wf: "wf_node ops t" and m: "mono_target target (ends (d_zero dim) (to_list t))"
  shows "find dim t target bias =
    (let n = skip_count target bias (d_zero dim) (to_list t); xs = to_list t in
     if n < length xs
     then (advance (d_zero dim) (take n xs), advance (d_zero dim) (take (Suc n) xs), Some (xs ! n))
     else (advance (d_zero dim) xs, advance (d_zero dim) xs, None))"
proof -
  note eq = find_iterate_eq [OF wf m, of bias None] linear_find_eq [of target bias None "d_zero dim" "to_list t"]
  show ?thesis
    using find_not_skipped [OF wf m, of bias None]
    unfolding find_def find_generic_def Let_def with_added_summary_def d_add_wf [OF wf]
      skips_def [symmetric] eq drop_prev_def
    by (auto simp: Let_def split: if_splits)
qed

lemma find_with_prev_ok:
  assumes wf: "wf_node ops t" and m: "mono_target target (ends (d_zero dim) (to_list t))"
  shows "find_with_prev dim t target bias =
    (let n = skip_count target bias (d_zero dim) (to_list t); xs = to_list t in
     if n < length xs
     then Some (advance (d_zero dim) (take n xs), advance (d_zero dim) (take (Suc n) xs),
            Some (if n = 0 then None else Some (xs ! (n - 1)), xs ! n))
     else Some (advance (d_zero dim) xs, advance (d_zero dim) xs, None))"
proof -
  note eq = find_with_prev_iterate_eq [OF wf m, of bias None]
    linear_find_eq [of target bias None "d_zero dim" "to_list t"]
  show ?thesis
    using find_not_skipped [OF wf m, of bias None]
    unfolding find_with_prev_def Let_def with_added_summary_def d_add_wf [OF wf] skips_def [symmetric] eq
    by (auto simp: Let_def split: if_splits)
qed

lemma find_exact_item:
  assumes wf: "wf_node ops t" and m: "mono_target target (ends (d_zero dim) (to_list t))"
  shows "snd (snd (find_exact dim t target Left)) =
    (let n = skip_count target Left (d_zero dim) (to_list t); xs = to_list t in
     if n < length xs \<and> target (advance (d_zero dim) (take (Suc n) xs)) = Equal then Some (xs ! n) else None)"
proof -
  note eq = linear_find_eq [of target Left None "d_zero dim" "to_list t"]
  have it: "snd (snd (case find_iterate dim True target Left (d_zero dim) t of
       (Some (item, end_pos), pos) \<Rightarrow> (pos, end_pos, Some item) | (None, pos) \<Rightarrow> (pos, pos, None)))
     = map_option fst (exact_of target (linear_find target Left None (d_zero dim) (to_list t)))"
    using find_iterate_exact [OF wf m, of None]
    by (cases "find_iterate dim True target Left (d_zero dim) t"; cases "fst (find_iterate dim True target Left (d_zero dim) t)") (auto dest: sym)
  show ?thesis
    using find_not_skipped [OF wf m, of Left None]
    unfolding find_exact_def find_generic_def Let_def with_added_summary_def d_add_wf [OF wf]
      skips_def [symmetric] if_distrib [of snd] it eq exact_of_def
    by (auto simp: Let_def split: if_splits)
qed

end

end
