(* ===== verification/SumTree_Cursor.thy ===== *)
theory SumTree_Cursor
  imports SumTree_Find
begin

text \<open>
  \<open>cursor.rs\<close>: the cursor, its searches, seeks and slices, and the plain iterator. The stack is a
  list with the top entry first (the code keeps the top at the end of the vector), and pushing a
  seventeenth entry panics, as \<open>ArrayVec<_, 16>\<close> does. The loops may run forever on malformed
  stacks, so they are partial functions into option: \<^const>\<open>None\<close> is a panic or no result.
  A \<open>filter_node\<close> closure is a predicate on summaries.
\<close>

section \<open>State\<close>

record ('t, 's, 'd) stack_entry =
  e_tree :: "('t, 's) node"
  e_index :: nat
  e_position :: 'd

record ('t, 's, 'd) cursor =
  c_tree :: "('t, 's) node"
  c_stack :: "('t, 's, 'd) stack_entry list"
  c_position :: 'd
  c_did_seek :: bool
  c_at_end :: bool

definition STACK_CAP :: nat where
  "STACK_CAP = 16"

definition push_entry ::
    "('t, 's, 'd) stack_entry \<Rightarrow> ('t, 's, 'd) stack_entry list \<Rightarrow> ('t, 's, 'd) stack_entry list option" where
  "push_entry e stack = (if length stack < STACK_CAP then Some (e # stack) else None)"

definition cursor_new :: "('s, 'd) dim_ops \<Rightarrow> ('t, 's) node \<Rightarrow> ('t, 's, 'd) cursor" where
  "cursor_new dim tree =
     \<lparr>c_tree = tree, c_stack = [], c_position = d_zero dim, c_did_seek = False, c_at_end = is_empty tree\<rparr>"

definition cursor_reset :: "('s, 'd) dim_ops \<Rightarrow> ('t, 's, 'd) cursor \<Rightarrow> ('t, 's, 'd) cursor" where
  "cursor_reset dim c =
     c\<lparr>c_did_seek := False, c_at_end := is_empty (c_tree c), c_stack := [], c_position := d_zero dim\<rparr>"

definition cursor_start :: "('t, 's, 'd) cursor \<Rightarrow> 'd" where
  "cursor_start c = c_position c"

definition assert_did_seek :: "('t, 's, 'd) cursor \<Rightarrow> unit option" where
  "assert_did_seek c = assert_that (c_did_seek c)"

definition cursor_item :: "('t, 's, 'd) cursor \<Rightarrow> 't option option" where
  "cursor_item c = do {
     assert_did_seek c;
     case c_stack c of
       [] \<Rightarrow> Some None
     | entry # _ \<Rightarrow>
         (case e_tree entry of
            Leaf _ xs _ \<Rightarrow>
              if e_index entry = length xs then Some None
              else map_option Some (index_at xs (e_index entry))
          | Internal _ _ _ _ \<Rightarrow> None)
   }"

definition cursor_item_summary :: "('t, 's, 'd) cursor \<Rightarrow> 's option option" where
  "cursor_item_summary c = do {
     assert_did_seek c;
     case c_stack c of
       [] \<Rightarrow> Some None
     | entry # _ \<Rightarrow>
         (case e_tree entry of
            Leaf _ _ ss \<Rightarrow>
              if e_index entry = length ss then Some None
              else map_option Some (index_at ss (e_index entry))
          | Internal _ _ _ _ \<Rightarrow> None)
   }"

definition cursor_end :: "('s, 'd) dim_ops \<Rightarrow> ('t, 's, 'd) cursor \<Rightarrow> 'd option" where
  "cursor_end dim c = do {
     r \<leftarrow> cursor_item_summary c;
     case r of
       Some item_summary \<Rightarrow> Some (d_add dim (cursor_start c) item_summary)
     | None \<Rightarrow> Some (cursor_start c)
   }"

text \<open>\<open>next_leaf\<close> and \<open>prev_leaf\<close> look at the entries below the top one.\<close>

fun next_leaf :: "('t, 's, 'd) stack_entry list \<Rightarrow> ('t, 's) node option option" where
  "next_leaf [] = Some None"
| "next_leaf (entry # rest) = do {
     cts \<leftarrow> child_trees (e_tree entry);
     assert_that (cts \<noteq> []);
     if e_index entry < length cts - 1 then do {
       c \<leftarrow> index_at cts (e_index entry + 1);
       map_option Some (leftmost_leaf c)
     }
     else next_leaf rest
   }"

fun prev_leaf :: "('t, 's, 'd) stack_entry list \<Rightarrow> ('t, 's) node option option" where
  "prev_leaf [] = Some None"
| "prev_leaf (entry # rest) =
     (if e_index entry \<noteq> 0 then
        case e_tree entry of
          Internal _ _ _ cts \<Rightarrow> do {
            c \<leftarrow> index_at cts (e_index entry - 1);
            map_option Some (rightmost_leaf c)
          }
        | Leaf _ _ _ \<Rightarrow> None
      else prev_leaf rest)"

definition next_item :: "('t, 's, 'd) cursor \<Rightarrow> 't option option" where
  "next_item c = do {
     assert_did_seek c;
     case c_stack c of
       entry # rest \<Rightarrow> do {
         xs \<leftarrow> items (e_tree entry);
         assert_that (xs \<noteq> []);
         if e_index entry = length xs - 1 then do {
           r \<leftarrow> next_leaf rest;
           case r of
             Some leaf \<Rightarrow> do { ys \<leftarrow> items leaf; (y, _) \<leftarrow> first_rest ys; Some (Some y) }
           | None \<Rightarrow> Some None
         }
         else map_option Some (index_at xs (e_index entry + 1))
       }
     | [] \<Rightarrow> if c_at_end c then Some None else tree_first (c_tree c)
   }"

definition prev_item :: "('t, 's, 'd) cursor \<Rightarrow> 't option option" where
  "prev_item c = do {
     assert_did_seek c;
     case c_stack c of
       entry # rest \<Rightarrow>
         if e_index entry = 0 then do {
           r \<leftarrow> prev_leaf rest;
           case r of
             Some leaf \<Rightarrow> do { ys \<leftarrow> items leaf; (_, y) \<leftarrow> init_last ys; Some (Some y) }
           | None \<Rightarrow> Some None
         }
         else do {
           xs \<leftarrow> items (e_tree entry);
           map_option Some (index_at xs (e_index entry - 1))
         }
     | [] \<Rightarrow> if c_at_end c then tree_last (c_tree c) else Some None
   }"

section \<open>Moving backward and forward\<close>

partial_function (option) search_backward_loop ::
    "('s, 'd) dim_ops \<Rightarrow> ('s \<Rightarrow> bool) \<Rightarrow> ('t, 's, 'd) stack_entry list \<Rightarrow> 'd \<Rightarrow> bool \<Rightarrow>
     (('t, 's, 'd) stack_entry list \<times> 'd) option" where
  "search_backward_loop dim filter_node stack position descending =
     (case stack of
        [] \<Rightarrow> Some (stack, position)
      | entry # rest \<Rightarrow>
          (let position1 = (case rest of parent # _ \<Rightarrow> e_position parent | [] \<Rightarrow> d_zero dim) in
           if \<not> descending \<and> e_index entry = 0 then
             search_backward_loop dim filter_node rest position1 descending
           else do {
             let index = (if descending then e_index entry else e_index entry - 1);
             preceding \<leftarrow> slice_to (child_summaries (e_tree entry)) index;
             let position2 = foldl (d_add dim) position1 preceding;
             let entry' = entry\<lparr>e_index := index, e_position := position2\<rparr>;
             s \<leftarrow> index_at (child_summaries (e_tree entry)) index;
             case e_tree entry of
               Internal _ _ _ cts \<Rightarrow>
                 if filter_node s then do {
                   tree \<leftarrow> index_at cts index;
                   assert_that (child_summaries tree \<noteq> []);
                   stack' \<leftarrow> push_entry
                     \<lparr>e_tree = tree, e_index = length (child_summaries tree) - 1, e_position = d_zero dim\<rparr>
                     (entry' # rest);
                   search_backward_loop dim filter_node stack' position2 True
                 }
                 else search_backward_loop dim filter_node (entry' # rest) position2 False
             | Leaf _ _ _ \<Rightarrow>
                 if filter_node s then Some (entry' # rest, position2)
                 else search_backward_loop dim filter_node (entry' # rest) position2 False
           }))"

declare search_backward_loop.simps [code]

definition search_backward ::
    "('s, 'd) dim_ops \<Rightarrow> ('s \<Rightarrow> bool) \<Rightarrow> ('t, 's, 'd) cursor \<Rightarrow> ('t, 's, 'd) cursor option" where
  "search_backward dim filter_node c = do {
     let at_end = (if c_did_seek c then c_at_end c else True);
     (stack, position, at_end') \<leftarrow>
       (if at_end then
          if is_empty (c_tree c) then Some (c_stack c, d_zero dim, True)
          else do {
            stack \<leftarrow> push_entry
              \<lparr>e_tree = c_tree c, e_index = length (child_summaries (c_tree c)),
               e_position = from_summary_dim dim (node_summary (c_tree c))\<rparr> (c_stack c);
            Some (stack, d_zero dim, False)
          }
        else Some (c_stack c, c_position c, False));
     (stack', position') \<leftarrow> search_backward_loop dim filter_node stack position False;
     Some (c\<lparr>c_stack := stack', c_position := position', c_did_seek := True, c_at_end := at_end'\<rparr>)
   }"

definition cursor_prev :: "('s, 'd) dim_ops \<Rightarrow> ('t, 's, 'd) cursor \<Rightarrow> ('t, 's, 'd) cursor option" where
  "cursor_prev dim c = search_backward dim (\<lambda>_. True) c"

text \<open>
  The inner loop of \<open>search_forward\<close>, the same for an internal node and a leaf: summaries the
  filter rejects are added to the entry's position and to the cursor's.
\<close>

fun forward_skip :: "('s, 'd) dim_ops \<Rightarrow> ('s \<Rightarrow> bool) \<Rightarrow> 's list \<Rightarrow> nat \<Rightarrow> 'd \<Rightarrow> 'd \<Rightarrow> nat \<times> 'd \<times> 'd" where
  "forward_skip dim filter_node [] index epos pos = (index, epos, pos)"
| "forward_skip dim filter_node (s # ss) index epos pos =
     (if filter_node s then (index, epos, pos)
      else forward_skip dim filter_node ss (index + 1) (d_add dim epos s) (d_add dim pos s))"

partial_function (option) search_forward_loop ::
    "('s, 'd) dim_ops \<Rightarrow> ('s \<Rightarrow> bool) \<Rightarrow> ('t, 's, 'd) stack_entry list \<Rightarrow> 'd \<Rightarrow> bool \<Rightarrow>
     (('t, 's, 'd) stack_entry list \<times> 'd) option" where
  "search_forward_loop dim filter_node stack position descend =
     (case stack of
        [] \<Rightarrow> Some (stack, position)
      | entry # rest \<Rightarrow>
          (case e_tree entry of
             Internal _ _ css cts \<Rightarrow> do {
               let (index, epos) =
                 (if descend then (e_index entry, e_position entry) else (e_index entry + 1, position));
               let (index', epos', position') =
                 forward_skip dim filter_node (drop index css) index epos position;
               let entry' = entry\<lparr>e_index := index', e_position := epos'\<rparr>;
               if index' < length cts then do {
                 stack' \<leftarrow> push_entry \<lparr>e_tree = cts ! index', e_index = 0, e_position = position'\<rparr> (entry' # rest);
                 search_forward_loop dim filter_node stack' position' True
               }
               else search_forward_loop dim filter_node rest position' False
             }
           | Leaf _ _ ss \<Rightarrow> do {
               (index, epos, position1) \<leftarrow>
                 (if descend then Some (e_index entry, e_position entry, position)
                  else do {
                    item_summary \<leftarrow> index_at ss (e_index entry);
                    Some (e_index entry + 1, d_add dim (e_position entry) item_summary,
                          d_add dim position item_summary)
                  });
               let (index', epos', position') =
                 forward_skip dim filter_node (drop index ss) index epos position1;
               let entry' = entry\<lparr>e_index := index', e_position := epos'\<rparr>;
               if index' < length ss then Some (entry' # rest, position')
               else search_forward_loop dim filter_node rest position' False
             }))"

declare search_forward_loop.simps [code]

text \<open>
  The early \<open>return\<close> inside a leaf leaves \<open>at_end\<close> as it was; the loop is otherwise left with an
  empty stack, and \<open>at_end\<close> becomes true.
\<close>

definition search_forward ::
    "('s, 'd) dim_ops \<Rightarrow> ('s \<Rightarrow> bool) \<Rightarrow> ('t, 's, 'd) cursor \<Rightarrow> ('t, 's, 'd) cursor option" where
  "search_forward dim filter_node c = do {
     (stack, descend, did_seek) \<leftarrow>
       (if c_stack c = [] then
          if \<not> c_at_end c then do {
            stack \<leftarrow> push_entry \<lparr>e_tree = c_tree c, e_index = 0, e_position = d_zero dim\<rparr> [];
            Some (stack, True, True)
          }
          else Some ([], False, True)
        else Some (c_stack c, False, c_did_seek c));
     (stack', position') \<leftarrow> search_forward_loop dim filter_node stack (c_position c) descend;
     Some (c\<lparr>c_stack := stack', c_position := position', c_did_seek := did_seek,
             c_at_end := (if stack' = [] then True else c_at_end c)\<rparr>)
   }"

definition cursor_next :: "('s, 'd) dim_ops \<Rightarrow> ('t, 's, 'd) cursor \<Rightarrow> ('t, 's, 'd) cursor option" where
  "cursor_next dim c = search_forward dim (\<lambda>_. True) c"

section \<open>Seeking\<close>

text \<open>The \<open>SeekAggregate\<close> trait, over an accumulator state.\<close>

record ('t, 's, 'g) seek_aggregate =
  begin_leaf :: "'g \<Rightarrow> 'g"
  end_leaf :: "'g \<Rightarrow> 'g option"
  push_item :: "'g \<Rightarrow> 't \<Rightarrow> 's \<Rightarrow> 'g option"
  push_tree :: "'g \<Rightarrow> ('t, 's) node \<Rightarrow> 's \<Rightarrow> 'g option"

text \<open>
  The \<open>for\<close> loop of \<open>seek_internal\<close> over the remaining children: the child to descend into, if
  one ends beyond the target, with the entry's index and position, the cursor's position and the
  aggregate.
\<close>

fun seek_children ::
    "('s, 'd) dim_ops \<Rightarrow> 'd seek_target \<Rightarrow> bias \<Rightarrow> ('t, 's, 'g) seek_aggregate \<Rightarrow>
     ('t, 's) node list \<Rightarrow> 's list \<Rightarrow> nat \<Rightarrow> 'd \<Rightarrow> 'd \<Rightarrow> 'g \<Rightarrow>
     (('t, 's) node option \<times> nat \<times> 'd \<times> 'd \<times> 'g) option" where
  "seek_children dim target bias A (child_tree # cts) (child_summary # css) index epos position agg =
     (let child_end = d_add dim position child_summary; comparison = target child_end in
      if comparison = Greater \<or> (comparison = Equal \<and> bias = Right) then do {
        agg' \<leftarrow> push_tree A agg child_tree child_summary;
        seek_children dim target bias A cts css (index + 1) child_end child_end agg'
      }
      else Some (Some child_tree, index, epos, position, agg))"
| "seek_children dim target bias A _ _ index epos position agg = Some (None, index, epos, position, agg)"

text \<open>The loop over the remaining items of a leaf; the first component says it was broken off.\<close>

fun seek_items ::
    "('s, 'd) dim_ops \<Rightarrow> 'd seek_target \<Rightarrow> bias \<Rightarrow> ('t, 's, 'g) seek_aggregate \<Rightarrow>
     't list \<Rightarrow> 's list \<Rightarrow> nat \<Rightarrow> 'd \<Rightarrow> 'g \<Rightarrow> (bool \<times> nat \<times> 'd \<times> 'g) option" where
  "seek_items dim target bias A (item # xs) (item_summary # ss) index position agg =
     (let child_end = d_add dim position item_summary; comparison = target child_end in
      if comparison = Greater \<or> (comparison = Equal \<and> bias = Right) then do {
        agg' \<leftarrow> push_item A agg item item_summary;
        seek_items dim target bias A xs ss (index + 1) child_end agg'
      }
      else Some (True, index, position, agg))"
| "seek_items dim target bias A _ _ index position agg = Some (False, index, position, agg)"

partial_function (option) seek_loop ::
    "('s, 'd) dim_ops \<Rightarrow> 'd seek_target \<Rightarrow> bias \<Rightarrow> ('t, 's, 'g) seek_aggregate \<Rightarrow>
     ('t, 's, 'd) stack_entry list \<Rightarrow> 'd \<Rightarrow> 'g \<Rightarrow> bool \<Rightarrow>
     (('t, 's, 'd) stack_entry list \<times> 'd \<times> 'g) option" where
  "seek_loop dim target bias A stack position agg ascending =
     (case stack of
        [] \<Rightarrow> Some ([], position, agg)
      | entry # rest \<Rightarrow>
          (case e_tree entry of
             Internal _ _ css cts \<Rightarrow> do {
               let (index, epos) =
                 (if ascending then (e_index entry + 1, position) else (e_index entry, e_position entry));
               ts \<leftarrow> slice_from cts index;
               ss \<leftarrow> slice_from css index;
               (child, index', epos', position', agg') \<leftarrow>
                 seek_children dim target bias A ts ss index epos position agg;
               let entry' = entry\<lparr>e_index := index', e_position := epos'\<rparr>;
               case child of
                 Some child_tree \<Rightarrow> do {
                   stack' \<leftarrow> push_entry \<lparr>e_tree = child_tree, e_index = 0, e_position = position'\<rparr> (entry' # rest);
                   seek_loop dim target bias A stack' position' agg' False
                 }
               | None \<Rightarrow> seek_loop dim target bias A rest position' agg' True
             }
           | Leaf _ xs ss \<Rightarrow> do {
               its \<leftarrow> slice_from xs (e_index entry);
               iss \<leftarrow> slice_from ss (e_index entry);
               (stopped, index', position', agg') \<leftarrow>
                 seek_items dim target bias A its iss (e_index entry) position (begin_leaf A agg);
               agg'' \<leftarrow> end_leaf A agg';
               if stopped then Some (entry\<lparr>e_index := index'\<rparr> # rest, position', agg'')
               else seek_loop dim target bias A rest position' agg'' True
             }))"

declare seek_loop.simps [code]

definition seek_internal ::
    "('s, 'd) dim_ops \<Rightarrow> ('t, 's, 'g) seek_aggregate \<Rightarrow> ('t, 's, 'd) cursor \<Rightarrow> 'd seek_target \<Rightarrow> bias \<Rightarrow> 'g \<Rightarrow>
     (bool \<times> ('t, 's, 'd) cursor \<times> 'g) option" where
  "seek_internal dim A c target bias agg = do {
     assert_that (is_ge (target (c_position c)));
     stack \<leftarrow> (if \<not> c_did_seek c
               then push_entry \<lparr>e_tree = c_tree c, e_index = 0, e_position = d_zero dim\<rparr> (c_stack c)
               else Some (c_stack c));
     (stack', position', agg') \<leftarrow> seek_loop dim target bias A stack (c_position c) agg False;
     let c' = c\<lparr>c_stack := stack', c_position := position', c_did_seek := True, c_at_end := (stack' = [])\<rparr>;
     end_pos \<leftarrow>
       (if bias = Left then do {
          r \<leftarrow> cursor_item_summary c';
          case r of Some s \<Rightarrow> Some (d_add dim position' s) | None \<Rightarrow> Some position'
        }
        else Some position');
     Some (target end_pos = Equal, c', agg')
   }"

text \<open>The three aggregates: nothing, a tree of the traversed items, a dimension of them.\<close>

definition unit_aggregate :: "('t, 's, unit) seek_aggregate" where
  "unit_aggregate =
     \<lparr>begin_leaf = (\<lambda>_. ()), end_leaf = (\<lambda>_. Some ()), push_item = (\<lambda>_ _ _. Some ()),
      push_tree = (\<lambda>_ _ _. Some ())\<rparr>"

record ('t, 's) slice_state =
  sl_tree :: "('t, 's) node"
  sl_items :: "'t list"
  sl_item_summaries :: "'s list"
  sl_summary :: 's

definition slice_aggregate :: "('t, 's) summary_ops \<Rightarrow> ('t, 's, ('t, 's) slice_state) seek_aggregate" where
  "slice_aggregate ops =
     \<lparr>begin_leaf = (\<lambda>g. g),
      end_leaf = (\<lambda>g. do {
        t \<leftarrow> append_tree ops (sl_tree g) (Leaf (sl_summary g) (sl_items g) (sl_item_summaries g));
        Some \<lparr>sl_tree = t, sl_items = [], sl_item_summaries = [], sl_summary = s_zero ops\<rparr>
      }),
      push_item = (\<lambda>g item summary. do {
        its \<leftarrow> fit CAP (sl_items g @ [item]);
        iss \<leftarrow> fit CAP (sl_item_summaries g @ [summary]);
        Some (g\<lparr>sl_items := its, sl_item_summaries := iss, sl_summary := s_add ops (sl_summary g) summary\<rparr>)
      }),
      push_tree = (\<lambda>g tree _. do {
        t \<leftarrow> append_tree ops (sl_tree g) tree;
        Some (g\<lparr>sl_tree := t\<rparr>)
      })\<rparr>"

definition summary_aggregate :: "('s, 'o) dim_ops \<Rightarrow> ('t, 's, 'o) seek_aggregate" where
  "summary_aggregate odim =
     \<lparr>begin_leaf = (\<lambda>g. g), end_leaf = Some,
      push_item = (\<lambda>g _ summary. Some (d_add odim g summary)),
      push_tree = (\<lambda>g _ summary. Some (d_add odim g summary))\<rparr>"

definition seek ::
    "('s, 'd) dim_ops \<Rightarrow> ('t, 's, 'd) cursor \<Rightarrow> 'd seek_target \<Rightarrow> bias \<Rightarrow> (bool \<times> ('t, 's, 'd) cursor) option" where
  "seek dim c target bias =
     map_option (\<lambda>(r, c', _). (r, c')) (seek_internal dim unit_aggregate (cursor_reset dim c) target bias ())"

definition seek_forward ::
    "('s, 'd) dim_ops \<Rightarrow> ('t, 's, 'd) cursor \<Rightarrow> 'd seek_target \<Rightarrow> bias \<Rightarrow> (bool \<times> ('t, 's, 'd) cursor) option" where
  "seek_forward dim c target bias =
     map_option (\<lambda>(r, c', _). (r, c')) (seek_internal dim unit_aggregate c target bias ())"

definition slice ::
    "('t, 's) summary_ops \<Rightarrow> ('s, 'd) dim_ops \<Rightarrow> ('t, 's, 'd) cursor \<Rightarrow> 'd seek_target \<Rightarrow> bias \<Rightarrow>
     (('t, 's) node \<times> ('t, 's, 'd) cursor) option" where
  "slice ops dim c target bias =
     map_option (\<lambda>(_, c', g). (sl_tree g, c'))
       (seek_internal dim (slice_aggregate ops) c target bias
          \<lparr>sl_tree = new_tree ops, sl_items = [], sl_item_summaries = [], sl_summary = s_zero ops\<rparr>)"

text \<open>\<open>End::cmp\<close> answers \<open>Greater\<close> everywhere.\<close>

definition end_target :: "'d seek_target" where
  "end_target = (\<lambda>_. Greater)"

definition suffix ::
    "('t, 's) summary_ops \<Rightarrow> ('s, 'd) dim_ops \<Rightarrow> ('t, 's, 'd) cursor \<Rightarrow> (('t, 's) node \<times> ('t, 's, 'd) cursor) option" where
  "suffix ops dim c = slice ops dim c end_target Right"

definition cursor_summary ::
    "('s, 'o) dim_ops \<Rightarrow> ('s, 'd) dim_ops \<Rightarrow> ('t, 's, 'd) cursor \<Rightarrow> 'd seek_target \<Rightarrow> bias \<Rightarrow>
     ('o \<times> ('t, 's, 'd) cursor) option" where
  "cursor_summary odim dim c target bias =
     map_option (\<lambda>(_, c', g). (g, c'))
       (seek_internal dim (summary_aggregate odim) c target bias (d_zero odim))"

section \<open>Iteration\<close>

text \<open>\<open>impl Iterator for Cursor\<close> and \<open>FilterCursor\<close>: the item at the cursor, then a step forward.\<close>

definition filter_cursor_next ::
    "('s, 'd) dim_ops \<Rightarrow> ('s \<Rightarrow> bool) \<Rightarrow> ('t, 's, 'd) cursor \<Rightarrow> ('t option \<times> ('t, 's, 'd) cursor) option" where
  "filter_cursor_next dim filter_node c = do {
     c1 \<leftarrow> (if \<not> c_did_seek c then search_forward dim filter_node c else Some c);
     r \<leftarrow> cursor_item c1;
     case r of
       Some item \<Rightarrow> do { c2 \<leftarrow> search_forward dim filter_node c1; Some (Some item, c2) }
     | None \<Rightarrow> Some (None, c1)
   }"

definition cursor_iter_next ::
    "('s, 'd) dim_ops \<Rightarrow> ('t, 's, 'd) cursor \<Rightarrow> ('t option \<times> ('t, 's, 'd) cursor) option" where
  "cursor_iter_next dim c = do {
     c1 \<leftarrow> (if \<not> c_did_seek c then cursor_next dim c else Some c);
     r \<leftarrow> cursor_item c1;
     case r of
       Some item \<Rightarrow> do { c2 \<leftarrow> cursor_next dim c1; Some (Some item, c2) }
     | None \<Rightarrow> Some (None, c1)
   }"

text \<open>Running a filtered cursor to its first \<open>None\<close>, as a \<open>for\<close> loop over \<open>SumTree::filter\<close> does.\<close>

partial_function (option) filter_collect ::
    "('s, 'd) dim_ops \<Rightarrow> ('s \<Rightarrow> bool) \<Rightarrow> ('t, 's, 'd) cursor \<Rightarrow> 't list \<Rightarrow> 't list option" where
  "filter_collect dim filter_node c acc = do {
     (r, c') \<leftarrow> filter_cursor_next dim filter_node c;
     case r of
       Some item \<Rightarrow> filter_collect dim filter_node c' (acc @ [item])
     | None \<Rightarrow> Some acc
   }"

declare filter_collect.simps [code]

text \<open>\<open>SumTree::items\<close>: collect with a cursor.\<close>

partial_function (option) collect_items ::
    "('s, 'd) dim_ops \<Rightarrow> ('t, 's, 'd) cursor \<Rightarrow> 't list \<Rightarrow> 't list option" where
  "collect_items dim c acc = do {
     r \<leftarrow> cursor_item c;
     case r of
       Some item \<Rightarrow> do { c' \<leftarrow> cursor_next dim c; collect_items dim c' (acc @ [item]) }
     | None \<Rightarrow> Some acc
   }"

declare collect_items.simps [code]

definition tree_items :: "('t, 's) node \<Rightarrow> 't list option" where
  "tree_items t = do {
     c \<leftarrow> cursor_next unit_dim (cursor_new unit_dim t);
     collect_items unit_dim c []
   }"

text \<open>\<open>Iter::next\<close>: the plain iterator keeps a stack and no position.\<close>

partial_function (option) iter_loop ::
    "('t, 's, unit) stack_entry list \<Rightarrow> bool \<Rightarrow> ('t option \<times> ('t, 's, unit) stack_entry list) option" where
  "iter_loop stack descend =
     (case stack of
        [] \<Rightarrow> Some (None, [])
      | entry # rest \<Rightarrow>
          (let index = (if descend then e_index entry else e_index entry + 1);
               entry' = entry\<lparr>e_index := index\<rparr>
           in case e_tree entry of
                Internal _ _ _ cts \<Rightarrow>
                  if index < length cts then do {
                    stack' \<leftarrow> push_entry \<lparr>e_tree = cts ! index, e_index = 0, e_position = ()\<rparr> (entry' # rest);
                    iter_loop stack' True
                  }
                  else iter_loop rest False
              | Leaf _ xs _ \<Rightarrow>
                  if index < length xs then Some (Some (xs ! index), entry' # rest)
                  else iter_loop rest False))"

declare iter_loop.simps [code]

definition iter_next ::
    "('t, 's) node \<Rightarrow> ('t, 's, unit) stack_entry list \<Rightarrow> ('t option \<times> ('t, 's, unit) stack_entry list) option" where
  "iter_next tree stack =
     (if stack = [] then do {
        stack' \<leftarrow> push_entry \<lparr>e_tree = tree, e_index = 0, e_position = ()\<rparr> [];
        iter_loop stack' True
      }
      else iter_loop stack False)"

text \<open>Running the iterator from a state to its first \<open>None\<close>, as \<open>collect\<close> does.\<close>

partial_function (option) iter_collect ::
    "('t, 's) node \<Rightarrow> ('t, 's, unit) stack_entry list \<Rightarrow> 't list \<Rightarrow> 't list option" where
  "iter_collect tree stack acc = do {
     (r, stack') \<leftarrow> iter_next tree stack;
     case r of
       Some item \<Rightarrow> iter_collect tree stack' (acc @ [item])
     | None \<Rightarrow> Some acc
   }"

declare iter_collect.simps [code]

definition tree_iter :: "('t, 's) node \<Rightarrow> 't list option" where
  "tree_iter t = iter_collect t [] []"

text \<open>\<open>impl PartialEq for SumTree\<close>: equality of the iterated sequences.\<close>

definition tree_eq :: "('t, 's) node \<Rightarrow> ('t, 's) node \<Rightarrow> bool option" where
  "tree_eq a b = do { xs \<leftarrow> tree_iter a; ys \<leftarrow> tree_iter b; Some (xs = ys) }"

end
