(* ===== verification/SumTree_Seek.thy ===== *)
theory SumTree_Seek
  imports SumTree_Cursor
begin

text \<open>
  Correctness of seeking: where a cursor stands as an index into the sequence of items, and what
  \<open>seek\<close>, \<open>seek_forward\<close>, \<open>slice\<close>, \<open>suffix\<close> and \<open>summary\<close> do to that index.
\<close>

lemma concat_map_nth:
  "i < length xs \<Longrightarrow> concat (map f xs) = concat (map f (take i xs)) @ f (xs ! i) @ concat (map f (drop (Suc i) xs))"
  by (subst id_take_nth_drop [of i xs]) simp_all

lemma takeWhile_shorter: "\<exists>x \<in> set xs. \<not> P x \<Longrightarrow> length (takeWhile P xs) < length xs"
  by (induction xs) auto

section \<open>Paths\<close>

text \<open>The items to the left of an entry's index, of a whole stack, and to the right of a path.\<close>

definition part :: "('t, 's, 'd) stack_entry \<Rightarrow> 't list" where
  "part e = (case e_tree e of
     Leaf _ xs _ \<Rightarrow> take (e_index e) xs
   | Internal _ _ _ cts \<Rightarrow> concat (map to_list (take (e_index e) cts)))"

fun before :: "('t, 's, 'd) stack_entry list \<Rightarrow> 't list" where
  "before [] = []"
| "before (e # rest) = before rest @ part e"

fun kids :: "('t, 's) node \<Rightarrow> ('t, 's) node list" where
  "kids (Internal _ _ _ cts) = cts"
| "kids (Leaf _ _ _) = []"

fun after :: "('t, 's, 'd) stack_entry list \<Rightarrow> 't list" where
  "after [] = []"
| "after (e # rest) = concat (map to_list (drop (Suc (e_index e)) (kids (e_tree e)))) @ after rest"

lemma part_Internal [simp]:
  "e_tree e = Internal h s css cts \<Longrightarrow> part e = concat (map to_list (take (e_index e) cts))"
  by (simp add: part_def)

lemma part_Leaf [simp]: "e_tree e = Leaf s xs ss \<Longrightarrow> part e = take (e_index e) xs"
  by (simp add: part_def)

context dimension_laws
begin

abbreviation d0 :: 'd where
  "d0 \<equiv> d_zero dim"

text \<open>
  A path leads from the root down to \<open>sub\<close>: every entry is an internal node whose current child is
  the next one, and holds the position of that child.
\<close>

fun path :: "('t, 's) node \<Rightarrow> ('t, 's, 'd) stack_entry list \<Rightarrow> ('t, 's) node \<Rightarrow> bool" where
  "path tree [] sub \<longleftrightarrow> sub = tree"
| "path tree (e # rest) sub \<longleftrightarrow>
     (\<exists>h s css cts. e_tree e = Internal h s css cts \<and> e_index e < length cts \<and> sub = cts ! e_index e)
     \<and> e_position e = advance d0 (before (e # rest)) \<and> path tree rest (e_tree e)"

lemma path_split: "path tree st sub \<Longrightarrow> to_list tree = before st @ to_list sub @ after st"
proof (induction st arbitrary: sub)
  case (Cons e rest)
  then obtain h s css cts where e: "e_tree e = Internal h s css cts" "e_index e < length cts"
      "sub = cts ! e_index e"
    by auto
  have "to_list (e_tree e) = part e @ to_list sub @ concat (map to_list (drop (Suc (e_index e)) cts))"
    using concat_map_nth [OF e(2), of to_list] e by simp
  moreover have "to_list tree = before rest @ to_list (e_tree e) @ after rest"
    using Cons by auto
  ultimately show ?case using e by simp
qed simp

lemma path_wf:
  "path tree st sub \<Longrightarrow> wf_node ops tree \<Longrightarrow> wf_node ops sub \<and> length st + node_height sub = node_height tree"
proof (induction st arbitrary: sub)
  case (Cons e rest)
  then obtain h s css cts where e: "e_tree e = Internal h s css cts" "e_index e < length cts"
      "sub = cts ! e_index e"
    by auto
  have "wf_node ops (e_tree e)" "length rest + node_height (e_tree e) = node_height tree"
    using Cons by auto
  with e show ?case by (auto simp: nth_mem dest: nth_mem)
qed simp

lemma mono_drop:
  assumes "mono_target target (ends d0 (to_list tree))" "to_list tree = xs @ ys @ zs"
  shows "mono_target target (ends (advance d0 xs) ys)"
  using assms by (simp add: ends_append mono_target_append)

lemma path_child:
  assumes "path tree rest (Internal h s css cts)" "k < length cts"
    and "e_tree e = Internal h s css cts" "e_index e = k" "e_position e = advance d0 (before rest @ concat (map to_list (take k cts)))"
  shows "path tree (e # rest) (cts ! k)"
  using assms by auto

text \<open>The stack and position of a cursor that stands at index \<open>n\<close> of the sequence.\<close>

definition at_index :: "('t, 's) node \<Rightarrow> ('t, 's, 'd) stack_entry list \<Rightarrow> 'd \<Rightarrow> nat \<Rightarrow> bool" where
  "at_index tree st p n \<longleftrightarrow> p = advance d0 (take n (to_list tree)) \<and>
     (if n < length (to_list tree)
      then \<exists>e rest s xs ss. st = e # rest \<and> e_tree e = Leaf s xs ss \<and> e_index e < length xs
             \<and> path tree rest (e_tree e) \<and> n = length (before rest) + e_index e
      else n = length (to_list tree) \<and> st = [])"

lemma at_indexI:
  assumes "e_tree e = Leaf s xs ss" "e_index e < length xs" "path tree rest (e_tree e)"
    and "n = length (before rest) + e_index e" "p = advance d0 (before rest @ take (e_index e) xs)"
  shows "at_index tree (e # rest) p n"
proof -
  note split = path_split [OF assms(3)]
  have "n < length (to_list tree)" using assms split by simp
  moreover have "take n (to_list tree) = before rest @ take (e_index e) xs"
    using assms by (simp add: split)
  ultimately show ?thesis using assms by (auto simp: at_index_def)
qed

lemma at_index_end: "p = advance d0 (to_list tree) \<Longrightarrow> n = length (to_list tree) \<Longrightarrow> at_index tree [] p n"
  by (simp add: at_index_def)

section \<open>Counting what a target skips\<close>

lemma skip_count_Nil [simp]: "skip_count target bias d [] = 0"
  by (simp add: skip_count_def)

lemma skip_count_append:
  assumes "mono_target target (ends d xs)" "xs \<noteq> []"
  shows "skip_count target bias d (xs @ ys) =
     (if skips target bias (advance d xs) then length xs + skip_count target bias (advance d xs) ys
      else skip_count target bias d xs)"
proof -
  have "skip_count target bias d (xs @ ys) =
     (if \<forall>e \<in> set (ends d xs). skips target bias e
      then length xs + skip_count target bias (advance d xs) ys else skip_count target bias d xs)"
    by (auto simp: skip_count_def ends_append takeWhile_append)
  then show ?thesis by (simp add: all_skip_iff [OF assms])
qed

lemma skip_count_less:
  assumes "mono_target target (ends d xs)" "xs \<noteq> []" "\<not> skips target bias (advance d xs)"
  shows "skip_count target bias d xs < length xs"
proof -
  have "\<exists>e \<in> set (ends d xs). \<not> skips target bias e"
    using all_skip_iff [OF assms(1,2), of bias] assms(3) by blast
  from takeWhile_shorter [OF this] show ?thesis by (simp add: skip_count_def)
qed

lemma skip_count_all:
  assumes "mono_target target (ends d xs)" "xs \<noteq> []" "skips target bias (advance d xs)"
  shows "skip_count target bias d xs = length xs"
  using skip_count_append [OF assms(1,2), of bias "[]"] assms(3) by simp

end

section \<open>Cursors\<close>

context dimension_laws
begin

text \<open>A cursor over \<open>tree\<close> that stands at index \<open>n\<close>, or a new one at the start.\<close>

definition cursor_ok :: "('t, 's) node \<Rightarrow> ('t, 's, 'd) cursor \<Rightarrow> nat \<Rightarrow> bool" where
  "cursor_ok tree c n \<longleftrightarrow> c_tree c = tree \<and> tree_ok ops tree \<and> node_height tree < STACK_CAP \<and>
     (if c_did_seek c then c_at_end c = (c_stack c = []) \<and> at_index tree (c_stack c) (c_position c) n
      else c = cursor_new dim tree \<and> n = 0)"

lemma cursor_new_ok: "tree_ok ops tree \<Longrightarrow> node_height tree < STACK_CAP \<Longrightarrow> cursor_ok tree (cursor_new dim tree) 0"
  by (simp add: cursor_ok_def cursor_new_def)

lemma cursor_reset_eq: "cursor_reset dim c = cursor_new dim (c_tree c)"
  by (cases c) (simp add: cursor_reset_def cursor_new_def)

lemma cursor_ok_bounds: "cursor_ok tree c n \<Longrightarrow> n \<le> length (to_list tree)"
  by (auto simp: cursor_ok_def at_index_def split: if_splits)

lemma cursor_ok_position: "cursor_ok tree c n \<Longrightarrow> c_position c = advance d0 (take n (to_list tree))"
  by (auto simp: cursor_ok_def at_index_def cursor_new_def split: if_splits)

lemma at_index_item:
  assumes "at_index tree st p n" "n < length (to_list tree)" "tree_ok ops tree"
  obtains e rest s xs ss where "st = e # rest" "e_tree e = Leaf s xs ss" "e_index e < length xs"
    "xs ! e_index e = to_list tree ! n" "ss = map (s_item ops) xs" "path tree rest (Leaf s xs ss)"
    "n = length (before rest) + e_index e"
proof -
  from assms obtain e rest s xs ss where e: "st = e # rest" "e_tree e = Leaf s xs ss" "e_index e < length xs"
      "path tree rest (Leaf s xs ss)" "n = length (before rest) + e_index e"
    by (auto simp: at_index_def)
  have "wf_node ops tree" using assms(2,3) by (auto elim: tree_ok_cases)
  with path_wf [OF e(4)] have "ss = map (s_item ops) xs" by simp
  moreover have "xs ! e_index e = to_list tree ! n"
    using path_split [OF e(4)] e(3,5) by (simp add: nth_append)
  ultimately show thesis using e by (intro that)
qed

lemma cursor_item_ok:
  assumes "cursor_ok tree c n" "c_did_seek c"
  shows "cursor_item c = Some (if n < length (to_list tree) then Some (to_list tree ! n) else None)"
    and "cursor_item_summary c =
      Some (if n < length (to_list tree) then Some (s_item ops (to_list tree ! n)) else None)"
proof -
  have at: "at_index tree (c_stack c) (c_position c) n" and ok: "tree_ok ops tree"
    using assms by (simp_all add: cursor_ok_def)
  have "cursor_item c = Some (if n < length (to_list tree) then Some (to_list tree ! n) else None)
    \<and> cursor_item_summary c =
      Some (if n < length (to_list tree) then Some (s_item ops (to_list tree ! n)) else None)"
  proof (cases "n < length (to_list tree)")
    case True
    from at_index_item [OF at True ok] obtain e rest s xs ss where "c_stack c = e # rest"
        "e_tree e = Leaf s xs ss" "e_index e < length xs" "xs ! e_index e = to_list tree ! n" "ss = map (s_item ops) xs"
      by metis
    with True assms(2) show ?thesis
      by (simp add: cursor_item_def cursor_item_summary_def assert_did_seek_def)
  next
    case False
    with at assms(2) show ?thesis
      by (simp add: at_index_def cursor_item_def cursor_item_summary_def assert_did_seek_def)
  qed
  then show "cursor_item c = Some (if n < length (to_list tree) then Some (to_list tree ! n) else None)"
    and "cursor_item_summary c =
      Some (if n < length (to_list tree) then Some (s_item ops (to_list tree ! n)) else None)"
    by simp_all
qed

lemma cursor_end_ok:
  assumes "cursor_ok tree c n" "c_did_seek c"
  shows "cursor_end dim c = Some (advance d0 (take (Suc n) (to_list tree)))"
  using cursor_item_ok(2) [OF assms] cursor_ok_position [OF assms(1)] cursor_ok_bounds [OF assms(1)]
  by (auto simp: cursor_end_def cursor_start_def take_Suc_conv_app_nth advance_append advance_single)

end

section \<open>Aggregates\<close>

text \<open>
  What the seek loop needs of an aggregate: it represents the list of items handed to it, inside
  and outside a leaf, and it never panics as long as a leaf hands over at most a leaf's capacity.
\<close>

locale aggregate = summary_laws ops
  for ops :: "('t, 's) summary_ops" +
  fixes A :: "('t, 's, 'g) seek_aggregate"
    and outside :: "'g \<Rightarrow> 't list \<Rightarrow> bool"
    and inside :: "nat \<Rightarrow> 'g \<Rightarrow> 't list \<Rightarrow> bool"
  assumes agg_begin: "outside g ys \<Longrightarrow> inside 0 (begin_leaf A g) ys"
    and agg_item: "inside k g ys \<Longrightarrow> k < CAP \<Longrightarrow>
      \<exists>g'. push_item A g x (s_item ops x) = Some g' \<and> inside (Suc k) g' (ys @ [x])"
    and agg_end: "inside k g ys \<Longrightarrow> \<exists>g'. end_leaf A g = Some g' \<and> outside g' ys"
    and agg_tree: "outside g ys \<Longrightarrow> wf_node ops t \<Longrightarrow>
      \<exists>g'. push_tree A g t (node_summary t) = Some g' \<and> outside g' (ys @ to_list t)"

text \<open>The seek loop over a measured tree with an aggregate.\<close>

locale seeking = dimension_laws ops dim + aggregate ops A outside inside
  for ops :: "('t, 's) summary_ops" and dim :: "('s, 'd) dim_ops"
    and A :: "('t, 's, 'g) seek_aggregate" and outside inside
begin

lemma seek_items_ok:
  assumes "inside k g ys" "k + length xs \<le> CAP"
  shows "\<exists>g'. seek_items dim target bias A xs (map (s_item ops) xs) i d g =
      (let n = skip_count target bias d xs in
       Some (n < length xs, i + n, advance d (take n xs), g'))
     \<and> inside (k + skip_count target bias d xs) g' (ys @ take (skip_count target bias d xs) xs)"
  using assms
proof (induction xs arbitrary: k g ys i d)
  case (Cons x xs)
  define e where "e = d_add dim d (s_item ops x)"
  show ?case
  proof (cases "skips target bias e")
    case True
    from agg_item [OF Cons.prems(1)] Cons.prems(2) obtain g1
      where g1: "push_item A g x (s_item ops x) = Some g1" "inside (Suc k) g1 (ys @ [x])"
      by auto
    have cnt: "skip_count target bias d (x # xs) = Suc (skip_count target bias e xs)"
      using True by (simp add: skip_count_def e_def)
    from Cons.IH [OF g1(2), of "i + 1" e] Cons.prems(2) g1 True show ?thesis
      by (auto simp: Let_def cnt advance_Cons skips_def simp flip: e_def)
  next
    case False
    then have "skip_count target bias d (x # xs) = 0"
      by (simp add: skip_count_def e_def)
    with False Cons.prems(1) show ?thesis by (auto simp: Let_def skips_def simp flip: e_def)
  qed
qed (simp add: Let_def)

text \<open>
  The children loop either hands over every child and is exhausted, or stops in front of a child
  that the target does not pass.
\<close>

lemma seek_children_ok:
  assumes "\<forall>c \<in> set cts. wf_node ops c" "outside g ys"
    and "mono_target target (ends d (concat (map to_list cts)))"
    and "ep = d"
  shows "\<exists>k g'. k \<le> length cts
     \<and> seek_children dim target bias A cts (map node_summary cts) i ep d g =
         Some (if k < length cts then Some (cts ! k) else None, i + k,
               advance d (concat (map to_list (take k cts))), advance d (concat (map to_list (take k cts))), g')
     \<and> outside g' (ys @ concat (map to_list (take k cts)))
     \<and> skip_count target bias d (concat (map to_list cts)) =
         (if k < length cts
          then length (concat (map to_list (take k cts)))
             + skip_count target bias (advance d (concat (map to_list (take k cts)))) (to_list (cts ! k))
          else length (concat (map to_list cts)))
     \<and> (k < length cts \<longrightarrow> \<not> skips target bias (advance d (concat (map to_list (take (Suc k) cts)))))"
  using assms
proof (induction cts arbitrary: g ys i d ep)
  case (Cons c cts)
  then have wf: "wf_node ops c" by simp
  note ne = to_list_nonempty [OF wf]
  have m: "mono_target target (ends d (to_list c))"
      "mono_target target (ends (advance d (to_list c)) (concat (map to_list cts)))"
    using mono_ends_concat [of target d "to_list c" "concat (map to_list cts)"] Cons.prems(3) by simp_all
  note cnt = skip_count_append [OF m(1) ne, of bias "concat (map to_list cts)"]
  show ?case
  proof (cases "skips target bias (advance d (to_list c))")
    case True
    from agg_tree [OF Cons.prems(2) wf] obtain g1
      where g1: "push_tree A g c (node_summary c) = Some g1" "outside g1 (ys @ to_list c)" by auto
    from Cons.IH [OF _ g1(2) m(2) refl, of "i + 1"] Cons.prems(1) obtain k g' where
      IH: "k \<le> length cts" "seek_children dim target bias A cts (map node_summary cts) (i + 1)
             (advance d (to_list c)) (advance d (to_list c)) g1 =
             Some (if k < length cts then Some (cts ! k) else None, i + 1 + k,
               advance (advance d (to_list c)) (concat (map to_list (take k cts))),
               advance (advance d (to_list c)) (concat (map to_list (take k cts))), g')"
        "outside g' ((ys @ to_list c) @ concat (map to_list (take k cts)))"
        "skip_count target bias (advance d (to_list c)) (concat (map to_list cts)) =
         (if k < length cts
          then length (concat (map to_list (take k cts)))
             + skip_count target bias (advance (advance d (to_list c)) (concat (map to_list (take k cts)))) (to_list (cts ! k))
          else length (concat (map to_list cts)))"
        "k < length cts \<longrightarrow> \<not> skips target bias (advance (advance d (to_list c)) (concat (map to_list (take (Suc k) cts))))"
      by auto
    show ?thesis
      using IH g1 True cnt
      by (intro exI [of _ "Suc k"] exI [of _ g'])
        (auto simp: Let_def d_add_wf [OF wf] skips_def [symmetric] advance_append)
  next
    case False
    then show ?thesis
      using Cons.prems(2,4) cnt
      by (intro exI [of _ 0] exI [of _ g])
        (auto simp: Let_def d_add_wf [OF wf] skips_def [symmetric])
  qed
qed simp

text \<open>The state the loop ends in, from index \<open>n\<close> with \<open>ys\<close> already handed over.\<close>

definition lands ::
    "('t, 's) node \<Rightarrow> 'd seek_target \<Rightarrow> bias \<Rightarrow> 't list \<Rightarrow> nat \<Rightarrow>
     (('t, 's, 'd) stack_entry list \<times> 'd \<times> 'g) option \<Rightarrow> bool" where
  "lands tree target bias ys n r \<longleftrightarrow>
     (let m = skip_count target bias (advance d0 (take n (to_list tree))) (drop n (to_list tree)) in
      \<exists>st p g. r = Some (st, p, g) \<and> at_index tree st p (n + m) \<and> outside g (ys @ take m (drop n (to_list tree))))"

lemma skip_count_append_less:
  "skip_count target bias d (xs @ ys) =
     (if skip_count target bias d xs < length xs then skip_count target bias d xs
      else length xs + skip_count target bias (advance d xs) ys)"
proof (cases "\<forall>e \<in> set (ends d xs). skips target bias e")
  case True
  then have "takeWhile (skips target bias) (ends d xs) = ends d xs"
    by (simp add: takeWhile_eq_all_conv)
  then have "length (takeWhile (skips target bias) (ends d xs)) = length xs"
    by (simp only: length_ends)
  with True show ?thesis by (simp add: skip_count_def ends_append)
next
  case False
  then have "length (takeWhile (skips target bias) (ends d xs)) < length xs"
    using takeWhile_shorter [of "ends d xs" "skips target bias"] by auto
  with False show ?thesis by (auto simp: skip_count_def ends_append takeWhile_append)
qed

text \<open>Landing inside the next block, and passing over it.\<close>

lemma lands_in:
  assumes "to_list tree = pre @ mid @ post"
    and "skip_count target bias (advance d0 pre) mid < length mid"
    and "at_index tree st p (length pre + skip_count target bias (advance d0 pre) mid)"
    and "outside g (ys @ take (skip_count target bias (advance d0 pre) mid) mid)"
  shows "lands tree target bias ys (length pre) (Some (st, p, g))"
  using assms by (simp add: lands_def Let_def skip_count_append_less)

lemma lands_past:
  assumes "to_list tree = pre @ mid @ post"
    and "skip_count target bias (advance d0 pre) mid = length mid"
    and "lands tree target bias (ys @ mid) (length (pre @ mid)) r"
  shows "lands tree target bias ys (length pre) r"
  using assms by (simp add: lands_def Let_def skip_count_append_less advance_append add.assoc)

lemma lands_end:
  assumes "outside g ys"
  shows "lands tree target bias ys (length (to_list tree)) (Some ([], advance d0 (to_list tree), g))"
  using assms by (simp add: lands_def at_index_def)

text \<open>
  One turn of the loop on an internal node: it moves down into the first child the target does not
  pass, or hands over all remaining children and moves up.
\<close>

lemma seek_node_step:
  assumes tree: "wf_node ops tree" "node_height tree < STACK_CAP" "mono_target target (ends d0 (to_list tree))"
    and p: "path tree rest (Internal h s css cts)" and e: "e_tree e = Internal h s css cts"
    and i: "i \<le> length cts" "pre = before rest @ concat (map to_list (take i cts))"
    and g: "outside g ys"
    and start: "(if asc then (Suc (e_index e), advance d0 pre) else (e_index e, e_position e)) = (i, advance d0 pre)"
  obtains (descend) sk e' sub post g1 where
      "concat (map to_list (drop i cts)) = sk @ to_list sub @ post" "sub \<in> set cts"
      "path tree (e' # rest) sub" "before (e' # rest) = pre @ sk" "outside g1 (ys @ sk)"
      "seek_loop dim target bias A (e # rest) (advance d0 pre) g asc =
         seek_loop dim target bias A (\<lparr>e_tree = sub, e_index = 0, e_position = advance d0 (pre @ sk)\<rparr> # e' # rest)
           (advance d0 (pre @ sk)) g1 False"
      "\<not> skips target bias (advance (advance d0 (pre @ sk)) (to_list sub))"
      "skip_count target bias (advance d0 pre) (concat (map to_list (drop i cts))) =
         length sk + skip_count target bias (advance d0 (pre @ sk)) (to_list sub)"
      "skip_count target bias (advance d0 (pre @ sk)) (to_list sub) < length (to_list sub)"
    | (exhausted) g1 where
      "seek_loop dim target bias A (e # rest) (advance d0 pre) g asc =
         seek_loop dim target bias A rest (advance d0 (pre @ concat (map to_list (drop i cts)))) g1 True"
      "outside g1 (ys @ concat (map to_list (drop i cts)))"
      "skip_count target bias (advance d0 pre) (concat (map to_list (drop i cts))) =
         length (concat (map to_list (drop i cts)))"
proof -
  define rem where "rem = drop i cts"
  define d where "d = advance d0 pre"
  note wf = path_wf [OF p tree(1)]
  note kids = wf_children [OF wf [THEN conjunct1]]
  have split: "to_list tree = pre @ concat (map to_list rem) @ after rest"
    using path_split [OF p] concat_map_take_drop [of to_list i cts] by (simp add: i(2) rem_def)
  have m: "mono_target target (ends d (concat (map to_list rem)))"
    using mono_drop [OF tree(3) split] d_def by simp
  have wfs: "\<forall>c \<in> set rem. wf_node ops c" using kids(1) by (auto simp: rem_def dest: in_set_dropD)
  from seek_children_ok [OF wfs g m refl, of bias i] obtain k g1 where k: "k \<le> length rem"
      "seek_children dim target bias A rem (map node_summary rem) i d d g =
         Some (if k < length rem then Some (rem ! k) else None, i + k,
               advance d (concat (map to_list (take k rem))), advance d (concat (map to_list (take k rem))), g1)"
      "outside g1 (ys @ concat (map to_list (take k rem)))"
      "skip_count target bias d (concat (map to_list rem)) =
         (if k < length rem
          then length (concat (map to_list (take k rem)))
             + skip_count target bias (advance d (concat (map to_list (take k rem)))) (to_list (rem ! k))
          else length (concat (map to_list rem)))"
      "k < length rem \<longrightarrow> \<not> skips target bias (advance d (concat (map to_list (take (Suc k) rem))))"
    by blast
  define sk where "sk = concat (map to_list (take k rem))"
  have rem: "slice_from cts i = Some rem" "slice_from css i = Some (map node_summary rem)"
    using i kids(4) by (simp_all add: rem_def drop_map)
  have loop: "seek_loop dim target bias A (e # rest) d g asc =
      (case if k < length rem then Some (rem ! k) else None of
         Some c \<Rightarrow> push_entry \<lparr>e_tree = c, e_index = 0, e_position = advance d sk\<rparr>
             (e\<lparr>e_index := i + k, e_position := advance d sk\<rparr> # rest)
           \<bind> (\<lambda>st. seek_loop dim target bias A st (advance d sk) g1 False)
       | None \<Rightarrow> seek_loop dim target bias A rest (advance d sk) g1 True)"
    using start k(2) rem
    by (subst seek_loop.simps) (auto simp: e d_def [symmetric] sk_def split: if_splits)
  show thesis
  proof (cases "k < length rem")
    case True
    define e' where "e' = e\<lparr>e_index := i + k, e_position := advance d sk\<rparr>"
    have b: "before rest @ concat (map to_list (take (i + k) cts)) = pre @ sk"
      by (simp add: i(2) rem_def sk_def take_add)
    have p': "path tree (e' # rest) (rem ! k)"
      using path_child [OF p, of "i + k" e'] True e b i by (simp add: e'_def rem_def d_def advance_append)
    have stop: "\<not> skips target bias (advance (advance d0 (pre @ sk)) (to_list (rem ! k)))"
      using k(5) True by (simp add: d_def sk_def advance_append take_Suc_conv_app_nth)
    show thesis
    proof (rule descend)
      show "concat (map to_list (drop i cts)) = sk @ to_list (rem ! k) @ concat (map to_list (drop (Suc k) rem))"
        using concat_map_nth [OF True, of to_list] by (simp add: sk_def rem_def)
      show "rem ! k \<in> set cts" using True nth_mem by (metis rem_def in_set_dropD)
      show "path tree (e' # rest) (rem ! k)" by (rule p')
      show "before (e' # rest) = pre @ sk" using e b by (simp add: e'_def)
      show "outside g1 (ys @ sk)" using k(3) by (simp add: sk_def)
      show "seek_loop dim target bias A (e # rest) (advance d0 pre) g asc =
         seek_loop dim target bias A (\<lparr>e_tree = rem ! k, e_index = 0, e_position = advance d0 (pre @ sk)\<rparr> # e' # rest)
           (advance d0 (pre @ sk)) g1 False"
        using loop True path_wf [OF p' tree(1)] tree(2)
        by (simp add: push_entry_def e'_def d_def advance_append)
      show "\<not> skips target bias (advance (advance d0 (pre @ sk)) (to_list (rem ! k)))" by (rule stop)
      show "skip_count target bias (advance d0 pre) (concat (map to_list (drop i cts))) =
         length sk + skip_count target bias (advance d0 (pre @ sk)) (to_list (rem ! k))"
        using k(4) True by (simp add: d_def sk_def rem_def advance_append)
      show "skip_count target bias (advance d0 (pre @ sk)) (to_list (rem ! k)) < length (to_list (rem ! k))"
      proof (rule skip_count_less [OF _ _ stop])
        show "to_list (rem ! k) \<noteq> []" using wfs True nth_mem to_list_nonempty by blast
        show "mono_target target (ends (advance d0 (pre @ sk)) (to_list (rem ! k)))"
          using mono_drop [OF tree(3) path_split [OF p']] e b by (simp add: e'_def)
      qed
    qed
  next
    case False
    then show thesis
      using loop k(1,3,4) by (intro exhausted) (auto simp: d_def sk_def rem_def advance_append)
  qed
qed

text \<open>Descending into a subtree the target does not pass: the loop stops inside it.\<close>

lemma seek_down:
  assumes "wf_node ops tree" "node_height tree < STACK_CAP" "mono_target target (ends d0 (to_list tree))"
    and "path tree anc sub" "d = advance d0 (before anc)" "outside g ys"
    and "\<not> skips target bias (advance d (to_list sub))"
  shows "\<exists>st p g'. seek_loop dim target bias A (\<lparr>e_tree = sub, e_index = 0, e_position = d\<rparr> # anc) d g False = Some (st, p, g')
     \<and> at_index tree st p (length (before anc) + skip_count target bias d (to_list sub))
     \<and> outside g' (ys @ take (skip_count target bias d (to_list sub)) (to_list sub))"
  using assms(4-7)
proof (induction sub arbitrary: anc d g ys)
  case (Leaf s xs ss)
  note wf = path_wf [OF Leaf.prems(1) assms(1)] and split = path_split [OF Leaf.prems(1)]
  have m: "mono_target target (ends d xs)"
    using mono_drop [OF assms(3) split] Leaf.prems(2) by simp
  from wf have ss: "ss = map (s_item ops) xs" and xs: "xs \<noteq> []" "length xs \<le> CAP" by simp_all
  have less: "skip_count target bias d xs < length xs"
    using skip_count_less [OF m xs(1)] Leaf.prems(4) by simp
  from seek_items_ok [OF agg_begin [OF Leaf.prems(3)], of xs target bias 0 d] xs(2) obtain g1 where g1:
      "seek_items dim target bias A xs ss 0 d (begin_leaf A g) =
         Some (True, skip_count target bias d xs, advance d (take (skip_count target bias d xs) xs), g1)"
      "inside (skip_count target bias d xs) g1 (ys @ take (skip_count target bias d xs) xs)"
    using less ss by (auto simp: Let_def)
  from agg_end [OF g1(2)] obtain g2 where "end_leaf A g1 = Some g2"
      "outside g2 (ys @ take (skip_count target bias d xs) xs)" by auto
  then show ?case
    using g1(1) less Leaf.prems(1,2)
    by (subst seek_loop.simps) (auto simp: advance_append intro!: at_indexI)
next
  case (Internal h s css cts)
  define e where "e = \<lparr>e_tree = Internal h s css cts, e_index = 0, e_position = d\<rparr>"
  note split = path_split [OF Internal.prems(1)]
  have m: "mono_target target (ends d (concat (map to_list cts)))"
    using mono_drop [OF assms(3) split] Internal.prems(2) by simp
  have ne: "concat (map to_list cts) \<noteq> []"
    using to_list_nonempty path_wf [OF Internal.prems(1) assms(1)] by fastforce
  have start: "(if False then (Suc (e_index e), advance d0 (before anc)) else (e_index e, e_position e))
      = (0, advance d0 (before anc))"
    by (simp add: e_def Internal.prems(2))
  have e: "e_tree e = Internal h s css cts" "before anc = before anc @ concat (map to_list (take 0 cts))"
    by (simp_all add: e_def)
  show ?case
  proof (cases rule: seek_node_step [OF assms(1-3) Internal.prems(1) e(1) le0 e(2) Internal.prems(3) start, of bias, case_names descend exhausted])
    case (descend sk e' sub post g1)
    have d1: "advance d0 (before anc @ sk) = advance d0 (before (e' # anc))"
      using descend(4) by (simp only:)
    from Internal.IH [OF descend(2,3) d1 descend(5,7)] descend
    show ?thesis
      by (simp add: e_def Internal.prems(2) add.assoc flip: advance_append del: before.simps)
  next
    case (exhausted g1)
    then show ?thesis
      using skip_count_less [OF m ne, of bias] Internal.prems(2,4) by simp
  qed
qed

lemma seek_up:
  assumes "wf_node ops tree" "node_height tree < STACK_CAP" "mono_target target (ends d0 (to_list tree))"
    and "path tree anc sub" "d = advance d0 (before anc @ to_list sub)" "outside g ys"
  shows "lands tree target bias ys (length (before anc @ to_list sub)) (seek_loop dim target bias A anc d g True)"
  using assms(4-6)
proof (induction anc arbitrary: sub d g ys)
  case Nil
  then show ?case using lands_end by (subst seek_loop.simps) simp
next
  case (Cons e rest)
  then obtain h s css cts where e: "e_tree e = Internal h s css cts" "e_index e < length cts"
      "sub = cts ! e_index e" and p: "path tree rest (Internal h s css cts)"
    by auto
  define i where "i = Suc (e_index e)"
  define pre where "pre = before rest @ concat (map to_list (take i cts))"
  have pre: "before (e # rest) @ to_list sub = pre"
    using e by (simp add: pre_def i_def take_Suc_conv_app_nth)
  have whole: "before rest @ to_list (Internal h s css cts) = pre @ concat (map to_list (drop i cts))"
    using concat_map_take_drop [of to_list i cts] by (simp add: pre_def)
  have tree: "to_list tree = pre @ concat (map to_list (drop i cts)) @ after rest"
    using path_split [OF p] whole by simp
  have i: "i \<le> length cts" using e(2) by (simp add: i_def)
  have start: "(if True then (Suc (e_index e), advance d0 pre) else (e_index e, e_position e)) = (i, advance d0 pre)"
    by (simp add: i_def)
  show ?case
  proof (cases rule: seek_node_step [OF assms(1-3) p e(1) i pre_def Cons.prems(3) start, of bias, case_names descend exhausted])
    case (descend sk e' sub' post g1)
    have d1: "advance d0 (pre @ sk) = advance d0 (before (e' # rest))"
      using descend(4) by (simp only:)
    from seek_down [OF assms(1-3) descend(3) d1 descend(5,7)] descend(1,4,6,8,9) Cons.prems(2)
    show ?thesis unfolding pre
      by (auto intro!: lands_in [OF tree] simp: add.assoc simp del: before.simps)
  next
    case (exhausted g1)
    from Cons.IH [OF p _ exhausted(2)] exhausted(1,3) Cons.prems(2)
    show ?thesis unfolding pre whole
      by (auto intro!: lands_past [OF tree] simp del: length_append)
  qed
qed

text \<open>From a cursor inside the tree, and from the root.\<close>

lemma seek_from_index:
  assumes "wf_node ops tree" "node_height tree < STACK_CAP" "mono_target target (ends d0 (to_list tree))"
    and at: "at_index tree st d n" and g: "outside g ys"
  shows "lands tree target bias ys n (seek_loop dim target bias A st d g False)"
proof (cases "n < length (to_list tree)")
  case False
  with at g show ?thesis
    using lands_end by (subst seek_loop.simps) (auto simp: at_index_def)
next
  case True
  with at obtain e rest s xs ss where e: "st = e # rest" "e_tree e = Leaf s xs ss" "e_index e < length xs"
      "path tree rest (Leaf s xs ss)" "n = length (before rest) + e_index e"
    by (auto simp: at_index_def)
  define i where "i = e_index e"
  note split = path_split [OF e(4)]
  have ss: "ss = map (s_item ops) xs" and cap: "length xs \<le> CAP"
    using path_wf [OF e(4) assms(1)] by simp_all
  have tree: "to_list tree = (before rest @ take i xs) @ drop i xs @ after rest" using split by simp
  have n: "n = length (before rest @ take i xs)" using e by (simp add: i_def)
  have d: "d = advance d0 (before rest @ take i xs)"
    using at e(3) unfolding at_index_def n tree by (simp add: i_def)
  define c where "c = skip_count target bias d (drop i xs)"
  have cap': "0 + length (drop i xs) \<le> CAP" using cap by simp
  from seek_items_ok [OF agg_begin [OF g] cap', of target bias i d] obtain g1 where g1:
      "seek_items dim target bias A (drop i xs) (drop i ss) i d (begin_leaf A g) =
         Some (c < length (drop i xs), i + c, advance d (take c (drop i xs)), g1)"
      "inside c g1 (ys @ take c (drop i xs))"
    by (auto simp: Let_def c_def ss drop_map)
  from agg_end [OF g1(2)] obtain g2 where g2: "end_leaf A g1 = Some g2" "outside g2 (ys @ take c (drop i xs))"
    by auto
  have loop: "seek_loop dim target bias A st d g False =
      (if c < length (drop i xs) then Some (e\<lparr>e_index := i + c\<rparr> # rest, advance d (take c (drop i xs)), g2)
       else seek_loop dim target bias A rest (advance d (take c (drop i xs))) g2 True)"
    using e g1 g2 ss by (subst seek_loop.simps) (simp add: i_def)
  show ?thesis
  proof (cases "c < length (drop i xs)")
    case True
    have "at_index tree (e\<lparr>e_index := i + c\<rparr> # rest) (advance d (take c (drop i xs))) (n + c)"
      using e True n d by (intro at_indexI [of _ s xs ss]) (simp_all add: i_def take_add flip: advance_append)
    then have "lands tree target bias ys n (Some (e\<lparr>e_index := i + c\<rparr> # rest, advance d (take c (drop i xs)), g2))"
      unfolding n using True g2(2) lands_in [OF tree] by (simp add: c_def d)
    with True loop show ?thesis by simp
  next
    case False
    then have c: "c = length (drop i xs)" using skip_count_le [of target bias d "drop i xs"] by (simp add: c_def)
    have "lands tree target bias (ys @ drop i xs) (length (before rest @ to_list (Leaf s xs ss)))
        (seek_loop dim target bias A rest (advance d (drop i xs)) g2 True)"
      using g2 c d by (intro seek_up [OF assms(1-3) e(4)]) (simp_all flip: advance_append)
    with False loop c show ?thesis unfolding n
      by (intro lands_past [OF tree]) (simp_all add: c_def d)
  qed
qed

lemma seek_from_root:
  assumes ok: "tree_ok ops tree" and "node_height tree < STACK_CAP" "mono_target target (ends d0 (to_list tree))"
    and g: "outside g ys"
  shows "lands tree target bias ys 0 (seek_loop dim target bias A [\<lparr>e_tree = tree, e_index = 0, e_position = d0\<rparr>] d0 g False)"
  using ok
proof (cases rule: tree_ok_cases)
  case 1
  from agg_begin [OF g] agg_end obtain g' where "end_leaf A (begin_leaf A g) = Some g'" "outside g' ys" by blast
  with 1 show ?thesis
    using lands_end [of g' ys tree]
    by (subst seek_loop.simps) (simp add: new_tree_def, subst seek_loop.simps, simp)
next
  case 2
  show ?thesis
  proof (cases tree)
    case (Leaf s xs ss)
    with 2 have "at_index tree [\<lparr>e_tree = tree, e_index = 0, e_position = d0\<rparr>] d0 0"
      by (intro at_indexI [of _ s xs ss]) simp_all
    then show ?thesis by (rule seek_from_index [OF 2(1) assms(2,3) _ g])
  next
    case (Internal h s css cts)
    define e where "e = \<lparr>e_tree = tree, e_index = 0, e_position = d0\<rparr>"
    have tree: "to_list tree = [] @ concat (map to_list cts) @ []" by (simp add: Internal)
    have e: "path tree [] (Internal h s css cts)" "e_tree e = Internal h s css cts"
        "[] = before [] @ concat (map to_list (take 0 cts))"
        "(if False then (Suc (e_index e), advance d0 []) else (e_index e, e_position e)) = (0, advance d0 [])"
      by (simp_all add: Internal e_def)
    show ?thesis unfolding e_def [symmetric]
    proof (cases rule: seek_node_step [OF 2(1) assms(2,3) e(1,2) le0 e(3) g e(4), of bias, case_names descend exhausted])
      case (descend sk e' sub post g1)
      have d1: "advance d0 ([] @ sk) = advance d0 (before [e'])" using descend(4) by (simp only:)
      from seek_down [OF 2(1) assms(2,3) descend(3) d1 descend(5,7)] descend(1,4,6,8,9)
      show "lands tree target bias ys 0 (seek_loop dim target bias A [e] d0 g False)"
        using lands_in [OF tree, of target bias] by (auto simp: add.assoc simp del: before.simps)
    next
      case (exhausted g1)
      then show "lands tree target bias ys 0 (seek_loop dim target bias A [e] d0 g False)"
        using lands_past [OF tree, of target bias] lands_end [of g1 "ys @ to_list tree" tree]
          seek_loop.simps [of dim target bias A "[]"]
        by (auto simp: Internal)
    qed
  qed
qed

text \<open>
  The whole of \<open>seek_internal\<close> on a cursor at \<open>n\<close>: it stops at the first item, from there on, that
  the target does not pass, and has handed over the items in between.
\<close>

lemma seek_internal_ok:
  assumes c: "cursor_ok tree c n" and m: "mono_target target (ends d0 (to_list tree))"
    and fwd: "target (c_position c) \<noteq> Less" and g: "outside g ys"
    and cnt: "k = n + skip_count target bias (advance d0 (take n (to_list tree))) (drop n (to_list tree))"
  shows "\<exists>c' g'. seek_internal dim A c target bias g =
      Some (target (advance d0 (take (if bias = Left then Suc k else k) (to_list tree))) = Equal, c', g')
    \<and> cursor_ok tree c' k \<and> c_did_seek c' \<and> outside g' (ys @ drop n (take k (to_list tree)))"
proof -
  have c': "c_tree c = tree" "tree_ok ops tree" "node_height tree < STACK_CAP"
    using c by (simp_all add: cursor_ok_def)
  define st0 where "st0 = (if c_did_seek c then c_stack c else [\<lparr>e_tree = tree, e_index = 0, e_position = d0\<rparr>])"
  have push: "(if \<not> c_did_seek c then push_entry \<lparr>e_tree = tree, e_index = 0, e_position = d0\<rparr> (c_stack c)
      else Some (c_stack c)) = Some st0"
    using c by (auto simp: st0_def cursor_ok_def cursor_new_def push_entry_def STACK_CAP_def split: if_splits)
  have "lands tree target bias ys n (seek_loop dim target bias A st0 (c_position c) g False)"
  proof (cases "c_did_seek c")
    case True
    then have at: "at_index tree (c_stack c) (c_position c) n" using c by (simp add: cursor_ok_def)
    show ?thesis using c'(2)
    proof (cases rule: tree_ok_cases)
      case 1
      then have "c_stack c = []" "c_position c = d0" "n = 0" using at by (auto simp: at_index_def)
      with 1 True show ?thesis
        using lands_end [OF g, of tree target bias] by (subst seek_loop.simps) (simp add: st0_def)
    next
      case 2
      with True show ?thesis using seek_from_index [OF 2(1) c'(3) m at g] by (simp add: st0_def)
    qed
  next
    case False
    then have "c_position c = d0" "n = 0" using c by (auto simp: cursor_ok_def cursor_new_def)
    with False show ?thesis using seek_from_root [OF c'(2,3) m g] by (simp add: st0_def)
  qed
  then obtain st p g' where r: "seek_loop dim target bias A st0 (c_position c) g False = Some (st, p, g')"
      "at_index tree st p k" "outside g' (ys @ drop n (take k (to_list tree)))"
    by (auto simp: lands_def Let_def cnt take_drop add.commute)
  define c1 where "c1 = c\<lparr>c_stack := st, c_position := p, c_did_seek := True, c_at_end := (st = [])\<rparr>"
  have ok: "cursor_ok tree c1 k" "c_did_seek c1"
    using r(2) c' by (auto simp: c1_def cursor_ok_def)
  have c1_pos: "c_position c1 = p" by (simp add: c1_def)
  have "cursor_item_summary c1 \<bind> (\<lambda>r. case r of Some s \<Rightarrow> Some (d_add dim p s) | None \<Rightarrow> Some p)
      = Some (advance d0 (take (Suc k) (to_list tree)))"
    using cursor_end_ok [OF ok] unfolding cursor_end_def cursor_start_def c1_pos .
  moreover have "p = advance d0 (take k (to_list tree))"
    using cursor_ok_position [OF ok(1)] by (simp add: c1_def)
  ultimately have ep: "(if bias = Left
        then cursor_item_summary c1 \<bind> (\<lambda>r. case r of Some s \<Rightarrow> Some (d_add dim p s) | None \<Rightarrow> Some p)
        else Some p) = Some (advance d0 (take (if bias = Left then Suc k else k) (to_list tree)))"
    by (cases bias) auto
  have "seek_internal dim A c target bias g =
      (if bias = Left
        then cursor_item_summary c1 \<bind> (\<lambda>r. case r of Some s \<Rightarrow> Some (d_add dim p s) | None \<Rightarrow> Some p)
        else Some p) \<bind> (\<lambda>e. Some (target e = Equal, c1, g'))"
    using fwd r(1) unfolding seek_internal_def c'(1) push by (simp add: is_ge_def Let_def c1_def)
  then have "seek_internal dim A c target bias g =
      Some (target (advance d0 (take (if bias = Left then Suc k else k) (to_list tree))) = Equal, c1, g')"
    unfolding ep by simp
  with ok r(3) show ?thesis by blast
qed

end

section \<open>The three aggregates\<close>

sublocale summary_laws \<subseteq> unit_agg: aggregate ops unit_aggregate "\<lambda>_ _. True" "\<lambda>_ _ _. True"
  by unfold_locales (simp_all add: unit_aggregate_def)

context summary_laws
begin

definition slice_outside :: "('t, 's) slice_state \<Rightarrow> 't list \<Rightarrow> bool" where
  "slice_outside g ys \<longleftrightarrow> tree_ok ops (sl_tree g) \<and> to_list (sl_tree g) = ys \<and> sl_items g = []
     \<and> sl_item_summaries g = [] \<and> sl_summary g = s_zero ops"

definition slice_inside :: "nat \<Rightarrow> ('t, 's) slice_state \<Rightarrow> 't list \<Rightarrow> bool" where
  "slice_inside k g ys \<longleftrightarrow> tree_ok ops (sl_tree g) \<and> to_list (sl_tree g) @ sl_items g = ys
     \<and> length (sl_items g) = k \<and> k \<le> CAP \<and> sl_item_summaries g = map (s_item ops) (sl_items g)
     \<and> sl_summary g = lsum (sl_items g)"

lemma slice_leaf_ok:
  assumes "slice_inside k g ys"
  shows "tree_ok ops (Leaf (sl_summary g) (sl_items g) (sl_item_summaries g))"
proof (cases "sl_items g = []")
  case True
  with assms show ?thesis by (simp add: slice_inside_def tree_ok_def new_tree_def lsum_Nil)
next
  case False
  with assms show ?thesis by (auto simp: slice_inside_def lsum_def intro!: tree_ok_wf)
qed

end

sublocale summary_laws \<subseteq> slice_agg: aggregate ops "slice_aggregate ops" slice_outside slice_inside
proof
  fix g ys
  assume "slice_outside g ys"
  then show "slice_inside 0 (begin_leaf (slice_aggregate ops) g) ys"
    by (auto simp: slice_outside_def slice_inside_def slice_aggregate_def lsum_Nil)
next
  fix k g ys x
  assume "slice_inside k g ys" "k < CAP"
  then show "\<exists>g'. push_item (slice_aggregate ops) g x (s_item ops x) = Some g' \<and> slice_inside (Suc k) g' (ys @ [x])"
    by (auto simp: slice_inside_def slice_aggregate_def lsum_def sum_snoc)
next
  fix k g ys
  assume g: "slice_inside k g ys"
  then have "tree_ok ops (sl_tree g)" by (simp add: slice_inside_def)
  from append_tree_ok [OF this slice_leaf_ok [OF g]] g
  show "\<exists>g'. end_leaf (slice_aggregate ops) g = Some g' \<and> slice_outside g' ys"
    by (auto simp: slice_inside_def slice_outside_def slice_aggregate_def)
next
  fix g ys t
  assume g: "slice_outside g ys" "wf_node ops t"
  then have "tree_ok ops (sl_tree g)" "tree_ok ops t" by (auto simp: slice_outside_def)
  from append_tree_ok [OF this] g(1)
  show "\<exists>g'. push_tree (slice_aggregate ops) g t (node_summary t) = Some g' \<and> slice_outside g' (ys @ to_list t)"
    by (auto simp: slice_outside_def slice_aggregate_def)
qed

sublocale dimension_laws \<subseteq> summary_agg: aggregate ops "summary_aggregate dim"
    "\<lambda>g ys. g = advance (d_zero dim) ys" "\<lambda>_ g ys. g = advance (d_zero dim) ys"
  by unfold_locales (simp_all add: summary_aggregate_def advance_append advance_single d_add_wf)

context dimension_laws
begin

lemmas summary_aggregate_laws = summary_agg.aggregate_axioms

end

sublocale dimension_laws \<subseteq> seek_unit: seeking ops dim unit_aggregate "\<lambda>_ _. True" "\<lambda>_ _ _. True"
  by unfold_locales

sublocale dimension_laws \<subseteq> seek_slice: seeking ops dim "slice_aggregate ops" slice_outside slice_inside
  by unfold_locales

section \<open>The public seeks\<close>

context dimension_laws
begin

text \<open>The index a seek from \<open>n\<close> arrives at.\<close>

definition seek_index :: "'d seek_target \<Rightarrow> bias \<Rightarrow> ('t, 's) node \<Rightarrow> nat \<Rightarrow> nat" where
  "seek_index target bias tree n =
     n + skip_count target bias (advance d0 (take n (to_list tree))) (drop n (to_list tree))"

definition seek_found :: "'d seek_target \<Rightarrow> bias \<Rightarrow> ('t, 's) node \<Rightarrow> nat \<Rightarrow> bool" where
  "seek_found target bias tree k \<longleftrightarrow>
     target (advance d0 (take (if bias = Left then Suc k else k) (to_list tree))) = Equal"

lemma seek_index_bounds: "n \<le> length (to_list tree) \<Longrightarrow> n \<le> seek_index target bias tree n \<and> seek_index target bias tree n \<le> length (to_list tree)"
  using skip_count_le [of target bias "advance d0 (take n (to_list tree))" "drop n (to_list tree)"]
  by (simp add: seek_index_def)

lemma seek_forward_ok:
  assumes "cursor_ok tree c n" "mono_target target (ends d0 (to_list tree))" "target (c_position c) \<noteq> Less"
  shows "\<exists>c'. seek_forward dim c target bias = Some (seek_found target bias tree (seek_index target bias tree n), c')
     \<and> cursor_ok tree c' (seek_index target bias tree n) \<and> c_did_seek c'"
  using seek_unit.seek_internal_ok [OF assms TrueI seek_index_def]
  by (auto simp: seek_forward_def seek_found_def)

lemma seek_ok:
  assumes "tree_ok ops (c_tree c)" "node_height (c_tree c) < STACK_CAP"
    and "mono_target target (ends d0 (to_list (c_tree c)))" "target d0 \<noteq> Less"
  shows "\<exists>c'. seek dim c target bias =
        Some (seek_found target bias (c_tree c) (seek_index target bias (c_tree c) 0), c')
     \<and> cursor_ok (c_tree c) c' (seek_index target bias (c_tree c) 0) \<and> c_did_seek c'"
  using seek_forward_ok [OF cursor_new_ok [OF assms(1,2)] assms(3)] assms(4)
  by (simp add: seek_def seek_forward_def cursor_reset_eq cursor_new_def)

lemma slice_ok:
  assumes "cursor_ok tree c n" "mono_target target (ends d0 (to_list tree))" "target (c_position c) \<noteq> Less"
  shows "\<exists>t c'. slice ops dim c target bias = Some (t, c') \<and> tree_ok ops t
     \<and> to_list t = drop n (take (seek_index target bias tree n) (to_list tree))
     \<and> cursor_ok tree c' (seek_index target bias tree n) \<and> c_did_seek c'"
proof -
  have "slice_outside \<lparr>sl_tree = new_tree ops, sl_items = [], sl_item_summaries = [], sl_summary = s_zero ops\<rparr> []"
    by (simp add: slice_outside_def)
  from seek_slice.seek_internal_ok [OF assms this seek_index_def]
  show ?thesis by (force simp: slice_def slice_outside_def)
qed

lemma mono_end_target [simp]: "mono_target end_target ds"
  by (simp add: mono_target_def end_target_def sorted_wrt_iff_nth_less)

lemma seek_index_end: "n \<le> length (to_list tree) \<Longrightarrow> seek_index end_target Right tree n = length (to_list tree)"
proof -
  have "length (takeWhile (skips end_target Right) ds) = length ds" for ds :: "'d list"
    by (induction ds) (simp_all add: skips_def end_target_def)
  then show "n \<le> length (to_list tree) \<Longrightarrow> seek_index end_target Right tree n = length (to_list tree)"
    by (simp add: seek_index_def skip_count_def)
qed

lemma suffix_ok:
  assumes "cursor_ok tree c n"
  shows "\<exists>t c'. suffix ops dim c = Some (t, c') \<and> tree_ok ops t \<and> to_list t = drop n (to_list tree)
     \<and> cursor_ok tree c' (length (to_list tree)) \<and> c_did_seek c'"
  using slice_ok [OF assms, of end_target Right] cursor_ok_bounds [OF assms]
  by (simp add: suffix_def seek_index_end) (simp add: end_target_def)

lemma cursor_summary_ok:
  assumes odim: "dimension_laws ops odim"
    and "cursor_ok tree c n" "mono_target target (ends d0 (to_list tree))" "target (c_position c) \<noteq> Less"
  shows "\<exists>c'. cursor_summary odim dim c target bias =
        Some (dimension_laws.advance ops odim (d_zero odim) (drop n (take (seek_index target bias tree n) (to_list tree))), c')
     \<and> cursor_ok tree c' (seek_index target bias tree n) \<and> c_did_seek c'"
proof -
  have "seeking ops dim (summary_aggregate odim)
      (\<lambda>g ys. g = dimension_laws.advance ops odim (d_zero odim) ys)
      (\<lambda>_ g ys. g = dimension_laws.advance ops odim (d_zero odim) ys)"
    by (intro seeking.intro dimension_laws.summary_aggregate_laws odim dimension_laws_axioms)
  from seeking.seek_internal_ok [OF this assms(2-4) _ seek_index_def, where ys = "[]"]
  show ?thesis
    using dimension_laws.advance_Nil [OF odim] by (force simp: cursor_summary_def)
qed

end

end
