(* ===== verification/SumTree_Traverse.thy ===== *)
theory SumTree_Traverse
  imports SumTree_Seek
begin

text \<open>
  Correctness of moving a cursor: \<open>search_forward\<close> and \<open>search_backward\<close> find the next and the
  previous item the filter accepts, \<open>next\<close> and \<open>prev\<close> move by one, and the iterators produce the
  sequence of items.
\<close>

section \<open>Filters\<close>

context summary_laws
begin

definition accepts :: "('s \<Rightarrow> bool) \<Rightarrow> 't \<Rightarrow> bool" where
  "accepts F x \<longleftrightarrow> F (s_item ops x)"

text \<open>
  A filter may skip a subtree only if it would reject everything in it: it accepts the summary of a
  sequence whenever it accepts one of its items.
\<close>

definition filter_sound :: "('s \<Rightarrow> bool) \<Rightarrow> bool" where
  "filter_sound F \<longleftrightarrow> (\<forall>xs. (\<exists>x \<in> set xs. accepts F x) \<longrightarrow> F (lsum xs))"

lemma filter_sound_True [simp]: "filter_sound (\<lambda>_. True)"
  by (simp add: filter_sound_def)

lemma filter_sound_node:
  "filter_sound F \<Longrightarrow> wf_node ops t \<Longrightarrow> \<not> F (node_summary t) \<Longrightarrow> x \<in> set (to_list t) \<Longrightarrow> \<not> accepts F x"
  by (auto simp: filter_sound_def wf_summary)

definition reject_count :: "('s \<Rightarrow> bool) \<Rightarrow> 't list \<Rightarrow> nat" where
  "reject_count F xs = length (takeWhile (\<lambda>x. \<not> accepts F x) xs)"

lemma reject_count_append:
  "reject_count F (xs @ ys) =
     (if \<exists>x \<in> set xs. accepts F x then reject_count F xs else length xs + reject_count F ys)"
  by (auto simp: reject_count_def takeWhile_append)

lemma reject_count_none: "\<forall>x \<in> set xs. \<not> accepts F x \<Longrightarrow> reject_count F xs = length xs"
  using reject_count_append [of F xs "[]"] by (auto simp: reject_count_def)

lemma reject_count_True [simp]: "reject_count (\<lambda>_. True) xs = 0"
  by (cases xs) (simp_all add: reject_count_def accepts_def)

end

section \<open>Forward\<close>

lemma forward_skip_eq:
  "forward_skip dim F ss i ep p =
     (let k = length (takeWhile (\<lambda>s. \<not> F s) ss)
      in (i + k, foldl (d_add dim) ep (take k ss), foldl (d_add dim) p (take k ss)))"
  by (induction ss arbitrary: i ep p) (simp_all add: Let_def)

definition tail_items :: "('t, 's, 'd) stack_entry \<Rightarrow> 't list" where
  "tail_items e = (case e_tree e of
     Leaf _ xs _ \<Rightarrow> drop (e_index e) xs
   | Internal _ _ _ cts \<Rightarrow> concat (map to_list (drop (e_index e) cts)))"

lemma part_tail: "to_list (e_tree e) = part e @ tail_items e"
  by (cases "e_tree e") (simp_all add: part_def tail_items_def concat_map_take_drop)

context dimension_laws
begin

lemma path_entries: "path tree st sub \<Longrightarrow> wf_node ops tree \<Longrightarrow> \<forall>e \<in> set st. wf_node ops (e_tree e)"
proof (induction st arbitrary: sub)
  case (Cons e rest)
  then have "path tree rest (e_tree e)" by simp
  with Cons path_wf [OF this] show ?case by simp
qed simp

lemma foldl_summaries:
  "\<forall>c \<in> set cts. wf_node ops c \<Longrightarrow> foldl (d_add dim) d (map node_summary cts) = advance d (concat (map to_list cts))"
  by (induction cts arbitrary: d) (simp_all add: d_add_wf advance_append)

lemma foldl_items: "foldl (d_add dim) d (map (s_item ops) xs) = advance d xs"
  by (simp add: advance_def)

text \<open>Stepping over an internal entry is looking at its next child.\<close>

lemma forward_internal_step:
  "e_tree e = Internal h s css cts \<Longrightarrow>
     search_forward_loop dim F (e # rest) d False
       = search_forward_loop dim F (e\<lparr>e_index := Suc (e_index e), e_position := d\<rparr> # rest) d True"
  by (subst (1 2) search_forward_loop.simps) simp

text \<open>What one entry of the stack contributes, and that the loop moves up when it has nothing.\<close>

definition forward_ok :: "('t, 's) node \<Rightarrow> ('s \<Rightarrow> bool) \<Rightarrow> ('t, 's, 'd) stack_entry \<Rightarrow> ('t, 's, 'd) stack_entry list \<Rightarrow> bool" where
  "forward_ok tree F e rest \<longleftrightarrow>
     (if \<exists>x \<in> set (tail_items e). accepts F x
      then \<exists>st p. search_forward_loop dim F (e # rest) (advance d0 (before (e # rest))) True = Some (st, p)
             \<and> at_index tree st p (length (before (e # rest)) + reject_count F (tail_items e))
      else search_forward_loop dim F (e # rest) (advance d0 (before (e # rest))) True
         = search_forward_loop dim F rest (advance d0 (before rest @ to_list (e_tree e))) False)"

lemma forward_leaf:
  assumes "path tree rest (Leaf s xs ss)" "wf_node ops tree" "e_tree e = Leaf s xs ss" "e_index e \<le> length xs"
  shows "forward_ok tree F e rest"
proof -
  define i where "i = e_index e"
  define k where "k = reject_count F (drop i xs)"
  have ss: "ss = map (s_item ops) xs" using path_wf [OF assms(1,2)] by simp
  have k: "length (takeWhile (\<lambda>s. \<not> F s) (drop i ss)) = k"
    by (simp add: ss drop_map takeWhile_map comp_def accepts_def k_def reject_count_def)
  have loop: "search_forward_loop dim F (e # rest) (advance d0 (before (e # rest))) True =
      (if i + k < length xs
       then Some (e\<lparr>e_index := i + k, e_position := advance (e_position e) (take k (drop i xs))\<rparr> # rest,
              advance d0 (before rest @ take (i + k) xs))
       else search_forward_loop dim F rest (advance d0 (before rest @ take (i + k) xs)) False)"
    using assms(3) k ss
    by (subst search_forward_loop.simps)
      (simp add: forward_skip_eq Let_def i_def foldl_items take_map drop_map take_add flip: advance_append)
  show ?thesis
  proof (cases "\<exists>x \<in> set (drop i xs). accepts F x")
    case True
    then have "k < length (drop i xs)"
      unfolding k_def reject_count_def by (intro takeWhile_shorter) auto
    with True loop assms show ?thesis
      by (auto simp: forward_ok_def tail_items_def i_def k_def intro!: at_indexI)
  next
    case False
    then have "k = length (drop i xs)" unfolding k_def by (intro reject_count_none) auto
    with False loop assms show ?thesis
      by (auto simp: forward_ok_def tail_items_def i_def)
  qed
qed

text \<open>One turn of the loop on an internal node: rejected children are stepped over.\<close>

lemma forward_node_step:
  assumes tree: "wf_node ops tree" "filter_sound F"
    and p: "path tree rest (Internal h s css cts)" "e_tree e = Internal h s css cts"
    and i: "e_index e \<le> length cts" "e_position e = advance d0 (before (e # rest))"
  obtains j e' sk where "e_index e \<le> j" "j \<le> length cts"
    "e' = e\<lparr>e_index := j, e_position := advance d0 (before rest @ concat (map to_list (take j cts)))\<rparr>"
    "before (e' # rest) = before (e # rest) @ sk" "\<forall>x \<in> set sk. \<not> accepts F x"
    "tail_items e = sk @ concat (map to_list (drop j cts))"
    "search_forward_loop dim F (e # rest) (advance d0 (before (e # rest))) True =
      (if j < length cts
       then push_entry \<lparr>e_tree = cts ! j, e_index = 0, e_position = advance d0 (before (e' # rest))\<rparr> (e' # rest)
         \<bind> (\<lambda>st. search_forward_loop dim F st (advance d0 (before (e' # rest))) True)
       else search_forward_loop dim F rest (advance d0 (before (e' # rest))) False)"
proof
  define i where "i = e_index e"
  note kids = wf_children [OF path_wf [OF p(1) tree(1), THEN conjunct1]]
  define k where "k = length (takeWhile (\<lambda>s. \<not> F s) (drop i css))"
  define sk where "sk = concat (map to_list (take k (drop i cts)))"
  define e' where "e' = e\<lparr>e_index := i + k, e_position := advance d0 (before rest @ concat (map to_list (take (i + k) cts)))\<rparr>"
  show "e_index e \<le> i + k" by (simp add: i_def)
  show "i + k \<le> length cts"
    using length_takeWhile_le [of "\<lambda>s. \<not> F s" "drop i css"] i(1) kids(4) by (simp add: k_def i_def)
  show "e' = e\<lparr>e_index := i + k, e_position := advance d0 (before rest @ concat (map to_list (take (i + k) cts)))\<rparr>"
    by (simp add: e'_def)
  have be: "before (e' # rest) = before rest @ concat (map to_list (take (i + k) cts))"
    using p(2) by (simp add: e'_def)
  then show "before (e' # rest) = before (e # rest) @ sk"
    using p(2) by (simp add: i_def sk_def take_add)
  show "\<forall>x \<in> set sk. \<not> accepts F x"
  proof
    fix x assume "x \<in> set sk"
    then obtain c where c: "c \<in> set (take k (drop i cts))" "x \<in> set (to_list c)" by (auto simp: sk_def)
    have "node_summary c \<in> set (take k (drop i css))"
      using c(1) kids(4) by (simp add: take_map drop_map)
    then have "node_summary c \<in> set (takeWhile (\<lambda>s. \<not> F s) (drop i css))"
      by (simp only: k_def takeWhile_eq_take [symmetric])
    then have "\<not> F (node_summary c)" by (auto dest: set_takeWhileD)
    with c kids(1) show "\<not> accepts F x"
      by (meson filter_sound_node in_set_dropD in_set_takeD tree(2))
  qed
  show "tail_items e = sk @ concat (map to_list (drop (i + k) cts))"
    using concat_map_take_drop [of to_list k "drop i cts"] p(2) by (simp add: tail_items_def i_def sk_def add.commute)
  have wfs: "\<forall>c \<in> set (take k (drop i cts)). wf_node ops c"
    using kids(1) by (meson in_set_dropD in_set_takeD)
  show "search_forward_loop dim F (e # rest) (advance d0 (before (e # rest))) True =
      (if i + k < length cts
       then push_entry \<lparr>e_tree = cts ! (i + k), e_index = 0, e_position = advance d0 (before (e' # rest))\<rparr> (e' # rest)
         \<bind> (\<lambda>st. search_forward_loop dim F st (advance d0 (before (e' # rest))) True)
       else search_forward_loop dim F rest (advance d0 (before (e' # rest))) False)"
  proof -
    have "take k (drop i css) = map node_summary (take k (drop i cts))"
      using kids(4) by (simp add: take_map drop_map)
    then have "forward_skip dim F (drop i css) i (e_position e) (advance d0 (before (e # rest)))
        = (i + k, advance d0 (before (e' # rest)), advance d0 (before (e' # rest)))"
      unfolding forward_skip_eq k_def [symmetric] i(2) be using foldl_summaries [OF wfs] p(2)
      by (simp add: Let_def i_def take_add advance_append)
    then show ?thesis using p(2) unfolding be by (subst search_forward_loop.simps) (simp add: i_def e'_def)
  qed
qed

text \<open>A child on top of its parent: the child's items, then the rest of the parent's.\<close>

lemma forward_child:
  assumes ok: "forward_ok tree F ec (e' # rest)" "forward_ok tree F e2 rest"
    and e': "e_tree e' = Internal h s css cts" "j < length cts" "e_index e' = j"
    and ec: "e_tree ec = cts ! j" "e_index ec = 0"
    and e2: "e2 = e'\<lparr>e_index := Suc j, e_position := advance d0 (before (e' # rest) @ to_list (cts ! j))\<rparr>"
    and e: "e_tree e = e_tree e'" "before (e' # rest) = before (e # rest) @ sk" "\<forall>x \<in> set sk. \<not> accepts F x"
      "tail_items e = sk @ concat (map to_list (drop j cts))"
    and loop: "search_forward_loop dim F (e # rest) (advance d0 (before (e # rest))) True
        = search_forward_loop dim F (ec # e' # rest) (advance d0 (before (e' # rest))) True"
  shows "forward_ok tree F e rest"
proof -
  define c where "c = cts ! j"
  have bec: "before (ec # e' # rest) = before (e' # rest)" "tail_items ec = to_list c"
    using ec by (simp_all add: part_def tail_items_def c_def split: node.splits)
  have tail2: "concat (map to_list (drop j cts)) = to_list c @ tail_items e2"
    using e' Cons_nth_drop_Suc [OF e'(2), symmetric] by (simp add: e2 tail_items_def c_def)
  have be2: "before (e2 # rest) = before (e' # rest) @ to_list c"
    using e' by (simp add: e2 take_Suc_conv_app_nth c_def)
  have step2: "search_forward_loop dim F (e' # rest) (advance d0 (before (e' # rest) @ to_list c)) False
      = search_forward_loop dim F (e2 # rest) (advance d0 (before (e2 # rest))) True"
    unfolding be2 using forward_internal_step [of e' h s css cts] e' by (simp add: e2 c_def)
  show ?thesis
  proof (cases "\<exists>x \<in> set (to_list c). accepts F x")
    case True
    with ok(1) e(3) show ?thesis
      unfolding forward_ok_def bec loop e(4) tail2 e(2) by (auto simp: reject_count_append add.assoc)
  next
    case False
    with ok(1) have "search_forward_loop dim F (e # rest) (advance d0 (before (e # rest))) True
        = search_forward_loop dim F (e2 # rest) (advance d0 (before (e2 # rest))) True"
      unfolding forward_ok_def bec loop step2 [symmetric] by (simp add: ec c_def)
    moreover have "e_tree e2 = e_tree e" by (simp add: e2 e)
    moreover have "length (before (e2 # rest)) + reject_count F (tail_items e2)
        = length (before (e # rest)) + reject_count F (tail_items e)" if "\<exists>x \<in> set (tail_items e2). accepts F x"
      unfolding e(4) tail2 be2 e(2) using e(3) False by (auto simp: reject_count_append)
    moreover have "(\<exists>x \<in> set (tail_items e). accepts F x) \<longleftrightarrow> (\<exists>x \<in> set (tail_items e2). accepts F x)"
      unfolding e(4) tail2 using e(3) False by auto
    ultimately show ?thesis using ok(2) unfolding forward_ok_def
      by (cases "\<exists>x \<in> set (tail_items e2). accepts F x") (simp_all del: before.simps)
  qed
qed

lemma forward_internal:
  assumes tree: "wf_node ops tree" "node_height tree < STACK_CAP" "filter_sound F"
    and IH: "\<And>c e rest. c \<in> set cts \<Longrightarrow> path tree rest c \<Longrightarrow> e_tree e = c \<Longrightarrow> e_index e = 0 \<Longrightarrow>
      e_position e = advance d0 (before rest) \<Longrightarrow> forward_ok tree F e rest"
    and p: "path tree rest (Internal h s css cts)" "e_tree e = Internal h s css cts"
    and i: "e_index e \<le> length cts" "e_position e = advance d0 (before (e # rest))"
  shows "forward_ok tree F e rest"
  using p(2) i
proof (induction "length cts - e_index e" arbitrary: e rule: less_induct)
  case less
  from tree(1,3) p(1) less.prems obtain j e' sk where j: "e_index e \<le> j" "j \<le> length cts"
      and e': "e' = e\<lparr>e_index := j, e_position := advance d0 (before rest @ concat (map to_list (take j cts)))\<rparr>"
      and sk: "before (e' # rest) = before (e # rest) @ sk" "\<forall>x \<in> set sk. \<not> accepts F x"
        "tail_items e = sk @ concat (map to_list (drop j cts))"
      and loop: "search_forward_loop dim F (e # rest) (advance d0 (before (e # rest))) True =
      (if j < length cts
       then push_entry \<lparr>e_tree = cts ! j, e_index = 0, e_position = advance d0 (before (e' # rest))\<rparr> (e' # rest)
         \<bind> (\<lambda>st. search_forward_loop dim F st (advance d0 (before (e' # rest))) True)
       else search_forward_loop dim F rest (advance d0 (before (e' # rest))) False)"
    by (rule forward_node_step)
  show ?case
  proof (cases "j < length cts")
    case True
    define ec where "ec = \<lparr>e_tree = cts ! j, e_index = 0, e_position = advance d0 (before (e' # rest))\<rparr>"
    define e2 where "e2 = e'\<lparr>e_index := Suc j, e_position := advance d0 (before (e' # rest) @ to_list (cts ! j))\<rparr>"
    have pc: "path tree (e' # rest) (cts ! j)"
      using path_child [OF p(1) True, of e'] less.prems(1) by (simp add: e')
    have "length (e' # rest) < STACK_CAP" using path_wf [OF pc tree(1)] tree(2) by simp
    with True loop have descend: "search_forward_loop dim F (e # rest) (advance d0 (before (e # rest))) True
        = search_forward_loop dim F (ec # e' # rest) (advance d0 (before (e' # rest))) True"
      by (simp add: push_entry_def ec_def)
    have child: "forward_ok tree F ec (e' # rest)"
      using IH [of "cts ! j" "e' # rest" ec] pc True by (simp add: ec_def)
    have "forward_ok tree F e2 rest"
      using less.prems j True by (intro less.hyps) (simp_all add: e2_def e' take_Suc_conv_app_nth)
    from forward_child [OF child this _ True _ _ _ e2_def _ sk descend, of h s css] show ?thesis
      using less.prems(1) by (simp add: ec_def e')
  next
    case False
    then have "j = length cts" using j by simp
    then show ?thesis
      using loop sk less.prems(1) unfolding forward_ok_def by (auto simp: e' simp flip: sk(1))
  qed
qed

lemma forward_sub:
  assumes "wf_node ops tree" "node_height tree < STACK_CAP" "filter_sound F"
    and "path tree rest sub" "e_tree e = sub" "e_index e = 0" "e_position e = advance d0 (before rest)"
  shows "forward_ok tree F e rest"
  using assms(4-7)
proof (induction sub arbitrary: e rest)
  case (Leaf s xs ss)
  then show ?case by (intro forward_leaf [OF _ assms(1)]) auto
next
  case (Internal h s css cts)
  then show ?case
    by (intro forward_internal [OF assms(1-3) _ Internal.prems(1,2)]) simp_all
qed

text \<open>Coming up from a finished subtree, and starting at any entry.\<close>

lemma forward_up:
  assumes "wf_node ops tree" "node_height tree < STACK_CAP" "filter_sound F" "path tree anc sub"
  shows "\<exists>st p. search_forward_loop dim F anc (advance d0 (before anc @ to_list sub)) False = Some (st, p)
     \<and> at_index tree st p (length (before anc @ to_list sub) + reject_count F (after anc))"
  using assms(4)
proof (induction anc arbitrary: sub)
  case Nil
  then show ?case
    by (subst search_forward_loop.simps) (simp add: at_index_end reject_count_def)
next
  case (Cons e rest)
  then obtain h s css cts where e: "e_tree e = Internal h s css cts" "e_index e < length cts"
      "sub = cts ! e_index e" and p: "path tree rest (Internal h s css cts)"
    by auto
  define e2 where "e2 = e\<lparr>e_index := Suc (e_index e), e_position := advance d0 (before (e # rest) @ to_list sub)\<rparr>"
  have be2: "before (e2 # rest) = before (e # rest) @ to_list sub"
    using e by (simp add: e2_def take_Suc_conv_app_nth)
  have tail: "after (e # rest) = tail_items e2 @ after rest"
    using e by (simp add: e2_def tail_items_def)
  have whole: "before rest @ to_list (e_tree e) = before (e2 # rest) @ tail_items e2"
    using part_tail [of e2] by (simp add: e2_def)
  have ok: "forward_ok tree F e2 rest"
    using e be2 by (intro forward_internal [OF assms(1-3) _ p] forward_sub [OF assms(1-3)])
      (simp_all add: e2_def del: before.simps)
  have step: "search_forward_loop dim F (e # rest) (advance d0 (before (e # rest) @ to_list sub)) False
      = search_forward_loop dim F (e2 # rest) (advance d0 (before (e2 # rest))) True"
    unfolding be2 using forward_internal_step [OF e(1)] by (simp add: e2_def)
  show ?case
  proof (cases "\<exists>x \<in> set (tail_items e2). accepts F x")
    case True
    with ok show ?thesis unfolding step unfolding forward_ok_def tail be2 [symmetric]
      by (simp add: reject_count_append del: before.simps)
  next
    case False
    with ok have "search_forward_loop dim F (e2 # rest) (advance d0 (before (e2 # rest))) True
        = search_forward_loop dim F rest (advance d0 (before rest @ to_list (Internal h s css cts))) False"
      unfolding forward_ok_def by (simp add: e2_def e)
    with Cons.IH [OF p, folded e(1), unfolded whole] False e(1) whole show ?thesis
      unfolding step unfolding tail be2 [symmetric] by (simp add: reject_count_append add.assoc del: before.simps)
  qed
qed

lemma forward_from:
  assumes "wf_node ops tree" "node_height tree < STACK_CAP" "filter_sound F" "path tree rest (e_tree e)"
    and ok: "forward_ok tree F e rest"
  shows "\<exists>st p. search_forward_loop dim F (e # rest) (advance d0 (before (e # rest))) True = Some (st, p)
     \<and> at_index tree st p (length (before (e # rest)) + reject_count F (tail_items e @ after rest))"
proof (cases "\<exists>x \<in> set (tail_items e). accepts F x")
  case True
  with ok show ?thesis unfolding forward_ok_def by (simp add: reject_count_append del: before.simps)
next
  case False
  have whole: "before rest @ to_list (e_tree e) = before (e # rest) @ tail_items e"
    using part_tail [of e] by simp
  from False ok have "search_forward_loop dim F (e # rest) (advance d0 (before (e # rest))) True
      = search_forward_loop dim F rest (advance d0 (before rest @ to_list (e_tree e))) False"
    unfolding forward_ok_def by simp
  with forward_up [OF assms(1-4)] False show ?thesis
    unfolding whole by (simp add: reject_count_append add.assoc del: before.simps)
qed

text \<open>From a leaf entry that stands on an item, and from the root.\<close>

lemma forward_at:
  assumes "wf_node ops tree" "node_height tree < STACK_CAP" "filter_sound F"
    and at: "at_index tree st p n" "n < length (to_list tree)"
  shows "\<exists>st' p'. search_forward_loop dim F st p False = Some (st', p')
     \<and> at_index tree st' p' (Suc n + reject_count F (drop (Suc n) (to_list tree)))"
proof -
  from at_index_item [OF at tree_ok_wf [OF assms(1)]] obtain e rest s xs ss where
      e: "st = e # rest" "e_tree e = Leaf s xs ss" "e_index e < length xs" "ss = map (s_item ops) xs"
        "path tree rest (Leaf s xs ss)" "n = length (before rest) + e_index e"
    by metis
  define e2 where "e2 = e\<lparr>e_index := Suc (e_index e), e_position := d_add dim (e_position e) (ss ! e_index e)\<rparr>"
  have split: "to_list tree = before rest @ xs @ after rest" using path_split [OF e(5)] by simp
  have p: "p = advance d0 (before rest @ take (e_index e) xs)"
    using at(1) e(3,6) split by (simp add: at_index_def)
  have be2: "before (e2 # rest) = before rest @ take (Suc (e_index e)) xs"
    using e(2) by (simp add: e2_def)
  have "search_forward_loop dim F st p False
      = search_forward_loop dim F (e2 # rest) (advance d0 (before (e2 # rest))) True"
    unfolding be2 e(1) using e(2-4) p
    by (subst (1 2) search_forward_loop.simps)
      (simp add: e2_def take_Suc_conv_app_nth advance_append advance_single)
  moreover have "forward_ok tree F e2 rest"
    using e(2,3) by (intro forward_leaf [OF e(5) assms(1)]) (simp_all add: e2_def)
  from forward_from [OF assms(1-3) _ this] e(2,5)
  have "\<exists>st p. search_forward_loop dim F (e2 # rest) (advance d0 (before (e2 # rest))) True = Some (st, p)
     \<and> at_index tree st p (length (before (e2 # rest)) + reject_count F (tail_items e2 @ after rest))"
    by (simp add: e2_def)
  moreover have "length (before (e2 # rest)) = Suc n" "tail_items e2 @ after rest = drop (Suc n) (to_list tree)"
    using e(2,3,6) split by (simp_all add: e2_def tail_items_def)
  ultimately show ?thesis by simp
qed

lemma forward_root:
  assumes "wf_node ops tree" "node_height tree < STACK_CAP" "filter_sound F"
  shows "\<exists>st p. search_forward_loop dim F [\<lparr>e_tree = tree, e_index = 0, e_position = d0\<rparr>] d0 True = Some (st, p)
     \<and> at_index tree st p (reject_count F (to_list tree))"
proof -
  define e where "e = \<lparr>e_tree = tree, e_index = 0, e_position = d0\<rparr>"
  have "forward_ok tree F e []" by (rule forward_sub [OF assms]) (simp_all add: e_def)
  from forward_from [OF assms _ this] show ?thesis
    by (cases tree) (simp_all add: e_def tail_items_def)
qed

text \<open>A cursor that \<open>prev\<close> has moved past the first item.\<close>

definition cursor_before :: "('t, 's) node \<Rightarrow> ('t, 's, 'd) cursor \<Rightarrow> bool" where
  "cursor_before tree c \<longleftrightarrow> c_tree c = tree \<and> wf_node ops tree \<and> node_height tree < STACK_CAP \<and>
     c_did_seek c \<and> c_stack c = [] \<and> \<not> c_at_end c \<and> c_position c = d0"

text \<open>The index \<open>search_forward\<close> moves to: a cursor that has not been moved yet starts with the first item.\<close>

definition next_index :: "('s \<Rightarrow> bool) \<Rightarrow> ('t, 's) node \<Rightarrow> bool \<Rightarrow> nat \<Rightarrow> nat" where
  "next_index F tree moved n =
     (let m = if moved then Suc n else n
      in min (length (to_list tree)) (m + reject_count F (drop m (to_list tree))))"

lemma cursor_landed:
  assumes "at_index tree st p k" "c_tree c = tree" "tree_ok ops tree" "node_height tree < STACK_CAP" "at_end = (st = [])"
  shows "cursor_ok tree (c\<lparr>c_stack := st, c_position := p, c_did_seek := True, c_at_end := at_end\<rparr>) k"
  using assms by (simp add: cursor_ok_def)

lemma search_forward_start:
  assumes "wf_node ops tree" "node_height tree < STACK_CAP" "filter_sound F"
    and "c_tree c = tree" "c_stack c = []" "\<not> c_at_end c" "c_position c = d0"
  shows "\<exists>c'. search_forward dim F c = Some c' \<and> cursor_ok tree c' (reject_count F (to_list tree)) \<and> c_did_seek c'"
  using forward_root [OF assms(1-3)] assms
  by (auto simp: search_forward_def push_entry_def STACK_CAP_def intro!: cursor_landed)

lemma search_forward_ok:
  assumes c: "cursor_ok tree c n" and F: "filter_sound F"
  shows "\<exists>c'. search_forward dim F c = Some c' \<and> cursor_ok tree c' (next_index F tree (c_did_seek c) n) \<and> c_did_seek c'"
proof -
  have tree: "c_tree c = tree" "tree_ok ops tree" "node_height tree < STACK_CAP"
    using c by (simp_all add: cursor_ok_def)
  have le: "reject_count F xs \<le> length xs" for xs
    by (simp add: reject_count_def length_takeWhile_le)
  show ?thesis
  proof (cases "c_did_seek c")
    case True
    then have at: "at_index tree (c_stack c) (c_position c) n" "c_at_end c = (c_stack c = [])"
      using c by (simp_all add: cursor_ok_def)
    show ?thesis
    proof (cases "n < length (to_list tree)")
      case n: True
      then have wf: "wf_node ops tree" using tree(2) by (auto elim: tree_ok_cases)
      have ne: "c_stack c \<noteq> []" using at(1) n by (auto simp: at_index_def)
      have "Suc n + reject_count F (drop (Suc n) (to_list tree)) = next_index F tree True n"
        using le [of "drop (Suc n) (to_list tree)"] n by (simp add: next_index_def)
      with forward_at [OF wf tree(3) F at(1) n] True ne at(2) tree show ?thesis
        by (auto simp: search_forward_def intro!: cursor_landed)
    next
      case False
      then have "n = length (to_list tree)" "c_stack c = []" using at(1) by (auto simp: at_index_def)
      with True c at show ?thesis
        by (subst search_forward_def, subst search_forward_loop.simps)
          (auto simp: cursor_ok_def next_index_def)
    qed
  next
    case False
    then have new: "c = cursor_new dim tree" "n = 0" using c by (simp_all add: cursor_ok_def)
    from tree(2) show ?thesis
    proof (cases rule: tree_ok_cases)
      case 1
      with new False tree show ?thesis
        by (subst search_forward_def, subst search_forward_loop.simps)
          (auto simp: cursor_ok_def next_index_def cursor_new_def reject_count_def at_index_end)
    next
      case 2
      with search_forward_start [OF 2(1) tree(3) F, of c] new le [of "to_list tree"] show ?thesis
        by (auto simp: cursor_new_def next_index_def min_def)
    qed
  qed
qed

lemma cursor_next_ok:
  assumes "cursor_ok tree c n"
  shows "\<exists>c'. cursor_next dim c = Some c' \<and> c_did_seek c'
     \<and> cursor_ok tree c' (if c_did_seek c then min (length (to_list tree)) (Suc n) else 0)"
  using search_forward_ok [OF assms filter_sound_True] assms
  by (cases "c_did_seek c") (auto simp: cursor_next_def next_index_def cursor_ok_def)

section \<open>Backward\<close>

definition parent_position :: "('t, 's, 'd) stack_entry list \<Rightarrow> 'd" where
  "parent_position rest = (case rest of parent # _ \<Rightarrow> e_position parent | [] \<Rightarrow> d0)"

lemma parent_position_path: "path tree rest sub \<Longrightarrow> parent_position rest = advance d0 (before rest)"
  by (cases rest) (simp_all add: parent_position_def)

lemma backward_zero:
  "e_index e = 0 \<Longrightarrow> search_backward_loop dim F (e # rest) p False
     = search_backward_loop dim F rest (parent_position rest) False"
  by (subst search_backward_loop.simps) (simp add: parent_position_def)

lemma backward_step:
  "0 < e_index e \<Longrightarrow> search_backward_loop dim F (e # rest) p False
     = search_backward_loop dim F (e\<lparr>e_index := e_index e - 1, e_position := q\<rparr> # rest) p' True"
  by (subst (1 2) search_backward_loop.simps) (simp add: Let_def)

text \<open>The number of items up to and including the last one the filter accepts.\<close>

definition last_accepted :: "('s \<Rightarrow> bool) \<Rightarrow> 't list \<Rightarrow> nat" where
  "last_accepted F xs = length xs - reject_count F (rev xs)"

lemma last_accepted_append:
  "last_accepted F (xs @ ys) =
     (if \<exists>y \<in> set ys. accepts F y then length xs + last_accepted F ys else last_accepted F xs)"
proof -
  have "reject_count F (rev ys) \<le> length ys" using length_takeWhile_le [of _ "rev ys"] by (simp add: reject_count_def)
  then show ?thesis by (auto simp: last_accepted_def reject_count_append)
qed

lemma last_accepted_snoc: "accepts F x \<Longrightarrow> last_accepted F (xs @ [x]) = Suc (length xs)"
  by (simp add: last_accepted_append) (simp add: last_accepted_def reject_count_def)

definition backward_ok :: "('t, 's) node \<Rightarrow> ('s \<Rightarrow> bool) \<Rightarrow> ('t, 's, 'd) stack_entry \<Rightarrow> ('t, 's, 'd) stack_entry list \<Rightarrow> bool" where
  "backward_ok tree F e rest \<longleftrightarrow> (\<forall>q.
     if \<exists>x \<in> set (part e). accepts F x
     then \<exists>st p. search_backward_loop dim F (e # rest) q False = Some (st, p)
            \<and> at_index tree st p (length (before rest) + last_accepted F (part e) - 1)
     else search_backward_loop dim F (e # rest) q False = search_backward_loop dim F rest (parent_position rest) False)"

lemma backward_leaf:
  assumes "path tree rest (Leaf s xs ss)" "wf_node ops tree" "e_tree e = Leaf s xs ss" "e_index e \<le> length xs"
  shows "backward_ok tree F e rest"
  using assms(3,4)
proof (induction "e_index e" arbitrary: e)
  case 0
  then show ?case using backward_zero [of e] by (simp add: backward_ok_def)
next
  case (Suc i)
  have ss: "ss = map (s_item ops) xs" using path_wf [OF assms(1,2)] by simp
  define e' where "e' = e\<lparr>e_index := i, e_position := advance d0 (before rest @ take i xs)\<rparr>"
  have i: "i < length xs" "e_index e = Suc i" using Suc by simp_all
  have loop: "search_backward_loop dim F (e # rest) q False =
      (if accepts F (xs ! i) then Some (e' # rest, advance d0 (before rest @ take i xs))
       else search_backward_loop dim F (e' # rest) (advance d0 (before rest @ take i xs)) False)" for q
    using parent_position_path [OF assms(1)] Suc.prems(1) i ss
    by (subst search_backward_loop.simps)
      (simp add: parent_position_def Let_def e'_def accepts_def take_map foldl_items advance_append)
  have part: "part e = part e' @ [xs ! i]" "part e' = take i xs"
    using Suc.prems(1) i by (simp_all add: e'_def take_Suc_conv_app_nth)
  show ?case
  proof (cases "accepts F (xs ! i)")
    case True
    with loop Suc.prems(1) i show ?thesis
      unfolding backward_ok_def part using assms(1)
      by (auto simp: last_accepted_snoc e'_def intro!: at_indexI)
  next
    case False
    have "backward_ok tree F e' rest" using Suc.prems i by (intro Suc.hyps) (simp_all add: e'_def)
    with False loop show ?thesis
      unfolding backward_ok_def part(1)
      by (cases "\<exists>x \<in> set (part e'). accepts F x") (simp_all add: last_accepted_append bex_Un)
  qed
qed

lemma backward_internal:
  assumes tree: "wf_node ops tree" "node_height tree < STACK_CAP" "filter_sound F"
    and IH: "\<And>c e rest. c \<in> set cts \<Longrightarrow> path tree rest c \<Longrightarrow> e_tree e = c \<Longrightarrow>
      e_index e \<le> length (child_summaries c) \<Longrightarrow> backward_ok tree F e rest"
    and p: "path tree rest (Internal h s css cts)" "e_tree e = Internal h s css cts" "e_index e \<le> length cts"
  shows "backward_ok tree F e rest"
  using p(2,3)
proof (induction "e_index e" arbitrary: e)
  case 0
  then show ?case using backward_zero [of e] by (simp add: backward_ok_def)
next
  case (Suc i)
  note kids = wf_children [OF path_wf [OF p(1) tree(1), THEN conjunct1]]
  define c where "c = cts ! i"
  define q where "q = advance d0 (before rest @ concat (map to_list (take i cts)))"
  define e' where "e' = e\<lparr>e_index := i, e_position := q\<rparr>"
  define ec where "ec = \<lparr>e_tree = c, e_index = length (child_summaries c), e_position = d0\<rparr>"
  have i: "i < length cts" "e_index e = Suc i" using Suc by simp_all
  have c: "wf_node ops c" "c \<in> set cts" using kids(1) i by (simp_all add: c_def)
  have pc: "path tree (e' # rest) c"
    unfolding c_def using Suc.prems(1) by (intro path_child [OF p(1) i(1)]) (simp_all add: e'_def q_def)
  have cap: "length (e' # rest) < STACK_CAP" using path_wf [OF pc tree(1)] tree(2) by simp
  have ne: "0 < length (child_summaries c)" using c(1) by (cases c) auto
  have "\<forall>c \<in> set (take i cts). wf_node ops c" using kids(1) by (meson in_set_takeD)
  note fold = foldl_summaries [OF this]
  have nth: "css ! i = node_summary c" "length css = length cts" using kids(4) i by (simp_all add: c_def)
  have loop: "search_backward_loop dim F (e # rest) r False =
      (if F (node_summary c) then search_backward_loop dim F (ec # e' # rest) q False
       else search_backward_loop dim F (e' # rest) q False)" for r
    using parent_position_path [OF p(1)] Suc.prems(1) i ne cap kids(4) nth fold
      backward_step [of ec F "e' # rest" q d0 q]
    by (subst search_backward_loop.simps)
      (simp add: parent_position_def Let_def e'_def q_def take_map advance_append push_entry_def ec_def flip: c_def)
  have part: "part e = part e' @ to_list c"
    using Suc.prems(1) i by (simp add: e'_def take_Suc_conv_app_nth c_def)
  have parts: "part ec = to_list c" using c(1) by (cases c) (auto simp: ec_def)
  have ok': "backward_ok tree F e' rest" using Suc.prems i by (intro Suc.hyps) (simp_all add: e'_def)
  show ?case
  proof (cases "\<exists>x \<in> set (to_list c). accepts F x")
    case True
    then have "F (node_summary c)" using filter_sound_node [OF tree(3) c(1)] by blast
    moreover have "backward_ok tree F ec (e' # rest)" by (rule IH [OF c(2) pc]) (simp_all add: ec_def)
    ultimately show ?thesis using True loop
      unfolding backward_ok_def part parts by (auto simp: last_accepted_append add.assoc)
  next
    case False
    have "backward_ok tree F ec (e' # rest)" by (rule IH [OF c(2) pc]) (simp_all add: ec_def)
    with False have "search_backward_loop dim F (ec # e' # rest) q False = search_backward_loop dim F (e' # rest) q False"
      unfolding backward_ok_def parts by (simp add: parent_position_def e'_def)
    with False loop ok' show ?thesis
      unfolding backward_ok_def part
      by (cases "\<exists>x \<in> set (part e'). accepts F x") (simp_all add: last_accepted_append bex_Un)
  qed
qed

lemma backward_sub:
  assumes "wf_node ops tree" "node_height tree < STACK_CAP" "filter_sound F"
    and "path tree rest sub" "e_tree e = sub" "e_index e \<le> length (child_summaries sub)"
  shows "backward_ok tree F e rest"
  using assms(4-6)
proof (induction sub arbitrary: e rest)
  case (Leaf s xs ss)
  then show ?case using path_wf [OF Leaf.prems(1) assms(1)] by (intro backward_leaf [OF _ assms(1)]) auto
next
  case (Internal h s css cts)
  then show ?case
    using path_wf [OF Internal.prems(1) assms(1)]
    by (intro backward_internal [OF assms(1-3) _ Internal.prems(1,2)]) auto
qed

lemma backward_up:
  assumes "wf_node ops tree" "node_height tree < STACK_CAP" "filter_sound F" "path tree rest sub"
  shows "if \<exists>x \<in> set (before rest). accepts F x
     then \<exists>st p. search_backward_loop dim F rest (parent_position rest) False = Some (st, p)
            \<and> at_index tree st p (last_accepted F (before rest) - 1)
     else search_backward_loop dim F rest (parent_position rest) False = Some ([], d0)"
  using assms(4)
proof (induction rest arbitrary: sub)
  case Nil
  then show ?case by (subst search_backward_loop.simps) (simp add: parent_position_def)
next
  case (Cons e rest)
  then obtain h s css cts where e: "e_tree e = Internal h s css cts" "e_index e < length cts"
      and p: "path tree rest (Internal h s css cts)"
    by auto
  have "css = map node_summary cts" using path_wf [OF p assms(1)] by simp
  then have ok: "backward_ok tree F e rest"
    using e by (intro backward_sub [OF assms(1-3) p]) simp_all
  show ?case
  proof (cases "\<exists>x \<in> set (part e). accepts F x")
    case True
    with ok show ?thesis unfolding backward_ok_def by (auto simp: last_accepted_append)
  next
    case False
    with ok have "search_backward_loop dim F (e # rest) (parent_position (e # rest)) False
        = search_backward_loop dim F rest (parent_position rest) False"
      unfolding backward_ok_def by (simp add: parent_position_def)
    with Cons.IH [OF p] False show ?thesis
      by (cases "\<exists>x \<in> set (before rest). accepts F x") (simp_all add: last_accepted_append bex_Un)
  qed
qed

lemma backward_from:
  assumes "wf_node ops tree" "node_height tree < STACK_CAP" "filter_sound F"
    and p: "path tree rest (e_tree e)" "e_index e \<le> length (child_summaries (e_tree e))"
  shows "if \<exists>x \<in> set (before (e # rest)). accepts F x
     then \<exists>st p. search_backward_loop dim F (e # rest) q False = Some (st, p)
            \<and> at_index tree st p (last_accepted F (before (e # rest)) - 1)
     else search_backward_loop dim F (e # rest) q False = Some ([], d0)"
proof -
  have ok: "backward_ok tree F e rest" by (rule backward_sub [OF assms(1-3) p(1) refl p(2)])
  show ?thesis
  proof (cases "\<exists>x \<in> set (part e). accepts F x")
    case True
    with ok show ?thesis unfolding backward_ok_def by (auto simp: last_accepted_append)
  next
    case False
    with ok have "search_backward_loop dim F (e # rest) q False = search_backward_loop dim F rest (parent_position rest) False"
      unfolding backward_ok_def by simp
    with backward_up [OF assms(1-4)] False show ?thesis
      by (cases "\<exists>x \<in> set (before rest). accepts F x") (simp_all add: last_accepted_append bex_Un)
  qed
qed

text \<open>
  \<open>search_backward\<close> on a cursor at \<open>n\<close> (a cursor that has not been moved starts from the end).
\<close>

lemma search_backward_ok:
  assumes c: "cursor_ok tree c n" and F: "filter_sound F" and ne: "to_list tree \<noteq> []"
    and m: "m = (if c_did_seek c then n else length (to_list tree))"
  shows "\<exists>c'. search_backward dim F c = Some c' \<and> c_did_seek c' \<and>
     (if \<exists>x \<in> set (take m (to_list tree)). accepts F x
      then cursor_ok tree c' (last_accepted F (take m (to_list tree)) - 1)
      else cursor_before tree c')"
proof -
  have tree: "c_tree c = tree" "tree_ok ops tree" "node_height tree < STACK_CAP"
    using c by (simp_all add: cursor_ok_def)
  then have wf: "wf_node ops tree" "\<not> is_empty tree" using ne by (auto elim: tree_ok_cases)
  define root where "root = \<lparr>e_tree = tree, e_index = length (child_summaries tree), e_position = from_summary_dim dim (node_summary tree)\<rparr>"
  have "\<exists>st q e rest. st = e # rest \<and> path tree rest (e_tree e) \<and> e_index e \<le> length (child_summaries (e_tree e))
      \<and> before st = take m (to_list tree)
      \<and> search_backward dim F c = do {
         (stack', position') \<leftarrow> search_backward_loop dim F st q False;
         Some (c\<lparr>c_stack := stack', c_position := position', c_did_seek := True, c_at_end := False\<rparr>)}"
  proof (cases "m < length (to_list tree)")
    case True
    then have seek: "c_did_seek c" "m = n" using m by (auto split: if_splits)
    then have at: "at_index tree (c_stack c) (c_position c) m" "c_at_end c = (c_stack c = [])"
      using c by (simp_all add: cursor_ok_def)
    from at_index_item [OF at(1) True tree(2)] obtain e rest s xs ss where
        e: "c_stack c = e # rest" "e_tree e = Leaf s xs ss" "e_index e < length xs" "ss = map (s_item ops) xs"
          "path tree rest (Leaf s xs ss)" "m = length (before rest) + e_index e"
      by metis
    have "before (e # rest) = take m (to_list tree)"
      using path_split [OF e(5)] e(2,3,6) by simp
    moreover have "search_backward dim F c = do {
         (stack', position') \<leftarrow> search_backward_loop dim F (e # rest) (c_position c) False;
         Some (c\<lparr>c_stack := stack', c_position := position', c_did_seek := True, c_at_end := False\<rparr>)}"
      using seek at(2) e(1) by (simp add: search_backward_def)
    ultimately show ?thesis using e by (intro exI [of _ "e # rest"] exI [of _ "c_position c"] exI [of _ e] exI [of _ rest]) simp
  next
    case False
    then have "m = length (to_list tree)" "c_stack c = []" "c_did_seek c \<longrightarrow> c_at_end c"
      using c m cursor_ok_bounds [OF c] by (auto simp: cursor_ok_def at_index_def cursor_new_def split: if_splits)
    moreover have "before [root] = to_list tree" using wf(1) by (cases tree) (simp_all add: root_def)
    moreover have "search_backward dim F c = do {
         (stack', position') \<leftarrow> search_backward_loop dim F [root] d0 False;
         Some (c\<lparr>c_stack := stack', c_position := position', c_did_seek := True, c_at_end := False\<rparr>)}"
      using tree wf calculation by (simp add: search_backward_def root_def push_entry_def STACK_CAP_def)
    ultimately show ?thesis
      by (intro exI [of _ "[root]"] exI [of _ d0] exI [of _ root] exI [of _ "[]"]) (simp add: root_def)
  qed
  then obtain st q e rest where st: "st = e # rest" "path tree rest (e_tree e)"
      "e_index e \<le> length (child_summaries (e_tree e))" "before st = take m (to_list tree)"
      "search_backward dim F c = do {
         (stack', position') \<leftarrow> search_backward_loop dim F st q False;
         Some (c\<lparr>c_stack := stack', c_position := position', c_did_seek := True, c_at_end := False\<rparr>)}"
    by blast
  note walk = backward_from [OF wf(1) tree(3) F st(2,3), of q, folded st(1), unfolded st(4)]
  have at: "at_index tree [] p k \<Longrightarrow> k < length (to_list tree) \<Longrightarrow> False" for p k
    by (simp add: at_index_def)
  show ?thesis
  proof (cases "\<exists>x \<in> set (take m (to_list tree)). accepts F x")
    case True
    have "last_accepted F (take m (to_list tree)) \<le> length (to_list tree)" by (simp add: last_accepted_def)
    then have "last_accepted F (take m (to_list tree)) - 1 < length (to_list tree)"
      using ne by (cases "to_list tree") auto
    with True walk st(5) at tree show ?thesis by (auto intro!: cursor_landed)
  next
    case False
    with walk st(5) tree wf show ?thesis by (simp add: cursor_before_def)
  qed
qed

lemma last_accepted_True [simp]: "last_accepted (\<lambda>_. True) xs = length xs"
  by (simp add: last_accepted_def)

lemma cursor_prev_ok:
  assumes "cursor_ok tree c n" "to_list tree \<noteq> []" "m = (if c_did_seek c then n else length (to_list tree))"
  shows "\<exists>c'. cursor_prev dim c = Some c' \<and> c_did_seek c' \<and>
     (if 0 < m then cursor_ok tree c' (m - 1) else cursor_before tree c')"
proof -
  have "m \<le> length (to_list tree)" using assms(3) cursor_ok_bounds [OF assms(1)] by simp
  moreover from this assms(2) have "(\<exists>x \<in> set (take m (to_list tree)). accepts (\<lambda>_. True) x) \<longleftrightarrow> 0 < m"
    by (cases m; cases "to_list tree") (auto simp: accepts_def)
  ultimately show ?thesis
    using search_backward_ok [OF assms(1) filter_sound_True assms(2,3)]
    by (cases "0 < m") (auto simp: cursor_prev_def)
qed

lemma cursor_prev_empty:
  assumes "cursor_ok tree c n" "to_list tree = []"
  shows "\<exists>c'. cursor_prev dim c = Some c' \<and> c_did_seek c' \<and> cursor_ok tree c' 0"
proof -
  have tree: "c_tree c = tree" "tree_ok ops tree" "node_height tree < STACK_CAP" "is_empty tree"
    using assms by (auto simp: cursor_ok_def is_empty_iff)
  have "c_stack c = []" "c_did_seek c \<longrightarrow> c_at_end c"
    using assms by (auto simp: cursor_ok_def at_index_def cursor_new_def split: if_splits)
  with tree assms(2) show ?thesis
    by (auto simp: cursor_prev_def search_backward_def search_backward_loop.simps [of dim _ "[]"]
        intro!: cursor_landed at_index_end)
qed

lemma cursor_before_next:
  "cursor_before tree c \<Longrightarrow> \<exists>c'. cursor_next dim c = Some c' \<and> cursor_ok tree c' 0 \<and> c_did_seek c'"
  using search_forward_start [OF _ _ filter_sound_True, of tree c] by (auto simp: cursor_before_def cursor_next_def)

section \<open>The neighbours of a cursor\<close>

lemma next_leaf_ok:
  assumes "path tree rest sub" "wf_node ops tree"
  shows "if after rest = [] then next_leaf rest = Some None
     else \<exists>s xs ss. next_leaf rest = Some (Some (Leaf s xs ss)) \<and> xs \<noteq> [] \<and> list_first (after rest) = list_first xs"
  using assms(1)
proof (induction rest arbitrary: sub)
  case (Cons e rest)
  then obtain h s css cts where e: "e_tree e = Internal h s css cts" "e_index e < length cts"
      and p: "path tree rest (Internal h s css cts)"
    by auto
  note kids = wf_children [OF path_wf [OF p assms(2), THEN conjunct1]]
  have ne: "cts \<noteq> []" using e(2) by auto
  show ?case
  proof (cases "Suc (e_index e) < length cts")
    case True
    then have wf: "wf_node ops (cts ! Suc (e_index e))" using kids(1) by simp
    have "concat (map to_list (drop (Suc (e_index e)) cts))
        = to_list (cts ! Suc (e_index e)) @ concat (map to_list (drop (Suc (Suc (e_index e))) cts))"
      using Cons_nth_drop_Suc [OF True, symmetric] by simp
    with leftmost_leaf_ok [OF wf] to_list_nonempty [OF wf] e True ne show ?thesis
      by (auto simp: list_first_append)
  next
    case False
    with Cons.IH [OF p] e ne show ?thesis by auto
  qed
qed simp

lemma prev_leaf_ok:
  assumes "path tree rest sub" "wf_node ops tree"
  shows "if before rest = [] then prev_leaf rest = Some None
     else \<exists>s xs ss. prev_leaf rest = Some (Some (Leaf s xs ss)) \<and> xs \<noteq> [] \<and> list_last (before rest) = list_last xs"
  using assms(1)
proof (induction rest arbitrary: sub)
  case (Cons e rest)
  then obtain h s css cts where e: "e_tree e = Internal h s css cts" "e_index e < length cts"
      and p: "path tree rest (Internal h s css cts)"
    by auto
  note kids = wf_children [OF path_wf [OF p assms(2), THEN conjunct1]]
  show ?case
  proof (cases "e_index e")
    case (Suc i)
    then have wf: "wf_node ops (cts ! i)" using kids(1) e(2) by simp
    have "before (e # rest) = before rest @ concat (map to_list (take i cts)) @ to_list (cts ! i)"
      using e Suc by (simp add: take_Suc_conv_app_nth)
    with rightmost_leaf_ok [OF wf] to_list_nonempty [OF wf] e Suc show ?thesis
      by (auto simp: list_last_append simp del: before.simps)
  next
    case 0
    with Cons.IH [OF p] e show ?thesis by (cases "before rest = []") simp_all
  qed
qed simp

lemma next_item_ok:
  assumes c: "cursor_ok tree c n" "c_did_seek c"
  shows "next_item c = Some (if Suc n < length (to_list tree) then Some (to_list tree ! Suc n) else None)"
proof -
  have at: "at_index tree (c_stack c) (c_position c) n" "c_at_end c = (c_stack c = [])" "tree_ok ops tree"
    using c by (simp_all add: cursor_ok_def)
  show ?thesis
  proof (cases "n < length (to_list tree)")
    case True
    then have wf: "wf_node ops tree" using at(3) by (auto elim: tree_ok_cases)
    from at_index_item [OF at(1) True at(3)] obtain e rest s xs ss where
        e: "c_stack c = e # rest" "e_tree e = Leaf s xs ss" "e_index e < length xs"
          "path tree rest (Leaf s xs ss)" "n = length (before rest) + e_index e"
      by metis
    have split: "to_list tree = before rest @ xs @ after rest" using path_split [OF e(4)] by simp
    have ne: "xs \<noteq> []" using e(3) by auto
    show ?thesis
    proof (cases "Suc (e_index e) = length xs")
      case last: True
      have "drop (Suc n) (to_list tree) = after rest" using split e(5) last by simp
      then have "list_first (after rest) = (if Suc n < length (to_list tree) then Some (to_list tree ! Suc n) else None)"
        by (metis list_first_def list.simps(4,5) Cons_nth_drop_Suc drop_all linorder_not_le)
      moreover have "after rest = [] \<longleftrightarrow> \<not> Suc n < length (to_list tree)"
        using split e(5) last by auto
      ultimately show ?thesis
        using next_leaf_ok [OF e(4) wf] last e(1-3) c(2) ne
        by (cases "after rest = []")
          (auto simp: next_item_def assert_did_seek_def list_first_def split: list.splits)
    next
      case False
      with e c(2) split ne show ?thesis
        by (auto simp: next_item_def assert_did_seek_def nth_append)
    qed
  next
    case False
    with at c(2) show ?thesis by (simp add: at_index_def next_item_def assert_did_seek_def)
  qed
qed

lemma prev_item_ok:
  assumes c: "cursor_ok tree c n" "c_did_seek c"
  shows "prev_item c = Some (if 0 < n then Some (to_list tree ! (n - 1)) else None)"
proof -
  have at: "at_index tree (c_stack c) (c_position c) n" "c_at_end c = (c_stack c = [])" "tree_ok ops tree"
      "c_tree c = tree"
    using c by (simp_all add: cursor_ok_def)
  show ?thesis
  proof (cases "n < length (to_list tree)")
    case True
    then have wf: "wf_node ops tree" using at(3) by (auto elim: tree_ok_cases)
    from at_index_item [OF at(1) True at(3)] obtain e rest s xs ss where
        e: "c_stack c = e # rest" "e_tree e = Leaf s xs ss" "e_index e < length xs"
          "path tree rest (Leaf s xs ss)" "n = length (before rest) + e_index e"
      by metis
    have split: "to_list tree = before rest @ xs @ after rest" using path_split [OF e(4)] by simp
    show ?thesis
    proof (cases "e_index e = 0")
      case first: True
      then have "list_last (before rest) = (if 0 < n then Some (to_list tree ! (n - 1)) else None)"
        using split e(5) by (auto simp: list_last_def nth_append last_conv_nth)
      with first e c(2) prev_leaf_ok [OF e(4) wf] show ?thesis
        by (cases "before rest = []")
          (auto simp: prev_item_def assert_did_seek_def list_last_def init_last_def split: if_splits)
    next
      case False
      with e c(2) split show ?thesis
        by (auto simp: prev_item_def assert_did_seek_def nth_append)
    qed
  next
    case False
    with at c(2) tree_last_eq [OF at(3)] show ?thesis
      by (auto simp: at_index_def prev_item_def assert_did_seek_def list_last_def last_conv_nth)
  qed
qed

section \<open>Iteration\<close>

lemma cursor_iter_next_filter: "cursor_iter_next dim c = filter_cursor_next dim (\<lambda>_. True) c"
  unfolding cursor_iter_next_def filter_cursor_next_def cursor_next_def ..

text \<open>A filtered cursor stands on an accepted item or at the end.\<close>

definition on_accepted :: "('s \<Rightarrow> bool) \<Rightarrow> ('t, 's) node \<Rightarrow> nat \<Rightarrow> bool" where
  "on_accepted F tree n \<longleftrightarrow> n < length (to_list tree) \<longrightarrow> accepts F (to_list tree ! n)"

lemma reject_count_split:
  assumes "k = reject_count F xs"
  shows "k \<le> length xs" "\<forall>x \<in> set (take k xs). \<not> accepts F x" "k < length xs \<Longrightarrow> accepts F (xs ! k)"
proof -
  show "k \<le> length xs" by (simp add: assms reject_count_def length_takeWhile_le)
  show "\<forall>x \<in> set (take k xs). \<not> accepts F x"
    unfolding assms reject_count_def takeWhile_eq_take [symmetric] by (auto dest: set_takeWhileD)
  show "k < length xs \<Longrightarrow> accepts F (xs ! k)"
    using nth_length_takeWhile [of "\<lambda>x. \<not> accepts F x" xs] by (simp add: assms reject_count_def)
qed

lemma next_index_filter:
  assumes "n \<le> length (to_list tree)" "m = (if moved then Suc n else n)"
  shows "on_accepted F tree (next_index F tree moved n)"
    "filter (accepts F) (drop (next_index F tree moved n) (to_list tree)) = filter (accepts F) (drop m (to_list tree))"
proof -
  define k where "k = reject_count F (drop m (to_list tree))"
  note k = reject_count_split [OF k_def]
  have idx: "next_index F tree moved n = min (length (to_list tree)) (m + k)"
    by (simp add: next_index_def Let_def assms(2) k_def)
  then show "on_accepted F tree (next_index F tree moved n)"
    using k(3) by (auto simp: on_accepted_def min_def split: if_splits)
  have "drop m (to_list tree) = take k (drop m (to_list tree)) @ drop (m + k) (to_list tree)"
    using append_take_drop_id [of k "drop m (to_list tree)"] by (simp add: add.commute)
  then have "filter (accepts F) (drop m (to_list tree)) = filter (accepts F) (take k (drop m (to_list tree)) @ drop (m + k) (to_list tree))"
    by (rule arg_cong)
  also have "\<dots> = filter (accepts F) (drop (m + k) (to_list tree))"
    using k(2) by (simp add: filter_empty_conv)
  finally show "filter (accepts F) (drop (next_index F tree moved n) (to_list tree)) = filter (accepts F) (drop m (to_list tree))"
    unfolding idx by (simp add: min_def)
qed

lemma filter_cursor_next_ok:
  assumes c: "cursor_ok tree c n" "filter_sound F" "c_did_seek c" "on_accepted F tree n"
  shows "\<exists>c'. filter_cursor_next dim F c = Some (list_first (filter (accepts F) (drop n (to_list tree))), c')
     \<and> cursor_ok tree c' (next_index F tree True n) \<and> c_did_seek c'"
proof (cases "n < length (to_list tree)")
  case True
  then have "filter (accepts F) (drop n (to_list tree)) = to_list tree ! n # filter (accepts F) (drop (Suc n) (to_list tree))"
    using assms(4) by (simp add: on_accepted_def flip: Cons_nth_drop_Suc)
  with True search_forward_ok [OF c(1,2)] cursor_item_ok(1) [OF c(1,3)] c(3) show ?thesis
    by (auto simp: filter_cursor_next_def list_first_def)
next
  case False
  with cursor_ok_bounds [OF c(1)] have "n = length (to_list tree)" by simp
  with False cursor_item_ok(1) [OF c(1,3)] c show ?thesis
    by (auto simp: filter_cursor_next_def list_first_def next_index_def)
qed

lemma filter_cursor_next_fresh:
  assumes c: "cursor_ok tree c n" "filter_sound F" "\<not> c_did_seek c"
  shows "\<exists>c' k. filter_cursor_next dim F c = Some (list_first (filter (accepts F) (to_list tree)), c')
     \<and> k = next_index F tree False n \<and> cursor_ok tree c' (next_index F tree True k) \<and> c_did_seek c'"
proof -
  have n: "n = 0" using c by (simp add: cursor_ok_def)
  from search_forward_ok [OF c(1,2)] c(3) obtain c1 where
      c1: "search_forward dim F c = Some c1" "cursor_ok tree c1 (next_index F tree False n)" "c_did_seek c1"
    by auto
  have "filter_cursor_next dim F c = filter_cursor_next dim F c1"
    using c(3) c1 by (simp add: filter_cursor_next_def)
  with filter_cursor_next_ok [OF c1(2) c(2) c1(3) next_index_filter(1)]
    next_index_filter(2) [where moved = False and F = F and tree = tree] n
  show ?thesis by auto
qed

lemma filter_collect_ok:
  assumes "cursor_ok tree c n" "filter_sound F" "c_did_seek c" "on_accepted F tree n"
  shows "filter_collect dim F c acc = Some (acc @ filter (accepts F) (drop n (to_list tree)))"
  using assms(1,3,4)
proof (induction "length (to_list tree) - n" arbitrary: c n acc rule: less_induct)
  case less
  from filter_cursor_next_ok [OF less.prems(1) assms(2) less.prems(2,3)] obtain c' where
      c': "filter_cursor_next dim F c = Some (list_first (filter (accepts F) (drop n (to_list tree))), c')"
        "cursor_ok tree c' (next_index F tree True n)" "c_did_seek c'"
    by blast
  have n: "n \<le> length (to_list tree)" by (rule cursor_ok_bounds [OF less.prems(1)])
  show ?case
  proof (cases "n < length (to_list tree)")
    case True
    then have d: "filter (accepts F) (drop n (to_list tree)) = to_list tree ! n # filter (accepts F) (drop (Suc n) (to_list tree))"
      using less.prems(3) by (simp add: on_accepted_def flip: Cons_nth_drop_Suc)
    have "filter_collect dim F c' (acc @ [to_list tree ! n])
        = Some ((acc @ [to_list tree ! n]) @ filter (accepts F) (drop (next_index F tree True n) (to_list tree)))"
      using True n c' by (intro less.hyps next_index_filter) (auto simp: next_index_def Let_def)
    with c'(1) d next_index_filter(2) [OF n refl, of F True] show ?thesis
      by (subst filter_collect.simps) (simp add: list_first_def)
  next
    case False
    with c'(1) show ?thesis by (subst filter_collect.simps) (simp add: list_first_def)
  qed
qed

theorem filter_cursor_collect:
  assumes c: "cursor_ok tree c 0" "filter_sound F" "\<not> c_did_seek c"
  shows "filter_collect dim F c [] = Some (filter (accepts F) (to_list tree))"
proof -
  from search_forward_ok [OF c(1,2)] c(3) obtain c1 where
      c1: "search_forward dim F c = Some c1" "cursor_ok tree c1 (next_index F tree False 0)" "c_did_seek c1"
    by auto
  have "filter_collect dim F c [] = filter_collect dim F c1 []"
    using c(3) c1 by (subst (1 2) filter_collect.simps) (simp add: filter_cursor_next_def)
  with filter_collect_ok [OF c1(2) c(2) c1(3) next_index_filter(1)]
    next_index_filter(2) [where moved = False and F = F and tree = tree and n = 0]
  show ?thesis by simp
qed

lemma collect_items_ok:
  assumes "cursor_ok tree c n" "c_did_seek c"
  shows "collect_items dim c acc = Some (acc @ drop n (to_list tree))"
  using assms
proof (induction "length (to_list tree) - n" arbitrary: c n acc rule: less_induct)
  case less
  show ?case
  proof (cases "n < length (to_list tree)")
    case True
    from cursor_next_ok [OF less.prems(1)] less.prems(2) True obtain c' where
      c': "cursor_next dim c = Some c'" "c_did_seek c'" "cursor_ok tree c' (Suc n)"
      by (auto simp: min_absorb2)
    from less.hyps [OF _ c'(3,2)] True
    have "collect_items dim c' (acc @ [to_list tree ! n]) = Some (acc @ drop n (to_list tree))"
      by (simp add: Cons_nth_drop_Suc)
    with c'(1) True cursor_item_ok(1) [OF less.prems] show ?thesis
      by (subst collect_items.simps) simp
  next
    case False
    with cursor_item_ok(1) [OF less.prems] show ?thesis by (subst collect_items.simps) simp
  qed
qed

end

context summary_laws
begin

lemma tree_items_ok:
  assumes "tree_ok ops t" "node_height t < STACK_CAP"
  shows "tree_items t = Some (to_list t)"
proof -
  have u: "dimension_laws ops unit_dim" by (rule unit_dim_laws)
  from dimension_laws.cursor_next_ok [OF u dimension_laws.cursor_new_ok [OF u assms]] obtain c where
    "cursor_next unit_dim (cursor_new unit_dim t) = Some c" "c_did_seek c" "dimension_laws.cursor_ok ops unit_dim t c 0"
    by (auto simp: cursor_new_def)
  with dimension_laws.collect_items_ok [OF u] show ?thesis by (simp add: tree_items_def)
qed

text \<open>The plain iterator follows the same stacks as a cursor over the unit dimension.\<close>

definition top_item :: "('t, 's, unit) stack_entry list \<Rightarrow> 't option" where
  "top_item st = (case st of [] \<Rightarrow> None | e # _ \<Rightarrow> Some (to_list (e_tree e) ! e_index e))"

lemma unit_entry: "e\<lparr>e_index := i, e_position := q\<rparr> = e\<lparr>e_index := i\<rparr>"
  for e :: "('t, 's, unit) stack_entry"
  by (cases e) simp

lemma forward_skip_True: "forward_skip dim (\<lambda>_. True) ss i q r = (i, q, r)"
  by (cases ss) simp_all

lemma iter_loop_sim:
  assumes "search_forward_loop dim (\<lambda>_. True) st p descend = Some y" "\<forall>e \<in> set st. wf_node ops (e_tree e)"
  shows "iter_loop st descend = Some (top_item (fst y), fst y)"
proof -
  have "F = (\<lambda>_. True) \<longrightarrow> (\<forall>e \<in> set st. wf_node ops (e_tree e)) \<longrightarrow> iter_loop st descend = Some (top_item (fst y), fst y)"
    if "search_forward_loop dim F st p descend = Some y" for dim :: "('s, unit) dim_ops" and F st p descend y
    using that
  proof (rule search_forward_loop.raw_induct [rotated], intro impI, goal_cases)
    case (1 f dim F st p descend y)
    then have IH: "iter_loop st' d' = Some (top_item (fst y), fst y)"
      if "f dim F st' q d' = Some y" "\<forall>e \<in> set st'. wf_node ops (e_tree e)" for st' q d'
      using that by blast
    show ?case
    proof (cases st)
      case Nil
      with 1 show ?thesis by (subst iter_loop.simps) (auto simp: top_item_def)
    next
      case (Cons e rest)
      define i where "i = (if descend then e_index e else Suc (e_index e))"
      show ?thesis
      proof (cases "e_tree e")
        case (Leaf s xs ss)
        then have len: "length ss = length xs" using 1(5) Cons by simp
        show ?thesis
        proof (cases "i < length xs")
          case True
          with 1(2,4) Cons Leaf len have "y = (e\<lparr>e_index := i\<rparr> # rest, ())"
            by (auto simp: i_def forward_skip_True unit_entry bind_eq_Some_conv index_at_def split: if_splits)
          with True Cons Leaf show ?thesis
            by (subst iter_loop.simps) (auto simp: i_def top_item_def Let_def split: if_splits)
        next
          case False
          with 1(2,4) Cons Leaf len have "f dim F rest () False = Some y"
            by (auto simp: i_def forward_skip_True bind_eq_Some_conv index_at_def split: if_splits)
          from IH [OF this] 1(5) False Cons Leaf show ?thesis
            by (subst iter_loop.simps) (auto simp: i_def Let_def split: if_splits)
        qed
      next
        case (Internal h s css cts)
        show ?thesis
        proof (cases "i < length cts")
          case True
          define ec where "ec = \<lparr>e_tree = cts ! i, e_index = 0, e_position = ()\<rparr>"
          from True 1(2,4) Cons Internal have f: "f dim F (ec # e\<lparr>e_index := i\<rparr> # rest) () True = Some y"
              and push: "push_entry ec (e\<lparr>e_index := i\<rparr> # rest) = Some (ec # e\<lparr>e_index := i\<rparr> # rest)"
            by (auto simp: i_def forward_skip_True unit_entry bind_eq_Some_conv push_entry_def ec_def split: if_splits)
          have "wf_node ops (cts ! i)" using 1(5) Cons Internal True by simp
          with IH [OF f] push 1(5) True Cons Internal show ?thesis
            by (subst iter_loop.simps) (auto simp: i_def ec_def Let_def split: if_splits)
        next
          case False
          with 1(2,4) Cons Internal have "f dim F rest () False = Some y"
            by (auto simp: i_def forward_skip_True split: if_splits)
          from IH [OF this] 1(5) False Cons Internal show ?thesis
            by (subst iter_loop.simps) (auto simp: i_def Let_def split: if_splits)
        qed
      qed
    qed
  qed
  with assms show ?thesis by blast
qed

lemma iter_next_ok:
  assumes "tree_ok ops t" "node_height t < STACK_CAP"
    and "if n = 0 then st = [] else dimension_laws.at_index ops unit_dim t st () (n - 1) \<and> st \<noteq> []"
  shows "\<exists>st'. iter_next t st = Some (if n < length (to_list t) then Some (to_list t ! n) else None, st')
     \<and> (n < length (to_list t) \<longrightarrow> dimension_laws.at_index ops unit_dim t st' () n \<and> st' \<noteq> [])"
proof -
  have u: "dimension_laws ops unit_dim" by (rule unit_dim_laws)
  note at_def = dimension_laws.at_index_def [OF u]
  have top: "top_item st' = (if k < length (to_list t) then Some (to_list t ! k) else None)
      \<and> (k < length (to_list t) \<longrightarrow> st' \<noteq> [])" if at: "dimension_laws.at_index ops unit_dim t st' () k" for st' k
  proof (cases "k < length (to_list t)")
    case True
    from dimension_laws.at_index_item [OF u at True assms(1)] obtain e rest s xs ss where
      "st' = e # rest" "e_tree e = Leaf s xs ss" "xs ! e_index e = to_list t ! k"
      by metis
    with True show ?thesis by (simp add: top_item_def)
  next
    case False
    with at show ?thesis by (simp add: at_def top_item_def)
  qed
  define start where "start = \<lparr>e_tree = t, e_index = 0, e_position = ()\<rparr>"
  have "\<exists>y. iter_next t st = Some (top_item (fst y), fst y) \<and> dimension_laws.at_index ops unit_dim t (fst y) () n"
  proof (cases "n = 0")
    case True
    then have st: "st = []" using assms(3) by simp
    from assms(1) show ?thesis
    proof (cases rule: tree_ok_cases)
      case 1
      with st True show ?thesis
        by (auto simp: iter_next_def push_entry_def STACK_CAP_def iter_loop.simps [of "e # rest" for e rest]
            iter_loop.simps [of "[]"] new_tree_def top_item_def at_def intro!: exI [of _ "([], ())"])
    next
      case 2
      from dimension_laws.forward_root [OF u 2(1) assms(2) filter_sound_True] obtain st' p where
          f: "search_forward_loop unit_dim (\<lambda>_. True) [start] () True = Some (st', p)"
            "dimension_laws.at_index ops unit_dim t st' p 0"
        by (auto simp: unit_dim_def start_def)
      from iter_loop_sim [OF f(1)] 2(1) st True f(2) show ?thesis
        by (auto simp: iter_next_def push_entry_def STACK_CAP_def start_def intro!: exI [of _ "(st', ())"])
    qed
  next
    case False
    then have at: "dimension_laws.at_index ops unit_dim t st () (n - 1)" "st \<noteq> []" using assms(3) by simp_all
    then have lt: "n - 1 < length (to_list t)" by (auto simp: at_def split: if_splits)
    with assms(1) have wf: "wf_node ops t" by (auto elim: tree_ok_cases)
    from dimension_laws.at_index_item [OF u at(1) lt assms(1)] obtain e rest s xs ss where
        e: "st = e # rest" "e_tree e = Leaf s xs ss" "dimension_laws.path ops unit_dim t rest (Leaf s xs ss)"
      by metis
    have "\<forall>e \<in> set st. wf_node ops (e_tree e)"
      using dimension_laws.path_entries [OF u e(3) wf] dimension_laws.path_wf [OF u e(3) wf] e(1,2) by simp
    with iter_loop_sim dimension_laws.forward_at [OF u wf assms(2) filter_sound_True at(1) lt] False at(2) show ?thesis
      by (fastforce simp: iter_next_def)
  qed
  with top show ?thesis by fastforce
qed

lemma iter_collect_ok:
  assumes "tree_ok ops t" "node_height t < STACK_CAP" "n \<le> length (to_list t)"
    and "if n = 0 then st = [] else dimension_laws.at_index ops unit_dim t st () (n - 1) \<and> st \<noteq> []"
  shows "iter_collect t st acc = Some (acc @ drop n (to_list t))"
  using assms(3,4)
proof (induction "length (to_list t) - n" arbitrary: n st acc rule: less_induct)
  case less
  from iter_next_ok [OF assms(1,2) less.prems(2)] obtain st' where
    st': "iter_next t st = Some (if n < length (to_list t) then Some (to_list t ! n) else None, st')"
      "n < length (to_list t) \<longrightarrow> dimension_laws.at_index ops unit_dim t st' () n \<and> st' \<noteq> []"
    by blast
  show ?case
  proof (cases "n < length (to_list t)")
    case True
    with less.hyps [of "Suc n" st' "acc @ [to_list t ! n]"] st' show ?thesis
      by (subst iter_collect.simps) (simp add: Cons_nth_drop_Suc)
  next
    case False
    with st'(1) show ?thesis by (subst iter_collect.simps) simp
  qed
qed

lemma tree_iter_ok:
  assumes "tree_ok ops t" "node_height t < STACK_CAP"
  shows "tree_iter t = Some (to_list t)"
  using iter_collect_ok [OF assms, of 0 "[]" "[]"] by (simp add: tree_iter_def)

lemma tree_eq_ok:
  assumes "tree_ok ops a" "node_height a < STACK_CAP" "tree_ok ops b" "node_height b < STACK_CAP"
  shows "tree_eq a b = Some (to_list a = to_list b)"
  using assms by (simp add: tree_eq_def tree_iter_ok)

end

end
