(* ===== verification/SumTree_Keyed.thy ===== *)
theory SumTree_Keyed
  imports SumTree_Traverse "HOL-Library.Multiset"
begin

text \<open>
  \<open>impl SumTree<T: KeyedItem>\<close>: insertion, removal, batch edits and lookup by key. The key type is
  a dimension and ordered; as a seek target it is compared by its order (the blanket
  \<open>impl SeekTarget<S, D> for D: Dimension + Ord\<close>). \<open>sort_unstable_by_key\<close> may order edits of equal
  key either way, so the sorted order is the parameter \<open>sort_edits\<close>.
\<close>

section \<open>Operations\<close>

datatype ('t, 'k) edit = Insert 't | Remove 'k

fun edit_key :: "('t \<Rightarrow> 'k) \<Rightarrow> ('t, 'k) edit \<Rightarrow> 'k" where
  "edit_key key_of (Insert item) = key_of item"
| "edit_key key_of (Remove key) = key"

definition key_target :: "'k::linorder \<Rightarrow> 'k seek_target" where
  "key_target key = (\<lambda>cursor_location. ord_cmp key cursor_location)"

definition insert_or_replace ::
    "('t, 's) summary_ops \<Rightarrow> ('s, 'k::linorder) dim_ops \<Rightarrow> ('t \<Rightarrow> 'k) \<Rightarrow> ('t, 's) node \<Rightarrow> 't \<Rightarrow>
     ('t option \<times> ('t, 's) node) option" where
  "insert_or_replace ops dim key_of self item = do {
     (nt, c) \<leftarrow> slice ops dim (cursor_new dim self) (key_target (key_of item)) Left;
     r \<leftarrow> cursor_item c;
     (replaced, c) \<leftarrow>
       (case r of
          Some ci \<Rightarrow>
            if key_of ci = key_of item then do { c' \<leftarrow> cursor_next dim c; Some (Some ci, c') }
            else Some (None, c)
        | None \<Rightarrow> Some (None, c));
     nt \<leftarrow> push ops nt item;
     (rest, _) \<leftarrow> suffix ops dim c;
     nt \<leftarrow> append_tree ops nt rest;
     Some (replaced, nt)
   }"

definition remove ::
    "('t, 's) summary_ops \<Rightarrow> ('s, 'k::linorder) dim_ops \<Rightarrow> ('t \<Rightarrow> 'k) \<Rightarrow> ('t, 's) node \<Rightarrow> 'k \<Rightarrow>
     ('t option \<times> ('t, 's) node) option" where
  "remove ops dim key_of self key = do {
     (nt, c) \<leftarrow> slice ops dim (cursor_new dim self) (key_target key) Left;
     r \<leftarrow> cursor_item c;
     (removed, c) \<leftarrow>
       (case r of
          Some item \<Rightarrow>
            if key_of item = key then do { c' \<leftarrow> cursor_next dim c; Some (Some item, c') }
            else Some (None, c)
        | None \<Rightarrow> Some (None, c));
     (rest, _) \<leftarrow> suffix ops dim c;
     nt \<leftarrow> append_tree ops nt rest;
     Some (removed, nt)
   }"

text \<open>The loop of \<open>edit\<close>: new tree \<open>nt\<close>, buffered items, cursor and removed items.\<close>

fun edit_loop ::
    "('t, 's) summary_ops \<Rightarrow> ('s, 'k::linorder) dim_ops \<Rightarrow> ('t \<Rightarrow> 'k) \<Rightarrow> ('t, 'k) edit list \<Rightarrow>
     ('t, 's) node \<Rightarrow> 't list \<Rightarrow> ('t, 's, 'k) cursor \<Rightarrow> 't list \<Rightarrow>
     (('t, 's) node \<times> 't list \<times> ('t, 's, 'k) cursor \<times> 't list) option" where
  "edit_loop ops dim key_of [] nt buffered c removed = Some (nt, buffered, c, removed)"
| "edit_loop ops dim key_of (e # edits) nt buffered c removed = do {
     let new_key = edit_key key_of e;
     old_item \<leftarrow> cursor_item c;
     (nt, buffered, c, old_item) \<leftarrow>
       (case old_item of
          Some item \<Rightarrow>
            if key_of item < new_key then do {
              nt \<leftarrow> tree_extend ops nt buffered;
              (sl, c) \<leftarrow> slice ops dim c (key_target new_key) Left;
              nt \<leftarrow> append_tree ops nt sl;
              old_item \<leftarrow> cursor_item c;
              Some (nt, [], c, old_item)
            }
            else Some (nt, buffered, c, old_item)
        | None \<Rightarrow> Some (nt, buffered, c, old_item));
     (removed, c) \<leftarrow>
       (case old_item of
          Some item \<Rightarrow>
            if key_of item = new_key then do { c' \<leftarrow> cursor_next dim c; Some (removed @ [item], c') }
            else Some (removed, c)
        | None \<Rightarrow> Some (removed, c));
     let buffered = (case e of Insert item \<Rightarrow> buffered @ [item] | Remove _ \<Rightarrow> buffered);
     edit_loop ops dim key_of edits nt buffered c removed
   }"

definition edit ::
    "(('t, 'k) edit list \<Rightarrow> ('t, 'k) edit list) \<Rightarrow>
     ('t, 's) summary_ops \<Rightarrow> ('s, 'k::linorder) dim_ops \<Rightarrow> ('t \<Rightarrow> 'k) \<Rightarrow> ('t, 's) node \<Rightarrow> ('t, 'k) edit list \<Rightarrow>
     ('t list \<times> ('t, 's) node) option" where
  "edit sort_edits ops dim key_of self edits =
     (if edits = [] then Some ([], self)
      else do {
        (_, c) \<leftarrow> seek dim (cursor_new dim self) (key_target (d_zero dim)) Left;
        (nt, buffered, c, removed) \<leftarrow>
          edit_loop ops dim key_of (sort_edits edits) (new_tree ops) [] c [];
        nt \<leftarrow> tree_extend ops nt buffered;
        (rest, _) \<leftarrow> suffix ops dim c;
        nt \<leftarrow> append_tree ops nt rest;
        Some (removed, nt)
      })"

definition get :: "('s, 'k::linorder) dim_ops \<Rightarrow> ('t, 's) node \<Rightarrow> 'k \<Rightarrow> 't option" where
  "get dim self key = (case find_exact dim self (key_target key) Left of (_, _, Some item) \<Rightarrow> Some item | _ \<Rightarrow> None)"

section \<open>Laws of keys\<close>

lemma option_case_id: "(case r of None \<Rightarrow> None | Some x \<Rightarrow> Some x) = r"
  by (cases r) simp_all

text \<open>
  What the keyed operations rely on: the key dimension after an item is the key of that item (as
  long as the keys before it are not larger), and no key is below zero.
\<close>

locale keyed_laws = dimension_laws ops dim
  for ops :: "('t, 's) summary_ops" and dim :: "('s, 'k::linorder) dim_ops" +
  fixes key_of :: "'t \<Rightarrow> 'k"
  assumes key_end: "d \<le> key_of x \<Longrightarrow> d_add dim d (s_item ops x) = key_of x"
    and zero_min: "d_zero dim \<le> k"
begin

definition sorted_keys :: "'t list \<Rightarrow> bool" where
  "sorted_keys xs \<longleftrightarrow> sorted_wrt (\<lambda>x y. key_of x < key_of y) xs"

lemma sorted_keys_Nil [simp]: "sorted_keys []"
  by (simp add: sorted_keys_def)

lemma sorted_keys_Cons [simp]: "sorted_keys (x # xs) \<longleftrightarrow> (\<forall>y \<in> set xs. key_of x < key_of y) \<and> sorted_keys xs"
  by (simp add: sorted_keys_def)

lemma sorted_keys_append [simp]:
  "sorted_keys (xs @ ys) \<longleftrightarrow> sorted_keys xs \<and> sorted_keys ys \<and> (\<forall>x \<in> set xs. \<forall>y \<in> set ys. key_of x < key_of y)"
  by (auto simp: sorted_keys_def sorted_wrt_append)

lemma sorted_keys_take_drop: "sorted_keys xs \<Longrightarrow> sorted_keys (take n xs) \<and> sorted_keys (drop n xs)"
  by (simp add: sorted_keys_def sorted_wrt_take sorted_wrt_drop)

lemma ends_keys: "sorted_keys xs \<Longrightarrow> \<forall>x \<in> set xs. d \<le> key_of x \<Longrightarrow> ends d xs = map key_of xs"
  by (induction xs arbitrary: d) (auto simp: key_end less_imp_le)

lemma ends_zero: "sorted_keys xs \<Longrightarrow> ends d0 xs = map key_of xs"
  by (simp add: ends_keys zero_min)

lemma advance_zero: "sorted_keys xs \<Longrightarrow> xs \<noteq> [] \<Longrightarrow> advance d0 xs = key_of (last xs)"
  using last_ends [of xs d0] ends_zero [of xs] by (simp add: last_map)

lemma mono_key: "sorted_keys xs \<Longrightarrow> mono_target (key_target k) (ends d0 xs)"
  by (induction xs rule: rev_induct)
    (auto simp: ends_zero key_target_def mono_target_def sorted_wrt_append dest: less_trans)

lemma key_not_before_zero: "key_target k d0 \<noteq> Less"
  using zero_min [of k] by (simp add: key_target_def)

text \<open>The items below a key, and the ones from it on.\<close>

definition below :: "'k \<Rightarrow> 't list \<Rightarrow> 't list" where
  "below k xs = takeWhile (\<lambda>x. key_of x < k) xs"

definition from_key :: "'k \<Rightarrow> 't list \<Rightarrow> 't list" where
  "from_key k xs = dropWhile (\<lambda>x. key_of x < k) xs"

lemma below_from [simp]: "below k xs @ from_key k xs = xs"
  by (simp add: below_def from_key_def)

lemma below_filter: "sorted_keys xs \<Longrightarrow> below k xs = filter (\<lambda>x. key_of x < k) xs"
  by (induction xs) (auto simp: below_def filter_empty_conv [symmetric] intro!: filter_False [symmetric] dest: less_trans)

lemma from_key_filter: "sorted_keys xs \<Longrightarrow> from_key k xs = filter (\<lambda>x. k \<le> key_of x) xs"
  by (induction xs) (auto simp: from_key_def not_less intro!: filter_True [symmetric] dest: order.strict_trans1)

lemma from_key_Cons:
  assumes "sorted_keys xs" "from_key k xs = y # ys"
  shows "k \<le> key_of y" "\<forall>x \<in> set ys. k < key_of x"
proof -
  show "k \<le> key_of y" using from_key_filter [OF assms(1), of k] assms(2) by (metis Cons_eq_filterD)
  moreover have "sorted_keys (y # ys)" using assms below_from [of k xs] by (metis sorted_keys_append)
  ultimately show "\<forall>x \<in> set ys. k < key_of x" by auto
qed

lemma skip_count_key:
  assumes "sorted_keys xs" "n \<le> length xs"
  shows "skip_count (key_target k) Left (advance d0 (take n xs)) (drop n xs) = length (below k (drop n xs))"
proof -
  have "ends d0 (take n xs) @ ends (advance d0 (take n xs)) (drop n xs) = map key_of (take n xs) @ map key_of (drop n xs)"
    using ends_append [of d0 "take n xs" "drop n xs"] ends_zero [OF assms(1)] by (simp flip: map_append)
  moreover have "ends d0 (take n xs) = map key_of (take n xs)"
    using sorted_keys_take_drop [OF assms(1), of n] by (simp add: ends_zero)
  ultimately have "ends (advance d0 (take n xs)) (drop n xs) = map key_of (drop n xs)" by simp
  then show ?thesis
    by (simp add: skip_count_def below_def skips_def key_target_def takeWhile_map comp_def)
qed

lemma seek_index_key:
  "sorted_keys (to_list t) \<Longrightarrow> n \<le> length (to_list t) \<Longrightarrow>
     seek_index (key_target k) Left t n = n + length (below k (drop n (to_list t)))"
  by (simp add: seek_index_def skip_count_key)

lemma take_below: "take (n + length (below k (drop n xs))) xs = take n xs @ below k (drop n xs)"
  unfolding take_add below_def takeWhile_eq_take [symmetric] ..

lemma drop_below: "drop (n + length (below k (drop n xs))) xs = from_key k (drop n xs)"
  by (simp add: below_def from_key_def dropWhile_eq_drop add.commute)

text \<open>Slicing up to a key from a cursor at \<open>n\<close>.\<close>

lemma slice_key:
  assumes c: "cursor_ok t c n" and s: "sorted_keys (to_list t)" and k: "key_target k (c_position c) \<noteq> Less"
  shows "\<exists>u c'. slice ops dim c (key_target k) Left = Some (u, c') \<and> tree_ok ops u
     \<and> to_list u = below k (drop n (to_list t))
     \<and> cursor_ok t c' (n + length (below k (drop n (to_list t)))) \<and> c_did_seek c'"
proof -
  have n: "n \<le> length (to_list t)" by (rule cursor_ok_bounds [OF c])
  from slice_ok [OF c mono_key [OF s] k, of Left] show ?thesis
    using n by (simp add: seek_index_key [OF s n] take_below)
qed

lemma cursor_item_key:
  assumes "cursor_ok t c n" "c_did_seek c"
  shows "cursor_item c = Some (list_first (drop n (to_list t)))"
  using cursor_item_ok(1) [OF assms] cursor_ok_bounds [OF assms(1)]
  by (cases "n < length (to_list t)") (auto simp: list_first_def simp flip: Cons_nth_drop_Suc)

lemma cursor_next_key:
  assumes "cursor_ok t c n" "c_did_seek c" "n < length (to_list t)"
  shows "\<exists>c'. cursor_next dim c = Some c' \<and> cursor_ok t c' (Suc n) \<and> c_did_seek c'"
  using cursor_next_ok [OF assms(1)] assms(2,3) by (auto simp: min_absorb2)

lemma find_from_key:
  "sorted_keys ys \<Longrightarrow> List.find (\<lambda>x. key_of x = k) ys =
     (case from_key k ys of y # _ \<Rightarrow> if key_of y = k then Some y else None | [] \<Rightarrow> None)"
proof (induction ys)
  case (Cons a ys)
  have "List.find (\<lambda>x. key_of x = k) ys = None" if "k < key_of a"
    using that Cons.prems by (force simp: find_None_iff)
  with Cons show ?case by (auto simp: from_key_def)
qed (simp add: from_key_def)

lemma above_from_key:
  assumes "sorted_keys ys"
  shows "filter (\<lambda>x. k < key_of x) ys = (case from_key k ys of y # zs \<Rightarrow> if key_of y = k then zs else y # zs | [] \<Rightarrow> [])"
proof -
  have "filter (\<lambda>x. k < key_of x) ys = filter (\<lambda>x. k < key_of x) (from_key k ys)"
    unfolding from_key_filter [OF assms] by (auto intro: filter_cong)
  then show ?thesis
    using from_key_Cons [OF assms, of k] by (auto simp: filter_id_conv split: list.splits)
qed

lemma filter_key_neq:
  assumes "sorted_keys ys"
  shows "filter (\<lambda>y. key_of y \<noteq> k) ys = filter (\<lambda>y. key_of y < k) ys @ filter (\<lambda>y. k < key_of y) ys"
proof -
  have "filter (\<lambda>y. key_of y \<noteq> k) ys = filter (\<lambda>y. key_of y \<noteq> k) (below k ys @ from_key k ys)" by simp
  also have "\<dots> = filter (\<lambda>y. key_of y < k) ys @ filter (\<lambda>y. k < key_of y) ys"
    unfolding below_filter [OF assms] from_key_filter [OF assms] filter_append filter_filter
    by (intro arg_cong2 [of _ _ _ _ append] filter_cong) auto
  finally show ?thesis .
qed

text \<open>Skipping the item at a cursor when it has the wanted key.\<close>

lemma skip_equal:
  assumes c: "cursor_ok t c n" "c_did_seek c" and d: "drop n (to_list t) = from_key k ys" "sorted_keys ys"
  obtains c' where
    "(case list_first (from_key k ys) of
        Some x \<Rightarrow> if key_of x = k then do { c' \<leftarrow> cursor_next dim c; Some (f x, c') } else Some (g, c)
      | None \<Rightarrow> Some (g, c)) = Some (case List.find (\<lambda>x. key_of x = k) ys of Some x \<Rightarrow> f x | None \<Rightarrow> g, c')"
    "cursor_ok t c' (length (to_list t) - length (filter (\<lambda>x. k < key_of x) ys))" "c_did_seek c'"
proof -
  have n: "n \<le> length (to_list t)" by (rule cursor_ok_bounds [OF c(1)])
  have len: "length (to_list t) = n + length (from_key k ys)" using n d(1) by (metis length_drop le_add_diff_inverse)
  note eqs = find_from_key [OF d(2), of k] above_from_key [OF d(2), of k]
  show thesis
  proof (cases "from_key k ys")
    case Nil
    then show thesis using that [of c] c len eqs by (simp add: list_first_def)
  next
    case (Cons y zs)
    show thesis
    proof (cases "key_of y = k")
      case True
      have "n < length (to_list t)" using len Cons by simp
      from cursor_next_key [OF c this] obtain c' where
        "cursor_next dim c = Some c'" "cursor_ok t c' (Suc n)" "c_did_seek c'" by blast
      then show thesis using that [of c'] True Cons len eqs by (simp add: list_first_def)
    next
      case False
      then show thesis using that [of c] c Cons len eqs by (simp add: list_first_def)
    qed
  qed
qed

lemma drop_above:
  assumes "drop n xs = from_key k ys" "sorted_keys ys"
  shows "drop (length xs - length (filter (\<lambda>x. k < key_of x) ys)) xs = filter (\<lambda>x. k < key_of x) ys"
proof -
  have "\<exists>as. from_key k ys = as @ filter (\<lambda>x. k < key_of x) ys"
    unfolding above_from_key [OF assms(2)] by (cases "from_key k ys") (auto intro: exI [of _ "[_]"])
  then obtain as where "drop n xs = as @ filter (\<lambda>x. k < key_of x) ys" using assms(1) by metis
  then have "xs = (take n xs @ as) @ filter (\<lambda>x. k < key_of x) ys" by (metis append_assoc append_take_drop_id)
  then show ?thesis by (metis append_eq_conv_conj length_append diff_add_inverse2)
qed

section \<open>Correctness\<close>

theorem insert_or_replace_ok:
  assumes t: "tree_ok ops t" "node_height t < STACK_CAP" "sorted_keys (to_list t)"
  shows "\<exists>t'. insert_or_replace ops dim key_of t x = Some (List.find (\<lambda>y. key_of y = key_of x) (to_list t), t')
     \<and> tree_ok ops t'
     \<and> to_list t' = filter (\<lambda>y. key_of y < key_of x) (to_list t) @ [x] @ filter (\<lambda>y. key_of x < key_of y) (to_list t)"
proof -
  define k where "k = key_of x"
  have "key_target k (c_position (cursor_new dim t)) \<noteq> Less"
    using key_not_before_zero by (simp add: cursor_new_def)
  from slice_key [OF cursor_new_ok [OF t(1,2)] t(3) this] obtain u c where
    u: "slice ops dim (cursor_new dim t) (key_target k) Left = Some (u, c)" "tree_ok ops u" "to_list u = below k (to_list t)"
      "cursor_ok t c (length (below k (to_list t)))" "c_did_seek c"
    by auto
  have d: "drop (length (below k (to_list t))) (to_list t) = from_key k (to_list t)"
    using drop_below [of 0 k "to_list t"] by simp
  obtain c' where
    c': "(case list_first (from_key k (to_list t)) of
        Some y \<Rightarrow> if key_of y = k then do { c' \<leftarrow> cursor_next dim c; Some (Some y, c') } else Some (None, c)
      | None \<Rightarrow> Some (None, c)) = Some (List.find (\<lambda>y. key_of y = k) (to_list t), c')"
      "cursor_ok t c' (length (to_list t) - length (filter (\<lambda>x. k < key_of x) (to_list t)))"
    by (rule skip_equal [OF u(4,5) d t(3), where f = Some and g = None, unfolded option_case_id]) (erule (1) that)
  from push_ok [OF u(2)] obtain v where v: "push ops u x = Some v" "tree_ok ops v" "to_list v = below k (to_list t) @ [x]"
    using u(3) by metis
  from suffix_ok [OF c'(2)] drop_above [OF d t(3)] obtain w c'' where
    w: "suffix ops dim c' = Some (w, c'')" "tree_ok ops w" "to_list w = filter (\<lambda>x. k < key_of x) (to_list t)"
    by metis
  from append_tree_ok [OF v(2) w(2)] obtain t' where "append_tree ops v w = Some t'" "tree_ok ops t'"
    "to_list t' = to_list v @ to_list w" by blast
  moreover have "cursor_item c = Some (list_first (from_key k (to_list t)))"
    using cursor_item_key [OF u(4,5)] d by simp
  ultimately show ?thesis
    unfolding insert_or_replace_def k_def [symmetric]
    using u(1) v w c'(1) below_filter [OF t(3), of k] by simp
qed

theorem remove_ok:
  assumes t: "tree_ok ops t" "node_height t < STACK_CAP" "sorted_keys (to_list t)"
  shows "\<exists>t'. remove ops dim key_of t k = Some (List.find (\<lambda>y. key_of y = k) (to_list t), t')
     \<and> tree_ok ops t' \<and> to_list t' = filter (\<lambda>y. key_of y \<noteq> k) (to_list t)"
proof -
  have "key_target k (c_position (cursor_new dim t)) \<noteq> Less"
    using key_not_before_zero by (simp add: cursor_new_def)
  from slice_key [OF cursor_new_ok [OF t(1,2)] t(3) this] obtain u c where
    u: "slice ops dim (cursor_new dim t) (key_target k) Left = Some (u, c)" "tree_ok ops u" "to_list u = below k (to_list t)"
      "cursor_ok t c (length (below k (to_list t)))" "c_did_seek c"
    by auto
  have d: "drop (length (below k (to_list t))) (to_list t) = from_key k (to_list t)"
    using drop_below [of 0 k "to_list t"] by simp
  obtain c' where
    c': "(case list_first (from_key k (to_list t)) of
        Some y \<Rightarrow> if key_of y = k then do { c' \<leftarrow> cursor_next dim c; Some (Some y, c') } else Some (None, c)
      | None \<Rightarrow> Some (None, c)) = Some (List.find (\<lambda>y. key_of y = k) (to_list t), c')"
      "cursor_ok t c' (length (to_list t) - length (filter (\<lambda>x. k < key_of x) (to_list t)))"
    by (rule skip_equal [OF u(4,5) d t(3), where f = Some and g = None, unfolded option_case_id]) (erule (1) that)
  from suffix_ok [OF c'(2)] drop_above [OF d t(3)] obtain w c'' where
    w: "suffix ops dim c' = Some (w, c'')" "tree_ok ops w" "to_list w = filter (\<lambda>x. k < key_of x) (to_list t)"
    by metis
  from append_tree_ok [OF u(2) w(2)] obtain t' where "append_tree ops u w = Some t'" "tree_ok ops t'"
    "to_list t' = to_list u @ to_list w" by blast
  moreover have "cursor_item c = Some (list_first (from_key k (to_list t)))"
    using cursor_item_key [OF u(4,5)] d by simp
  ultimately show ?thesis
    using u(1,3) w c'(1) below_filter [OF t(3), of k] filter_key_neq [OF t(3), of k] by (simp add: remove_def)
qed

theorem get_ok:
  assumes "tree_ok ops t" "sorted_keys (to_list t)"
  shows "get dim t k = List.find (\<lambda>y. key_of y = k) (to_list t)"
  using assms(1)
proof (cases rule: tree_ok_cases)
  case 1
  then show ?thesis by (simp add: get_def find_exact_def find_generic_def new_tree_def Let_def)
next
  case 2
  define n where "n = length (below k (to_list t))"
  have cnt: "skip_count (key_target k) Left d0 (to_list t) = n"
    using skip_count_key [OF assms(2), of 0 k] by (simp add: n_def)
  have d: "drop n (to_list t) = from_key k (to_list t)"
    using drop_below [of 0 k "to_list t"] by (simp add: n_def)
  have "get dim t k = snd (snd (find_exact dim t (key_target k) Left))"
    by (simp add: get_def split: prod.splits option.splits)
  also have "\<dots> = (if n < length (to_list t) \<and> k = key_of (to_list t ! n) then Some (to_list t ! n) else None)"
  proof -
    have "advance d0 (take (Suc n) (to_list t)) = key_of (to_list t ! n)" if "n < length (to_list t)"
      using that advance_zero [of "take (Suc n) (to_list t)"] sorted_keys_take_drop [OF assms(2), of "Suc n"]
      by (simp add: take_Suc_conv_app_nth)
    then show ?thesis
      unfolding find_exact_item [OF 2(1) mono_key [OF assms(2)]] cnt by (simp add: Let_def key_target_def)
  qed
  also have "\<dots> = List.find (\<lambda>y. key_of y = k) (to_list t)"
    unfolding find_from_key [OF assms(2)] d [symmetric]
    by (cases "n < length (to_list t)") (auto simp flip: Cons_nth_drop_Suc)
  finally show ?thesis .
qed

section \<open>Batch edits\<close>

text \<open>The edits on the sequence, and the items they remove or replace.\<close>

fun inserted :: "('t, 'k) edit \<Rightarrow> 't list" where
  "inserted (Insert x) = [x]"
| "inserted (Remove _) = []"

fun edit_list :: "('t, 'k) edit list \<Rightarrow> 't list \<Rightarrow> 't list" where
  "edit_list [] ys = ys"
| "edit_list (e # es) ys =
     (let k = edit_key key_of e in below k ys @ inserted e @ edit_list es (filter (\<lambda>y. k < key_of y) ys))"

fun removed_list :: "('t, 'k) edit list \<Rightarrow> 't list \<Rightarrow> 't list" where
  "removed_list [] ys = []"
| "removed_list (e # es) ys =
     (let k = edit_key key_of e in
      filter (\<lambda>y. key_of y = k) ys @ removed_list es (filter (\<lambda>y. k < key_of y) ys))"

lemma filter_key_eq:
  assumes "sorted_keys ys"
  shows "filter (\<lambda>y. key_of y = k) ys = (case List.find (\<lambda>y. key_of y = k) ys of Some y \<Rightarrow> [y] | None \<Rightarrow> [])"
  using assms
proof (induction ys)
  case (Cons y ys)
  have "filter (\<lambda>x. key_of x = k) ys = []" if "key_of y = k"
    using that Cons.prems by (auto simp: filter_empty_conv)
  with Cons show ?case by simp
qed simp

text \<open>The first half of an iteration: the cursor moves to the first item not below the key.\<close>

lemma edit_advance:
  assumes c: "cursor_ok t c n" "c_did_seek c" and nt: "tree_ok ops nt" and s: "sorted_keys (to_list t)"
  obtains nt' buf' c' n' where
    "(case list_first (drop n (to_list t)) of
        Some item \<Rightarrow>
          if key_of item < k then do {
            nt \<leftarrow> tree_extend ops nt buf;
            (sl, c) \<leftarrow> slice ops dim c (key_target k) Left;
            nt \<leftarrow> append_tree ops nt sl;
            old_item \<leftarrow> cursor_item c;
            Some (nt, [], c, old_item)
          }
          else Some (nt, buf, c, list_first (drop n (to_list t)))
      | None \<Rightarrow> Some (nt, buf, c, list_first (drop n (to_list t))))
     = Some (nt', buf', c', list_first (from_key k (drop n (to_list t))))"
    "tree_ok ops nt'" "to_list nt' @ buf' = to_list nt @ buf @ below k (drop n (to_list t))"
    "cursor_ok t c' n'" "c_did_seek c'" "drop n' (to_list t) = from_key k (drop n (to_list t))"
proof (cases "drop n (to_list t)")
  case Nil
  then show thesis using that [of nt buf c n] c nt by (simp add: below_def from_key_def list_first_def)
next
  case (Cons y ys)
  have n: "n < length (to_list t)" "to_list t ! n = y" using Cons by (metis drop_all leI list.distinct(1), metis nth_via_drop)
  show thesis
  proof (cases "key_of y < k")
    case True
    have "advance d0 (take n (to_list t)) \<le> key_of y"
    proof (cases "n = 0")
      case False
      then have ne: "take n (to_list t) \<noteq> []" using n(1) by auto
      have "sorted_keys (take n (to_list t) @ y # ys)" using s Cons by (metis append_take_drop_id)
      then have "key_of (last (take n (to_list t))) < key_of y" "sorted_keys (take n (to_list t))"
        using last_in_set [OF ne] by auto
      with advance_zero [OF _ ne] show ?thesis by simp
    qed (simp add: zero_min)
    with True have k: "key_target k (c_position c) \<noteq> Less"
      using cursor_ok_position [OF c(1)] by (simp add: key_target_def)
    from tree_extend_ok [OF nt] obtain nt1 where nt1: "tree_extend ops nt buf = Some nt1" "tree_ok ops nt1" "to_list nt1 = to_list nt @ buf" by blast
    from slice_key [OF c(1) s k] obtain u c' where
      u: "slice ops dim c (key_target k) Left = Some (u, c')" "tree_ok ops u" "to_list u = below k (drop n (to_list t))"
        "cursor_ok t c' (n + length (below k (drop n (to_list t))))" "c_did_seek c'"
      by blast
    from append_tree_ok [OF nt1(2) u(2)] obtain nt2 where
      nt2: "append_tree ops nt1 u = Some nt2" "tree_ok ops nt2" "to_list nt2 = to_list nt1 @ to_list u" by blast
    show thesis
      using that [of nt2 "[]" c' "n + length (below k (drop n (to_list t)))"] True Cons nt1 nt2 u
        cursor_item_key [OF u(4,5)] drop_below [of n k "to_list t"]
      by (simp add: list_first_def)
  next
    case False
    then have "below k (drop n (to_list t)) = []" "from_key k (drop n (to_list t)) = drop n (to_list t)"
      using Cons by (simp_all add: below_def from_key_def)
    then show thesis using that [of nt buf c n] c nt False Cons by (simp add: list_first_def)
  qed
qed

lemma edit_loop_ok:
  assumes "cursor_ok t c n" "c_did_seek c" "tree_ok ops nt" "sorted_keys (to_list t)"
  shows "\<exists>nt' buf' c' n'. edit_loop ops dim key_of es nt buf c removed
        = Some (nt', buf', c', removed @ removed_list es (drop n (to_list t)))
     \<and> tree_ok ops nt' \<and> cursor_ok t c' n'
     \<and> to_list nt' @ buf' @ drop n' (to_list t) = to_list nt @ buf @ edit_list es (drop n (to_list t))"
  using assms(1-3)
proof (induction es arbitrary: c n nt buf removed)
  case Nil
  then show ?case by auto
next
  case (Cons e es)
  define k where "k = edit_key key_of e"
  define ys where "ys = drop n (to_list t)"
  have sys: "sorted_keys ys" using sorted_keys_take_drop [OF assms(4)] by (simp add: ys_def)
  obtain nt1 buf1 c1 n1 where first:
    "(case list_first ys of
        Some item \<Rightarrow>
          if key_of item < k then do {
            nt \<leftarrow> tree_extend ops nt buf;
            (sl, c) \<leftarrow> slice ops dim c (key_target k) Left;
            nt \<leftarrow> append_tree ops nt sl;
            old_item \<leftarrow> cursor_item c;
            Some (nt, [], c, old_item)
          }
          else Some (nt, buf, c, list_first ys)
      | None \<Rightarrow> Some (nt, buf, c, list_first ys))
     = Some (nt1, buf1, c1, list_first (from_key k ys))"
    "tree_ok ops nt1" "to_list nt1 @ buf1 = to_list nt @ buf @ below k ys"
    "cursor_ok t c1 n1" "c_did_seek c1" "drop n1 (to_list t) = from_key k ys"
    by (rule edit_advance [OF Cons.prems(1-3) assms(4), where k = k and buf = buf, folded ys_def]) (erule (5) that)
  obtain c2 where second:
    "(case list_first (from_key k ys) of
        Some x \<Rightarrow> if key_of x = k then do { c' \<leftarrow> cursor_next dim c1; Some (removed @ [x], c') } else Some (removed, c1)
      | None \<Rightarrow> Some (removed, c1)) = Some (case List.find (\<lambda>x. key_of x = k) ys of Some x \<Rightarrow> removed @ [x] | None \<Rightarrow> removed, c2)"
    "cursor_ok t c2 (length (to_list t) - length (filter (\<lambda>x. k < key_of x) ys))" "c_did_seek c2"
    by (rule skip_equal [OF first(4-6) sys, where g = removed and f = "\<lambda>x. removed @ [x]"]) (erule (2) that)
  have rem: "(case List.find (\<lambda>x. key_of x = k) ys of Some x \<Rightarrow> removed @ [x] | None \<Rightarrow> removed)
      = removed @ filter (\<lambda>y. key_of y = k) ys"
    unfolding filter_key_eq [OF sys] by (simp split: option.splits)
  have ins: "(case e of Insert item \<Rightarrow> buf1 @ [item] | Remove _ \<Rightarrow> buf1) = buf1 @ inserted e"
    by (cases e) simp_all
  have item: "cursor_item c = Some (list_first ys)"
    using cursor_item_key [OF Cons.prems(1,2)] by (simp add: ys_def)
  have step: "edit_loop ops dim key_of (e # es) nt buf c removed
      = edit_loop ops dim key_of es nt1 (buf1 @ inserted e) c2 (removed @ filter (\<lambda>y. key_of y = k) ys)"
    unfolding edit_loop.simps Let_def k_def [symmetric] item bind.simps first(1) prod.case second(1) rem ins ..
  from Cons.IH [OF second(2,3) first(2), of "buf1 @ inserted e" "removed @ filter (\<lambda>y. key_of y = k) ys"]
  show ?case
    unfolding step drop_above [OF first(6) sys]
    using first(3) by (auto simp: Let_def simp flip: k_def ys_def append_assoc)
qed

theorem edit_ok:
  assumes t: "tree_ok ops t" "node_height t < STACK_CAP" "sorted_keys (to_list t)"
    and sort: "sort_edits [] = []"
  shows "\<exists>t'. edit sort_edits ops dim key_of t es = Some (removed_list (sort_edits es) (to_list t), t')
     \<and> tree_ok ops t' \<and> to_list t' = edit_list (sort_edits es) (to_list t)"
proof (cases "es = []")
  case True
  with t sort show ?thesis by (simp add: edit_def)
next
  case False
  have "seek_index (key_target d0) Left t 0 = 0"
    using seek_index_key [OF t(3), of 0 d0] zero_min by (cases "to_list t") (simp_all add: below_def not_less)
  with seek_ok [of "cursor_new dim t" "key_target d0" Left] t mono_key [OF t(3)] key_not_before_zero obtain b c where
    c: "seek dim (cursor_new dim t) (key_target d0) Left = Some (b, c)" "cursor_ok t c 0" "c_did_seek c"
    by (auto simp: cursor_new_def)
  from edit_loop_ok [OF c(2,3) tree_ok_new t(3), of "sort_edits es" "[]" "[]"] obtain nt buf c' n where
    loop: "edit_loop ops dim key_of (sort_edits es) (new_tree ops) [] c []
        = Some (nt, buf, c', removed_list (sort_edits es) (to_list t))"
      "tree_ok ops nt" "cursor_ok t c' n"
      "to_list nt @ buf @ drop n (to_list t) = edit_list (sort_edits es) (to_list t)"
    by auto
  from tree_extend_ok [OF loop(2)] obtain nt1 where
    nt1: "tree_extend ops nt buf = Some nt1" "tree_ok ops nt1" "to_list nt1 = to_list nt @ buf" by blast
  from suffix_ok [OF loop(3)] obtain w c'' where
    w: "suffix ops dim c' = Some (w, c'')" "tree_ok ops w" "to_list w = drop n (to_list t)" by blast
  from append_tree_ok [OF nt1(2) w(2)] obtain t' where
    "append_tree ops nt1 w = Some t'" "tree_ok ops t'" "to_list t' = to_list nt1 @ to_list w" by blast
  with False c(1) loop nt1 w show ?thesis by (simp add: edit_def)
qed

lemma filter_key_in:
  assumes "sorted_keys ys" "\<forall>a \<in> K. k < a"
  shows "filter (\<lambda>y. key_of y = k \<or> key_of y \<in> K) ys
     = filter (\<lambda>y. key_of y = k) ys @ filter (\<lambda>y. k < key_of y \<and> key_of y \<in> K) ys"
  using assms(1)
proof (induction ys)
  case (Cons y ys)
  have none: "filter (\<lambda>x. key_of x = k) ys = []" if "k < key_of y"
    using that Cons.prems by (auto simp: filter_empty_conv)
  have "key_of y \<in> K \<Longrightarrow> k < key_of y" using assms(2) by blast
  with Cons none show ?case by (cases "k < key_of y") auto
qed simp

text \<open>What the list edits amount to when the edits come in ascending order of distinct keys.\<close>

lemma edit_list_spec:
  assumes "sorted_wrt (\<lambda>a b. edit_key key_of a < edit_key key_of b) es" "sorted_keys ys"
  shows "sorted_keys (edit_list es ys)
     \<and> set (edit_list es ys) = {y \<in> set ys. key_of y \<notin> edit_key key_of ` set es} \<union> {y. Insert y \<in> set es}
     \<and> removed_list es ys = filter (\<lambda>y. key_of y \<in> edit_key key_of ` set es) ys"
  using assms
proof (induction es arbitrary: ys)
  case (Cons e es)
  define k where "k = edit_key key_of e"
  define zs where "zs = filter (\<lambda>y. k < key_of y) ys"
  have gt: "\<forall>a \<in> set es. k < edit_key key_of a" using Cons.prems(1) by (simp add: k_def)
  have s: "sorted_keys zs" "sorted_keys (below k ys)"
    using Cons.prems(2) below_filter [of ys k] by (simp_all add: zs_def sorted_keys_def sorted_wrt_filter)
  from Cons.IH [OF _ s(1)] Cons.prems(1) have IH: "sorted_keys (edit_list es zs)"
      "set (edit_list es zs) = {y \<in> set zs. key_of y \<notin> edit_key key_of ` set es} \<union> {y. Insert y \<in> set es}"
      "removed_list es zs = filter (\<lambda>y. key_of y \<in> edit_key key_of ` set es) zs"
    by simp_all
  have ins: "y \<in> set (inserted e) \<longleftrightarrow> e = Insert y" "y \<in> set (inserted e) \<Longrightarrow> key_of y = k" for y
    by (cases e; auto simp: k_def)+
  have above: "k < key_of y" if "y \<in> set (edit_list es zs)" for y
    using that gt IH(2) by (auto simp: zs_def)
  have el: "edit_list (e # es) ys = below k ys @ inserted e @ edit_list es zs"
    by (simp add: Let_def k_def zs_def)
  have "sorted_keys (inserted e)" by (cases e) simp_all
  then have "sorted_keys (edit_list (e # es) ys)"
    unfolding el using s(2) IH(1) above ins(2) below_filter [OF Cons.prems(2), of k]
    by (auto dest: less_trans)
  moreover have "set (edit_list (e # es) ys)
      = {y \<in> set ys. key_of y \<notin> edit_key key_of ` set (e # es)} \<union> {y. Insert y \<in> set (e # es)}"
    using IH(2) gt ins(1) below_filter [OF Cons.prems(2), of k]
    by (force simp: Let_def zs_def simp flip: k_def)
  moreover have "removed_list (e # es) ys = filter (\<lambda>y. key_of y \<in> edit_key key_of ` set (e # es)) ys"
    using IH(3) gt filter_key_in [OF Cons.prems(2), of "edit_key key_of ` set es" k]
    by (simp add: Let_def zs_def flip: k_def)
  ultimately show ?case by blast
qed simp

end

end
