(* ===== verification/TreeMap.thy ===== *)
theory TreeMap
  imports SumTree_Keyed "HOL-Library.Option_ord"
begin

text \<open>
  \<open>tree_map.rs\<close>: the ordered map and set on top of the sum tree. \<open>MapKey\<close> and \<open>MapKeyRef\<close> are
  optional keys (\<open>None\<close> sorts first, as the derived order has it), and adding a summary replaces
  the key. Closures of the callers (\<open>f\<close> of \<open>update\<close>, \<open>predicate\<close> of \<open>retain\<close>) are functions.
\<close>

section \<open>Entries, summaries and dimensions\<close>

record ('k, 'v) map_entry =
  me_key :: 'k
  me_value :: 'v

definition map_key_of :: "('k, 'v) map_entry \<Rightarrow> 'k option" where
  "map_key_of e = Some (me_key e)"

definition map_ops :: "(('k, 'v) map_entry, 'k option) summary_ops" where
  "map_ops = \<lparr>s_zero = None, s_add = (\<lambda>_ summary. summary), s_item = map_key_of\<rparr>"

text \<open>\<open>MapKey\<close> as a dimension (the blanket \<open>impl Dimension for T: Summary\<close>) and \<open>MapKeyRef\<close>.\<close>

definition map_key_dim :: "('k option, 'k option) dim_ops" where
  "map_key_dim = \<lparr>d_zero = None, d_add = (\<lambda>_ summary. summary)\<rparr>"

definition map_key_ref_dim :: "('k option, 'k option) dim_ops" where
  "map_key_ref_dim = \<lparr>d_zero = None, d_add = (\<lambda>_ summary. summary)\<rparr>"

type_synonym ('k, 'v) tree_map = "(('k, 'v) map_entry, 'k option) node"

text \<open>\<open>MapSeekTargetAdaptor\<close>: the caller's comparison, and \<open>Greater\<close> at the start.\<close>

definition map_seek_target :: "('k \<Rightarrow> ordering) \<Rightarrow> 'k option seek_target" where
  "map_seek_target cmp_cursor = (\<lambda>cursor_location.
     case cursor_location of Some key \<Rightarrow> cmp_cursor key | None \<Rightarrow> Greater)"

abbreviation entry_pair :: "('k, 'v) map_entry \<Rightarrow> 'k \<times> 'v" where
  "entry_pair e \<equiv> (me_key e, me_value e)"

abbreviation pair_entry :: "'k \<times> 'v \<Rightarrow> ('k, 'v) map_entry" where
  "pair_entry p \<equiv> \<lparr>me_key = fst p, me_value = snd p\<rparr>"

section \<open>The map\<close>

definition map_new :: "('k, 'v) tree_map" where
  "map_new = new_tree map_ops"

definition from_ordered_entries :: "('k \<times> 'v) list \<Rightarrow> ('k, 'v) tree_map option" where
  "from_ordered_entries entries = from_iter map_ops (map pair_entry entries)"

definition map_is_empty :: "('k, 'v) tree_map \<Rightarrow> bool" where
  "map_is_empty self = is_empty self"

definition map_get :: "('k::linorder, 'v) tree_map \<Rightarrow> 'k \<Rightarrow> 'v option" where
  "map_get self key =
     (case find map_key_ref_dim self (key_target (Some key)) Left of
        (_, _, Some item) \<Rightarrow> if Some key = map_key_of item then Some (me_value item) else None
      | (_, _, None) \<Rightarrow> None)"

definition contains_key :: "('k::linorder, 'v) tree_map \<Rightarrow> 'k \<Rightarrow> bool" where
  "contains_key self key \<longleftrightarrow> map_get self key \<noteq> None"

definition map_insert_or_replace ::
    "('k::linorder, 'v) tree_map \<Rightarrow> 'k \<Rightarrow> 'v \<Rightarrow> ('v option \<times> ('k, 'v) tree_map) option" where
  "map_insert_or_replace self key value =
     map_option (apfst (map_option me_value))
       (insert_or_replace map_ops map_key_dim map_key_of self \<lparr>me_key = key, me_value = value\<rparr>)"

definition map_insert :: "('k::linorder, 'v) tree_map \<Rightarrow> 'k \<Rightarrow> 'v \<Rightarrow> ('k, 'v) tree_map option" where
  "map_insert self key value =
     map_option snd
       (insert_or_replace map_ops map_key_dim map_key_of self \<lparr>me_key = key, me_value = value\<rparr>)"

type_synonym ('k, 'v) map_edit = "(('k, 'v) map_entry, 'k option) edit"

definition map_extend ::
    "(('k, 'v) map_edit list \<Rightarrow> ('k, 'v) map_edit list) \<Rightarrow> ('k::linorder, 'v) tree_map \<Rightarrow> ('k \<times> 'v) list \<Rightarrow>
     ('k, 'v) tree_map option" where
  "map_extend sort_edits self entries =
     map_option snd
       (edit sort_edits map_ops map_key_dim map_key_of self (map (\<lambda>p. Insert (pair_entry p)) entries))"

definition map_clear :: "('k, 'v) tree_map \<Rightarrow> ('k, 'v) tree_map" where
  "map_clear self = map_new"

definition map_remove :: "('k::linorder, 'v) tree_map \<Rightarrow> 'k \<Rightarrow> ('v option \<times> ('k, 'v) tree_map) option" where
  "map_remove self key = do {
     (nt, c) \<leftarrow> slice map_ops map_key_ref_dim (cursor_new map_key_ref_dim self) (key_target (Some key)) Left;
     end_pos \<leftarrow> cursor_end map_key_ref_dim c;
     (removed, c) \<leftarrow>
       (if key_target (Some key) end_pos = Equal then do {
          r \<leftarrow> cursor_item c;
          item \<leftarrow> r;
          c' \<leftarrow> cursor_next map_key_ref_dim c;
          Some (Some (me_value item), c')
        }
        else Some (None, c));
     (rest, _) \<leftarrow> suffix map_ops map_key_ref_dim c;
     nt \<leftarrow> append_tree map_ops nt rest;
     Some (removed, nt)
   }"

definition remove_range ::
    "('k, 'v) tree_map \<Rightarrow> ('k \<Rightarrow> ordering) \<Rightarrow> ('k \<Rightarrow> ordering) \<Rightarrow> ('k, 'v) tree_map option" where
  "remove_range self start_cmp end_cmp = do {
     (nt, c) \<leftarrow> slice map_ops map_key_ref_dim (cursor_new map_key_ref_dim self) (map_seek_target start_cmp) Left;
     (_, c) \<leftarrow> seek map_key_ref_dim c (map_seek_target end_cmp) Left;
     (rest, _) \<leftarrow> suffix map_ops map_key_ref_dim c;
     append_tree map_ops nt rest
   }"

definition closest :: "('k::linorder, 'v) tree_map \<Rightarrow> 'k \<Rightarrow> ('k \<times> 'v) option option" where
  "closest self key = do {
     (_, c) \<leftarrow> seek map_key_ref_dim (cursor_new map_key_ref_dim self) (key_target (Some key)) Right;
     c \<leftarrow> cursor_prev map_key_ref_dim c;
     r \<leftarrow> cursor_item c;
     Some (map_option entry_pair r)
   }"

text \<open>The pairs the iterator returned by \<open>iter_from\<close> yields.\<close>

definition iter_from :: "('k::linorder, 'v) tree_map \<Rightarrow> 'k \<Rightarrow> ('k \<times> 'v) list option" where
  "iter_from self from_key = do {
     (_, c) \<leftarrow> seek map_key_ref_dim (cursor_new map_key_ref_dim self) (key_target (Some from_key)) Left;
     es \<leftarrow> filter_collect map_key_ref_dim (\<lambda>_. True) c [];
     Some (map entry_pair es)
   }"

definition map_update ::
    "('k::linorder, 'v) tree_map \<Rightarrow> 'k \<Rightarrow> ('v \<Rightarrow> 'v \<times> 'r) \<Rightarrow> ('r option \<times> ('k, 'v) tree_map) option" where
  "map_update self key f = do {
     (nt, c) \<leftarrow> slice map_ops map_key_ref_dim (cursor_new map_key_ref_dim self) (key_target (Some key)) Left;
     end_pos \<leftarrow> cursor_end map_key_ref_dim c;
     (result, nt, c) \<leftarrow>
       (if key_target (Some key) end_pos = Equal then do {
          r \<leftarrow> cursor_item c;
          item \<leftarrow> r;
          let (value, res) = f (me_value item);
          nt \<leftarrow> push map_ops nt (item\<lparr>me_value := value\<rparr>);
          c' \<leftarrow> cursor_next map_key_ref_dim c;
          Some (Some res, nt, c')
        }
        else Some (None, nt, c));
     (rest, _) \<leftarrow> suffix map_ops map_key_ref_dim c;
     nt \<leftarrow> append_tree map_ops nt rest;
     Some (result, nt)
   }"

partial_function (option) retain_loop ::
    "('k \<Rightarrow> 'v \<Rightarrow> bool) \<Rightarrow> (('k, 'v) map_entry, 'k option, 'k option) cursor \<Rightarrow> ('k, 'v) tree_map \<Rightarrow>
     ('k, 'v) tree_map option" where
  "retain_loop predicate c new_map = do {
     r \<leftarrow> cursor_item c;
     case r of
       Some item \<Rightarrow> do {
         new_map' \<leftarrow> (if predicate (me_key item) (me_value item) then push map_ops new_map item else Some new_map);
         c' \<leftarrow> cursor_next map_key_ref_dim c;
         retain_loop predicate c' new_map'
       }
     | None \<Rightarrow> Some new_map
   }"

declare retain_loop.simps [code]

definition retain :: "('k, 'v) tree_map \<Rightarrow> ('k \<Rightarrow> 'v \<Rightarrow> bool) \<Rightarrow> ('k, 'v) tree_map option" where
  "retain self predicate = do {
     c \<leftarrow> cursor_next map_key_ref_dim (cursor_new map_key_ref_dim self);
     retain_loop predicate c (new_tree map_ops)
   }"

definition map_iter :: "('k, 'v) tree_map \<Rightarrow> ('k \<times> 'v) list option" where
  "map_iter self = map_option (map entry_pair) (tree_iter self)"

definition map_values :: "('k, 'v) tree_map \<Rightarrow> 'v list option" where
  "map_values self = map_option (map me_value) (tree_iter self)"

definition map_first :: "('k, 'v) tree_map \<Rightarrow> ('k \<times> 'v) option option" where
  "map_first self = map_option (map_option entry_pair) (tree_first self)"

definition map_last :: "('k, 'v) tree_map \<Rightarrow> ('k \<times> 'v) option option" where
  "map_last self = map_option (map_option entry_pair) (tree_last self)"

definition insert_tree ::
    "(('k, 'v) map_edit list \<Rightarrow> ('k, 'v) map_edit list) \<Rightarrow> ('k::linorder, 'v) tree_map \<Rightarrow> ('k, 'v) tree_map \<Rightarrow>
     ('k, 'v) tree_map option" where
  "insert_tree sort_edits self other = do {
     es \<leftarrow> map_iter other;
     map_option snd
       (edit sort_edits map_ops map_key_dim map_key_of self (map (\<lambda>p. Insert (pair_entry p)) es))
   }"

section \<open>The set\<close>

type_synonym 'k tree_set = "('k, unit) tree_map"

definition set_new :: "'k tree_set" where
  "set_new = map_new"

definition set_from_ordered_entries :: "'k list \<Rightarrow> 'k tree_set option" where
  "set_from_ordered_entries entries = from_ordered_entries (map (\<lambda>key. (key, ())) entries)"

definition set_is_empty :: "'k tree_set \<Rightarrow> bool" where
  "set_is_empty self = map_is_empty self"

definition set_insert :: "'k::linorder tree_set \<Rightarrow> 'k \<Rightarrow> 'k tree_set option" where
  "set_insert self key = map_insert self key ()"

definition set_remove :: "'k::linorder tree_set \<Rightarrow> 'k \<Rightarrow> (bool \<times> 'k tree_set) option" where
  "set_remove self key = map_option (apfst (\<lambda>r. r \<noteq> None)) (map_remove self key)"

definition set_extend ::
    "(('k, unit) map_edit list \<Rightarrow> ('k, unit) map_edit list) \<Rightarrow> 'k::linorder tree_set \<Rightarrow> 'k list \<Rightarrow> 'k tree_set option" where
  "set_extend sort_edits self keys = map_extend sort_edits self (map (\<lambda>key. (key, ())) keys)"

definition set_contains :: "'k::linorder tree_set \<Rightarrow> 'k \<Rightarrow> bool" where
  "set_contains self key \<longleftrightarrow> map_get self key \<noteq> None"

definition set_iter :: "'k tree_set \<Rightarrow> 'k list option" where
  "set_iter self = map_option (map fst) (map_iter self)"

definition set_iter_from :: "'k::linorder tree_set \<Rightarrow> 'k \<Rightarrow> 'k list option" where
  "set_iter_from self key = map_option (map fst) (iter_from self key)"

section \<open>The laws hold for map keys\<close>

interpretation map_key: keyed_laws map_ops map_key_dim map_key_of
  by unfold_locales (simp_all add: map_ops_def map_key_dim_def)

interpretation map_ref: keyed_laws map_ops map_key_ref_dim map_key_of
  by unfold_locales (simp_all add: map_ops_def map_key_ref_dim_def)

text \<open>The blanket implementation for summaries is the dimension of the keys.\<close>

lemma map_key_dim_summary: "map_key_dim = summary_dim map_ops"
  by (simp add: map_key_dim_def summary_dim_def map_ops_def)

section \<open>Invariant and abstraction\<close>

definition map_ok :: "('k::linorder, 'v) tree_map \<Rightarrow> bool" where
  "map_ok t \<longleftrightarrow> tree_ok map_ops t \<and> sorted_wrt (\<lambda>a b. me_key a < me_key b) (to_list t)"

definition map_fits :: "('k, 'v) tree_map \<Rightarrow> bool" where
  "map_fits t \<longleftrightarrow> node_height t < STACK_CAP"

definition map_abs :: "('k, 'v) tree_map \<Rightarrow> 'k \<rightharpoonup> 'v" where
  "map_abs t = map_of (map entry_pair (to_list t))"

lemma map_sorted [simp]:
  "map_key.sorted_keys xs \<longleftrightarrow> sorted_wrt (\<lambda>a b. me_key a < me_key b) xs"
  "map_ref.sorted_keys xs \<longleftrightarrow> sorted_wrt (\<lambda>a b. me_key a < me_key b) xs"
  by (simp_all add: map_key.sorted_keys_def map_ref.sorted_keys_def map_key_of_def)

lemma map_okD: "map_ok t \<Longrightarrow> tree_ok map_ops t" "map_ok t \<Longrightarrow> sorted_wrt (\<lambda>a b. me_key a < me_key b) (to_list t)"
  by (simp_all add: map_ok_def)

lemma find_map_of:
  "map_option me_value (List.find (\<lambda>e. map_key_of e = Some k) xs) = map_of (map entry_pair xs) k"
  by (induction xs) (auto simp: map_key_of_def)

lemma find_map_abs: "map_option me_value (List.find (\<lambda>e. map_key_of e = Some k) (to_list t)) = map_abs t k"
  by (simp add: find_map_of map_abs_def)

lemma entry_eq_iff: "e = \<lparr>me_key = k, me_value = v\<rparr> \<longleftrightarrow> me_key e = k \<and> me_value e = v"
  "\<lparr>me_key = k, me_value = v\<rparr> = e \<longleftrightarrow> me_key e = k \<and> me_value e = v"
  by (cases e; auto)+

lemma map_abs_iff:
  assumes "map_ok t"
  shows "map_abs t k = Some v \<longleftrightarrow> \<lparr>me_key = k, me_value = v\<rparr> \<in> set (to_list t)"
proof -
  have "sorted_wrt (<) (map me_key (to_list t))" using map_okD(2) [OF assms] by (simp add: sorted_wrt_map)
  then have "distinct (map fst (map entry_pair (to_list t)))"
    by (simp add: strict_sorted_iff comp_def)
  moreover have "(k, v) \<in> set (map entry_pair (to_list t)) \<longleftrightarrow> \<lparr>me_key = k, me_value = v\<rparr> \<in> set (to_list t)"
    by (metis (no_types, lifting) entry_eq_iff(1) fst_conv image_eqI image_iff list.set_map snd_conv)
  ultimately show ?thesis by (simp add: map_abs_def)
qed

text \<open>A map is determined by its entries.\<close>

lemma map_abs_eqI:
  assumes "map_ok t" "\<And>k v. m k = Some v \<longleftrightarrow> \<lparr>me_key = k, me_value = v\<rparr> \<in> set (to_list t)"
  shows "map_abs t = m"
proof
  fix k
  show "map_abs t k = m k" using map_abs_iff [OF assms(1), of k] assms(2) [of k] by (metis not_Some_eq)
qed

lemma map_new_ok [simp]: "map_ok map_new" "map_fits map_new" "map_abs map_new = Map.empty"
  by (simp_all add: map_ok_def map_fits_def map_abs_def map_new_def STACK_CAP_def)

section \<open>Lookup\<close>

lemma map_get_ok:
  assumes "map_ok t"
  shows "map_get t k = map_abs t k"
proof -
  note t = map_okD [OF assms]
  define xs where "xs = to_list t"
  have s: "map_ref.sorted_keys xs" using t(2) by (simp add: xs_def)
  have "snd (snd (find map_key_ref_dim t (key_target (Some k)) Left)) = list_first (map_ref.from_key (Some k) xs)"
    using t(1)
  proof (cases rule: tree_ok_cases)
    case 1
    then show ?thesis
      by (simp add: find_def find_generic_def new_tree_def Let_def list_first_def map_ref.from_key_def xs_def)
  next
    case 2
    define n where "n = length (map_ref.below (Some k) xs)"
    have cnt: "map_ref.skip_count (key_target (Some k)) Left (d_zero map_key_ref_dim) xs = n"
      using map_ref.skip_count_key [OF s, of 0 "Some k"] by (simp add: n_def)
    have "drop n xs = map_ref.from_key (Some k) xs"
      using map_ref.drop_below [of 0 "Some k" xs] by (simp add: n_def)
    moreover have "list_first (drop n xs) = (if n < length xs then Some (xs ! n) else None)"
      by (cases "n < length xs") (auto simp: list_first_def simp flip: Cons_nth_drop_Suc)
    ultimately show ?thesis
      using map_ref.find_ok [OF 2(1) map_ref.mono_key, of "Some k" Left] s cnt by (simp add: Let_def flip: xs_def)
  qed
  then have "map_get t k = (case list_first (map_ref.from_key (Some k) xs) of
      Some item \<Rightarrow> if Some k = map_key_of item then Some (me_value item) else None | None \<Rightarrow> None)"
    by (cases "find map_key_ref_dim t (key_target (Some k)) Left") (auto simp: map_get_def split: option.splits)
  also have "\<dots> = map_option me_value (List.find (\<lambda>e. map_key_of e = Some k) xs)"
    unfolding map_ref.find_from_key [OF s]
    by (cases "map_ref.from_key (Some k) xs") (auto simp: list_first_def)
  finally show ?thesis by (simp add: find_map_abs xs_def)
qed

section \<open>Insertion and removal\<close>

lemma insert_result:
  assumes "map_ok t" "tree_ok map_ops t'"
    and "to_list t' = filter (\<lambda>y. me_key y < k) (to_list t) @ [\<lparr>me_key = k, me_value = v\<rparr>] @ filter (\<lambda>y. k < me_key y) (to_list t)"
  shows "map_ok t' \<and> map_abs t' = (map_abs t)(k \<mapsto> v)"
proof -
  have ok: "map_ok t'"
    using assms map_okD(2) [OF assms(1)]
    by (auto simp: map_ok_def sorted_wrt_append sorted_wrt_filter dest: less_trans)
  moreover have "map_abs t' = (map_abs t)(k \<mapsto> v)"
    using ok by (rule map_abs_eqI) (auto simp: assms(3) map_abs_iff [OF assms(1)])
  ultimately show ?thesis by blast
qed

lemma map_insert_or_replace_ok:
  assumes "map_ok t" "map_fits t"
  shows "\<exists>t'. map_insert_or_replace t k v = Some (map_abs t k, t') \<and> map_ok t' \<and> map_abs t' = (map_abs t)(k \<mapsto> v)"
proof -
  define x where "x = \<lparr>me_key = k, me_value = v\<rparr>"
  have fits: "node_height t < STACK_CAP" using assms(2) by (simp add: map_fits_def)
  have "map_key.sorted_keys (to_list t)" using map_okD(2) [OF assms(1)] by simp
  from map_key.insert_or_replace_ok [OF map_okD(1) [OF assms(1)] fits this, of x] obtain t' where
    t': "insert_or_replace map_ops map_key_dim map_key_of t x = Some (List.find (\<lambda>y. map_key_of y = map_key_of x) (to_list t), t')"
      "tree_ok map_ops t'"
      "to_list t' = filter (\<lambda>y. map_key_of y < map_key_of x) (to_list t) @ [x] @ filter (\<lambda>y. map_key_of x < map_key_of y) (to_list t)"
    by blast
  then have "map_ok t' \<and> map_abs t' = (map_abs t)(k \<mapsto> v)"
    by (intro insert_result [OF assms(1)]) (simp_all add: map_key_of_def x_def)
  with t'(1) find_map_abs [of k t] show ?thesis
    by (simp add: map_insert_or_replace_def x_def) (simp add: map_key_of_def)
qed

lemma map_insert_eq: "map_insert t k v = map_option snd (map_insert_or_replace t k v)"
  by (simp add: map_insert_def map_insert_or_replace_def option.map_comp comp_def)

text \<open>
  \<open>remove\<close> and \<open>update\<close> compare the key with the end of the cursor's item instead of the item's
  key; both say whether the key is present.
\<close>

lemma map_cursor_end:
  assumes c: "map_ref.cursor_ok t c (length (map_ref.below (Some k) (to_list t)))" "c_did_seek c"
    and s: "map_ref.sorted_keys (to_list t)"
  obtains e where "cursor_end map_key_ref_dim c = Some e"
    "key_target (Some k) e = Equal \<longleftrightarrow> List.find (\<lambda>x. map_key_of x = Some k) (to_list t) \<noteq> None"
proof -
  define xs where "xs = to_list t"
  define n where "n = length (map_ref.below (Some k) xs)"
  have n: "n \<le> length xs" using map_ref.cursor_ok_bounds [OF c(1)] by (simp add: n_def xs_def)
  have d: "drop n xs = map_ref.from_key (Some k) xs"
    using map_ref.drop_below [of 0 "Some k" xs] by (simp add: n_def)
  have sx: "map_ref.sorted_keys xs" using s by (simp add: xs_def)
  define e where "e = map_ref.advance (d_zero map_key_ref_dim) (take (Suc n) xs)"
  have "cursor_end map_key_ref_dim c = Some e"
    using map_ref.cursor_end_ok [OF c] by (simp add: e_def n_def xs_def)
  moreover have "key_target (Some k) e = Equal \<longleftrightarrow> List.find (\<lambda>x. map_key_of x = Some k) xs \<noteq> None"
  proof (cases "n < length xs")
    case True
    have "sorted_wrt (\<lambda>a b. me_key a < me_key b) (take (Suc n) xs)"
      using sx by (simp add: sorted_wrt_take)
    then have "e = map_key_of (xs ! n)"
      using map_ref.advance_zero [of "take (Suc n) xs"] True by (simp add: e_def take_Suc_conv_app_nth)
    then show ?thesis
      using map_ref.find_from_key [OF sx, of "Some k", folded d] True
      by (auto simp: key_target_def simp flip: Cons_nth_drop_Suc)
  next
    case False
    then have all: "map_ref.below (Some k) xs = xs"
      using n map_ref.below_from [of "Some k" xs] d by (metis append_Nil2 drop_all le_antisym not_less order_refl)
    have "e \<noteq> Some k"
    proof (cases "xs = []")
      case True
      then show ?thesis by (simp add: e_def) (simp add: map_key_ref_dim_def)
    next
      case ne: False
      then have "e = map_key_of (last xs)" using map_ref.advance_zero [OF sx ne] False n by (simp add: e_def)
      moreover have "last xs \<in> set (map_ref.below (Some k) xs)" using ne all by simp
      ultimately show ?thesis by (auto simp: map_ref.below_def dest: set_takeWhileD)
    qed
    then show ?thesis
      using map_ref.find_from_key [OF sx, of "Some k", folded d] False by (auto simp: key_target_def)
  qed
  ultimately show thesis using that by (simp add: xs_def)
qed

text \<open>The common beginning and end of \<open>remove\<close> and \<open>update\<close>.\<close>

lemma map_split_at:
  assumes "map_ok t" "map_fits t"
  obtains nt c e c' rest c'' where
    "slice map_ops map_key_ref_dim (cursor_new map_key_ref_dim t) (key_target (Some k)) Left = Some (nt, c)"
    "tree_ok map_ops nt" "to_list nt = filter (\<lambda>y. me_key y < k) (to_list t)"
    "cursor_end map_key_ref_dim c = Some e"
    "key_target (Some k) e = Equal \<longleftrightarrow> map_abs t k \<noteq> None"
    "map_abs t k \<noteq> None \<longrightarrow> cursor_item c = Some (List.find (\<lambda>y. map_key_of y = Some k) (to_list t))
       \<and> cursor_next map_key_ref_dim c = Some c'"
    "map_abs t k = None \<longrightarrow> c' = c"
    "suffix map_ops map_key_ref_dim c' = Some (rest, c'')"
    "tree_ok map_ops rest" "to_list rest = filter (\<lambda>y. k < me_key y) (to_list t)"
proof -
  define xs where "xs = to_list t"
  have t: "tree_ok map_ops t" "node_height t < STACK_CAP" "map_ref.sorted_keys xs"
    using map_okD [OF assms(1)] assms(2) by (simp_all add: map_fits_def xs_def)
  have "key_target (Some k) (c_position (cursor_new map_key_ref_dim t)) \<noteq> Less"
    using map_ref.key_not_before_zero by (simp add: cursor_new_def)
  from map_ref.slice_key [OF map_ref.cursor_new_ok [OF t(1,2)] t(3) [unfolded xs_def] this] obtain nt c where
    nt: "slice map_ops map_key_ref_dim (cursor_new map_key_ref_dim t) (key_target (Some k)) Left = Some (nt, c)"
      "tree_ok map_ops nt" "to_list nt = map_ref.below (Some k) xs"
      "map_ref.cursor_ok t c (length (map_ref.below (Some k) xs))" "c_did_seek c"
    by (auto simp: xs_def)
  have d: "drop (length (map_ref.below (Some k) xs)) (to_list t) = map_ref.from_key (Some k) xs"
    using map_ref.drop_below [of 0 "Some k" xs] by (simp add: xs_def)
  obtain e where e: "cursor_end map_key_ref_dim c = Some e" "key_target (Some k) e = Equal \<longleftrightarrow> List.find (\<lambda>y. map_key_of y = Some k) xs \<noteq> None"
    by (rule map_cursor_end [OF nt(4) [unfolded xs_def] nt(5) t(3) [unfolded xs_def]]) (simp add: xs_def that)
  obtain c' where c': "(case list_first (map_ref.from_key (Some k) xs) of
        Some x \<Rightarrow> if map_key_of x = Some k then do { c' \<leftarrow> cursor_next map_key_ref_dim c; Some (Some x, c') } else Some (None, c)
      | None \<Rightarrow> Some (None, c)) = Some (List.find (\<lambda>y. map_key_of y = Some k) xs, c')"
      "map_ref.cursor_ok t c' (length (to_list t) - length (filter (\<lambda>x. Some k < map_key_of x) xs))"
    by (rule map_ref.skip_equal [OF nt(4,5) d t(3), where f = Some and g = None, unfolded option_case_id]) (erule (1) that)
  from map_ref.suffix_ok [OF c'(2)] map_ref.drop_above [OF d t(3)] obtain rest c'' where
    rest: "suffix map_ops map_key_ref_dim c' = Some (rest, c'')" "tree_ok map_ops rest"
      "to_list rest = filter (\<lambda>x. Some k < map_key_of x) xs"
    by metis
  have abs: "map_abs t k = map_option me_value (List.find (\<lambda>y. map_key_of y = Some k) xs)"
    using find_map_abs [of k t] by (simp add: xs_def)
  have item: "cursor_item c = Some (list_first (map_ref.from_key (Some k) xs))"
    using map_ref.cursor_item_key [OF nt(4,5)] d by simp
  have fst_find: "list_first (map_ref.from_key (Some k) xs) = List.find (\<lambda>y. map_key_of y = Some k) xs" if "List.find (\<lambda>y. map_key_of y = Some k) xs \<noteq> None"
    using that map_ref.find_from_key [OF t(3), of "Some k"]
    by (auto simp: list_first_def split: list.splits if_splits)
  show thesis
  proof (rule that)
    show "to_list nt = filter (\<lambda>y. me_key y < k) (to_list t)"
      using nt(3) map_ref.below_filter [OF t(3), of "Some k"] by (simp add: map_key_of_def xs_def)
    show "to_list rest = filter (\<lambda>y. k < me_key y) (to_list t)" using rest(3) by (simp add: map_key_of_def xs_def)
    show "map_abs t k \<noteq> None \<longrightarrow>
      cursor_item c = Some (List.find (\<lambda>y. map_key_of y = Some k) (to_list t)) \<and> cursor_next map_key_ref_dim c = Some c'"
    proof
      assume "map_abs t k \<noteq> None"
      with abs obtain x where x: "List.find (\<lambda>y. map_key_of y = Some k) xs = Some x" by auto
      then have "map_key_of x = Some k" by (auto simp: find_Some_iff)
      with x c'(1) fst_find item
      show "cursor_item c = Some (List.find (\<lambda>y. map_key_of y = Some k) (to_list t)) \<and> cursor_next map_key_ref_dim c = Some c'"
        by (auto simp: xs_def bind_eq_Some_conv)
    qed
    show "map_abs t k = None \<longrightarrow> c' = c"
      using abs c'(1) by (auto simp: bind_eq_Some_conv split: option.splits if_splits)
  qed (use nt e abs rest in auto)
qed

lemma map_remove_ok:
  assumes "map_ok t" "map_fits t"
  shows "\<exists>t'. map_remove t k = Some (map_abs t k, t') \<and> map_ok t' \<and> map_abs t' = (map_abs t)(k := None)"
proof -
  obtain nt c e c' rest c'' where st:
    "slice map_ops map_key_ref_dim (cursor_new map_key_ref_dim t) (key_target (Some k)) Left = Some (nt, c)"
    "tree_ok map_ops nt" "to_list nt = filter (\<lambda>y. me_key y < k) (to_list t)"
    "cursor_end map_key_ref_dim c = Some e"
    "key_target (Some k) e = Equal \<longleftrightarrow> map_abs t k \<noteq> None"
    "map_abs t k \<noteq> None \<longrightarrow> cursor_item c = Some (List.find (\<lambda>y. map_key_of y = Some k) (to_list t))
       \<and> cursor_next map_key_ref_dim c = Some c'"
    "map_abs t k = None \<longrightarrow> c' = c"
    "suffix map_ops map_key_ref_dim c' = Some (rest, c'')"
    "tree_ok map_ops rest" "to_list rest = filter (\<lambda>y. k < me_key y) (to_list t)"
    by (rule map_split_at [OF assms, of k]) (erule (9) that)
  from map_key.append_tree_ok [OF st(2,9)] obtain t' where
    t': "append_tree map_ops nt rest = Some t'" "tree_ok map_ops t'" "to_list t' = to_list nt @ to_list rest" by blast
  have ok: "map_ok t'"
    using t' st(3,10) map_okD(2) [OF assms(1)]
    by (auto simp: map_ok_def sorted_wrt_append sorted_wrt_filter dest: less_trans)
  have "map_abs t' = (map_abs t)(k := None)"
    using ok by (rule map_abs_eqI) (auto simp: t'(3) st(3,10) map_abs_iff [OF assms(1)])
  moreover have "map_remove t k = Some (map_abs t k, t')"
  proof (cases "map_abs t k")
    case None
    with st t' show ?thesis by (simp add: map_remove_def)
  next
    case (Some v)
    then obtain x where "List.find (\<lambda>y. map_key_of y = Some k) (to_list t) = Some x" "me_value x = v"
      using find_map_abs [of k t] by auto
    with Some st t' show ?thesis by (simp add: map_remove_def)
  qed
  ultimately show ?thesis using ok by blast
qed

lemma map_update_ok:
  assumes "map_ok t" "map_fits t"
  shows "\<exists>t'. map_update t k f = Some (map_option (snd \<circ> f) (map_abs t k), t') \<and> map_ok t'
     \<and> map_abs t' = (case map_abs t k of Some v \<Rightarrow> (map_abs t)(k \<mapsto> fst (f v)) | None \<Rightarrow> map_abs t)"
proof -
  obtain nt c e c' rest c'' where st:
    "slice map_ops map_key_ref_dim (cursor_new map_key_ref_dim t) (key_target (Some k)) Left = Some (nt, c)"
    "tree_ok map_ops nt" "to_list nt = filter (\<lambda>y. me_key y < k) (to_list t)"
    "cursor_end map_key_ref_dim c = Some e"
    "key_target (Some k) e = Equal \<longleftrightarrow> map_abs t k \<noteq> None"
    "map_abs t k \<noteq> None \<longrightarrow> cursor_item c = Some (List.find (\<lambda>y. map_key_of y = Some k) (to_list t))
       \<and> cursor_next map_key_ref_dim c = Some c'"
    "map_abs t k = None \<longrightarrow> c' = c"
    "suffix map_ops map_key_ref_dim c' = Some (rest, c'')"
    "tree_ok map_ops rest" "to_list rest = filter (\<lambda>y. k < me_key y) (to_list t)"
    by (rule map_split_at [OF assms, of k]) (erule (9) that)
  show ?thesis
  proof (cases "map_abs t k")
    case None
    from map_key.append_tree_ok [OF st(2,9)] obtain t' where
      t': "append_tree map_ops nt rest = Some t'" "tree_ok map_ops t'" "to_list t' = to_list nt @ to_list rest" by blast
    have ok: "map_ok t'"
      using t' st(3,10) map_okD(2) [OF assms(1)]
      by (auto simp: map_ok_def sorted_wrt_append sorted_wrt_filter dest: less_trans)
    have "me_key y \<noteq> k" if "y \<in> set (to_list t)" for y
      using None that map_abs_iff [OF assms(1), of k "me_value y"] by (cases y) auto
    then have "map_abs t' = map_abs t"
      by (intro map_abs_eqI [OF ok]) (force simp: t'(3) st(3,10) map_abs_iff [OF assms(1)] neq_iff)
    with None st t' ok show ?thesis by (simp add: map_update_def)
  next
    case (Some v)
    then obtain x where x: "List.find (\<lambda>y. map_key_of y = Some k) (to_list t) = Some x" "me_value x = v"
      using find_map_abs [of k t] by auto
    then have key: "me_key x = k" by (auto simp: find_Some_iff map_key_of_def)
    have upd: "x\<lparr>me_value := fst (f v)\<rparr> = \<lparr>me_key = k, me_value = fst (f v)\<rparr>" using key by (cases x) simp
    from map_key.push_ok [OF st(2)] obtain nt1 where
      nt1: "push map_ops nt (x\<lparr>me_value := fst (f v)\<rparr>) = Some nt1" "tree_ok map_ops nt1"
        "to_list nt1 = to_list nt @ [\<lparr>me_key = k, me_value = fst (f v)\<rparr>]"
      unfolding upd by blast
    from map_key.append_tree_ok [OF nt1(2) st(9)] obtain t' where
      t': "append_tree map_ops nt1 rest = Some t'" "tree_ok map_ops t'" "to_list t' = to_list nt1 @ to_list rest" by blast
    have "map_ok t' \<and> map_abs t' = (map_abs t)(k \<mapsto> fst (f v))"
      using t' nt1(3) st(3,10) by (intro insert_result [OF assms(1)]) simp_all
    with Some st t' nt1 x show ?thesis by (auto simp: map_update_def split: prod.splits)
  qed
qed

section \<open>Ranges, neighbours and bulk operations\<close>

text \<open>A caller's comparison that only moves from \<open>Greater\<close> over \<open>Equal\<close> to \<open>Less\<close> as keys grow.\<close>

definition mono_cmp :: "('k::linorder \<Rightarrow> ordering) \<Rightarrow> bool" where
  "mono_cmp cmp \<longleftrightarrow> (\<forall>a b. a \<le> b \<longrightarrow> (cmp b = Greater \<longrightarrow> cmp a = Greater) \<and> (cmp a = Less \<longrightarrow> cmp b = Less))"

lemma mono_cmp_ord: "mono_cmp (ord_cmp k)"
  by (auto simp: mono_cmp_def)

lemma map_target_mono:
  assumes "mono_cmp cmp" "map_ref.sorted_keys xs"
  shows "mono_target (map_seek_target cmp) (map_ref.ends (d_zero map_key_ref_dim) xs)"
  unfolding map_ref.ends_zero [OF assms(2)] using assms
  by (induction xs)
    (auto simp: mono_target_def map_key_of_def map_seek_target_def mono_cmp_def dest!: less_imp_le)

lemma map_target_index:
  assumes "mono_cmp cmp" "map_ref.sorted_keys (to_list t)"
  shows "map_ref.seek_index (map_seek_target cmp) Left t 0
    = length (filter (\<lambda>e. cmp (me_key e) = Greater) (to_list t))"
    and "take (map_ref.seek_index (map_seek_target cmp) Left t 0) (to_list t)
    = filter (\<lambda>e. cmp (me_key e) = Greater) (to_list t)"
    and "drop (map_ref.seek_index (map_seek_target cmp) Left t 0) (to_list t)
    = filter (\<lambda>e. cmp (me_key e) \<noteq> Greater) (to_list t)"
proof -
  define xs where "xs = to_list t"
  define P where "P = (\<lambda>e :: ('a, 'b) map_entry. cmp (me_key e) = Greater)"
  have P: "P x \<Longrightarrow> P y" if "me_key y < me_key x" for x y
    using assms(1) that by (auto simp: P_def mono_cmp_def dest: less_imp_le)
  have *: "takeWhile P xs = filter P xs \<and> dropWhile P xs = filter (\<lambda>x. \<not> P x) xs"
    using assms(2) unfolding xs_def [symmetric]
    by (induction xs) (auto intro!: filter_False [symmetric] filter_True [symmetric] dest: P)
  have idx: "map_ref.seek_index (map_seek_target cmp) Left t 0 = length (takeWhile P xs)"
    using assms(2) map_ref.ends_zero [of xs]
    by (simp add: map_ref.seek_index_def map_ref.skip_count_def xs_def P_def skips_def takeWhile_map comp_def
        map_seek_target_def map_key_of_def)
  show "map_ref.seek_index (map_seek_target cmp) Left t 0 = length (filter (\<lambda>e. cmp (me_key e) = Greater) (to_list t))"
    using idx * by (simp add: P_def xs_def)
  show "take (map_ref.seek_index (map_seek_target cmp) Left t 0) (to_list t) = filter (\<lambda>e. cmp (me_key e) = Greater) (to_list t)"
    unfolding idx xs_def [symmetric] takeWhile_eq_take [symmetric] using * by (simp add: P_def)
  show "drop (map_ref.seek_index (map_seek_target cmp) Left t 0) (to_list t) = filter (\<lambda>e. cmp (me_key e) \<noteq> Greater) (to_list t)"
    unfolding idx xs_def [symmetric] dropWhile_eq_drop [symmetric] using * by (simp add: P_def)
qed

lemma map_target_zero: "map_seek_target cmp (d_zero map_key_ref_dim) \<noteq> Less"
  by (simp add: map_seek_target_def map_key_ref_dim_def)

lemma remove_range_list:
  assumes "map_ok t" "map_fits t" "mono_cmp s" "mono_cmp e"
  shows "\<exists>t'. remove_range t s e = Some t' \<and> tree_ok map_ops t'
     \<and> to_list t' = filter (\<lambda>x. s (me_key x) = Greater) (to_list t) @ filter (\<lambda>x. e (me_key x) \<noteq> Greater) (to_list t)"
proof -
  have t: "tree_ok map_ops t" "node_height t < STACK_CAP" "map_ref.sorted_keys (to_list t)"
    using map_okD [OF assms(1)] assms(2) by (simp_all add: map_fits_def)
  note new = map_ref.cursor_new_ok [OF t(1,2)]
  have "map_seek_target s (c_position (cursor_new map_key_ref_dim t)) \<noteq> Less"
    using map_target_zero [of s] by (simp add: cursor_new_def)
  from map_ref.slice_ok [OF new map_target_mono [OF assms(3) t(3)] this, of Left] obtain nt c where
    nt: "slice map_ops map_key_ref_dim (cursor_new map_key_ref_dim t) (map_seek_target s) Left = Some (nt, c)"
      "tree_ok map_ops nt" "to_list nt = filter (\<lambda>x. s (me_key x) = Greater) (to_list t)"
      "c_tree c = t"
    by (auto simp: map_target_index(2) [OF assms(3) t(3)] map_ref.cursor_ok_def)
  from map_ref.seek_ok [of c "map_seek_target e" Left] t nt(4) map_target_mono [OF assms(4) t(3)] map_target_zero [of e]
  obtain b c' where c': "seek map_key_ref_dim c (map_seek_target e) Left = Some (b, c')"
      "map_ref.cursor_ok t c' (map_ref.seek_index (map_seek_target e) Left t 0)"
    by auto
  from map_ref.suffix_ok [OF c'(2)] map_target_index(3) [OF assms(4) t(3)] obtain rest c'' where
    rest: "suffix map_ops map_key_ref_dim c' = Some (rest, c'')" "tree_ok map_ops rest"
      "to_list rest = filter (\<lambda>x. e (me_key x) \<noteq> Greater) (to_list t)"
    by metis
  from map_key.append_tree_ok [OF nt(2) rest(2)] nt c' rest show ?thesis by (auto simp: remove_range_def)
qed

lemma remove_range_ok:
  assumes "map_ok t" "map_fits t" "mono_cmp s" "mono_cmp e"
    and le: "\<And>k. s k = Greater \<Longrightarrow> e k = Greater"
  shows "\<exists>t'. remove_range t s e = Some t' \<and> map_ok t'
     \<and> map_abs t' = map_abs t |` {k. s k = Greater \<or> e k \<noteq> Greater}"
proof -
  from remove_range_list [OF assms(1-4)] obtain t' where t': "remove_range t s e = Some t'" "tree_ok map_ops t'"
      "to_list t' = filter (\<lambda>x. s (me_key x) = Greater) (to_list t) @ filter (\<lambda>x. e (me_key x) \<noteq> Greater) (to_list t)"
    by blast
  have "me_key a < me_key b" if "s (me_key a) = Greater" "e (me_key b) \<noteq> Greater" for a b :: "('a, 'b) map_entry"
    using that assms(3,4) le [OF that(1)] by (metis mono_cmp_def not_less)
  then have ok: "map_ok t'"
    using t'(2,3) map_okD(2) [OF assms(1)] by (auto simp: map_ok_def sorted_wrt_append sorted_wrt_filter)
  have "map_abs t' = map_abs t |` {k. s k = Greater \<or> e k \<noteq> Greater}"
    using ok by (rule map_abs_eqI) (auto simp: t'(3) map_abs_iff [OF assms(1)] restrict_map_def)
  with t'(1) ok show ?thesis by blast
qed

lemma seek_index_key_right:
  assumes "map_ref.sorted_keys (to_list t)"
  shows "take (map_ref.seek_index (key_target (Some k)) Right t 0) (to_list t) = filter (\<lambda>e. me_key e \<le> k) (to_list t)"
    and "map_ref.seek_index (key_target (Some k)) Right t 0 = length (filter (\<lambda>e. me_key e \<le> k) (to_list t))"
proof -
  define xs where "xs = to_list t"
  have *: "takeWhile (\<lambda>e. me_key e \<le> k) xs = filter (\<lambda>e. me_key e \<le> k) xs"
    using assms unfolding xs_def [symmetric]
    by (induction xs) (force intro!: filter_False [symmetric])+
  have idx: "map_ref.seek_index (key_target (Some k)) Right t 0 = length (takeWhile (\<lambda>e. me_key e \<le> k) xs)"
    using assms map_ref.ends_zero [of xs]
    by (simp add: map_ref.seek_index_def map_ref.skip_count_def xs_def skips_def takeWhile_map comp_def
        key_target_def map_key_of_def le_less eq_commute [of k])
  then show "map_ref.seek_index (key_target (Some k)) Right t 0 = length (filter (\<lambda>e. me_key e \<le> k) (to_list t))"
    using * by (simp add: xs_def)
  show "take (map_ref.seek_index (key_target (Some k)) Right t 0) (to_list t) = filter (\<lambda>e. me_key e \<le> k) (to_list t)"
    unfolding idx xs_def [symmetric] takeWhile_eq_take [symmetric] by (rule *)
qed

lemma closest_ok:
  assumes "map_ok t" "map_fits t"
  shows "closest t k = Some (map_option entry_pair (list_last (filter (\<lambda>e. me_key e \<le> k) (to_list t))))"
proof -
  have t: "tree_ok map_ops t" "node_height t < STACK_CAP" "map_ref.sorted_keys (to_list t)"
    using map_okD [OF assms(1)] assms(2) by (simp_all add: map_fits_def)
  define n where "n = map_ref.seek_index (key_target (Some k)) Right t 0"
  note idx = seek_index_key_right [OF t(3), of k, folded n_def]
  from map_ref.seek_ok [of "cursor_new map_key_ref_dim t" "key_target (Some k)" Right] t
    map_ref.mono_key [OF t(3)] map_ref.key_not_before_zero
  obtain b c where c: "seek map_key_ref_dim (cursor_new map_key_ref_dim t) (key_target (Some k)) Right = Some (b, c)"
      "map_ref.cursor_ok t c n" "c_did_seek c"
    by (auto simp: cursor_new_def n_def)
  show ?thesis
  proof (cases "to_list t = []")
    case True
    from map_ref.cursor_prev_empty [OF c(2) True] obtain c' where
      "cursor_prev map_key_ref_dim c = Some c'" "c_did_seek c'" "map_ref.cursor_ok t c' 0" by blast
    with map_ref.cursor_item_ok(1) [of t c' 0] c(1) True show ?thesis by (simp add: closest_def list_last_def)
  next
    case ne: False
    from map_ref.cursor_prev_ok [OF c(2) ne, of n] c(3) obtain c' where
      c': "cursor_prev map_key_ref_dim c = Some c'" "c_did_seek c'"
        "if 0 < n then map_ref.cursor_ok t c' (n - 1) else map_ref.cursor_before t c'"
      by auto
    show ?thesis
    proof (cases "0 < n")
      case True
      have "n \<le> length (to_list t)" by (rule map_ref.cursor_ok_bounds [OF c(2)])
      then have last: "list_last (take n (to_list t)) = Some (to_list t ! (n - 1))"
        using True by (auto simp: list_last_def last_conv_nth)
      have "cursor_item c' = Some (Some (to_list t ! (n - 1)))"
        using map_ref.cursor_item_ok(1) [of t c' "n - 1"] c'(2,3) True \<open>n \<le> length (to_list t)\<close> by simp
      with c(1) c'(1) last idx(1) show ?thesis by (simp add: closest_def)
    next
      case False
      then have "filter (\<lambda>e. me_key e \<le> k) (to_list t) = []" using idx(1) by simp
      moreover have "cursor_item c' = Some None"
        using c' False by (simp add: map_ref.cursor_before_def cursor_item_def assert_did_seek_def)
      ultimately show ?thesis using c(1) c'(1) by (simp add: closest_def list_last_def)
    qed
  qed
qed

lemma iter_from_ok:
  assumes "map_ok t" "map_fits t"
  shows "iter_from t k = Some (map entry_pair (filter (\<lambda>e. k \<le> me_key e) (to_list t)))"
proof -
  have t: "tree_ok map_ops t" "node_height t < STACK_CAP" "map_ref.sorted_keys (to_list t)"
    using map_okD [OF assms(1)] assms(2) by (simp_all add: map_fits_def)
  have idx: "map_ref.seek_index (key_target (Some k)) Left t 0 = length (map_ref.below (Some k) (to_list t))"
    using map_ref.seek_index_key [OF t(3), of 0 "Some k"] by simp
  from map_ref.seek_ok [of "cursor_new map_key_ref_dim t" "key_target (Some k)" Left] t
    map_ref.mono_key [OF t(3)] map_ref.key_not_before_zero idx
  obtain b c where c: "seek map_key_ref_dim (cursor_new map_key_ref_dim t) (key_target (Some k)) Left = Some (b, c)"
      "map_ref.cursor_ok t c (length (map_ref.below (Some k) (to_list t)))" "c_did_seek c"
    by (auto simp: cursor_new_def)
  have all: "filter (map_key.accepts (\<lambda>_. True)) ys = ys" for ys :: "('a, 'b) map_entry list"
    by (simp add: map_key.accepts_def)
  have "filter_collect map_key_ref_dim (\<lambda>_. True) c [] = Some (map_ref.from_key (Some k) (to_list t))"
    using map_ref.filter_collect_ok [OF c(2) map_key.filter_sound_True c(3), of "[]"]
      map_ref.drop_below [of 0 "Some k" "to_list t"] all
    by (simp add: map_ref.on_accepted_def map_key.accepts_def)
  with c(1) map_ref.from_key_filter [OF t(3), of "Some k"] show ?thesis
    by (simp add: iter_from_def map_key_of_def)
qed

lemma retain_loop_ok:
  assumes "map_ref.cursor_ok t c n" "c_did_seek c" "tree_ok map_ops nm"
  shows "\<exists>t'. retain_loop p c nm = Some t' \<and> tree_ok map_ops t'
     \<and> to_list t' = to_list nm @ filter (\<lambda>e. p (me_key e) (me_value e)) (drop n (to_list t))"
  using assms
proof (induction "length (to_list t) - n" arbitrary: c n nm rule: less_induct)
  case less
  show ?case
  proof (cases "n < length (to_list t)")
    case True
    define x where "x = to_list t ! n"
    have d: "drop n (to_list t) = x # drop (Suc n) (to_list t)" using True by (simp add: x_def Cons_nth_drop_Suc)
    from map_ref.cursor_next_key [OF less.prems(1,2) True] obtain c' where
      c': "cursor_next map_key_ref_dim c = Some c'" "map_ref.cursor_ok t c' (Suc n)" "c_did_seek c'" by blast
    obtain nm' where nm': "(if p (me_key x) (me_value x) then push map_ops nm x else Some nm) = Some nm'"
        "tree_ok map_ops nm'" "to_list nm' = to_list nm @ filter (\<lambda>e. p (me_key e) (me_value e)) [x]"
      using map_key.push_ok [OF less.prems(3), of x] less.prems(3) by (cases "p (me_key x) (me_value x)") auto
    have item: "cursor_item c = Some (Some x)"
      using map_ref.cursor_item_ok(1) [OF less.prems(1,2)] True by (simp add: x_def)
    have "retain_loop p c nm = retain_loop p c' nm'"
      by (subst retain_loop.simps) (simp add: item nm' c')
    with less.hyps [OF _ c'(2,3) nm'(2)] True show ?thesis unfolding d by (auto simp: nm'(3))
  next
    case False
    with map_ref.cursor_item_ok(1) [OF less.prems(1,2)] less.prems(3) show ?thesis
      by (subst retain_loop.simps) auto
  qed
qed

lemma filter_result:
  assumes "map_ok t" "tree_ok map_ops t'" "to_list t' = filter (\<lambda>e. p (me_key e) (me_value e)) (to_list t)"
  shows "map_ok t' \<and> map_abs t' = (\<lambda>k. case map_abs t k of Some v \<Rightarrow> if p k v then Some v else None | None \<Rightarrow> None)"
proof -
  have ok: "map_ok t'" using assms map_okD(2) [OF assms(1)] by (simp add: map_ok_def sorted_wrt_filter)
  moreover have "map_abs t' = (\<lambda>k. case map_abs t k of Some v \<Rightarrow> if p k v then Some v else None | None \<Rightarrow> None)"
    using ok by (rule map_abs_eqI) (auto simp: assms(3) simp flip: map_abs_iff [OF assms(1)] split: option.splits)
  ultimately show ?thesis by blast
qed

lemma retain_ok:
  assumes "map_ok t" "map_fits t"
  shows "\<exists>t'. retain t p = Some t' \<and> map_ok t'
     \<and> map_abs t' = (\<lambda>k. case map_abs t k of Some v \<Rightarrow> if p k v then Some v else None | None \<Rightarrow> None)"
proof -
  have t: "tree_ok map_ops t" "node_height t < STACK_CAP"
    using map_okD [OF assms(1)] assms(2) by (simp_all add: map_fits_def)
  from map_ref.cursor_next_ok [OF map_ref.cursor_new_ok [OF t]] obtain c where
    c: "cursor_next map_key_ref_dim (cursor_new map_key_ref_dim t) = Some c" "c_did_seek c" "map_ref.cursor_ok t c 0"
    by (auto simp: cursor_new_def)
  from retain_loop_ok [OF c(3,2) tree_ok_new, of p] obtain t' where
    t': "retain_loop p c (new_tree map_ops) = Some t'" "tree_ok map_ops t'"
      "to_list t' = filter (\<lambda>e. p (me_key e) (me_value e)) (to_list t)"
    by auto
  with filter_result [OF assms(1) t'(2,3)] c(1) show ?thesis by (auto simp: retain_def)
qed

lemma map_iter_ok:
  assumes "map_ok t" "map_fits t"
  shows "map_iter t = Some (map entry_pair (to_list t))" "map_values t = Some (map me_value (to_list t))"
    "map_first t = Some (map_option entry_pair (list_first (to_list t)))"
    "map_last t = Some (map_option entry_pair (list_last (to_list t)))"
  using assms map_key.tree_iter_ok [of t] tree_first_eq [of map_ops t] tree_last_eq [of map_ops t]
  by (simp_all add: map_iter_def map_values_def map_first_def map_last_def map_ok_def map_fits_def)

lemma from_ordered_entries_ok:
  assumes "sorted_wrt (<) (map fst entries)"
  shows "\<exists>t. from_ordered_entries entries = Some t \<and> map_ok t \<and> map_abs t = map_of entries"
proof -
  from map_key.from_iter_ok [of "map pair_entry entries"] obtain t where
    t: "from_iter map_ops (map pair_entry entries) = Some t" "tree_ok map_ops t" "to_list t = map pair_entry entries"
    by blast
  with assms show ?thesis
    by (auto simp: from_ordered_entries_def map_ok_def map_abs_def sorted_wrt_map comp_def)
qed

text \<open>What \<open>sort_unstable_by_key\<close> promises.\<close>

definition sorts_edits :: "(('k::linorder, 'v) map_edit list \<Rightarrow> ('k, 'v) map_edit list) \<Rightarrow> bool" where
  "sorts_edits sort_edits \<longleftrightarrow>
     (\<forall>es. mset (sort_edits es) = mset es \<and> sorted (map (edit_key map_key_of) (sort_edits es)))"

lemma sorts_edits_sort_key: "sorts_edits (sort_key (edit_key map_key_of))"
  by (simp add: sorts_edits_def)

lemma edit_inserts_ok:
  assumes "map_ok t" "map_fits t" "sorts_edits sort_edits" "distinct (map fst entries)"
  shows "\<exists>r t'. edit sort_edits map_ops map_key_dim map_key_of t (map (\<lambda>p. Insert (pair_entry p)) entries) = Some (r, t')
     \<and> map_ok t' \<and> map_abs t' = map_abs t ++ map_of entries"
proof -
  define es :: "('a, 'b) map_edit list" where "es = map (\<lambda>p. Insert (pair_entry p)) entries"
  have t: "tree_ok map_ops t" "node_height t < STACK_CAP" "map_key.sorted_keys (to_list t)"
    using map_okD [OF assms(1)] assms(2) by (simp_all add: map_fits_def)
  have perm: "mset (sort_edits es) = mset es" "sorted (map (edit_key map_key_of) (sort_edits es))"
    and nil: "sort_edits [] = []"
    using assms(3) by (simp_all add: sorts_edits_def flip: mset_zero_iff)
  have keys: "map (edit_key map_key_of) es = map Some (map fst entries)"
    by (simp add: es_def map_key_of_def comp_def)
  have "distinct (map (edit_key map_key_of) es)" unfolding keys by (subst distinct_map) (simp add: assms(4))
  then have "distinct (map (edit_key map_key_of) (sort_edits es))"
    using perm(1) by (metis mset_eq_imp_distinct_iff mset_map)
  with perm(2) have "sorted_wrt (<) (map (edit_key map_key_of) (sort_edits es))" by (simp add: strict_sorted_iff)
  then have strict: "sorted_wrt (\<lambda>a b. edit_key map_key_of a < edit_key map_key_of b) (sort_edits es)"
    by (simp add: sorted_wrt_map)
  have set: "set (sort_edits es) = set es" using perm(1) by (metis set_mset_mset)
  from map_key.edit_ok [OF t, of sort_edits es] nil obtain t' where
    t': "edit sort_edits map_ops map_key_dim map_key_of t es = Some (map_key.removed_list (sort_edits es) (to_list t), t')"
      "tree_ok map_ops t'" "to_list t' = map_key.edit_list (sort_edits es) (to_list t)"
    by blast
  note spec = map_key.edit_list_spec [OF strict t(3), folded t'(3)]
  have ok: "map_ok t'" using t'(2) spec by (simp add: map_ok_def)
  have ins: "Insert y \<in> set es \<longleftrightarrow> map_of entries (me_key y) = Some (me_value y)" for y
    using assms(4) by (cases y) (force simp: es_def image_iff)
  have ks: "map_key_of y \<in> edit_key map_key_of ` set es \<longleftrightarrow> map_of entries (me_key y) \<noteq> None" for y :: "('a, 'b) map_entry"
  proof -
    have "edit_key map_key_of ` set es = set (map Some (map fst entries))" by (simp only: flip: keys list.set_map)
    then show ?thesis by (auto simp: map_key_of_def map_of_eq_None_iff)
  qed
  have "map_abs t' = map_abs t ++ map_of entries"
    using ok spec ins ks
    by (intro map_abs_eqI) (auto simp: set map_add_Some_iff map_abs_iff [OF assms(1)])
  with t'(1) ok show ?thesis unfolding es_def by blast
qed

lemma map_extend_ok:
  assumes "map_ok t" "map_fits t" "sorts_edits sort_edits" "distinct (map fst entries)"
  shows "\<exists>t'. map_extend sort_edits t entries = Some t' \<and> map_ok t' \<and> map_abs t' = map_abs t ++ map_of entries"
  using edit_inserts_ok [OF assms] by (auto simp: map_extend_def)

lemma insert_tree_ok:
  assumes "map_ok t" "map_fits t" "sorts_edits sort_edits" "map_ok u" "map_fits u"
  shows "\<exists>t'. insert_tree sort_edits t u = Some t' \<and> map_ok t' \<and> map_abs t' = map_abs t ++ map_abs u"
proof -
  have "sorted_wrt (<) (map fst (map entry_pair (to_list u)))"
    using map_okD(2) [OF assms(4)] by (simp add: sorted_wrt_map comp_def)
  then have "distinct (map fst (map entry_pair (to_list u)))" by (simp add: strict_sorted_iff)
  from edit_inserts_ok [OF assms(1-3) this] map_iter_ok(1) [OF assms(4,5)] show ?thesis
    by (auto simp: insert_tree_def map_abs_def)
qed

section \<open>The contract of a map\<close>

text \<open>
  What a client of the map may rely on. \<open>fits\<close> is the capacity under which the operations do not
  panic; the invariant alone survives every operation.
\<close>

locale map_contract =
  fixes inv :: "'m \<Rightarrow> bool" and fits :: "'m \<Rightarrow> bool" and abs :: "'m \<Rightarrow> 'k \<rightharpoonup> 'v"
    and empty :: 'm and lookup :: "'m \<Rightarrow> 'k \<Rightarrow> 'v option"
    and ins :: "'m \<Rightarrow> 'k \<Rightarrow> 'v \<Rightarrow> ('v option \<times> 'm) option"
    and del :: "'m \<Rightarrow> 'k \<Rightarrow> ('v option \<times> 'm) option"
  assumes empty_ok: "inv empty" "abs empty = Map.empty"
    and lookup_ok: "inv m \<Longrightarrow> lookup m k = abs m k"
    and ins_ok: "inv m \<Longrightarrow> fits m \<Longrightarrow> \<exists>m'. ins m k v = Some (abs m k, m') \<and> inv m' \<and> abs m' = (abs m)(k \<mapsto> v)"
    and del_ok: "inv m \<Longrightarrow> fits m \<Longrightarrow> \<exists>m'. del m k = Some (abs m k, m') \<and> inv m' \<and> abs m' = (abs m)(k := None)"
begin

lemma lookup_ins:
  assumes "inv m" "fits m"
  shows "\<exists>m'. ins m k v = Some (lookup m k, m') \<and> inv m' \<and> (\<forall>j. lookup m' j = (if j = k then Some v else lookup m j))"
  using ins_ok [OF assms, of k v] lookup_ok assms(1) by auto

lemma lookup_del:
  assumes "inv m" "fits m"
  shows "\<exists>m'. del m k = Some (lookup m k, m') \<and> inv m' \<and> (\<forall>j. lookup m' j = (if j = k then None else lookup m j))"
  using del_ok [OF assms, of k] lookup_ok assms(1) by auto

text \<open>Inserting and removing the same new key leaves every lookup as it was.\<close>

lemma ins_then_del:
  assumes "inv m" "fits m" "lookup m k = None" "ins m k v = Some (r, m1)" "fits m1"
  shows "\<exists>m2. del m1 k = Some (Some v, m2) \<and> inv m2 \<and> (\<forall>j. lookup m2 j = lookup m j)"
proof -
  from lookup_ins [OF assms(1,2), of k v] assms(4) have
    m1: "inv m1" "\<forall>j. lookup m1 j = (if j = k then Some v else lookup m j)" by auto
  from lookup_del [OF m1(1) assms(5), of k] m1(2) assms(3) show ?thesis by auto
qed

text \<open>A run of insertions (\<open>Some\<close> value) and removals (\<open>None\<close>), panicking with the first of them.\<close>

fun run_ops :: "'m \<Rightarrow> ('k \<times> 'v option) list \<Rightarrow> 'm option" where
  "run_ops m [] = Some m"
| "run_ops m ((k, Some v) # rs) = (case ins m k v of Some (_, m') \<Rightarrow> run_ops m' rs | None \<Rightarrow> None)"
| "run_ops m ((k, None) # rs) = (case del m k of Some (_, m') \<Rightarrow> run_ops m' rs | None \<Rightarrow> None)"

text \<open>Every intermediate map of the run fits.\<close>

fun run_fits :: "'m \<Rightarrow> ('k \<times> 'v option) list \<Rightarrow> bool" where
  "run_fits m [] = True"
| "run_fits m ((k, Some v) # rs) = (fits m \<and> (case ins m k v of Some (_, m') \<Rightarrow> run_fits m' rs | None \<Rightarrow> True))"
| "run_fits m ((k, None) # rs) = (fits m \<and> (case del m k of Some (_, m') \<Rightarrow> run_fits m' rs | None \<Rightarrow> True))"

lemma run_ops_ok:
  assumes "inv m" "run_fits m rs"
  shows "\<exists>m'. run_ops m rs = Some m' \<and> inv m' \<and> (\<forall>j. lookup m' j = fold (\<lambda>(k, r) f. f(k := r)) rs (abs m) j)"
  using assms
proof (induction m rs rule: run_ops.induct)
  case (2 m k v rs)
  then have "fits m" by simp
  from ins_ok [OF 2(2) this] obtain m' where
    "ins m k v = Some (abs m k, m')" "inv m'" "abs m' = (abs m)(k \<mapsto> v)" by blast
  with 2(1) [of _ "abs m k" m'] 2(3) show ?case by (simp del: fun_upd_apply)
next
  case (3 m k rs)
  then have "fits m" by simp
  from del_ok [OF 3(2) this] obtain m' where
    "del m k = Some (abs m k, m')" "inv m'" "abs m' = (abs m)(k := None)" by blast
  with 3(1) [of _ "abs m k" m'] 3(3) show ?case by (simp del: fun_upd_apply)
qed (simp add: lookup_ok)

end

interpretation tree_map: map_contract map_ok map_fits map_abs map_new map_get map_insert_or_replace map_remove
  by unfold_locales (simp_all add: map_get_ok map_insert_or_replace_ok map_remove_ok)

section \<open>The set over the contract\<close>

definition set_abs :: "'k::linorder tree_set \<Rightarrow> 'k set" where
  "set_abs t = dom (map_abs t)"

lemma set_contains_ok: "map_ok t \<Longrightarrow> set_contains t k \<longleftrightarrow> k \<in> set_abs t"
  by (auto simp: set_contains_def set_abs_def tree_map.lookup_ok)

lemma set_insert_ok:
  assumes "map_ok t" "map_fits t"
  shows "\<exists>t'. set_insert t k = Some t' \<and> map_ok t' \<and> set_abs t' = insert k (set_abs t)"
  using tree_map.ins_ok [OF assms, of k "()"] by (auto simp: set_insert_def map_insert_eq set_abs_def)

lemma set_remove_ok:
  assumes "map_ok t" "map_fits t"
  shows "\<exists>t'. set_remove t k = Some (k \<in> set_abs t, t') \<and> map_ok t' \<and> set_abs t' = set_abs t - {k}"
  using tree_map.del_ok [OF assms, of k] by (auto simp: set_remove_def set_abs_def)

lemma set_extend_ok:
  assumes "map_ok t" "map_fits t" "sorts_edits sort_edits" "distinct ks"
  shows "\<exists>t'. set_extend sort_edits t ks = Some t' \<and> map_ok t' \<and> set_abs t' = set_abs t \<union> set ks"
  using map_extend_ok [OF assms(1-3), of "map (\<lambda>k. (k, ())) ks"] assms(4)
  by (auto simp: set_extend_def set_abs_def comp_def image_image dom_map_of_conv_image_fst)

lemma unit_entry_id: "\<lparr>me_key = me_key x, me_value = ()\<rparr> = x"
  by (cases x) simp

lemma set_abs_eq: "map_ok t \<Longrightarrow> set_abs t = me_key ` set (to_list t)"
  by (force simp: set_abs_def map_abs_iff dom_def image_iff unit_entry_id)

lemma set_iter_ok:
  assumes "map_ok t" "map_fits t"
  shows "set_iter t = Some (map me_key (to_list t)) \<and> set (map me_key (to_list t)) = set_abs t
     \<and> sorted_wrt (<) (map me_key (to_list t))"
  using map_iter_ok(1) [OF assms] set_abs_eq [OF assms(1)] map_okD(2) [OF assms(1)]
  by (simp add: set_iter_def comp_def sorted_wrt_map)

end
