(* ===== verification/SumTree_Properties.thy ===== *)
theory SumTree_Properties
  imports TreeMap
begin

text \<open>
  The properties of \<open>crates/sum_tree\<close>. The sum tree is generic in its items and summaries: what the
  \<open>Summary\<close> and \<open>Dimension\<close> implementations owe the tree are the laws \<^const>\<open>summary_laws\<close>,
  \<^const>\<open>dimension_laws\<close> and \<^const>\<open>keyed_laws\<close>, which the map of \<open>tree_map.rs\<close> satisfies; the
  witnesses are maps.
\<close>

definition sample_map :: "(nat, nat) tree_map" where
  "sample_map = the (from_ordered_entries
     [(2, 1), (4, 2), (6, 3), (8, 4), (10, 5), (12, 6), (14, 7), 
      (16, 8), (18, 9), (20, 10), (22, 11), (24, 12), (26, 13), (28, 14), (30, 15)])"

definition sample_small :: "(nat, nat) tree_map" where
  "sample_small = the (from_ordered_entries [(3, 7), (4, 8), (40, 9)])"

lemma sample_list:
  "to_list sample_map = map pair_entry
     [(2, 1), (4, 2), (6, 3), (8, 4), (10, 5), (12, 6), (14, 7), 
      (16, 8), (18, 9), (20, 10), (22, 11), (24, 12), (26, 13), (28, 14), (30, 15)]"
  "to_list sample_small = [\<lparr>me_key = 3, me_value = 7\<rparr>, \<lparr>me_key = 4, me_value = 8\<rparr>, \<lparr>me_key = 40, me_value = 9\<rparr>]"
  by code_simp+

lemma sample_tree_ok: "tree_ok map_ops sample_map" "tree_ok map_ops sample_small"
  by code_simp+

lemma sample_wf: "wf_node map_ops sample_map"
  by code_simp

lemma sample_map_ok: "map_ok sample_map" "map_ok sample_small"
  by code_simp+

lemma sample_sorted: "map_key.sorted_keys (to_list sample_map)" "map_key.sorted_keys (to_list sample_small)"
  using sample_map_ok [THEN map_okD(2)] by simp_all

lemma sample_fits: "map_fits sample_map" "map_fits sample_small"
  "node_height sample_map < STACK_CAP" "node_height sample_small < STACK_CAP"
  by code_simp+

lemma entry_key: "map_key_of \<lparr>me_key = k, me_value = v\<rparr> = Some k"
  by (simp add: map_key_of_def)

lemma sample_skip: "map_key.skip_count (key_target (Some 7)) Left (d_zero map_key_dim) (to_list sample_map) = 3"
  using map_key.skip_count_key [OF sample_sorted(1), of 0 "Some 7"]
  by (simp add: map_key.below_def sample_list map_key_of_def map_key.advance_Nil)

lemmas sample_laws = map_key.summary_laws_axioms map_key.dimension_laws_axioms map_key.keyed_laws_axioms
  map_ref.dimension_laws_axioms

section \<open>Building, appending and updating\<close>

text \<open>
  C1: Appending two well-formed trees never panics, whatever their heights: the result is well formed
  (capacities, equal child heights, cached summaries) and holds the items of the first tree followed by
  those of the second.
\<close>

theorem append_concatenates:
  assumes "summary_laws ops" "tree_ok ops self" "tree_ok ops other"
  shows "\<exists>t. append_tree ops self other = Some t \<and> tree_ok ops t \<and> to_list t = to_list self @ to_list other"
  using summary_laws.append_tree_ok [OF assms] .

theorem append_concatenates_witness:
  "\<exists>t. append_tree map_ops sample_small sample_map = Some t \<and> tree_ok map_ops t
     \<and> to_list t = to_list sample_small @ to_list sample_map"
  by (rule append_concatenates [OF sample_laws(1) sample_tree_ok(2,1)])

text \<open>
  \<open>from_iter\<close> builds a well-formed tree of exactly the given items, and \<open>from_par_iter\<close> builds the very
  same tree when the parallel iterator hands out the same chunks.
\<close>

theorem from_iter_builds:
  assumes "summary_laws ops" "\<And>ns. node_chunks ns = chunks ns" "item_chunks xs = chunks xs"
  shows "\<exists>t. from_iter ops xs = Some t \<and> from_par_iter item_chunks node_chunks ops xs = Some t
     \<and> tree_ok ops t \<and> to_list t = xs"
  using summary_laws.from_iter_ok [OF assms(1), of xs] summary_laws.from_par_iter_eq [of ops node_chunks item_chunks xs] assms by auto

theorem from_iter_builds_witness:
  "\<exists>t. from_iter map_ops (to_list sample_map) = Some t
     \<and> from_par_iter chunks chunks map_ops (to_list sample_map) = Some t
     \<and> tree_ok map_ops t \<and> to_list t = to_list sample_map"
  by (rule from_iter_builds [OF sample_laws(1)]) simp_all

text \<open>
  \<open>extend\<close> and \<open>push\<close> add their items at the end and keep the tree well formed.
\<close>

theorem extend_and_push:
  assumes "summary_laws ops" "tree_ok ops t"
  shows "\<exists>t1 t2. tree_extend ops t xs = Some t1 \<and> push ops t1 x = Some t2
     \<and> tree_ok ops t1 \<and> to_list t1 = to_list t @ xs \<and> tree_ok ops t2 \<and> to_list t2 = to_list t @ xs @ [x]"
proof -
  obtain t1 where t1: "tree_extend ops t xs = Some t1" "tree_ok ops t1" "to_list t1 = to_list t @ xs"
    using summary_laws.tree_extend_ok [OF assms] by blast
  with summary_laws.push_ok [OF assms(1) t1(2), of x] show ?thesis by auto
qed

theorem extend_and_push_witness:
  "\<exists>t1 t2. tree_extend map_ops sample_small [pair_entry (41, 1)] = Some t1 \<and> push map_ops t1 (pair_entry (42, 2)) = Some t2
     \<and> tree_ok map_ops t1 \<and> to_list t1 = to_list sample_small @ [pair_entry (41, 1)]
     \<and> tree_ok map_ops t2 \<and> to_list t2 = to_list sample_small @ [pair_entry (41, 1)] @ [pair_entry (42, 2)]"
  by (rule extend_and_push [OF sample_laws(1) sample_tree_ok(2)])

text \<open>
  \<open>update_last\<close> and \<open>update_first\<close> change the last and the first item in place, refresh every cached
  summary on the way and keep the height; on the empty tree they do nothing.
\<close>

theorem update_ends:
  assumes "summary_laws ops" "tree_ok ops t"
  shows "\<exists>t1 t2. update_last ops f t = Some t1 \<and> update_first ops f t = Some t2
     \<and> tree_ok ops t1 \<and> node_height t1 = node_height t
     \<and> to_list t1 = (if to_list t = [] then [] else butlast (to_list t) @ [f (last (to_list t))])
     \<and> tree_ok ops t2 \<and> node_height t2 = node_height t
     \<and> to_list t2 = (if to_list t = [] then [] else f (hd (to_list t)) # tl (to_list t))"
  using summary_laws.update_last_ok [OF assms, of f] summary_laws.update_first_ok [OF assms, of f] by auto

theorem update_ends_witness:
  "\<exists>t1 t2. update_last map_ops (me_value_update Suc) sample_small = Some t1
     \<and> update_first map_ops (me_value_update Suc) sample_small = Some t2
     \<and> map me_value (to_list t1) = [7, 8, 10] \<and> map me_value (to_list t2) = [8, 8, 9]"
  using update_ends [OF sample_laws(1) sample_tree_ok(2), of "me_value_update Suc"] by (auto simp: sample_list)

section \<open>Finding and seeking\<close>

text \<open>
  \<open>find\<close> agrees with a linear scan: it skips the longest prefix of items whose ends the target lies
  beyond (for \<open>Bias::Left\<close>, strictly beyond) and returns the next item with the dimension before and after it.
\<close>

theorem find_is_linear_scan:
  assumes "dimension_laws ops dim" "wf_node ops t"
    and "mono_target target (dimension_laws.ends ops dim (d_zero dim) (to_list t))"
  shows "find dim t target bias =
    (let n = dimension_laws.skip_count ops dim target bias (d_zero dim) (to_list t); xs = to_list t;
         at = dimension_laws.advance ops dim (d_zero dim) in
     if n < length xs then (at (take n xs), at (take (Suc n) xs), Some (xs ! n)) else (at xs, at xs, None))"
  using dimension_laws.find_ok [OF assms, of bias] by (simp add: Let_def)

theorem find_is_linear_scan_witness:
  "find map_key_dim sample_map (key_target (Some 7)) Left = (Some 6, Some 8, Some \<lparr>me_key = 8, me_value = 4\<rparr>)
   \<and> (let n = map_key.skip_count (key_target (Some 7)) Left (d_zero map_key_dim) (to_list sample_map);
          xs = to_list sample_map; at = map_key.advance (d_zero map_key_dim) in
      if n < length xs then (at (take n xs), at (take (Suc n) xs), Some (xs ! n)) else (at xs, at xs, None))
     = (Some 6, Some 8, Some \<lparr>me_key = 8, me_value = 4\<rparr>)"
proof -
  have "find map_key_dim sample_map (key_target (Some 7)) Left = (Some 6, Some 8, Some \<lparr>me_key = 8, me_value = 4\<rparr>)"
    by code_simp
  with find_is_linear_scan [OF sample_laws(2) sample_wf map_key.mono_key [OF sample_sorted(1)], of "Some 7" Left]
  show ?thesis by simp
qed



text \<open>
  C11: \<open>slice\<close> up to a target followed by \<open>suffix\<close> splits the tree: both parts are well-formed trees, the
  first has the items before the position of the target and the second the rest; \<open>summary\<close> up to the same
  target is the dimension of the first part.
\<close>

theorem slice_suffix_partition:
  assumes "dimension_laws ops dim" "dimension_laws ops odim" "tree_ok ops t" "node_height t < STACK_CAP"
    and "mono_target target (dimension_laws.ends ops dim (d_zero dim) (to_list t))" "target (d_zero dim) \<noteq> Less"
    and "k = dimension_laws.skip_count ops dim target bias (d_zero dim) (to_list t)"
  shows "\<exists>l c r c' c''. slice ops dim (cursor_new dim t) target bias = Some (l, c) \<and> suffix ops dim c = Some (r, c')
     \<and> tree_ok ops l \<and> to_list l = take k (to_list t) \<and> tree_ok ops r \<and> to_list r = drop k (to_list t)
     \<and> cursor_summary odim dim (cursor_new dim t) target bias
         = Some (dimension_laws.advance ops odim (d_zero odim) (to_list l), c'')"
proof -
  have new: "dimension_laws.cursor_ok ops dim t (cursor_new dim t) 0"
    by (rule dimension_laws.cursor_new_ok [OF assms(1,3,4)])
  have pos: "target (c_position (cursor_new dim t)) \<noteq> Less" using assms(6) by (simp add: cursor_new_def)
  have k: "dimension_laws.seek_index ops dim target bias t 0 = k"
    using assms(7) by (simp add: dimension_laws.seek_index_def [OF assms(1)] dimension_laws.advance_Nil [OF assms(1)])
  obtain l c where l: "slice ops dim (cursor_new dim t) target bias = Some (l, c)" "tree_ok ops l"
    "to_list l = take k (to_list t)" "dimension_laws.cursor_ok ops dim t c k"
    using dimension_laws.slice_ok [OF assms(1) new assms(5) pos, of bias] unfolding k by auto
  with dimension_laws.suffix_ok [OF assms(1) l(4)]
    dimension_laws.cursor_summary_ok [OF assms(1,2) new assms(5) pos, of bias]
  show ?thesis unfolding k by auto
qed

theorem slice_suffix_partition_witness:
  "\<exists>l c r c' c''. slice map_ops map_key_dim (cursor_new map_key_dim sample_map) (key_target (Some 7)) Left = Some (l, c)
     \<and> suffix map_ops map_key_dim c = Some (r, c') \<and> tree_ok map_ops l \<and> to_list l = take 3 (to_list sample_map)
     \<and> tree_ok map_ops r \<and> to_list r = drop 3 (to_list sample_map)
     \<and> cursor_summary map_key_dim map_key_dim (cursor_new map_key_dim sample_map) (key_target (Some 7)) Left
         = Some (map_key.advance (d_zero map_key_dim) (to_list l), c'')"
  by (rule slice_suffix_partition [OF sample_laws(2) sample_laws(2) sample_tree_ok(1) sample_fits(3)
        map_key.mono_key [OF sample_sorted(1)] map_key.key_not_before_zero sample_skip [symmetric]])

section \<open>Traversal\<close>

text \<open>
  C19: A \<open>FilterCursor\<close> visits exactly the items whose summary passes the filter, in order, provided the
  filter never rejects the summary of a subtree that has such an item.
\<close>

theorem filter_cursor_is_filter:
  assumes "dimension_laws ops dim" "tree_ok ops t" "node_height t < STACK_CAP" "summary_laws.filter_sound ops F"
  shows "filter_collect dim F (cursor_new dim t) [] = Some (filter (\<lambda>x. F (s_item ops x)) (to_list t))"
proof -
  have "\<not> c_did_seek (cursor_new dim t)" by (simp add: cursor_new_def)
  from dimension_laws.filter_cursor_collect [OF assms(1) dimension_laws.cursor_new_ok [OF assms(1-3)] assms(4) this]
  show ?thesis
    using summary_laws.accepts_def [OF dimension_laws.axioms(1) [OF assms(1)]] by (simp cong: filter_cong)
qed

theorem filter_cursor_is_filter_witness:
  "filter_collect map_key_dim (\<lambda>s. s \<noteq> None) (cursor_new map_key_dim sample_map) []
     = Some (filter (\<lambda>x. s_item map_ops x \<noteq> None) (to_list sample_map))"
proof -
  have "summary_laws.filter_sound (map_ops :: ((nat, nat) map_entry, nat option) summary_ops) (\<lambda>s. s \<noteq> None)"
    unfolding map_key.filter_sound_def
  proof (intro allI impI)
    fix xs :: "(nat, nat) map_entry list"
    assume "\<exists>x \<in> set xs. map_key.accepts (\<lambda>s. s \<noteq> None) x"
    then show "map_key.lsum xs \<noteq> None"
      unfolding map_key.lsum_def sum_summaries_def
      by (cases xs rule: rev_cases) (auto simp: map_ops_def map_key_of_def)
  qed
  from filter_cursor_is_filter [OF sample_laws(2) sample_tree_ok(1) sample_fits(3) this] show ?thesis .
qed

text \<open>
  From a cursor on an item, \<open>next\<close> followed by \<open>prev\<close> comes back to the same item and the same start.
\<close>

theorem next_then_prev:
  assumes "dimension_laws ops dim" "dimension_laws.cursor_ok ops dim t c n" "c_did_seek c" "n < length (to_list t)"
  shows "\<exists>c1 c2. cursor_next dim c = Some c1 \<and> cursor_prev dim c1 = Some c2
     \<and> cursor_item c2 = cursor_item c \<and> cursor_start c2 = cursor_start c \<and> dimension_laws.cursor_ok ops dim t c2 n"
proof -
  obtain c1 where c1: "cursor_next dim c = Some c1" "c_did_seek c1" "dimension_laws.cursor_ok ops dim t c1 (Suc n)"
    using dimension_laws.cursor_next_ok [OF assms(1,2)] assms(3,4) by (auto simp: min.absorb2 Suc_leI)
  obtain c2 where c2: "cursor_prev dim c1 = Some c2" "c_did_seek c2" "dimension_laws.cursor_ok ops dim t c2 n"
    using dimension_laws.cursor_prev_ok [OF assms(1) c1(3) _ refl] c1(2) assms(4) by (cases "to_list t = []") auto
  show ?thesis
    using c1 c2 dimension_laws.cursor_item_ok(1) [OF assms(1,2,3)] dimension_laws.cursor_item_ok(1) [OF assms(1) c2(3,2)]
      dimension_laws.cursor_ok_position [OF assms(1,2)] dimension_laws.cursor_ok_position [OF assms(1) c2(3)]
    by (auto simp: cursor_start_def)
qed

theorem next_then_prev_witness:
  "\<exists>c c1 c2. cursor_next map_key_dim (cursor_new map_key_dim sample_map) = Some c \<and> cursor_next map_key_dim c = Some c1
     \<and> cursor_prev map_key_dim c1 = Some c2 \<and> cursor_item c2 = cursor_item c \<and> cursor_start c2 = cursor_start c
     \<and> map_key.cursor_ok sample_map c2 0"
proof -
  have new: "map_key.cursor_ok sample_map (cursor_new map_key_dim sample_map) 0"
    by (rule map_key.cursor_new_ok [OF sample_tree_ok(1) sample_fits(3)])
  obtain c where c: "cursor_next map_key_dim (cursor_new map_key_dim sample_map) = Some c" "c_did_seek c"
    "map_key.cursor_ok sample_map c 0"
    using map_key.cursor_next_ok [OF new] by (auto simp: cursor_new_def)
  with next_then_prev [OF sample_laws(2) c(3,2)] show ?thesis by (simp add: sample_list)
qed

text \<open>
  \<open>iter\<close> and \<open>items\<close> produce the sequence of the tree, and \<open>==\<close> of two trees is equality of their
  sequences, whatever their shapes.
\<close>

theorem iteration_and_equality:
  assumes "summary_laws ops" "tree_ok ops a" "node_height a < STACK_CAP" "tree_ok ops b" "node_height b < STACK_CAP"
  shows "tree_iter a = Some (to_list a) \<and> tree_items a = Some (to_list a) \<and> tree_eq a b = Some (to_list a = to_list b)"
  using summary_laws.tree_iter_ok [OF assms(1-3)] summary_laws.tree_items_ok [OF assms(1-3)]
    summary_laws.tree_eq_ok [OF assms] by simp

theorem iteration_and_equality_witness:
  "tree_iter sample_map = Some (to_list sample_map) \<and> tree_items sample_map = Some (to_list sample_map)
     \<and> tree_eq sample_map sample_small = Some (to_list sample_map = to_list sample_small)"
  by (rule iteration_and_equality [OF sample_laws(1) sample_tree_ok(1) sample_fits(3) sample_tree_ok(2) sample_fits(4)])

section \<open>Keyed trees and maps\<close>

text \<open>
  \<open>insert_or_replace\<close>, \<open>remove\<close> and \<open>get\<close> on a tree with strictly ascending keys: the item of the
  key is replaced, removed or returned, every other item stays, and the previous item is handed back.
\<close>

theorem keyed_operations:
  assumes "keyed_laws ops dim key_of" "tree_ok ops t" "node_height t < STACK_CAP"
    and "sorted_wrt (\<lambda>x y. key_of x < key_of y) (to_list t)"
  shows "(\<exists>t'. insert_or_replace ops dim key_of t x = Some (List.find (\<lambda>y. key_of y = key_of x) (to_list t), t') \<and> tree_ok ops t'
       \<and> to_list t' = filter (\<lambda>y. key_of y < key_of x) (to_list t) @ [x] @ filter (\<lambda>y. key_of x < key_of y) (to_list t))
     \<and> (\<exists>t'. remove ops dim key_of t k = Some (List.find (\<lambda>y. key_of y = k) (to_list t), t') \<and> tree_ok ops t'
       \<and> to_list t' = filter (\<lambda>y. key_of y \<noteq> k) (to_list t))
     \<and> get dim t k = List.find (\<lambda>y. key_of y = k) (to_list t)"
proof -
  have s: "keyed_laws.sorted_keys key_of (to_list t)"
    using assms(4) by (simp add: keyed_laws.sorted_keys_def [OF assms(1)])
  show ?thesis
    using keyed_laws.insert_or_replace_ok [OF assms(1-3) s, of x] keyed_laws.remove_ok [OF assms(1-3) s, of k]
      keyed_laws.get_ok [OF assms(1,2) s, of k] by simp
qed

theorem keyed_operations_witness:
  "(\<exists>t'. insert_or_replace map_ops map_key_dim map_key_of sample_small (pair_entry (4, 1)) = Some (Some (pair_entry (4, 8)), t')
       \<and> to_list t' = map pair_entry [(3, 7), (4, 1), (40, 9)])
     \<and> (\<exists>t'. remove map_ops map_key_dim map_key_of sample_small (Some 3) = Some (Some (pair_entry (3, 7)), t')
       \<and> to_list t' = map pair_entry [(4, 8), (40, 9)])
     \<and> get map_key_dim sample_small (Some 3) = Some (pair_entry (3, 7))"
proof -
  have "sorted_wrt (\<lambda>x y. map_key_of x < map_key_of y) (to_list sample_small)" by (simp add: sample_list entry_key)
  from keyed_operations [OF sample_laws(3) sample_tree_ok(2) sample_fits(4) this, of "pair_entry (4, 1)" "Some 3"]
  show ?thesis by (auto simp: sample_list entry_key)
qed

text \<open>
  C18: \<open>edit\<close> with edits of distinct keys: the result has every inserted item, every old item whose key is
  not edited and nothing else, in key order; the removed items are the old items of the edited keys.
\<close>

theorem edit_applies_edits:
  assumes "keyed_laws ops dim key_of" "tree_ok ops t" "node_height t < STACK_CAP"
    and "sorted_wrt (\<lambda>x y. key_of x < key_of y) (to_list t)"
    and "sort_edits [] = []" "set (sort_edits es) = set es"
    and "sorted_wrt (\<lambda>a b. edit_key key_of a < edit_key key_of b) (sort_edits es)"
  shows "\<exists>t'. edit sort_edits ops dim key_of t es = Some (filter (\<lambda>y. key_of y \<in> edit_key key_of ` set es) (to_list t), t')
     \<and> tree_ok ops t' \<and> sorted_wrt (\<lambda>x y. key_of x < key_of y) (to_list t')
     \<and> set (to_list t') = {y \<in> set (to_list t). key_of y \<notin> edit_key key_of ` set es} \<union> {y. Insert y \<in> set es}"
proof -
  have s: "keyed_laws.sorted_keys key_of (to_list t)"
    using assms(4) by (simp add: keyed_laws.sorted_keys_def [OF assms(1)])
  show ?thesis
    using keyed_laws.edit_ok [of ops dim key_of t sort_edits es] assms(1-3,5) s keyed_laws.edit_list_spec [OF assms(1,7) s] assms(6)
    by (auto simp: keyed_laws.sorted_keys_def [OF assms(1)])
qed

theorem edit_applies_edits_witness:
  "\<exists>t'. edit (sort_key (edit_key map_key_of)) map_ops map_key_dim map_key_of sample_small [Insert (pair_entry (9, 9)), Remove (Some 4)]
       = Some ([pair_entry (4, 8)], t')
     \<and> tree_ok map_ops t' \<and> set (to_list t') = {pair_entry (3, 7), pair_entry (9, 9), pair_entry (40, 9)}"
proof -
  let ?es = "[Insert (pair_entry (9, 9 :: nat)), Remove (Some (4 :: nat))]"
  have sorted: "sorted_wrt (\<lambda>x y. map_key_of x < map_key_of y) (to_list sample_small)"
    by (simp add: sample_list entry_key)
  have sort: "sort_key (edit_key map_key_of) ?es = [Remove (Some 4), Insert (pair_entry (9, 9))]"
    by (simp add: entry_key)
  have "{y \<in> set (to_list sample_small). map_key_of y \<notin> edit_key map_key_of ` set ?es} \<union> {y. Insert y \<in> set ?es}
      = {pair_entry (3, 7), pair_entry (9, 9), pair_entry (40, 9)}"
    by (auto simp: sample_list entry_key)
  moreover have "filter (\<lambda>y. map_key_of y \<in> edit_key map_key_of ` set ?es) (to_list sample_small) = [pair_entry (4, 8)]"
    by (simp add: sample_list entry_key)
  moreover have "set (sort_key (edit_key map_key_of) ?es) = set ?es" by (rule set_sort)
  moreover have "sorted_wrt (\<lambda>a b. edit_key map_key_of a < edit_key map_key_of b) (sort_key (edit_key map_key_of) ?es)"
    unfolding sort by (simp add: entry_key)
  ultimately show ?thesis
    using edit_applies_edits [OF sample_laws(3) sample_tree_ok(2) sample_fits(4) sorted,
        of "sort_key (edit_key map_key_of)" ?es] by auto
qed

text \<open>
  C15: Any run of insertions and removals on a \<open>TreeMap\<close> whose trees fit the cursors' stack refines the
  same run on a finite map: no step panics, the keys stay strictly ascending, and every lookup answers as
  the abstract map does.
\<close>

theorem tree_map_refines_map:
  assumes "map_ok m" "tree_map.run_fits m rs"
  shows "\<exists>m'. tree_map.run_ops m rs = Some m' \<and> map_ok m'
     \<and> (\<forall>k. map_get m' k = fold (\<lambda>(k, r) f. f(k := r)) rs (map_abs m) k)"
  using tree_map.run_ops_ok [OF assms] .

theorem tree_map_refines_map_witness:
  "\<exists>m'. tree_map.run_ops sample_small [(4, Some 1), (3, None), (5, Some 2)] = Some m' \<and> map_ok m'
     \<and> map_get m' 4 = Some 1 \<and> map_get m' 3 = None \<and> map_get m' 5 = Some 2"
proof -
  have fit: "tree_map.run_fits sample_small [(4, Some 1), (3, None), (5, Some 2)]"
  proof -
    obtain a where a: "map_insert_or_replace sample_small 4 1 = Some a" "map_fits (snd a)" "map_remove (snd a) 3 \<noteq> None"
      "map_fits (snd (the (map_remove (snd a) 3)))"
      by (rule that [of "the (map_insert_or_replace sample_small 4 1)"]) code_simp+
    then show ?thesis using sample_fits(2) by (auto split: prod.splits option.splits)
  qed
  from tree_map_refines_map [OF sample_map_ok(2) fit] show ?thesis by force
qed

text \<open>
  \<open>remove_range\<close> between two targets removes exactly the entries from the first target up to the
  second, when the first does not lie beyond the second.
\<close>

theorem remove_range_removes:
  assumes "map_ok t" "map_fits t" "mono_cmp s" "mono_cmp e" "\<And>k. s k = Greater \<Longrightarrow> e k = Greater"
  shows "\<exists>t'. remove_range t s e = Some t' \<and> map_ok t' \<and> map_abs t' = map_abs t |` {k. s k = Greater \<or> e k \<noteq> Greater}"
  using remove_range_ok [OF assms(1-4)] assms(5) by blast

theorem remove_range_removes_witness:
  "\<exists>t'. remove_range sample_map (ord_cmp 5) (ord_cmp 9) = Some t' \<and> map_ok t' \<and> map_abs t' 4 = Some 2
     \<and> map_abs t' 6 = None \<and> map_abs t' 8 = None \<and> map_abs t' 10 = Some 5"
proof -
  have le: "ord_cmp (5 :: nat) k = Greater \<Longrightarrow> ord_cmp 9 k = Greater" for k by (auto simp: ord_cmp_def split: if_splits)
  have "map_abs sample_map 4 = Some 2" "map_abs sample_map 10 = Some 5" by (simp_all add: map_abs_def sample_list)
  with remove_range_removes [OF sample_map_ok(1) sample_fits(1) mono_cmp_ord [of 5] mono_cmp_ord [of 9]] le
  show ?thesis by (fastforce simp: ord_cmp_def restrict_map_def)
qed

text \<open>
  \<open>retain\<close> keeps exactly the entries the predicate accepts.
\<close>

theorem retain_filters:
  assumes "map_ok t" "map_fits t"
  shows "\<exists>t'. retain t p = Some t' \<and> map_ok t'
     \<and> map_abs t' = (\<lambda>k. case map_abs t k of Some v \<Rightarrow> if p k v then Some v else None | None \<Rightarrow> None)"
  using retain_ok [OF assms] .

theorem retain_filters_witness:
  "\<exists>t'. retain sample_map (\<lambda>k v. odd v) = Some t' \<and> map_ok t' \<and> map_abs t' 4 = None \<and> map_abs t' 6 = Some 3"
proof -
  have "map_abs sample_map 4 = Some 2" "map_abs sample_map 6 = Some 3" by (simp_all add: map_abs_def sample_list)
  with retain_filters [OF sample_map_ok(1) sample_fits(1), of "\<lambda>k v. odd v"] show ?thesis by auto
qed

text \<open>
  \<open>extend\<close> with pairwise distinct keys and \<open>insert_tree\<close> override the entries of the map.
\<close>

theorem extend_and_insert_tree:
  assumes "map_ok t" "map_fits t" "sorts_edits sort_edits" "distinct (map fst entries)" "map_ok u" "map_fits u"
  shows "(\<exists>t'. map_extend sort_edits t entries = Some t' \<and> map_ok t' \<and> map_abs t' = map_abs t ++ map_of entries)
     \<and> (\<exists>t'. insert_tree sort_edits t u = Some t' \<and> map_ok t' \<and> map_abs t' = map_abs t ++ map_abs u)"
  using map_extend_ok [OF assms(1-4)] insert_tree_ok [OF assms(1-3,5,6)] by blast

theorem extend_and_insert_tree_witness:
  "(\<exists>t'. map_extend (sort_key (edit_key map_key_of)) sample_map [(7, 1), (2, 5)] = Some t' \<and> map_ok t'
       \<and> map_abs t' = map_abs sample_map ++ map_of [(7, 1), (2, 5)])
     \<and> (\<exists>t'. insert_tree (sort_key (edit_key map_key_of)) sample_map sample_small = Some t' \<and> map_ok t'
       \<and> map_abs t' = map_abs sample_map ++ map_abs sample_small)"
  by (rule extend_and_insert_tree [OF sample_map_ok(1) sample_fits(1) sorts_edits_sort_key _ sample_map_ok(2) sample_fits(2)]) simp

text \<open>
  \<open>closest\<close> returns the entry of the greatest key at most the given one, and \<open>iter_from\<close> the entries
  from the given key on, in order.
\<close>

theorem closest_and_iter_from:
  assumes "map_ok t" "map_fits t"
  shows "closest t k = Some (map_option entry_pair (list_last (filter (\<lambda>e. me_key e \<le> k) (to_list t))))
     \<and> iter_from t k = Some (map entry_pair (filter (\<lambda>e. k \<le> me_key e) (to_list t)))"
  using closest_ok [OF assms] iter_from_ok [OF assms] by simp

theorem closest_and_iter_from_witness:
  "closest sample_small 39 = Some (Some (4, 8)) \<and> iter_from sample_small 4 = Some [(4, 8), (40, 9)]"
  using closest_and_iter_from [OF sample_map_ok(2) sample_fits(2), of 39] closest_and_iter_from [OF sample_map_ok(2) sample_fits(2), of 4]
  by (simp add: sample_list list_last_def)

text \<open>
  A \<open>TreeSet\<close> is a set: \<open>insert\<close>, \<open>remove\<close> and \<open>contains\<close> act on the set of its keys, and \<open>iter\<close>
  lists that set in strictly ascending order.
\<close>

theorem tree_set_is_set:
  assumes "map_ok t" "map_fits t"
  shows "(\<exists>t'. set_insert t k = Some t' \<and> map_ok t' \<and> set_abs t' = insert k (set_abs t))
     \<and> (\<exists>t'. set_remove t k = Some (k \<in> set_abs t, t') \<and> map_ok t' \<and> set_abs t' = set_abs t - {k})
     \<and> (set_contains t k \<longleftrightarrow> k \<in> set_abs t)
     \<and> (\<exists>ks. set_iter t = Some ks \<and> set ks = set_abs t \<and> sorted_wrt (<) ks)"
  using set_insert_ok [OF assms, of k] set_remove_ok [OF assms, of k] set_contains_ok [OF assms(1), of k] set_iter_ok [OF assms]
  by auto

theorem tree_set_is_set_witness:
  "(\<exists>t'. set_insert (map_new :: nat tree_set) 3 = Some t' \<and> map_ok t' \<and> set_abs t' = {3})"
  using tree_set_is_set [of "map_new :: nat tree_set" 3] by (simp add: set_abs_def)

end
