(* ===== verification/KeyContext.thy ===== *)
theory KeyContext
  imports Prelude
begin

text \<open>
  \<open>gpui/src/keymap/context.rs\<close>: key contexts and the predicate language over stacks of contexts,
  with its parser and printer.

  Strings are lists of ASCII characters, on which Rust's \<open>is_alphanumeric\<close> and \<open>is_whitespace\<close> are
  the predicates below. \<open>KeyContext::parse_expr\<close> calls itself on the rest of the source without a
  check that anything was consumed, so it is a partial function; the predicate parser is a family
  of functions on fuel, and the fuel \<open>parse\<close> takes is proved to be enough.
\<close>

section \<open>Characters\<close>

definition is_alphanumeric :: "char \<Rightarrow> bool" where
  "is_alphanumeric c \<longleftrightarrow>
     (let n = of_char c :: nat in (48 \<le> n \<and> n \<le> 57) \<or> (65 \<le> n \<and> n \<le> 90) \<or> (97 \<le> n \<and> n \<le> 122))"

definition is_whitespace :: "char \<Rightarrow> bool" where
  "is_whitespace c \<longleftrightarrow> (let n = of_char c :: nat in (9 \<le> n \<and> n \<le> 13) \<or> n = 32)"

definition is_identifier_char :: "char \<Rightarrow> bool" where
  "is_identifier_char c \<longleftrightarrow> is_alphanumeric c \<or> c = CHR ''_'' \<or> c = CHR ''-''"

definition is_vim_operator_char :: "char \<Rightarrow> bool" where
  "is_vim_operator_char c \<longleftrightarrow> c \<in> {CHR ''>'', CHR ''<'', CHR ''~'', CHR 0x22, CHR ''?''}"

definition skip_whitespace :: "string \<Rightarrow> string" where
  "skip_whitespace source = dropWhile is_whitespace source"

lemma identifier_not_whitespace: "is_identifier_char c \<Longrightarrow> \<not> is_whitespace c"
  by (auto simp: is_identifier_char_def is_alphanumeric_def is_whitespace_def Let_def)

lemma not_identifier_eq [simp]: "\<not> is_identifier_char CHR ''=''" "\<not> is_whitespace CHR ''=''"
  by code_simp+

lemma space_facts [simp]: "is_whitespace CHR '' ''" "\<not> is_identifier_char CHR '' ''"
  by code_simp+

lemma length_skip_whitespace [termination_simp]: "length (skip_whitespace s) \<le> length s"
  by (simp add: skip_whitespace_def length_dropWhile_le)

lemma skip_whitespace_Nil [simp]: "skip_whitespace [] = []"
  by (simp add: skip_whitespace_def)

section \<open>Key contexts\<close>

record context_entry =
  ce_key :: string
  ce_value :: "string option"

type_synonym key_context = "context_entry list"

definition ctx_contains :: "key_context \<Rightarrow> string \<Rightarrow> bool" where
  "ctx_contains ctx key \<longleftrightarrow> list_ex (\<lambda>entry. ce_key entry = key) ctx"

definition ctx_get :: "key_context \<Rightarrow> string \<Rightarrow> string option" where
  "ctx_get ctx key = List.find (\<lambda>entry. ce_key entry = key) ctx \<bind> ce_value"

definition ctx_add :: "key_context \<Rightarrow> string \<Rightarrow> key_context" where
  "ctx_add ctx key = (if \<not> ctx_contains ctx key then ctx @ [\<lparr>ce_key = key, ce_value = None\<rparr>] else ctx)"

definition ctx_set :: "key_context \<Rightarrow> string \<Rightarrow> string \<Rightarrow> key_context" where
  "ctx_set ctx key value =
     (if \<not> ctx_contains ctx key then ctx @ [\<lparr>ce_key = key, ce_value = Some value\<rparr>] else ctx)"

definition ctx_extend :: "key_context \<Rightarrow> key_context \<Rightarrow> key_context" where
  "ctx_extend ctx other =
     foldl (\<lambda>ctx entry. if \<not> ctx_contains ctx (ce_key entry) then ctx @ [entry] else ctx) ctx other"

definition ctx_is_empty :: "key_context \<Rightarrow> bool" where
  "ctx_is_empty ctx \<longleftrightarrow> ctx = []"

definition ctx_clear :: "key_context \<Rightarrow> key_context" where
  "ctx_clear ctx = []"

definition primary :: "key_context \<Rightarrow> context_entry option" where
  "primary ctx = List.find (\<lambda>p. ce_value p = None) ctx"

definition secondary :: "key_context \<Rightarrow> context_entry list" where
  "secondary ctx = filter (\<lambda>p. Some p \<noteq> primary ctx) ctx"

datatype operating_system = Mac | Linux | FreeBsd | Windows | Ios | Android | Unknown

definition new_with_defaults :: "operating_system \<Rightarrow> key_context" where
  "new_with_defaults os =
     ctx_set [] ''os''
       (case os of Mac \<Rightarrow> ''macos'' | Linux \<Rightarrow> ''linux'' | FreeBsd \<Rightarrow> ''linux'' | Windows \<Rightarrow> ''windows''
        | Ios \<Rightarrow> ''ios'' | Android \<Rightarrow> ''android'' | Unknown \<Rightarrow> ''unknown'')"

partial_function (option) ctx_parse_expr :: "string \<Rightarrow> key_context \<Rightarrow> key_context option" where
  "ctx_parse_expr source ctx =
     (if source = [] then Some ctx
      else
        let key = takeWhile is_identifier_char source;
            source = skip_whitespace (drop (length key) source)
        in case source of
             c # suffix \<Rightarrow>
               if c = CHR ''='' then
                 let source = skip_whitespace suffix;
                     value = takeWhile is_identifier_char source;
                     source = skip_whitespace (drop (length value) source)
                 in ctx_parse_expr source (ctx_set ctx key value)
               else ctx_parse_expr source (ctx_add ctx key)
           | [] \<Rightarrow> ctx_parse_expr source (ctx_add ctx key))"

declare ctx_parse_expr.simps [code]

definition ctx_parse :: "string \<Rightarrow> key_context option" where
  "ctx_parse source = ctx_parse_expr (skip_whitespace source) []"

text \<open>\<open>impl Debug for KeyContext\<close>.\<close>

definition entry_text :: "context_entry \<Rightarrow> string" where
  "entry_text entry = (case ce_value entry of
     Some value \<Rightarrow> ce_key entry @ ''='' @ value
   | None \<Rightarrow> ce_key entry)"

fun ctx_debug :: "key_context \<Rightarrow> string" where
  "ctx_debug [] = []"
| "ctx_debug (entry # entries) =
     entry_text entry @ (if entries \<noteq> [] then '' '' else '''') @ ctx_debug entries"

subsection \<open>Keys stay distinct\<close>

definition ctx_ok :: "key_context \<Rightarrow> bool" where
  "ctx_ok ctx \<longleftrightarrow> distinct (map ce_key ctx)"

lemma ctx_contains_iff: "ctx_contains ctx key \<longleftrightarrow> key \<in> ce_key ` set ctx"
  by (auto simp: ctx_contains_def list_ex_iff)

lemma ctx_add_ok: "ctx_ok ctx \<Longrightarrow> ctx_ok (ctx_add ctx key)"
  by (simp add: ctx_ok_def ctx_add_def ctx_contains_iff)

lemma ctx_set_ok: "ctx_ok ctx \<Longrightarrow> ctx_ok (ctx_set ctx key value)"
  by (simp add: ctx_ok_def ctx_set_def ctx_contains_iff)

lemma ctx_extend_Cons:
  "ctx_extend ctx (e # other) = ctx_extend (if ctx_contains ctx (ce_key e) then ctx else ctx @ [e]) other"
  by (simp add: ctx_extend_def)

lemma ctx_extend_ok: "ctx_ok ctx \<Longrightarrow> ctx_ok (ctx_extend ctx other)"
  by (induction other arbitrary: ctx) (auto simp: ctx_extend_Cons ctx_ok_def ctx_contains_iff, simp add: ctx_extend_def)

lemma new_with_defaults_ok: "ctx_ok (new_with_defaults os)"
  by (cases os) (simp_all add: new_with_defaults_def ctx_set_def ctx_ok_def ctx_contains_def)

text \<open>Lookups after an insertion: a key already there keeps its value.\<close>

lemma find_append_entry:
  "List.find P (xs @ ys) = (case List.find P xs of Some x \<Rightarrow> Some x | None \<Rightarrow> List.find P ys)"
  by (induction xs) auto

lemma ctx_find_None: "List.find (\<lambda>entry. ce_key entry = key) ctx = None \<longleftrightarrow> \<not> ctx_contains ctx key"
  by (auto simp: find_None_iff ctx_contains_iff)

lemma ctx_get_set:
  "ctx_get (ctx_set ctx key value) k =
     (if k = key \<and> \<not> ctx_contains ctx key then Some value else ctx_get ctx k)"
  using ctx_find_None [of key ctx]
  by (auto simp: ctx_set_def ctx_get_def find_append_entry split: option.splits)

lemma ctx_get_extend:
  "ctx_get (ctx_extend ctx other) k = (if ctx_contains ctx k then ctx_get ctx k else ctx_get other k)"
proof (induction other arbitrary: ctx)
  case Nil
  have "ctx_get ctx k = None" if "\<not> ctx_contains ctx k"
    using that ctx_find_None [of k ctx] by (simp add: ctx_get_def)
  then show ?case by (auto simp: ctx_extend_def ctx_get_def [of "[]"])
next
  case (Cons e other)
  have "ctx_contains (ctx @ [e]) k \<longleftrightarrow> ctx_contains ctx k \<or> ce_key e = k"
    by (auto simp: ctx_contains_def)
  moreover have "ctx_get (ctx @ [e]) k = (if ctx_contains ctx k then ctx_get ctx k else if ce_key e = k then ce_value e else None)"
    using ctx_find_None [of k ctx] by (auto simp: ctx_get_def find_append_entry split: option.splits)
  moreover have "ctx_get (e # other) k = (if ce_key e = k then ce_value e else ctx_get other k)"
    by (simp add: ctx_get_def)
  ultimately show ?case using Cons by (auto simp: ctx_extend_Cons ctx_contains_iff)
qed

subsection \<open>Parsing\<close>

text \<open>The characters on which every call consumes something.\<close>

definition ctx_char :: "char \<Rightarrow> bool" where
  "ctx_char c \<longleftrightarrow> is_identifier_char c \<or> is_whitespace c \<or> c = CHR ''=''"

lemma set_skip_whitespace: "\<forall>c \<in> set s. ctx_char c \<Longrightarrow> \<forall>c \<in> set (skip_whitespace s). ctx_char c"
  by (auto simp: skip_whitespace_def dest: set_dropWhileD)

lemma ctx_char_skip: "(\<forall>c \<in> set (skip_whitespace s). ctx_char c) \<longleftrightarrow> (\<forall>c \<in> set s. ctx_char c)"
proof -
  have "set s = set (takeWhile is_whitespace s) \<union> set (skip_whitespace s)"
    unfolding skip_whitespace_def by (metis set_append takeWhile_dropWhile_id)
  moreover have "\<forall>c \<in> set (takeWhile is_whitespace s). ctx_char c"
    by (auto simp: ctx_char_def dest: set_takeWhileD)
  ultimately show ?thesis by blast
qed

lemma ctx_char_rest:
  "(\<forall>c \<in> set (drop (length (takeWhile is_identifier_char s)) s). ctx_char c) \<longleftrightarrow> (\<forall>c \<in> set s. ctx_char c)"
proof -
  have "set s = set (takeWhile is_identifier_char s) \<union> set (drop (length (takeWhile is_identifier_char s)) s)"
    by (metis set_append takeWhile_dropWhile_id dropWhile_eq_drop)
  moreover have "\<forall>c \<in> set (takeWhile is_identifier_char s). ctx_char c"
    by (auto simp: ctx_char_def dest: set_takeWhileD)
  ultimately show ?thesis by blast
qed

lemma ctx_parse_only_chars:
  assumes "ctx_parse_expr source ctx = Some r"
  shows "\<forall>c \<in> set source. ctx_char c"
  using assms
proof (rule ctx_parse_expr.raw_induct [rotated], goal_cases)
  case (1 f source ctx r)
  define rest where "rest = skip_whitespace (drop (length (takeWhile is_identifier_char source)) source)"
  have eq: "(\<forall>c \<in> set source. ctx_char c) \<longleftrightarrow> (\<forall>c \<in> set rest. ctx_char c)"
    by (simp add: rest_def ctx_char_skip ctx_char_rest)
  show ?case
  proof (cases rest)
    case Nil
    then show ?thesis using eq by simp
  next
    case (Cons c suffix)
    show ?thesis
    proof (cases "source = []")
      case False
      then show ?thesis
      proof (cases "c = CHR ''=''")
        case True
        with False 1 Cons obtain ctx' where
          "f (skip_whitespace (drop (length (takeWhile is_identifier_char (skip_whitespace suffix))) (skip_whitespace suffix))) ctx' = Some r"
          by (auto simp: Let_def rest_def)
        from 1(1) [OF this] have "\<forall>c \<in> set suffix. ctx_char c"
          by (simp add: ctx_char_skip ctx_char_rest)
        with eq Cons True show ?thesis by (simp add: ctx_char_def)
      next
        case neq: False
        with False 1(2) Cons obtain ctx' where "f rest ctx' = Some r" by (auto simp: Let_def rest_def)
        from 1(1) [OF this] eq show ?thesis by simp
      qed
    qed simp
  qed
qed

lemma length_rest:
  assumes "s \<noteq> []" "\<forall>c \<in> set s. ctx_char c" "hd s \<noteq> CHR ''=''"
  shows "length (skip_whitespace (drop (length (takeWhile is_identifier_char s)) s)) < length s"
proof -
  obtain c cs where s: "s = c # cs" using assms(1) by (cases s) auto
  show ?thesis
  proof (cases "is_identifier_char c")
    case True
    then show ?thesis
      using length_skip_whitespace [of "drop (length (takeWhile is_identifier_char cs)) cs"] by (simp add: s)
  next
    case False
    with assms s have "is_whitespace c" by (simp add: ctx_char_def)
    with False show ?thesis
      using length_dropWhile_le [of is_whitespace cs] by (simp add: s skip_whitespace_def)
  qed
qed

lemma ctx_parse_total:
  assumes "\<forall>c \<in> set s. ctx_char c" "ctx_ok ctx"
  shows "\<exists>r. ctx_parse_expr s ctx = Some r \<and> ctx_ok r"
  using assms
proof (induction "length s" arbitrary: s ctx rule: less_induct)
  case less
  define key where "key = takeWhile is_identifier_char s"
  define rest where "rest = skip_whitespace (drop (length key) s)"
  have chars: "\<forall>c \<in> set rest. ctx_char c"
    using less.prems(1) by (simp add: rest_def key_def ctx_char_skip ctx_char_rest)
  show ?case
  proof (cases "s = []")
    case True
    with less.prems show ?thesis by (subst ctx_parse_expr.simps) simp
  next
    case False
    have len: "length rest \<le> length s"
      using length_skip_whitespace [of "drop (length key) s"] by (simp add: rest_def)
    have short: "length rest < length s" if "\<not> (\<exists>suffix. rest = CHR ''='' # suffix)"
    proof (cases "hd s = CHR ''=''")
      case True
      with False have "rest = s"
        by (cases s) (simp_all add: rest_def key_def skip_whitespace_def)
      with True False that show ?thesis by (cases s) auto
    next
      case neq: False
      show ?thesis using length_rest [OF False less.prems(1) neq] by (simp add: rest_def key_def)
    qed
    show ?thesis
    proof (cases "\<exists>suffix. rest = CHR ''='' # suffix")
      case True
      then obtain sfx where sfx: "rest = CHR ''='' # sfx" by blast
      define s1 where "s1 = skip_whitespace sfx"
      define v where "v = takeWhile is_identifier_char s1"
      define s2 where "s2 = skip_whitespace (drop (length v) s1)"
      have "length s2 < length s"
        using len sfx length_skip_whitespace [of sfx] length_skip_whitespace [of "drop (length v) s1"]
        by (simp add: s2_def s1_def)
      moreover have "\<forall>c \<in> set s2. ctx_char c"
        using chars sfx by (simp add: s2_def v_def s1_def ctx_char_skip ctx_char_rest)
      moreover have "ctx_parse_expr s ctx = ctx_parse_expr s2 (ctx_set ctx key v)"
        using False sfx
        by (subst ctx_parse_expr.simps) (simp add: Let_def flip: key_def rest_def s1_def v_def s2_def)
      ultimately show ?thesis using less.hyps [of s2 "ctx_set ctx key v"] ctx_set_ok [OF less.prems(2)] by simp
    next
      case neq: False
      have "ctx_parse_expr s ctx = ctx_parse_expr rest (ctx_add ctx key)"
        using False neq
        by (subst ctx_parse_expr.simps) (auto simp: Let_def simp flip: key_def rest_def split: list.splits)
      with less.hyps [OF short [OF neq] chars ctx_add_ok [OF less.prems(2)]] show ?thesis by simp
    qed
  qed
qed

subsection \<open>Round trip\<close>

text \<open>An entry that can be read back: non-empty identifiers.\<close>

definition is_name :: "string \<Rightarrow> bool" where
  "is_name s \<longleftrightarrow> s \<noteq> [] \<and> list_all is_identifier_char s"

definition entry_ok :: "context_entry \<Rightarrow> bool" where
  "entry_ok e \<longleftrightarrow> is_name (ce_key e) \<and> (case ce_value e of Some v \<Rightarrow> is_name v | None \<Rightarrow> True)"

lemma name_take:
  assumes "is_name s" "t = [] \<or> \<not> is_identifier_char (hd t)"
  shows "takeWhile is_identifier_char (s @ t) = s"
  using assms by (cases t) (auto simp: is_name_def list_all_iff takeWhile_append)

lemma skip_to_name: "t = [] \<or> is_identifier_char (hd t) \<Longrightarrow> skip_whitespace t = t"
  by (cases t) (auto simp: skip_whitespace_def dest: identifier_not_whitespace)

lemma ctx_debug_start: "list_all entry_ok ctx \<Longrightarrow> ctx_debug ctx = [] \<or> is_identifier_char (hd (ctx_debug ctx))"
  by (cases ctx) (auto simp: entry_ok_def is_name_def entry_text_def list_all_iff neq_Nil_conv split: option.splits)

lemma parse_entry:
  assumes e: "entry_ok e" "\<not> ctx_contains ctx (ce_key e)"
    and t: "t = [] \<or> (\<exists>u. t = CHR '' '' # u \<and> u \<noteq> [] \<and> is_identifier_char (hd u))"
  shows "ctx_parse_expr (entry_text e @ t) ctx = ctx_parse_expr (skip_whitespace t) (ctx @ [e])"
proof (cases "ce_value e")
  case None
  define k where "k = ce_key e"
  have k: "is_name k" "\<lparr>ce_key = k, ce_value = None\<rparr> = e" using e(1) None by (simp_all add: entry_ok_def k_def)
  have tk: "takeWhile is_identifier_char (k @ t) = k" using t by (intro name_take [OF k(1)]) auto
  have "\<not> (\<exists>u. skip_whitespace t = CHR ''='' # u)"
    using t skip_to_name [of "tl t"] by (auto simp: skip_whitespace_def)
  then have "ctx_parse_expr (k @ t) ctx = ctx_parse_expr (skip_whitespace t) (ctx_add ctx k)"
    using k(1) tk by (subst ctx_parse_expr.simps) (auto simp: Let_def is_name_def split: list.splits)
  moreover have "entry_text e = k" using None by (simp add: entry_text_def k_def)
  moreover have "ctx_add ctx k = ctx @ [e]" unfolding ctx_add_def k(2) using e(2) by (simp add: k_def)
  ultimately show ?thesis by simp
next
  case (Some v)
  define k where "k = ce_key e"
  have k: "is_name k" "is_name v" using e(1) Some by (simp_all add: entry_ok_def k_def)
  have e_eq: "\<lparr>ce_key = k, ce_value = Some v\<rparr> = e" using Some by (simp add: k_def)
  have tk: "takeWhile is_identifier_char (k @ CHR ''='' # v @ t) = k"
    by (intro name_take [OF k(1)]) simp
  have tv: "takeWhile is_identifier_char (v @ t) = v" using t by (intro name_take [OF k(2)]) auto
  have sv: "skip_whitespace (v @ t) = v @ t"
    using k(2) by (intro skip_to_name) (auto simp: is_name_def list_all_iff)
  have se: "skip_whitespace (CHR ''='' # v @ t) = CHR ''='' # v @ t" by (simp add: skip_whitespace_def)
  have "ctx_parse_expr (k @ CHR ''='' # v @ t) ctx = ctx_parse_expr (skip_whitespace t) (ctx_set ctx k v)"
    using tk tv by (subst ctx_parse_expr.simps) (simp add: Let_def se sv)
  moreover have "entry_text e = k @ CHR ''='' # v" using Some by (simp add: entry_text_def k_def)
  moreover have "ctx_set ctx k v = ctx @ [e]" unfolding ctx_set_def e_eq using e(2) by (simp add: k_def)
  ultimately show ?thesis by simp
qed

lemma ctx_parse_debug:
  assumes "list_all entry_ok ctx" "ctx_ok (pre @ ctx)"
  shows "ctx_parse_expr (ctx_debug ctx) pre = Some (pre @ ctx)"
  using assms
proof (induction ctx arbitrary: pre)
  case Nil
  then show ?case by (subst ctx_parse_expr.simps) simp
next
  case (Cons e ctx)
  have rest: "ctx_debug ctx = [] \<or> is_identifier_char (hd (ctx_debug ctx))"
    using Cons.prems(1) by (intro ctx_debug_start) simp
  have ne: "ctx \<noteq> [] \<Longrightarrow> ctx_debug ctx \<noteq> []"
    using Cons.prems(1) by (cases ctx) (auto simp: entry_ok_def is_name_def entry_text_def split: option.splits)
  define t where "t = (if ctx \<noteq> [] then '' '' else '''') @ ctx_debug ctx"
  have "\<not> ctx_contains pre (ce_key e)" using Cons.prems(2) by (auto simp: ctx_ok_def ctx_contains_iff)
  moreover have "t = [] \<or> (\<exists>u. t = CHR '' '' # u \<and> u \<noteq> [] \<and> is_identifier_char (hd u))"
    using rest ne by (cases "ctx = []") (auto simp: t_def)
  ultimately have "ctx_parse_expr (entry_text e @ t) pre = ctx_parse_expr (skip_whitespace t) (pre @ [e])"
    using Cons.prems(1) by (intro parse_entry) simp_all
  moreover have "skip_whitespace t = ctx_debug ctx"
    using rest skip_to_name [OF rest] by (cases "ctx = []") (simp_all add: t_def skip_whitespace_def)
  ultimately show ?case using Cons.IH [of "pre @ [e]"] Cons.prems by (simp add: t_def)
qed

section \<open>Predicates\<close>

datatype context_predicate =
  Identifier string
| EqualTo string string
| NotEqualTo string string
| Descendant context_predicate context_predicate
| Negate context_predicate
| Both context_predicate context_predicate
| Either context_predicate context_predicate

subsection \<open>Evaluation\<close>

fun eval_inner :: "context_predicate \<Rightarrow> key_context list \<Rightarrow> key_context list \<Rightarrow> bool" where
  "eval_inner p contexts all_contexts =
     (case list_last contexts of
        None \<Rightarrow> False
      | Some context \<Rightarrow>
          (case p of
             Identifier name \<Rightarrow> ctx_contains context name
           | EqualTo left right \<Rightarrow> (case ctx_get context left of Some value \<Rightarrow> value = right | None \<Rightarrow> False)
           | NotEqualTo left right \<Rightarrow> (case ctx_get context left of Some value \<Rightarrow> value \<noteq> right | None \<Rightarrow> True)
           | Negate pred \<Rightarrow>
               \<not> list_ex (\<lambda>i. eval_inner pred (take (i + 1) all_contexts) all_contexts) [0..<length all_contexts]
           | Descendant parent child \<Rightarrow>
               (case List.find (\<lambda>i. eval_inner parent (take (i + 1) contexts) all_contexts) [0..<length contexts - 1] of
                  Some i \<Rightarrow> eval_inner child (drop (i + 1) contexts) (drop (i + 1) contexts)
                | None \<Rightarrow> False)
           | Both left right \<Rightarrow> eval_inner left contexts all_contexts \<and> eval_inner right contexts all_contexts
           | Either left right \<Rightarrow> eval_inner left contexts all_contexts \<or> eval_inner right contexts all_contexts))"

declare eval_inner.simps [simp del]

definition eval_predicate :: "context_predicate \<Rightarrow> key_context list \<Rightarrow> bool" where
  "eval_predicate p contexts = eval_inner p contexts contexts"

definition depth_of :: "context_predicate \<Rightarrow> key_context list \<Rightarrow> nat option" where
  "depth_of p contexts =
     List.find (\<lambda>depth. eval_inner p (take depth contexts) contexts) (rev [0..<length contexts + 1])"

function is_superset :: "context_predicate \<Rightarrow> context_predicate \<Rightarrow> bool" where
  "is_superset self other =
     (if self = other then True
      else
        case self of
          Either left right \<Rightarrow> is_superset left other \<or> is_superset right other
        | _ \<Rightarrow>
            (case other of
               Descendant _ child \<Rightarrow> is_superset self child
             | Both left right \<Rightarrow> is_superset self left \<or> is_superset self right
             | _ \<Rightarrow> False))"
  by pat_completeness auto
termination
  by (relation "measure (\<lambda>(p, q). size p + size q)") auto

declare is_superset.simps [simp del]

text \<open>One equation per predicate, on a stack that is not empty.\<close>

lemma eval_Nil [simp]: "\<not> eval_inner p [] all"
  by (subst eval_inner.simps) (simp add: list_last_def)

lemma eval_cases:
  "eval_inner (Identifier n) cs all \<longleftrightarrow> cs \<noteq> [] \<and> ctx_contains (last cs) n"
  "eval_inner (EqualTo l r) cs all \<longleftrightarrow> cs \<noteq> [] \<and> ctx_get (last cs) l = Some r"
  "eval_inner (NotEqualTo l r) cs all \<longleftrightarrow> cs \<noteq> [] \<and> ctx_get (last cs) l \<noteq> Some r"
  "eval_inner (Both p q) cs all \<longleftrightarrow> eval_inner p cs all \<and> eval_inner q cs all"
  "eval_inner (Either p q) cs all \<longleftrightarrow> eval_inner p cs all \<or> eval_inner q cs all"
  "eval_inner (Negate p) cs all \<longleftrightarrow> cs \<noteq> [] \<and> (\<forall>i < length all. \<not> eval_inner p (take (Suc i) all) all)"
  by (cases "cs = []";
      simp add: eval_inner.simps [of "Identifier n"] eval_inner.simps [of "EqualTo l r"]
        eval_inner.simps [of "NotEqualTo l r"] eval_inner.simps [of "Both p q"] eval_inner.simps [of "Either p q"]
        eval_inner.simps [of "Negate p"] list_last_def list_ex_iff Ball_def split: option.splits)+

lemma find_upt_Some:
  "List.find P [0..<n] = Some i \<longleftrightarrow> i < n \<and> P i \<and> (\<forall>j < i. \<not> P j)"
  by (auto simp: find_Some_iff)

lemma find_upt_None: "List.find P [0..<n] = None \<longleftrightarrow> (\<forall>i < n. \<not> P i)"
  by (auto simp: find_None_iff)

lemma eval_Descendant:
  "eval_inner (Descendant p q) cs all \<longleftrightarrow>
     (\<exists>i < length cs - 1. eval_inner p (take (Suc i) cs) all \<and> (\<forall>j < i. \<not> eval_inner p (take (Suc j) cs) all)
        \<and> eval_inner q (drop (Suc i) cs) (drop (Suc i) cs))"
proof (cases "cs = []")
  case False
  define P where "P = (\<lambda>i. eval_inner p (take (Suc i) cs) all)"
  have "eval_inner (Descendant p q) cs all \<longleftrightarrow>
      (\<exists>i. List.find P [0..<length cs - 1] = Some i \<and> eval_inner q (drop (Suc i) cs) (drop (Suc i) cs))"
    unfolding P_def using False by (subst eval_inner.simps) (auto simp: list_last_def split: option.splits)
  then show ?thesis unfolding find_upt_Some P_def by blast
qed simp

subsection \<open>What evaluation means\<close>

lemma depth_of_Some:
  "depth_of p cs = Some d \<longleftrightarrow> d \<le> length cs \<and> eval_inner p (take d cs) cs
     \<and> (\<forall>e. d < e \<and> e \<le> length cs \<longrightarrow> \<not> eval_inner p (take e cs) cs)"
proof -
  define P where "P = (\<lambda>d. eval_inner p (take d cs) cs)"
  have "List.find P (rev [0..<Suc n]) = Some d \<longleftrightarrow> d \<le> n \<and> P d \<and> (\<forall>e. d < e \<and> e \<le> n \<longrightarrow> \<not> P e)" for n
  proof (induction n)
    case (Suc n)
    have "rev [0..<Suc (Suc n)] = Suc n # rev [0..<Suc n]" by simp
    then show ?case using Suc le_Suc_eq by auto
  qed auto
  from this [of "length cs"] show ?thesis unfolding depth_of_def P_def Suc_eq_plus1 .
qed

lemma depth_of_None: "depth_of p cs = None \<longleftrightarrow> (\<forall>d \<le> length cs. \<not> eval_inner p (take d cs) cs)"
  by (auto simp: depth_of_def find_None_iff le_less)

lemma depth_of_bounds: "depth_of p cs = Some d \<Longrightarrow> 0 < d \<and> d \<le> length cs"
  by (cases d) (simp_all add: depth_of_Some)

text \<open>A negation holds exactly when the negated predicate matches at no depth.\<close>

lemma eval_Negate_depth: "eval_predicate (Negate p) cs \<longleftrightarrow> cs \<noteq> [] \<and> depth_of p cs = None"
proof (cases "cs = []")
  case False
  have "(\<forall>i < length cs. \<not> eval_inner p (take (Suc i) cs) cs) \<longleftrightarrow> (\<forall>d \<le> length cs. \<not> eval_inner p (take d cs) cs)"
    by (metis Suc_leI Suc_le_lessD eval_Nil not0_implies_Suc take_0)
  with False show ?thesis by (simp add: eval_predicate_def eval_cases depth_of_None)
qed (simp add: eval_predicate_def)

subsection \<open>Supersets\<close>

text \<open>A predicate with no negation looks at nothing outside the stack it is evaluated on.\<close>

fun negation_free :: "context_predicate \<Rightarrow> bool" where
  "negation_free (Negate p) = False"
| "negation_free (Descendant p q) = (negation_free p \<and> negation_free q)"
| "negation_free (Both p q) = (negation_free p \<and> negation_free q)"
| "negation_free (Either p q) = (negation_free p \<and> negation_free q)"
| "negation_free _ = True"

lemma eval_local: "negation_free p \<Longrightarrow> eval_inner p cs all = eval_inner p cs all'"
proof (induction p arbitrary: cs all all')
  case (Descendant p q)
  then have "eval_inner p ds all = eval_inner p ds all'" for ds by simp
  then show ?case unfolding eval_Descendant by simp
next
  case (Both p q)
  then have "eval_inner p cs all = eval_inner p cs all'" "eval_inner q cs all = eval_inner q cs all'" by simp_all
  then show ?case by (simp add: eval_cases)
next
  case (Either p q)
  then have "eval_inner p cs all = eval_inner p cs all'" "eval_inner q cs all = eval_inner q cs all'" by simp_all
  then show ?case by (simp add: eval_cases)
qed (simp_all add: eval_cases)

text \<open>Such a predicate still matches when more contexts are put around the stack.\<close>

lemma eval_outer:
  "negation_free p \<Longrightarrow> eval_inner p cs v \<Longrightarrow> eval_inner p (pre @ cs) w"
proof (induction p arbitrary: pre cs v w)
  case (Descendant p q pre cs v w)
  from Descendant.prems(2) obtain i where i: "i < length cs - 1" "eval_inner p (take (Suc i) cs) v"
      "eval_inner q (drop (Suc i) cs) (drop (Suc i) cs)"
    by (auto simp: eval_Descendant)
  define P where "P j \<longleftrightarrow> eval_inner p (take (Suc j) (pre @ cs)) w" for j
  have "P (length pre + i)"
    using Descendant.IH(1) [of "take (Suc i) cs" v pre w] Descendant.prems(1) i(2) by (simp add: P_def)
  then obtain j where j: "P j" "\<forall>k < j. \<not> P k" "j \<le> length pre + i"
    by (metis LeastI Least_le not_less_Least)
  have "drop (Suc j) (pre @ cs) = take (length pre + i - j) (drop (Suc j) (pre @ cs)) @ drop (Suc i) cs"
  proof -
    have "drop (Suc i) cs = drop (length pre + i - j) (drop (Suc j) (pre @ cs))"
    proof -
      have "length pre + i - j + Suc j = length pre + Suc i" using j(3) by simp
      then show ?thesis by (simp only: drop_drop) simp
    qed
    then show ?thesis by (simp only: append_take_drop_id)
  qed
  then have "eval_inner q (drop (Suc j) (pre @ cs)) (drop (Suc j) (pre @ cs))"
    using Descendant.IH(2) [of "drop (Suc i) cs"] Descendant.prems(1) i(3) by (metis negation_free.simps(2))
  moreover have "j < length (pre @ cs) - 1" using j(3) i(1) by simp
  ultimately show ?case
    using j(1,2) unfolding eval_Descendant P_def by (intro exI [of _ j] conjI)
next
  case (Both p q)
  then show ?case by (auto simp: eval_cases)
next
  case (Either p q)
  then show ?case by (auto simp: eval_cases)
qed (simp_all add: eval_cases)

lemma is_superset_cases:
  assumes "is_superset self other"
  obtains "self = other"
    | l r where "self = Either l r" "is_superset l other \<or> is_superset r other"
    | p child where "other = Descendant p child" "is_superset self child"
    | l r where "other = Both l r" "is_superset self l \<or> is_superset self r"
proof (cases "self = other")
  case neq: False
  show thesis
  proof (cases "\<exists>l r. self = Either l r")
    case True
    with neq assms that(2) show thesis by (subst (asm) is_superset.simps) auto
  next
    case False
    with neq have "is_superset self other = (case other of
        Descendant _ child \<Rightarrow> is_superset self child
      | Both left right \<Rightarrow> is_superset self left \<or> is_superset self right
      | _ \<Rightarrow> False)"
      by (subst is_superset.simps) (cases self, simp_all)
    with assms that(3,4) show thesis by (cases other) auto
  qed
qed (rule that(1))

lemma is_superset_sound:
  "is_superset self other \<Longrightarrow> negation_free self \<Longrightarrow> eval_inner other cs all \<Longrightarrow> eval_inner self cs all"
proof (induction "size self + size other" arbitrary: self other cs all rule: less_induct)
  case less
  from less.prems(1) show ?case
  proof (cases rule: is_superset_cases)
    case 1
    with less.prems show ?thesis by simp
  next
    case (2 l r)
    with less.hyps [of l other] less.hyps [of r other] less.prems show ?thesis by (auto simp: eval_cases)
  next
    case (3 p child)
    from less.prems(3) obtain i where "eval_inner child (drop (Suc i) cs) (drop (Suc i) cs)"
      by (auto simp: 3(1) eval_Descendant)
    with less.hyps [of self child] 3 less.prems(2) have "eval_inner self (drop (Suc i) cs) (drop (Suc i) cs)" by simp
    from eval_outer [OF less.prems(2) this, of "take (Suc i) cs" all] show ?thesis by simp
  next
    case (4 l r)
    with less.hyps [of self l] less.hyps [of self r] less.prems show ?thesis by (auto simp: eval_cases)
  qed
qed

end
