(* ===== verification/Keystroke.thy ===== *)
theory Keystroke
  imports KeyContext
begin

text \<open>
  \<open>gpui/src/platform/keystroke.rs\<close>: modifiers, keystrokes, their textual syntax and how a typed
  keystroke matches one of the keymap. Strings are ASCII; a \<open>KeybindingKeystroke\<close> outside Windows
  is its inner keystroke.
\<close>

section \<open>Modifiers\<close>

record modifiers =
  m_control :: bool
  m_alt :: bool
  m_shift :: bool
  m_platform :: bool
  m_function :: bool

definition no_modifiers :: modifiers where
  "no_modifiers =
     \<lparr>m_control = False, m_alt = False, m_shift = False, m_platform = False, m_function = False\<rparr>"

definition modified :: "modifiers \<Rightarrow> bool" where
  "modified m \<longleftrightarrow> m_control m \<or> m_alt m \<or> m_shift m \<or> m_platform m \<or> m_function m"

definition number_of_modifiers :: "modifiers \<Rightarrow> nat" where
  "number_of_modifiers m =
     of_bool (m_control m) + of_bool (m_alt m) + of_bool (m_shift m) + of_bool (m_platform m) + of_bool (m_function m)"

definition modifiers_or :: "modifiers \<Rightarrow> modifiers \<Rightarrow> modifiers" where
  "modifiers_or a b =
     \<lparr>m_control = (m_control a \<or> m_control b), m_alt = (m_alt a \<or> m_alt b), m_shift = (m_shift a \<or> m_shift b),
      m_platform = (m_platform a \<or> m_platform b), m_function = (m_function a \<or> m_function b)\<rparr>"

definition modifiers_xor :: "modifiers \<Rightarrow> modifiers \<Rightarrow> modifiers" where
  "modifiers_xor a b =
     \<lparr>m_control = (m_control a \<noteq> m_control b), m_alt = (m_alt a \<noteq> m_alt b), m_shift = (m_shift a \<noteq> m_shift b),
      m_platform = (m_platform a \<noteq> m_platform b), m_function = (m_function a \<noteq> m_function b)\<rparr>"

definition modifiers_and :: "modifiers \<Rightarrow> modifiers \<Rightarrow> modifiers" where
  "modifiers_and a b =
     \<lparr>m_control = (m_control a \<and> m_control b), m_alt = (m_alt a \<and> m_alt b), m_shift = (m_shift a \<and> m_shift b),
      m_platform = (m_platform a \<and> m_platform b), m_function = (m_function a \<and> m_function b)\<rparr>"

definition is_subset_of :: "modifiers \<Rightarrow> modifiers \<Rightarrow> bool" where
  "is_subset_of self other \<longleftrightarrow> modifiers_and other self = self"

section \<open>Keystrokes\<close>

record keystroke =
  ks_modifiers :: modifiers
  ks_key :: string
  ks_key_char :: "string option"

text \<open>The branch for targets other than Windows.\<close>

definition should_match :: "keystroke \<Rightarrow> keystroke \<Rightarrow> bool" where
  "should_match self target \<longleftrightarrow>
     (case ks_key_char self of
        Some key_char \<Rightarrow>
          key_char \<noteq> ks_key self \<and> ks_key target = key_char
          \<and> ks_modifiers target = no_modifiers\<lparr>m_control := m_control (ks_modifiers self),
                                                m_platform := m_platform (ks_modifiers self)\<rparr>
      | None \<Rightarrow> False)
     \<or> ks_modifiers target = ks_modifiers self \<and> ks_key target = ks_key self"

definition is_ascii_uppercase :: "char \<Rightarrow> bool" where
  "is_ascii_uppercase c \<longleftrightarrow> (let n = of_char c :: nat in 65 \<le> n \<and> n \<le> 90)"

definition to_ascii_lowercase :: "char \<Rightarrow> char" where
  "to_ascii_lowercase c = (if is_ascii_uppercase c then char_of (of_char c + 32 :: nat) else c)"

definition eq_ignore_ascii_case :: "string \<Rightarrow> string \<Rightarrow> bool" where
  "eq_ignore_ascii_case s t \<longleftrightarrow> map to_ascii_lowercase s = map to_ascii_lowercase t"

text \<open>\<open>str::split\<close> on a character: always at least one piece.\<close>

fun split_on :: "char \<Rightarrow> string \<Rightarrow> string list" where
  "split_on sep [] = [[]]"
| "split_on sep (c # cs) =
     (if c = sep then [] # split_on sep cs
      else case split_on sep cs of piece # pieces \<Rightarrow> (c # piece) # pieces | [] \<Rightarrow> [[c]])"

datatype keystroke_error = InvalidKeystroke string

text \<open>The \<open>while\<close> loop of \<open>parse_internal\<close> over the components.\<close>

fun parse_components ::
    "string \<Rightarrow> operating_system option \<Rightarrow> string list \<Rightarrow> modifiers \<Rightarrow> string option \<Rightarrow> string option \<Rightarrow>
     keystroke_error + modifiers \<times> string option \<times> string option" where
  "parse_components source os [] modifiers key key_char = Inr (modifiers, key, key_char)"
| "parse_components source os (component # components) modifiers key key_char =
     (if eq_ignore_ascii_case component ''ctrl'' then
        parse_components source os components (modifiers\<lparr>m_control := True\<rparr>) key key_char
      else if eq_ignore_ascii_case component ''alt'' then
        parse_components source os components (modifiers\<lparr>m_alt := True\<rparr>) key key_char
      else if eq_ignore_ascii_case component ''shift'' then
        parse_components source os components (modifiers\<lparr>m_shift := True\<rparr>) key key_char
      else if eq_ignore_ascii_case component ''fn'' then
        parse_components source os components (modifiers\<lparr>m_function := True\<rparr>) key key_char
      else if eq_ignore_ascii_case component ''secondary'' then
        (case os of
           None \<Rightarrow> Inl (InvalidKeystroke source)
         | Some os' \<Rightarrow>
             parse_components source os components
               (if os' = Mac then modifiers\<lparr>m_platform := True\<rparr> else modifiers\<lparr>m_control := True\<rparr>) key key_char)
      else if eq_ignore_ascii_case component ''cmd'' \<or> eq_ignore_ascii_case component ''super''
          \<or> eq_ignore_ascii_case component ''win'' then
        parse_components source os components (modifiers\<lparr>m_platform := True\<rparr>) key key_char
      else
        case components of
          next # rest \<Rightarrow>
            if next = [] \<and> source \<noteq> [] \<and> last source = CHR ''-'' then
              Inr (modifiers, Some ''-'', key_char)
            else if 1 < length next \<and> hd next = CHR ''>'' then
              parse_components source os rest modifiers (Some component) (Some (drop 1 next))
            else Inl (InvalidKeystroke source)
        | [] \<Rightarrow>
            let modifiers' =
              (if length component = 1 \<and> is_ascii_uppercase (hd component)
               then modifiers\<lparr>m_shift := True\<rparr> else modifiers)
            in parse_components source os components modifiers' (Some (map to_ascii_lowercase component)) key_char)"

definition modifier_as_key :: "modifiers \<Rightarrow> modifiers \<times> string option" where
  "modifier_as_key m =
     (if m_shift m then (m\<lparr>m_shift := False\<rparr>, Some ''shift'')
      else if m_control m then (m\<lparr>m_control := False\<rparr>, Some ''control'')
      else if m_alt m then (m\<lparr>m_alt := False\<rparr>, Some ''alt'')
      else if m_platform m then (m\<lparr>m_platform := False\<rparr>, Some ''platform'')
      else if m_function m then (m\<lparr>m_function := False\<rparr>, Some ''function'')
      else (m, None))"

definition parse_internal :: "string \<Rightarrow> operating_system option \<Rightarrow> keystroke_error + keystroke" where
  "parse_internal source os =
     (case parse_components source os (split_on CHR ''-'' source) no_modifiers None None of
        Inl e \<Rightarrow> Inl e
      | Inr (modifiers, key, key_char) \<Rightarrow>
          (let (modifiers, key) = (case key of Some k \<Rightarrow> (modifiers, Some k) | None \<Rightarrow> modifier_as_key modifiers) in
           case key of
             None \<Rightarrow> Inl (InvalidKeystroke source)
           | Some k \<Rightarrow> Inr \<lparr>ks_modifiers = modifiers, ks_key = k, ks_key_char = key_char\<rparr>))"

definition parse_with_os :: "string \<Rightarrow> operating_system \<Rightarrow> keystroke_error + keystroke" where
  "parse_with_os source os = parse_internal source (Some os)"

definition parse_static :: "string \<Rightarrow> keystroke_error + keystroke" where
  "parse_static source = parse_internal source None"

definition platform_word :: "operating_system \<Rightarrow> string" where
  "platform_word os =
     (case os of Windows \<Rightarrow> ''win'' | Linux \<Rightarrow> ''super'' | FreeBsd \<Rightarrow> ''super'' | Android \<Rightarrow> ''super''
      | Unknown \<Rightarrow> ''super'' | Mac \<Rightarrow> ''cmd'' | Ios \<Rightarrow> ''cmd'')"

definition unparse :: "modifiers \<Rightarrow> string \<Rightarrow> operating_system \<Rightarrow> string" where
  "unparse m key os =
     (if m_function m then ''fn-'' else '''') @ (if m_control m then ''ctrl-'' else '''')
     @ (if m_alt m then ''alt-'' else '''') @ (if m_platform m then platform_word os @ ''-'' else '''')
     @ (if m_shift m then ''shift-'' else '''') @ key"

definition keystroke_unparse :: "keystroke \<Rightarrow> operating_system \<Rightarrow> string" where
  "keystroke_unparse k os = unparse (ks_modifiers k) (ks_key k) os"

definition unprintable_keys :: "string list" where
  "unprintable_keys =
     [''f1'', ''f2'', ''f3'', ''f4'', ''f5'', ''f6'', ''f7'', ''f8'', ''f9'', ''f10'', ''f11'', ''f12'', ''f13'',
      ''f14'', ''f15'', ''f16'', ''f17'', ''f18'', ''f19'', ''f20'', ''f21'', ''f22'', ''f23'', ''f24'', ''f25'',
      ''f26'', ''f27'', ''f28'', ''f29'', ''f30'', ''f31'', ''f32'', ''f33'', ''f34'', ''f35'', ''backspace'',
      ''delete'', ''left'', ''right'', ''up'', ''down'', ''pageup'', ''pagedown'', ''insert'', ''home'', ''end'',
      ''back'', ''forward'', ''escape'']"

definition is_printable_key :: "string \<Rightarrow> bool" where
  "is_printable_key key \<longleftrightarrow> key \<notin> set unprintable_keys"

definition is_ime_in_progress :: "keystroke \<Rightarrow> bool" where
  "is_ime_in_progress k \<longleftrightarrow>
     ks_key_char k = None \<and> (is_printable_key (ks_key k) \<or> ks_key k = [])
     \<and> \<not> (m_platform (ks_modifiers k) \<or> m_control (ks_modifiers k) \<or> m_function (ks_modifiers k) \<or> m_alt (ks_modifiers k))"

definition to_ascii_uppercase :: "char \<Rightarrow> char" where
  "to_ascii_uppercase c = (let n = of_char c :: nat in if 97 \<le> n \<and> n \<le> 122 then char_of (n - 32) else c)"

definition with_simulated_ime :: "keystroke \<Rightarrow> keystroke" where
  "with_simulated_ime k =
     (let m = ks_modifiers k; key = ks_key k in
      if ks_key_char k = None \<and> \<not> m_platform m \<and> \<not> m_control m \<and> \<not> m_function m \<and> \<not> m_alt m then
        k\<lparr>ks_key_char :=
            (if key = ''space'' then Some '' ''
             else if key = ''tab'' then Some [CHR 0x09]
             else if key = ''enter'' then Some [CHR 0x0A]
             else if \<not> is_printable_key key \<or> key = [] then None
             else if m_shift m then Some (map to_ascii_uppercase key)
             else Some key)\<rparr>
      else k)"

definition is_modifier_key :: "keystroke \<Rightarrow> bool" where
  "is_modifier_key k \<longleftrightarrow> ks_key k \<in> {''shift'', ''control'', ''alt'', ''platform'', ''function''}"

section \<open>Facts about modifiers\<close>

lemma is_subset_of_iff:
  "is_subset_of a b \<longleftrightarrow>
     (m_control a \<longrightarrow> m_control b) \<and> (m_alt a \<longrightarrow> m_alt b) \<and> (m_shift a \<longrightarrow> m_shift b)
     \<and> (m_platform a \<longrightarrow> m_platform b) \<and> (m_function a \<longrightarrow> m_function b)"
  by (cases a; cases b) (auto simp: is_subset_of_def modifiers_and_def)

lemma is_subset_of_or: "is_subset_of a b \<longleftrightarrow> modifiers_or a b = b"
  by (cases a; cases b) (auto simp: is_subset_of_def modifiers_and_def modifiers_or_def)

lemma modified_iff: "modified m \<longleftrightarrow> 0 < number_of_modifiers m"
  by (auto simp: modified_def number_of_modifiers_def)

lemma xor_twice: "modifiers_xor (modifiers_xor a b) b = a"
  by (cases a; cases b) (auto simp: modifiers_xor_def)

section \<open>Round trip of the syntax\<close>

lemma split_on_ne [simp]: "split_on sep s \<noteq> []"
  by (induction s) (auto split: list.splits)

lemma split_on_append: "sep \<notin> set w \<Longrightarrow> split_on sep (w @ sep # s) = w # split_on sep s"
  by (induction w) auto

lemma split_on_single: "sep \<notin> set w \<Longrightarrow> split_on sep w = [w]"
  by (induction w) auto

text \<open>The words that are read as modifiers.\<close>

definition modifier_words :: "string list" where
  "modifier_words = [''ctrl'', ''alt'', ''shift'', ''fn'', ''secondary'', ''cmd'', ''super'', ''win'']"

text \<open>A key that is written as it is stored: lowercase, no dash, and not the name of a modifier.\<close>

definition key_ok :: "string \<Rightarrow> bool" where
  "key_ok key \<longleftrightarrow> key \<noteq> [] \<and> CHR ''-'' \<notin> set key \<and> map to_ascii_lowercase key = key \<and> key \<notin> set modifier_words"

lemma words_lower: "w \<in> set modifier_words \<Longrightarrow> map to_ascii_lowercase w = w"
  by (auto simp: modifier_words_def to_ascii_lowercase_def is_ascii_uppercase_def)

lemma key_not_word: "key_ok key \<Longrightarrow> w \<in> set modifier_words \<Longrightarrow> \<not> eq_ignore_ascii_case key w"
  using words_lower [of w] by (auto simp: key_ok_def eq_ignore_ascii_case_def)

lemma key_not_upper: "key_ok key \<Longrightarrow> length key = 1 \<Longrightarrow> \<not> is_ascii_uppercase (hd key)"
proof
  assume k: "key_ok key" "length key = 1" "is_ascii_uppercase (hd key)"
  then obtain c where c: "key = [c]" by (cases key) auto
  with k have "char_of (of_char c + 32 :: nat) = c" by (simp add: key_ok_def to_ascii_lowercase_def)
  then have "(of_char c + 32 :: nat) mod 256 = of_char c" by (metis of_char_of)
  with k c show False by (simp add: is_ascii_uppercase_def Let_def)
qed

lemma parse_last_key:
  assumes "key_ok key"
  shows "parse_components source os [key] m k0 kc = Inr (m, Some key, kc)"
proof -
  have "\<not> eq_ignore_ascii_case key w" if "w \<in> set modifier_words" for w
    using key_not_word [OF assms that] .
  moreover have "map to_ascii_lowercase key = key" using assms by (simp add: key_ok_def)
  ultimately show ?thesis using key_not_upper [OF assms] by (auto simp: modifier_words_def)
qed

lemma parse_dash: "parse_components (s @ ''-'') os [[], []] m k0 kc = Inr (m, Some ''-'', kc)"
  by (simp add: eq_ignore_ascii_case_def)

text \<open>A modifier that is printed is read back, one that is not changes nothing.\<close>

lemma parse_word:
  "parse_components source os ((if b then [''ctrl''] else []) @ cs) m k kc
     = parse_components source os cs (m\<lparr>m_control := m_control m \<or> b\<rparr>) k kc"
  "parse_components source os ((if b then [''alt''] else []) @ cs) m k kc
     = parse_components source os cs (m\<lparr>m_alt := m_alt m \<or> b\<rparr>) k kc"
  "parse_components source os ((if b then [''shift''] else []) @ cs) m k kc
     = parse_components source os cs (m\<lparr>m_shift := m_shift m \<or> b\<rparr>) k kc"
  "parse_components source os ((if b then [''fn''] else []) @ cs) m k kc
     = parse_components source os cs (m\<lparr>m_function := m_function m \<or> b\<rparr>) k kc"
  "parse_components source os ((if b then [platform_word os'] else []) @ cs) m k kc
     = parse_components source os cs (m\<lparr>m_platform := m_platform m \<or> b\<rparr>) k kc"
proof -
  have eq: "eq_ignore_ascii_case s t \<longleftrightarrow> s = t" if "s \<in> set modifier_words" "t \<in> set modifier_words" for s t
    using that by (simp add: eq_ignore_ascii_case_def words_lower)
  show "parse_components source os ((if b then [''ctrl''] else []) @ cs) m k kc
     = parse_components source os cs (m\<lparr>m_control := m_control m \<or> b\<rparr>) k kc"
    using eq [of "''ctrl''"] by (cases b) (simp_all add: modifier_words_def)
  show "parse_components source os ((if b then [''alt''] else []) @ cs) m k kc
     = parse_components source os cs (m\<lparr>m_alt := m_alt m \<or> b\<rparr>) k kc"
    using eq [of "''alt''"] by (cases b) (simp_all add: modifier_words_def)
  show "parse_components source os ((if b then [''shift''] else []) @ cs) m k kc
     = parse_components source os cs (m\<lparr>m_shift := m_shift m \<or> b\<rparr>) k kc"
    using eq [of "''shift''"] by (cases b) (simp_all add: modifier_words_def)
  show "parse_components source os ((if b then [''fn''] else []) @ cs) m k kc
     = parse_components source os cs (m\<lparr>m_function := m_function m \<or> b\<rparr>) k kc"
    using eq [of "''fn''"] by (cases b) (simp_all add: modifier_words_def)
  have word: "parse_components source os (w # cs) m k kc = parse_components source os cs (m\<lparr>m_platform := True\<rparr>) k kc"
    if "w = ''cmd'' \<or> w = ''super'' \<or> w = ''win''" for w
  proof -
    have w: "w \<in> set modifier_words" using that by (auto simp: modifier_words_def)
    have no: "\<not> eq_ignore_ascii_case w ''ctrl''" "\<not> eq_ignore_ascii_case w ''alt''" "\<not> eq_ignore_ascii_case w ''shift''"
        "\<not> eq_ignore_ascii_case w ''fn''" "\<not> eq_ignore_ascii_case w ''secondary''"
      using that by (simp_all add: eq [OF w] modifier_words_def) auto
    have yes: "eq_ignore_ascii_case w ''cmd'' \<or> eq_ignore_ascii_case w ''super'' \<or> eq_ignore_ascii_case w ''win''"
      using that by (simp add: eq [OF w] modifier_words_def)
    show ?thesis by (simp only: parse_components.simps no yes if_False if_True)
  qed
  have "platform_word os' = ''cmd'' \<or> platform_word os' = ''super'' \<or> platform_word os' = ''win''"
    by (cases os') (simp_all add: platform_word_def)
  from word [OF this]
  show "parse_components source os ((if b then [platform_word os'] else []) @ cs) m k kc
     = parse_components source os cs (m\<lparr>m_platform := m_platform m \<or> b\<rparr>) k kc"
    by (cases b) simp_all
qed

text \<open>The components of a printed keystroke.\<close>

lemma split_word: "CHR ''-'' \<notin> set w \<Longrightarrow>
  split_on CHR ''-'' ((if b then w @ ''-'' else '''') @ s) = (if b then [w] else []) @ split_on CHR ''-'' s"
  using split_on_append [of "CHR ''-''" w s] by simp

lemma unparse_components:
  "split_on CHR ''-'' (unparse m key os) =
     (if m_function m then [''fn''] else []) @ (if m_control m then [''ctrl''] else [])
     @ (if m_alt m then [''alt''] else []) @ (if m_platform m then [platform_word os] else [])
     @ (if m_shift m then [''shift''] else []) @ split_on CHR ''-'' key"
proof -
  have pw: "CHR ''-'' \<notin> set (platform_word os)" by (cases os) (simp_all add: platform_word_def)
  show ?thesis
    unfolding unparse_def
    using split_word [of "''fn''" "m_function m"] split_word [of "''ctrl''" "m_control m"]
      split_word [of "''alt''" "m_alt m"] split_word [OF pw, of "m_platform m"] split_word [of "''shift''" "m_shift m"]
    by simp
qed

lemma parse_unparse:
  assumes "key_ok key \<or> key = ''-''"
  shows "parse_internal (unparse m key os) os' = Inr \<lparr>ks_modifiers = m, ks_key = key, ks_key_char = None\<rparr>"
proof -
  define src where "src = unparse m key os"
  have "parse_components src os' (split_on CHR ''-'' key) m None None = Inr (m, Some key, None)"
  proof (cases "key = ''-''")
    case True
    then have "\<exists>s. src = s @ ''-''" by (simp add: src_def unparse_def)
    with True parse_dash show ?thesis by (auto simp: eq_ignore_ascii_case_def)
  next
    case False
    with assms have ok: "key_ok key" by blast
    then have "split_on CHR ''-'' key = [key]" by (simp add: split_on_single key_ok_def)
    with parse_last_key [OF ok] show ?thesis by simp
  qed
  then have "parse_components src os' (split_on CHR ''-'' src) no_modifiers None None = Inr (m, Some key, None)"
    unfolding src_def unparse_components parse_word by (cases m) (simp add: no_modifiers_def)
  then show ?thesis by (simp add: parse_internal_def flip: src_def)
qed

end
