(* ===== verification/Keymap.thy ===== *)
theory Keymap
  imports KeyContext Keystroke "HOL-Library.Multiset"
begin

text \<open>
  \<open>gpui/src/keymap.rs\<close> and \<open>gpui/src/keymap/binding.rs\<close>: key bindings, the keymap that collects them
  and the resolution of typed keystrokes to bindings.

  \<open>NoAction\<close> and \<open>Unbind\<close> are the two actions the keymap treats specially; any other action is a
  value of the application's type, whose type id, name and equality (the \<open>Action\<close> trait) are a
  record of functions.
\<close>

section \<open>Sorting with a comparison\<close>

text \<open>\<open>slice::sort_by\<close> is stable.\<close>

fun insort_by :: "('a \<Rightarrow> 'a \<Rightarrow> ordering) \<Rightarrow> 'a \<Rightarrow> 'a list \<Rightarrow> 'a list" where
  "insort_by cmp x [] = [x]"
| "insort_by cmp x (y # ys) = (if cmp x y = Greater then y # insort_by cmp x ys else x # y # ys)"

definition sort_by :: "('a \<Rightarrow> 'a \<Rightarrow> ordering) \<Rightarrow> 'a list \<Rightarrow> 'a list" where
  "sort_by cmp xs = foldr (insort_by cmp) xs []"

lemma mset_insort_by [simp]: "mset (insort_by cmp x xs) = add_mset x (mset xs)"
  by (induction xs) auto

lemma mset_sort_by [simp]: "mset (sort_by cmp xs) = mset xs"
  unfolding sort_by_def by (induction xs) auto

lemma set_sort_by [simp]: "set (sort_by cmp xs) = set xs"
  by (metis mset_sort_by set_mset_mset)

lemma sort_by_sorted:
  assumes total: "\<And>a b. cmp a b = Greater \<Longrightarrow> R b a" and le: "\<And>a b. cmp a b \<noteq> Greater \<Longrightarrow> R a b"
    and trans: "\<And>a b c. R a b \<Longrightarrow> R b c \<Longrightarrow> R a c"
  shows "sorted_wrt R (sort_by cmp xs)"
proof -
  have "sorted_wrt R (insort_by cmp x ys)" if "sorted_wrt R ys" for x ys
    using that
  proof (induction ys)
    case (Cons y ys)
    have "set (insort_by cmp x ys) = insert x (set ys)" by (metis mset_insort_by set_mset_add_mset_insert set_mset_mset)
    with Cons show ?case using total [of x y] le [of x y] trans by auto
  qed simp
  then show ?thesis unfolding sort_by_def by (induction xs) auto
qed

section \<open>Actions and bindings\<close>

datatype 'a action = NoAction | Unbind string | AppAction 'a

record 'a action_ops =
  app_type_id :: "'a \<Rightarrow> nat"
  app_name :: "'a \<Rightarrow> string"
  app_eq :: "'a \<Rightarrow> 'a \<Rightarrow> bool"

datatype action_id = NoActionId | UnbindId | AppId nat

fun action_type_id :: "'a action_ops \<Rightarrow> 'a action \<Rightarrow> action_id" where
  "action_type_id ops NoAction = NoActionId"
| "action_type_id ops (Unbind _) = UnbindId"
| "action_type_id ops (AppAction a) = AppId (app_type_id ops a)"

fun action_name :: "'a action_ops \<Rightarrow> 'a action \<Rightarrow> string" where
  "action_name ops NoAction = ''zed::NoAction''"
| "action_name ops (Unbind _) = ''zed::Unbind''"
| "action_name ops (AppAction a) = app_name ops a"

fun action_partial_eq :: "'a action_ops \<Rightarrow> 'a action \<Rightarrow> 'a action \<Rightarrow> bool" where
  "action_partial_eq ops NoAction NoAction = True"
| "action_partial_eq ops (Unbind a) (Unbind b) = (a = b)"
| "action_partial_eq ops (AppAction a) (AppAction b) = app_eq ops a b"
| "action_partial_eq ops _ _ = False"

fun is_no_action :: "'a action \<Rightarrow> bool" where
  "is_no_action NoAction = True"
| "is_no_action _ = False"

fun is_unbind :: "'a action \<Rightarrow> bool" where
  "is_unbind (Unbind _) = True"
| "is_unbind _ = False"

record 'a key_binding =
  kb_action :: "'a action"
  kb_keystrokes :: "keystroke list"
  kb_context_predicate :: "context_predicate option"
  kb_meta :: "nat option"
  kb_action_input :: "string option"

definition with_meta :: "'a key_binding \<Rightarrow> nat \<Rightarrow> 'a key_binding" where
  "with_meta b meta = b\<lparr>kb_meta := Some meta\<rparr>"

definition match_keystrokes :: "'a key_binding \<Rightarrow> keystroke list \<Rightarrow> bool option" where
  "match_keystrokes b typed =
     (if length (kb_keystrokes b) < length typed then None
      else if \<not> list_all (\<lambda>(target, t). should_match t target) (zip (kb_keystrokes b) typed) then None
      else Some (length (kb_keystrokes b) > length typed))"

definition disabled_binding_matches_context :: "'a key_binding \<Rightarrow> 'a key_binding \<Rightarrow> bool" where
  "disabled_binding_matches_context disabled_binding binding =
     (case (kb_context_predicate disabled_binding, kb_context_predicate binding) of
        (None, _) \<Rightarrow> True
      | (Some _, None) \<Rightarrow> False
      | (Some disabled_predicate, Some predicate) \<Rightarrow> is_superset disabled_predicate predicate)"

definition binding_is_unbound :: "'a action_ops \<Rightarrow> 'a key_binding \<Rightarrow> 'a key_binding \<Rightarrow> bool" where
  "binding_is_unbound ops disabled_binding binding \<longleftrightarrow>
     kb_keystrokes disabled_binding = kb_keystrokes binding
     \<and> (case kb_action disabled_binding of
          Unbind name \<Rightarrow> name = action_name ops (kb_action binding)
        | _ \<Rightarrow> False)"

section \<open>The keymap\<close>

record 'a keymap =
  km_bindings :: "'a key_binding list"
  km_indices_by_action_id :: "action_id \<Rightarrow> nat list option"
  km_disabled_indices :: "nat list"
  km_version :: nat

definition empty_keymap :: "'a keymap" where
  "empty_keymap =
     \<lparr>km_bindings = [], km_indices_by_action_id = Map.empty, km_disabled_indices = [], km_version = 0\<rparr>"

definition add_binding :: "'a action_ops \<Rightarrow> 'a keymap \<Rightarrow> 'a key_binding \<Rightarrow> 'a keymap" where
  "add_binding ops km binding =
     (let action_id = action_type_id ops (kb_action binding);
          ix = length (km_bindings km);
          km' = (if is_no_action (kb_action binding) \<or> is_unbind (kb_action binding)
                 then km\<lparr>km_disabled_indices := km_disabled_indices km @ [ix]\<rparr>
                 else km\<lparr>km_indices_by_action_id :=
                        (km_indices_by_action_id km)(action_id \<mapsto>
                           (case km_indices_by_action_id km action_id of Some ixs \<Rightarrow> ixs | None \<Rightarrow> []) @ [ix])\<rparr>)
      in km'\<lparr>km_bindings := km_bindings km @ [binding]\<rparr>)"

definition add_bindings :: "'a action_ops \<Rightarrow> 'a keymap \<Rightarrow> 'a key_binding list \<Rightarrow> 'a keymap" where
  "add_bindings ops km bindings =
     (let km' = foldl (add_binding ops) km bindings in km'\<lparr>km_version := km_version km' + 1\<rparr>)"

definition new_keymap :: "'a action_ops \<Rightarrow> 'a key_binding list \<Rightarrow> 'a keymap" where
  "new_keymap ops bindings = add_bindings ops empty_keymap bindings"

definition clear_keymap :: "'a keymap \<Rightarrow> 'a keymap" where
  "clear_keymap km =
     \<lparr>km_bindings = [], km_indices_by_action_id = Map.empty, km_disabled_indices = [],
      km_version = km_version km + 1\<rparr>"

text \<open>Whether one of the disabling bindings added later hides the binding at \<open>ix\<close>.\<close>

fun disabled_later :: "'a action_ops \<Rightarrow> 'a keymap \<Rightarrow> nat \<Rightarrow> 'a key_binding \<Rightarrow> nat list \<Rightarrow> bool option" where
  "disabled_later ops km ix binding [] = Some False"
| "disabled_later ops km ix binding (disabled_ix # rest) =
     (if disabled_ix > ix then do {
        disabled_binding \<leftarrow> index_at (km_bindings km) disabled_ix;
        if kb_keystrokes disabled_binding \<noteq> kb_keystrokes binding then disabled_later ops km ix binding rest
        else if is_no_action (kb_action disabled_binding) then
          if disabled_binding_matches_context disabled_binding binding then Some True
          else disabled_later ops km ix binding rest
        else if is_unbind (kb_action disabled_binding)
            \<and> disabled_binding_matches_context disabled_binding binding
            \<and> binding_is_unbound ops disabled_binding binding then Some True
        else disabled_later ops km ix binding rest
      }
      else disabled_later ops km ix binding rest)"

fun bindings_for_indices ::
    "'a action_ops \<Rightarrow> 'a keymap \<Rightarrow> 'a action \<Rightarrow> nat list \<Rightarrow> 'a key_binding list option" where
  "bindings_for_indices ops km action [] = Some []"
| "bindings_for_indices ops km action (ix # ixs) = do {
     binding \<leftarrow> index_at (km_bindings km) ix;
     rest \<leftarrow> bindings_for_indices ops km action ixs;
     if \<not> action_partial_eq ops (kb_action binding) action then Some rest
     else do {
       disabled \<leftarrow> disabled_later ops km ix binding (km_disabled_indices km);
       Some (if disabled then rest else binding # rest)
     }
   }"

definition bindings_for_action :: "'a action_ops \<Rightarrow> 'a keymap \<Rightarrow> 'a action \<Rightarrow> 'a key_binding list option" where
  "bindings_for_action ops km action =
     bindings_for_indices ops km action
       (case km_indices_by_action_id km (action_type_id ops action) of Some ixs \<Rightarrow> ixs | None \<Rightarrow> [])"

definition all_bindings_for_input :: "'a keymap \<Rightarrow> keystroke list \<Rightarrow> 'a key_binding list" where
  "all_bindings_for_input km input =
     filter (\<lambda>b. match_keystrokes b input = Some False) (rev (km_bindings km))"

definition binding_enabled :: "'a key_binding \<Rightarrow> key_context list \<Rightarrow> nat option" where
  "binding_enabled binding contexts =
     (case kb_context_predicate binding of
        Some predicate \<Rightarrow> depth_of predicate contexts
      | None \<Rightarrow> Some (length contexts))"

type_synonym 'a matched = "nat \<times> nat \<times> 'a key_binding"

text \<open>The first loop of \<open>resolve_bindings_for_input\<close>: matched and pending bindings.\<close>

fun collect_matches ::
    "keystroke list \<Rightarrow> key_context list \<Rightarrow> (nat \<times> 'a key_binding) list \<Rightarrow>
     'a matched list \<times> (nat \<times> 'a key_binding) list" where
  "collect_matches input context_stack [] = ([], [])"
| "collect_matches input context_stack ((ix, binding) # rest) =
     (let (matched, pending_bindings) = collect_matches input context_stack rest in
      case binding_enabled binding context_stack of
        None \<Rightarrow> (matched, pending_bindings)
      | Some depth \<Rightarrow>
          (case match_keystrokes binding input of
             None \<Rightarrow> (matched, pending_bindings)
           | Some pending \<Rightarrow>
               if \<not> pending then ((depth, ix, binding) # matched, pending_bindings)
               else (matched, (ix, binding) # pending_bindings)))"

definition precedence_cmp :: "'a matched \<Rightarrow> 'a matched \<Rightarrow> ordering" where
  "precedence_cmp a b =
     ordering_then (ord_cmp (fst b) (fst a)) (ord_cmp (fst (snd b)) (fst (snd a)))"

definition binding_meta :: "'a key_binding \<Rightarrow> nat" where
  "binding_meta binding = (case kb_meta binding of Some meta \<Rightarrow> meta | None \<Rightarrow> 0)"

text \<open>The second loop, over the bindings in order of precedence.\<close>

fun resolve_matched ::
    "'a action_ops \<Rightarrow> 'a matched list \<Rightarrow> nat option \<Rightarrow> 'a key_binding list \<Rightarrow> (nat \<times> 'a key_binding) list" where
  "resolve_matched ops [] no_action_meta unbound = []"
| "resolve_matched ops ((_, ix, binding) # rest) no_action_meta unbound =
     (let meta = binding_meta binding in
      if is_no_action (kb_action binding) then
        resolve_matched ops rest
          (Some (case no_action_meta of Some existing \<Rightarrow> min existing meta | None \<Rightarrow> meta)) unbound
      else if (case no_action_meta of Some m \<Rightarrow> meta \<ge> m | None \<Rightarrow> False) then
        resolve_matched ops rest no_action_meta unbound
      else if is_unbind (kb_action binding) then
        resolve_matched ops rest no_action_meta (unbound @ [binding])
      else if list_ex (\<lambda>disabled. binding_is_unbound ops disabled binding) unbound then
        resolve_matched ops rest no_action_meta unbound
      else (ix, binding) # resolve_matched ops rest no_action_meta unbound)"

text \<open>The third loop: the keystrokes that more input could still complete.\<close>

fun resolve_pending ::
    "nat option \<Rightarrow> (nat \<times> 'a key_binding) list \<Rightarrow> keystroke list list \<Rightarrow> keystroke list list" where
  "resolve_pending first_ix [] pending = pending"
| "resolve_pending first_ix ((ix, binding) # rest) pending =
     (if (case first_ix of Some binding_ix \<Rightarrow> binding_ix > ix | None \<Rightarrow> False) then
        resolve_pending first_ix rest pending
      else if is_no_action (kb_action binding) \<or> is_unbind (kb_action binding) then
        resolve_pending first_ix rest (removeAll (kb_keystrokes binding) pending)
      else resolve_pending first_ix rest (List.insert (kb_keystrokes binding) pending))"

definition resolve_bindings_for_input ::
    "'a action_ops \<Rightarrow> keystroke list \<Rightarrow> key_context list \<Rightarrow> (nat \<times> 'a key_binding) list \<Rightarrow>
     (nat \<times> 'a key_binding) list \<times> bool" where
  "resolve_bindings_for_input ops input context_stack keymap_bindings =
     (let (matched, pending_bindings) = collect_matches input context_stack keymap_bindings;
          bindings = resolve_matched ops (sort_by precedence_cmp matched) None [];
          first_binding_index = (case bindings of (ix, _) # _ \<Rightarrow> Some ix | [] \<Rightarrow> None);
          pending = resolve_pending first_binding_index (rev pending_bindings) []
      in (bindings, pending \<noteq> []))"

definition bindings_for_input ::
    "'a action_ops \<Rightarrow> 'a keymap \<Rightarrow> keystroke list \<Rightarrow> key_context list \<Rightarrow> 'a key_binding list \<times> bool" where
  "bindings_for_input ops km input context_stack =
     (let (bindings, pending) =
        resolve_bindings_for_input ops input context_stack (rev (enumerate 0 (km_bindings km)))
      in (map snd bindings, pending))"

text \<open>
  The candidates of \<open>possible_next_bindings_for_input\<close>: bindings that extend the input and that the
  completed input would dispatch. Their sort keys are distinct, so the unstable sort is the stable one.
\<close>

definition possible_next_bindings_for_input ::
    "'a action_ops \<Rightarrow> 'a keymap \<Rightarrow> keystroke list \<Rightarrow> key_context list \<Rightarrow> 'a key_binding list" where
  "possible_next_bindings_for_input ops km input context_stack =
     (let extending =
            filter (\<lambda>(_, b). match_keystrokes b input = Some True) (rev (enumerate 0 (km_bindings km)));
          plain = filter (\<lambda>(_, b). \<not> is_no_action (kb_action b) \<and> \<not> is_unbind (kb_action b)) extending;
          candidates =
            List.map_filter (\<lambda>(ix, b). do {
              depth \<leftarrow> binding_enabled b context_stack;
              let full_input = input @ drop (length input) (kb_keystrokes b);
              let (dispatched, _) = resolve_bindings_for_input ops full_input context_stack extending;
              if list_ex (\<lambda>(dispatched_ix, _). dispatched_ix = ix) dispatched then Some (depth, ix, b) else None
            }) plain
      in map (snd \<circ> snd) (sort_by precedence_cmp candidates))"

section \<open>The index structures\<close>

definition special :: "'a key_binding \<Rightarrow> bool" where
  "special b \<longleftrightarrow> is_no_action (kb_action b) \<or> is_unbind (kb_action b)"

definition keymap_ok :: "'a action_ops \<Rightarrow> 'a keymap \<Rightarrow> bool" where
  "keymap_ok ops km \<longleftrightarrow>
     (let bs = km_bindings km in
      km_disabled_indices km = filter (\<lambda>i. special (bs ! i)) [0..<length bs]
      \<and> (\<forall>a. (case km_indices_by_action_id km a of Some ixs \<Rightarrow> ixs | None \<Rightarrow> [])
            = filter (\<lambda>i. \<not> special (bs ! i) \<and> action_type_id ops (kb_action (bs ! i)) = a) [0..<length bs]))"

lemma empty_keymap_ok: "keymap_ok ops empty_keymap"
  by (simp add: keymap_ok_def empty_keymap_def)

lemma clear_keymap_ok: "keymap_ok ops (clear_keymap km)"
  by (simp add: keymap_ok_def clear_keymap_def)

lemma filter_snoc_index:
  "filter (\<lambda>i. P ((bs @ [b]) ! i)) [0..<Suc (length bs)] =
     filter (\<lambda>i. P (bs ! i)) [0..<length bs] @ (if P b then [length bs] else [])"
proof -
  have "filter (\<lambda>i. P ((bs @ [b]) ! i)) [0..<length bs] = filter (\<lambda>i. P (bs ! i)) [0..<length bs]"
    by (rule filter_cong) (simp_all add: nth_append)
  then show ?thesis by simp
qed

lemma add_binding_ok:
  assumes "keymap_ok ops km"
  shows "keymap_ok ops (add_binding ops km b)" "km_bindings (add_binding ops km b) = km_bindings km @ [b]"
proof -
  define bs where "bs = km_bindings km"
  have ok: "km_disabled_indices km = filter (\<lambda>i. special (bs ! i)) [0..<length bs]"
    "\<And>a. (case km_indices_by_action_id km a of Some ixs \<Rightarrow> ixs | None \<Rightarrow> [])
            = filter (\<lambda>i. \<not> special (bs ! i) \<and> action_type_id ops (kb_action (bs ! i)) = a) [0..<length bs]"
    using assms by (simp_all add: keymap_ok_def bs_def Let_def)
  note snoc = filter_snoc_index [of special bs b]
  note snoc' = filter_snoc_index [of "\<lambda>b. \<not> special b \<and> action_type_id ops (kb_action b) = a" bs b for a]
  show "km_bindings (add_binding ops km b) = km_bindings km @ [b]"
    by (simp add: add_binding_def Let_def)
  show "keymap_ok ops (add_binding ops km b)"
  proof (cases "special b")
    case True
    with snoc snoc' ok show ?thesis
      by (simp add: keymap_ok_def add_binding_def Let_def special_def [symmetric] bs_def [symmetric])
  next
    case False
    with snoc snoc' ok show ?thesis
      by (simp add: keymap_ok_def add_binding_def Let_def special_def [symmetric] bs_def [symmetric])
  qed
qed

lemma add_bindings_ok:
  assumes "keymap_ok ops km"
  shows "keymap_ok ops (add_bindings ops km bs) \<and> km_bindings (add_bindings ops km bs) = km_bindings km @ bs
     \<and> km_version (add_bindings ops km bs) = Suc (km_version km)"
proof -
  have "keymap_ok ops (foldl (add_binding ops) km bs) \<and> km_bindings (foldl (add_binding ops) km bs) = km_bindings km @ bs
     \<and> km_version (foldl (add_binding ops) km bs) = km_version km" if "keymap_ok ops km" for km
    using that
  proof (induction bs arbitrary: km)
    case (Cons b bs)
    then show ?case using add_binding_ok [OF Cons.prems, of b] by (simp add: add_binding_def Let_def)
  qed simp
  from this [OF assms] show ?thesis by (simp add: add_bindings_def Let_def keymap_ok_def)
qed

section \<open>Bindings for an action\<close>

definition disables :: "'a action_ops \<Rightarrow> 'a key_binding \<Rightarrow> 'a key_binding \<Rightarrow> bool" where
  "disables ops d b \<longleftrightarrow> kb_keystrokes d = kb_keystrokes b \<and> disabled_binding_matches_context d b
     \<and> (is_no_action (kb_action d) \<or> is_unbind (kb_action d) \<and> binding_is_unbound ops d b)"

lemma disabled_later_eq:
  assumes "\<forall>j \<in> set js. j < length (km_bindings km)"
  shows "disabled_later ops km i b js = Some (\<exists>j \<in> set js. i < j \<and> disables ops (km_bindings km ! j) b)"
  using assms
proof (induction js)
  case (Cons j js)
  have "\<not> (is_no_action (kb_action d) \<and> is_unbind (kb_action d))" for d :: "'a key_binding"
    by (cases "kb_action d") simp_all
  with Cons show ?case by (auto simp: disables_def)
qed simp

lemma bindings_for_indices_eq:
  assumes "\<forall>j \<in> set (km_disabled_indices km). j < length (km_bindings km)" "\<forall>i \<in> set ixs. i < length (km_bindings km)"
  shows "bindings_for_indices ops km a ixs = Some (map ((!) (km_bindings km))
     (filter (\<lambda>i. action_partial_eq ops (kb_action (km_bindings km ! i)) a
        \<and> \<not> (\<exists>j \<in> set (km_disabled_indices km). i < j \<and> disables ops (km_bindings km ! j) (km_bindings km ! i))) ixs))"
  using assms(2) by (induction ixs) (auto simp: disabled_later_eq [OF assms(1)])

lemma bindings_for_action_eq:
  assumes ok: "keymap_ok ops km" and bs: "bs = km_bindings km"
  shows "bindings_for_action ops km a = Some (map ((!) bs)
     (filter (\<lambda>i. \<not> special (bs ! i) \<and> action_type_id ops (kb_action (bs ! i)) = action_type_id ops a
        \<and> action_partial_eq ops (kb_action (bs ! i)) a
        \<and> \<not> (\<exists>j. i < j \<and> j < length bs \<and> disables ops (bs ! j) (bs ! i))) [0..<length bs]))"
proof -
  have dis: "disables ops d b \<Longrightarrow> special d" for d b by (auto simp: disables_def special_def)
  have "km_disabled_indices km = filter (\<lambda>i. special (bs ! i)) [0..<length bs]"
    "(case km_indices_by_action_id km (action_type_id ops a) of Some ixs \<Rightarrow> ixs | None \<Rightarrow> [])
       = filter (\<lambda>i. \<not> special (bs ! i) \<and> action_type_id ops (kb_action (bs ! i)) = action_type_id ops a) [0..<length bs]"
    using ok by (simp_all add: keymap_ok_def Let_def bs)
  moreover have "(\<exists>j \<in> set (filter (\<lambda>i. special (bs ! i)) [0..<length bs]). i < j \<and> disables ops (bs ! j) b)
      \<longleftrightarrow> (\<exists>j. i < j \<and> j < length bs \<and> disables ops (bs ! j) b)" for i b
    using dis by auto
  ultimately show ?thesis
    unfolding bindings_for_action_def
    by (subst bindings_for_indices_eq) (simp_all add: bs [symmetric] conj_assoc)
qed

section \<open>Resolution\<close>

definition outranks :: "'a matched \<Rightarrow> 'a matched \<Rightarrow> bool" where
  "outranks x y \<longleftrightarrow> fst y < fst x \<or> fst y = fst x \<and> fst (snd y) < fst (snd x)"

abbreviation m_binding :: "'a matched \<Rightarrow> 'a key_binding" where
  "m_binding x \<equiv> snd (snd x)"

lemma outranks_trans: "outranks x y \<Longrightarrow> outranks y z \<Longrightarrow> outranks x z"
  by (auto simp: outranks_def)

lemma outranks_irrefl: "\<not> outranks x x"
  by (simp add: outranks_def)

lemma outranks_asym: "outranks x y \<Longrightarrow> \<not> outranks y x"
  by (auto simp: outranks_def)

text \<open>
  A binding is suppressed by a \<open>NoAction\<close> that outranks it and comes from a source at least as
  strong; it survives when it is a plain binding, is not suppressed, and no \<open>Unbind\<close> that outranks
  it, itself not suppressed, names it.
\<close>

definition suppressed :: "'a matched set \<Rightarrow> 'a matched \<Rightarrow> bool" where
  "suppressed S x \<longleftrightarrow>
     (\<exists>y \<in> S. outranks y x \<and> is_no_action (kb_action (m_binding y)) \<and> binding_meta (m_binding y) \<le> binding_meta (m_binding x))"

definition survives :: "'a action_ops \<Rightarrow> 'a matched set \<Rightarrow> 'a matched \<Rightarrow> bool" where
  "survives ops S x \<longleftrightarrow> \<not> special (m_binding x) \<and> \<not> suppressed S x
     \<and> \<not> (\<exists>u \<in> S. outranks u x \<and> is_unbind (kb_action (m_binding u)) \<and> \<not> suppressed S u
          \<and> binding_is_unbound ops (m_binding u) (m_binding x))"

lemma resolve_matched_eq:
  assumes "sorted_wrt outranks (pre @ ms)" "S = set (pre @ ms)"
    and nam: "\<And>k. (case nam of Some m \<Rightarrow> k \<ge> m | None \<Rightarrow> False) \<longleftrightarrow>
      (\<exists>y \<in> set pre. is_no_action (kb_action (m_binding y)) \<and> binding_meta (m_binding y) \<le> k)"
    and ub: "\<And>b. list_ex (\<lambda>d. binding_is_unbound ops d b) unbound \<longleftrightarrow>
      (\<exists>u \<in> set pre. is_unbind (kb_action (m_binding u)) \<and> \<not> suppressed S u \<and> binding_is_unbound ops (m_binding u) b)"
  shows "resolve_matched ops ms nam unbound = map snd (filter (survives ops S) ms)"
  using assms
proof (induction ms arbitrary: pre nam unbound)
  case (Cons x ms)
  obtain d ix b where x: "x = (d, ix, b)" by (cases x) auto
  have up: "{y \<in> S. outranks y x} = set pre"
    using Cons.prems(1,2) by (auto simp: sorted_wrt_append dest: outranks_asym outranks_irrefl [THEN notE])
  have sup: "suppressed S x \<longleftrightarrow> (case nam of Some m \<Rightarrow> binding_meta b \<ge> m | None \<Rightarrow> False)"
    using up unfolding Cons.prems(3) suppressed_def by (auto simp: x)
  have unb: "(\<exists>u \<in> S. outranks u x \<and> is_unbind (kb_action (m_binding u)) \<and> \<not> suppressed S u
      \<and> binding_is_unbound ops (m_binding u) b) \<longleftrightarrow> list_ex (\<lambda>d. binding_is_unbound ops d b) unbound"
    using up unfolding Cons.prems(4) by blast
  have pre: "sorted_wrt outranks ((pre @ [x]) @ ms)" "S = set ((pre @ [x]) @ ms)"
    using Cons.prems(1,2) by simp_all
  have excl: "is_no_action a \<Longrightarrow> \<not> is_unbind a" for a :: "'a action" by (cases a) simp_all
  show ?case
  proof (cases "is_no_action (kb_action b)")
    case True
    define nam' where "nam' = Some (case nam of Some existing \<Rightarrow> min existing (binding_meta b) | None \<Rightarrow> binding_meta b)"
    have "resolve_matched ops ms nam' unbound = map snd (filter (survives ops S) ms)"
    proof (rule Cons.IH [OF pre])
      show "(case nam' of Some m \<Rightarrow> k \<ge> m | None \<Rightarrow> False) \<longleftrightarrow>
        (\<exists>y \<in> set (pre @ [x]). is_no_action (kb_action (m_binding y)) \<and> binding_meta (m_binding y) \<le> k)" for k
        using Cons.prems(3) [of k] True by (auto simp: nam'_def x min_le_iff_disj split: option.splits)
      show "list_ex (\<lambda>d. binding_is_unbound ops d c) unbound \<longleftrightarrow>
        (\<exists>u \<in> set (pre @ [x]). is_unbind (kb_action (m_binding u)) \<and> \<not> suppressed S u \<and> binding_is_unbound ops (m_binding u) c)" for c
        using Cons.prems(4) [of c] excl [OF True] by (auto simp: x)
    qed
    moreover have "\<not> survives ops S x" using True by (simp add: survives_def special_def x)
    ultimately show ?thesis using True by (simp add: x nam'_def Let_def)
  next
    case no: False
    show ?thesis
    proof (cases "is_unbind (kb_action b) \<and> \<not> suppressed S x")
      case True
      have "resolve_matched ops ms nam (unbound @ [b]) = map snd (filter (survives ops S) ms)"
      proof (rule Cons.IH [OF pre])
        show "(case nam of Some m \<Rightarrow> k \<ge> m | None \<Rightarrow> False) \<longleftrightarrow>
          (\<exists>y \<in> set (pre @ [x]). is_no_action (kb_action (m_binding y)) \<and> binding_meta (m_binding y) \<le> k)" for k
          using Cons.prems(3) [of k] no by (auto simp: x)
        show "list_ex (\<lambda>d. binding_is_unbound ops d c) (unbound @ [b]) \<longleftrightarrow>
          (\<exists>u \<in> set (pre @ [x]). is_unbind (kb_action (m_binding u)) \<and> \<not> suppressed S u \<and> binding_is_unbound ops (m_binding u) c)" for c
          using Cons.prems(4) [of c] True by (auto simp: x)
      qed
      moreover have "\<not> survives ops S x" using True by (simp add: survives_def special_def x)
      ultimately show ?thesis using True no sup by (simp add: x Let_def)
    next
      case other: False
      have "resolve_matched ops ms nam unbound = map snd (filter (survives ops S) ms)"
      proof (rule Cons.IH [OF pre])
        show "(case nam of Some m \<Rightarrow> k \<ge> m | None \<Rightarrow> False) \<longleftrightarrow>
          (\<exists>y \<in> set (pre @ [x]). is_no_action (kb_action (m_binding y)) \<and> binding_meta (m_binding y) \<le> k)" for k
          using Cons.prems(3) [of k] no by (auto simp: x)
        show "list_ex (\<lambda>d. binding_is_unbound ops d c) unbound \<longleftrightarrow>
          (\<exists>u \<in> set (pre @ [x]). is_unbind (kb_action (m_binding u)) \<and> \<not> suppressed S u \<and> binding_is_unbound ops (m_binding u) c)" for c
          using Cons.prems(4) [of c] other by (auto simp: x)
      qed
      moreover have "survives ops S x \<longleftrightarrow> \<not> suppressed S x \<and> \<not> list_ex (\<lambda>d. binding_is_unbound ops d b) unbound"
        using unb other no by (auto simp: survives_def special_def x)
      ultimately show ?thesis using other no sup by (cases "suppressed S x") (simp_all add: x Let_def)
    qed
  qed
qed simp


section \<open>The dispatched bindings\<close>

definition matched_set :: "keystroke list \<Rightarrow> key_context list \<Rightarrow> (nat \<times> 'a key_binding) set \<Rightarrow> 'a matched set" where
  "matched_set input cs kbs =
     {(d, ix, b). (ix, b) \<in> kbs \<and> binding_enabled b cs = Some d \<and> match_keystrokes b input = Some False}"

lemma collect_matches_set:
  "set (fst (collect_matches input cs kbs)) = matched_set input cs (set kbs)"
  "set (snd (collect_matches input cs kbs)) =
     {(ix, b). (ix, b) \<in> set kbs \<and> binding_enabled b cs \<noteq> None \<and> match_keystrokes b input = Some True}"
  by (induction input cs kbs rule: collect_matches.induct)
    (auto simp: matched_set_def split: option.splits prod.splits bool.splits)

lemma collect_matches_sublist:
  "set (map (fst \<circ> snd) (fst (collect_matches input cs kbs))) \<subseteq> set (map fst kbs)"
  "sorted_wrt (\<lambda>x y. fst y < fst x) kbs \<Longrightarrow> distinct (map (fst \<circ> snd) (fst (collect_matches input cs kbs)))"
  "sorted_wrt (\<lambda>x y. fst y < fst x) kbs \<Longrightarrow> sorted_wrt (\<lambda>x y. fst y < fst x) (snd (collect_matches input cs kbs))"
proof -
  show sub: "set (map (fst \<circ> snd) (fst (collect_matches input cs kbs))) \<subseteq> set (map fst kbs)" for kbs :: "(nat \<times> 'a key_binding) list"
    unfolding set_map collect_matches_set by (force simp: matched_set_def)
  assume "sorted_wrt (\<lambda>x y. fst y < fst x) kbs"
  then have "distinct (map (fst \<circ> snd) (fst (collect_matches input cs kbs)))
    \<and> sorted_wrt (\<lambda>x y. fst y < fst x) (snd (collect_matches input cs kbs))"
  proof (induction kbs)
    case (Cons x kbs)
    obtain ix b where x: "x = (ix, b)" by (cases x)
    obtain m p where mp: "collect_matches input cs kbs = (m, p)" by (cases "collect_matches input cs kbs")
    have "ix \<notin> set (map (fst \<circ> snd) m)" using sub [of kbs] Cons.prems by (force simp: x mp)
    moreover have "\<forall>y \<in> set p. fst y < ix"
      using collect_matches_set(2) [of input cs kbs] Cons.prems by (force simp: x mp)
    ultimately show ?case using Cons by (simp add: x mp split: option.splits)
  qed simp
  then show "distinct (map (fst \<circ> snd) (fst (collect_matches input cs kbs)))"
    "sorted_wrt (\<lambda>x y. fst y < fst x) (snd (collect_matches input cs kbs))" by simp_all
qed

lemma precedence_cmp_Greater: "precedence_cmp x y = Greater \<longleftrightarrow> outranks y x"
  by (cases "fst x" "fst y" rule: linorder_cases)
    (auto simp: precedence_cmp_def outranks_def ord_cmp_def split: if_splits)

lemma sort_precedence_sorted:
  assumes "distinct (map (fst \<circ> snd) ms)"
  shows "sorted_wrt outranks (sort_by precedence_cmp ms)"
proof -
  let ?R = "\<lambda>x y :: 'a matched. \<not> outranks y x"
  have "sorted_wrt ?R (sort_by precedence_cmp ms)"
    by (rule sort_by_sorted) (auto simp: precedence_cmp_Greater outranks_def)
  moreover have "distinct (map (fst \<circ> snd) (sort_by precedence_cmp ms))"
    using assms by (metis mset_sort_by mset_eq_imp_distinct_iff mset_map)
  moreover have "sorted_wrt ?R xs \<Longrightarrow> distinct (map (fst \<circ> snd) xs) \<Longrightarrow> sorted_wrt outranks xs" for xs
    by (induction xs) (force simp: outranks_def)+
  ultimately show ?thesis by blast
qed

definition dispatched :: "'a action_ops \<Rightarrow> 'a matched set \<Rightarrow> 'a matched list \<Rightarrow> bool" where
  "dispatched ops S ms \<longleftrightarrow> sorted_wrt outranks ms \<and> set ms = {x \<in> S. survives ops S x}"

lemma sorted_outranks_unique:
  "sorted_wrt outranks xs \<Longrightarrow> sorted_wrt outranks ys \<Longrightarrow> set xs = set ys \<Longrightarrow> xs = ys"
proof (induction xs arbitrary: ys)
  case (Cons x xs)
  then obtain y ys' where ys: "ys = y # ys'" by (cases ys) auto
  have same: "x = y"
  proof (rule ccontr)
    assume "x \<noteq> y"
    with Cons.prems(3) have "x \<in> set ys'" "y \<in> set xs" by (auto simp: ys)
    with Cons.prems(1,2) have "outranks y x" "outranks x y" by (simp_all add: ys)
    then show False using outranks_asym by blast
  qed
  have "x \<notin> set xs" "y \<notin> set ys'" using Cons.prems(1,2) by (auto simp: ys outranks_irrefl)
  with Cons.prems(3) have "set xs = set ys'" by (auto simp: ys same)
  with Cons ys same show ?case by simp
qed simp

lemma dispatched_unique: "dispatched ops S ms \<Longrightarrow> dispatched ops S ms' \<Longrightarrow> ms = ms'"
  unfolding dispatched_def by (rule sorted_outranks_unique) simp_all

lemma resolve_bindings_ok:
  fixes kbs :: "(nat \<times> 'a key_binding) list"
  assumes "sorted_wrt (\<lambda>x y. fst y < fst x) kbs"
  obtains ms where "dispatched ops (matched_set input cs (set kbs)) ms"
    "fst (resolve_bindings_for_input ops input cs kbs) = map snd ms"
proof -
  let ?m = "sort_by precedence_cmp (fst (collect_matches input cs kbs))"
  define S where "S = matched_set input cs (set kbs)"
  have set: "set ?m = S" by (simp add: collect_matches_set S_def)
  have sorted: "sorted_wrt outranks ?m"
    using collect_matches_sublist(2) [OF assms] by (rule sort_precedence_sorted)
  have "resolve_matched ops ?m None [] = map snd (filter (survives ops S) ?m)"
    by (rule resolve_matched_eq [of "[]"]) (use sorted set in simp_all)
  moreover have "dispatched ops S (filter (survives ops S) ?m)"
    unfolding dispatched_def using sorted set by (auto intro: sorted_wrt_filter)
  ultimately show thesis
    by (intro that [of "filter (survives ops S) ?m"])
      (simp_all add: resolve_bindings_for_input_def S_def Let_def case_prod_unfold)
qed

lemma sorted_rev_enumerate: "sorted_wrt (\<lambda>x y. fst y < fst x) (rev (enumerate n xs))"
  by (induction xs arbitrary: n) (auto simp: sorted_wrt_append in_set_enumerate_eq)

abbreviation indexed :: "'a keymap \<Rightarrow> (nat \<times> 'a key_binding) set" where
  "indexed km \<equiv> set (rev (enumerate 0 (km_bindings km)))"

lemma in_indexed: "(ix, b) \<in> indexed km \<longleftrightarrow> ix < length (km_bindings km) \<and> km_bindings km ! ix = b"
  by (auto simp: in_set_enumerate_eq)


section \<open>Pending input\<close>

text \<open>
  More input may match when a plain binding extends the input, is not older than the first dispatched
  binding, and no later \<open>NoAction\<close> or \<open>Unbind\<close> takes the same keystrokes out again.
\<close>

lemma resolve_pending_filter:
  "resolve_pending first ps acc = resolve_pending None (filter (\<lambda>(ix, _). \<forall>f. first = Some f \<longrightarrow> f \<le> ix) ps) acc"
  by (induction first ps acc rule: resolve_pending.induct) (auto split: option.splits)

lemma resolve_pending_append:
  "resolve_pending first (ps @ qs) acc = resolve_pending first qs (resolve_pending first ps acc)"
  by (induction first ps acc rule: resolve_pending.induct) auto

lemma resolve_pending_None:
  assumes "sorted_wrt (\<lambda>x y. fst x < fst y) ps"
  shows "k \<in> set (resolve_pending None ps []) \<longleftrightarrow>
    (\<exists>(ix, b) \<in> set ps. \<not> special b \<and> kb_keystrokes b = k \<and> (\<forall>(jx, c) \<in> set ps. ix < jx \<and> special c \<longrightarrow> kb_keystrokes c \<noteq> k))"
  using assms
proof (induction ps rule: rev_induct)
  case (snoc p ps)
  obtain ix b where p: "p = (ix, b)" by (cases p)
  have later: "\<forall>(jx, c) \<in> set ps. jx < ix" and sorted: "sorted_wrt (\<lambda>x y. fst x < fst y) ps"
    using snoc.prems by (auto simp: p sorted_wrt_append)
  note IH = snoc.IH [OF sorted]
  show ?case
  proof (cases "special b")
    case True
    then have "k \<in> set (resolve_pending None (ps @ [p]) []) \<longleftrightarrow> k \<noteq> kb_keystrokes b \<and> k \<in> set (resolve_pending None ps [])"
      by (auto simp: resolve_pending_append p special_def)
    with True later show ?thesis unfolding IH by (fastforce simp: p)
  next
    case False
    then have "k \<in> set (resolve_pending None (ps @ [p]) []) \<longleftrightarrow> k = kb_keystrokes b \<or> k \<in> set (resolve_pending None ps [])"
      by (auto simp: resolve_pending_append p special_def)
    with False later show ?thesis unfolding IH by (fastforce simp: p)
  qed
qed simp

definition pending_binding :: "nat option \<Rightarrow> (nat \<times> 'a key_binding) set \<Rightarrow> nat \<Rightarrow> 'a key_binding \<Rightarrow> bool" where
  "pending_binding first P ix b \<longleftrightarrow> (ix, b) \<in> P \<and> \<not> special b \<and> (\<forall>f. first = Some f \<longrightarrow> f \<le> ix)
     \<and> (\<forall>(jx, c) \<in> P. ix < jx \<and> special c \<longrightarrow> kb_keystrokes c \<noteq> kb_keystrokes b)"

lemma resolve_pending_ok:
  assumes "sorted_wrt (\<lambda>x y. fst x < fst y) ps"
  shows "resolve_pending first ps [] \<noteq> [] \<longleftrightarrow> (\<exists>ix b. pending_binding first (set ps) ix b)"
proof -
  let ?ps = "filter (\<lambda>(ix, _). \<forall>f. first = Some f \<longrightarrow> f \<le> ix) ps"
  have sorted: "sorted_wrt (\<lambda>x y. fst x < fst y) ?ps" using assms by (rule sorted_wrt_filter)
  have "resolve_pending first ps [] \<noteq> [] \<longleftrightarrow> (\<exists>k. k \<in> set (resolve_pending None ?ps []))"
    by (subst resolve_pending_filter) (cases "resolve_pending None ?ps []"; auto)
  also have "\<dots> \<longleftrightarrow> (\<exists>ix b. pending_binding first (set ps) ix b)"
  proof
    assume "\<exists>k. k \<in> set (resolve_pending None ?ps [])"
    then obtain ix b where "(ix, b) \<in> set ?ps" "\<not> special b"
      "\<forall>(jx, c) \<in> set ?ps. ix < jx \<and> special c \<longrightarrow> kb_keystrokes c \<noteq> kb_keystrokes b"
      unfolding resolve_pending_None [OF sorted] by auto
    then have "pending_binding first (set ps) ix b"
      unfolding pending_binding_def by (auto dest: less_imp_le le_trans) (meson less_imp_le le_trans)
    then show "\<exists>ix b. pending_binding first (set ps) ix b" by blast
  next
    assume "\<exists>ix b. pending_binding first (set ps) ix b"
    then obtain ix b where "pending_binding first (set ps) ix b" by blast
    then have "kb_keystrokes b \<in> set (resolve_pending None ?ps [])"
      unfolding resolve_pending_None [OF sorted] pending_binding_def by (intro bexI [of _ "(ix, b)"]) auto
    then show "\<exists>k. k \<in> set (resolve_pending None ?ps [])" by blast
  qed
  finally show ?thesis .
qed

lemma resolve_bindings_pending:
  fixes kbs :: "(nat \<times> 'a key_binding) list"
  assumes sorted: "sorted_wrt (\<lambda>x y. fst y < fst x) kbs"
    and res: "resolve_bindings_for_input ops input cs kbs = (bindings, pending)"
  shows "pending \<longleftrightarrow> (\<exists>ix b. pending_binding (case bindings of (ix, _) # _ \<Rightarrow> Some ix | [] \<Rightarrow> None)
     {(ix, b). (ix, b) \<in> set kbs \<and> binding_enabled b cs \<noteq> None \<and> match_keystrokes b input = Some True} ix b)"
proof -
  define ps where "ps = snd (collect_matches input cs kbs)"
  have "sorted_wrt (\<lambda>x y. fst x < fst y) (rev ps)"
    using collect_matches_sublist(3) [OF sorted] by (simp add: ps_def sorted_wrt_rev)
  from resolve_pending_ok [OF this] res show ?thesis
    by (auto simp: resolve_bindings_for_input_def Let_def case_prod_unfold ps_def collect_matches_set)
qed

section \<open>Possible next bindings\<close>

lemma match_extended:
  assumes "match_keystrokes b (input @ tail) = Some p" "tail \<noteq> []"
  shows "match_keystrokes b input = Some True"
proof -
  have len: "length input + length tail \<le> length (kb_keystrokes b)"
    and all: "list_all (\<lambda>(target, t). should_match t target) (zip (kb_keystrokes b) (input @ tail))"
    using assms(1) by (auto simp: match_keystrokes_def split: if_splits)
  have "zip (kb_keystrokes b) input = take (length input) (zip (kb_keystrokes b) (input @ tail))"
    using len by (intro nth_equalityI) (simp_all add: nth_append)
  then have "list_all (\<lambda>(target, t). should_match t target) (zip (kb_keystrokes b) input)"
    using all by (metis append_take_drop_id list_all_append)
  with len assms(2) show ?thesis by (cases tail) (auto simp: match_keystrokes_def)
qed

lemma collect_matches_filter:
  assumes "\<And>ix b. (ix, b) \<in> set kbs \<Longrightarrow> \<not> P (ix, b) \<Longrightarrow> match_keystrokes b input = None"
  shows "collect_matches input cs (filter P kbs) = collect_matches input cs kbs"
  using assms
proof (induction kbs)
  case (Cons x kbs)
  obtain ix b where x: "x = (ix, b)" by (cases x)
  have IH: "collect_matches input cs (filter P kbs) = collect_matches input cs kbs" using Cons by auto
  show ?case
    using Cons.prems [of ix b] by (cases "P x") (auto simp: x IH split: option.splits prod.splits)
qed simp


lemma resolve_filter:
  assumes "\<And>ix b. (ix, b) \<in> set kbs \<Longrightarrow> \<not> P (ix, b) \<Longrightarrow> match_keystrokes b input = None"
  shows "resolve_bindings_for_input ops input cs (filter P kbs) = resolve_bindings_for_input ops input cs kbs"
  unfolding resolve_bindings_for_input_def using collect_matches_filter [OF assms] by simp

definition completed :: "keystroke list \<Rightarrow> 'a key_binding \<Rightarrow> keystroke list" where
  "completed input b = input @ drop (length input) (kb_keystrokes b)"

text \<open>
  Resolving a completed input against the pre-filtered bindings is resolving it against the whole
  keymap, as the comment of \<open>resolve_bindings_for_input\<close> requires.
\<close>

lemma resolve_extending:
  assumes "match_keystrokes b input = Some True"
  shows "resolve_bindings_for_input ops (completed input b) cs (filter (\<lambda>(_, b). match_keystrokes b input = Some True) kbs)
     = resolve_bindings_for_input ops (completed input b) cs kbs"
proof (rule resolve_filter)
  fix jx c
  assume "\<not> (case (jx, c) of (_, b) \<Rightarrow> match_keystrokes b input = Some True)"
  moreover have "drop (length input) (kb_keystrokes b) \<noteq> []"
    using assms by (auto simp: match_keystrokes_def split: if_splits)
  ultimately show "match_keystrokes c (completed input b) = None"
    using match_extended [of c input "drop (length input) (kb_keystrokes b)"]
    by (cases "match_keystrokes c (completed input b)") (simp_all add: completed_def)
qed

lemma dispatched_plain:
  assumes "sorted_wrt (\<lambda>x y. fst y < fst x) kbs" "(ix, b) \<in> set (fst (resolve_bindings_for_input ops input cs kbs))"
  shows "(ix, b) \<in> set kbs" "\<not> special b" "\<exists>d. binding_enabled b cs = Some d"
proof -
  obtain ms where ms: "dispatched ops (matched_set input cs (set kbs)) ms"
    "fst (resolve_bindings_for_input ops input cs kbs) = map snd ms"
    by (rule resolve_bindings_ok [OF assms(1)])
  then obtain d where "(d, ix, b) \<in> set ms" using assms(2) by auto
  with ms(1) show "(ix, b) \<in> set kbs" "\<not> special b" "\<exists>d. binding_enabled b cs = Some d"
    by (auto simp: dispatched_def survives_def matched_set_def)
qed

lemma set_map_filter: "set (List.map_filter f xs) = {y. \<exists>x \<in> set xs. f x = Some y}"
  by (force simp: List.map_filter_def)

definition next_candidate ::
    "'a action_ops \<Rightarrow> 'a keymap \<Rightarrow> keystroke list \<Rightarrow> key_context list \<Rightarrow> nat \<Rightarrow> 'a key_binding \<Rightarrow> bool" where
  "next_candidate ops km input cs ix b \<longleftrightarrow> match_keystrokes b input = Some True
     \<and> (ix, b) \<in> set (fst (resolve_bindings_for_input ops (completed input b) cs (rev (enumerate 0 (km_bindings km)))))"

lemma possible_next_ok:
  fixes km :: "'a keymap"
  obtains cands where "sorted_wrt outranks cands"
    "set cands = {(d, ix, b). next_candidate ops km input cs ix b \<and> binding_enabled b cs = Some d}"
    "possible_next_bindings_for_input ops km input cs = map m_binding cands"
proof -
  define kbs where "kbs = rev (enumerate 0 (km_bindings km))"
  define ext where "ext = filter (\<lambda>(_, b). match_keystrokes b input = Some True) kbs"
  define f where "f = (\<lambda>(ix, b :: 'a key_binding). do {
      depth \<leftarrow> binding_enabled b cs;
      let full_input = input @ drop (length input) (kb_keystrokes b);
      let (dispatched, _) = resolve_bindings_for_input ops full_input cs ext;
      if list_ex (\<lambda>(dispatched_ix, _). dispatched_ix = ix) dispatched then Some (depth, ix, b) else None })"
  define cs' where "cs' = List.map_filter f (filter (\<lambda>(_, b). \<not> special b) ext)"
  have sorted: "sorted_wrt (\<lambda>x y. fst y < fst x) kbs" unfolding kbs_def by (rule sorted_rev_enumerate)
  have same_ix: "b = c" if "(ix, b) \<in> set kbs" "(ix, c) \<in> set kbs" for ix b c
    using that by (auto simp: kbs_def in_set_enumerate_eq)
  have ext: "(ix, b) \<in> set ext \<longleftrightarrow> (ix, b) \<in> set kbs \<and> match_keystrokes b input = Some True" for ix b
    by (auto simp: ext_def)
  have f: "f (ix, b) = Some (d, jx, c) \<longleftrightarrow> jx = ix \<and> c = b \<and> binding_enabled b cs = Some d
      \<and> (ix, b) \<in> set (fst (resolve_bindings_for_input ops (completed input b) cs kbs))"
    if "(ix, b) \<in> set ext" for ix b d jx c
  proof -
    have res: "resolve_bindings_for_input ops (completed input b) cs ext = resolve_bindings_for_input ops (completed input b) cs kbs"
      unfolding ext_def by (rule resolve_extending) (use that ext in blast)
    have "(ix, b) \<in> set (fst (resolve_bindings_for_input ops (completed input b) cs kbs)) \<longleftrightarrow>
        list_ex (\<lambda>(j, _). j = ix) (fst (resolve_bindings_for_input ops (completed input b) cs kbs))"
      (is "_ \<in> set ?R \<longleftrightarrow> _")
    proof -
      have "c = b" if "(ix, c) \<in> set ?R" for c
        using dispatched_plain(1) [OF sorted that] \<open>(ix, b) \<in> set ext\<close> ext same_ix by blast
      then show ?thesis by (auto simp: list_ex_iff)
    qed
    then show ?thesis
      unfolding f_def using res by (auto simp: completed_def [symmetric] Let_def case_prod_unfold split: bind_splits if_splits)
  qed
  have set: "set cs' = {(d, ix, b). next_candidate ops km input cs ix b \<and> binding_enabled b cs = Some d}"
    (is "_ = ?C")
  proof (rule set_eqI)
    fix y :: "'a matched"
    obtain d jx c where y: "y = (d, jx, c)" by (cases y) auto
    have "y \<in> set cs' \<longleftrightarrow> (\<exists>ix b. (ix, b) \<in> set ext \<and> \<not> special b \<and> f (ix, b) = Some y)"
      by (auto simp: cs'_def set_map_filter)
    also have "\<dots> \<longleftrightarrow> (jx, c) \<in> set ext \<and> \<not> special c \<and> f (jx, c) = Some y"
      using f [of _ _ d jx c] unfolding y by blast
    also have "\<dots> \<longleftrightarrow> next_candidate ops km input cs jx c \<and> binding_enabled c cs = Some d"
      using dispatched_plain(1,2) [OF sorted, of jx c ops "completed input c" cs] f [of jx c d jx c] ext [of jx c]
      unfolding y next_candidate_def kbs_def [symmetric] by blast
    also have "\<dots> \<longleftrightarrow> y \<in> ?C" by (simp add: y)
    finally show "y \<in> set cs' \<longleftrightarrow> y \<in> ?C" .
  qed
  have ix: "fst (snd y) = fst x" if "x \<in> set ext" "f x = Some y" for x y
    using f [of "fst x" "snd x" "fst y" "fst (snd y)" "snd (snd y)"] that by simp
  have "map (fst \<circ> snd) (List.map_filter f xs) = map fst (filter (\<lambda>x. f x \<noteq> None) xs)" if "set xs \<subseteq> set ext" for xs
    using that ix by (induction xs) (auto simp: List.map_filter_def)
  moreover have "distinct (map fst kbs)" by (simp add: kbs_def rev_map [symmetric])
  ultimately have "distinct (map (fst \<circ> snd) cs')"
    unfolding cs'_def ext_def by (simp add: ext_def [symmetric] distinct_map_filter) (simp add: ext_def distinct_map_filter)
  then have "sorted_wrt outranks (sort_by precedence_cmp cs')" by (rule sort_precedence_sorted)
  moreover have "possible_next_bindings_for_input ops km input cs = map m_binding (sort_by precedence_cmp cs')"
    unfolding possible_next_bindings_for_input_def cs'_def f_def ext_def kbs_def special_def by (simp add: Let_def comp_def)
  ultimately show thesis using set that [of "sort_by precedence_cmp cs'"] by simp
qed

end
