(* ===== verification/KeyPredicate.thy ===== *)
theory KeyPredicate
  imports KeyContext
begin

text \<open>
  The predicate parser and printer of \<open>gpui/src/keymap/context.rs\<close>. Parsing is precedence climbing;
  every call of the three mutually recursive functions takes one unit of fuel, and \<^const>\<open>None\<close> is
  running out of it. Errors are values of a sum.
\<close>

section \<open>Parser\<close>

datatype parse_error =
  UnexpectedEnd
| UnexpectedCharacter char
| ExpectedParen
| EqOperands
| NeqOperands

datatype operator = ChildOp | AndOp | OrOp | EqOp | NeqOp

definition PRECEDENCE_CHILD :: nat where "PRECEDENCE_CHILD = 1"
definition PRECEDENCE_OR :: nat where "PRECEDENCE_OR = 2"
definition PRECEDENCE_AND :: nat where "PRECEDENCE_AND = 3"
definition PRECEDENCE_EQ :: nat where "PRECEDENCE_EQ = 4"
definition PRECEDENCE_NOT :: nat where "PRECEDENCE_NOT = 5"

text \<open>The constructors \<open>new_child\<close>, \<open>new_and\<close>, \<open>new_or\<close>, \<open>new_eq\<close>, \<open>new_neq\<close>.\<close>

fun new_predicate :: "operator \<Rightarrow> context_predicate \<Rightarrow> context_predicate \<Rightarrow> parse_error + context_predicate" where
  "new_predicate ChildOp p q = Inr (Descendant p q)"
| "new_predicate AndOp p q = Inr (Both p q)"
| "new_predicate OrOp p q = Inr (Either p q)"
| "new_predicate EqOp (Identifier l) (Identifier r) = Inr (EqualTo l r)"
| "new_predicate EqOp _ _ = Inl EqOperands"
| "new_predicate NeqOp (Identifier l) (Identifier r) = Inr (NotEqualTo l r)"
| "new_predicate NeqOp _ _ = Inl NeqOperands"

definition operators :: "(string \<times> nat \<times> operator) list" where
  "operators =
     [(''>'', PRECEDENCE_CHILD, ChildOp), (''&&'', PRECEDENCE_AND, AndOp), (''||'', PRECEDENCE_OR, OrOp),
      (''=='', PRECEDENCE_EQ, EqOp), (''!='', PRECEDENCE_EQ, NeqOp)]"

definition starts_with :: "string \<Rightarrow> string \<Rightarrow> bool" where
  "starts_with operator source \<longleftrightarrow> take (length operator) source = operator"

definition find_operator :: "string \<Rightarrow> nat \<Rightarrow> (string \<times> nat \<times> operator) option" where
  "find_operator source min_precedence =
     List.find (\<lambda>(operator, precedence, _). starts_with operator source \<and> min_precedence \<le> precedence) operators"

type_synonym parsed = "(parse_error + context_predicate \<times> string) option"

fun parse_expr :: "nat \<Rightarrow> string \<Rightarrow> nat \<Rightarrow> parsed"
  and parse_operators :: "nat \<Rightarrow> context_predicate \<Rightarrow> string \<Rightarrow> nat \<Rightarrow> parsed"
  and parse_primary :: "nat \<Rightarrow> string \<Rightarrow> parsed" where
  "parse_expr 0 source min_precedence = None"
| "parse_expr (Suc fuel) source min_precedence =
     (case parse_primary fuel source of
        None \<Rightarrow> None
      | Some (Inl e) \<Rightarrow> Some (Inl e)
      | Some (Inr (predicate, rest)) \<Rightarrow> parse_operators fuel predicate rest min_precedence)"
| "parse_operators 0 predicate source min_precedence = None"
| "parse_operators (Suc fuel) predicate source min_precedence =
     (case find_operator source min_precedence of
        None \<Rightarrow> Some (Inr (predicate, source))
      | Some (operator, precedence, op) \<Rightarrow>
          (case parse_expr fuel (skip_whitespace (drop (length operator) source)) (precedence + 1) of
             None \<Rightarrow> None
           | Some (Inl e) \<Rightarrow> Some (Inl e)
           | Some (Inr (right, rest)) \<Rightarrow>
               (case new_predicate op predicate right of
                  Inl e \<Rightarrow> Some (Inl e)
                | Inr predicate' \<Rightarrow> parse_operators fuel predicate' rest min_precedence)))"
| "parse_primary 0 source = None"
| "parse_primary (Suc fuel) source =
     (case source of
        [] \<Rightarrow> Some (Inl UnexpectedEnd)
      | next # cs \<Rightarrow>
          if next = CHR ''('' then
            (case parse_expr fuel (skip_whitespace cs) 0 of
               None \<Rightarrow> None
             | Some (Inl e) \<Rightarrow> Some (Inl e)
             | Some (Inr (predicate, rest)) \<Rightarrow>
                 if starts_with '')'' rest then Some (Inr (predicate, skip_whitespace (drop 1 rest)))
                 else Some (Inl ExpectedParen))
          else if next = CHR ''!'' then
            (case parse_expr fuel (skip_whitespace cs) PRECEDENCE_NOT of
               None \<Rightarrow> None
             | Some (Inl e) \<Rightarrow> Some (Inl e)
             | Some (Inr (predicate, rest)) \<Rightarrow> Some (Inr (Negate predicate, rest)))
          else if is_identifier_char next then
            let identifier = takeWhile (\<lambda>c. is_identifier_char c \<or> is_vim_operator_char c) source
            in Some (Inr (Identifier identifier, skip_whitespace (drop (length identifier) source)))
          else if is_vim_operator_char next then
            Some (Inr (Identifier [next], skip_whitespace cs))
          else Some (Inl (UnexpectedCharacter next)))"

text \<open>The fuel for a source: two calls for every character, and two more.\<close>

definition parse_predicate :: "string \<Rightarrow> (parse_error + context_predicate) option" where
  "parse_predicate source =
     (let source = skip_whitespace source in
      case parse_expr (2 * length source + 2) source 0 of
        None \<Rightarrow> None
      | Some (Inl e) \<Rightarrow> Some (Inl e)
      | Some (Inr (predicate, rest)) \<Rightarrow>
          (case rest of next # _ \<Rightarrow> Some (Inl (UnexpectedCharacter next)) | [] \<Rightarrow> Some (Inr predicate)))"

section \<open>Printer\<close>

datatype logical_operator = And_op | Or_op

fun separator :: "logical_operator \<Rightarrow> string" where
  "separator And_op = '' && ''"
| "separator Or_op = '' || ''"

fun needs_parens :: "logical_operator \<Rightarrow> context_predicate \<Rightarrow> bool" where
  "needs_parens And_op (Either _ _) = True"
| "needs_parens Or_op (Both _ _) = True"
| "needs_parens _ _ = False"

fun operands :: "logical_operator \<Rightarrow> context_predicate \<Rightarrow> (context_predicate \<times> context_predicate) option" where
  "operands And_op (Both l r) = Some (l, r)"
| "operands Or_op (Either l r) = Some (l, r)"
| "operands _ _ = None"

lemma operands_size [termination_simp]: "operands op p = Some (l, r) \<Longrightarrow> size l < size p \<and> size r < size p"
  by (cases "(op, p)" rule: operands.cases) auto

text \<open>
  \<open>Display::fmt\<close> and \<open>fmt_joined_inner\<close>; the latter returns the text and the updated \<open>first\<close> flag.
\<close>

function display :: "context_predicate \<Rightarrow> string"
  and fmt_joined_inner :: "logical_operator \<Rightarrow> context_predicate \<Rightarrow> bool \<Rightarrow> string \<times> bool" where
  "display (Identifier name) = name"
| "display (EqualTo l r) = l @ '' == '' @ r"
| "display (NotEqualTo l r) = l @ '' != '' @ r"
| "display (Descendant parent child) = display parent @ '' > '' @ display child"
| "display (Negate pred) =
     (case pred of
        Identifier name \<Rightarrow> ''!'' @ name
      | _ \<Rightarrow> ''!('' @ display pred @ '')'')"
| "display (Both l r) =
     (let (s, first) = fmt_joined_inner And_op l True; (t, _) = fmt_joined_inner And_op r first in s @ t)"
| "display (Either l r) =
     (let (s, first) = fmt_joined_inner Or_op l True; (t, _) = fmt_joined_inner Or_op r first in s @ t)"
| "fmt_joined_inner op node first =
     (case operands op node of
        Some (l, r) \<Rightarrow>
          (let (s, first') = fmt_joined_inner op l first; (t, first'') = fmt_joined_inner op r first'
           in (s @ t, first''))
      | None \<Rightarrow>
          ((if \<not> first then separator op else '''')
             @ (if needs_parens op node then ''('' @ display node @ '')'' else display node), False))"
  by pat_completeness auto
termination
  by (relation "measure (\<lambda>x. case x of Inl p \<Rightarrow> 2 * size p | Inr (_, p, _) \<Rightarrow> 2 * size p + 1)")
    (auto dest: operands_size)

section \<open>The parser always has an answer\<close>

lemma find_SomeD: "List.find P xs = Some x \<Longrightarrow> P x \<and> x \<in> set xs"
  by (induction xs) (auto split: if_splits)

lemma find_operator_length:
  assumes "find_operator source m = Some (op, prec, c)"
  shows "0 < length op \<and> length op \<le> length source"
proof -
  from find_SomeD [OF assms [unfolded find_operator_def]]
  have "take (length op) source = op" "(op, prec, c) \<in> set operators" by (simp_all add: starts_with_def)
  moreover from this(2) have "op \<noteq> []" by (auto simp: operators_def)
  ultimately show ?thesis by (metis length_greater_0_conv length_take min_def nat_le_linear)
qed

lemma operator_rest:
  assumes "find_operator source m = Some (op, prec, c)"
  shows "length (skip_whitespace (drop (length op) source)) < length source"
  using find_operator_length [OF assms] length_skip_whitespace [of "drop (length op) source"]
  unfolding length_drop by linarith

text \<open>What is left after a successful parse is shorter, by at least one character after a primary.\<close>

lemma parse_shrinks:
  "parse_expr fuel source m = Some (Inr (p, rest)) \<Longrightarrow> length rest < length source"
  "parse_operators fuel q source m = Some (Inr (p, rest)) \<Longrightarrow> length rest \<le> length source"
  "parse_primary fuel source = Some (Inr (p, rest)) \<Longrightarrow> length rest < length source"
proof (induction fuel source m and fuel q source m and fuel source arbitrary: p rest and p rest and p rest
    rule: parse_expr_parse_operators_parse_primary.induct)
  case (2 fuel source m)
  from 2(3) obtain p1 r1 where "parse_primary fuel source = Some (Inr (p1, r1))"
      "parse_operators fuel p1 r1 m = Some (Inr (p, rest))"
    by (auto split: option.splits sum.splits)
  with 2(1,2) show ?case by fastforce
next
  case (4 fuel q source m)
  show ?case
  proof (cases "find_operator source m")
    case None
    with 4(3) show ?thesis by simp
  next
    case (Some a)
    then obtain op prec c where f: "find_operator source m = Some (op, prec, c)" by (cases a) auto
    define src where "src = skip_whitespace (drop (length op) source)"
    from 4(3) f obtain r r1 q' where e: "parse_expr fuel src (prec + 1) = Some (Inr (r, r1))"
        "new_predicate c q r = Inr q'" "parse_operators fuel q' r1 m = Some (Inr (p, rest))"
      by (auto simp: src_def split: option.splits sum.splits)
    have "length r1 < length src" using 4(1) f e(1) by (auto simp: src_def)
    moreover have "length rest \<le> length r1" using 4(2) f e by (fastforce simp: src_def)
    ultimately show ?thesis using operator_rest [OF f] by (simp add: src_def)
  qed
next
  case (6 fuel source)
  then obtain c cs where source: "source = c # cs" by (cases source) auto
  have le: "length (skip_whitespace cs) \<le> length cs" by (rule length_skip_whitespace)
  consider "c = CHR ''(''" | "c = CHR ''!''" | "c \<noteq> CHR ''(''" "c \<noteq> CHR ''!''" by blast
  then show ?case
  proof cases
    case 1
    with 6(3) source obtain r where "parse_expr fuel (skip_whitespace cs) 0 = Some (Inr (p, r))"
        "rest = skip_whitespace (drop 1 r)"
      by (auto split: option.splits sum.splits if_splits)
    with 6(1) source 1 le length_skip_whitespace [of "drop 1 r"] show ?thesis by fastforce
  next
    case 2
    with 6(3) source obtain q where "parse_expr fuel (skip_whitespace cs) PRECEDENCE_NOT = Some (Inr (q, rest))"
      by (auto split: option.splits sum.splits)
    with 6(2) source 2 le show ?thesis by fastforce
  next
    case 3
    with 6(3) source le
      length_skip_whitespace [of "drop (length (takeWhile (\<lambda>c. is_identifier_char c \<or> is_vim_operator_char c) cs)) cs"]
    show ?thesis by (auto simp: Let_def split: if_splits)
  qed
qed simp_all

text \<open>With enough fuel there is a result.\<close>

lemma parse_enough:
  "2 * length source + 2 \<le> fuel \<Longrightarrow> parse_expr fuel source m \<noteq> None"
  "2 * length source + 1 \<le> fuel \<Longrightarrow> parse_operators fuel q source m \<noteq> None"
  "2 * length source + 1 \<le> fuel \<Longrightarrow> parse_primary fuel source \<noteq> None"
proof (induction fuel source m and fuel q source m and fuel source rule: parse_expr_parse_operators_parse_primary.induct)
  case (2 fuel source m)
  have "parse_operators fuel p r m \<noteq> None" if "parse_primary fuel source = Some (Inr (p, r))" for p r
    using 2(2) [OF that refl refl] parse_shrinks(3) [OF that] 2(3) by simp
  with 2(1,3) show ?case by (auto split: option.splits sum.splits)
next
  case (4 fuel q source m)
  show ?case
  proof (cases "find_operator source m")
    case (Some a)
    then obtain op prec c where f: "find_operator source m = Some (op, prec, c)" by (cases a) auto
    define src where "src = skip_whitespace (drop (length op) source)"
    have lt: "length src < length source" using operator_rest [OF f] by (simp add: src_def)
    have "parse_expr fuel src (prec + 1) \<noteq> None" using 4(1) f lt 4(3) by (auto simp: src_def)
    moreover have "parse_operators fuel q' r1 m \<noteq> None"
      if "parse_expr fuel src (prec + 1) = Some (Inr (r, r1))" "new_predicate c q r = Inr q'" for r r1 q'
      using 4(2) f that parse_shrinks(1) [OF that(1)] lt 4(3) by (fastforce simp: src_def)
    ultimately show ?thesis using f by (auto simp: src_def split: option.splits sum.splits)
  qed simp
next
  case (6 fuel source)
  show ?case
  proof (cases source)
    case (Cons c cs)
    have "length (skip_whitespace cs) \<le> length cs" by (rule length_skip_whitespace)
    then have len: "2 * length (skip_whitespace cs) + 2 \<le> fuel" using 6(3) Cons by simp
    have "parse_expr fuel (skip_whitespace cs) 0 \<noteq> None" if "c = CHR ''(''" using 6(1) [OF Cons that len] .
    moreover have "parse_expr fuel (skip_whitespace cs) PRECEDENCE_NOT \<noteq> None" if "c = CHR ''!''"
      using that 6(2) [OF Cons _ that len] by simp
    ultimately show ?thesis using Cons by (cases "c = CHR ''(''"; cases "c = CHR ''!''") (auto simp: Let_def split: sum.splits)
  qed simp
qed simp_all

text \<open>More fuel changes nothing.\<close>

lemma parse_more_fuel:
  "parse_expr fuel source m = Some r \<Longrightarrow> fuel \<le> fuel' \<Longrightarrow> parse_expr fuel' source m = Some r"
  "parse_operators fuel q source m = Some r \<Longrightarrow> fuel \<le> fuel' \<Longrightarrow> parse_operators fuel' q source m = Some r"
  "parse_primary fuel source = Some r \<Longrightarrow> fuel \<le> fuel' \<Longrightarrow> parse_primary fuel' source = Some r"
proof (induction fuel source m and fuel q source m and fuel source arbitrary: r fuel' and r fuel' and r fuel'
    rule: parse_expr_parse_operators_parse_primary.induct)
  case (2 fuel source m)
  from 2(4) obtain n where n: "fuel' = Suc n" "fuel \<le> n" by (cases fuel') auto
  show ?case
  proof (cases "parse_primary fuel source")
    case None
    with 2(3) show ?thesis by simp
  next
    case (Some x)
    have "parse_operators n p rest m = Some r" if "x = Inr (p, rest)" "parse_operators fuel p rest m = Some r" for p rest
      using 2(2) [OF Some that(1) refl that(2) n(2)] .
    with 2(3) Some 2(1) [OF Some n(2)] n(1) show ?thesis by (auto split: sum.splits)
  qed
next
  case (4 fuel q source m)
  from 4(4) obtain n where "fuel' = Suc n" "fuel \<le> n" by (cases fuel') auto
  show ?case
  proof (cases "find_operator source m")
    case None
    with 4(3) \<open>fuel' = Suc n\<close> show ?thesis by simp
  next
    case (Some a)
    then obtain op prec c where f: "find_operator source m = Some (op, prec, c)" by (cases a) auto
    define src where "src = skip_whitespace (drop (length op) source)"
    have e: "parse_expr fuel src (prec + 1) = Some x \<Longrightarrow> parse_expr n src (prec + 1) = Some x" for x
      using 4(1) [OF f refl refl _ \<open>fuel \<le> n\<close>] unfolding src_def .
    have o: "parse_operators n q' r1 m = Some x"
      if "parse_expr fuel src (prec + 1) = Some (Inr (right, r1))" "new_predicate c q right = Inr q'"
        "parse_operators fuel q' r1 m = Some x" for right r1 q' x
      using 4(2) [OF f refl refl that(1) [unfolded src_def] refl refl that(2,3) \<open>fuel \<le> n\<close>] .
    show ?thesis
    proof (cases "parse_expr fuel src (prec + 1)")
      case None
      with 4(3) f show ?thesis by (simp add: src_def)
    next
      case (Some x)
      with 4(3) f e [OF Some] o \<open>fuel' = Suc n\<close> show ?thesis
        by (auto simp: src_def split: sum.splits)
    qed
  qed
next
  case (6 fuel source)
  from 6(4) obtain n where n: "fuel' = Suc n" "fuel \<le> n" by (cases fuel') auto
  show ?case
  proof (cases source)
    case Nil
    with 6(3) n show ?thesis by simp
  next
    case (Cons c cs)
    consider "c = CHR ''(''" | "c = CHR ''!''" | "c \<noteq> CHR ''(''" "c \<noteq> CHR ''!''" by blast
    then show ?thesis
    proof cases
      case 1
      with 6(3) Cons obtain x where "parse_expr fuel (skip_whitespace cs) 0 = Some x" by (auto split: option.splits)
      with 6(1) [OF Cons 1 this n(2)] 6(3) Cons 1 n(1) show ?thesis by simp
    next
      case 2
      with 6(3) Cons obtain x where x: "parse_expr fuel (skip_whitespace cs) PRECEDENCE_NOT = Some x"
        by (auto split: option.splits)
      have "c \<noteq> CHR ''(''" using 2 by simp
      with 6(2) [OF Cons this 2 x n(2)] x 6(3) Cons 2 n(1) show ?thesis by simp
    next
      case 3
      with 6(3) Cons n(1) show ?thesis by simp
    qed
  qed
qed simp_all

end
