(* ===== verification/Keymap_Properties.thy ===== *)
theory Keymap_Properties
  imports Keymap KeyPredicate
begin

text \<open>
  The properties of key contexts, context predicates, keystrokes and the keymap (\<open>gpui/src/keymap.rs\<close>,
  \<open>gpui/src/keymap/*.rs\<close>, \<open>gpui/src/platform/keystroke.rs\<close>).
\<close>

definition sample_actions :: "nat action_ops" where
  "sample_actions = \<lparr>app_type_id = (\<lambda>a. a), app_name = (\<lambda>_. ''app::Run''), app_eq = (=)\<rparr>"

definition sample_binding :: "nat key_binding" where
  "sample_binding = \<lparr>kb_action = AppAction 1, kb_keystrokes = [\<lparr>ks_modifiers = no_modifiers, ks_key = ''a'', ks_key_char = None\<rparr>],
     kb_context_predicate = None, kb_meta = None, kb_action_input = None\<rparr>"

section \<open>Dispatch\<close>

text \<open>
  C16: \<open>bindings_for_input\<close> returns, from highest to lowest precedence (deeper context first, then the later
  binding), exactly the plain bindings that match the whole input in the context and that no stronger or equal
  \<open>NoAction\<close> of higher precedence suppresses and no effective \<open>Unbind\<close> of higher precedence names.
\<close>

theorem dispatch_is_survivors:
  "\<exists>ms. sorted_wrt outranks ms
     \<and> set ms = {x \<in> matched_set input cs (indexed km). survives ops (matched_set input cs (indexed km)) x}
     \<and> fst (bindings_for_input ops km input cs) = map m_binding ms"
proof -
  obtain ms where "dispatched ops (matched_set input cs (indexed km)) ms"
    "fst (resolve_bindings_for_input ops input cs (rev (enumerate 0 (km_bindings km)))) = map snd ms"
    by (rule resolve_bindings_ok [OF sorted_rev_enumerate])
  then show ?thesis
    unfolding dispatched_def bindings_for_input_def by (intro exI [of _ ms]) (simp add: case_prod_unfold comp_def)
qed

text \<open>
  The pending flag of \<open>bindings_for_input\<close> is set exactly when some plain binding of the context
  extends the input, is not older than the first dispatched binding, and no later \<open>NoAction\<close> or \<open>Unbind\<close> of
  the context takes its keystrokes out again.
\<close>

theorem pending_is_extendable:
  "snd (bindings_for_input ops km input cs) \<longleftrightarrow>
     (\<exists>ix b. pending_binding
        (case fst (resolve_bindings_for_input ops input cs (rev (enumerate 0 (km_bindings km)))) of
           (ix, _) # _ \<Rightarrow> Some ix | [] \<Rightarrow> None)
        {(ix, b). (ix, b) \<in> indexed km \<and> binding_enabled b cs \<noteq> None \<and> match_keystrokes b input = Some True} ix b)"
  using resolve_bindings_pending [OF sorted_rev_enumerate, of ops input cs 0 "km_bindings km", OF surjective_pairing]
  by (simp add: bindings_for_input_def case_prod_unfold Let_def)

text \<open>
  C20: \<open>possible_next_bindings_for_input\<close> lists, in precedence order, exactly the bindings that extend the
  input and that dispatch would run for the input completed by their remaining keystrokes, resolved against the
  whole keymap.
\<close>

theorem possible_next_is_dispatchable:
  "\<exists>cands. sorted_wrt outranks cands
     \<and> set cands = {(d, ix, b). next_candidate ops km input cs ix b \<and> binding_enabled b cs = Some d}
     \<and> possible_next_bindings_for_input ops km input cs = map m_binding cands"
  by (rule possible_next_ok) blast

text \<open>
  For every keymap made by \<open>new\<close> and \<open>add_bindings\<close>, \<open>bindings_for_action\<close> never indexes out of range and
  returns, in the order they were added, the bindings of an equal action of the same type that no later \<open>NoAction\<close>
  or matching \<open>Unbind\<close> of the same keystrokes and a superset context disables.
\<close>

theorem bindings_for_action_added:
  "bindings_for_action ops (add_bindings ops (new_keymap ops bs1) bs2) a =
     Some (map ((!) (bs1 @ bs2))
       (filter (\<lambda>i. \<not> special ((bs1 @ bs2) ! i) \<and> action_type_id ops (kb_action ((bs1 @ bs2) ! i)) = action_type_id ops a
          \<and> action_partial_eq ops (kb_action ((bs1 @ bs2) ! i)) a
          \<and> \<not> (\<exists>j. i < j \<and> j < length (bs1 @ bs2) \<and> disables ops ((bs1 @ bs2) ! j) ((bs1 @ bs2) ! i)))
        [0..<length (bs1 @ bs2)]))"
proof -
  note new = add_bindings_ok [OF empty_keymap_ok, of ops bs1, folded new_keymap_def]
  note add = add_bindings_ok [of ops "new_keymap ops bs1" bs2]
  show ?thesis
    by (rule bindings_for_action_eq) (use new add in \<open>simp_all add: empty_keymap_def\<close>)
qed

text \<open>
  The index structures of a keymap always list the positions of its bindings, \<open>add_bindings\<close> appends, and
  every change gives a new version.
\<close>

theorem keymap_invariant:
  assumes "keymap_ok ops km"
  shows "keymap_ok ops (add_bindings ops km bs) \<and> km_bindings (add_bindings ops km bs) = km_bindings km @ bs
     \<and> km_version (add_bindings ops km bs) = Suc (km_version km)
     \<and> keymap_ok ops (clear_keymap km) \<and> km_bindings (clear_keymap km) = [] \<and> km_version (clear_keymap km) = Suc (km_version km)"
  using add_bindings_ok [OF assms, of bs] clear_keymap_ok [of ops km] by (simp add: clear_keymap_def)

theorem keymap_invariant_witness:
  "keymap_ok sample_actions (add_bindings sample_actions empty_keymap [sample_binding])
     \<and> km_version (add_bindings sample_actions empty_keymap [sample_binding]) = 1
     \<and> keymap_ok sample_actions (clear_keymap empty_keymap)"
  using keymap_invariant [OF empty_keymap_ok, of sample_actions "[sample_binding]"] by (simp add: empty_keymap_def)

section \<open>Context predicates\<close>

text \<open>
  \<open>depth_of\<close> is the deepest depth at which the predicate holds, always between 1 and the depth of the
  stack, and a negation holds on a stack exactly when the negated predicate has no depth on it.
\<close>

theorem depth_of_is_deepest:
  "(depth_of p cs = Some d) = (0 < d \<and> d \<le> length cs \<and> eval_inner p (take d cs) cs
       \<and> \<not> (\<exists>e. d < e \<and> e \<le> length cs \<and> eval_inner p (take e cs) cs))
   \<and> eval_predicate (Negate p) cs = (cs \<noteq> [] \<and> depth_of p cs = None)"
  using depth_of_Some [of p cs d] depth_of_bounds [of p cs d] eval_Negate_depth [of p cs] by blast

text \<open>
  When \<open>is_superset\<close> says yes and the receiver has no negation, the receiver holds in every context in
  which the other predicate holds.
\<close>

theorem is_superset_holds:
  assumes "is_superset self other" "negation_free self" "eval_predicate other cs"
  shows "eval_predicate self cs"
  using is_superset_sound [OF assms(1,2)] assms(3) by (simp add: eval_predicate_def)

theorem is_superset_holds_witness:
  "eval_predicate (Identifier ''x'') [[\<lparr>ce_key = ''p'', ce_value = None\<rparr>], [\<lparr>ce_key = ''x'', ce_value = None\<rparr>]]"
proof (rule is_superset_holds)
  show "is_superset (Identifier ''x'') (Descendant (Identifier ''p'') (Identifier ''x''))" by code_simp
  show "negation_free (Identifier ''x'')" by simp
  show "eval_predicate (Descendant (Identifier ''p'') (Identifier ''x''))
    [[\<lparr>ce_key = ''p'', ce_value = None\<rparr>], [\<lparr>ce_key = ''x'', ce_value = None\<rparr>]]" by code_simp
qed

text \<open>
  With a negation the documented guarantee of \<open>is_superset\<close> fails: \<open>!x\<close> is reported to be a superset of
  \<open>p > !x\<close>, which holds on the stack \<open>x, p, q\<close> where \<open>!x\<close> does not.
\<close>

theorem is_superset_negation_counterexample:
  "is_superset (Negate (Identifier ''x'')) (Descendant (Identifier ''p'') (Negate (Identifier ''x'')))
   \<and> eval_predicate (Descendant (Identifier ''p'') (Negate (Identifier ''x'')))
       (map (\<lambda>k. [\<lparr>ce_key = k, ce_value = None\<rparr>]) [''x'', ''p'', ''q''])
   \<and> \<not> eval_predicate (Negate (Identifier ''x'')) (map (\<lambda>k. [\<lparr>ce_key = k, ce_value = None\<rparr>]) [''x'', ''p'', ''q''])"
  by code_simp

text \<open>
  Parsing a context predicate always ends with a predicate or an error, and the expression parser
  consumes at least one character of every predicate it reads.
\<close>

theorem parse_predicate_total:
  "(\<exists>r. parse_predicate source = Some r) \<and> \<not> (\<exists>fuel m p rest. parse_expr fuel source m = Some (Inr (p, rest)) \<and> length source \<le> length rest)"
proof
  obtain r where "parse_expr (2 * length (skip_whitespace source) + 2) (skip_whitespace source) 0 = Some r"
    using parse_enough(1) [of "skip_whitespace source" "2 * length (skip_whitespace source) + 2" 0] by auto
  then show "\<exists>r. parse_predicate source = Some r"
    unfolding parse_predicate_def Let_def by (auto split: sum.split list.split prod.split)
  show "\<not> (\<exists>fuel m p rest. parse_expr fuel source m = Some (Inr (p, rest)) \<and> length source \<le> length rest)"
    by (auto dest: parse_shrinks(1))
qed

section \<open>Key contexts\<close>


text \<open>
  A context printed by \<open>Debug\<close> parses back to itself when its keys are distinct and its names can be read.
\<close>

theorem ctx_debug_parse:
  assumes "list_all entry_ok ctx" "ctx_ok ctx"
  shows "ctx_parse (ctx_debug ctx) = Some ctx"
  using ctx_parse_debug [of ctx "[]"] assms skip_to_name [OF ctx_debug_start [OF assms(1)]] by (simp add: ctx_parse_def)

theorem ctx_debug_parse_witness:
  "ctx_parse ''Editor mode=full'' = Some [\<lparr>ce_key = ''Editor'', ce_value = None\<rparr>, \<lparr>ce_key = ''mode'', ce_value = Some ''full''\<rparr>]"
proof -
  let ?ctx = "[\<lparr>ce_key = ''Editor'', ce_value = None\<rparr>, \<lparr>ce_key = ''mode'', ce_value = Some ''full''\<rparr>]"
  have "list_all entry_ok ?ctx" "ctx_ok ?ctx" by code_simp+
  moreover have "ctx_debug ?ctx = ''Editor mode=full''" by code_simp
  ultimately show ?thesis using ctx_debug_parse [of ?ctx] by simp
qed

text \<open>
  \<open>add\<close>, \<open>set\<close> and \<open>extend\<close> keep the keys of a context distinct; \<open>set\<close> writes a key only when it is
  absent, and \<open>extend\<close> takes from the other context only the keys that are absent.
\<close>

theorem ctx_updates:
  assumes "ctx_ok ctx"
  shows "ctx_ok (ctx_add ctx key) \<and> ctx_ok (ctx_set ctx key v) \<and> ctx_ok (ctx_extend ctx other)
     \<and> ctx_get (ctx_set ctx key v) k = (if k = key \<and> \<not> ctx_contains ctx key then Some v else ctx_get ctx k)
     \<and> ctx_get (ctx_extend ctx other) k = (if ctx_contains ctx k then ctx_get ctx k else ctx_get other k)"
  using ctx_add_ok [OF assms] ctx_set_ok [OF assms] ctx_extend_ok [OF assms] ctx_get_set ctx_get_extend by simp

theorem ctx_updates_witness:
  "ctx_get (ctx_set [\<lparr>ce_key = ''a'', ce_value = None\<rparr>] ''a'' ''v'') ''a'' = None
     \<and> ctx_get (ctx_set [\<lparr>ce_key = ''a'', ce_value = None\<rparr>] ''b'' ''v'') ''b'' = Some ''v''"
proof -
  have ok: "ctx_ok [\<lparr>ce_key = ''a'', ce_value = None\<rparr>]" by code_simp
  show ?thesis
    using ctx_updates [OF ok, of "''a''" "''v''" "[]" "''a''"] ctx_updates [OF ok, of "''b''" "''v''" "[]" "''b''"]
    by (simp add: ctx_contains_iff ctx_get_def)
qed

section \<open>Keystrokes\<close>

text \<open>
  C36: A keystroke printed by \<open>unparse\<close> for any operating system parses back to the same modifiers and key,
  under any parsing mode, when the key is lowercase, has no dash inside and is not the name of a modifier.
\<close>

theorem keystroke_unparse_parse:
  assumes "key_ok key \<or> key = ''-''"
  shows "parse_internal (unparse m key os) os' = Inr \<lparr>ks_modifiers = m, ks_key = key, ks_key_char = None\<rparr>"
  using parse_unparse [OF assms] .

theorem keystroke_unparse_parse_witness:
  "parse_internal ''ctrl-shift-a'' (Some Linux) = Inr \<lparr>ks_modifiers = no_modifiers\<lparr>m_control := True, m_shift := True\<rparr>,
     ks_key = ''a'', ks_key_char = None\<rparr>"
proof -
  have "key_ok ''a'' \<or> ''a'' = ''-''" by code_simp
  moreover have "unparse (no_modifiers\<lparr>m_control := True, m_shift := True\<rparr>) ''a'' Linux = ''ctrl-shift-a''" by code_simp
  ultimately show ?thesis
    using keystroke_unparse_parse [of "''a''" "no_modifiers\<lparr>m_control := True, m_shift := True\<rparr>" Linux "Some Linux"] by simp
qed

text \<open>
  \<open>is_subset_of\<close> is inclusion of the pressed modifiers, and toggling modifiers twice with \<open>^\<close> restores them.
\<close>

theorem modifier_algebra:
  "is_subset_of a b = (modifiers_or a b = b) \<and> modifiers_xor (modifiers_xor a b) b = a \<and> modified a = (0 < number_of_modifiers a)
   \<and> number_of_modifiers a \<le> 5"
  using is_subset_of_or [of a b] xor_twice [of a b] modified_iff [of a] by (simp add: number_of_modifiers_def)

end
