(* ===== verification/Geometry.thy ===== *)
theory Geometry
  imports Prelude
begin

text \<open>
  The rectangles of \<open>gpui/src/geometry.rs\<close>, generic in the unit of length as in the source. The unit is
  an ordered abelian group: lengths are exact, so the rounding of the floating-point units is not
  modelled. \<open>Half\<close> is a function the operations that need it are given.
\<close>

section \<open>Points, sizes and rectangles\<close>

record 'u point =
  px :: 'u
  py :: 'u

record 'u size2 =
  width :: 'u
  height :: 'u

record 'u bounds =
  origin :: "'u point"
  bsize :: "'u size2"

record 'u edges =
  e_top :: 'u
  e_right :: 'u
  e_bottom :: 'u
  e_left :: 'u

definition point_max :: "'u::linorder point \<Rightarrow> 'u point \<Rightarrow> 'u point" where
  "point_max a b =
     \<lparr>px = (if px a > px b then px a else px b), py = (if py a > py b then py a else py b)\<rparr>"

definition point_min :: "'u::linorder point \<Rightarrow> 'u point \<Rightarrow> 'u point" where
  "point_min a b =
     \<lparr>px = (if px a \<le> px b then px a else px b), py = (if py a \<le> py b then py a else py b)\<rparr>"

definition relative_to :: "'u::ab_group_add point \<Rightarrow> 'u point \<Rightarrow> 'u point" where
  "relative_to p o' = \<lparr>px = px p - px o', py = py p - py o'\<rparr>"

definition bottom_right :: "'u::ab_group_add bounds \<Rightarrow> 'u point" where
  "bottom_right b = \<lparr>px = px (origin b) + width (bsize b), py = py (origin b) + height (bsize b)\<rparr>"

definition top_right :: "'u::ab_group_add bounds \<Rightarrow> 'u point" where
  "top_right b = \<lparr>px = px (origin b) + width (bsize b), py = py (origin b)\<rparr>"

definition bottom_left :: "'u::ab_group_add bounds \<Rightarrow> 'u point" where
  "bottom_left b = \<lparr>px = px (origin b), py = py (origin b) + height (bsize b)\<rparr>"

definition top_center :: "('u \<Rightarrow> 'u) \<Rightarrow> 'u::ab_group_add bounds \<Rightarrow> 'u point" where
  "top_center half b = \<lparr>px = px (origin b) + half (width (bsize b)), py = py (origin b)\<rparr>"

definition bottom_center :: "('u \<Rightarrow> 'u) \<Rightarrow> 'u::ab_group_add bounds \<Rightarrow> 'u point" where
  "bottom_center half b =
     \<lparr>px = px (origin b) + half (width (bsize b)), py = py (origin b) + height (bsize b)\<rparr>"

definition left_center :: "('u \<Rightarrow> 'u) \<Rightarrow> 'u::ab_group_add bounds \<Rightarrow> 'u point" where
  "left_center half b = \<lparr>px = px (origin b), py = py (origin b) + half (height (bsize b))\<rparr>"

definition right_center :: "('u \<Rightarrow> 'u) \<Rightarrow> 'u::ab_group_add bounds \<Rightarrow> 'u point" where
  "right_center half b =
     \<lparr>px = px (origin b) + width (bsize b), py = py (origin b) + half (height (bsize b))\<rparr>"

datatype anchor =
  TopLeft | TopRight | BottomLeft | BottomRight | TopCenter | BottomCenter | LeftCenter | RightCenter

fun corner :: "('u \<Rightarrow> 'u) \<Rightarrow> 'u::ab_group_add bounds \<Rightarrow> anchor \<Rightarrow> 'u point" where
  "corner half b TopLeft = origin b"
| "corner half b TopRight = top_right b"
| "corner half b BottomLeft = bottom_left b"
| "corner half b BottomRight = bottom_right b"
| "corner half b TopCenter = top_center half b"
| "corner half b BottomCenter = bottom_center half b"
| "corner half b LeftCenter = left_center half b"
| "corner half b RightCenter = right_center half b"

fun anchored_origin :: "('u \<Rightarrow> 'u) \<Rightarrow> anchor \<Rightarrow> 'u::ab_group_add point \<Rightarrow> 'u size2 \<Rightarrow> 'u point" where
  "anchored_origin half TopLeft p s = p"
| "anchored_origin half TopRight p s = \<lparr>px = px p - width s, py = py p\<rparr>"
| "anchored_origin half BottomLeft p s = \<lparr>px = px p, py = py p - height s\<rparr>"
| "anchored_origin half BottomRight p s = \<lparr>px = px p - width s, py = py p - height s\<rparr>"
| "anchored_origin half TopCenter p s = \<lparr>px = px p - half (width s), py = py p\<rparr>"
| "anchored_origin half BottomCenter p s = \<lparr>px = px p - half (width s), py = py p - height s\<rparr>"
| "anchored_origin half LeftCenter p s = \<lparr>px = px p, py = py p - half (height s)\<rparr>"
| "anchored_origin half RightCenter p s = \<lparr>px = px p - width s, py = py p - half (height s)\<rparr>"

definition from_anchor_and_size :: "('u \<Rightarrow> 'u) \<Rightarrow> anchor \<Rightarrow> 'u::ab_group_add point \<Rightarrow> 'u size2 \<Rightarrow> 'u bounds" where
  "from_anchor_and_size half c p s = \<lparr>origin = anchored_origin half c p s, bsize = s\<rparr>"

definition centered_at :: "('u \<Rightarrow> 'u) \<Rightarrow> 'u::ab_group_add point \<Rightarrow> 'u size2 \<Rightarrow> 'u bounds" where
  "centered_at half center s =
     \<lparr>origin = \<lparr>px = px center - half (width s), py = py center - half (height s)\<rparr>, bsize = s\<rparr>"

definition center_point :: "('u \<Rightarrow> 'u) \<Rightarrow> 'u::ab_group_add bounds \<Rightarrow> 'u point" where
  "center_point half b =
     \<lparr>px = px (origin b) + half (width (bsize b)), py = py (origin b) + half (height (bsize b))\<rparr>"

definition from_corners :: "'u::ab_group_add point \<Rightarrow> 'u point \<Rightarrow> 'u bounds" where
  "from_corners top_left corner2 =
     \<lparr>origin = top_left, bsize = \<lparr>width = px corner2 - px top_left, height = py corner2 - py top_left\<rparr>\<rparr>"

definition intersects :: "'u::linordered_ab_group_add bounds \<Rightarrow> 'u bounds \<Rightarrow> bool" where
  "intersects a b \<longleftrightarrow>
     px (origin a) < px (bottom_right b) \<and> px (bottom_right a) > px (origin b)
     \<and> py (origin a) < py (bottom_right b) \<and> py (bottom_right a) > py (origin b)"

definition half_perimeter :: "'u::ab_group_add bounds \<Rightarrow> 'u" where
  "half_perimeter b = width (bsize b) + height (bsize b)"

definition dilate :: "'u::ab_group_add bounds \<Rightarrow> 'u \<Rightarrow> 'u bounds" where
  "dilate b amount =
     \<lparr>origin = \<lparr>px = px (origin b) - amount, py = py (origin b) - amount\<rparr>,
      bsize = \<lparr>width = width (bsize b) + (amount + amount), height = height (bsize b) + (amount + amount)\<rparr>\<rparr>"

definition bounds_extend :: "'u::ab_group_add bounds \<Rightarrow> 'u edges \<Rightarrow> 'u bounds" where
  "bounds_extend b amount =
     \<lparr>origin = \<lparr>px = px (origin b) - e_left amount, py = py (origin b) - e_top amount\<rparr>,
      bsize = \<lparr>width = width (bsize b) + (e_left amount + e_right amount),
               height = height (bsize b) + (e_top amount + e_bottom amount)\<rparr>\<rparr>"

definition inset :: "'u::ab_group_add bounds \<Rightarrow> 'u \<Rightarrow> 'u bounds" where
  "inset b amount = dilate b (- amount)"

definition intersect :: "'u::linordered_ab_group_add bounds \<Rightarrow> 'u bounds \<Rightarrow> 'u bounds" where
  "intersect a b =
     (let upper_left = point_max (origin a) (origin b)
      in from_corners upper_left (point_max (point_min (bottom_right a) (bottom_right b)) upper_left))"

definition union_bounds :: "'u::linordered_ab_group_add bounds \<Rightarrow> 'u bounds \<Rightarrow> 'u bounds" where
  "union_bounds a b =
     from_corners (point_min (origin a) (origin b)) (point_max (bottom_right a) (bottom_right b))"

definition space_within :: "'u::ab_group_add bounds \<Rightarrow> 'u bounds \<Rightarrow> 'u edges" where
  "space_within b outer =
     \<lparr>e_top = py (origin b) - py (origin outer),
      e_right = px (bottom_right outer) - px (bottom_right b),
      e_bottom = py (bottom_right outer) - py (bottom_right b),
      e_left = px (origin b) - px (origin outer)\<rparr>"

definition bounds_contains :: "'u::linordered_ab_group_add bounds \<Rightarrow> 'u point \<Rightarrow> bool" where
  "bounds_contains b p \<longleftrightarrow>
     px p \<ge> px (origin b) \<and> px p < px (origin b) + width (bsize b)
     \<and> py p \<ge> py (origin b) \<and> py p < py (origin b) + height (bsize b)"

definition is_contained_within :: "'u::linordered_ab_group_add bounds \<Rightarrow> 'u bounds \<Rightarrow> bool" where
  "is_contained_within b other \<longleftrightarrow> bounds_contains other (origin b) \<and> bounds_contains other (bottom_right b)"

definition localize :: "'u::linordered_ab_group_add bounds \<Rightarrow> 'u point \<Rightarrow> 'u point option" where
  "localize b p = (if bounds_contains b p then Some (relative_to p (origin b)) else None)"

definition bounds_is_empty :: "'u::linordered_ab_group_add bounds \<Rightarrow> bool" where
  "bounds_is_empty b \<longleftrightarrow> width (bsize b) \<le> 0 \<or> height (bsize b) \<le> 0"

section \<open>Corners decide everything\<close>

lemma point_max_simps [simp]: "px (point_max a b) = max (px a) (px b)" "py (point_max a b) = max (py a) (py b)"
  by (auto simp: point_max_def max_def)

lemma point_min_simps [simp]: "px (point_min a b) = min (px a) (px b)" "py (point_min a b) = min (py a) (py b)"
  by (simp_all add: point_min_def min_def)

lemma from_corners_simps [simp]: "origin (from_corners p q) = p" "bottom_right (from_corners p q) = q"
  by (simp_all add: from_corners_def bottom_right_def)

lemma union_corners [simp]:
  "px (origin (union_bounds a b)) = min (px (origin a)) (px (origin b))"
  "py (origin (union_bounds a b)) = min (py (origin a)) (py (origin b))"
  "px (bottom_right (union_bounds a b)) = max (px (bottom_right a)) (px (bottom_right b))"
  "py (bottom_right (union_bounds a b)) = max (py (bottom_right a)) (py (bottom_right b))"
  by (simp_all add: union_bounds_def)

lemma contains_corners:
  "bounds_contains b p \<longleftrightarrow> px (origin b) \<le> px p \<and> px p < px (bottom_right b) \<and> py (origin b) \<le> py p \<and> py p < py (bottom_right b)"
  by (simp add: bounds_contains_def bottom_right_def)

lemma empty_corners:
  "bounds_is_empty b \<longleftrightarrow> px (bottom_right b) \<le> px (origin b) \<or> py (bottom_right b) \<le> py (origin b)"
  by (simp add: bounds_is_empty_def bottom_right_def)

text \<open>\<open>covers outer b\<close>: the rectangle lies inside the outer one.\<close>

definition covers :: "'u::linordered_ab_group_add bounds \<Rightarrow> 'u bounds \<Rightarrow> bool" where
  "covers a b \<longleftrightarrow> px (origin a) \<le> px (origin b) \<and> py (origin a) \<le> py (origin b)
     \<and> px (bottom_right b) \<le> px (bottom_right a) \<and> py (bottom_right b) \<le> py (bottom_right a)"

lemma covers_refl [simp]: "covers a a"
  by (simp add: covers_def)

lemma covers_trans: "covers a b \<Longrightarrow> covers b c \<Longrightarrow> covers a c"
  by (auto simp: covers_def)

lemma covers_union [simp]: "covers (union_bounds a b) a" "covers (union_bounds a b) b"
  by (simp_all add: covers_def)

lemma covers_unionI: "covers a c \<Longrightarrow> covers (union_bounds a b) c"
  using covers_trans covers_union(1) by blast

lemma union_least: "covers c a \<Longrightarrow> covers c b \<Longrightarrow> covers c (union_bounds a b)"
  by (simp add: covers_def)

lemma covers_union_iff: "covers c (union_bounds a b) \<longleftrightarrow> covers c a \<and> covers c b"
  by (auto simp: covers_def)

lemma covers_union_mono: "covers a b \<Longrightarrow> covers (union_bounds a c) (union_bounds b c)"
  by (auto simp: covers_def min_le_iff_disj le_max_iff_disj)

lemma intersects_covers: "intersects q b \<Longrightarrow> covers a b \<Longrightarrow> intersects q a"
  by (auto simp: intersects_def covers_def)

lemma intersects_sym: "intersects a b \<longleftrightarrow> intersects b a"
  by (auto simp: intersects_def)

section \<open>Set-theoretic meaning\<close>

lemma intersect_contains: "bounds_contains (intersect a b) p \<longleftrightarrow> bounds_contains a p \<and> bounds_contains b p"
  by (auto simp: contains_corners intersect_def Let_def less_max_iff_disj)

lemma intersects_iff:
  assumes "\<not> bounds_is_empty a" "\<not> bounds_is_empty b"
  shows "intersects a b \<longleftrightarrow> \<not> bounds_is_empty (intersect a b)"
  using assms by (auto simp: intersects_def empty_corners intersect_def Let_def not_le min_less_iff_disj less_max_iff_disj)

lemma bounds_eqI:
  assumes "px (origin a) = px (origin b)" "py (origin a) = py (origin b)"
    "width (bsize a) = width (bsize b)" "height (bsize a) = height (bsize b)"
  shows "a = (b :: 'u bounds)"
  using assms by (cases a; cases b; cases "origin a"; cases "origin b"; cases "bsize a"; cases "bsize b") auto

lemma inset_dilate: "inset (dilate b x) x = b"
  by (rule bounds_eqI) (simp_all add: inset_def dilate_def)

lemma anchor_corner: "corner half (from_anchor_and_size half c p s) c = p"
  by (cases c; cases p) (simp_all add: from_anchor_and_size_def top_right_def bottom_left_def bottom_right_def
      top_center_def bottom_center_def left_center_def right_center_def)

lemma centered_center: "center_point half (centered_at half p s) = p"
  by (cases p) (simp add: center_point_def centered_at_def)

lemma extend_space: "bounds_extend b (space_within b outer) = outer"
  by (rule bounds_eqI) (simp_all add: bounds_extend_def space_within_def bottom_right_def algebra_simps)

lemma localize_range:
  "localize b p = Some q \<longleftrightarrow> bounds_contains b p \<and> px q + px (origin b) = px p \<and> py q + py (origin b) = py p"
  by (cases q) (auto simp: localize_def relative_to_def algebra_simps)

end
