(* ===== verification/BoundsTree.thy ===== *)
theory BoundsTree
  imports Geometry "HOL-Library.Multiset"
begin

text \<open>
  The R-tree of \<open>gpui/src/bounds_tree.rs\<close>, which gives each painted rectangle a drawing order one above
  every earlier rectangle it overlaps.

  The arena \<open>nodes\<close> is a list and the nodes are its indices, as in the source; the pointers of
  \<open>search_stack\<close> are indices too (the arena is not changed while they are live). A \<^const>\<open>None\<close> is a
  panic: an index out of range or the \<open>unreachable!\<close> of the descent. The two loops are
  \<open>partial_function\<close>s, so that not returning is also \<^const>\<open>None\<close>; the theorems give \<^const>\<open>Some\<close>.
  Orders are natural numbers; \<open>spec_orders_bounded\<close> bounds them by the number of insertions.

  The specification is the list of the inserted rectangles with their orders. The invariant is
  stated over a ghost tree of indices (\<open>shape\<close>), whose nodes are distinct.
\<close>

section \<open>The model\<close>

definition MAX_CHILDREN :: nat where
  "MAX_CHILDREN = 12"

datatype node_kind = BLeaf nat | BInternal "nat list"

record 'u bnode =
  nbounds :: "'u bounds"
  max_order :: nat
  kind :: node_kind

record 'u bounds_tree =
  nodes :: "'u bnode list"
  root :: "nat option"
  max_leaf :: "nat option"

definition bt_default :: "'u bounds_tree" where
  "bt_default = \<lparr>nodes = [], root = None, max_leaf = None\<rparr>"

definition bt_clear :: "'u bounds_tree \<Rightarrow> 'u bounds_tree" where
  "bt_clear t = t\<lparr>nodes := [], root := None, max_leaf := None\<rparr>"

text \<open>\<open>children.push\<close> writes past the fixed array when it is full: a panic.\<close>

definition children_push :: "nat list \<Rightarrow> nat \<Rightarrow> nat list option" where
  "children_push cs i = (if length cs < MAX_CHILDREN then Some (cs @ [i]) else None)"

definition swap_at :: "'a list \<Rightarrow> nat \<Rightarrow> nat \<Rightarrow> 'a list option" where
  "swap_at xs i j =
     (if i < length xs \<and> j < length xs then Some (xs[i := xs ! j, j := xs ! i]) else None)"

definition node_is_leaf :: "'u bnode \<Rightarrow> bool" where
  "node_is_leaf n = (case kind n of BLeaf _ \<Rightarrow> True | BInternal _ \<Rightarrow> False)"

partial_function (option) search_loop ::
    "'u::linordered_ab_group_add bnode list \<Rightarrow> 'u bounds \<Rightarrow> nat list \<Rightarrow> nat \<Rightarrow> nat option" where
  "search_loop ns query stack max_found =
     (case stack of
        [] \<Rightarrow> Some max_found
      | i # stack' \<Rightarrow>
          do { node \<leftarrow> index_at ns i;
               if max_order node \<le> max_found then search_loop ns query stack' max_found
               else if \<not> intersects query (nbounds node) then search_loop ns query stack' max_found
               else
                 (case kind node of
                    BLeaf order \<Rightarrow> search_loop ns query stack' (max max_found order)
                  | BInternal children \<Rightarrow>
                      do { cns \<leftarrow> those (map (index_at ns) children);
                           search_loop ns query
                             (rev (map fst (filter (\<lambda>(_, n). max_order n > max_found) (zip children cns))) @ stack')
                             max_found }) })"

declare search_loop.simps [code]

definition find_max_ordering :: "'u::linordered_ab_group_add bounds_tree \<Rightarrow> 'u bounds \<Rightarrow> nat option" where
  "find_max_ordering t query =
     (case root t of
        None \<Rightarrow> Some 0
      | Some root_idx \<Rightarrow>
          (case max_leaf t of
             None \<Rightarrow> search_loop (nodes t) query [root_idx] 0
           | Some max_idx \<Rightarrow>
               do { max_node \<leftarrow> index_at (nodes t) max_idx;
                    if intersects query (nbounds max_node) then Some (max_order max_node)
                    else search_loop (nodes t) query [root_idx] 0 }))"

text \<open>The choice of the child to descend into: the first of least cost. The accumulator is the best
  index, its position and its cost.\<close>

fun best_child_loop ::
    "'u::linordered_ab_group_add bnode list \<Rightarrow> 'u bounds \<Rightarrow> nat list \<Rightarrow> nat \<Rightarrow> nat \<times> nat \<times> 'u \<Rightarrow> (nat \<times> nat) option" where
  "best_child_loop ns b [] pos (best_child_idx, best_child_pos, best_cost) = Some (best_child_idx, best_child_pos)"
| "best_child_loop ns b (child_idx # rest) pos (best_child_idx, best_child_pos, best_cost) =
     do { n \<leftarrow> index_at ns child_idx;
          let cost = half_perimeter (union_bounds b (nbounds n));
          if cost < best_cost then best_child_loop ns b rest (Suc pos) (child_idx, pos, cost)
          else best_child_loop ns b rest (Suc pos) (best_child_idx, best_child_pos, best_cost) }"

definition best_child ::
    "'u::linordered_ab_group_add bnode list \<Rightarrow> 'u bounds \<Rightarrow> nat list \<Rightarrow> (nat \<times> nat) option" where
  "best_child ns b children =
     do { first \<leftarrow> index_at children 0;
          n \<leftarrow> index_at ns first;
          best_child_loop ns b (tl children) 1 (first, 0, half_perimeter (union_bounds b (nbounds n))) }"

text \<open>The two children of a new internal node, the one of the larger order last.\<close>

definition ordered_pair :: "nat \<Rightarrow> nat \<Rightarrow> nat \<Rightarrow> nat \<Rightarrow> nat list" where
  "ordered_pair order new_leaf_idx other_order other_idx =
     (if order > other_order then [other_idx, new_leaf_idx] else [new_leaf_idx, other_idx])"

text \<open>The node has room: the leaf joins it, before the last child unless its order is the highest.\<close>

definition add_to_node ::
    "'u::linordered_ab_group_add bnode list \<Rightarrow> 'u bounds \<Rightarrow> nat \<Rightarrow> nat \<Rightarrow> nat \<Rightarrow> nat list \<Rightarrow> 'u bnode list option" where
  "add_to_node ns b order new_leaf_idx current_idx children =
     do { node \<leftarrow> index_at ns current_idx;
          pushed \<leftarrow> children_push children new_leaf_idx;
          placed \<leftarrow> (if order \<le> max_order node then swap_at pushed (length pushed - 2) (length pushed - 1)
                    else Some pushed);
          Some (ns[current_idx := \<lparr>nbounds = union_bounds (nbounds node) b, max_order = max (max_order node) order,
                                   kind = BInternal placed\<rparr>]) }"

text \<open>The node is full: the best leaf and the new one get an internal node of their own.\<close>

definition split_leaf ::
    "'u::linordered_ab_group_add bnode list \<Rightarrow> 'u bounds \<Rightarrow> nat \<Rightarrow> nat \<Rightarrow> nat \<Rightarrow> nat list \<Rightarrow> nat \<Rightarrow> nat \<Rightarrow> 'u bnode list option" where
  "split_leaf ns b order new_leaf_idx current_idx children best_child_idx best_child_pos =
     do { sibling \<leftarrow> index_at ns best_child_idx;
          let new_internal_max = max (max_order sibling) order;
          let new_internal_idx = length ns;
          let ns' = ns @ [\<lparr>nbounds = union_bounds (nbounds sibling) b, max_order = new_internal_max,
                           kind = BInternal (ordered_pair order new_leaf_idx (max_order sibling) best_child_idx)\<rparr>];
          parent \<leftarrow> index_at ns' current_idx;
          _ \<leftarrow> index_at children best_child_pos;
          let replaced = children[best_child_pos := new_internal_idx];
          placed \<leftarrow> (if new_internal_max > max_order parent then swap_at replaced best_child_pos (length children - 1)
                    else Some replaced);
          Some (ns'[current_idx := parent\<lparr>kind := BInternal placed\<rparr>]) }"

partial_function (option) descend ::
    "'u::linordered_ab_group_add bnode list \<Rightarrow> 'u bounds \<Rightarrow> nat \<Rightarrow> nat \<Rightarrow> nat \<Rightarrow> nat list \<Rightarrow> ('u bnode list \<times> nat list) option" where
  "descend ns b order new_leaf_idx current_idx insert_path =
     do { current \<leftarrow> index_at ns current_idx;
          (case kind current of
             BLeaf _ \<Rightarrow> None
           | BInternal children \<Rightarrow>
               do { (best_child_idx, best_child_pos) \<leftarrow> best_child ns b children;
                    best \<leftarrow> index_at ns best_child_idx;
                    if node_is_leaf best then
                      if length children < MAX_CHILDREN then
                        do { ns' \<leftarrow> add_to_node ns b order new_leaf_idx current_idx children;
                             Some (ns', insert_path @ [current_idx]) }
                      else
                        do { ns' \<leftarrow> split_leaf ns b order new_leaf_idx current_idx children best_child_idx best_child_pos;
                             Some (ns', insert_path @ [current_idx]) }
                    else descend ns b order new_leaf_idx best_child_idx (insert_path @ [current_idx]) }) }"

declare descend.simps [code]

fun position :: "'a list \<Rightarrow> 'a \<Rightarrow> nat option" where
  "position [] x = None"
| "position (y # ys) x = (if y = x then Some 0 else map_option Suc (position ys x))"

text \<open>The update of one node of the insertion path.\<close>

definition raise_child :: "nat option \<Rightarrow> node_kind \<Rightarrow> node_kind option" where
  "raise_child updated_child_idx k =
     (case updated_child_idx of
        None \<Rightarrow> Some k
      | Some child_idx \<Rightarrow>
          (case k of
             BLeaf order \<Rightarrow> Some k
           | BInternal children \<Rightarrow>
               (case position children child_idx of
                  None \<Rightarrow> Some k
                | Some pos \<Rightarrow>
                    if pos \<noteq> length children - 1 then
                      map_option BInternal (swap_at children pos (length children - 1))
                    else Some k)))"

definition propagate_node ::
    "'u::linordered_ab_group_add bounds \<Rightarrow> nat \<Rightarrow> nat option \<Rightarrow> 'u bnode \<Rightarrow> 'u bnode option" where
  "propagate_node b order updated_child_idx node =
     (let node' = node\<lparr>nbounds := union_bounds (nbounds node) b\<rparr>
      in if max_order node < order then
           do { k \<leftarrow> raise_child updated_child_idx (kind node);
                Some (node'\<lparr>max_order := order, kind := k\<rparr>) }
         else Some node')"

fun propagate ::
    "'u::linordered_ab_group_add bounds \<Rightarrow> nat \<Rightarrow> nat list \<Rightarrow> nat option \<Rightarrow> 'u bnode list \<Rightarrow> 'u bnode list option" where
  "propagate b order [] updated_child_idx ns = Some ns"
| "propagate b order (node_idx # path) updated_child_idx ns =
     do { node \<leftarrow> index_at ns node_idx;
          node' \<leftarrow> propagate_node b order updated_child_idx node;
          propagate b order path (Some node_idx) (ns[node_idx := node']) }"

definition insert_leaf ::
    "'u::linordered_ab_group_add bounds_tree \<Rightarrow> 'u bounds \<Rightarrow> nat \<Rightarrow> ('u bounds_tree \<times> nat) option" where
  "insert_leaf t b order =
     (let new_leaf_idx = length (nodes t);
          ns = nodes t @ [\<lparr>nbounds = b, max_order = order, kind = BLeaf order\<rparr>]
      in case root t of
           None \<Rightarrow> Some (t\<lparr>nodes := ns, root := Some new_leaf_idx\<rparr>, new_leaf_idx)
         | Some root_idx \<Rightarrow>
             do { rnode \<leftarrow> index_at ns root_idx;
                  if node_is_leaf rnode then
                    Some (t\<lparr>nodes := ns @ [\<lparr>nbounds = union_bounds (nbounds rnode) b,
                                            max_order = max (max_order rnode) order,
                                            kind = BInternal (ordered_pair order new_leaf_idx (max_order rnode) root_idx)\<rparr>],
                            root := Some (length ns)\<rparr>, new_leaf_idx)
                  else
                    do { (ns', insert_path) \<leftarrow> descend ns b order new_leaf_idx root_idx [];
                         ns'' \<leftarrow> propagate b order (rev insert_path) None ns';
                         Some (t\<lparr>nodes := ns''\<rparr>, new_leaf_idx) } })"

definition bt_insert :: "'u::linordered_ab_group_add bounds_tree \<Rightarrow> 'u bounds \<Rightarrow> ('u bounds_tree \<times> nat) option" where
  "bt_insert t new_bounds =
     do { max_intersecting \<leftarrow> find_max_ordering t new_bounds;
          let ordering = max_intersecting + 1;
          (t', new_leaf_idx) \<leftarrow> insert_leaf t new_bounds ordering;
          (case max_leaf t' of
             None \<Rightarrow> Some (t'\<lparr>max_leaf := Some new_leaf_idx\<rparr>, ordering)
           | Some old_idx \<Rightarrow>
               do { old \<leftarrow> index_at (nodes t') old_idx;
                    if max_order old < ordering then Some (t'\<lparr>max_leaf := Some new_leaf_idx\<rparr>, ordering)
                    else Some (t', ordering) }) }"


section \<open>The ghost tree\<close>

text \<open>The tree of arena indices below a node, the condition each node meets, and the stored rectangles.\<close>

datatype gtree = G (gidx: nat) "gtree list"

fun indices :: "gtree \<Rightarrow> nat list" where
  "indices (G i ts) = i # concat (map indices ts)"

definition node_ok :: "'u::linordered_ab_group_add bnode list \<Rightarrow> nat \<Rightarrow> gtree list \<Rightarrow> bool" where
  "node_ok ns i ts \<longleftrightarrow> i < length ns \<and>
     (case kind (ns ! i) of
        BLeaf order \<Rightarrow> ts = [] \<and> max_order (ns ! i) = order
      | BInternal cs \<Rightarrow>
          cs = map gidx ts \<and> 2 \<le> length ts \<and> length ts \<le> MAX_CHILDREN
          \<and> (\<forall>t\<in>set ts. covers (nbounds (ns ! i)) (nbounds (ns ! gidx t)) \<and> max_order (ns ! gidx t) \<le> max_order (ns ! i))
          \<and> max_order (ns ! gidx (last ts)) = max_order (ns ! i))"

fun shape :: "'u::linordered_ab_group_add bnode list \<Rightarrow> gtree \<Rightarrow> bool" where
  "shape ns (G i ts) \<longleftrightarrow> node_ok ns i ts \<and> (\<forall>t\<in>set ts. shape ns t)"

fun entries :: "'u bnode list \<Rightarrow> gtree \<Rightarrow> ('u bounds \<times> nat) multiset" where
  "entries ns (G i ts) =
     (if ts = [] then {#(nbounds (ns ! i), max_order (ns ! i))#} else \<Sum>\<^sub># (image_mset (entries ns) (mset ts)))"

definition hits :: "'u::linordered_ab_group_add bounds \<Rightarrow> ('u bounds \<times> nat) set \<Rightarrow> nat set" where
  "hits q E = snd ` {e \<in> E. intersects q (fst e)}"

lemma gidx_indices [simp]: "gidx t \<in> set (indices t)"
  by (cases t) simp

lemma indices_child: "t \<in> set ts \<Longrightarrow> set (indices t) \<subseteq> set (indices (G i ts))"
  by auto

lemma gidx_child: "t \<in> set ts \<Longrightarrow> gidx t \<in> set (indices (G i ts))"
  using indices_child gidx_indices by blast

lemma shape_range: "shape ns t \<Longrightarrow> j \<in> set (indices t) \<Longrightarrow> j < length ns"
  by (induction t) (auto simp: node_ok_def)

lemma shape_gidx: "shape ns t \<Longrightarrow> gidx t < length ns"
  using shape_range [of ns t "gidx t"] by simp

lemma node_ok_leaf: "node_ok ns i ts \<Longrightarrow> node_is_leaf (ns ! i) \<longleftrightarrow> ts = []"
  by (auto simp: node_ok_def node_is_leaf_def split: node_kind.splits)

lemma shape_leafD:
  assumes "shape ns t" "node_is_leaf (ns ! gidx t)"
  shows "t = G (gidx t) []" "entries ns t = {#(nbounds (ns ! gidx t), max_order (ns ! gidx t))#}"
  using assms by (cases t; auto simp: node_ok_leaf)+

lemma shape_internalD:
  assumes "shape ns (G i ts)" "ts \<noteq> []"
  shows "kind (ns ! i) = BInternal (map gidx ts)" "i < length ns" "2 \<le> length ts" "length ts \<le> MAX_CHILDREN"
    "\<And>t. t \<in> set ts \<Longrightarrow> covers (nbounds (ns ! i)) (nbounds (ns ! gidx t))"
    "\<And>t. t \<in> set ts \<Longrightarrow> max_order (ns ! gidx t) \<le> max_order (ns ! i)"
    "max_order (ns ! gidx (last ts)) = max_order (ns ! i)"
  using assms by (auto simp: node_ok_def split: node_kind.splits)

lemma entries_internal: "ts \<noteq> [] \<Longrightarrow> entries ns (G i ts) = \<Sum>\<^sub># (image_mset (entries ns) (mset ts))"
  by simp

lemma set_entries_internal: "ts \<noteq> [] \<Longrightarrow> set_mset (entries ns (G i ts)) = (\<Union>t\<in>set ts. set_mset (entries ns t))"
  by auto

text \<open>A tree depends only on its own nodes.\<close>

lemma frame:
  assumes "shape ns t" "length ns \<le> length ns'" "\<And>j. j \<in> set (indices t) \<Longrightarrow> ns' ! j = ns ! j"
  shows "shape ns' t \<and> entries ns' t = entries ns t"
  using assms
proof (induction t)
  case (G i ts)
  have sub: "shape ns' t \<and> entries ns' t = entries ns t" if "t \<in> set ts" for t
    using that G.prems G.IH [OF that] by auto
  have i: "ns' ! i = ns ! i"
    using G.prems(3) by simp
  moreover have "ns' ! gidx t = ns ! gidx t" if "t \<in> set ts" for t
    using that by (intro G.prems(3) gidx_child)
  ultimately have "node_ok ns' i ts"
    using G.prems(1,2) by (cases "ts = []") (auto simp: node_ok_def split: node_kind.splits)
  moreover have "image_mset (entries ns') (mset ts) = image_mset (entries ns) (mset ts)"
    using sub by (intro image_mset_cong) simp
  ultimately show ?case
    using sub i by simp
qed

lemma entries_bounded:
  assumes "shape ns t" "e \<in># entries ns t"
  shows "snd e \<le> max_order (ns ! gidx t) \<and> covers (nbounds (ns ! gidx t)) (fst e)"
  using assms
proof (induction t)
  case (G i ts)
  show ?case
  proof (cases "ts = []")
    case False
    then obtain t where t: "t \<in> set ts" "e \<in># entries ns t"
      using G.prems(2) by auto
    with G have "snd e \<le> max_order (ns ! gidx t) \<and> covers (nbounds (ns ! gidx t)) (fst e)"
      by auto
    with shape_internalD(5,6) [OF G.prems(1) False t(1)] show ?thesis
      by (auto intro: covers_trans)
  qed (use G.prems in auto)
qed

lemma entries_max:
  assumes "shape ns t"
  shows "max_order (ns ! gidx t) \<in> snd ` set_mset (entries ns t)"
  using assms
proof (induction t)
  case (G i ts)
  show ?case
  proof (cases "ts = []")
    case False
    then have "last ts \<in> set ts"
      by simp
    moreover from this have "max_order (ns ! gidx (last ts)) \<in> snd ` set_mset (entries ns (last ts))"
      using G by auto
    ultimately show ?thesis
      using shape_internalD(7) [OF G.prems False] False
      by (simp del: entries.simps add: set_entries_internal image_UN) (metis (no_types) \<open>last ts \<in> set ts\<close>)
  qed simp
qed

section \<open>The search\<close>

lemma hits_Un: "hits q (A \<union> B) = hits q A \<union> hits q B"
  by (auto simp: hits_def)

lemma hits_UN: "hits q (\<Union>t\<in>T. f t) = (\<Union>t\<in>T. hits q (f t))"
  by (auto simp: hits_def)

lemma hits_insert: "hits q (insert e E) = (if intersects q (fst e) then insert (snd e) (hits q E) else hits q E)"
  by (auto simp: hits_def)

lemma finite_hits [simp]: "finite E \<Longrightarrow> finite (hits q E)"
  by (simp add: hits_def)

lemma hits_bounded: "shape ns t \<Longrightarrow> v \<in> hits q (set_mset (entries ns t)) \<Longrightarrow> v \<le> max_order (ns ! gidx t)"
  using entries_bounded by (fastforce simp: hits_def)

lemma hits_outside:
  "shape ns t \<Longrightarrow> \<not> intersects q (nbounds (ns ! gidx t)) \<Longrightarrow> hits q (set_mset (entries ns t)) = {}"
  using entries_bounded intersects_covers by (fastforce simp: hits_def)

lemma Max_irrelevant:
  assumes "finite A" "finite B" "\<And>a. a \<in> A \<Longrightarrow> a \<notin> B \<Longrightarrow> a \<le> m" "B \<subseteq> A"
  shows "Max (insert m A) = Max (insert m (B :: nat set))"
  using assms by (intro Max_eq_if) auto

definition found :: "'u::linordered_ab_group_add bnode list \<Rightarrow> 'u bounds \<Rightarrow> gtree list \<Rightarrow> nat \<Rightarrow> nat" where
  "found ns q ts m = Max (insert m (hits q (\<Union>t\<in>set ts. set_mset (entries ns t))))"

lemma found_skip:
  assumes "\<And>v. v \<in> hits q (set_mset (entries ns t)) \<Longrightarrow> v \<le> m"
  shows "found ns q (t # ts) m = found ns q ts m"
  unfolding found_def by (rule Max_irrelevant) (auto simp: hits_Un dest: assms)

lemma Max_raise:
  assumes "finite H" "m \<le> v"
  shows "Max (insert m (insert v H)) = Max (insert (v :: nat) H)"
  using assms by (intro Max_eq_if) auto

lemma those_index_at: "(\<And>i. i \<in> set is \<Longrightarrow> i < length ns) \<Longrightarrow> those (map (index_at ns) is) = Some (map ((!) ns) is)"
  by (induction "is") auto

lemma pushed_children:
  "rev (map fst (filter (\<lambda>(_, n). max_order n > m) (zip (map gidx ts) (map ((!) ns) (map gidx ts)))))
     = map gidx (rev (filter (\<lambda>t. max_order (ns ! gidx t) > m) ts))"
  by (induction ts) auto

lemma found_internal:
  assumes "shape ns (G i cs)" "cs \<noteq> []"
  shows "found ns q (rev (filter (\<lambda>t. max_order (ns ! gidx t) > m) cs) @ ts) m = found ns q (G i cs # ts) m"
proof -
  have "v \<le> m" if "t \<in> set cs" "\<not> max_order (ns ! gidx t) > m" "v \<in> hits q (set_mset (entries ns t))" for t v
    using that assms hits_bounded [of ns t v q] by auto
  then show ?thesis
    unfolding found_def using assms(2)
    by (intro Max_irrelevant [symmetric]) (auto simp: hits_Un hits_UN set_entries_internal simp del: entries.simps)
qed

lemma search_loop_ok:
  assumes "\<And>t. t \<in> set ts \<Longrightarrow> shape ns t"
  shows "search_loop ns q (map gidx ts) m = Some (found ns q ts m)"
  using assms
proof (induction "length (concat (map indices ts))" arbitrary: ts m rule: less_induct)
  case less
  show ?case
  proof (cases ts)
    case Nil
    then show ?thesis
      by (simp add: search_loop.simps found_def hits_def)
  next
    case (Cons t us)
    obtain i cs where t: "t = G i cs" by (cases t)
    have sh: "shape ns t"
      using less.prems Cons by simp
    then have i: "i < length ns"
      using shape_gidx [of ns t] t by simp
    have rest: "search_loop ns q (map gidx us) k = Some (found ns q us k)" for k
      using less Cons t by simp
    consider "max_order (ns ! i) \<le> m" | "\<not> max_order (ns ! i) \<le> m" "\<not> intersects q (nbounds (ns ! i))"
      | "\<not> max_order (ns ! i) \<le> m" "intersects q (nbounds (ns ! i))" "cs = []"
      | "\<not> max_order (ns ! i) \<le> m" "intersects q (nbounds (ns ! i))" "cs \<noteq> []"
      by blast
    then show ?thesis
    proof cases
      case 1
      then have "found ns q (t # us) m = found ns q us m"
        using hits_bounded [OF sh] t by (intro found_skip) fastforce
      with 1 rest i Cons t show ?thesis
        by (simp add: search_loop.simps)
    next
      case 2
      then have "found ns q (t # us) m = found ns q us m"
        using hits_outside [OF sh] t by (intro found_skip) auto
      with 2 rest i Cons t show ?thesis
        by (simp add: search_loop.simps)
    next
      case 3
      have "kind (ns ! i) = BLeaf (max_order (ns ! i))"
        using sh 3 t by (auto simp: node_ok_def split: node_kind.splits)
      moreover have "found ns q (t # us) m = found ns q us (max m (max_order (ns ! i)))"
        using 3 t by (simp add: found_def hits_insert max_def Max_raise del: Max_insert)
      ultimately show ?thesis
        using 3 rest i Cons t by (simp add: search_loop.simps)
    next
      case 4
      let ?ks = "rev (filter (\<lambda>t. max_order (ns ! gidx t) > m) cs)"
      have "length (concat (map indices (rev (filter P cs)))) \<le> length (concat (map indices cs))" for P
        by (induction cs) auto
      then have "length (concat (map indices (?ks @ us))) < length (concat (map indices ts))"
        using Cons t by (simp add: less_Suc_eq_le)
      moreover have "\<And>u. u \<in> set (?ks @ us) \<Longrightarrow> shape ns u"
        using sh t less.prems Cons by auto
      ultimately have "search_loop ns q (map gidx (?ks @ us)) m = Some (found ns q (?ks @ us) m)"
        by (rule less.hyps)
      moreover have "those (map (index_at ns) (map gidx cs)) = Some (map ((!) ns) (map gidx cs))"
        using sh t shape_gidx by (intro those_index_at) auto
      ultimately show ?thesis
        using 4 i Cons t shape_internalD(1) [of ns i cs] sh found_internal [of ns i cs q m us]
        by (subst search_loop.simps) (simp add: pushed_children [unfolded map_map comp_def] comp_def)
    qed
  qed
qed

section \<open>The insertion\<close>

lemma position_Some: "x \<in> set xs \<Longrightarrow> \<exists>p. position xs x = Some p \<and> p < length xs \<and> xs ! p = x"
  by (induction xs) auto

lemma mset_swap_at: "swap_at xs i j = Some ys \<Longrightarrow> mset ys = mset xs \<and> length ys = length xs"
  by (auto simp: swap_at_def mset_swap split: if_splits)

lemma swap_at_last: "i < length xs \<Longrightarrow> \<exists>ys. swap_at xs i (length xs - 1) = Some ys \<and> ys \<noteq> [] \<and> last ys = xs ! i"
  by (cases "xs = []") (auto simp: swap_at_def last_conv_nth)

text \<open>The child the descent chooses has the least cost of all.\<close>

definition insert_cost :: "'u::linordered_ab_group_add bnode list \<Rightarrow> 'u bounds \<Rightarrow> nat \<Rightarrow> 'u" where
  "insert_cost ns b i = half_perimeter (union_bounds b (nbounds (ns ! i)))"

lemma best_child_loop_ok:
  assumes "\<And>i. i \<in> set cs \<Longrightarrow> i < length ns" "bp < p" "cs = pre @ rest" "p = length pre"
    and "\<And>j. j < p \<Longrightarrow> insert_cost ns b (cs ! bp) \<le> insert_cost ns b (cs ! j)"
  shows "\<exists>k<length cs. best_child_loop ns b rest p (cs ! bp, bp, insert_cost ns b (cs ! bp)) = Some (cs ! k, k)
           \<and> (\<forall>j<length cs. insert_cost ns b (cs ! k) \<le> insert_cost ns b (cs ! j))"
  using assms
proof (induction rest arbitrary: pre p bp)
  case Nil
  then show ?case by (intro exI [of _ bp]) auto
next
  case (Cons c rest)
  have c: "cs ! p = c" "c < length ns"
    using Cons.prems by (auto simp: nth_append)
  show ?case
  proof (cases "insert_cost ns b c < insert_cost ns b (cs ! bp)")
    case True
    have "insert_cost ns b (cs ! p) \<le> insert_cost ns b (cs ! j)" if "j < Suc p" for j
      using that True Cons.prems(5) [of j] c(1) by (cases "j = p") (force simp: less_Suc_eq)+
    with Cons.IH [of p "Suc p" "pre @ [c]"] Cons.prems True c show ?thesis
      by (simp add: insert_cost_def)
  next
    case False
    have "insert_cost ns b (cs ! bp) \<le> insert_cost ns b (cs ! j)" if "j < Suc p" for j
      using that False Cons.prems(5) [of j] c(1) by (cases "j = p") (force simp: less_Suc_eq)+
    with Cons.IH [of bp "Suc p" "pre @ [c]"] Cons.prems False c show ?thesis
      by (simp add: insert_cost_def)
  qed
qed

lemma best_child_ok:
  assumes "cs \<noteq> []" "\<And>i. i \<in> set cs \<Longrightarrow> i < length ns"
  shows "\<exists>k<length cs. best_child ns b cs = Some (cs ! k, k)
           \<and> (\<forall>j<length cs. insert_cost ns b (cs ! k) \<le> insert_cost ns b (cs ! j))"
  using best_child_loop_ok [of cs ns 0 1 "[hd cs]" "tl cs" b] assms
  by (cases cs) (auto simp: best_child_def insert_cost_def)

text \<open>\<open>grown ns t b order n0 ns' t'\<close>: between the arenas the tree gained one entry, and nothing outside
  its own nodes was touched.\<close>

definition grown :: "'u::linordered_ab_group_add bnode list \<Rightarrow> gtree \<Rightarrow> 'u bounds \<Rightarrow> nat \<Rightarrow> nat \<Rightarrow> 'u bnode list \<Rightarrow> gtree \<Rightarrow> bool" where
  "grown ns t b order n0 ns' t' \<longleftrightarrow>
     shape ns' t' \<and> distinct (indices t') \<and> n0 \<in> set (indices t')
     \<and> set (indices t') \<subseteq> set (indices t) \<union> {n0} \<union> {length ns..<length ns'}
     \<and> entries ns' t' = entries ns t + {#(b, order)#}
     \<and> covers (nbounds (ns' ! gidx t')) (nbounds (ns ! gidx t)) \<and> covers (nbounds (ns' ! gidx t')) b
     \<and> covers (union_bounds (nbounds (ns ! gidx t)) b) (nbounds (ns' ! gidx t'))
     \<and> max_order (ns' ! gidx t') = max (max_order (ns ! gidx t)) order
     \<and> length ns \<le> length ns'
     \<and> (\<forall>j<length ns. j \<notin> set (indices t) \<or> node_is_leaf (ns ! j) \<longrightarrow> ns' ! j = ns ! j)"

text \<open>Replacing a node whose children are trees of the arena.\<close>

lemma mset_indices: "mset (concat (map indices ts)) = \<Sum>\<^sub># (image_mset (\<lambda>t. mset (indices t)) (mset ts))"
  by (induction ts) auto

lemma replace_node:
  assumes i: "i < length ns" and n: "kind n = BInternal (map gidx us)" "2 \<le> length us" "length us \<le> MAX_CHILDREN"
    and us: "\<And>u. u \<in> set us \<Longrightarrow> shape ns u \<and> i \<notin> set (indices u) \<and> covers (nbounds n) (nbounds (ns ! gidx u))
               \<and> max_order (ns ! gidx u) \<le> max_order n"
    and l: "max_order (ns ! gidx (last us)) = max_order n"
  shows "shape (ns[i := n]) (G i us) \<and> entries (ns[i := n]) (G i us) = \<Sum>\<^sub># (image_mset (entries ns) (mset us))"
proof -
  have off: "ns[i := n] ! j = ns ! j" if "u \<in> set us" "j \<in> set (indices u)" for u j
    using us [OF that(1)] that(2) by (metis nth_list_update_neq)
  have fr: "shape (ns[i := n]) u \<and> entries (ns[i := n]) u = entries ns u" if "u \<in> set us" for u
    using that us off by (intro frame) auto
  have g: "ns[i := n] ! gidx u = ns ! gidx u" if "u \<in> set us" for u
    by (rule off [OF that gidx_indices])
  have ne: "us \<noteq> []"
    using n(2) by auto
  have "node_ok (ns[i := n]) i us"
    using i n us l ne g last_in_set [OF ne] by (auto simp: node_ok_def)
  moreover have "image_mset (entries (ns[i := n])) (mset us) = image_mset (entries ns) (mset us)"
    using fr by (intro image_mset_cong) simp
  ultimately show ?thesis
    using fr ne by simp
qed

text \<open>One child of a node grew: the node grows when its record is updated accordingly.\<close>

lemma regrow:
  assumes t: "shape ns (G i ts)" "distinct (indices (G i ts))" and ts: "ts = xs @ c # ys"
    and n0: "n0 < length ns" "n0 \<notin> set (indices (G i ts))"
    and g: "grown ns c b order n0 ns2 c'"
    and us: "mset us = mset (xs @ c' # ys)"
    and n: "kind n = BInternal (map gidx us)" "covers (nbounds n) (nbounds (ns ! i))" "covers (nbounds n) b"
      "max_order n = max (max_order (ns ! i)) order"
    and l: "max_order (ns2 ! gidx (last us)) = max_order n"
    and cov: "covers (union_bounds (nbounds (ns ! i)) b) (nbounds n)"
  shows "grown ns (G i ts) b order n0 (ns2[i := n]) (G i us)"
proof -
  have ne: "ts \<noteq> []" using ts by simp
  note int = shape_internalD [OF t(1) ne]
  have len: "length us = length ts"
    using mset_eq_length [OF us] ts by simp
  have set_us: "set us = insert c' (set xs \<union> set ys)"
    using mset_eq_setD [OF us] by auto
  have i: "i < length ns2" "i \<notin> set (indices c')"
    using g int(2) t(2) ts n0 by (auto simp: grown_def)
  have old: "shape ns2 u \<and> entries ns2 u = entries ns u \<and> ns2 ! gidx u = ns ! gidx u \<and> i \<notin> set (indices u)"
    if "u \<in> set xs \<union> set ys" for u
  proof -
    have dis: "set (indices u) \<inter> set (indices c) = {}" "shape ns u"
      using that t ts by auto
    have off: "ns2 ! j = ns ! j" if "j \<in> set (indices u)" for j
      using that dis g shape_range [OF dis(2) that] by (auto simp: grown_def)
    have grows: "length ns \<le> length ns2"
      using g by (simp add: grown_def)
    have "i \<notin> set (indices u)"
      using that t ts by auto
    with frame [OF dis(2) grows off] off [OF gidx_indices] show ?thesis
      by blast
  qed
  have "covers (nbounds n) (nbounds (ns ! gidx c))"
    using covers_trans [OF n(2) int(5)] ts by simp
  then have child: "covers (nbounds n) (nbounds (ns2 ! gidx c'))"
    using g union_least [OF _ n(3)] by (auto simp: grown_def intro: covers_trans)
  have "shape ns2 u \<and> i \<notin> set (indices u) \<and> covers (nbounds n) (nbounds (ns2 ! gidx u))
               \<and> max_order (ns2 ! gidx u) \<le> max_order n" if "u \<in> set us" for u
  proof (cases "u = c'")
    case True
    then show ?thesis
      using g i child n(4) int(6) [of c] ts by (auto simp: grown_def)
  next
    case False
    then have "u \<in> set xs \<union> set ys"
      using that set_us by auto
    with old [OF this] covers_trans [OF n(2) int(5)] int(6) [of u] n(4) ts show ?thesis
      by (auto simp: le_max_iff_disj)
  qed
  then have new: "shape (ns2[i := n]) (G i us) \<and> entries (ns2[i := n]) (G i us) = \<Sum>\<^sub># (image_mset (entries ns2) (mset us))"
    using i(1) n int(3,4) len l by (intro replace_node) auto
  moreover have "image_mset (entries ns2) (mset xs) = image_mset (entries ns) (mset xs)"
     "image_mset (entries ns2) (mset ys) = image_mset (entries ns) (mset ys)"
    using old by (auto intro!: image_mset_cong)
  then have "\<Sum>\<^sub># (image_mset (entries ns2) (mset us)) = entries ns (G i ts) + {#(b, order)#}"
    using us ts g by (simp add: grown_def)
  moreover have sub: "set (indices c') \<subseteq> set (indices c) \<union> {n0} \<union> {length ns..<length ns2}" "distinct (indices c')"
    using g by (simp_all add: grown_def)
  have apart: "j \<notin> set (indices c')" if "u \<in> set xs \<union> set ys" "j \<in> set (indices u)" for u j
  proof -
    have "j < length ns" "j \<noteq> n0" "j \<notin> set (indices c)"
      using that t n0 ts shape_range [of ns u j] by auto
    with sub(1) show ?thesis by auto
  qed
  have "distinct (concat (map indices xs) @ concat (map indices ys))"
    using t(2) ts by auto
  with apart sub(2) have "distinct (concat (map indices (xs @ c' # ys)))"
    by auto
  then have "distinct (indices (G i us))"
    using mset_eq_imp_distinct_iff [of "concat (map indices us)" "concat (map indices (xs @ c' # ys))"]
      us set_us i(2) old by (auto simp: mset_indices)
  moreover have "n0 \<in> set (indices (G i us))"
    using g set_us by (auto simp: grown_def)
  moreover have "set (indices (G i us)) \<subseteq> set (indices (G i ts)) \<union> {n0} \<union> {length ns..<length ns2}"
    using g set_us ts by (auto simp: grown_def)
  moreover have "\<not> node_is_leaf (ns ! i)"
    using int(1) by (simp add: node_is_leaf_def)
  then have "ns2[i := n] ! j = ns ! j" if "j < length ns" "j \<notin> set (indices (G i ts)) \<or> node_is_leaf (ns ! j)" for j
    using that g ts by (cases "j = i") (auto simp: grown_def)
  ultimately show ?thesis
    using g n i ts cov by (auto simp: grown_def simp del: indices.simps)
qed

text \<open>The new leaf joins a node with room.\<close>

lemma swap_before_last: "cs \<noteq> [] \<Longrightarrow> swap_at (cs @ [x]) (length cs - 1) (length cs) = Some (butlast cs @ [x, last cs])"
  by (cases cs rule: rev_cases) (auto simp: swap_at_def nth_append list_update_append)

lemma add_ok:
  assumes t: "shape ns (G i ts)" "distinct (indices (G i ts))" "ts \<noteq> []" "length ts < MAX_CHILDREN"
    and n0: "n0 < length ns" "n0 \<notin> set (indices (G i ts))" "ns ! n0 = \<lparr>nbounds = b, max_order = order, kind = BLeaf order\<rparr>"
  shows "\<exists>ns1 ns2 us. add_to_node ns b order n0 i (map gidx ts) = Some ns1
           \<and> propagate b order [i] None ns1 = Some ns2 \<and> grown ns (G i ts) b order n0 ns2 (G i us)"
proof -
  note int = shape_internalD [OF t(1,3)]
  define us where "us = (if order \<le> max_order (ns ! i) then butlast ts @ [G n0 [], last ts] else ts @ [G n0 []])"
  define n where "n = \<lparr>nbounds = union_bounds (nbounds (ns ! i)) b, max_order = max (max_order (ns ! i)) order, kind = BInternal (map gidx us)\<rparr>"
  define n' where "n' = n\<lparr>nbounds := union_bounds (nbounds n) b\<rparr>"
  have mus: "mset us = add_mset (G n0 []) (mset ts)"
    using append_butlast_last_id [OF t(3)] by (auto simp: us_def) (metis mset_append mset.simps add_mset_add_single union_assoc)
  have set_us: "set us = insert (G n0 []) (set ts)"
    using mset_eq_setD [of us "G n0 [] # ts"] mus by simp
  have len: "length us = Suc (length ts)"
    using mset_eq_length [of us "G n0 [] # ts"] mus by simp
  have "add_to_node ns b order n0 i (map gidx ts) = Some (ns[i := n])"
    using int(2) t(3,4) swap_before_last [of "map gidx ts" n0]
    by (auto simp: add_to_node_def children_push_def n_def us_def map_butlast last_map numeral_2_eq_2)
  moreover have "propagate b order [i] None (ns[i := n]) = Some (ns[i := n'])"
    using int(2) by (simp add: propagate_node_def n_def n'_def)
  moreover have "shape ns u \<and> i \<notin> set (indices u) \<and> covers (nbounds n') (nbounds (ns ! gidx u))
               \<and> max_order (ns ! gidx u) \<le> max_order n'" if "u \<in> set us" for u
  proof (cases "u = G n0 []")
    case True
    then show ?thesis
      using n0 by (auto simp: node_ok_def n'_def n_def)
  next
    case False
    then have "u \<in> set ts"
      using that set_us by simp
    moreover from this have "covers (nbounds n') (nbounds (ns ! gidx u))"
      using int(5) by (simp add: n'_def n_def covers_unionI)
    ultimately show ?thesis
      using t int(6) [of u] by (auto simp: n'_def n_def le_max_iff_disj)
  qed
  moreover have "max_order (ns ! gidx (last us)) = max_order n'"
    using n0 int(7) by (auto simp: us_def n'_def n_def)
  ultimately have new: "shape (ns[i := n']) (G i us) \<and> entries (ns[i := n']) (G i us) = \<Sum>\<^sub># (image_mset (entries ns) (mset us))"
    using int(2,3) t(4) len by (intro replace_node) (auto simp: n'_def n_def)
  have "distinct (indices (G i us))"
    using mset_eq_imp_distinct_iff [of "concat (map indices us)" "n0 # concat (map indices ts)"] t(2) n0 mus set_us
    by (auto simp: mset_indices)
  moreover have "\<not> node_is_leaf (ns ! i)"
    using int(1) by (simp add: node_is_leaf_def)
  then have "ns[i := n'] ! j = ns ! j" if "j \<notin> set (indices (G i ts)) \<or> node_is_leaf (ns ! j)" for j
    using that by (cases "j = i") auto
  ultimately have "grown ns (G i ts) b order n0 (ns[i := n']) (G i us)"
    using new set_us mus t(3) n0 int(2) by (auto simp: grown_def n'_def n_def covers_unionI union_least)
  with \<open>add_to_node _ _ _ _ _ _ = _\<close> \<open>propagate _ _ _ _ _ = _\<close> show ?thesis by blast
qed

text \<open>A leaf becomes an internal node with the new leaf.\<close>

lemma grown_pair:
  assumes k: "k < length ns" "kind (ns ! k) = BLeaf (max_order (ns ! k))" "k \<noteq> n0"
    and n0: "n0 < length ns" "ns ! n0 = \<lparr>nbounds = b, max_order = order, kind = BLeaf order\<rparr>"
    and n: "n = \<lparr>nbounds = union_bounds (nbounds (ns ! k)) b, max_order = max (max_order (ns ! k)) order,
        kind = BInternal (ordered_pair order n0 (max_order (ns ! k)) k)\<rparr>"
  shows "grown ns (G k []) b order n0 (ns @ [n])
    (G (length ns) (if order > max_order (ns ! k) then [G k [], G n0 []] else [G n0 [], G k []]))"
  using assms by (auto simp: grown_def node_ok_def nth_append ordered_pair_def MAX_CHILDREN_def)

lemma swap_at_map: "swap_at (map f xs) i j = map_option (map f) (swap_at xs i j)"
  by (auto simp: swap_at_def map_update)

lemma split_ok:
  assumes t: "shape ns (G i ts)" "distinct (indices (G i ts))" "k < length ts" "node_is_leaf (ns ! gidx (ts ! k))"
    and n0: "n0 < length ns" "n0 \<notin> set (indices (G i ts))" "ns ! n0 = \<lparr>nbounds = b, max_order = order, kind = BLeaf order\<rparr>"
  shows "\<exists>ns1 ns2 us. split_leaf ns b order n0 i (map gidx ts) (gidx (ts ! k)) k = Some ns1
           \<and> propagate b order [i] None ns1 = Some ns2 \<and> grown ns (G i ts) b order n0 ns2 (G i us)"
proof -
  define c where "c = ts ! k"
  have c: "c \<in> set ts" and ne: "ts \<noteq> []"
    using t(3) by (auto simp: c_def)
  note int = shape_internalD [OF t(1) ne]
  have sc: "shape ns c" "gidx c < length ns"
    using c t(1) shape_gidx by auto
  have ck: "c = G (gidx c) []"
    using shape_leafD(1) [OF sc(1)] t(4) by (simp add: c_def)
  have kc: "kind (ns ! gidx c) = BLeaf (max_order (ns ! gidx c))"
    using sc(1) ck by (cases c) (auto simp: node_ok_def split: node_kind.splits)
  have apart: "gidx c \<noteq> n0"
    using gidx_child [OF c] n0(2) by auto
  define m where "m = \<lparr>nbounds = union_bounds (nbounds (ns ! gidx c)) b, max_order = max (max_order (ns ! gidx c)) order,
        kind = BInternal (ordered_pair order n0 (max_order (ns ! gidx c)) (gidx c))\<rparr>"
  define c' where "c' = G (length ns) (if order > max_order (ns ! gidx c) then [G (gidx c) [], G n0 []] else [G n0 [], G (gidx c) []])"
  have g: "grown ns c b order n0 (ns @ [m]) c'"
    using grown_pair [OF sc(2) kc apart n0(1,3) m_def] ck by (simp add: c'_def)
  define us where "us = (if order > max_order (ns ! i) then the (swap_at (ts[k := c']) k (length ts - 1)) else ts[k := c'])"
  obtain vs where vs: "swap_at (ts[k := c']) k (length ts - 1) = Some vs" "last vs = c'" "vs \<noteq> []"
    using swap_at_last [of k "ts[k := c']"] t(3) by auto
  define n where "n = \<lparr>nbounds = union_bounds (nbounds (ns ! i)) b, max_order = max (max_order (ns ! i)) order, kind = BInternal (map gidx us)\<rparr>"
  have sib: "max_order (ns ! gidx c) \<le> max_order (ns ! i)"
    by (rule int(6) [OF c])
  have len: "i < length ns" "k < length ts"
    using int(2) t(3) .
  have "split_leaf ns b order n0 i (map gidx ts) (gidx (ts ! k)) k
      = Some ((ns @ [m])[i := (ns ! i)\<lparr>kind := BInternal (map gidx us)\<rparr>])"
    using len sib vs swap_at_map [of gidx "ts[k := c']" k "length ts - 1"] sc
    by (auto simp: split_leaf_def us_def m_def c_def c'_def Let_def map_update nth_append)
  moreover have "propagate b order [i] None ((ns @ [m])[i := (ns ! i)\<lparr>kind := BInternal (map gidx us)\<rparr>])
      = Some ((ns @ [m])[i := n])"
    using len by (cases "ns ! i") (auto simp: propagate_node_def raise_child_def n_def max_def Let_def)
  moreover have "grown ns (G i ts) b order n0 ((ns @ [m])[i := n]) (G i us)"
  proof (rule regrow [OF t(1,2) _ n0(1,2) g])
    show "ts = take k ts @ c # drop (Suc k) ts"
      using t(3) by (simp add: c_def id_take_nth_drop)
    show "mset us = mset (take k ts @ c' # drop (Suc k) ts)"
      using vs mset_swap_at [OF vs(1)] upd_conv_take_nth_drop [OF t(3)] by (simp add: us_def)
    show "max_order ((ns @ [m]) ! gidx (last us)) = max_order n"
    proof (cases "order > max_order (ns ! i)")
      case True
      then show ?thesis
        using vs sib by (simp add: us_def c'_def n_def m_def)
    next
      case False
      show ?thesis
      proof (cases "k = length ts - 1")
        case True
        then have "last us = c'" "last ts = c"
          using False t(3) ne by (auto simp: us_def c_def last_conv_nth)
        then show ?thesis
          using False int(7) by (simp add: c'_def m_def n_def)
      next
        case neq: False
        have "last us = last ts"
          using False neq ne by (simp add: us_def last_list_update)
        moreover have "gidx (last ts) < length ns"
          using t(1) ne shape_gidx [of ns "last ts"] by simp
        ultimately show ?thesis
          using False int(7) by (simp add: nth_append n_def)
      qed
    qed
  qed (simp_all add: n_def)
  ultimately show ?thesis
    by blast
qed

text \<open>The node above a child that grew.\<close>

lemma propagate_append:
  "propagate b order (xs @ ys) u ns =
     do { ns' \<leftarrow> propagate b order xs u ns; propagate b order ys (if xs = [] then u else Some (last xs)) ns' }"
  by (induction xs arbitrary: u ns) (auto split: bind_splits)

lemma raise_child_ok:
  assumes "k < length cs" "distinct cs"
  shows "\<exists>ds. raise_child (Some (cs ! k)) (BInternal cs) = Some (BInternal ds)
           \<and> swap_at cs k (length cs - 1) = Some ds \<and> last ds = cs ! k"
proof -
  obtain p where p: "position cs (cs ! k) = Some p" "p < length cs" "cs ! p = cs ! k"
    using position_Some [of "cs ! k" cs] assms(1) by auto
  then have "p = k"
    using assms by (simp add: nth_eq_iff_index_eq)
  moreover obtain ds where "swap_at cs k (length cs - 1) = Some ds" "last ds = cs ! k"
    using swap_at_last [OF assms(1)] by auto
  ultimately show ?thesis
    using p assms(1) by (auto simp: raise_child_def swap_at_def split: if_splits)
qed

lemma distinct_children: "distinct (indices (G i ts)) \<Longrightarrow> distinct (map gidx ts)"
proof (induction ts)
  case (Cons t ts)
  have "gidx t \<noteq> gidx u" if "u \<in> set ts" for u
    using Cons.prems that gidx_indices [of t] gidx_indices [of u] by (auto simp del: gidx_indices)
  with Cons show ?case by auto
qed simp

lemma distinct_child:
  assumes "distinct (indices (G i ts))" "t \<in> set ts"
  shows "distinct (indices t)"
proof -
  obtain xs ys where "ts = xs @ t # ys"
    using split_list [OF assms(2)] by blast
  with assms(1) show ?thesis by simp
qed

lemma disjoint_children:
  assumes "distinct (concat (map indices ts))" "j < length ts" "k < length ts" "j \<noteq> k"
  shows "set (indices (ts ! j)) \<inter> set (indices (ts ! k)) = {}"
  using assms
proof (induction ts arbitrary: j k)
  case (Cons t ts)
  have hd: "set (indices t) \<inter> set (indices (ts ! m)) = {}" if "m < length ts" for m
  proof -
    have "set (indices (ts ! m)) \<subseteq> set (concat (map indices ts))"
      using nth_mem [OF that] by auto
    then show ?thesis
      using Cons.prems(1) by auto
  qed
  have tl: "set (indices (ts ! m)) \<inter> set (indices (ts ! l)) = {}" if "m < length ts" "l < length ts" "m \<noteq> l" for m l
    using Cons.IH [OF _ that] Cons.prems(1) by simp
  show ?case
    using Cons.prems(2-4) hd tl by (cases j; cases k) (simp_all add: Int_commute)
qed simp

lemma propagate_ok:
  assumes t: "shape ns (G i ts)" "distinct (indices (G i ts))" "k < length ts"
    and n0: "n0 < length ns" "n0 \<notin> set (indices (G i ts))"
    and g: "grown ns (ts ! k) b order n0 ns2 c'" "gidx c' = gidx (ts ! k)"
  shows "\<exists>ns3 us. propagate b order [i] (Some (gidx (ts ! k))) ns2 = Some ns3
           \<and> grown ns (G i ts) b order n0 ns3 (G i us)"
proof -
  have c: "ts ! k \<in> set ts" and ne: "ts \<noteq> []"
    using t(3) by auto
  note int = shape_internalD [OF t(1) ne]
  have i: "i < length ns2" "ns2 ! i = ns ! i"
    using g(1) int(2) t(2) c by (auto simp: grown_def)
  obtain vs where vs: "swap_at (ts[k := c']) k (length ts - 1) = Some vs" "last vs = c'" "vs \<noteq> []"
    using swap_at_last [of k "ts[k := c']"] t(3) by auto
  define us where "us = (if order > max_order (ns ! i) then vs else ts[k := c'])"
  define n where "n = \<lparr>nbounds = union_bounds (nbounds (ns ! i)) b, max_order = max (max_order (ns ! i)) order, kind = BInternal (map gidx us)\<rparr>"
  have same: "map gidx (ts[k := c']) = map gidx ts"
    using g(2) t(3) by (simp add: map_update list_update_same_conv)
  have "propagate_node b order (Some (gidx (ts ! k))) (ns ! i) = Some n"
  proof (cases "order > max_order (ns ! i)")
    case True
    from raise_child_ok [of k "map gidx ts"] t(3) distinct_children [OF t(2)] obtain ds
      where ds: "raise_child (Some (gidx (ts ! k))) (BInternal (map gidx ts)) = Some (BInternal ds)"
        "swap_at (map gidx ts) k (length ts - 1) = Some ds"
      by auto
    have "ds = map gidx vs"
      using ds(2) vs(1) swap_at_map [of gidx "ts[k := c']" k "length ts - 1"] same by simp
    with ds(1) True int(1) show ?thesis
      by (cases "ns ! i") (simp add: propagate_node_def Let_def n_def us_def)
  next
    case False
    with int(1) same show ?thesis
      by (cases "ns ! i") (simp add: propagate_node_def Let_def n_def us_def)
  qed
  then have "propagate b order [i] (Some (gidx (ts ! k))) ns2 = Some (ns2[i := n])"
    using i by simp
  moreover have "grown ns (G i ts) b order n0 (ns2[i := n]) (G i us)"
  proof (rule regrow [OF t(1,2) _ n0 g(1)])
    show "ts = take k ts @ ts ! k # drop (Suc k) ts"
      using t(3) by (simp add: id_take_nth_drop)
    show "mset us = mset (take k ts @ c' # drop (Suc k) ts)"
      using vs mset_swap_at [OF vs(1)] upd_conv_take_nth_drop [OF t(3)] by (simp add: us_def)
    have mc: "max_order (ns2 ! gidx c') = max (max_order (ns ! gidx (ts ! k))) order"
      using g(1) by (simp add: grown_def)
    consider "order > max_order (ns ! i)" | "order \<le> max_order (ns ! i)" "k = length ts - 1"
      | "order \<le> max_order (ns ! i)" "k \<noteq> length ts - 1"
      by linarith
    then show "max_order (ns2 ! gidx (last us)) = max_order n"
    proof cases
      case 1
      then show ?thesis
        using mc vs(2) int(6) [OF c] by (simp add: us_def n_def)
    next
      case 2
      then show ?thesis
        using mc int(7) ne by (simp add: us_def n_def last_conv_nth)
    next
      case 3
      have "gidx (last ts) \<notin> set (indices (ts ! k))"
        using disjoint_children [of ts "length ts - 1" k] t(2,3) 3 gidx_indices [of "last ts"] ne
        by (auto simp: last_conv_nth simp del: gidx_indices)
      moreover have "gidx (last ts) < length ns"
        using t(1) ne shape_gidx [of ns "last ts"] by simp
      ultimately have "ns2 ! gidx (last us) = ns ! gidx (last ts)"
        using g(1) 3 ne by (simp add: grown_def us_def last_list_update)
      then show ?thesis
        using 3 int(7) by (simp add: n_def)
    qed
  qed (simp_all add: n_def)
  ultimately show ?thesis
    by blast
qed

text \<open>The descent with the propagation along its path, by induction on the ghost tree.\<close>

lemma descend_ok:
  assumes "shape ns t" "distinct (indices t)" "\<not> node_is_leaf (ns ! gidx t)"
    and "n0 < length ns" "n0 \<notin> set (indices t)" "ns ! n0 = \<lparr>nbounds = b, max_order = order, kind = BLeaf order\<rparr>"
  shows "\<exists>ns1 suf ns2 t'. descend ns b order n0 (gidx t) path = Some (ns1, path @ gidx t # suf)
           \<and> propagate b order (rev (gidx t # suf)) None ns1 = Some ns2
           \<and> gidx t' = gidx t \<and> grown ns t b order n0 ns2 t'"
  using assms
proof (induction t arbitrary: path)
  case (G i ts)
  have ne: "ts \<noteq> []"
    using G.prems(1,3) by (auto simp: node_ok_leaf)
  note int = shape_internalD [OF G.prems(1) ne]
  have in_range: "j < length ns" if "j \<in> set (map gidx ts)" for j
    using that G.prems(1) shape_gidx by auto
  obtain k where k: "k < length ts" "best_child ns b (map gidx ts) = Some (gidx (ts ! k), k)"
    using best_child_ok [of "map gidx ts" ns b] ne in_range by auto
  have c: "ts ! k \<in> set ts" "gidx (ts ! k) < length ns" "shape ns (ts ! k)"
    using k(1) in_range G.prems(1) by auto
  note d = descend.simps [of ns b order n0 i path]
  show ?case
  proof (cases "node_is_leaf (ns ! gidx (ts ! k))")
    case leaf: True
    show ?thesis
    proof (cases "length ts < MAX_CHILDREN")
      case True
      from add_ok [OF G.prems(1,2) ne True G.prems(4-6)] obtain ns1 ns2 us where
        "add_to_node ns b order n0 i (map gidx ts) = Some ns1" "propagate b order [i] None ns1 = Some ns2"
        "grown ns (G i ts) b order n0 ns2 (G i us)" by blast
      with True leaf k(2) c(2) int(1,2) d show ?thesis
        by (intro exI [of _ ns1] exI [of _ "[]"] exI [of _ ns2] exI [of _ "G i us"]) simp
    next
      case False
      from split_ok [OF G.prems(1,2) k(1) leaf G.prems(4-6)] obtain ns1 ns2 us where
        "split_leaf ns b order n0 i (map gidx ts) (gidx (ts ! k)) k = Some ns1" "propagate b order [i] None ns1 = Some ns2"
        "grown ns (G i ts) b order n0 ns2 (G i us)" by blast
      with False leaf k(2) c(2) int(1,2) d show ?thesis
        by (intro exI [of _ ns1] exI [of _ "[]"] exI [of _ ns2] exI [of _ "G i us"]) simp
    qed
  next
    case internal: False
    have "distinct (indices (ts ! k))" "n0 \<notin> set (indices (ts ! k))"
      using distinct_child [OF G.prems(2) c(1)] indices_child [OF c(1)] G.prems(5) by auto
    from G.IH [OF c(1,3) this(1) internal G.prems(4) this(2) G.prems(6), of "path @ [i]"]
    obtain ns1 suf ns2 c' where
      sub: "descend ns b order n0 (gidx (ts ! k)) (path @ [i]) = Some (ns1, (path @ [i]) @ gidx (ts ! k) # suf)"
        "propagate b order (rev (gidx (ts ! k) # suf)) None ns1 = Some ns2"
        "gidx c' = gidx (ts ! k)" "grown ns (ts ! k) b order n0 ns2 c'" by blast
    from propagate_ok [OF G.prems(1,2) k(1) G.prems(4,5) sub(4,3)] obtain ns3 us where
      up: "propagate b order [i] (Some (gidx (ts ! k))) ns2 = Some ns3" "grown ns (G i ts) b order n0 ns3 (G i us)" by blast
    have "descend ns b order n0 i path = Some (ns1, path @ i # gidx (ts ! k) # suf)"
      using sub(1) internal k(2) c(2) int(1,2) d by simp
    moreover have "propagate b order (rev (i # gidx (ts ! k) # suf)) None ns1 = Some ns3"
      using sub(2) up(1) propagate_append [of b order "rev (gidx (ts ! k) # suf)" "[i]" None ns1] by simp
    ultimately show ?thesis
      using up(2) by (intro exI [of _ ns1] exI [of _ "gidx (ts ! k) # suf"] exI [of _ ns3] exI [of _ "G i us"]) simp
  qed
qed

section \<open>The interface\<close>

text \<open>\<open>bt_ok t es\<close>: the tree is well formed and stores exactly the entries \<open>es\<close>.\<close>

definition bt_ok :: "'u::linordered_ab_group_add bounds_tree \<Rightarrow> ('u bounds \<times> nat) multiset \<Rightarrow> bool" where
  "bt_ok t es \<longleftrightarrow>
     (case root t of
        None \<Rightarrow> es = {#} \<and> max_leaf t = None \<and> nodes t = []
      | Some r \<Rightarrow>
          \<exists>g m. gidx g = r \<and> shape (nodes t) g \<and> distinct (indices g) \<and> entries (nodes t) g = es
            \<and> max_leaf t = Some m \<and> m < length (nodes t)
            \<and> (nbounds (nodes t ! m), max_order (nodes t ! m)) \<in># es
            \<and> max_order (nodes t ! m) = max_order (nodes t ! r)
            \<and> kind (nodes t ! m) = BLeaf (max_order (nodes t ! m)))"

text \<open>The order the tree gives a new rectangle.\<close>

definition next_order :: "('u::linordered_ab_group_add bounds \<times> nat) multiset \<Rightarrow> 'u bounds \<Rightarrow> nat" where
  "next_order es b = Suc (Max (insert 0 (hits b (set_mset es))))"

lemma bt_default_ok: "bt_ok bt_default {#}" "bt_ok (bt_clear t) {#}"
  by (simp_all add: bt_ok_def bt_default_def bt_clear_def)

lemma find_max_ordering_ok:
  assumes "bt_ok t es"
  shows "find_max_ordering t q = Some (Max (insert 0 (hits q (set_mset es))))"
proof (cases "root t")
  case None
  with assms show ?thesis
    by (simp add: bt_ok_def find_max_ordering_def hits_def)
next
  case (Some r)
  with assms obtain g m where g: "gidx g = r" "shape (nodes t) g" "entries (nodes t) g = es"
      "max_leaf t = Some m" "m < length (nodes t)" "(nbounds (nodes t ! m), max_order (nodes t ! m)) \<in># es"
      "max_order (nodes t ! m) = max_order (nodes t ! r)"
    by (auto simp: bt_ok_def)
  have search: "search_loop (nodes t) q [r] 0 = Some (Max (insert 0 (hits q (set_mset es))))"
    using search_loop_ok [of "[g]" "nodes t" q 0] g by (simp add: found_def)
  show ?thesis
  proof (cases "intersects q (nbounds (nodes t ! m))")
    case True
    then have "max_order (nodes t ! m) \<in> hits q (set_mset es)"
      using g(6) by (force simp: hits_def)
    moreover have "v \<le> max_order (nodes t ! m)" if "v \<in> hits q (set_mset es)" for v
      using hits_bounded [OF g(2), of v q] that g by simp
    ultimately have "Max (insert 0 (hits q (set_mset es))) = max_order (nodes t ! m)"
      by (intro Max_eqI) auto
    with True Some g show ?thesis
      by (simp add: find_max_ordering_def)
  next
    case False
    with Some g search show ?thesis
      by (simp add: find_max_ordering_def)
  qed
qed

text \<open>The insertion into the arena, before \<open>max_leaf\<close> is updated.\<close>

lemma insert_leaf_ok:
  fixes b :: "'u::linordered_ab_group_add bounds" and order :: nat
  assumes t: "root t = Some r" "shape (nodes t) g" "gidx g = r" "distinct (indices g)"
  defines "n0 \<equiv> length (nodes t)" and "ns \<equiv> nodes t @ [\<lparr>nbounds = b, max_order = order, kind = BLeaf order\<rparr>]"
  shows "\<exists>t' g'. insert_leaf t b order = Some (t', n0) \<and> root t' = Some (gidx g') \<and> max_leaf t' = max_leaf t
           \<and> grown ns g b order n0 (nodes t') g'"
proof -
  have sh: "shape ns g"
    using frame [OF t(2), of ns] shape_range [OF t(2)] by (auto simp: ns_def nth_append)
  have n0: "n0 < length ns" "n0 \<notin> set (indices g)" "ns ! n0 = \<lparr>nbounds = b, max_order = order, kind = BLeaf order\<rparr>"
    using shape_range [OF t(2)] by (auto simp: ns_def n0_def)
  have r: "r < length ns"
    using shape_gidx [OF sh] t(3) by simp
  show ?thesis
  proof (cases "node_is_leaf (ns ! r)")
    case True
    have g: "g = G r []"
      using shape_leafD(1) [OF sh] True t(3) by simp
    have "kind (ns ! r) = BLeaf (max_order (ns ! r))"
      using sh g by (auto simp: node_ok_def split: node_kind.splits)
    moreover have "r \<noteq> n0"
      using n0(2) g by auto
    ultimately have "grown ns (G r []) b order n0
        (ns @ [\<lparr>nbounds = union_bounds (nbounds (ns ! r)) b, max_order = max (max_order (ns ! r)) order,
                kind = BInternal (ordered_pair order n0 (max_order (ns ! r)) r)\<rparr>])
        (G (length ns) (if order > max_order (ns ! r) then [G r [], G n0 []] else [G n0 [], G r []]))"
      using r n0(1,3) by (intro grown_pair) auto
    with True t(1) r g show ?thesis
      unfolding insert_leaf_def Let_def by (fold n0_def ns_def) (auto simp: intro!: exI)
  next
    case False
    with descend_ok [OF sh t(4) _ n0, of "[]"] t(3) obtain ns1 suf ns2 g' where
      "descend ns b order n0 r [] = Some (ns1, r # suf)" "propagate b order (rev (r # suf)) None ns1 = Some ns2"
      "gidx g' = r" "grown ns g b order n0 ns2 g'" by auto
    with False t(1) r show ?thesis
      unfolding insert_leaf_def Let_def
      by (fold n0_def ns_def) (auto intro!: exI [of _ "t\<lparr>nodes := ns2\<rparr>"] exI [of _ g'])
  qed
qed

lemma bt_insert_ok:
  assumes "bt_ok t es"
  shows "\<exists>t'. bt_insert t b = Some (t', next_order es b) \<and> bt_ok t' (es + {#(b, next_order es b)#})"
proof (cases "root t")
  case None
  with assms show ?thesis
    by (cases t) (auto simp: bt_ok_def bt_insert_def find_max_ordering_def insert_leaf_def next_order_def hits_def
        node_ok_def intro!: exI [of _ "G 0 []"])
next
  case (Some r)
  define order where "order = next_order es b"
  define n0 where "n0 = length (nodes t)"
  define ns where "ns = nodes t @ [\<lparr>nbounds = b, max_order = order, kind = BLeaf order\<rparr>]"
  obtain g m where g: "gidx g = r" "shape (nodes t) g" "distinct (indices g)" "entries (nodes t) g = es"
      "max_leaf t = Some m" "m < length (nodes t)" "(nbounds (nodes t ! m), max_order (nodes t ! m)) \<in># es"
      "max_order (nodes t ! m) = max_order (nodes t ! r)" "kind (nodes t ! m) = BLeaf (max_order (nodes t ! m))"
    using assms Some by (auto simp: bt_ok_def)
  obtain t' g' where t': "insert_leaf t b order = Some (t', n0)" "root t' = Some (gidx g')" "max_leaf t' = Some m"
      and gr: "grown ns g b order n0 (nodes t') g'"
    using insert_leaf_ok [OF Some g(2,1,3), of b order] g(5) by (auto simp: n0_def ns_def)
  have es: "entries ns g = es" and ns: "ns ! r = nodes t ! r" "ns ! m = nodes t ! m" "ns ! n0 = \<lparr>nbounds = b, max_order = order, kind = BLeaf order\<rparr>"
    using frame [OF g(2), of ns] shape_range [OF g(2)] g shape_gidx [OF g(2)] by (auto simp: ns_def n0_def nth_append)
  have leaves: "nodes t' ! m = nodes t ! m" "nodes t' ! n0 = ns ! n0" "m < length (nodes t')" "n0 < length (nodes t')"
    using gr g(6,9) ns by (auto simp: grown_def node_is_leaf_def ns_def n0_def nth_append)
  have new: "shape (nodes t') g'" "distinct (indices g')" "entries (nodes t') g' = es + {#(b, order)#}"
      "max_order (nodes t' ! gidx g') = max (max_order (nodes t ! r)) order"
    using gr es g(1) ns by (auto simp: grown_def)
  have ins: "bt_insert t b = Some (if max_order (nodes t ! m) < order then t'\<lparr>max_leaf := Some n0\<rparr> else t', order)"
    using find_max_ordering_ok [OF assms, of b] t' leaves
    by (simp add: bt_insert_def order_def next_order_def Let_def)
  have "bt_ok (if max_order (nodes t ! m) < order then t'\<lparr>max_leaf := Some n0\<rparr> else t') (es + {#(b, order)#})"
    using new leaves t' g(7,8,9) ns(3) by (auto simp: bt_ok_def intro!: exI [of _ g'])
  with ins show ?thesis
    by (auto simp: order_def)
qed

text \<open>A run of insertions from the empty tree.\<close>

fun bt_inserts :: "'u::linordered_ab_group_add bounds_tree \<Rightarrow> 'u bounds list \<Rightarrow> ('u bounds_tree \<times> nat list) option" where
  "bt_inserts t [] = Some (t, [])"
| "bt_inserts t (b # bs) =
     do { (t', v) \<leftarrow> bt_insert t b;
          (t'', vs) \<leftarrow> bt_inserts t' bs;
          Some (t'', v # vs) }"

text \<open>The orders the specification gives.\<close>

fun spec_orders :: "('u::linordered_ab_group_add bounds \<times> nat) multiset \<Rightarrow> 'u bounds list \<Rightarrow> nat list" where
  "spec_orders es [] = []"
| "spec_orders es (b # bs) = next_order es b # spec_orders (es + {#(b, next_order es b)#}) bs"

lemma bt_inserts_ok:
  assumes "bt_ok t es"
  shows "\<exists>t'. bt_inserts t bs = Some (t', spec_orders es bs) \<and> bt_ok t' (es + mset (zip bs (spec_orders es bs)))"
  using assms
proof (induction bs arbitrary: t es)
  case (Cons b bs)
  obtain t1 where "bt_insert t b = Some (t1, next_order es b)" "bt_ok t1 (es + {#(b, next_order es b)#})"
    using bt_insert_ok [OF Cons.prems] by blast
  with Cons.IH [of t1 "es + {#(b, next_order es b)#}"] show ?case
    by auto
qed simp

lemma spec_orders_length [simp]: "length (spec_orders es bs) = length bs"
  by (induction bs arbitrary: es) auto

text \<open>The order of a rectangle is above those of the earlier ones it overlaps, and never above the
  number of rectangles.\<close>

lemma next_order_above: "(c, v) \<in># es \<Longrightarrow> intersects b c \<Longrightarrow> v < next_order es b"
  unfolding next_order_def less_Suc_eq_le by (intro Max_ge) (auto simp: hits_def image_iff intro!: bexI [of _ "(c, v)"])

lemma next_order_bounded:
  assumes "\<And>c v. (c, v) \<in># es \<Longrightarrow> v \<le> n"
  shows "next_order es b \<le> Suc n"
  unfolding next_order_def using assms by (auto simp: hits_def)

lemma spec_orders_bounded:
  assumes "\<And>c v. (c, v) \<in># es \<Longrightarrow> v \<le> n"
  shows "\<forall>v\<in>set (spec_orders es bs). v \<le> n + length bs"
  using assms
proof (induction bs arbitrary: es n)
  case (Cons b bs)
  have le: "next_order es b \<le> Suc n"
    using next_order_bounded Cons.prems by blast
  have "\<forall>v\<in>set (spec_orders (es + {#(b, next_order es b)#}) bs). v \<le> Suc n + length bs"
    by (rule Cons.IH) (use Cons.prems le in \<open>auto intro: le_SucI\<close>)
  with le show ?case by auto
qed simp

lemma spec_orders_above:
  assumes "(c, v) \<in># es" "j < length bs" "intersects (bs ! j) c"
  shows "v < spec_orders es bs ! j"
  using assms
proof (induction bs arbitrary: es j)
  case (Cons b bs)
  then show ?case
    using next_order_above [of c v es b] by (cases j) simp_all
qed simp

lemma spec_orders_increasing:
  assumes "i < j" "j < length bs" "intersects (bs ! j) (bs ! i)"
  shows "spec_orders es bs ! i < spec_orders es bs ! j"
  using assms
proof (induction bs arbitrary: es i j)
  case (Cons b bs)
  then obtain k where j: "j = Suc k"
    by (cases j) auto
  with Cons show ?case
    using spec_orders_above [of b "next_order es b" "es + {#(b, next_order es b)#}" k bs] by (cases i) simp_all
qed simp

end
