(* ===== verification/TabStop.thy ===== *)
theory TabStop
  imports SumTree_Keyed "HOL-Library.AList" "HOL-Library.List_Lexorder" "HOL-Library.Product_Lexorder"
begin

text \<open>
  \<open>gpui/src/tab_stop.rs\<close>: the order in which the tab key visits the focusable elements of a frame. The
  elements are kept in a sum tree, ordered by the path of group indices above them and then by insertion.

  The key of a node, and the dimension its cursors measure, is the pair of path and insertion index
  under the lexicographic order, which is how \<open>Ord for TabStopNode\<close> and the seek target compare; the
  \<open>tab_stop\<close> field of a dimension is never read.
\<close>

section \<open>Data\<close>

record focus_handle =
  fh_id :: nat
  fh_tab_index :: int
  fh_tab_stop :: bool

datatype tab_stop_operation = InsertOp focus_handle | GroupOp int | GroupEndOp

fun operation_focus_handle :: "tab_stop_operation \<Rightarrow> focus_handle option" where
  "operation_focus_handle (InsertOp focus_handle) = Some focus_handle"
| "operation_focus_handle _ = None"

record tab_stop_node =
  tn_path :: "int list"
  tn_insertion_index :: nat
  tn_tab_stop :: bool

definition node_key :: "tab_stop_node \<Rightarrow> int list \<times> nat" where
  "node_key n = (tn_path n, tn_insertion_index n)"

record tab_summary =
  max_index :: nat
  max_path :: "int list"
  tab_stops :: nat

definition tab_ops :: "(tab_stop_node, tab_summary) summary_ops" where
  "tab_ops =
     \<lparr>s_zero = \<lparr>max_index = 0, max_path = [], tab_stops = 0\<rparr>,
      s_add = (\<lambda>self summary. \<lparr>max_index = max_index summary, max_path = max_path summary,
                               tab_stops = tab_stops self + tab_stops summary\<rparr>),
      s_item = (\<lambda>n. \<lparr>max_index = tn_insertion_index n, max_path = tn_path n,
                     tab_stops = if tn_tab_stop n then 1 else 0\<rparr>)\<rparr>"

definition tab_node_dim :: "(tab_summary, int list \<times> nat) dim_ops" where
  "tab_node_dim = \<lparr>d_zero = ([], 0), d_add = (\<lambda>_ summary. (max_path summary, max_index summary))\<rparr>"

definition tab_count_dim :: "(tab_summary, nat) dim_ops" where
  "tab_count_dim = \<lparr>d_zero = 0, d_add = (\<lambda>n summary. n + tab_stops summary)\<rparr>"

record tab_stop_map =
  current_path :: "int list"
  insertion_history :: "tab_stop_operation list"
  by_id :: "(nat \<times> tab_stop_node) list"
  order :: "(tab_stop_node, tab_summary) node"

section \<open>Operations\<close>

definition tab_default :: tab_stop_map where
  "tab_default = \<lparr>current_path = [], insertion_history = [], by_id = [], order = new_tree tab_ops\<rparr>"

definition tab_insert :: "tab_stop_map \<Rightarrow> focus_handle \<Rightarrow> tab_stop_map option" where
  "tab_insert self focus_handle = do {
     let history = insertion_history self @ [InsertOp focus_handle];
     let path = current_path self @ [fh_tab_index focus_handle];
     let node = \<lparr>tn_path = path, tn_insertion_index = length history - 1, tn_tab_stop = fh_tab_stop focus_handle\<rparr>;
     (_, order') \<leftarrow> insert_or_replace tab_ops tab_node_dim node_key (order self) node;
     Some (self\<lparr>insertion_history := history, by_id := AList.update (fh_id focus_handle) node (by_id self), order := order'\<rparr>)
   }"

definition begin_group :: "tab_stop_map \<Rightarrow> int \<Rightarrow> tab_stop_map" where
  "begin_group self tab_index =
     self\<lparr>insertion_history := insertion_history self @ [GroupOp tab_index],
          current_path := current_path self @ [tab_index]\<rparr>"

definition end_group :: "tab_stop_map \<Rightarrow> tab_stop_map" where
  "end_group self =
     self\<lparr>insertion_history := insertion_history self @ [GroupEndOp], current_path := butlast (current_path self)\<rparr>"

definition tab_clear :: "tab_stop_map \<Rightarrow> tab_stop_map" where
  "tab_clear self = tab_default"

definition focus_handle_for_order :: "tab_stop_map \<Rightarrow> tab_stop_node \<Rightarrow> focus_handle option option" where
  "focus_handle_for_order self node =
     map_option operation_focus_handle (index_at (insertion_history self) (tn_insertion_index node))"

definition tab_node_for_focus_id :: "tab_stop_map \<Rightarrow> nat \<Rightarrow> tab_stop_node option" where
  "tab_node_for_focus_id self focused_id = map_of (by_id self) focused_id"

text \<open>The loops of \<open>next_inner\<close> and \<open>prev_inner\<close>, which skip nodes that are not tab stops.\<close>

partial_function (option) next_stop ::
    "(tab_stop_node, tab_summary, int list \<times> nat) cursor \<Rightarrow> tab_stop_node option option" where
  "next_stop c = do {
     r \<leftarrow> cursor_item c;
     case r of
       Some item \<Rightarrow> if \<not> tn_tab_stop item then do { c' \<leftarrow> cursor_next tab_node_dim c; next_stop c' } else Some (Some item)
     | None \<Rightarrow> Some None
   }"

declare next_stop.simps [code]

partial_function (option) prev_stop ::
    "(tab_stop_node, tab_summary, int list \<times> nat) cursor \<Rightarrow> tab_stop_node option option" where
  "prev_stop c = do {
     r \<leftarrow> cursor_item c;
     case r of
       Some item \<Rightarrow> if \<not> tn_tab_stop item then do { c' \<leftarrow> cursor_prev tab_node_dim c; prev_stop c' } else Some (Some item)
     | None \<Rightarrow> Some None
   }"

declare prev_stop.simps [code]

definition next_inner :: "tab_stop_map \<Rightarrow> tab_stop_node \<Rightarrow> tab_stop_node option option" where
  "next_inner self node = do {
     (_, c) \<leftarrow> seek tab_node_dim (cursor_new tab_node_dim (order self)) (key_target (node_key node)) Left;
     c \<leftarrow> cursor_next tab_node_dim c;
     next_stop c
   }"

definition prev_inner :: "tab_stop_map \<Rightarrow> tab_stop_node \<Rightarrow> tab_stop_node option option" where
  "prev_inner self node = do {
     (_, c) \<leftarrow> seek tab_node_dim (cursor_new tab_node_dim (order self)) (key_target (node_key node)) Left;
     c \<leftarrow> cursor_prev tab_node_dim c;
     prev_stop c
   }"

text \<open>\<open>next(None)\<close> and \<open>prev(None)\<close>.\<close>

definition next_from_start :: "tab_stop_map \<Rightarrow> focus_handle option option" where
  "next_from_start self = do {
     first \<leftarrow> tree_first (order self);
     case first of
       None \<Rightarrow> Some None
     | Some first \<Rightarrow>
         if tn_tab_stop first then focus_handle_for_order self first
         else do {
           r \<leftarrow> next_inner self first;
           case r of Some node \<Rightarrow> focus_handle_for_order self node | None \<Rightarrow> Some None
         }
   }"

definition prev_from_end :: "tab_stop_map \<Rightarrow> focus_handle option option" where
  "prev_from_end self = do {
     last_node \<leftarrow> tree_last (order self);
     case last_node of
       None \<Rightarrow> Some None
     | Some node \<Rightarrow>
         if tn_tab_stop node then focus_handle_for_order self node
         else do {
           r \<leftarrow> prev_inner self node;
           case r of Some node \<Rightarrow> focus_handle_for_order self node | None \<Rightarrow> Some None
         }
   }"

definition tab_next :: "tab_stop_map \<Rightarrow> nat option \<Rightarrow> focus_handle option option" where
  "tab_next self focused_id =
     (case focused_id of
        None \<Rightarrow> next_from_start self
      | Some focused_id \<Rightarrow>
          (case tab_node_for_focus_id self focused_id of
             None \<Rightarrow> next_from_start self
           | Some node \<Rightarrow> do {
               item \<leftarrow> next_inner self node;
               case item of Some item \<Rightarrow> focus_handle_for_order self item | None \<Rightarrow> next_from_start self
             }))"

definition tab_prev :: "tab_stop_map \<Rightarrow> nat option \<Rightarrow> focus_handle option option" where
  "tab_prev self focused_id =
     (case focused_id of
        None \<Rightarrow> prev_from_end self
      | Some focused_id \<Rightarrow>
          (case tab_node_for_focus_id self focused_id of
             None \<Rightarrow> prev_from_end self
           | Some node \<Rightarrow> do {
               item \<leftarrow> prev_inner self node;
               case item of Some item \<Rightarrow> focus_handle_for_order self item | None \<Rightarrow> prev_from_end self
             }))"

fun apply_operation :: "tab_stop_operation \<Rightarrow> tab_stop_map \<Rightarrow> tab_stop_map option" where
  "apply_operation (InsertOp focus_handle) self = tab_insert self focus_handle"
| "apply_operation (GroupOp tab_index) self = Some (begin_group self tab_index)"
| "apply_operation GroupEndOp self = Some (end_group self)"

fun replay :: "tab_stop_map \<Rightarrow> tab_stop_operation list \<Rightarrow> tab_stop_map option" where
  "replay self [] = Some self"
| "replay self (node # nodes) = do { self' \<leftarrow> apply_operation node self; replay self' nodes }"

definition paint_index :: "tab_stop_map \<Rightarrow> nat" where
  "paint_index self = length (insertion_history self)"

definition tab_stop_count :: "tab_stop_map \<Rightarrow> nat" where
  "tab_stop_count self = length (filter tn_tab_stop (map snd (by_id self)))"

section \<open>The laws of the tree\<close>

interpretation tabs: keyed_laws tab_ops tab_node_dim node_key
proof
  fix d :: "int list \<times> nat" and x :: tab_stop_node
  show "d_add tab_node_dim d (s_item tab_ops x) = node_key x"
    by (simp add: tab_node_dim_def tab_ops_def node_key_def)
next
  fix k :: "int list \<times> nat"
  show "d_zero tab_node_dim \<le> k" by (cases k) (simp add: tab_node_dim_def less_eq_prod_simp)
qed (simp_all add: tab_ops_def tab_node_dim_def)

interpretation tab_counts: dimension_laws tab_ops tab_count_dim
  by unfold_locales (simp_all add: tab_ops_def tab_count_dim_def)


section \<open>The invariant\<close>

definition tab_fits :: "tab_stop_map \<Rightarrow> bool" where
  "tab_fits m \<longleftrightarrow> node_height (order m) < STACK_CAP"

definition history_node :: "tab_stop_map \<Rightarrow> tab_stop_node \<Rightarrow> focus_handle \<Rightarrow> bool" where
  "history_node m n h \<longleftrightarrow> tn_insertion_index n < length (insertion_history m)
     \<and> insertion_history m ! tn_insertion_index n = InsertOp h \<and> tn_tab_stop n = fh_tab_stop h"

definition tab_ok :: "tab_stop_map \<Rightarrow> bool" where
  "tab_ok m \<longleftrightarrow> tree_ok tab_ops (order m)
     \<and> sorted_wrt (\<lambda>a b. node_key a < node_key b) (to_list (order m))
     \<and> (\<forall>n \<in> set (to_list (order m)). \<exists>h. history_node m n h)
     \<and> distinct (map fst (by_id m))
     \<and> (\<forall>(i, n) \<in> set (by_id m). n \<in> set (to_list (order m)) \<and> (\<exists>h. history_node m n h \<and> fh_id h = i))"

text \<open>The reference of a node to its operation, as a function.\<close>

definition history_matches :: "tab_stop_map \<Rightarrow> (focus_handle \<Rightarrow> bool) \<Rightarrow> tab_stop_node \<Rightarrow> bool" where
  "history_matches m P n \<longleftrightarrow> tn_insertion_index n < length (insertion_history m) \<and>
     (case insertion_history m ! tn_insertion_index n of InsertOp h \<Rightarrow> tn_tab_stop n = fh_tab_stop h \<and> P h | _ \<Rightarrow> False)"

lemma history_matches_iff: "history_matches m P n \<longleftrightarrow> (\<exists>h. history_node m n h \<and> P h)"
  by (auto simp: history_matches_def history_node_def split: tab_stop_operation.splits)

lemma tab_okD:
  assumes "tab_ok m"
  shows "tree_ok tab_ops (order m)" "tabs.sorted_keys (to_list (order m))"
    "\<And>n. n \<in> set (to_list (order m)) \<Longrightarrow> \<exists>h. history_node m n h" "distinct (map fst (by_id m))"
    "\<And>i n. (i, n) \<in> set (by_id m) \<Longrightarrow> n \<in> set (to_list (order m)) \<and> (\<exists>h. history_node m n h \<and> fh_id h = i)"
  using assms by (auto simp: tab_ok_def tabs.sorted_keys_def)

lemma tab_default_ok: "tab_ok tab_default" "tab_fits tab_default"
  by (simp_all add: tab_ok_def tab_default_def tab_fits_def STACK_CAP_def)

lemma history_node_append:
  "history_node m n h \<Longrightarrow> insertion_history m' = insertion_history m @ [x] \<Longrightarrow> history_node m' n h"
  by (simp add: history_node_def nth_append)

lemma tab_ok_history:
  assumes "tab_ok m" "order m' = order m" "by_id m' = by_id m" "insertion_history m' = insertion_history m @ [x]"
  shows "tab_ok m'"
  using assms(1) history_node_append [OF _ assms(4)] unfolding tab_ok_def assms(2,3) by blast

lemma begin_group_ok: "tab_ok m \<Longrightarrow> tab_ok (begin_group m i)"
  by (erule tab_ok_history) (simp_all add: begin_group_def)

lemma end_group_ok: "tab_ok m \<Longrightarrow> tab_ok (end_group m)"
  by (erule tab_ok_history) (simp_all add: end_group_def)

definition new_node :: "tab_stop_map \<Rightarrow> focus_handle \<Rightarrow> tab_stop_node" where
  "new_node m h = \<lparr>tn_path = current_path m @ [fh_tab_index h], tn_insertion_index = length (insertion_history m),
     tn_tab_stop = fh_tab_stop h\<rparr>"

lemma alist_update_subset: "set (AList.update k v al) \<subseteq> insert (k, v) (set al)"
  by (induction al) auto

lemma tab_insert_ok:
  assumes m: "tab_ok m" "tab_fits m"
  shows "\<exists>m'. tab_insert m h = Some m' \<and> tab_ok m' \<and> current_path m' = current_path m
     \<and> insertion_history m' = insertion_history m @ [InsertOp h]
     \<and> by_id m' = AList.update (fh_id h) (new_node m h) (by_id m)
     \<and> to_list (order m') = filter (\<lambda>n. node_key n < node_key (new_node m h)) (to_list (order m)) @ [new_node m h]
         @ filter (\<lambda>n. node_key (new_node m h) < node_key n) (to_list (order m))
     \<and> set (to_list (order m')) = insert (new_node m h) (set (to_list (order m)))"
proof -
  define nd where "nd = new_node m h"
  let ?xs = "to_list (order m)"
  note ok = tab_okD [OF m(1)]
  obtain r t' where t': "insert_or_replace tab_ops tab_node_dim node_key (order m) nd = Some (r, t')" "tree_ok tab_ops t'"
    "to_list t' = filter (\<lambda>n. node_key n < node_key nd) ?xs @ [nd] @ filter (\<lambda>n. node_key nd < node_key n) ?xs"
    using tabs.insert_or_replace_ok [OF ok(1) m(2) [unfolded tab_fits_def] ok(2), of nd] by blast
  have neq: "node_key n \<noteq> node_key nd" if "n \<in> set ?xs" for n
    using ok(3) [OF that] by (auto simp: nd_def new_node_def node_key_def history_node_def)
  have set: "set (to_list t') = insert nd (set ?xs)"
    using neq unfolding t'(3) by (auto dest: neq_iff [THEN iffD1])
  define m' where "m' = m\<lparr>insertion_history := insertion_history m @ [InsertOp h],
    by_id := AList.update (fh_id h) nd (by_id m), order := t'\<rparr>"
  have ord: "order m' = t'" "by_id m' = AList.update (fh_id h) nd (by_id m)" by (simp_all add: m'_def)
  have ins: "tab_insert m h = Some m'"
    using t'(1) by (simp add: tab_insert_def m'_def nd_def new_node_def Let_def)
  have old: "history_node m' n g" if "history_node m n g" for n g
    using history_node_append [OF that, of m'] by (simp add: m'_def)
  have new: "history_node m' nd h" by (simp add: history_node_def m'_def nd_def new_node_def)
  have sorted: "sorted_wrt (\<lambda>a b. node_key a < node_key b) (to_list t')"
    using ok(2) unfolding t'(3) tabs.sorted_keys_def
    by (auto simp: sorted_wrt_append intro: sorted_wrt_filter dest: less_trans)
  have "tab_ok m'"
    unfolding tab_ok_def
  proof (intro conjI ballI)
    show "tree_ok tab_ops (order m')" "sorted_wrt (\<lambda>a b. node_key a < node_key b) (to_list (order m'))"
      using t'(2) sorted by (simp_all add: ord)
    show "\<exists>h. history_node m' n h" if "n \<in> set (to_list (order m'))" for n
      using that set ok(3) [of n] old new unfolding ord by (cases "n = nd") blast+
    show "distinct (map fst (by_id m'))" using ok(4) by (simp add: ord distinct_update)
    fix p
    assume "p \<in> set (by_id m')"
    then have "p = (fh_id h, nd) \<or> p \<in> set (by_id m)" using alist_update_subset unfolding ord by fast
    then show "case p of (i, n) \<Rightarrow> n \<in> set (to_list (order m')) \<and> (\<exists>h. history_node m' n h \<and> fh_id h = i)"
    proof
      assume "p = (fh_id h, nd)"
      with new set show ?thesis by (auto simp: ord)
    next
      assume "p \<in> set (by_id m)"
      with ok(5) [of "fst p" "snd p"] old set show ?thesis by (auto simp: ord case_prod_unfold)
    qed
  qed
  then show ?thesis using ins t'(3) set by (simp add: nd_def [symmetric]) (simp add: m'_def)
qed


section \<open>Moving the focus\<close>

lemma next_stop_ok:
  assumes "tabs.cursor_ok t c n" "c_did_seek c"
  shows "next_stop c = Some (List.find tn_tab_stop (drop n (to_list t)))"
  using assms
proof (induction "length (to_list t) - n" arbitrary: c n rule: less_induct)
  case less
  note item = tabs.cursor_item_ok(1) [OF less.prems]
  show ?case
  proof (cases "n < length (to_list t)")
    case True
    from tabs.cursor_next_key [OF less.prems True] obtain c' where
      c': "cursor_next tab_node_dim c = Some c'" "tabs.cursor_ok t c' (Suc n)" "c_did_seek c'" by blast
    have "next_stop c' = Some (List.find tn_tab_stop (drop (Suc n) (to_list t)))"
      by (rule less.hyps [OF _ c'(2,3)]) (use True in simp)
    with True item c'(1) show ?thesis
      by (subst next_stop.simps) (simp flip: Cons_nth_drop_Suc)
  next
    case False
    with item show ?thesis by (subst next_stop.simps) simp
  qed
qed

lemma prev_stop_before: "tabs.cursor_before t c \<Longrightarrow> prev_stop c = Some None"
  by (subst prev_stop.simps) (simp add: tabs.cursor_before_def cursor_item_def assert_did_seek_def)

lemma prev_stop_ok:
  assumes "tabs.cursor_ok t c n" "c_did_seek c" "n < length (to_list t)"
  shows "prev_stop c = Some (List.find tn_tab_stop (rev (take (Suc n) (to_list t))))"
  using assms
proof (induction n arbitrary: c)
  case (0 c)
  have ne: "to_list t \<noteq> []" using "0.prems"(3) by auto
  obtain c' where c': "cursor_prev tab_node_dim c = Some c'" "tabs.cursor_before t c'"
    using tabs.cursor_prev_ok [OF "0.prems"(1) ne refl] "0.prems"(2) by auto
  from tabs.cursor_item_ok(1) [OF "0.prems"(1,2)] c' "0.prems"(3) ne show ?case
    by (subst prev_stop.simps) (auto simp: prev_stop_before take_Suc_conv_app_nth)
next
  case (Suc n c)
  have ne: "to_list t \<noteq> []" using Suc.prems(3) by auto
  obtain c' where c': "cursor_prev tab_node_dim c = Some c'" "tabs.cursor_ok t c' n" "c_did_seek c'"
    using tabs.cursor_prev_ok [OF Suc.prems(1) ne refl] Suc.prems(2) by auto
  have "prev_stop c' = Some (List.find tn_tab_stop (rev (take (Suc n) (to_list t))))"
    using Suc.IH [OF c'(2,3)] Suc.prems(3) by simp
  with tabs.cursor_item_ok(1) [OF Suc.prems(1,2)] c'(1) Suc.prems(3) show ?case
    by (subst prev_stop.simps) (simp add: take_Suc_conv_app_nth [of "Suc n"])
qed

text \<open>Seeking a node of the order finds its position.\<close>

lemma seek_node:
  assumes "tab_ok m" "tab_fits m" "to_list (order m) = pre @ n # post"
  obtains found c where "seek tab_node_dim (cursor_new tab_node_dim (order m)) (key_target (node_key n)) Left = Some (found, c)"
    "tabs.cursor_ok (order m) c (length pre)" "c_did_seek c"
proof -
  note ok = tab_okD [OF assms(1)]
  have "tabs.below (node_key n) (to_list (order m)) = pre"
    using ok(2) unfolding assms(3) tabs.below_def by (auto simp: takeWhile_append)
  then have idx: "tabs.seek_index (key_target (node_key n)) Left (order m) 0 = length pre"
    using tabs.seek_index_key [OF ok(2), of 0 "node_key n"] by simp
  have tree: "c_tree (cursor_new tab_node_dim (order m)) = order m" by (simp add: cursor_new_def)
  from tabs.seek_ok [of "cursor_new tab_node_dim (order m)" "key_target (node_key n)" Left, unfolded tree idx,
      OF ok(1) assms(2) [unfolded tab_fits_def] tabs.mono_key [OF ok(2)] tabs.key_not_before_zero]
  show thesis using that by blast
qed

lemma next_inner_ok:
  assumes "tab_ok m" "tab_fits m" "to_list (order m) = pre @ n # post"
  shows "next_inner m n = Some (List.find tn_tab_stop post)"
proof -
  obtain found c where c: "seek tab_node_dim (cursor_new tab_node_dim (order m)) (key_target (node_key n)) Left = Some (found, c)"
    "tabs.cursor_ok (order m) c (length pre)" "c_did_seek c"
    by (rule seek_node [OF assms])
  from tabs.cursor_next_key [OF c(2,3)] assms(3) obtain c' where
    c': "cursor_next tab_node_dim c = Some c'" "tabs.cursor_ok (order m) c' (Suc (length pre))" "c_did_seek c'" by auto
  from next_stop_ok [OF c'(2,3)] c(1) c'(1) show ?thesis by (simp add: next_inner_def assms(3))
qed

lemma prev_inner_ok:
  assumes "tab_ok m" "tab_fits m" "to_list (order m) = pre @ n # post"
  shows "prev_inner m n = Some (List.find tn_tab_stop (rev pre))"
proof -
  obtain found c where c: "seek tab_node_dim (cursor_new tab_node_dim (order m)) (key_target (node_key n)) Left = Some (found, c)"
    "tabs.cursor_ok (order m) c (length pre)" "c_did_seek c"
    by (rule seek_node [OF assms])
  have ne: "to_list (order m) \<noteq> []" by (simp add: assms(3))
  obtain c' where c': "cursor_prev tab_node_dim c = Some c'" "c_did_seek c'"
    "if 0 < length pre then tabs.cursor_ok (order m) c' (length pre - 1) else tabs.cursor_before (order m) c'"
    using tabs.cursor_prev_ok [OF c(2) ne, of "length pre"] c(3) by fastforce
  show ?thesis
  proof (cases "pre = []")
    case True
    with c c' prev_stop_before show ?thesis by (simp add: prev_inner_def)
  next
    case False
    then have "tabs.cursor_ok (order m) c' (length pre - 1)" using c'(3) by simp
    from prev_stop_ok [OF this c'(2)] False c(1) c'(1) show ?thesis by (simp add: prev_inner_def assms(3))
  qed
qed

definition handle_of :: "tab_stop_map \<Rightarrow> tab_stop_node \<Rightarrow> focus_handle" where
  "handle_of m n = the (operation_focus_handle (insertion_history m ! tn_insertion_index n))"

lemma handle_of_ok:
  assumes "tab_ok m" "n \<in> set (to_list (order m))"
  shows "focus_handle_for_order m n = Some (Some (handle_of m n))" "fh_tab_stop (handle_of m n) = tn_tab_stop n"
  using tab_okD(3) [OF assms] by (auto simp: focus_handle_for_order_def handle_of_def history_node_def)

lemma find_in_set: "List.find P xs = Some x \<Longrightarrow> x \<in> set xs"
  by (auto simp: find_Some_iff)

lemma find_append: "List.find P (xs @ ys) = (case List.find P xs of Some x \<Rightarrow> Some x | None \<Rightarrow> List.find P ys)"
  by (induction xs) auto

lemma next_from_start_ok:
  assumes "tab_ok m" "tab_fits m"
  shows "next_from_start m = Some (map_option (handle_of m) (List.find tn_tab_stop (to_list (order m))))"
proof (cases "to_list (order m)")
  case Nil
  then show ?thesis using tree_first_eq [OF tab_okD(1) [OF assms(1)]] by (simp add: next_from_start_def list_first_def)
next
  case (Cons n post)
  note first = tree_first_eq [OF tab_okD(1) [OF assms(1)]]
  note inner = next_inner_ok [OF assms, of "[]" n post]
  have "(case List.find tn_tab_stop post of Some n \<Rightarrow> focus_handle_for_order m n | None \<Rightarrow> Some None)
      = Some (map_option (handle_of m) (List.find tn_tab_stop post))"
    using handle_of_ok(1) [OF assms(1)] find_in_set [of tn_tab_stop post] Cons by (cases "List.find tn_tab_stop post") auto
  with first inner Cons handle_of_ok(1) [OF assms(1), of n] show ?thesis
    by (simp add: next_from_start_def list_first_def)
qed

lemma prev_from_end_ok:
  assumes "tab_ok m" "tab_fits m"
  shows "prev_from_end m = Some (map_option (handle_of m) (List.find tn_tab_stop (rev (to_list (order m)))))"
proof (cases "to_list (order m)" rule: rev_cases)
  case Nil
  then show ?thesis using tree_last_eq [OF tab_okD(1) [OF assms(1)]] by (simp add: prev_from_end_def list_last_def)
next
  case (snoc pre n)
  note last = tree_last_eq [OF tab_okD(1) [OF assms(1)]]
  note inner = prev_inner_ok [OF assms, of pre n "[]"]
  have "(case List.find tn_tab_stop (rev pre) of Some n \<Rightarrow> focus_handle_for_order m n | None \<Rightarrow> Some None)
      = Some (map_option (handle_of m) (List.find tn_tab_stop (rev pre)))"
    using handle_of_ok(1) [OF assms(1)] find_in_set [of tn_tab_stop "rev pre"] snoc
    by (cases "List.find tn_tab_stop (rev pre)") auto
  with last inner snoc handle_of_ok(1) [OF assms(1), of n] show ?thesis
    by (simp add: prev_from_end_def list_last_def)
qed

text \<open>With a focused element the search is cyclic: what follows it, what precedes it, itself.\<close>

lemma tab_next_ok:
  assumes "tab_ok m" "tab_fits m" "map_of (by_id m) i = Some n" "to_list (order m) = pre @ n # post"
  shows "tab_next m (Some i) = Some (map_option (handle_of m) (List.find tn_tab_stop (post @ pre @ [n])))"
  using next_inner_ok [OF assms(1,2,4)] next_from_start_ok [OF assms(1,2)] assms(3)
    handle_of_ok(1) [OF assms(1)] find_in_set [of tn_tab_stop post]
  by (auto simp: tab_next_def tab_node_for_focus_id_def find_append assms(4) split: option.splits)

lemma tab_prev_ok:
  assumes "tab_ok m" "tab_fits m" "map_of (by_id m) i = Some n" "to_list (order m) = pre @ n # post"
  shows "tab_prev m (Some i) = Some (map_option (handle_of m) (List.find tn_tab_stop (rev pre @ rev post @ [n])))"
  using prev_inner_ok [OF assms(1,2,4)] prev_from_end_ok [OF assms(1,2)] assms(3)
    handle_of_ok(1) [OF assms(1)] find_in_set [of tn_tab_stop "rev pre"]
  by (auto simp: tab_prev_def tab_node_for_focus_id_def find_append assms(4) split: option.splits)

section \<open>Replaying a history\<close>

lemma apply_operation_history: "apply_operation x m = Some m' \<Longrightarrow> insertion_history m' = insertion_history m @ [x]"
  by (cases x) (auto simp: tab_insert_def begin_group_def end_group_def Let_def split: bind_splits)

lemma replay_append: "replay m (xs @ ys) = Option.bind (replay m xs) (\<lambda>m'. replay m' ys)"
  by (induction m xs rule: replay.induct) (auto split: bind_splits)

lemma replay_history: "replay m xs = Some m' \<Longrightarrow> insertion_history m' = insertion_history m @ xs"
  by (induction m xs rule: replay.induct) (auto dest: apply_operation_history split: bind_splits)

lemma replay_own_history:
  "replay tab_default xs = Some m \<Longrightarrow> replay tab_default (insertion_history m) = Some m \<and> paint_index m = length xs"
  using replay_history [of tab_default xs m] by (simp add: tab_default_def paint_index_def)

end
