(* ===== verification/Subscription.thy ===== *)
theory Subscription
  imports Prelude
begin

text \<open>
  \<open>gpui/src/subscription.rs\<close>: the sets of callbacks that observe an emitter. A subscriber's state is a
  shared cell (\<open>Rc<Cell<SubscriberState>>\<close>) that its handle and its activation function keep after the
  subscriber has left the set; the cells are a store indexed by the subscriber id, which is never reused.

  The closure passed to \<open>retain\<close> runs while the set is not borrowed, so it may call every operation of the
  same set. It is a function of the callback, the set and a world of its own.
\<close>

section \<open>Ordered maps\<close>

text \<open>\<open>BTreeMap<usize, V>\<close> is an association list in ascending order of the keys.\<close>

type_synonym 'v btree = "(nat \<times> 'v) list"

fun btree_insert :: "nat \<Rightarrow> 'v \<Rightarrow> 'v btree \<Rightarrow> 'v btree" where
  "btree_insert k v [] = [(k, v)]"
| "btree_insert k v ((j, w) # xs) =
     (if k < j then (k, v) # (j, w) # xs
      else if k = j then (k, v) # xs
      else (j, w) # btree_insert k v xs)"

definition btree_remove :: "nat \<Rightarrow> 'v btree \<Rightarrow> 'v btree" where
  "btree_remove k xs = filter (\<lambda>(j, _). j \<noteq> k) xs"

definition btree_append :: "'v btree \<Rightarrow> 'v btree \<Rightarrow> 'v btree" where
  "btree_append self other = fold (\<lambda>(k, v) m. btree_insert k v m) other self"

definition btree_ok :: "'v btree \<Rightarrow> bool" where
  "btree_ok xs \<longleftrightarrow> sorted_wrt (<) (map fst xs)"

lemma btree_insert_set: "btree_ok xs \<Longrightarrow> set (btree_insert k v xs) = {(k, v)} \<union> {p \<in> set xs. fst p \<noteq> k}"
  by (induction k v xs rule: btree_insert.induct) (auto simp: btree_ok_def)

lemma btree_insert_ok: "btree_ok xs \<Longrightarrow> btree_ok (btree_insert k v xs)"
proof (induction k v xs rule: btree_insert.induct)
  case (2 k v j w xs)
  then show ?case
    using btree_insert_set [of xs k v] by (fastforce simp: btree_ok_def)
qed (simp add: btree_ok_def)

lemma btree_insert_last: "\<forall>p \<in> set xs. fst p < k \<Longrightarrow> btree_insert k v xs = xs @ [(k, v)]"
  by (induction k v xs rule: btree_insert.induct) auto

lemma btree_remove_ok: "btree_ok xs \<Longrightarrow> btree_ok (btree_remove k xs)"
  by (simp add: btree_ok_def btree_remove_def sorted_wrt_map sorted_wrt_filter)

lemma btree_append_ok: "btree_ok xs \<Longrightarrow> btree_ok (btree_append xs ys)"
  unfolding btree_append_def by (induction ys arbitrary: xs) (auto simp: btree_insert_ok)

lemma btree_append_set:
  "btree_ok xs \<Longrightarrow> btree_ok ys \<Longrightarrow> set (btree_append xs ys) = set ys \<union> {p \<in> set xs. fst p \<notin> fst ` set ys}"
  unfolding btree_append_def
proof (induction ys arbitrary: xs)
  case (Cons y ys)
  have ok: "btree_ok ys" and new: "fst y \<notin> fst ` set ys" using Cons.prems(2) by (auto simp: btree_ok_def)
  have "set (fold (\<lambda>(k, v) m. btree_insert k v m) (y # ys) xs)
      = set ys \<union> {p \<in> set (btree_insert (fst y) (snd y) xs). fst p \<notin> fst ` set ys}"
    using Cons.IH [OF btree_insert_ok [OF Cons.prems(1)] ok] by (simp add: case_prod_unfold)
  with btree_insert_set [OF Cons.prems(1)] new show ?case by force
qed simp

lemma btree_append_Nil: "btree_ok ys \<Longrightarrow> btree_append [] ys = ys"
proof -
  have "fold (\<lambda>(k, v) m. btree_insert k v m) ys xs = xs @ ys" if "btree_ok (xs @ ys)" for xs
    using that
  proof (induction ys arbitrary: xs)
    case (Cons y ys)
    have "btree_insert (fst y) (snd y) xs = xs @ [y]"
      using btree_insert_last [of xs "fst y" "snd y"] Cons.prems by (auto simp: btree_ok_def sorted_wrt_append)
    with Cons show ?case by (simp add: case_prod_unfold)
  qed simp
  then show "btree_ok ys \<Longrightarrow> btree_append [] ys = ys" by (simp add: btree_append_def)
qed

lemma btree_ids_unique: "btree_ok xs \<Longrightarrow> (k, v) \<in> set xs \<Longrightarrow> (k, w) \<in> set xs \<Longrightarrow> v = w"
  unfolding btree_ok_def by (metis eq_key_imp_eq_value strict_sorted_iff)


section \<open>Subscriber sets\<close>

datatype subscriber_state = Pending | Active | Dropped

record ('e, 'c) subscriber_set =
  subscribers :: "'e \<Rightarrow> 'c btree option"
  next_subscriber_id :: nat
  cells :: "nat \<Rightarrow> subscriber_state"

definition new_set :: "('e, 'c) subscriber_set" where
  "new_set = \<lparr>subscribers = Map.empty, next_subscriber_id = 0, cells = (\<lambda>_. Pending)\<rparr>"

text \<open>
  A handle holds the closure that unsubscribes: the list of the subscribers it drops, in order, or
  nothing after \<open>detach\<close>.
\<close>

record 'e subscription =
  unsubscribe :: "('e \<times> nat) list option"

definition insert_pending ::
    "('e, 'c) subscriber_set \<Rightarrow> 'e \<Rightarrow> 'c \<Rightarrow> 'e subscription \<times> nat \<times> ('e, 'c) subscriber_set" where
  "insert_pending s emitter_key callback =
     (let subscriber_id = next_subscriber_id s;
          entries = (case subscribers s emitter_key of Some xs \<Rightarrow> xs | None \<Rightarrow> []);
          s' = s\<lparr>next_subscriber_id := subscriber_id + 1,
                 cells := (cells s)(subscriber_id := Pending),
                 subscribers := (subscribers s)(emitter_key \<mapsto> btree_insert subscriber_id callback entries)\<rparr>
      in (\<lparr>unsubscribe = Some [(emitter_key, subscriber_id)]\<rparr>, subscriber_id, s'))"

text \<open>The activation function of a subscriber.\<close>

definition activate :: "nat \<Rightarrow> ('e, 'c) subscriber_set \<Rightarrow> ('e, 'c) subscriber_set" where
  "activate subscriber_id s =
     (if cells s subscriber_id = Pending then s\<lparr>cells := (cells s)(subscriber_id := Active)\<rparr> else s)"

definition insert_active :: "('e, 'c) subscriber_set \<Rightarrow> 'e \<Rightarrow> 'c \<Rightarrow> 'e subscription \<times> ('e, 'c) subscriber_set" where
  "insert_active s emitter_key callback =
     (let (subscription, subscriber_id, s') = insert_pending s emitter_key callback
      in (subscription, activate subscriber_id s'))"

text \<open>The closure that a handle runs when it is dropped.\<close>

definition unsubscribe_one :: "'e \<times> nat \<Rightarrow> ('e, 'c) subscriber_set \<Rightarrow> ('e, 'c) subscriber_set" where
  "unsubscribe_one p s =
     (let (emitter_key, subscriber_id) = p;
          s' = s\<lparr>cells := (cells s)(subscriber_id := Dropped)\<rparr>
      in case subscribers s' emitter_key of
           None \<Rightarrow> s'
         | Some entries \<Rightarrow>
             let entries' = btree_remove subscriber_id entries in
             s'\<lparr>subscribers := (subscribers s')(emitter_key := if entries' = [] then None else Some entries')\<rparr>)"

definition drop_subscription :: "'e subscription \<Rightarrow> ('e, 'c) subscriber_set \<Rightarrow> ('e, 'c) subscriber_set" where
  "drop_subscription sub s =
     (case unsubscribe sub of Some ps \<Rightarrow> fold unsubscribe_one ps s | None \<Rightarrow> s)"

definition detach :: "'e subscription \<Rightarrow> 'e subscription" where
  "detach sub = sub\<lparr>unsubscribe := None\<rparr>"

definition join :: "'e subscription \<Rightarrow> 'e subscription \<Rightarrow> 'e subscription" where
  "join a b =
     \<lparr>unsubscribe = Some ((case unsubscribe a of Some ps \<Rightarrow> ps | None \<Rightarrow> [])
                          @ (case unsubscribe b of Some ps \<Rightarrow> ps | None \<Rightarrow> []))\<rparr>"

text \<open>
  \<open>remove\<close> takes the entries out; the iterator it returns looks at a cell only when it reaches the
  entry (\<open>remove_next\<close>).
\<close>

definition set_take :: "('e, 'c) subscriber_set \<Rightarrow> 'e \<Rightarrow> 'c btree \<times> ('e, 'c) subscriber_set" where
  "set_take s emitter =
     (case subscribers s emitter of Some xs \<Rightarrow> xs | None \<Rightarrow> [], s\<lparr>subscribers := (subscribers s)(emitter := None)\<rparr>)"

fun remove_next :: "('e, 'c) subscriber_set \<Rightarrow> 'c btree \<Rightarrow> ('c \<times> 'c btree) option" where
  "remove_next s [] = None"
| "remove_next s ((subscriber_id, callback) # rest) =
     (if cells s subscriber_id = Active then Some (callback, rest) else remove_next s rest)"

text \<open>\<open>Subscriber::retain\<close> and the loop \<open>subscribers.retain(...)\<close> over the entries taken out.\<close>

type_synonym ('e, 'c, 'w) visitor =
  "'c \<Rightarrow> ('e, 'c) subscriber_set \<Rightarrow> 'w \<Rightarrow> bool \<times> 'c \<times> ('e, 'c) subscriber_set \<times> 'w"

definition subscriber_retain ::
    "('e, 'c, 'w) visitor \<Rightarrow> nat \<Rightarrow> 'c \<Rightarrow> ('e, 'c) subscriber_set \<Rightarrow> 'w \<Rightarrow> bool \<times> 'c \<times> ('e, 'c) subscriber_set \<times> 'w" where
  "subscriber_retain f subscriber_id callback s w =
     (case cells s subscriber_id of
        Pending \<Rightarrow> (True, callback, s, w)
      | Dropped \<Rightarrow> (False, callback, s, w)
      | Active \<Rightarrow>
          let (keep, callback', s', w') = f callback s w
          in (keep \<and> cells s' subscriber_id \<noteq> Dropped, callback', s', w'))"

fun retain_entries ::
    "('e, 'c, 'w) visitor \<Rightarrow> 'c btree \<Rightarrow> ('e, 'c) subscriber_set \<Rightarrow> 'w \<Rightarrow> 'c btree \<times> ('e, 'c) subscriber_set \<times> 'w" where
  "retain_entries f [] s w = ([], s, w)"
| "retain_entries f ((subscriber_id, callback) # entries) s w =
     (let (keep, callback', s', w') = subscriber_retain f subscriber_id callback s w;
          (kept, s'', w'') = retain_entries f entries s' w'
      in (if keep then (subscriber_id, callback') # kept else kept, s'', w''))"

definition set_retain ::
    "('e, 'c) subscriber_set \<Rightarrow> 'e \<Rightarrow> ('e, 'c, 'w) visitor \<Rightarrow> 'w \<Rightarrow> ('e, 'c) subscriber_set \<times> 'w" where
  "set_retain s emitter f w =
     (case subscribers s emitter of
        None \<Rightarrow> (s, w)
      | Some entries \<Rightarrow>
          let s1 = s\<lparr>subscribers := (subscribers s)(emitter \<mapsto> [])\<rparr>;
              (kept, s2, w2) = retain_entries f entries s1 w
          in if kept = [] then
               (if subscribers s2 emitter = Some [] then s2\<lparr>subscribers := (subscribers s2)(emitter := None)\<rparr> else s2, w2)
             else
               (s2\<lparr>subscribers := (subscribers s2)(emitter \<mapsto>
                  btree_append (case subscribers s2 emitter of Some xs \<Rightarrow> xs | None \<Rightarrow> []) kept)\<rparr>, w2))"

section \<open>The invariant\<close>

text \<open>
  Ids are below the counter and ascending within an emitter. Every operation of the interface,
  \<open>retain\<close> with a closure that itself only uses the interface included, keeps the invariant, only
  raises the counter and never revives a dropped subscriber.
\<close>

definition set_ok :: "('e, 'c) subscriber_set \<Rightarrow> bool" where
  "set_ok s \<longleftrightarrow> (\<forall>e xs. subscribers s e = Some xs \<longrightarrow> btree_ok xs \<and> (\<forall>p \<in> set xs. fst p < next_subscriber_id s))"

inductive api :: "'w itself \<Rightarrow> ('e, 'c) subscriber_set \<Rightarrow> ('e, 'c) subscriber_set \<Rightarrow> bool" for world where
  api_refl: "api world s s"
| api_insert: "api world s s' \<Longrightarrow> api world s (snd (snd (insert_pending s' e c)))"
| api_activate: "api world s s' \<Longrightarrow> api world s (activate i s')"
| api_unsubscribe: "api world s s' \<Longrightarrow> api world s (unsubscribe_one p s')"
| api_take: "api world s s' \<Longrightarrow> api world s (snd (set_take s' e))"
| api_retain: "api world s s' \<Longrightarrow> (\<And>c t (w :: 'w). api world t (fst (snd (snd (f c t w))))) \<Longrightarrow>
    api world s (fst (set_retain s' e f w))"

definition grows :: "('e, 'c) subscriber_set \<Rightarrow> ('e, 'c) subscriber_set \<Rightarrow> bool" where
  "grows s s' \<longleftrightarrow> (set_ok s \<longrightarrow> set_ok s') \<and> next_subscriber_id s \<le> next_subscriber_id s'
     \<and> (\<forall>i < next_subscriber_id s. cells s i = Dropped \<longrightarrow> cells s' i = Dropped)"

definition respectful :: "('e, 'c, 'w) visitor \<Rightarrow> bool" where
  "respectful f \<longleftrightarrow> (\<forall>c s w. grows s (fst (snd (snd (f c s w)))))"

lemma set_okD:
  assumes "set_ok s" "xs = (case subscribers s e of Some xs \<Rightarrow> xs | None \<Rightarrow> [])"
  shows "btree_ok xs" "\<forall>p \<in> set xs. fst p < next_subscriber_id s"
  using assms by (cases "subscribers s e"; simp add: set_ok_def btree_ok_def)+

lemma set_ok_update:
  assumes "set_ok s" "btree_ok xs" "\<forall>p \<in> set xs. fst p < n" "next_subscriber_id s \<le> n"
  shows "set_ok (s\<lparr>next_subscriber_id := n, cells := cs, subscribers := (subscribers s)(e \<mapsto> xs)\<rparr>)"
    "set_ok (s\<lparr>next_subscriber_id := n, cells := cs, subscribers := (subscribers s)(e := None)\<rparr>)"
  using assms by (auto simp: set_ok_def dest: order.strict_trans2)

lemmas set_ok_subscribers = set_ok_update [where n = "next_subscriber_id s" and cs = "cells s" and s = s for s, simplified]

lemma grows_refl [simp]: "grows s s"
  by (simp add: grows_def)

lemma grows_trans: "grows s t \<Longrightarrow> grows t u \<Longrightarrow> grows s u"
  by (auto simp: grows_def)

lemma grows_insert: "grows s (snd (snd (insert_pending s e c)))"
proof -
  let ?n = "next_subscriber_id s" and ?xs = "case subscribers s e of Some xs \<Rightarrow> xs | None \<Rightarrow> []"
  have "set_ok (snd (snd (insert_pending s e c)))" if ok: "set_ok s"
  proof -
    note xs = set_okD [OF ok refl, of e]
    then have "btree_ok (btree_insert ?n c ?xs)" "\<forall>p \<in> set (btree_insert ?n c ?xs). fst p < Suc ?n"
      by (auto simp: btree_insert_ok btree_insert_set dest: less_SucI)
    with set_ok_update(1) [OF ok this] show ?thesis by (simp add: insert_pending_def Let_def)
  qed
  then show ?thesis by (auto simp: grows_def insert_pending_def Let_def)
qed

lemma grows_activate: "grows s (activate i s)"
  by (auto simp: grows_def activate_def set_ok_def)

lemma grows_unsubscribe: "grows s (unsubscribe_one p s)"
proof -
  obtain e i where p: "p = (e, i)" by (cases p)
  show ?thesis
  proof (cases "subscribers s e")
    case None
    then show ?thesis by (auto simp: grows_def unsubscribe_one_def p set_ok_def)
  next
    case (Some xs)
    have "set_ok (unsubscribe_one p s)" if ok: "set_ok s"
    proof -
      have "btree_ok (btree_remove i xs)" "\<forall>q \<in> set (btree_remove i xs). fst q < next_subscriber_id s"
        using set_okD [OF ok, of xs e] Some by (auto simp: btree_remove_ok) (auto simp: btree_remove_def)
      from set_ok_update [OF ok this order_refl] Some show ?thesis by (simp add: unsubscribe_one_def p Let_def)
    qed
    with Some show ?thesis by (auto simp: grows_def unsubscribe_one_def p Let_def)
  qed
qed

lemma grows_take: "grows s (snd (set_take s e))"
  by (auto simp: grows_def set_take_def set_ok_def)

lemma ids_bound: "fst ` set ys \<subseteq> fst ` set xs \<Longrightarrow> \<forall>p \<in> set xs. P (fst p) \<Longrightarrow> \<forall>p \<in> set ys. P (fst p)"
  by (metis image_iff subset_iff)

lemma subscriber_retain_grows:
  "respectful f \<Longrightarrow> subscriber_retain f i c s w = (keep, c', s', w') \<Longrightarrow> grows s s'"
proof (cases "cells s i")
  case Active
  obtain k d t v where f: "f c s w = (k, d, t, v)" by (metis prod_cases4)
  moreover assume "respectful f"
  then have "grows s t" unfolding respectful_def using f by (metis fst_conv snd_conv)
  moreover assume "subscriber_retain f i c s w = (keep, c', s', w')"
  ultimately show ?thesis using Active by (simp add: subscriber_retain_def)
qed (simp_all add: subscriber_retain_def)

lemma retain_entries_step:
  assumes "subscriber_retain f i c s w = (keep, c1, s1, w1)" "retain_entries f xs s1 w1 = (kept1, s2, w2)"
  shows "retain_entries f ((i, c) # xs) s w = (if keep then (i, c1) # kept1 else kept1, s2, w2)"
  using assms by simp

lemma retain_entries_grows:
  assumes "respectful f" "retain_entries f xs s w = (kept, s', w')"
  shows "grows s s' \<and> fst ` set kept \<subseteq> fst ` set xs \<and> (btree_ok xs \<longrightarrow> btree_ok kept)"
  using assms(2)
proof (induction xs arbitrary: s w kept s' w')
  case (Cons x xs)
  obtain i c where x: "x = (i, c)" by (cases x)
  obtain keep c1 s1 w1 where h: "subscriber_retain f i c s w = (keep, c1, s1, w1)" by (metis prod_cases4)
  obtain kept1 s2 w2 where t: "retain_entries f xs s1 w1 = (kept1, s2, w2)" by (metis prod_cases3)
  have res: "kept = (if keep then (i, c1) # kept1 else kept1)" "s' = s2"
    using Cons.prems unfolding x retain_entries_step [OF h t] by auto
  note IH = Cons.IH [OF t]
  have "btree_ok kept" if "btree_ok (x # xs)"
  proof -
    have "btree_ok kept1" "\<forall>p \<in> set kept1. i < fst p"
      using IH that ids_bound [of kept1 xs "\<lambda>j. i < j"] by (auto simp: btree_ok_def x)
    then show ?thesis by (auto simp: res btree_ok_def)
  qed
  with IH grows_trans [OF subscriber_retain_grows [OF assms(1) h]] show ?case by (auto simp: res x)
qed (auto simp: btree_ok_def)

lemma grows_retain:
  assumes "respectful f"
  shows "grows s (fst (set_retain s e f w))"
proof (cases "subscribers s e")
  case (Some xs)
  let ?s1 = "s\<lparr>subscribers := (subscribers s)(e \<mapsto> [])\<rparr>"
  obtain kept s2 w2 where t: "retain_entries f xs ?s1 w = (kept, s2, w2)" by (metis prod_cases3)
  note g = retain_entries_grows [OF assms t]
  have "grows s ?s1" by (auto simp: grows_def set_ok_def btree_ok_def)
  then have g2: "grows s s2" using g grows_trans by blast
  let ?old = "case subscribers s2 e of Some xs \<Rightarrow> xs | None \<Rightarrow> []"
  let ?none = "s2\<lparr>subscribers := (subscribers s2)(e := None)\<rparr>" and ?some = "s2\<lparr>subscribers := (subscribers s2)(e \<mapsto> btree_append ?old kept)\<rparr>"
  have ok: "set_ok ?none \<and> set_ok ?some" if ok: "set_ok s"
  proof -
    have ok2: "set_ok s2" using g2 ok by (simp add: grows_def)
    have "\<forall>p \<in> set xs. fst p < next_subscriber_id s2" "btree_ok xs"
      using set_okD [OF ok, of xs e] Some g2 by (auto simp: grows_def)
    then have kept: "btree_ok kept" "\<forall>p \<in> set kept. fst p < next_subscriber_id s2"
      using g ids_bound [of kept xs "\<lambda>j. j < next_subscriber_id s2"] by blast+
    note old = set_okD [OF ok2 refl, of e]
    have "btree_ok (btree_append ?old kept)" using old(1) by (rule btree_append_ok)
    moreover have "\<forall>p \<in> set (btree_append ?old kept). fst p < next_subscriber_id s2"
      using btree_append_set [OF old(1) kept(1)] old(2) kept(2) by blast
    ultimately show ?thesis using set_ok_subscribers [OF ok2] by blast
  qed
  have "fst (set_retain s e f w) \<in> {s2, ?none, ?some}"
    using t Some by (simp add: set_retain_def Let_def)
  with ok g2 show ?thesis by (auto simp: grows_def)
qed (simp add: set_retain_def)

lemma api_grows: "api TYPE('w) s s' \<Longrightarrow> grows s s'"
proof (induction rule: api.induct)
  case (api_retain s s' f e w)
  have "respectful f" unfolding respectful_def using api_retain.IH(2) by simp
  from grows_trans [OF api_retain.IH(1) grows_retain [OF this]] show ?case .
next
  case (api_insert s s' e c)
  from grows_trans [OF api_insert.IH grows_insert] show ?case .
next
  case (api_activate s s' i)
  from grows_trans [OF api_activate.IH grows_activate] show ?case .
next
  case (api_unsubscribe s s' p)
  from grows_trans [OF api_unsubscribe.IH grows_unsubscribe] show ?case .
next
  case (api_take s s' e)
  from grows_trans [OF api_take.IH grows_take] show ?case .
qed simp

section \<open>What \<open>retain\<close> calls\<close>

text \<open>A visitor that also records each callback it is given with the set at that moment.\<close>

definition logged :: "('e, 'c, 'w) visitor \<Rightarrow> ('e, 'c, 'w \<times> ('c \<times> ('e, 'c) subscriber_set) list) visitor" where
  "logged f c s w = (let (keep, c', s', w') = f c s (fst w) in (keep, c', s', (w', snd w @ [(c, s)])))"

lemma logged_respectful: "respectful f \<Longrightarrow> respectful (logged f)"
  by (simp add: respectful_def logged_def case_prod_unfold Let_def)

text \<open>
  The calls are made in ascending order of the ids, each with a callback of the emitter whose cell is
  active in the set at that moment.
\<close>

definition calls_ok :: "'c btree \<Rightarrow> nat list \<Rightarrow> ('c \<times> ('e, 'c) subscriber_set) list \<Rightarrow> bool" where
  "calls_ok xs ids calls \<longleftrightarrow> length ids = length calls \<and> sorted_wrt (<) ids
     \<and> list_all2 (\<lambda>i (c, s). (i, c) \<in> set xs \<and> cells s i = Active) ids calls"

lemma retain_entries_calls:
  assumes "respectful f" "btree_ok xs" "retain_entries (logged f) xs s (w, log) = (kept, s', (w', log'))"
  shows "\<exists>ids calls. log' = log @ calls \<and> calls_ok xs ids calls \<and> (\<forall>(c, t) \<in> set calls. grows s t)"
  using assms(2,3)
proof (induction xs arbitrary: s w log kept s' w' log')
  case Nil
  then show ?case by (auto simp: calls_ok_def)
next
  case (Cons x xs)
  obtain i c where x: "x = (i, c)" by (cases x)
  obtain keep c1 s1 w1 l1 where h: "subscriber_retain (logged f) i c s (w, log) = (keep, c1, s1, (w1, l1))"
    by (metis prod_cases5)
  obtain kept1 s2 w2 l2 where t: "retain_entries (logged f) xs s1 (w1, l1) = (kept1, s2, (w2, l2))"
    by (metis prod_cases4)
  have ok: "btree_ok xs" and above: "\<forall>p \<in> set xs. i < fst p" using Cons.prems(1) by (auto simp: btree_ok_def x)
  from Cons.IH [OF ok t] obtain ids calls where IH: "l2 = l1 @ calls" "calls_ok xs ids calls"
    "\<forall>(c, t) \<in> set calls. grows s1 t" by blast
  have "\<forall>(c, t) \<in> set calls. grows s t"
    using IH(3) grows_trans [OF subscriber_retain_grows [OF logged_respectful [OF assms(1)] h]] by auto
  note IH = IH(1,2) this
  have log': "log' = l2" using Cons.prems(2) unfolding x retain_entries_step [OF h t] by simp
  have ids: "\<forall>j \<in> set ids. i < j"
  proof
    fix j
    assume "j \<in> set ids"
    then obtain n where "n < length ids" "j = ids ! n" by (auto simp: in_set_conv_nth)
    with IH(2) have "(j, fst (calls ! n)) \<in> set xs" unfolding calls_ok_def list_all2_conv_all_nth by (simp add: case_prod_unfold)
    with above show "i < j" by auto
  qed
  have weaken: "list_all2 (\<lambda>i (c, s). (i, c) \<in> set (x # xs) \<and> cells s i = Active) ids calls"
    using IH(2) unfolding calls_ok_def by (auto elim!: list_all2_mono)
  show ?case
  proof (cases "cells s i = Active")
    case True
    then have "l1 = log @ [(c, s)]" using h by (auto simp: subscriber_retain_def logged_def split: prod.splits)
    with IH ids weaken True show ?thesis
      by (intro exI [of _ "i # ids"] exI [of _ "(c, s) # calls"]) (auto simp: calls_ok_def log' x)
  next
    case False
    then have "l1 = log" using h by (auto simp: subscriber_retain_def split: subscriber_state.splits)
    with IH weaken show ?thesis by (intro exI [of _ ids] exI [of _ calls]) (auto simp: calls_ok_def log')
  qed
qed


lemma set_retain_calls:
  assumes "set_ok s" "respectful f"
  shows "\<exists>ids. calls_ok (case subscribers s e of Some xs \<Rightarrow> xs | None \<Rightarrow> []) ids (snd (snd (set_retain s e (logged f) (w, []))))
     \<and> (\<forall>(c, t) \<in> set (snd (snd (set_retain s e (logged f) (w, [])))). grows s t)"
proof (cases "subscribers s e")
  case None
  then show ?thesis by (auto simp: set_retain_def calls_ok_def)
next
  case (Some xs)
  let ?s1 = "s\<lparr>subscribers := (subscribers s)(e \<mapsto> [])\<rparr>"
  obtain kept s2 w2 log where t: "retain_entries (logged f) xs ?s1 (w, []) = (kept, s2, (w2, log))" by (metis prod_cases4)
  have "btree_ok xs" using set_okD [OF assms(1), of xs e] Some by simp
  from retain_entries_calls [OF assms(2) this t] obtain ids where
    c: "calls_ok xs ids log" "\<forall>(c, t) \<in> set log. grows ?s1 t" by auto
  have "grows s ?s1" by (auto simp: grows_def set_ok_def btree_ok_def)
  with c(2) grows_trans have "\<forall>(c, t) \<in> set log. grows s t" by blast
  moreover have "snd (snd (set_retain s e (logged f) (w, []))) = log" using t Some by (simp add: set_retain_def Let_def)
  ultimately show ?thesis using c(1) Some by auto
qed

section \<open>Closures that leave the set alone\<close>

definition kept_entries :: "('e, 'c) subscriber_set \<Rightarrow> ('c \<Rightarrow> bool) \<Rightarrow> ('c \<Rightarrow> 'c) \<Rightarrow> 'c btree \<Rightarrow> 'c btree" where
  "kept_entries s p g xs =
     map (\<lambda>(i, c). (i, if cells s i = Active then g c else c))
       (filter (\<lambda>(i, c). cells s i = Pending \<or> cells s i = Active \<and> p c) xs)"

lemma retain_entries_pure:
  assumes "\<And>c t w. f c t w = (p c, g c, t, h c w)"
  shows "\<exists>w'. retain_entries f xs s w = (kept_entries s p g xs, s, w')"
proof (induction xs arbitrary: w)
  case (Cons x xs)
  obtain i c where x: "x = (i, c)" by (cases x)
  obtain w1 where r: "subscriber_retain f i c s w =
      (cells s i = Pending \<or> cells s i = Active \<and> p c, if cells s i = Active then g c else c, s, w1)"
    by (cases "cells s i") (auto simp: subscriber_retain_def assms)
  from Cons.IH obtain w' where "retain_entries f xs s w1 = (kept_entries s p g xs, s, w')" by blast
  from retain_entries_step [OF r this] show ?case by (auto simp: kept_entries_def x)
qed (simp add: kept_entries_def)

lemma kept_entries_ok: "btree_ok xs \<Longrightarrow> btree_ok (kept_entries s p g xs)"
proof -
  have "map fst (kept_entries s p g xs) = map fst (filter (\<lambda>(i, c). cells s i = Pending \<or> cells s i = Active \<and> p c) xs)"
    by (auto simp: kept_entries_def)
  then show "btree_ok xs \<Longrightarrow> btree_ok (kept_entries s p g xs)" by (simp add: btree_ok_def sorted_wrt_map sorted_wrt_filter)
qed

lemma set_retain_pure:
  assumes f: "\<And>c t w. f c t w = (p c, g c, t, h c w)" and ok: "set_ok s"
  shows "\<exists>w'. set_retain s e f w = (s\<lparr>subscribers := (subscribers s)(e :=
     case subscribers s e of None \<Rightarrow> None
     | Some xs \<Rightarrow> if kept_entries s p g xs = [] then None else Some (kept_entries s p g xs))\<rparr>, w')"
proof (cases "subscribers s e")
  case (Some xs)
  let ?s1 = "s\<lparr>subscribers := (subscribers s)(e \<mapsto> [])\<rparr>"
  have same: "kept_entries ?s1 p g xs = kept_entries s p g xs" by (simp add: kept_entries_def)
  obtain w' where "retain_entries f xs ?s1 w = (kept_entries s p g xs, ?s1, w')"
    using retain_entries_pure [of f p g h xs ?s1 w, OF f] unfolding same by blast
  moreover have "btree_append [] (kept_entries s p g xs) = kept_entries s p g xs"
    using set_okD(1) [OF ok, of xs e] Some by (simp add: btree_append_Nil kept_entries_ok)
  ultimately show ?thesis using Some by (simp add: set_retain_def Let_def)
qed (simp add: set_retain_def fun_upd_idem)

lemma remove_next_Some:
  "remove_next s xs = Some (c, rest) \<longleftrightarrow>
     (\<exists>pre i. xs = pre @ (i, c) # rest \<and> cells s i = Active \<and> (\<forall>p \<in> set pre. cells s (fst p) \<noteq> Active))"
proof (induction xs)
  case (Cons x xs)
  then show ?case
    by (cases x; cases "cells s (fst x) = Active") (auto simp: Cons_eq_append_conv)
qed simp

lemma remove_next_None: "remove_next s xs = None \<longleftrightarrow> (\<forall>p \<in> set xs. cells s (fst p) \<noteq> Active)"
  by (induction s xs rule: remove_next.induct) auto

section \<open>Handles\<close>

lemma insert_then_drop:
  assumes "set_ok s" "subscribers s e \<noteq> Some []" "insert_active s e c = (sub, s')"
  shows "subscribers (drop_subscription sub s') = subscribers s" "cells (drop_subscription sub s') (next_subscriber_id s) = Dropped"
proof -
  let ?n = "next_subscriber_id s"
  have "btree_remove ?n (btree_insert ?n c xs) = xs" if "\<forall>p \<in> set xs. fst p < ?n" for xs
    using btree_insert_last [OF that] that by (auto simp: btree_remove_def intro!: filter_True)
  from this [OF set_okD(2) [OF assms(1) refl, of e]]
  have "btree_remove ?n (btree_insert ?n c (case subscribers s e of Some xs \<Rightarrow> xs | None \<Rightarrow> []))
      = (case subscribers s e of Some xs \<Rightarrow> xs | None \<Rightarrow> [])" .
  with assms(2,3) show "subscribers (drop_subscription sub s') = subscribers s"
    "cells (drop_subscription sub s') (next_subscriber_id s) = Dropped"
    by (auto simp: insert_active_def insert_pending_def activate_def drop_subscription_def unsubscribe_one_def Let_def
        fun_upd_idem split: option.splits)
qed

lemma join_drops_both: "drop_subscription (join a b) s = drop_subscription b (drop_subscription a s)"
  by (simp add: drop_subscription_def join_def split: option.splits)

lemma detach_keeps: "drop_subscription (detach a) s = s"
  by (simp add: drop_subscription_def detach_def)


section \<open>The set of a single emitter\<close>

record 'c single_set =
  ss_subscribers :: "'c btree"
  ss_next_subscriber_id :: nat
  ss_cells :: "nat \<Rightarrow> subscriber_state"

definition single_new :: "'c single_set" where
  "single_new = \<lparr>ss_subscribers = [], ss_next_subscriber_id = 0, ss_cells = (\<lambda>_. Pending)\<rparr>"

definition single_insert_pending :: "'c single_set \<Rightarrow> 'c \<Rightarrow> nat \<times> 'c single_set" where
  "single_insert_pending s callback =
     (let subscriber_id = ss_next_subscriber_id s
      in (subscriber_id,
          s\<lparr>ss_next_subscriber_id := subscriber_id + 1,
            ss_cells := (ss_cells s)(subscriber_id := Pending),
            ss_subscribers := btree_insert subscriber_id callback (ss_subscribers s)\<rparr>))"

definition single_activate :: "nat \<Rightarrow> 'c single_set \<Rightarrow> 'c single_set" where
  "single_activate subscriber_id s =
     (if ss_cells s subscriber_id = Pending then s\<lparr>ss_cells := (ss_cells s)(subscriber_id := Active)\<rparr> else s)"

definition single_insert :: "'c single_set \<Rightarrow> 'c \<Rightarrow> nat \<times> 'c single_set" where
  "single_insert s callback =
     (let (subscriber_id, s') = single_insert_pending s callback in (subscriber_id, single_activate subscriber_id s'))"

definition single_unsubscribe :: "nat \<Rightarrow> 'c single_set \<Rightarrow> 'c single_set" where
  "single_unsubscribe subscriber_id s =
     s\<lparr>ss_cells := (ss_cells s)(subscriber_id := Dropped), ss_subscribers := btree_remove subscriber_id (ss_subscribers s)\<rparr>"

definition single_take :: "'c single_set \<Rightarrow> 'c btree \<times> 'c single_set" where
  "single_take s = (ss_subscribers s, s\<lparr>ss_subscribers := []\<rparr>)"

type_synonym ('c, 'w) single_visitor = "'c \<Rightarrow> 'c single_set \<Rightarrow> 'w \<Rightarrow> bool \<times> 'c \<times> 'c single_set \<times> 'w"

definition single_subscriber_retain ::
    "('c, 'w) single_visitor \<Rightarrow> nat \<Rightarrow> 'c \<Rightarrow> 'c single_set \<Rightarrow> 'w \<Rightarrow> bool \<times> 'c \<times> 'c single_set \<times> 'w" where
  "single_subscriber_retain f subscriber_id callback s w =
     (case ss_cells s subscriber_id of
        Pending \<Rightarrow> (True, callback, s, w)
      | Dropped \<Rightarrow> (False, callback, s, w)
      | Active \<Rightarrow>
          let (keep, callback', s', w') = f callback s w
          in (keep \<and> ss_cells s' subscriber_id \<noteq> Dropped, callback', s', w'))"

fun single_retain_entries ::
    "('c, 'w) single_visitor \<Rightarrow> 'c btree \<Rightarrow> 'c single_set \<Rightarrow> 'w \<Rightarrow> 'c btree \<times> 'c single_set \<times> 'w" where
  "single_retain_entries f [] s w = ([], s, w)"
| "single_retain_entries f ((subscriber_id, callback) # entries) s w =
     (let (keep, callback', s', w') = single_subscriber_retain f subscriber_id callback s w;
          (kept, s'', w'') = single_retain_entries f entries s' w'
      in (if keep then (subscriber_id, callback') # kept else kept, s'', w''))"

definition single_retain :: "'c single_set \<Rightarrow> ('c, 'w) single_visitor \<Rightarrow> 'w \<Rightarrow> 'c single_set \<times> 'w" where
  "single_retain s f w =
     (let (kept, s', w') = single_retain_entries f (ss_subscribers s) (s\<lparr>ss_subscribers := []\<rparr>) w
      in (s'\<lparr>ss_subscribers := btree_append (ss_subscribers s') kept\<rparr>, w'))"

text \<open>
  The set of a single emitter is the general set over one emitter, up to the emitter's empty map,
  which the general set removes at the end of an operation.
\<close>

definition sim :: "(unit, 'c) subscriber_set \<Rightarrow> 'c single_set \<Rightarrow> bool" where
  "sim s t \<longleftrightarrow> (case subscribers s () of Some xs \<Rightarrow> xs | None \<Rightarrow> []) = ss_subscribers t
     \<and> next_subscriber_id s = ss_next_subscriber_id t \<and> cells s = ss_cells t"

definition sim_visitor :: "(unit, 'c, 'w) visitor \<Rightarrow> ('c, 'w) single_visitor \<Rightarrow> bool" where
  "sim_visitor f g \<longleftrightarrow> (\<forall>c s t w. sim s t \<longrightarrow>
     (case (f c s w, g c t w) of ((k, c1, s1, w1), (k', c2, t1, w2)) \<Rightarrow> k = k' \<and> c1 = c2 \<and> sim s1 t1 \<and> w1 = w2))"

lemma sim_new: "sim new_set single_new"
  by (simp add: sim_def new_set_def single_new_def)

lemma sim_insert:
  "sim s t \<Longrightarrow> fst (snd (insert_pending s () c)) = fst (single_insert_pending t c)
     \<and> sim (snd (snd (insert_pending s () c))) (snd (single_insert_pending t c))"
  by (auto simp: sim_def insert_pending_def single_insert_pending_def Let_def)

lemma sim_activate: "sim s t \<Longrightarrow> sim (activate i s) (single_activate i t)"
  by (auto simp: sim_def activate_def single_activate_def)

lemma sim_unsubscribe: "sim s t \<Longrightarrow> sim (unsubscribe_one ((), i) s) (single_unsubscribe i t)"
  by (auto simp: sim_def unsubscribe_one_def single_unsubscribe_def Let_def btree_remove_def split: option.splits)

lemma sim_take: "sim s t \<Longrightarrow> fst (set_take s ()) = fst (single_take t) \<and> sim (snd (set_take s ())) (snd (single_take t))"
  by (auto simp: sim_def set_take_def single_take_def)

lemma sim_subscriber_retain:
  assumes "sim_visitor f g" "sim s t" "subscriber_retain f i c s w = (k, c1, s1, w1)"
  shows "\<exists>t1. single_subscriber_retain g i c t w = (k, c1, t1, w1) \<and> sim s1 t1"
proof (cases "cells s i")
  case Active
  obtain k1 d u v where f: "f c s w = (k1, d, u, v)" by (metis prod_cases4)
  obtain k2 d' u' v' where g: "g c t w = (k2, d', u', v')" by (metis prod_cases4)
  have "k1 = k2 \<and> d = d' \<and> sim u u' \<and> v = v'"
    using assms(1) [unfolded sim_visitor_def, rule_format, OF assms(2), of c w] f g by simp
  with Active assms(2,3) f g show ?thesis
    by (auto simp: subscriber_retain_def single_subscriber_retain_def sim_def)
qed (use assms in \<open>auto simp: subscriber_retain_def single_subscriber_retain_def sim_def\<close>)

lemma sim_retain_entries:
  assumes "sim_visitor f g" "sim s t" "retain_entries f xs s w = (kept, s1, w1)"
  shows "\<exists>t1. single_retain_entries g xs t w = (kept, t1, w1) \<and> sim s1 t1"
  using assms(2,3)
proof (induction xs arbitrary: s t w kept s1 w1)
  case (Cons x xs)
  obtain i c where x: "x = (i, c)" by (cases x)
  obtain k c1 s2 w2 where h: "subscriber_retain f i c s w = (k, c1, s2, w2)" by (metis prod_cases4)
  obtain kept1 s3 w3 where r: "retain_entries f xs s2 w2 = (kept1, s3, w3)" by (metis prod_cases3)
  from sim_subscriber_retain [OF assms(1) Cons.prems(1) h] obtain t2 where
    t2: "single_subscriber_retain g i c t w = (k, c1, t2, w2)" "sim s2 t2" by blast
  from Cons.IH [OF t2(2) r] obtain t3 where "single_retain_entries g xs t2 w2 = (kept1, t3, w3)" "sim s3 t3" by blast
  with t2 Cons.prems(2) show ?case unfolding x retain_entries_step [OF h r] by auto
qed simp

lemma sim_retain:
  assumes "sim_visitor f g" "sim s t"
  shows "snd (set_retain s () f w) = snd (single_retain t g w) \<and> sim (fst (set_retain s () f w)) (fst (single_retain t g w))"
proof (cases "subscribers s ()")
  case None
  with assms(2) have "ss_subscribers t = []" by (simp add: sim_def)
  with None assms(2) show ?thesis by (simp add: set_retain_def single_retain_def sim_def btree_append_def)
next
  case (Some xs)
  let ?s1 = "s\<lparr>subscribers := (subscribers s)(() \<mapsto> [])\<rparr>" and ?t1 = "t\<lparr>ss_subscribers := []\<rparr>"
  have t: "ss_subscribers t = xs" "sim ?s1 ?t1" using assms(2) Some by (auto simp: sim_def)
  obtain kept s2 w2 where r: "retain_entries f xs ?s1 w = (kept, s2, w2)" by (metis prod_cases3)
  from sim_retain_entries [OF assms(1) t(2) r] obtain t2 where
    t2: "single_retain_entries g xs ?t1 w = (kept, t2, w2)" "sim s2 t2" by blast
  show ?thesis
    using Some r t(1) t2 by (auto simp: set_retain_def single_retain_def sim_def btree_append_def Let_def split: option.splits)
qed

end
