(* ===== verification/UI_Properties.thy ===== *)
theory UI_Properties
  imports BoundsTree TabStop Subscription
begin

text \<open>
  The properties of the frame data of \<open>gpui\<close>: rectangles, drawing orders, tab stops and subscriptions.
\<close>

section \<open>Drawing orders\<close>

definition box :: "int \<Rightarrow> int \<Rightarrow> int \<Rightarrow> int \<Rightarrow> int bounds" where
  "box x y w h = \<lparr>origin = \<lparr>px = x, py = y\<rparr>, bsize = \<lparr>width = w, height = h\<rparr>\<rparr>"

text \<open>
  Inserting any list of rectangles into an empty bounds tree never panics and every search and every descent
  ends; the orders it returns are those of the specification, which keeps the plain collection of the
  rectangles with their orders and gives a new one the successor of the highest order it overlaps; and
  the tree is well formed afterwards and stores exactly these entries.
\<close>

theorem bounds_tree_orders:
  "\<exists>t. bt_inserts bt_default bs = Some (t, spec_orders {#} bs) \<and> bt_ok t (mset (zip bs (spec_orders {#} bs)))"
  using bt_inserts_ok [OF bt_default_ok(1), of bs] by simp

text \<open>
  C34: The orders give the painter's order: of two overlapping rectangles the later one is drawn above the
  earlier. No order exceeds the number of rectangles inserted, so the 32-bit counter cannot wrap before
  that many insertions.
\<close>

theorem paint_order_respects_overlap:
  assumes "bt_inserts bt_default bs = Some (t, vs)"
  shows "length vs = length bs \<and> (\<forall>v\<in>set vs. v \<le> length bs)
     \<and> (\<forall>i j. i < j \<and> j < length bs \<and> intersects (bs ! i) (bs ! j) \<longrightarrow> vs ! i < vs ! j)"
proof -
  have vs: "vs = spec_orders {#} bs"
    using bt_inserts_ok [OF bt_default_ok(1), of bs] assms by simp
  have "vs ! i < vs ! j" if "i < j" "j < length bs" "intersects (bs ! i) (bs ! j)" for i j
    using spec_orders_increasing that intersects_sym vs by blast
  moreover have "\<forall>v\<in>set vs. v \<le> length bs"
    using spec_orders_bounded [of "{#}" 0 bs] vs by simp
  ultimately show ?thesis
    using vs by simp
qed

definition sample_boxes :: "int bounds list" where
  "sample_boxes = [box 0 0 10 10, box 20 0 10 10, box 5 5 10 10, box 0 20 5 5]"

lemma sample_boxes_orders: "map_option snd (bt_inserts bt_default sample_boxes) = Some [1, 1, 2, 1]"
  by code_simp

theorem paint_order_respects_overlap_witness: "map_option (\<lambda>(_, vs). vs ! 0 < vs ! 2) (bt_inserts bt_default sample_boxes) = Some True"
proof -
  obtain t vs where run: "bt_inserts bt_default sample_boxes = Some (t, vs)"
    using sample_boxes_orders by auto
  moreover have "intersects (sample_boxes ! 0) (sample_boxes ! 2)" "2 < length sample_boxes"
    by (simp_all add: sample_boxes_def box_def intersects_def bottom_right_def)
  ultimately have "vs ! 0 < vs ! 2"
    using paint_order_respects_overlap [OF run] by (meson zero_less_numeral)
  with run show ?thesis by simp
qed

section \<open>Rectangles\<close>

text \<open>
  The rectangle operations mean what they do to the points of a rectangle: \<open>intersect\<close> contains exactly the
  points both contain; two non-empty rectangles satisfy \<open>intersects\<close> exactly when their intersection is not
  empty; \<open>union\<close> is the least rectangle that covers both.
\<close>

theorem rectangle_algebra:
  "(bounds_contains (intersect a b) p \<longleftrightarrow> bounds_contains a p \<and> bounds_contains b p)
   \<and> (\<not> bounds_is_empty a \<and> \<not> bounds_is_empty b \<longrightarrow> (intersects a b \<longleftrightarrow> \<not> bounds_is_empty (intersect a b)))
   \<and> (covers c (union_bounds a b) \<longleftrightarrow> covers c a \<and> covers c b)"
  by (simp add: intersect_contains intersects_iff covers_union_iff)

theorem rectangle_algebra_witness: "\<not> bounds_is_empty (intersect (box 0 0 10 10) (box 5 5 10 10))"
proof -
  have "\<not> bounds_is_empty (box 0 0 10 10)" "\<not> bounds_is_empty (box 5 5 10 10)"
    "intersects (box 0 0 10 10) (box 5 5 10 10)"
    by (simp_all add: box_def bounds_is_empty_def intersects_def bottom_right_def)
  then show ?thesis
    using rectangle_algebra [of "box 0 0 10 10" "box 5 5 10 10"] by blast
qed

text \<open>
  The rectangle operations undo each other: insetting a dilated rectangle, placing a rectangle by an anchor and
  reading that corner, centring, and extending a rectangle by the space it has within another. They hold
  for any halving function, since both directions use the same one.
\<close>

theorem rectangle_round_trips:
  "inset (dilate b x) x = b \<and> corner half (from_anchor_and_size half c p s) c = p
   \<and> center_point half (centered_at half p s) = p \<and> bounds_extend b (space_within b outer) = outer
   \<and> (localize b p = Some q \<longleftrightarrow> bounds_contains b p \<and> px q + px (origin b) = px p \<and> py q + py (origin b) = py p)"
  by (simp add: inset_dilate anchor_corner centered_center extend_space localize_range)

section \<open>Tab stops\<close>

definition handle :: "nat \<Rightarrow> int \<Rightarrow> bool \<Rightarrow> focus_handle" where
  "handle i k stop = \<lparr>fh_id = i, fh_tab_index = k, fh_tab_stop = stop\<rparr>"

definition sample_history :: "tab_stop_operation list" where
  "sample_history = [InsertOp (handle 1 2 True), GroupOp 1, InsertOp (handle 2 0 True), GroupEndOp,
     InsertOp (handle 3 0 False), InsertOp (handle 4 2 True)]"

definition sample_tabs :: tab_stop_map where
  "sample_tabs = the (replay tab_default sample_history)"

text \<open>
  \<open>insert\<close> puts a focusable element after the elements whose path of group indices and tab index is not
  greater, and before the others; it keeps the invariant of the map: the tree is well formed and ordered,
  each of its nodes refers to its own operation in the history, and the index by focus id refers to nodes of
  the tree.
\<close>

theorem tab_insert_orders:
  assumes "tab_ok m" "tab_fits m"
  shows "\<exists>m'. tab_insert m h = Some m' \<and> tab_ok m'
     \<and> to_list (order m') = filter (\<lambda>n. tn_path n \<le> current_path m @ [fh_tab_index h]) (to_list (order m))
         @ [new_node m h] @ filter (\<lambda>n. \<not> tn_path n \<le> current_path m @ [fh_tab_index h]) (to_list (order m))
     \<and> map_of (by_id m') (fh_id h) = Some (new_node m h)"
proof -
  have idx: "tn_insertion_index n < length (insertion_history m)" if "n \<in> set (to_list (order m))" for n
    using tab_okD(3) [OF assms(1) that] by (auto simp: history_node_def)
  have lt: "node_key n < node_key (new_node m h) \<longleftrightarrow> tn_path n \<le> current_path m @ [fh_tab_index h]"
      "node_key (new_node m h) < node_key n \<longleftrightarrow> \<not> tn_path n \<le> current_path m @ [fh_tab_index h]"
    if "n \<in> set (to_list (order m))" for n
    using idx [OF that] by (auto simp: node_key_def new_node_def less_prod_simp not_le)
  from tab_insert_ok [OF assms, of h] obtain m' where m': "tab_insert m h = Some m'" "tab_ok m'"
    "by_id m' = AList.update (fh_id h) (new_node m h) (by_id m)"
    "to_list (order m') = filter (\<lambda>n. node_key n < node_key (new_node m h)) (to_list (order m)) @ [new_node m h]
         @ filter (\<lambda>n. node_key (new_node m h) < node_key n) (to_list (order m))" by blast
  have "filter (\<lambda>n. node_key n < node_key (new_node m h)) (to_list (order m))
      = filter (\<lambda>n. tn_path n \<le> current_path m @ [fh_tab_index h]) (to_list (order m))"
    "filter (\<lambda>n. node_key (new_node m h) < node_key n) (to_list (order m))
      = filter (\<lambda>n. \<not> tn_path n \<le> current_path m @ [fh_tab_index h]) (to_list (order m))"
    using lt by (auto intro: filter_cong)
  with m' show ?thesis
    by (simp add: update_conv')
qed

theorem tab_insert_orders_witness: "\<exists>m'. tab_insert tab_default (handle 1 2 True) = Some m' \<and> tab_ok m'"
  using tab_insert_orders [OF tab_default_ok, of "handle 1 2 True"] by blast

text \<open>
  C32: With an element focused, \<open>next\<close> and \<open>prev\<close> walk the tab order cyclically: they return the handle of the first
  tab stop after (before) the focused element, wrapping around, and of the element itself when it is the
  only one; with no focus they start at the respective end. Elements that are not tab stops are skipped. No
  index is out of range and both searches end.
\<close>

theorem tab_order_is_cyclic:
  assumes "tab_ok m" "tab_fits m" "map_of (by_id m) i = Some n" "to_list (order m) = pre @ n # post"
  shows "tab_next m (Some i) = Some (map_option (handle_of m) (List.find tn_tab_stop (post @ pre @ [n])))
     \<and> tab_prev m (Some i) = Some (map_option (handle_of m) (List.find tn_tab_stop (rev pre @ rev post @ [n])))
     \<and> tab_next m None = Some (map_option (handle_of m) (List.find tn_tab_stop (to_list (order m))))
     \<and> tab_prev m None = Some (map_option (handle_of m) (List.find tn_tab_stop (rev (to_list (order m)))))"
  using tab_next_ok [OF assms] tab_prev_ok [OF assms] next_from_start_ok [OF assms(1,2)] prev_from_end_ok [OF assms(1,2)]
  by (simp add: tab_next_def tab_prev_def)

lemma sample_tabs_ok: "tab_ok sample_tabs"
proof -
  have "list_all (history_matches sample_tabs (\<lambda>_. True)) (to_list (order sample_tabs))"
    "list_all (\<lambda>(i, n). List.member (to_list (order sample_tabs)) n \<and> history_matches sample_tabs (\<lambda>h. fh_id h = i) n)
       (by_id sample_tabs)"
    "tree_ok tab_ops (order sample_tabs)"
    "sorted_wrt (\<lambda>a b. node_key a < node_key b) (to_list (order sample_tabs))" "distinct (map fst (by_id sample_tabs))"
    by code_simp+
  then show ?thesis
    by (auto simp: tab_ok_def list_all_iff history_matches_iff)
qed

theorem tab_order_is_cyclic_witness:
  "tab_next sample_tabs (Some 4) = Some (Some (handle 2 0 True)) \<and> tab_prev sample_tabs None = Some (Some (handle 4 2 True))"
proof -
  let ?ns = "to_list (order sample_tabs)"
  have fits: "tab_fits sample_tabs"
    by code_simp
  have last: "map_of (by_id sample_tabs) 4 = Some (?ns ! 3)"
    by code_simp
  have split: "?ns = take 3 ?ns @ ?ns ! 3 # []"
    by code_simp
  have search: "map_option (handle_of sample_tabs) (List.find tn_tab_stop ([] @ take 3 ?ns @ [?ns ! 3])) = Some (handle 2 0 True)"
    "map_option (handle_of sample_tabs) (List.find tn_tab_stop (rev ?ns)) = Some (handle 4 2 True)"
    by code_simp+
  from tab_order_is_cyclic [OF sample_tabs_ok fits last split] search show ?thesis
    by argo
qed

text \<open>
  A history replayed on an empty map by \<open>replay\<close> is recorded unchanged, so that replaying the recorded history
  of a map rebuilds it; \<open>paint_index\<close> counts the operations.
\<close>

theorem tab_history_replays:
  assumes "replay tab_default xs = Some m"
  shows "insertion_history m = xs \<and> replay tab_default (insertion_history m) = Some m \<and> paint_index m = length xs"
  using replay_own_history [OF assms] replay_history [OF assms] by (simp add: tab_default_def)

theorem tab_history_replays_witness: "insertion_history sample_tabs = sample_history \<and> paint_index sample_tabs = 6"
proof -
  have "replay tab_default sample_history \<noteq> None"
    by code_simp
  then have "replay tab_default sample_history = Some sample_tabs"
    by (simp add: sample_tabs_def)
  from tab_history_replays [OF this] show ?thesis
    by (simp add: sample_history_def)
qed

section \<open>Subscriptions\<close>


definition two_subscribers :: "(nat, nat) subscriber_set" where
  "two_subscribers = snd (insert_active (snd (insert_active new_set 7 10)) 7 11)"


lemma two_subscribers_ok: "set_ok two_subscribers"
  by (simp add: set_ok_def two_subscribers_def insert_active_def insert_pending_def new_set_def activate_def btree_ok_def)


text \<open>
  In every reachable subscriber set the entries of an emitter are in ascending order of their ids, below the
  counter; the counter never falls, and a subscriber that was dropped stays dropped whatever happens later.
\<close>

theorem subscriber_set_invariant:
  assumes "api TYPE('w) new_set s" "api TYPE('w) s s'"
  shows "set_ok s \<and> set_ok s' \<and> next_subscriber_id s \<le> next_subscriber_id s'
     \<and> (\<forall>i<next_subscriber_id s. cells s i = Dropped \<longrightarrow> cells s' i = Dropped)"
  using api_grows [OF assms(1)] api_grows [OF assms(2)] by (auto simp: grows_def set_ok_def new_set_def)

theorem subscriber_set_invariant_witness: "set_ok (unsubscribe_one (7, 0) (snd (snd (insert_pending new_set (7 :: nat) (10 :: nat)))))"
proof -
  let ?s = "snd (snd (insert_pending new_set (7 :: nat) (10 :: nat)))"
  have "api TYPE(unit) new_set ?s"
    by (rule api_insert [OF api_refl])
  moreover have "api TYPE(unit) ?s (unsubscribe_one (7, 0) ?s)"
    by (rule api_unsubscribe [OF api_refl])
  ultimately show ?thesis
    using subscriber_set_invariant by blast
qed

text \<open>
  Dropping the handle of a new subscription restores the subscribers and marks the subscriber dropped; dropping a
  joined handle drops both parts; a detached handle drops nothing.
\<close>

theorem subscription_handles:
  assumes "set_ok s" "subscribers s e \<noteq> Some []" "insert_active s e c = (sub, s')"
  shows "subscribers (drop_subscription sub s') = subscribers s
     \<and> cells (drop_subscription sub s') (next_subscriber_id s) = Dropped
     \<and> drop_subscription (join sub other) s' = drop_subscription other (drop_subscription sub s')
     \<and> drop_subscription (detach sub) s' = s'"
  using insert_then_drop [OF assms] by (simp add: join_drops_both detach_keeps)

theorem subscription_handles_witness:
  "subscribers (drop_subscription (fst (insert_active two_subscribers 7 12)) (snd (insert_active two_subscribers 7 12)))
     = subscribers two_subscribers"
proof -
  have "subscribers two_subscribers 7 \<noteq> Some []"
    by (simp add: two_subscribers_def insert_active_def insert_pending_def new_set_def activate_def)
  from subscription_handles [OF two_subscribers_ok this surjective_pairing] show ?thesis by blast
qed

text \<open>
  C35: The set of a single emitter behaves as the general set over one emitter: starting from the empty sets each
  operation gives equal results and keeps the correspondence, \<open>retain\<close> with corresponding visitors included.
\<close>

theorem single_set_refines:
  assumes "sim s t" "sim_visitor f g"
  shows "sim new_set single_new
     \<and> fst (snd (insert_pending s () c)) = fst (single_insert_pending t c)
     \<and> sim (snd (snd (insert_pending s () c))) (snd (single_insert_pending t c))
     \<and> sim (activate i s) (single_activate i t) \<and> sim (unsubscribe_one ((), i) s) (single_unsubscribe i t)
     \<and> fst (set_take s ()) = fst (single_take t) \<and> sim (snd (set_take s ())) (snd (single_take t))
     \<and> snd (set_retain s () f w) = snd (single_retain t g w)
     \<and> sim (fst (set_retain s () f w)) (fst (single_retain t g w))"
  using sim_new sim_insert [OF assms(1)] sim_activate [OF assms(1)] sim_unsubscribe [OF assms(1)] sim_take [OF assms(1)]
    sim_retain [OF assms(2,1)] by blast

theorem single_set_refines_witness:
  "snd (set_retain (snd (insert_active new_set () (5 :: nat))) () (\<lambda>c s w. (c > 3, c, s, w + c)) (0 :: nat))
     = snd (single_retain (snd (single_insert single_new 5)) (\<lambda>c s w. (c > 3, c, s, w + c)) 0)"
proof -
  have "sim (snd (insert_active new_set () (5 :: nat))) (snd (single_insert single_new 5))"
    using sim_activate [OF sim_insert [OF sim_new, THEN conjunct2], of 0 "5 :: nat"]
    by (simp add: insert_active_def single_insert_def insert_pending_def single_insert_pending_def new_set_def single_new_def
        case_prod_unfold Let_def)
  moreover have "sim_visitor (\<lambda>c s w. (c > 3, c, s, w + c)) (\<lambda>c s w :: nat. (c > (3 :: nat), c, s, w + c))"
    by (simp add: sim_visitor_def)
  ultimately show ?thesis
    using single_set_refines [of _ _ "\<lambda>c s w. (c > 3, c, s, w + c)" "\<lambda>c s w. (c > 3, c, s, w + c)" undefined 0 0] by blast
qed

end
