(* ===== verification/Dependencies.thy ===== *)
theory Dependencies
  imports Prelude "HOL-Library.Word"
begin

text \<open>
  \<open>gpui/src/fast/dependencies.rs\<close>: what a retained subtree read while it was built, and whether any of it
  changed since. With it the log of scroll offsets of \<open>gpui/src/fast/layers/invalidate.rs\<close>, which is kept
  the same way.

  \<^item> Entities and versioned states are natural numbers (the key of an entity, the address of a state's
    counter); the counters of the states are a heap of 64-bit words, which wrap. The generation
    counters only ever grow by one and are natural numbers.
  \<^item> A \<open>TypeId\<close> is the type of a global, the type \<open>GlobalPresence\<close> of it, or one of the two ambient types.
    Their order is that of an encoding; the source only needs it to be total.
  \<^item> The interned lists are the lists themselves: sharing them saves memory and is not observable but by
    \<open>shares_entities_with\<close>.
  \<^item> The logs shared with the thread are fields of the app. \<^const>\<open>None\<close> is a panic.
\<close>

section \<open>Data\<close>

type_synonym entity_id = nat
type_synonym state_id = nat

datatype type_id = GlobalType nat | GlobalPresence nat | AmbientPointer | AmbientKeys

fun type_id_code :: "type_id \<Rightarrow> nat \<times> nat" where
  "type_id_code AmbientPointer = (0, 0)"
| "type_id_code AmbientKeys = (1, 0)"
| "type_id_code (GlobalType g) = (2, g)"
| "type_id_code (GlobalPresence g) = (3, g)"

lemma type_id_code_inj: "type_id_code a = type_id_code b \<Longrightarrow> a = b"
  by (cases a; cases b) auto

instantiation type_id :: linorder
begin

definition less_eq_type_id :: "type_id \<Rightarrow> type_id \<Rightarrow> bool" where
  "less_eq_type_id a b = (case (type_id_code a, type_id_code b) of ((i, m), (j, n)) \<Rightarrow> i < j \<or> i = j \<and> m \<le> n)"

definition less_type_id :: "type_id \<Rightarrow> type_id \<Rightarrow> bool" where
  "less_type_id a b = (case (type_id_code a, type_id_code b) of ((i, m), (j, n)) \<Rightarrow> i < j \<or> i = j \<and> m < n)"

instance
  by standard (auto simp: less_eq_type_id_def less_type_id_def intro!: type_id_code_inj split: prod.splits)

end

text \<open>A range of log positions is a pair of its start and its end.\<close>

record log_ranges =
  lr_entities :: "nat \<times> nat"
  lr_globals :: "nat \<times> nat"
  lr_states :: "nat \<times> nat"
  lr_offset_reads :: "nat \<times> nat"

record app_dependencies =
  global_generation :: nat
  global_changed_at :: "type_id \<rightharpoonup> nat"
  global_read_log :: "type_id list"
  state_read_log :: "(state_id \<times> 64 word) list"
  nested :: "log_ranges list list"

record entity_access_log =
  access_log :: "entity_id list"
  boundary :: nat
  recordings :: nat
  update_generation :: nat
  updated_at :: "entity_id \<rightharpoonup> nat"
  write_generation :: nat
  written_at :: "entity_id \<rightharpoonup> nat"
  rendering :: "entity_id option"
  updated_unnotified :: "entity_id set"
  changed_at :: "entity_id \<rightharpoonup> nat"
  queried :: "entity_id option"

datatype offset_kind = ReadOffset | ReadAtEnd "bool option"

record offset_read =
  or_version :: state_id
  or_read_at :: "64 word"
  or_read :: offset_kind

record offset_read_log =
  ol_recordings :: nat
  ol_reads :: "offset_read list"
  ol_epoch :: nat

record list_built =
  lb_epoch :: nat
  lb_offsets :: nat
  lb_entities :: nat
  lb_globals :: nat
  lb_states :: nat

text \<open>The parts of \<open>App\<close> the recording works on: the counters of the states, the entities that are alive,
  the entities the current frame accessed, and the thread's logs.\<close>

record app =
  deps :: app_dependencies
  ents :: entity_access_log
  versions :: "state_id \<Rightarrow> 64 word"
  alive :: "entity_id set"
  accessed :: "entity_id set"
  globals_set :: "nat set"
  offset_log :: offset_read_log
  last_list_built :: "list_built option"

record writes =
  w_from :: nat
  w_to :: nat
  w_own :: "(nat \<times> nat) list"

record render_dependencies =
  rd_entities :: "entity_id list"
  rd_globals :: "type_id list"
  rd_states :: "(state_id \<times> 64 word) list"
  rd_offset_reads :: "offset_read list"
  rd_generation :: nat
  rd_updates :: nat
  rd_writes :: writes

record recorded_dependencies =
  rec_all :: render_dependencies
  rec_own :: render_dependencies
  rec_render :: "render_dependencies option"

record dependency_recording =
  dr_entities :: nat
  dr_globals :: nat
  dr_states :: nat
  dr_offset_reads :: nat
  dr_generation :: nat
  dr_updates :: nat
  dr_writes :: nat

section \<open>Changes\<close>

definition sort_unique :: "'a::linorder list \<Rightarrow> 'a list" where
  "sort_unique items = remdups_adj (sort items)"

definition state_bump :: "app \<Rightarrow> state_id \<Rightarrow> app" where
  "state_bump app v = app\<lparr>versions := (versions app)(v := versions app v + 1)\<rparr>"

definition state_bump_if :: "app \<Rightarrow> state_id \<Rightarrow> bool \<Rightarrow> app" where
  "state_bump_if app v changed = (if changed then state_bump app v else app)"

definition deps_global_changed :: "app_dependencies \<Rightarrow> type_id \<Rightarrow> app_dependencies" where
  "deps_global_changed d global_type =
     d\<lparr>global_generation := global_generation d + 1,
       global_changed_at := (global_changed_at d)(global_type \<mapsto> global_generation d + 1)\<rparr>"

definition global_changed :: "app \<Rightarrow> type_id \<Rightarrow> app" where
  "global_changed app global_type = app\<lparr>deps := deps_global_changed (deps app) global_type\<rparr>"

definition note_global_inserted :: "app \<Rightarrow> nat \<Rightarrow> app" where
  "note_global_inserted app g =
     (if g \<notin> globals_set app then global_changed app (GlobalPresence g) else app)"

definition note_global_removed :: "app \<Rightarrow> nat \<Rightarrow> app" where
  "note_global_removed app g = global_changed app (GlobalPresence g)"

definition change_count :: "app \<Rightarrow> nat" where
  "change_count app = update_generation (ents app) + write_generation (ents app) + global_generation (deps app)"

record ambient_input =
  ai_position :: "int \<times> int"
  ai_modifiers :: nat
  ai_capslock :: bool

text \<open>The window's pointer and keys are given before and after the event.\<close>

definition stamp_changes :: "ambient_input \<Rightarrow> ambient_input \<Rightarrow> app \<Rightarrow> app" where
  "stamp_changes self window app =
     (let app = (if ai_position window \<noteq> ai_position self then global_changed app AmbientPointer else app)
      in if ai_modifiers window \<noteq> ai_modifiers self \<or> ai_capslock window \<noteq> ai_capslock self
         then global_changed app AmbientKeys else app)"

definition stamp_changed :: "entity_access_log \<Rightarrow> entity_id \<Rightarrow> entity_access_log" where
  "stamp_changed log e =
     log\<lparr>update_generation := update_generation log + 1,
         changed_at := (changed_at log)(e \<mapsto> update_generation log + 1)\<rparr>"

definition forget :: "entity_access_log \<Rightarrow> entity_id \<Rightarrow> entity_access_log" where
  "forget log e =
     log\<lparr>updated_at := (updated_at log)(e := None), written_at := (written_at log)(e := None),
         updated_unnotified := updated_unnotified log - {e}, changed_at := (changed_at log)(e := None)\<rparr>"

section \<open>Reads\<close>

definition is_recording :: "app \<Rightarrow> bool" where
  "is_recording app \<longleftrightarrow> recordings (ents app) > 0"

definition mark_access_boundary :: "entity_access_log \<Rightarrow> entity_access_log" where
  "mark_access_boundary log = log\<lparr>boundary := length (access_log log)\<rparr>"

definition begin_recording :: "entity_access_log \<Rightarrow> nat \<times> entity_access_log" where
  "begin_recording log =
     (let log = mark_access_boundary log
      in (length (access_log log), log\<lparr>recordings := recordings log + 1\<rparr>))"

definition close_recording :: "entity_access_log \<Rightarrow> entity_access_log option" where
  "close_recording log =
     (if recordings log = 0 then None
      else let open' = recordings log - 1;
               log = log\<lparr>recordings := open'\<rparr>;
               log = (if open' = 0 then log\<lparr>access_log := []\<rparr> else log)
           in Some (mark_access_boundary log))"

definition note_access :: "entity_access_log \<Rightarrow> entity_id \<Rightarrow> entity_access_log" where
  "note_access log e =
     (if recordings log > 0 then
        if length (access_log log) > boundary log \<and> list_last (access_log log) = Some e then log
        else log\<lparr>access_log := access_log log @ [e]\<rparr>
      else log)"

definition note_notify :: "entity_access_log \<Rightarrow> entity_id \<Rightarrow> entity_access_log" where
  "note_notify log e =
     (let removed = e \<in> updated_unnotified log;
          log = log\<lparr>updated_unnotified := updated_unnotified log - {e}\<rparr>
      in if removed \<or> recordings log > 0 \<or> queried log \<noteq> None then stamp_changed log e else log)"

definition stamp_update :: "entity_access_log \<Rightarrow> entity_id \<Rightarrow> entity_access_log" where
  "stamp_update log e =
     (if queried log = Some e then log
      else if recordings log = 0 then
        log\<lparr>update_generation := update_generation log + 1,
            updated_at := (updated_at log)(e \<mapsto> update_generation log + 1),
            updated_unnotified := insert e (updated_unnotified log)\<rparr>
      else
        log\<lparr>write_generation := write_generation log + 1,
            written_at := (written_at log)(e \<mapsto> write_generation log + 1)\<rparr>)"

definition note_update :: "entity_access_log \<Rightarrow> entity_id \<Rightarrow> entity_access_log" where
  "note_update log e =
     (let log = note_access log e
      in if rendering log = Some e then
           let log = log\<lparr>rendering := None\<rparr>
           in if recordings log > 0 then log else stamp_update log e
         else stamp_update log e)"

definition render_next :: "entity_access_log \<Rightarrow> entity_id \<Rightarrow> entity_access_log" where
  "render_next log e = log\<lparr>rendering := Some e\<rparr>"

text \<open>\<open>query\<close>: the closure runs inside the update.\<close>

definition query :: "entity_id \<Rightarrow> (app \<Rightarrow> 'r \<times> app) \<Rightarrow> app \<Rightarrow> 'r \<times> app" where
  "query e body app =
     (let outer = queried (ents app);
          app = app\<lparr>ents := (ents app)\<lparr>queried := Some e\<rparr>\<rparr>;
          app = app\<lparr>ents := note_update (ents app) e\<rparr>;
          (result, app) = body app
      in (result, app\<lparr>ents := (ents app)\<lparr>queried := outer\<rparr>\<rparr>))"

definition note_state_read :: "app \<Rightarrow> state_id \<Rightarrow> app" where
  "note_state_read app v =
     (if is_recording app then app\<lparr>deps := (deps app)\<lparr>state_read_log := state_read_log (deps app) @ [(v, versions app v)]\<rparr>\<rparr>
      else app)"

definition note_global_read :: "app \<Rightarrow> type_id \<Rightarrow> app" where
  "note_global_read app g =
     (if is_recording app then app\<lparr>deps := (deps app)\<lparr>global_read_log := global_read_log (deps app) @ [g]\<rparr>\<rparr>
      else app)"

text \<open>\<open>AmbientReads::note\<close> pushes to the same log under the same count.\<close>

definition read_pointer :: "app \<Rightarrow> app" where
  "read_pointer app = note_global_read app AmbientPointer"

definition read_keys :: "app \<Rightarrow> app" where
  "read_keys app = note_global_read app AmbientKeys"

definition note_global_presence_read :: "app \<Rightarrow> nat \<Rightarrow> app" where
  "note_global_presence_read app g = note_global_read app (GlobalPresence g)"

text \<open>\<open>note_read\<close> of the scroll offsets; \<open>COMPILED\<close> says whether layers are part of the build.\<close>

definition note_read :: "bool \<Rightarrow> app \<Rightarrow> state_id \<Rightarrow> offset_kind \<Rightarrow> app" where
  "note_read COMPILED app v read =
     (if \<not> COMPILED then app
      else if ol_recordings (offset_log app) > 0 then
        app\<lparr>offset_log := (offset_log app)\<lparr>ol_reads := ol_reads (offset_log app)
               @ [\<lparr>or_version = v, or_read_at = versions app v, or_read = read\<rparr>]\<rparr>\<rparr>
      else app)"

section \<open>Recordings\<close>

text \<open>The slice \<open>xs[a..b]\<close>.\<close>

definition slice_range :: "'a list \<Rightarrow> nat \<Rightarrow> nat \<Rightarrow> 'a list option" where
  "slice_range xs a b = (if a \<le> b \<and> b \<le> length xs then Some (take (b - a) (drop a xs)) else None)"

fun outside_loop :: "'a list \<Rightarrow> (nat \<times> nat) list \<Rightarrow> nat \<Rightarrow> ('a list \<times> nat) option" where
  "outside_loop log [] cursor = Some ([], cursor)"
| "outside_loop log ((start, end') # rest) cursor =
     do { own \<leftarrow> (if start > cursor then slice_range log cursor start else Some []);
          (own', cursor') \<leftarrow> outside_loop log rest (max cursor end');
          Some (own @ own', cursor') }"

definition outside :: "'a list \<Rightarrow> nat \<times> nat \<Rightarrow> (nat \<times> nat) list \<Rightarrow> 'a list option" where
  "outside log span nested_ranges =
     do { (own, cursor) \<leftarrow> outside_loop log nested_ranges (fst span);
          rest \<leftarrow> (if snd span > cursor then slice_range log cursor (snd span) else Some []);
          Some (own @ rest) }"

fun unique_loop :: "(state_id \<times> 64 word) list \<Rightarrow> (state_id \<times> 64 word) list \<Rightarrow> (state_id \<times> 64 word) list" where
  "unique_loop unique [] = unique"
| "unique_loop unique (s # states) =
     unique_loop (if fst s \<in> fst ` set unique then unique else unique @ [s]) states"

definition unique_states :: "(state_id \<times> 64 word) list \<Rightarrow> (state_id \<times> 64 word) list" where
  "unique_states states = unique_loop [] states"

definition dedup_states :: "(state_id \<times> 64 word) list \<Rightarrow> (state_id \<times> 64 word) list" where
  "dedup_states states = (if states = [] then [] else unique_states states)"

text \<open>One read joins the list: a state read in different ways counts as its offset read.\<close>

fun add_offset_read :: "offset_read list \<Rightarrow> offset_read \<Rightarrow> offset_read list" where
  "add_offset_read [] read = [read]"
| "add_offset_read (other # rest) read =
     (if or_version other = or_version read then
        (if or_read other \<noteq> or_read read then other\<lparr>or_read := ReadOffset\<rparr> else other) # rest
      else other # add_offset_read rest read)"

definition offset_reads_of :: "offset_read list \<Rightarrow> offset_read list" where
  "offset_reads_of reads = foldl add_offset_read [] reads"

definition offset_reads_union :: "offset_read list \<Rightarrow> offset_read list \<Rightarrow> offset_read list" where
  "offset_reads_union a b = (if b = [] then a else if a = [] then b else offset_reads_of (a @ b))"

definition begin_offset_reads :: "offset_read_log \<Rightarrow> nat \<times> offset_read_log" where
  "begin_offset_reads log = (length (ol_reads log), log\<lparr>ol_recordings := ol_recordings log + 1\<rparr>)"

definition end_offset_reads :: "offset_read_log \<Rightarrow> offset_read_log" where
  "end_offset_reads log =
     (let log = log\<lparr>ol_recordings := ol_recordings log - 1\<rparr>
      in if ol_recordings log = 0 then log\<lparr>ol_reads := [], ol_epoch := ol_epoch log + 1\<rparr> else log)"

definition offset_reads_in ::
    "offset_read_log \<Rightarrow> nat \<times> nat \<Rightarrow> (nat \<times> nat) list \<Rightarrow> (offset_read list \<times> offset_read list) option" where
  "offset_reads_in log span nested_ranges =
     (if fst span \<ge> snd span then Some ([], [])
      else do { all \<leftarrow> slice_range (ol_reads log) (fst span) (snd span);
                own \<leftarrow> outside (ol_reads log) span nested_ranges;
                Some (offset_reads_of all, offset_reads_of own) })"

definition replay_offset_reads :: "offset_read_log \<Rightarrow> offset_read list \<Rightarrow> (nat \<times> nat) \<times> offset_read_log" where
  "replay_offset_reads log reads =
     (let start = length (ol_reads log);
          log = (if ol_recordings log > 0 then log\<lparr>ol_reads := ol_reads log @ reads\<rparr> else log)
      in ((start, length (ol_reads log)), log))"

definition begin_recording_dependencies :: "app \<Rightarrow> dependency_recording \<times> app" where
  "begin_recording_dependencies app =
     (let app = app\<lparr>deps := (deps app)\<lparr>nested := nested (deps app) @ [[]]\<rparr>\<rparr>;
          (entities, log) = begin_recording (ents app);
          (offset_reads, olog) = begin_offset_reads (offset_log app)
      in (\<lparr>dr_entities = entities, dr_globals = length (global_read_log (deps app)),
           dr_states = length (state_read_log (deps app)), dr_offset_reads = offset_reads,
           dr_generation = global_generation (deps app), dr_updates = update_generation log,
           dr_writes = write_generation log\<rparr>,
          app\<lparr>ents := log, offset_log := olog\<rparr>))"

definition writes_while_open :: "dependency_recording \<Rightarrow> entity_access_log \<Rightarrow> writes" where
  "writes_while_open recording log =
     (let now = write_generation log
      in \<lparr>w_from = dr_writes recording, w_to = now,
          w_own = (if now > dr_writes recording then [(dr_writes recording, now)] else [])\<rparr>)"

text \<open>\<open>parent.push(ranges)\<close> on the innermost open recording, if there is one.\<close>

definition push_nested :: "log_ranges \<Rightarrow> log_ranges list list \<Rightarrow> log_ranges list list" where
  "push_nested ranges open' =
     (case init_last open' of None \<Rightarrow> open' | Some (outer, parent) \<Rightarrow> outer @ [parent @ [ranges]])"

definition recorded_lists ::
    "'a list \<Rightarrow> nat \<times> nat \<Rightarrow> (nat \<times> nat) list \<Rightarrow> ('a list \<times> 'a list) option" where
  "recorded_lists log span nested_ranges =
     do { all \<leftarrow> slice_range log (fst span) (snd span);
          own \<leftarrow> outside log span nested_ranges;
          Some (all, own) }"

definition finish_recording_dependencies ::
    "app \<Rightarrow> dependency_recording \<Rightarrow> (recorded_dependencies \<times> app) option" where
  "finish_recording_dependencies app recording =
     do { let d = deps app;
          let (outer, inner) = (case init_last (nested d) of None \<Rightarrow> ([], []) | Some (outer, inner) \<Rightarrow> (outer, inner));
          let ranges = \<lparr>lr_entities = (dr_entities recording, length (access_log (ents app))),
                        lr_globals = (dr_globals recording, length (global_read_log d)),
                        lr_states = (dr_states recording, length (state_read_log d)),
                        lr_offset_reads = (dr_offset_reads recording, length (ol_reads (offset_log app)))\<rparr>;
          (offset_reads, own_offset_reads) \<leftarrow>
             offset_reads_in (offset_log app) (lr_offset_reads ranges) (map lr_offset_reads inner);
          (entities, own_entities) \<leftarrow> recorded_lists (access_log (ents app)) (lr_entities ranges) (map lr_entities inner);
          (globals, own_globals) \<leftarrow> recorded_lists (global_read_log d) (lr_globals ranges) (map lr_globals inner);
          states \<leftarrow> slice_range (state_read_log d) (fst (lr_states ranges)) (snd (lr_states ranges));
          own_states \<leftarrow> (if fst (lr_states ranges) \<ge> snd (lr_states ranges) then Some []
                        else outside (state_read_log d) (lr_states ranges) (map lr_states inner));
          log \<leftarrow> close_recording (ents app);
          let d = d\<lparr>nested := push_nested ranges outer\<rparr>;
          let d = (if recordings log > 0 then d else d\<lparr>global_read_log := [], state_read_log := []\<rparr>);
          let w = writes_while_open recording log;
          Some (\<lparr>rec_all = \<lparr>rd_entities = sort_unique entities, rd_globals = sort_unique globals,
                             rd_states = dedup_states states, rd_offset_reads = offset_reads,
                             rd_generation = dr_generation recording, rd_updates = dr_updates recording, rd_writes = w\<rparr>,
                  rec_own = \<lparr>rd_entities = sort_unique own_entities, rd_globals = sort_unique own_globals,
                             rd_states = dedup_states own_states, rd_offset_reads = own_offset_reads,
                             rd_generation = dr_generation recording, rd_updates = dr_updates recording, rd_writes = w\<rparr>,
                  rec_render = None\<rparr>,
                app\<lparr>deps := d, ents := log, offset_log := end_offset_reads (offset_log app)\<rparr>) }"

definition note_list_built :: "bool \<Rightarrow> app \<Rightarrow> app" where
  "note_list_built COMPILED app =
     (if \<not> COMPILED then app
      else app\<lparr>last_list_built :=
        (if ol_recordings (offset_log app) > 0 then
           Some \<lparr>lb_epoch = ol_epoch (offset_log app), lb_offsets = length (ol_reads (offset_log app)),
                 lb_entities = length (access_log (ents app)), lb_globals = length (global_read_log (deps app)),
                 lb_states = length (state_read_log (deps app))\<rparr>
         else None)\<rparr>)"

definition list_built_in :: "app \<Rightarrow> nat \<Rightarrow> nat \<Rightarrow> list_built option" where
  "list_built_in app start end' =
     (case last_list_built app of
        None \<Rightarrow> None
      | Some built \<Rightarrow>
          if lb_epoch built = ol_epoch (offset_log app) \<and> lb_offsets built \<ge> start \<and> lb_offsets built \<le> end'
          then Some built else None)"

text \<open>\<open>clamp\<close> panics when its bounds are out of order.\<close>

definition clamp :: "nat \<Rightarrow> nat \<Rightarrow> nat \<Rightarrow> nat option" where
  "clamp x lo hi = (if lo \<le> hi then Some (max lo (min x hi)) else None)"

definition dependencies_so_far :: "app \<Rightarrow> dependency_recording \<Rightarrow> render_dependencies option" where
  "dependencies_so_far app recording =
     do { let d = deps app;
          let inner = (case list_last (nested d) of None \<Rightarrow> [] | Some inner \<Rightarrow> inner);
          let entities_end = length (access_log (ents app));
          let globals_end = length (global_read_log d);
          let states_end = length (state_read_log d);
          let offset_end = length (ol_reads (offset_log app));
          (offset_end, entities_end, globals_end, states_end) \<leftarrow>
            (case list_built_in app (dr_offset_reads recording) offset_end of
               None \<Rightarrow> Some (offset_end, entities_end, globals_end, states_end)
             | Some built \<Rightarrow>
                 do { e \<leftarrow> clamp (lb_entities built) (dr_entities recording) entities_end;
                      g \<leftarrow> clamp (lb_globals built) (dr_globals recording) globals_end;
                      s \<leftarrow> clamp (lb_states built) (dr_states recording) states_end;
                      Some (lb_offsets built, e, g, s) });
          (_, offset_reads) \<leftarrow> offset_reads_in (offset_log app) (dr_offset_reads recording, offset_end) (map lr_offset_reads inner);
          entities \<leftarrow> outside (access_log (ents app)) (dr_entities recording, entities_end) (map lr_entities inner);
          globals \<leftarrow> outside (global_read_log d) (dr_globals recording, globals_end) (map lr_globals inner);
          states \<leftarrow> outside (state_read_log d) (dr_states recording, states_end) (map lr_states inner);
          Some \<lparr>rd_entities = sort_unique entities, rd_globals = sort_unique globals, rd_states = dedup_states states,
                rd_offset_reads = offset_reads, rd_generation = dr_generation recording, rd_updates = dr_updates recording,
                rd_writes = writes_while_open recording (ents app)\<rparr> }"

definition extend_accessed_recorded :: "app \<Rightarrow> entity_id list \<Rightarrow> app" where
  "extend_accessed_recorded app entities =
     (let app' = app\<lparr>accessed := accessed app \<union> (set entities \<inter> alive app)\<rparr>
      in if \<not> is_recording app then app'
         else app'\<lparr>ents := (ents app)\<lparr>access_log := access_log (ents app) @ entities\<rparr>\<rparr>)"

definition replay_dependencies :: "app \<Rightarrow> render_dependencies \<Rightarrow> app" where
  "replay_dependencies app dependencies =
     (let e0 = length (access_log (ents app));
          g0 = length (global_read_log (deps app));
          s0 = length (state_read_log (deps app));
          app = app\<lparr>ents := mark_access_boundary (ents app)\<rparr>;
          app = extend_accessed_recorded app (rd_entities dependencies);
          app = app\<lparr>ents := mark_access_boundary (ents app)\<rparr>
      in if is_recording app then
           let d = (deps app)\<lparr>global_read_log := global_read_log (deps app) @ rd_globals dependencies,
                              state_read_log := state_read_log (deps app) @ rd_states dependencies\<rparr>;
               (offset_reads, olog) = replay_offset_reads (offset_log app) (rd_offset_reads dependencies);
               ranges = \<lparr>lr_entities = (e0, length (access_log (ents app))), lr_globals = (g0, length (global_read_log d)),
                         lr_states = (s0, length (state_read_log d)), lr_offset_reads = offset_reads\<rparr>
           in app\<lparr>deps := d\<lparr>nested := push_nested ranges (nested d)\<rparr>, offset_log := olog\<rparr>
         else app)"

fun entities_in_spans :: "entity_id list \<Rightarrow> (nat \<times> nat) list \<Rightarrow> entity_id list option" where
  "entities_in_spans log [] = Some []"
| "entities_in_spans log ((start, stop) # spans) =
     do { let end' = min stop (length log);
          here \<leftarrow> slice_range log (min start end') end';
          rest \<leftarrow> entities_in_spans log spans;
          Some (here @ rest) }"

definition entities_read_in :: "app \<Rightarrow> (nat \<times> nat) list \<Rightarrow> entity_id list option" where
  "entities_read_in app spans = map_option sort_unique (entities_in_spans (access_log (ents app)) spans)"

section \<open>Whether anything changed\<close>

definition after :: "(entity_id \<rightharpoonup> nat) \<Rightarrow> nat \<Rightarrow> entity_id \<Rightarrow> bool" where
  "after stamps generation e = (case stamps e of None \<Rightarrow> False | Some at \<Rightarrow> at > generation)"

definition changed_since :: "entity_access_log \<Rightarrow> entity_id list \<Rightarrow> nat \<Rightarrow> bool \<Rightarrow> bool" where
  "changed_since log entities generation updates \<longleftrightarrow>
     generation \<noteq> update_generation log
     \<and> list_ex (\<lambda>e. after (changed_at log) generation e \<or> updates \<and> after (updated_at log) generation e) entities"

definition is_foreign :: "writes \<Rightarrow> nat \<Rightarrow> bool" where
  "is_foreign w at \<longleftrightarrow> at > w_from w \<and> \<not> list_ex (\<lambda>(began, finished). at > began \<and> at \<le> finished) (w_own w)"

definition written_since :: "entity_access_log \<Rightarrow> entity_id list \<Rightarrow> writes \<Rightarrow> bool" where
  "written_since log entities w \<longleftrightarrow>
     write_generation log \<noteq> w_to w
     \<and> list_ex (\<lambda>e. case written_at log e of None \<Rightarrow> False | Some at \<Rightarrow> is_foreign w at) entities"

definition globals_or_states_changed :: "app \<Rightarrow> render_dependencies \<Rightarrow> bool" where
  "globals_or_states_changed app d \<longleftrightarrow>
     list_ex (\<lambda>g. case global_changed_at (deps app) g of None \<Rightarrow> False | Some at \<Rightarrow> at > rd_generation d) (rd_globals d)
     \<or> list_ex (\<lambda>(v, read_at). versions app v \<noteq> read_at) (rd_states d)"

definition dependencies_changed :: "app \<Rightarrow> render_dependencies \<Rightarrow> bool \<Rightarrow> bool" where
  "dependencies_changed app d inside_notified \<longleftrightarrow>
     changed_since (ents app) (rd_entities d) (rd_updates d) inside_notified
     \<or> written_since (ents app) (rd_entities d) (rd_writes d)
     \<or> globals_or_states_changed app d"

definition notified_dependencies_changed :: "app \<Rightarrow> render_dependencies \<Rightarrow> bool" where
  "notified_dependencies_changed app d \<longleftrightarrow>
     changed_since (ents app) (rd_entities d) (rd_updates d) False \<or> globals_or_states_changed app d"

section \<open>Combining dependencies\<close>

definition with_own :: "writes \<Rightarrow> nat \<Rightarrow> nat \<Rightarrow> writes" where
  "with_own w since now = w\<lparr>w_own := (if now > since then w_own w @ [(since, now)] else w_own w)\<rparr>"

definition writes_union :: "writes \<Rightarrow> writes \<Rightarrow> writes" where
  "writes_union a b = \<lparr>w_from = min (w_from a) (w_from b), w_to = max (w_to a) (w_to b), w_own = w_own a @ w_own b\<rparr>"

text \<open>\<open>contains_all\<close> looks each item up in what is left of the other list. The binary search of a sorted list
  without repeats finds the position of the item if it is there.\<close>

fun contains_all :: "'a::linorder list \<Rightarrow> 'a list \<Rightarrow> bool" where
  "contains_all rest [] = True"
| "contains_all rest (item # some) =
     (if item \<in> set rest then contains_all (tl (dropWhile (\<lambda>x. x \<noteq> item) rest)) some else False)"

fun merge_loop :: "'a::linorder list \<Rightarrow> 'a list \<Rightarrow> 'a list" where
  "merge_loop [] b = b"
| "merge_loop a [] = a"
| "merge_loop (x # a) (y # b) =
     (case ord_cmp x y of
        Less \<Rightarrow> x # merge_loop a (y # b)
      | Greater \<Rightarrow> y # merge_loop (x # a) b
      | Equal \<Rightarrow> x # merge_loop a b)"

definition merge_sorted :: "'a::linorder list \<Rightarrow> 'a list \<Rightarrow> 'a list" where
  "merge_sorted a b =
     (if b = [] \<or> contains_all a b then a
      else if a = [] \<or> contains_all b a then b
      else merge_loop a b)"

definition with_entities :: "render_dependencies \<Rightarrow> entity_id list \<Rightarrow> render_dependencies" where
  "with_entities d entities = d\<lparr>rd_entities := entities\<rparr>"

definition entities_only :: "render_dependencies \<Rightarrow> entity_id list \<Rightarrow> render_dependencies" where
  "entities_only d entities = d\<lparr>rd_entities := entities, rd_globals := [], rd_states := [], rd_offset_reads := []\<rparr>"

definition with_own_writes :: "render_dependencies \<Rightarrow> nat \<Rightarrow> nat \<Rightarrow> render_dependencies" where
  "with_own_writes d since now = d\<lparr>rd_writes := with_own (rd_writes d) since now\<rparr>"

definition written_up_to :: "render_dependencies \<Rightarrow> nat \<Rightarrow> render_dependencies" where
  "written_up_to d now = d\<lparr>rd_writes := \<lparr>w_from = now, w_to = now, w_own = []\<rparr>\<rparr>"

definition without_released_entities :: "render_dependencies \<Rightarrow> app \<Rightarrow> render_dependencies" where
  "without_released_entities d app =
     (if list_all (\<lambda>e. e \<in> alive app) (rd_entities d) then d
      else d\<lparr>rd_entities := filter (\<lambda>e. e \<in> alive app) (rd_entities d)\<rparr>)"

definition dependencies_union :: "render_dependencies \<Rightarrow> render_dependencies \<Rightarrow> render_dependencies" where
  "dependencies_union self other =
     (let offset_reads = offset_reads_union (rd_offset_reads self) (rd_offset_reads other)
      in if rd_entities other = [] \<and> rd_globals other = [] \<and> rd_states other = []
         then self\<lparr>rd_offset_reads := offset_reads\<rparr>
         else \<lparr>rd_entities = merge_sorted (rd_entities self) (rd_entities other),
               rd_globals = merge_sorted (rd_globals self) (rd_globals other),
               rd_states = (if rd_states other = [] then rd_states self else unique_states (rd_states self @ rd_states other)),
               rd_offset_reads = offset_reads,
               rd_generation = min (rd_generation self) (rd_generation other),
               rd_updates = min (rd_updates self) (rd_updates other),
               rd_writes = writes_union (rd_writes self) (rd_writes other)\<rparr>)"

section \<open>Stretches of a log\<close>

text \<open>\<open>stretches lo rs hi\<close>: the ranges lie one after the other between the two positions.\<close>

fun stretches :: "nat \<Rightarrow> (nat \<times> nat) list \<Rightarrow> nat \<Rightarrow> bool" where
  "stretches lo [] hi \<longleftrightarrow> lo \<le> hi"
| "stretches lo ((a, b) # rs) hi \<longleftrightarrow> lo \<le> a \<and> a \<le> b \<and> stretches b rs hi"

text \<open>The entries from \<open>lo\<close> to \<open>hi\<close> outside the ranges.\<close>

fun own_part :: "'a list \<Rightarrow> nat \<Rightarrow> (nat \<times> nat) list \<Rightarrow> nat \<Rightarrow> 'a list" where
  "own_part log lo [] hi = take (hi - lo) (drop lo log)"
| "own_part log lo ((a, b) # rs) hi = take (a - lo) (drop lo log) @ own_part log b rs hi"

lemma stretches_le: "stretches lo rs hi \<Longrightarrow> lo \<le> hi"
  by (induction lo rs hi rule: stretches.induct) auto

lemma stretches_mono: "stretches lo rs hi \<Longrightarrow> hi \<le> hi' \<Longrightarrow> stretches lo rs hi'"
  by (induction rs arbitrary: lo) auto

lemma stretches_snoc: "stretches lo rs a \<Longrightarrow> a \<le> b \<Longrightarrow> b \<le> hi \<Longrightarrow> stretches lo (rs @ [(a, b)]) hi"
  by (induction rs arbitrary: lo) auto

lemma outside_own_part:
  assumes "stretches lo rs hi" "hi \<le> length log"
  shows "outside log (lo, hi) rs = Some (own_part log lo rs hi)"
  using assms
proof (induction rs arbitrary: lo)
  case Nil
  then show ?case by (auto simp: outside_def slice_range_def)
next
  case (Cons x rs)
  obtain a b where x: "x = (a, b)" by (cases x)
  have ord: "lo \<le> a" "a \<le> b" "stretches b rs hi" "a \<le> length log"
    using Cons.prems x stretches_le [of b rs hi] by auto
  have "(if a > lo then slice_range log lo a else Some []) = Some (take (a - lo) (drop lo log))"
    using ord by (auto simp: slice_range_def)
  moreover have "max lo b = b"
    using ord by simp
  ultimately show ?case
    using Cons.IH [OF ord(3) Cons.prems(2)] x
    by (auto simp: outside_def simp del: outside_loop.simps simp: outside_loop.simps(2) split: bind_splits)
qed

lemma own_part_append:
  assumes "stretches lo rs (length log)"
  shows "own_part (log @ ext) lo rs (length log + k) = own_part log lo rs (length log) @ take k ext"
  using assms
proof (induction rs arbitrary: lo)
  case (Cons x rs)
  then show ?case
    using stretches_le [of "snd x" rs "length log"] by (cases x) auto
qed auto

lemma own_part_snoc:
  assumes "stretches lo rs (length log)"
  shows "own_part (log @ ext) lo (rs @ [(length log, length (log @ ext))]) (length (log @ ext)) = own_part log lo rs (length log)"
  using assms
proof (induction rs arbitrary: lo)
  case (Cons x rs)
  then show ?case
    using stretches_le [of "snd x" rs "length log"] by (cases x) auto
qed auto

lemma own_part_last:
  assumes "stretches lo rs hi" "hi < length log"
  shows "last log \<in> set (own_part log lo rs (length log))"
  using assms
proof (induction rs arbitrary: lo)
  case Nil
  then have "drop lo log \<noteq> []" "last log = last (drop lo log)"
    by (auto simp: last_drop)
  then show ?case
    using last_in_set [of "drop lo log"] by simp
qed auto

text \<open>\<open>seg log start rs A Ow\<close>: since \<open>start\<close> the log took the entries \<open>A\<close>, of which \<open>Ow\<close> outside the ranges.\<close>

definition seg :: "'a list \<Rightarrow> nat \<Rightarrow> (nat \<times> nat) list \<Rightarrow> 'a set \<Rightarrow> 'a set \<Rightarrow> bool" where
  "seg log start rs A Ow \<longleftrightarrow> stretches start rs (length log) \<and> set (drop start log) = A
     \<and> set (own_part log start rs (length log)) = Ow"

lemma seg_open: "seg log (length log) [] {} {}"
  by (simp add: seg_def)

lemma seg_push: "seg log start rs A Ow \<Longrightarrow> seg (log @ [x]) start rs (insert x A) (insert x Ow)"
  using own_part_append [of start rs log "[x]" 1] stretches_le [of start rs "length log"]
  by (auto simp: seg_def intro: stretches_mono)

lemma seg_nested:
  "seg log start rs A Ow \<Longrightarrow> seg (log @ ext) start (rs @ [(length log, length (log @ ext))]) (A \<union> set ext) Ow"
  using own_part_snoc [of start rs log ext] stretches_le [of start rs "length log"]
  by (auto simp: seg_def intro: stretches_snoc)

lemma seg_slice:
  assumes "seg log start rs A Ow"
  shows "\<exists>as os. slice_range log start (length log) = Some as \<and> set as = A
           \<and> outside log (start, length log) rs = Some os \<and> set os = Ow \<and> (start \<ge> length log \<longrightarrow> as = [] \<and> os = [])"
proof -
  have st: "stretches start rs (length log)" "start \<le> length log"
    using assms stretches_le by (auto simp: seg_def)
  have "own_part log s rs (length log) = []" if "stretches s rs (length log)" "s = length log" for s
    using that
  proof (induction rs arbitrary: s)
    case (Cons x rs)
    obtain a b where x: "x = (a, b)" by (cases x)
    have "b = length log"
      using Cons.prems x stretches_le [of b rs "length log"] by auto
    with Cons x show ?case by simp
  qed simp
  with st assms show ?thesis
    using outside_own_part [OF st(1)] by (auto simp: seg_def slice_range_def)
qed

section \<open>What a recording sees\<close>

text \<open>What can happen while a subtree is drawn.\<close>

datatype draw_op =
  DReadEntity entity_id
| DUpdateEntity entity_id
| DNotify entity_id
| DRenderNext entity_id
| DReadGlobal type_id
| DGlobalChanged type_id
| DReadState state_id
| DBump state_id
| DReadOffset state_id offset_kind
| DListBuilt
| DReplay render_dependencies
| DNested "draw_op list"

fun draw :: "bool \<Rightarrow> draw_op \<Rightarrow> app \<Rightarrow> app option"
  and draws :: "bool \<Rightarrow> draw_op list \<Rightarrow> app \<Rightarrow> app option" where
  "draw C (DReadEntity e) app = Some (app\<lparr>ents := note_access (ents app) e\<rparr>)"
| "draw C (DUpdateEntity e) app = Some (app\<lparr>ents := note_update (ents app) e\<rparr>)"
| "draw C (DNotify e) app = Some (app\<lparr>ents := note_notify (ents app) e\<rparr>)"
| "draw C (DRenderNext e) app = Some (app\<lparr>ents := render_next (ents app) e\<rparr>)"
| "draw C (DReadGlobal g) app = Some (note_global_read app g)"
| "draw C (DGlobalChanged g) app = Some (global_changed app g)"
| "draw C (DReadState v) app = Some (note_state_read app v)"
| "draw C (DBump v) app = Some (state_bump app v)"
| "draw C (DReadOffset v k) app = Some (note_read C app v k)"
| "draw C DListBuilt app = Some (note_list_built C app)"
| "draw C (DReplay d) app = Some (replay_dependencies app d)"
| "draw C (DNested ops) app =
     do { let (r, app') = begin_recording_dependencies app;
          app'' \<leftarrow> draws C ops app';
          (_, app''') \<leftarrow> finish_recording_dependencies app'' r;
          Some app''' }"
| "draws C [] app = Some app"
| "draws C (op # ops) app = do { app' \<leftarrow> draw C op app; draws C ops app' }"

text \<open>The entities, globals and states an operation reads, all of them and outside nested subtrees.\<close>

fun all_entities :: "draw_op \<Rightarrow> entity_id set" where
  "all_entities (DReadEntity e) = {e}"
| "all_entities (DUpdateEntity e) = {e}"
| "all_entities (DReplay d) = set (rd_entities d)"
| "all_entities (DNested ops) = (\<Union>op\<in>set ops. all_entities op)"
| "all_entities _ = {}"

fun all_globals :: "draw_op \<Rightarrow> type_id set" where
  "all_globals (DReadGlobal g) = {g}"
| "all_globals (DReplay d) = set (rd_globals d)"
| "all_globals (DNested ops) = (\<Union>op\<in>set ops. all_globals op)"
| "all_globals _ = {}"

fun all_states :: "draw_op \<Rightarrow> state_id set" where
  "all_states (DReadState v) = {v}"
| "all_states (DReplay d) = fst ` set (rd_states d)"
| "all_states (DNested ops) = (\<Union>op\<in>set ops. all_states op)"
| "all_states _ = {}"

fun direct :: "draw_op \<Rightarrow> bool" where
  "direct (DReplay _) = False"
| "direct (DNested _) = False"
| "direct _ = True"

text \<open>\<open>opened app r outer inner all own\<close>: the innermost open recording \<open>r\<close>, nested in \<open>outer\<close>, with the stretches
  \<open>inner\<close> its nested subtrees took up, has seen \<open>all\<close>, of which \<open>own\<close> itself.\<close>

record footprint =
  fE :: "entity_id set"
  fG :: "type_id set"
  fS :: "(state_id \<times> 64 word) set"
  fO :: "offset_read set"

definition opened :: "app \<Rightarrow> dependency_recording \<Rightarrow> log_ranges list list \<Rightarrow> log_ranges list \<Rightarrow> footprint \<Rightarrow> footprint \<Rightarrow> bool" where
  "opened app r outer inner all own \<longleftrightarrow>
     recordings (ents app) = Suc (length outer) \<and> ol_recordings (offset_log app) = Suc (length outer)
     \<and> nested (deps app) = outer @ [inner]
     \<and> stretches (dr_entities r) (map lr_entities inner) (boundary (ents app))
     \<and> seg (access_log (ents app)) (dr_entities r) (map lr_entities inner) (fE all) (fE own)
     \<and> seg (global_read_log (deps app)) (dr_globals r) (map lr_globals inner) (fG all) (fG own)
     \<and> seg (state_read_log (deps app)) (dr_states r) (map lr_states inner) (fS all) (fS own)
     \<and> seg (ol_reads (offset_log app)) (dr_offset_reads r) (map lr_offset_reads inner) (fO all) (fO own)"

definition no_reads :: footprint where
  "no_reads = \<lparr>fE = {}, fG = {}, fS = {}, fO = {}\<rparr>"

text \<open>The logs only grow.\<close>

definition extends :: "app \<Rightarrow> app \<Rightarrow> bool" where
  "extends app app' \<longleftrightarrow> (\<exists>es gs ss os. access_log (ents app') = access_log (ents app) @ es
     \<and> global_read_log (deps app') = global_read_log (deps app) @ gs
     \<and> state_read_log (deps app') = state_read_log (deps app) @ ss
     \<and> ol_reads (offset_log app') = ol_reads (offset_log app) @ os)"

lemma extends_refl [simp]: "extends app app"
  by (simp add: extends_def)

lemma extends_trans: "extends a b \<Longrightarrow> extends b c \<Longrightarrow> extends a c"
  by (fastforce simp: extends_def)

lemma opened_cong:
  assumes "opened app r outer inner all own"
    and "deps app' = deps app\<lparr>global_generation := n, global_changed_at := f\<rparr>" "offset_log app' = offset_log app"
    and "access_log (ents app') = access_log (ents app)" "boundary (ents app') = boundary (ents app)"
      "recordings (ents app') = recordings (ents app)"
  shows "opened app' r outer inner all own \<and> extends app app'"
  using assms by (simp add: opened_def extends_def)

lemma stamp_changed_logs [simp]:
  "access_log (stamp_changed l e) = access_log l" "boundary (stamp_changed l e) = boundary l"
  "recordings (stamp_changed l e) = recordings l" "write_generation (stamp_changed l e) = write_generation l"
  by (simp_all add: stamp_changed_def)

lemma stamp_update_logs [simp]:
  "access_log (stamp_update l e) = access_log l" "boundary (stamp_update l e) = boundary l"
  "recordings (stamp_update l e) = recordings l"
  by (simp_all add: stamp_update_def)

lemma note_notify_logs [simp]:
  "access_log (note_notify l e) = access_log l" "boundary (note_notify l e) = boundary l"
  "recordings (note_notify l e) = recordings l"
  by (simp_all add: note_notify_def Let_def)

lemma note_access_logs [simp]:
  "boundary (note_access l e) = boundary l" "recordings (note_access l e) = recordings l"
  "rendering (note_access l e) = rendering l"
  by (simp_all add: note_access_def)

lemma note_update_logs [simp]:
  "access_log (note_update l e) = access_log (note_access l e)" "boundary (note_update l e) = boundary l"
  "recordings (note_update l e) = recordings l"
  by (simp_all add: note_update_def Let_def)

lemma access_ok:
  assumes o: "opened app r outer inner all own"
    and app': "deps app' = deps app" "offset_log app' = offset_log app" "boundary (ents app') = boundary (ents app)"
      "recordings (ents app') = recordings (ents app)" "access_log (ents app') = access_log (note_access (ents app) e)"
  shows "opened app' r outer inner (all\<lparr>fE := insert e (fE all)\<rparr>) (own\<lparr>fE := insert e (fE own)\<rparr>) \<and> extends app app'"
proof (cases "length (access_log (ents app)) > boundary (ents app) \<and> list_last (access_log (ents app)) = Some e")
  case True
  then have last: "last (access_log (ents app)) = e"
    by (auto simp: list_last_def split: if_splits)
  have e: "e \<in> fE own"
    using own_part_last [of "dr_entities r" "map lr_entities inner" "boundary (ents app)" "access_log (ents app)"] True last o
    by (auto simp: opened_def seg_def)
  have "dr_entities r < length (access_log (ents app))"
    using o True stretches_le by (fastforce simp: opened_def)
  then have "e \<in> fE all"
    using o last last_in_set [of "drop (dr_entities r) (access_log (ents app))"] by (auto simp: opened_def seg_def last_drop)
  with e True o app' show ?thesis
    by (simp add: opened_def note_access_def extends_def insert_absorb)
next
  case False
  then have "access_log (ents app') = access_log (ents app) @ [e]"
    using app' o by (auto simp: note_access_def opened_def)
  with o app'(1-4) seg_push show ?thesis
    by (auto simp: opened_def extends_def)
qed

lemma opened_pushes:
  assumes "opened app r outer inner all own"
  shows "opened (note_global_read app g) r outer inner (all\<lparr>fG := insert g (fG all)\<rparr>) (own\<lparr>fG := insert g (fG own)\<rparr>)
       \<and> extends app (note_global_read app g)"
    and "opened (note_state_read app v) r outer inner
           (all\<lparr>fS := insert (v, versions app v) (fS all)\<rparr>) (own\<lparr>fS := insert (v, versions app v) (fS own)\<rparr>)
       \<and> extends app (note_state_read app v)"
  using assms seg_push
  by (auto simp: opened_def extends_def note_global_read_def note_state_read_def is_recording_def)

lemma opened_offset_read:
  assumes "opened app r outer inner all own"
  shows "\<exists>os. opened (note_read C app v k) r outer inner (all\<lparr>fO := os \<union> fO all\<rparr>) (own\<lparr>fO := os \<union> fO own\<rparr>)
       \<and> extends app (note_read C app v k)"
proof (cases C)
  case True
  then show ?thesis
    using assms seg_push
    by (intro exI [of _ "{\<lparr>or_version = v, or_read_at = versions app v, or_read = k\<rparr>}"])
      (auto simp: opened_def extends_def note_read_def)
qed (use assms in \<open>auto simp: note_read_def intro!: exI [of _ "{}"]\<close>)

text \<open>A stretch of the logs that was read through a nested subtree.\<close>

lemma opened_nested:
  assumes o: "opened app r outer inner all own"
    and logs: "access_log (ents app') = access_log (ents app) @ es" "global_read_log (deps app') = global_read_log (deps app) @ gs"
      "state_read_log (deps app') = state_read_log (deps app) @ ss" "ol_reads (offset_log app') = ol_reads (offset_log app) @ os"
    and rest: "recordings (ents app') = recordings (ents app)" "ol_recordings (offset_log app') = ol_recordings (offset_log app)"
      "boundary (ents app') = length (access_log (ents app'))"
    and nest: "nested (deps app') = outer @ [inner @ [x]]"
      "lr_entities x = (length (access_log (ents app)), length (access_log (ents app')))"
      "lr_globals x = (length (global_read_log (deps app)), length (global_read_log (deps app')))"
      "lr_states x = (length (state_read_log (deps app)), length (state_read_log (deps app')))"
      "lr_offset_reads x = (length (ol_reads (offset_log app)), length (ol_reads (offset_log app')))"
  shows "opened app' r outer (inner @ [x])
      \<lparr>fE = fE all \<union> set es, fG = fG all \<union> set gs, fS = fS all \<union> set ss, fO = fO all \<union> set os\<rparr> own"
proof -
  note sn = seg_nested [of "access_log (ents app)" _ _ _ _ es] seg_nested [of "global_read_log (deps app)" _ _ _ _ gs]
    seg_nested [of "state_read_log (deps app)" _ _ _ _ ss] seg_nested [of "ol_reads (offset_log app)" _ _ _ _ os]
  have "seg (access_log (ents app')) (dr_entities r) (map lr_entities (inner @ [x])) (fE all \<union> set es) (fE own)"
    "seg (global_read_log (deps app')) (dr_globals r) (map lr_globals (inner @ [x])) (fG all \<union> set gs) (fG own)"
    "seg (state_read_log (deps app')) (dr_states r) (map lr_states (inner @ [x])) (fS all \<union> set ss) (fS own)"
    "seg (ol_reads (offset_log app')) (dr_offset_reads r) (map lr_offset_reads (inner @ [x])) (fO all \<union> set os) (fO own)"
    using o sn unfolding opened_def logs map_append list.map nest(2-5) by blast+
  then show ?thesis
    using o rest nest(1) by (simp add: opened_def seg_def)
qed

lemma push_nested_snoc [simp]: "push_nested x (outer @ [inner]) = outer @ [inner @ [x]]"
  by (simp add: push_nested_def)

lemma replay_ok:
  assumes o: "opened app r outer inner all own"
  shows "\<exists>inner' all'. opened (replay_dependencies app d) r outer inner' all' own \<and> extends app (replay_dependencies app d)
     \<and> fE all' = fE all \<union> set (rd_entities d) \<and> fG all' = fG all \<union> set (rd_globals d) \<and> fS all' = fS all \<union> set (rd_states d)"
proof -
  let ?app' = "replay_dependencies app d"
  have rec: "recordings (ents app) > 0" "ol_recordings (offset_log app) > 0" "nested (deps app) = outer @ [inner]"
    using o by (auto simp: opened_def)
  have logs: "access_log (ents ?app') = access_log (ents app) @ rd_entities d"
    "global_read_log (deps ?app') = global_read_log (deps app) @ rd_globals d"
    "state_read_log (deps ?app') = state_read_log (deps app) @ rd_states d"
    "ol_reads (offset_log ?app') = ol_reads (offset_log app) @ rd_offset_reads d"
    using rec by (simp_all add: replay_dependencies_def extend_accessed_recorded_def mark_access_boundary_def
        is_recording_def replay_offset_reads_def Let_def)
  have rest: "recordings (ents ?app') = recordings (ents app)" "ol_recordings (offset_log ?app') = ol_recordings (offset_log app)"
    "boundary (ents ?app') = length (access_log (ents ?app'))"
    using rec by (simp_all add: replay_dependencies_def extend_accessed_recorded_def mark_access_boundary_def
        is_recording_def replay_offset_reads_def Let_def)
  let ?x = "\<lparr>lr_entities = (length (access_log (ents app)), length (access_log (ents ?app'))),
    lr_globals = (length (global_read_log (deps app)), length (global_read_log (deps ?app'))),
    lr_states = (length (state_read_log (deps app)), length (state_read_log (deps ?app'))),
    lr_offset_reads = (length (ol_reads (offset_log app)), length (ol_reads (offset_log ?app')))\<rparr>"
  have "nested (deps ?app') = outer @ [inner @ [?x]]"
    using rec by (simp add: replay_dependencies_def extend_accessed_recorded_def mark_access_boundary_def
        is_recording_def replay_offset_reads_def Let_def)
  from opened_nested [OF o logs rest this] have "opened ?app' r outer (inner @ [?x])
      \<lparr>fE = fE all \<union> set (rd_entities d), fG = fG all \<union> set (rd_globals d), fS = fS all \<union> set (rd_states d),
       fO = fO all \<union> set (rd_offset_reads d)\<rparr> own" by simp
  moreover have "extends app ?app'"
    using logs by (auto simp: extends_def)
  ultimately show ?thesis by fastforce
qed

lemma begin_ok:
  assumes "recordings (ents app) = length (nested (deps app))" "ol_recordings (offset_log app) = length (nested (deps app))"
    and "begin_recording_dependencies app = (r, app')"
  shows "opened app' r (nested (deps app)) [] no_reads no_reads" "extends app app'"
    "access_log (ents app') = access_log (ents app)" "global_read_log (deps app') = global_read_log (deps app)"
    "state_read_log (deps app') = state_read_log (deps app)" "ol_reads (offset_log app') = ol_reads (offset_log app)"
    "dr_entities r = length (access_log (ents app))" "dr_globals r = length (global_read_log (deps app))"
    "dr_states r = length (state_read_log (deps app))" "dr_offset_reads r = length (ol_reads (offset_log app))"
  using assms
  by (auto simp: begin_recording_dependencies_def begin_recording_def begin_offset_reads_def mark_access_boundary_def Let_def
      opened_def no_reads_def seg_open extends_def)

lemma sort_unique_set: "sort_unique xs = sorted_list_of_set (set xs)"
proof (rule sorted_distinct_set_unique)
  have "sorted ys \<Longrightarrow> distinct (remdups_adj ys)" for ys :: "'a list"
    by (induction ys rule: remdups_adj.induct) auto
  then show "distinct (sort_unique xs)"
    by (simp add: sort_unique_def)
qed (simp_all add: sort_unique_def)

lemma unique_loop_ok:
  assumes "distinct (map fst us)"
  shows "distinct (map fst (unique_loop us ss)) \<and> fst ` set (unique_loop us ss) = fst ` set us \<union> fst ` set ss
     \<and> set (unique_loop us ss) \<subseteq> set us \<union> set ss"
  using assms
proof (induction ss arbitrary: us)
  case (Cons s ss)
  show ?case
  proof (cases "fst s \<in> fst ` set us")
    case True
    with Cons.IH [OF Cons.prems] show ?thesis by auto
  next
    case False
    with Cons.IH [of "us @ [s]"] Cons.prems show ?thesis by auto
  qed
qed simp

lemma dedup_states_ok:
  "distinct (map fst (dedup_states ss))" "fst ` set (dedup_states ss) = fst ` set ss" "set (dedup_states ss) \<subseteq> set ss"
  using unique_loop_ok [of "[]" ss] by (auto simp: dedup_states_def unique_states_def)

text \<open>Finishing a recording never panics and returns what it saw.\<close>

lemma finish_ok:
  assumes o: "opened app r outer inner all own"
  shows "\<exists>rec app'. finish_recording_dependencies app r = Some (rec, app')
     \<and> rd_entities (rec_all rec) = sorted_list_of_set (fE all) \<and> rd_entities (rec_own rec) = sorted_list_of_set (fE own)
     \<and> rd_globals (rec_all rec) = sorted_list_of_set (fG all) \<and> rd_globals (rec_own rec) = sorted_list_of_set (fG own)
     \<and> distinct (map fst (rd_states (rec_all rec))) \<and> set (rd_states (rec_all rec)) \<subseteq> fS all
     \<and> fst ` set (rd_states (rec_all rec)) = fst ` fS all \<and> fst ` set (rd_states (rec_own rec)) = fst ` fS own
     \<and> (\<forall>d \<in> {rec_all rec, rec_own rec}. rd_generation d = dr_generation r \<and> rd_updates d = dr_updates r
          \<and> w_from (rd_writes d) = dr_writes r \<and> w_to (rd_writes d) = write_generation (ents app)
          \<and> w_own (rd_writes d) = (if write_generation (ents app) > dr_writes r then [(dr_writes r, write_generation (ents app))] else []))
     \<and> ents app' = mark_access_boundary ((ents app)\<lparr>recordings := length outer, access_log := (if outer = [] then [] else access_log (ents app))\<rparr>)
     \<and> deps app' = (deps app)\<lparr>global_read_log := (if outer = [] then [] else global_read_log (deps app)),
          state_read_log := (if outer = [] then [] else state_read_log (deps app)),
          nested := push_nested \<lparr>lr_entities = (dr_entities r, length (access_log (ents app))),
            lr_globals = (dr_globals r, length (global_read_log (deps app))),
            lr_states = (dr_states r, length (state_read_log (deps app))),
            lr_offset_reads = (dr_offset_reads r, length (ol_reads (offset_log app)))\<rparr> outer\<rparr>
     \<and> offset_log app' = end_offset_reads (offset_log app) \<and> versions app' = versions app"
proof -
  have counts: "recordings (ents app) = Suc (length outer)" "nested (deps app) = outer @ [inner]"
    using o by (auto simp: opened_def)
  obtain es eo where E: "slice_range (access_log (ents app)) (dr_entities r) (length (access_log (ents app))) = Some es" "set es = fE all"
    "outside (access_log (ents app)) (dr_entities r, length (access_log (ents app))) (map lr_entities inner) = Some eo" "set eo = fE own"
    using seg_slice o unfolding opened_def by blast
  obtain gs go where G: "slice_range (global_read_log (deps app)) (dr_globals r) (length (global_read_log (deps app))) = Some gs" "set gs = fG all"
    "outside (global_read_log (deps app)) (dr_globals r, length (global_read_log (deps app))) (map lr_globals inner) = Some go" "set go = fG own"
    using seg_slice o unfolding opened_def by blast
  obtain ss so where S: "slice_range (state_read_log (deps app)) (dr_states r) (length (state_read_log (deps app))) = Some ss" "set ss = fS all"
    "outside (state_read_log (deps app)) (dr_states r, length (state_read_log (deps app))) (map lr_states inner) = Some so" "set so = fS own"
    "dr_states r \<ge> length (state_read_log (deps app)) \<longrightarrow> so = []"
    using seg_slice o unfolding opened_def by blast
  obtain os oo where O: "slice_range (ol_reads (offset_log app)) (dr_offset_reads r) (length (ol_reads (offset_log app))) = Some os"
    "outside (ol_reads (offset_log app)) (dr_offset_reads r, length (ol_reads (offset_log app))) (map lr_offset_reads inner) = Some oo"
    using seg_slice o unfolding opened_def by blast
  have S': "(if dr_states r \<ge> length (state_read_log (deps app)) then Some []
      else outside (state_read_log (deps app)) (dr_states r, length (state_read_log (deps app))) (map lr_states inner)) = Some so"
    using S by auto
  have S_empty: "length (state_read_log (deps app)) \<le> dr_states r \<longrightarrow> fst ` set (dedup_states []) = fst ` fS own"
    using S(4,5) by (auto simp: dedup_states_def)
  obtain x y where O': "offset_reads_in (offset_log app) (dr_offset_reads r, length (ol_reads (offset_log app))) (map lr_offset_reads inner) = Some (x, y)"
    using O by (cases "dr_offset_reads r \<ge> length (ol_reads (offset_log app))") (auto simp: offset_reads_in_def)
  show ?thesis
    using counts E G S(1-4) S' S_empty O' dedup_states_ok [of ss] dedup_states_ok(2) [of so]
    by (simp add: finish_recording_dependencies_def recorded_lists_def close_recording_def mark_access_boundary_def writes_while_open_def
        sort_unique_set Let_def)
qed

text \<open>Drawing never panics while a recording is open, and the recording sees exactly what is read.\<close>

definition saw :: "footprint \<Rightarrow> footprint \<Rightarrow> footprint \<Rightarrow> footprint \<Rightarrow> draw_op set \<Rightarrow> bool" where
  "saw all own all' own' ops \<longleftrightarrow>
     fE all' = fE all \<union> (\<Union>op\<in>ops. all_entities op) \<and> fE own' = fE own \<union> (\<Union>op\<in>{op \<in> ops. direct op}. all_entities op)
     \<and> fG all' = fG all \<union> (\<Union>op\<in>ops. all_globals op) \<and> fG own' = fG own \<union> (\<Union>op\<in>{op \<in> ops. direct op}. all_globals op)
     \<and> fst ` fS all' = fst ` fS all \<union> (\<Union>op\<in>ops. all_states op)
     \<and> fst ` fS own' = fst ` fS own \<union> (\<Union>op\<in>{op \<in> ops. direct op}. all_states op)"

lemma saw_nothing: "(\<And>op. op \<in> ops \<Longrightarrow> all_entities op = {} \<and> all_globals op = {} \<and> all_states op = {}) \<Longrightarrow> saw all own all own ops"
  by (auto simp: saw_def)

lemma saw_trans: "saw a b c d xs \<Longrightarrow> saw c d e f ys \<Longrightarrow> saw a b e f (xs \<union> ys)"
  by (auto simp: saw_def)

lemma opened_unchanged:
  assumes o: "opened app r outer inner all own" and op: "op \<in> {DNotify e, DRenderNext e, DGlobalChanged g, DBump v, DListBuilt}"
  shows "\<exists>app' inner' all' own'. draw C op app = Some app'
     \<and> opened app' r outer inner' all' own' \<and> extends app app' \<and> saw all own all' own' {op}"
proof -
  obtain app' where app': "draw C op app = Some app'" "opened app' r outer inner all own" "extends app app'"
    using o op by (auto simp: opened_def extends_def render_next_def global_changed_def deps_global_changed_def state_bump_def
        note_list_built_def)
  moreover have "saw all own all own {op}"
    using op by (intro saw_nothing) auto
  ultimately show ?thesis by blast
qed

lemma nested_draw_ok:
  assumes o: "opened app r outer inner all own" and b: "begin_recording_dependencies app = (r0, app0)"
    and o1: "opened app1 r0 (outer @ [inner]) inner1 all1 own1" and ext: "extends app0 app1"
  shows "\<exists>rec app2 inner2 all2. finish_recording_dependencies app1 r0 = Some (rec, app2) \<and> opened app2 r outer inner2 all2 own
     \<and> extends app app2 \<and> fE all2 = fE all \<union> fE all1 \<and> fG all2 = fG all \<union> fG all1 \<and> fS all2 = fS all \<union> fS all1"
proof -
  have nest: "nested (deps app) = outer @ [inner]" "recordings (ents app) = length (nested (deps app))"
      "ol_recordings (offset_log app) = length (nested (deps app))"
    using o by (simp_all add: opened_def)
  note bg = begin_ok [OF nest(2,3) b]
  obtain es gs ss os where logs: "access_log (ents app1) = access_log (ents app) @ es"
      "global_read_log (deps app1) = global_read_log (deps app) @ gs"
      "state_read_log (deps app1) = state_read_log (deps app) @ ss" "ol_reads (offset_log app1) = ol_reads (offset_log app) @ os"
    using ext by (auto simp: extends_def bg(3-6))
  have sets: "fE all1 = set es" "fG all1 = set gs" "fS all1 = set ss"
    using o1 by (auto simp: opened_def seg_def logs bg(7-10))
  obtain rec app2 where f: "finish_recording_dependencies app1 r0 = Some (rec, app2)"
      and f2: "ents app2 = mark_access_boundary ((ents app1)\<lparr>recordings := length (outer @ [inner]), access_log := access_log (ents app1)\<rparr>)"
        "deps app2 = (deps app1)\<lparr>global_read_log := global_read_log (deps app1), state_read_log := state_read_log (deps app1),
          nested := push_nested \<lparr>lr_entities = (dr_entities r0, length (access_log (ents app1))),
            lr_globals = (dr_globals r0, length (global_read_log (deps app1))),
            lr_states = (dr_states r0, length (state_read_log (deps app1))),
            lr_offset_reads = (dr_offset_reads r0, length (ol_reads (offset_log app1)))\<rparr> (outer @ [inner])\<rparr>"
        "offset_log app2 = end_offset_reads (offset_log app1)"
    using finish_ok [OF o1] by auto
  have "ol_recordings (offset_log app1) = Suc (Suc (length outer))"
    using o1 by (simp add: opened_def)
  then have "ol_reads (offset_log app2) = ol_reads (offset_log app1)" "ol_recordings (offset_log app2) = Suc (length outer)"
    by (simp_all add: f2(3) end_offset_reads_def Let_def)
  moreover have "opened app2 r outer (inner @ [\<lparr>lr_entities = (dr_entities r0, length (access_log (ents app1))),
            lr_globals = (dr_globals r0, length (global_read_log (deps app1))),
            lr_states = (dr_states r0, length (state_read_log (deps app1))),
            lr_offset_reads = (dr_offset_reads r0, length (ol_reads (offset_log app1)))\<rparr>])
      \<lparr>fE = fE all \<union> set es, fG = fG all \<union> set gs, fS = fS all \<union> set ss, fO = fO all \<union> set os\<rparr> own"
    by (rule opened_nested [OF o]) (use logs nest calculation in \<open>simp_all add: f2(1,2) mark_access_boundary_def bg(7-10)\<close>)
  moreover have "extends app app2"
    using logs calculation(1) by (auto simp: extends_def f2(1,2) mark_access_boundary_def)
  ultimately show ?thesis
    using f sets by fastforce
qed

lemma draw_ok:
  "opened app r outer inner all own \<Longrightarrow> \<exists>app' inner' all' own'. draw C op app = Some app'
     \<and> opened app' r outer inner' all' own' \<and> extends app app' \<and> saw all own all' own' {op}"
  "opened app r outer inner all own \<Longrightarrow> \<exists>app' inner' all' own'. draws C ops app = Some app'
     \<and> opened app' r outer inner' all' own' \<and> extends app app' \<and> saw all own all' own' (set ops)"
proof (induction C op app and C ops app arbitrary: r outer inner all own and r outer inner all own rule: draw_draws.induct)
  case (1 C e app)
  from access_ok [OF 1, of "app\<lparr>ents := note_access (ents app) e\<rparr>" e] show ?case
    by (intro exI conjI) (auto simp: saw_def)
next
  case (2 C e app)
  from access_ok [OF 2, of "app\<lparr>ents := note_update (ents app) e\<rparr>" e] show ?case
    by (intro exI conjI) (auto simp: saw_def)
next
  case (3 C e app)
  then show ?case
    by (rule opened_unchanged) simp
next
  case (4 C e app)
  then show ?case
    by (rule opened_unchanged) simp
next
  case (5 C g app)
  from opened_pushes(1) [OF 5, of g] show ?case
    by (intro exI conjI) (auto simp: saw_def)
next
  case (6 C g app)
  then show ?case
    by (rule opened_unchanged) simp
next
  case (7 C v app)
  from opened_pushes(2) [OF 7, of v] show ?case
    by (intro exI conjI) (auto simp: saw_def)
next
  case (8 C v app)
  then show ?case
    by (rule opened_unchanged) simp
next
  case (9 C v k app)
  from opened_offset_read [OF 9, of C v k] obtain os where
    "opened (note_read C app v k) r outer inner (all\<lparr>fO := os \<union> fO all\<rparr>) (own\<lparr>fO := os \<union> fO own\<rparr>)"
    "extends app (note_read C app v k)" by blast
  moreover have "saw all own (all\<lparr>fO := os \<union> fO all\<rparr>) (own\<lparr>fO := os \<union> fO own\<rparr>) {DReadOffset v k}"
    by (simp add: saw_def)
  ultimately show ?case
    unfolding draw.simps by blast
next
  case (10 C app)
  then show ?case
    by (rule opened_unchanged) simp
next
  case (11 C d app)
  from replay_ok [OF 11, of d] obtain inner' all' where
    a: "opened (replay_dependencies app d) r outer inner' all' own" "extends app (replay_dependencies app d)"
      "fE all' = fE all \<union> set (rd_entities d)" "fG all' = fG all \<union> set (rd_globals d)" "fS all' = fS all \<union> set (rd_states d)" by blast
  then have "saw all own all' own {DReplay d}"
    by (simp add: saw_def image_Un)
  with a(1,2) show ?case
    unfolding draw.simps by blast
next
  case (12 C ops app)
  obtain r0 app0 where b: "begin_recording_dependencies app = (r0, app0)" by (metis surj_pair)
  have nest: "nested (deps app) = outer @ [inner]" "recordings (ents app) = length (nested (deps app))"
      "ol_recordings (offset_log app) = length (nested (deps app))"
    using "12.prems" by (simp_all add: opened_def)
  note bg = begin_ok [OF nest(2,3) b]
  from "12.IH" [OF _ b [symmetric] bg(1)] b obtain app1 inner1 all1 own1 where
    1: "draws C ops app0 = Some app1" "opened app1 r0 (outer @ [inner]) inner1 all1 own1" "extends app0 app1"
      "saw no_reads no_reads all1 own1 (set ops)" unfolding nest(1) by blast
  from nested_draw_ok [OF "12.prems" b 1(2,3)] obtain rec app2 inner2 all2 where
    2: "finish_recording_dependencies app1 r0 = Some (rec, app2)" "opened app2 r outer inner2 all2 own" "extends app app2"
      "fE all2 = fE all \<union> fE all1" "fG all2 = fG all \<union> fG all1" "fS all2 = fS all \<union> fS all1" by blast
  have "saw all own all2 own {DNested ops}"
    using 1(4) 2(4-6) by (simp add: saw_def no_reads_def image_Un)
  with b 1(1) 2 show ?case
    by auto
next
  case (13 C app)
  then show ?case
    by (auto intro: saw_nothing)
next
  case (14 C op ops app)
  from "14.IH"(1) [OF "14.prems"] obtain app1 inner1 all1 own1 where
    1: "draw C op app = Some app1" "opened app1 r outer inner1 all1 own1" "extends app app1" "saw all own all1 own1 {op}" by blast
  from "14.IH"(2) [OF 1(1,2)] obtain app2 inner2 all2 own2 where
    2: "draws C ops app1 = Some app2" "opened app2 r outer inner2 all2 own2" "extends app1 app2" "saw all1 own1 all2 own2 (set ops)" by blast
  have "saw all own all2 own2 (set (op # ops))"
    using saw_trans [OF 1(4) 2(4)] by simp
  with 1 2 extends_trans [OF 1(3) 2(3)] show ?case
    by auto
qed

section \<open>Changes are noticed\<close>

text \<open>Every stamp is at most its generation.\<close>

definition stamps_ok :: "app \<Rightarrow> bool" where
  "stamps_ok app \<longleftrightarrow>
     (\<forall>e at. changed_at (ents app) e = Some at \<longrightarrow> at \<le> update_generation (ents app))
     \<and> (\<forall>e at. updated_at (ents app) e = Some at \<longrightarrow> at \<le> update_generation (ents app))
     \<and> (\<forall>e at. written_at (ents app) e = Some at \<longrightarrow> at \<le> write_generation (ents app))
     \<and> (\<forall>g at. global_changed_at (deps app) g = Some at \<longrightarrow> at \<le> global_generation (deps app))"

text \<open>The steps of the app as far as they touch the stamps: everything but releasing the entity \<open>e\<close>.\<close>

inductive app_step :: "entity_id \<Rightarrow> app \<Rightarrow> app \<Rightarrow> bool" for e where
  step_access: "app_step e app (app\<lparr>ents := note_access (ents app) x\<rparr>)"
| step_update: "app_step e app (app\<lparr>ents := note_update (ents app) x\<rparr>)"
| step_notify: "app_step e app (app\<lparr>ents := note_notify (ents app) x\<rparr>)"
| step_render_next: "app_step e app (app\<lparr>ents := render_next (ents app) x\<rparr>)"
| step_forget: "x \<noteq> e \<Longrightarrow> app_step e app (app\<lparr>ents := forget (ents app) x\<rparr>)"
| step_query: "app_step e app (app\<lparr>ents := (ents app)\<lparr>queried := q\<rparr>\<rparr>)"
| step_global: "app_step e app (global_changed app g)"
| step_bump: "app_step e app (state_bump app v)"
| step_read_global: "app_step e app (note_global_read app g)"
| step_read_state: "app_step e app (note_state_read app v)"
| step_read_offset: "app_step e app (note_read C app v k)"
| step_replay: "app_step e app (replay_dependencies app d)"
| step_begin: "begin_recording_dependencies app = (r, app') \<Longrightarrow> app_step e app app'"
| step_finish: "finish_recording_dependencies app r = Some (rec, app') \<Longrightarrow> app_step e app app'"

abbreviation app_steps :: "entity_id \<Rightarrow> app \<Rightarrow> app \<Rightarrow> bool" where
  "app_steps e \<equiv> (app_step e)\<^sup>*\<^sup>*"

text \<open>What a step keeps: generations never fall, stamps never fall, and an update not yet notified stays so
  until the entity is stamped as changed.\<close>

definition later :: "('k \<rightharpoonup> nat) \<Rightarrow> ('k \<rightharpoonup> nat) \<Rightarrow> 'k \<Rightarrow> bool" where
  "later m m' k \<longleftrightarrow> (\<forall>at. m k = Some at \<longrightarrow> (\<exists>at'\<ge>at. m' k = Some at'))"

definition kept :: "entity_id \<Rightarrow> app \<Rightarrow> app \<Rightarrow> bool" where
  "kept e app app' \<longleftrightarrow>
     update_generation (ents app) \<le> update_generation (ents app') \<and> write_generation (ents app) \<le> write_generation (ents app')
     \<and> global_generation (deps app) \<le> global_generation (deps app')
     \<and> later (changed_at (ents app)) (changed_at (ents app')) e \<and> later (updated_at (ents app)) (updated_at (ents app')) e
     \<and> later (written_at (ents app)) (written_at (ents app')) e
     \<and> (\<forall>g. later (global_changed_at (deps app)) (global_changed_at (deps app')) g)
     \<and> (e \<in> updated_unnotified (ents app) \<longrightarrow>
          e \<in> updated_unnotified (ents app') \<or> (\<exists>at>update_generation (ents app). changed_at (ents app') e = Some at))"

lemma later_refl [simp]: "later m m k"
  by (auto simp: later_def)

lemma later_trans: "later a b k \<Longrightarrow> later b c k \<Longrightarrow> later a c k"
  by (fastforce simp: later_def)

lemma later_stamp: "(\<And>k at. m k = Some at \<Longrightarrow> at \<le> n) \<Longrightarrow> n \<le> n' \<Longrightarrow> later m (m(x \<mapsto> n')) k"
  by (auto simp: later_def intro: le_trans)

text \<open>The stamps of the app; the operations on the logs leave them alone.\<close>

definition same_stamps :: "app \<Rightarrow> app \<Rightarrow> bool" where
  "same_stamps app app' \<longleftrightarrow>
     update_generation (ents app') = update_generation (ents app) \<and> write_generation (ents app') = write_generation (ents app)
     \<and> changed_at (ents app') = changed_at (ents app) \<and> updated_at (ents app') = updated_at (ents app)
     \<and> written_at (ents app') = written_at (ents app) \<and> updated_unnotified (ents app') = updated_unnotified (ents app)
     \<and> global_generation (deps app') = global_generation (deps app) \<and> global_changed_at (deps app') = global_changed_at (deps app)"

lemma same_stamps_kept: "same_stamps app app' \<Longrightarrow> stamps_ok app \<Longrightarrow> stamps_ok app' \<and> kept e app app'"
  by (simp add: same_stamps_def stamps_ok_def kept_def)

lemma log_steps_same_stamps:
  "same_stamps app (app\<lparr>ents := note_access (ents app) x\<rparr>)"
  "same_stamps app (app\<lparr>ents := render_next (ents app) x\<rparr>)"
  "same_stamps app (app\<lparr>ents := (ents app)\<lparr>queried := q\<rparr>\<rparr>)"
  "same_stamps app (state_bump app v)" "same_stamps app (note_global_read app g)"
  "same_stamps app (note_state_read app v)" "same_stamps app (note_read C app v k)"
  "same_stamps app (replay_dependencies app d)"
  by (simp_all add: same_stamps_def note_access_def render_next_def state_bump_def note_global_read_def note_state_read_def
      note_read_def replay_dependencies_def extend_accessed_recorded_def mark_access_boundary_def replay_offset_reads_def Let_def)

lemma begin_same_stamps: "begin_recording_dependencies app = (r, app') \<Longrightarrow> same_stamps app app'"
  by (auto simp: same_stamps_def begin_recording_dependencies_def begin_recording_def begin_offset_reads_def
      mark_access_boundary_def Let_def)

lemma close_recording_stamps:
  "close_recording log = Some log' \<Longrightarrow> \<exists>xs b n. log' = log\<lparr>recordings := n, access_log := xs, boundary := b\<rparr>"
  by (cases log) (auto simp: close_recording_def mark_access_boundary_def Let_def split: if_splits)

lemma finish_same_stamps: "finish_recording_dependencies app r = Some (rec, app') \<Longrightarrow> same_stamps app app'"
  by (auto simp: same_stamps_def finish_recording_dependencies_def Let_def dest!: close_recording_stamps
      split: bind_splits if_splits option.splits prod.splits)

lemma kept_refl [simp]: "kept e app app"
  by (auto simp: kept_def)

lemma kept_trans: "kept e a b \<Longrightarrow> kept e b c \<Longrightarrow> kept e a c"
proof -
  assume ab: "kept e a b" and bc: "kept e b c"
  have "e \<in> updated_unnotified (ents c) \<or> (\<exists>at>update_generation (ents a). changed_at (ents c) e = Some at)"
    if "e \<in> updated_unnotified (ents a)"
  proof (cases "e \<in> updated_unnotified (ents b)")
    case True
    with ab bc show ?thesis
      by (auto simp: kept_def)
  next
    case False
    with ab that obtain at where "at > update_generation (ents a)" "changed_at (ents b) e = Some at"
      by (auto simp: kept_def)
    with bc show ?thesis
      by (auto simp: kept_def later_def)
  qed
  with ab bc show "kept e a c"
    unfolding kept_def by (blast intro: later_trans le_trans)
qed

lemma stamp_changed_kept:
  assumes "stamps_ok app"
  shows "stamps_ok (app\<lparr>ents := stamp_changed (ents app) x\<rparr>) \<and> kept e app (app\<lparr>ents := stamp_changed (ents app) x\<rparr>)"
proof -
  have "\<And>k at. changed_at (ents app) k = Some at \<Longrightarrow> at \<le> update_generation (ents app)"
    using assms by (simp add: stamps_ok_def)
  then have "later (changed_at (ents app)) ((changed_at (ents app))(x \<mapsto> Suc (update_generation (ents app)))) e"
    by (rule later_stamp) simp_all
  with assms show ?thesis
    by (auto simp: stamps_ok_def kept_def stamp_changed_def le_SucI)
qed

lemma stamp_update_kept:
  assumes "stamps_ok app"
  shows "stamps_ok (app\<lparr>ents := stamp_update (ents app) x\<rparr>) \<and> kept e app (app\<lparr>ents := stamp_update (ents app) x\<rparr>)"
proof -
  have "later (updated_at (ents app)) ((updated_at (ents app))(x \<mapsto> Suc (update_generation (ents app)))) e"
    using assms by (intro later_stamp [of _ "update_generation (ents app)"]) (auto simp: stamps_ok_def)
  moreover have "later (written_at (ents app)) ((written_at (ents app))(x \<mapsto> Suc (write_generation (ents app)))) e"
    using assms by (intro later_stamp [of _ "write_generation (ents app)"]) (auto simp: stamps_ok_def)
  ultimately show ?thesis
    using assms by (auto simp: stamps_ok_def kept_def stamp_update_def le_SucI)
qed

lemma note_update_kept:
  assumes "stamps_ok app"
  shows "stamps_ok (app\<lparr>ents := note_update (ents app) x\<rparr>) \<and> kept e app (app\<lparr>ents := note_update (ents app) x\<rparr>)"
proof -
  let ?a = "app\<lparr>ents := note_access (ents app) x\<rparr>" and ?b = "app\<lparr>ents := (note_access (ents app) x)\<lparr>rendering := None\<rparr>\<rparr>"
  have "same_stamps app ?a" "same_stamps app ?b"
    by (simp_all add: same_stamps_def note_access_def)
  then have a: "stamps_ok ?a \<and> kept e app ?a" and b: "stamps_ok ?b \<and> kept e app ?b"
    using same_stamps_kept assms by blast+
  have a': "stamps_ok (?a\<lparr>ents := stamp_update (ents ?a) x\<rparr>) \<and> kept e app (?a\<lparr>ents := stamp_update (ents ?a) x\<rparr>)"
    using a stamp_update_kept [of ?a x e] kept_trans by blast
  have b': "stamps_ok (?b\<lparr>ents := stamp_update (ents ?b) x\<rparr>) \<and> kept e app (?b\<lparr>ents := stamp_update (ents ?b) x\<rparr>)"
    using b stamp_update_kept [of ?b x e] kept_trans by blast
  show ?thesis
    using a' b b' by (simp add: note_update_def Let_def)
qed

lemma note_notify_kept:
  assumes "stamps_ok app"
  shows "stamps_ok (app\<lparr>ents := note_notify (ents app) x\<rparr>) \<and> kept e app (app\<lparr>ents := note_notify (ents app) x\<rparr>)"
proof (cases "x \<in> updated_unnotified (ents app) \<or> recordings (ents app) > 0 \<or> queried (ents app) \<noteq> None")
  case True
  let ?l = "(ents app)\<lparr>updated_unnotified := updated_unnotified (ents app) - {x}\<rparr>"
  have "note_notify (ents app) x = stamp_changed ?l x"
    using True by (auto simp: note_notify_def Let_def)
  moreover have "later (changed_at (ents app)) ((changed_at (ents app))(x \<mapsto> Suc (update_generation (ents app)))) e"
    using assms by (intro later_stamp [of _ "update_generation (ents app)"]) (auto simp: stamps_ok_def)
  ultimately show ?thesis
    using assms by (auto simp: stamps_ok_def kept_def stamp_changed_def le_SucI)
next
  case False
  then have "note_notify (ents app) x = ents app"
    by (simp add: note_notify_def Let_def)
  with assms show ?thesis by simp
qed

lemma global_changed_kept:
  assumes "stamps_ok app"
  shows "stamps_ok (global_changed app g) \<and> kept e app (global_changed app g)"
proof -
  have "later (global_changed_at (deps app)) ((global_changed_at (deps app))(g \<mapsto> Suc (global_generation (deps app)))) k" for k
    using assms by (intro later_stamp [of _ "global_generation (deps app)"]) (auto simp: stamps_ok_def)
  with assms show ?thesis
    by (auto simp: stamps_ok_def kept_def global_changed_def deps_global_changed_def le_SucI)
qed

lemmas log_steps_kept = log_steps_same_stamps [THEN same_stamps_kept]

lemma app_step_kept: "app_step e app app' \<Longrightarrow> stamps_ok app \<Longrightarrow> stamps_ok app' \<and> kept e app app'"
proof (induction rule: app_step.induct)
  case (step_forget x app)
  then show ?case
    by (auto simp: stamps_ok_def kept_def forget_def later_def)
next
  case (step_begin app r app')
  from same_stamps_kept [OF begin_same_stamps [OF step_begin.hyps] step_begin.prems] show ?case .
next
  case (step_finish app r rec app')
  from same_stamps_kept [OF finish_same_stamps [OF step_finish.hyps] step_finish.prems] show ?case .
qed (rule log_steps_kept note_update_kept note_notify_kept global_changed_kept, assumption)+

lemma app_steps_kept: "app_steps e app app' \<Longrightarrow> stamps_ok app \<Longrightarrow> stamps_ok app' \<and> kept e app app'"
proof (induction rule: rtranclp_induct)
  case (step b c)
  with app_step_kept kept_trans show ?case by blast
qed simp

text \<open>A stamp after the generation of the dependencies is noticed.\<close>

lemma changed_noticed:
  assumes "stamps_ok app" "e \<in> set (rd_entities d)" "changed_at (ents app) e = Some at" "at > rd_updates d"
  shows "dependencies_changed app d b" "notified_dependencies_changed app d"
proof -
  have "rd_updates d < update_generation (ents app)"
    using assms(1,3,4) by (fastforce simp: stamps_ok_def)
  moreover have "after (changed_at (ents app)) (rd_updates d) e"
    using assms(3,4) by (simp add: after_def)
  ultimately have "changed_since (ents app) (rd_entities d) (rd_updates d) u" for u
    using assms(2) by (auto simp: changed_since_def list_ex_iff)
  then show "dependencies_changed app d b" "notified_dependencies_changed app d"
    by (simp_all add: dependencies_changed_def notified_dependencies_changed_def)
qed

lemma updated_then_notified:
  assumes ok: "stamps_ok app" and e: "e \<in> set (rd_entities d)" "rd_updates d \<le> update_generation (ents app)"
    and up: "recordings (ents app) = 0" "queried (ents app) \<noteq> Some e"
    and s1: "app_steps e (app\<lparr>ents := note_update (ents app) e\<rparr>) app1"
    and s2: "app_steps e (app1\<lparr>ents := note_notify (ents app1) e\<rparr>) app2"
  shows "dependencies_changed app2 d b" "notified_dependencies_changed app2 d"
proof -
  let ?app0 = "app\<lparr>ents := note_update (ents app) e\<rparr>" and ?app1' = "app1\<lparr>ents := note_notify (ents app1) e\<rparr>"
  have 0: "e \<in> updated_unnotified (ents ?app0)" "update_generation (ents ?app0) > rd_updates d"
    using up e(2) by (auto simp: note_update_def stamp_update_def note_access_def Let_def)
  have ok0: "stamps_ok ?app0"
    using note_update_kept [OF ok] by blast
  from app_steps_kept [OF s1 ok0] have 1: "stamps_ok app1" "kept e ?app0 app1"
    by blast+
  have ok1: "stamps_ok ?app1'"
    using note_notify_kept [OF 1(1)] by blast
  have "\<exists>at>rd_updates d. changed_at (ents ?app1') e = Some at"
  proof (cases "e \<in> updated_unnotified (ents app1)")
    case True
    then have "changed_at (ents ?app1') e = Some (Suc (update_generation (ents app1)))"
      by (simp add: note_notify_def stamp_changed_def Let_def)
    moreover have "update_generation (ents app1) \<ge> update_generation (ents ?app0)"
      using 1(2) by (simp add: kept_def)
    ultimately show ?thesis
      using 0(2) by auto
  next
    case False
    with 1(2) 0 obtain at where "at > rd_updates d" "changed_at (ents app1) e = Some at"
      by (auto simp: kept_def)
    moreover have "kept e app1 ?app1'"
      using note_notify_kept [OF 1(1)] by blast
    ultimately show ?thesis
      by (auto simp: kept_def later_def)
  qed
  then obtain at where at: "at > rd_updates d" "changed_at (ents ?app1') e = Some at" by blast
  from app_steps_kept [OF s2 ok1] have 2: "stamps_ok app2" "kept e ?app1' app2"
    by blast+
  then obtain at' where "at' \<ge> at" "changed_at (ents app2) e = Some at'"
    using at(2) by (auto simp: kept_def later_def)
  then show "dependencies_changed app2 d b" "notified_dependencies_changed app2 d"
    using changed_noticed [OF 2(1) e(1)] at(1) by auto
qed

text \<open>The write generation of dependencies as a recording leaves them: it wrote everything up to \<open>w_to\<close>.\<close>

definition writes_ok :: "writes \<Rightarrow> nat \<Rightarrow> bool" where
  "writes_ok w now \<longleftrightarrow> w_from w \<le> w_to w \<and> w_to w \<le> now \<and> (\<forall>(began, finished)\<in>set (w_own w). finished \<le> w_to w)
     \<and> (\<forall>at. w_from w < at \<and> at \<le> w_to w \<longrightarrow> (\<exists>(began, finished)\<in>set (w_own w). began < at \<and> at \<le> finished))"

lemma writes_while_open_ok: "dr_writes r \<le> write_generation l \<Longrightarrow> writes_ok (writes_while_open r l) (write_generation l)"
  by (auto simp: writes_ok_def writes_while_open_def Let_def)

lemma is_foreign_iff:
  assumes "writes_ok w now"
  shows "is_foreign w at \<longleftrightarrow> at > w_to w"
proof (cases "at > w_to w")
  case True
  with assms have "\<not> (began < at \<and> at \<le> finished)" if "(began, finished) \<in> set (w_own w)" for began finished
    using that by (fastforce simp: writes_ok_def)
  with True assms show ?thesis
    by (auto simp: is_foreign_def writes_ok_def list_ex_iff)
next
  case False
  with assms show ?thesis
    by (fastforce simp: is_foreign_def writes_ok_def list_ex_iff)
qed

lemma written_noticed:
  assumes ok: "stamps_ok app" and e: "e \<in> set (rd_entities d)" and w: "writes_ok (rd_writes d) (write_generation (ents app))"
    and up: "recordings (ents app) > 0" "queried (ents app) \<noteq> Some e" "rendering (ents app) \<noteq> Some e"
    and s: "app_steps e (app\<lparr>ents := note_update (ents app) e\<rparr>) app'"
  shows "dependencies_changed app' d b"
proof -
  let ?app0 = "app\<lparr>ents := note_update (ents app) e\<rparr>"
  have 0: "written_at (ents ?app0) e = Some (Suc (write_generation (ents app)))"
    using up by (auto simp: note_update_def stamp_update_def note_access_def Let_def)
  have "stamps_ok ?app0"
    using note_update_kept [OF ok] by blast
  from app_steps_kept [OF s this] 0 obtain at where at: "stamps_ok app'" "written_at (ents app') e = Some at"
      "at > write_generation (ents app)"
    by (auto simp: kept_def later_def Suc_le_eq)
  then have "at > w_to (rd_writes d)" "write_generation (ents app') > w_to (rd_writes d)"
    using w by (fastforce simp: writes_ok_def stamps_ok_def)+
  then have "written_since (ents app') (rd_entities d) (rd_writes d)"
    using e at(2) is_foreign_iff [OF w, of at] by (auto simp: written_since_def list_ex_iff intro!: bexI [of _ e])
  then show ?thesis
    by (simp add: dependencies_changed_def)
qed

lemma global_noticed:
  assumes ok: "stamps_ok app" and g: "g \<in> set (rd_globals d)" "rd_generation d \<le> global_generation (deps app)"
    and s: "app_steps e (global_changed app g) app'"
  shows "dependencies_changed app' d b" "notified_dependencies_changed app' d"
proof -
  have "stamps_ok (global_changed app g)"
    using global_changed_kept [OF ok] by blast
  from app_steps_kept [OF s this] have "later (global_changed_at (deps (global_changed app g))) (global_changed_at (deps app')) g"
    by (simp add: kept_def)
  then obtain at where "global_changed_at (deps app') g = Some at" "at > rd_generation d"
    using g(2) by (auto simp: later_def global_changed_def deps_global_changed_def)
  then have "globals_or_states_changed app' d"
    using g(1) by (auto simp: globals_or_states_changed_def list_ex_iff intro!: bexI [of _ g])
  then show "dependencies_changed app' d b" "notified_dependencies_changed app' d"
    by (simp_all add: dependencies_changed_def notified_dependencies_changed_def)
qed

text \<open>A state's counter wraps, so fewer than \<open>2^64\<close> changes of it are noticed.\<close>

lemma state_noticed:
  assumes "(v, n) \<in> set (rd_states d)" "versions app' v = n + of_nat k" "0 < k" "k < 2 ^ 64"
  shows "dependencies_changed app' d b"
proof -
  have "(of_nat k :: 64 word) \<noteq> 0"
    using assms(3,4) by (auto simp: word_of_nat_eq_0_iff dest: dvd_imp_le)
  with assms(2) have "versions app' v \<noteq> n"
    by simp
  with assms(1) show ?thesis
    by (auto simp: dependencies_changed_def globals_or_states_changed_def list_ex_iff)
qed

text \<open>For recorded dependencies the shortcuts on the generations never hide a change.\<close>

lemma dependencies_changed_iff:
  assumes ok: "stamps_ok app" and w: "writes_ok (rd_writes d) (write_generation (ents app))"
  shows "dependencies_changed app d inside \<longleftrightarrow>
     (\<exists>e\<in>set (rd_entities d). (\<exists>at>rd_updates d. changed_at (ents app) e = Some at)
        \<or> inside \<and> (\<exists>at>rd_updates d. updated_at (ents app) e = Some at)
        \<or> (\<exists>at>w_to (rd_writes d). written_at (ents app) e = Some at))
     \<or> (\<exists>g\<in>set (rd_globals d). \<exists>at>rd_generation d. global_changed_at (deps app) g = Some at)
     \<or> (\<exists>(v, n)\<in>set (rd_states d). versions app v \<noteq> n)"
proof -
  have "changed_since (ents app) (rd_entities d) (rd_updates d) inside \<longleftrightarrow>
     (\<exists>e\<in>set (rd_entities d). (\<exists>at>rd_updates d. changed_at (ents app) e = Some at)
        \<or> inside \<and> (\<exists>at>rd_updates d. updated_at (ents app) e = Some at))"
    using ok by (fastforce simp: changed_since_def after_def list_ex_iff stamps_ok_def split: option.splits)
  moreover have "written_since (ents app) (rd_entities d) (rd_writes d) \<longleftrightarrow>
     (\<exists>e\<in>set (rd_entities d). \<exists>at>w_to (rd_writes d). written_at (ents app) e = Some at)"
    using ok unfolding written_since_def list_ex_iff is_foreign_iff [OF w] stamps_ok_def
    by (fastforce split: option.splits)
  moreover have "globals_or_states_changed app d \<longleftrightarrow>
     (\<exists>g\<in>set (rd_globals d). \<exists>at>rd_generation d. global_changed_at (deps app) g = Some at)
     \<or> (\<exists>(v, n)\<in>set (rd_states d). versions app v \<noteq> n)"
    by (fastforce simp: globals_or_states_changed_def list_ex_iff split: option.splits)
  ultimately show ?thesis
    unfolding dependencies_changed_def by blast
qed

section \<open>The union\<close>

text \<open>Strictly ascending lists, as recordings leave them.\<close>

abbreviation ascending :: "'a::linorder list \<Rightarrow> bool" where
  "ascending xs \<equiv> sorted_wrt (<) xs"

lemma ascending_rest:
  assumes "ascending (xs :: 'a::linorder list)" "x \<in> set xs"
  shows "ascending (tl (dropWhile (\<lambda>y. y \<noteq> x) xs)) \<and> set (tl (dropWhile (\<lambda>y. y \<noteq> x) xs)) = {y \<in> set xs. y > x}"
  using assms by (induction xs) auto

lemma contains_all_iff: "ascending rest \<Longrightarrow> ascending some \<Longrightarrow> contains_all rest some \<longleftrightarrow> set some \<subseteq> set rest"
proof (induction rest some rule: contains_all.induct)
  case (2 rest item some)
  show ?case
  proof (cases "item \<in> set rest")
    case True
    have "contains_all (tl (dropWhile (\<lambda>x. x \<noteq> item) rest)) some \<longleftrightarrow> set some \<subseteq> {y \<in> set rest. y > item}"
      using 2 True ascending_rest [OF "2.prems"(1) True] by auto
    with True "2.prems"(2) show ?thesis by auto
  qed auto
qed simp

lemma merge_loop_ok:
  assumes "ascending a" "ascending b"
  shows "ascending (merge_loop a b)" "set (merge_loop a b) = set a \<union> set b"
proof -
  show s: "set (merge_loop a b) = set a \<union> set b" for a b :: "'a list"
    by (induction a b rule: merge_loop.induct) (auto split: ordering.split)
  show "ascending (merge_loop a b)"
    using assms
  proof (induction a b rule: merge_loop.induct)
    case (3 x a y b)
    then show ?case
      by (auto simp: s ord_cmp_def not_less less_le split: if_splits)
  qed auto
qed

lemma merge_sorted_ok:
  assumes "ascending a" "ascending b"
  shows "ascending (merge_sorted a b)" "set (merge_sorted a b) = set a \<union> set b"
  using assms merge_loop_ok [OF assms] contains_all_iff [OF assms] contains_all_iff [OF assms(2,1)]
  by (auto simp: merge_sorted_def)

text \<open>A notified entity or a written global that either of two dependencies would notice is noticed by their
  union.\<close>

lemma union_entities:
  assumes "ascending (rd_entities a)" "ascending (rd_entities b)"
  shows "set (rd_entities (dependencies_union a b)) = set (rd_entities a) \<union> set (rd_entities b)"
    and "ascending (rd_globals a) \<Longrightarrow> ascending (rd_globals b) \<Longrightarrow>
      set (rd_globals (dependencies_union a b)) = set (rd_globals a) \<union> set (rd_globals b)"
  using merge_sorted_ok(2) [OF assms] merge_sorted_ok(2) [of "rd_globals a" "rd_globals b"]
  by (auto simp: dependencies_union_def Let_def)

lemma union_generations:
  assumes "rd_entities b \<noteq> [] \<or> rd_globals b \<noteq> []"
  shows "rd_updates (dependencies_union a b) = min (rd_updates a) (rd_updates b)"
    "rd_generation (dependencies_union a b) = min (rd_generation a) (rd_generation b)"
  using assms by (auto simp: dependencies_union_def Let_def)

lemma changed_since_weaken:
  assumes "stamps_ok app" "changed_since (ents app) es n u" "set es \<subseteq> set es'" "n' \<le> n"
  shows "changed_since (ents app) es' n' u"
proof -
  from assms(2) obtain e where e: "e \<in> set es" "after (changed_at (ents app)) n e \<or> u \<and> after (updated_at (ents app)) n e"
    by (auto simp: changed_since_def list_ex_iff)
  then have "n < update_generation (ents app)"
    using assms(1) by (fastforce simp: after_def stamps_ok_def split: option.splits)
  moreover have "after (changed_at (ents app)) n' e \<or> u \<and> after (updated_at (ents app)) n' e"
    using e(2) assms(4) by (auto simp: after_def split: option.splits)
  ultimately show ?thesis
    using e(1) assms(3,4) by (auto simp: changed_since_def list_ex_iff)
qed

lemma union_notices:
  assumes ok: "stamps_ok app" and asc: "ascending (rd_entities a)" "ascending (rd_entities b)"
    and c: "changed_since (ents app) (rd_entities a) (rd_updates a) u \<or> changed_since (ents app) (rd_entities b) (rd_updates b) u"
  shows "changed_since (ents app) (rd_entities (dependencies_union a b)) (rd_updates (dependencies_union a b)) u"
proof -
  note sets = union_entities(1) [OF asc]
  consider "changed_since (ents app) (rd_entities a) (rd_updates a) u" | "changed_since (ents app) (rd_entities b) (rd_updates b) u"
    using c by blast
  then show ?thesis
  proof cases
    case 1
    have "rd_updates (dependencies_union a b) \<le> rd_updates a"
      by (simp add: dependencies_union_def Let_def)
    with changed_since_weaken [OF ok 1] sets show ?thesis by blast
  next
    case 2
    then have "rd_entities b \<noteq> []"
      by (auto simp: changed_since_def)
    then have "rd_updates (dependencies_union a b) \<le> rd_updates b"
      by (simp add: union_generations)
    with changed_since_weaken [OF ok 2] sets show ?thesis by blast
  qed
qed

lemma union_notices_globals:
  assumes asc: "ascending (rd_entities a)" "ascending (rd_entities b)" "ascending (rd_globals a)" "ascending (rd_globals b)"
    and c: "(g \<in> set (rd_globals a) \<and> n > rd_generation a) \<or> (g \<in> set (rd_globals b) \<and> n > rd_generation b)"
      "global_changed_at (deps app) g = Some n"
  shows "globals_or_states_changed app (dependencies_union a b)"
proof -
  have "g \<in> set (rd_globals (dependencies_union a b))"
    using c union_entities(2) [OF asc] by blast
  moreover have "n > rd_generation (dependencies_union a b)"
  proof (cases "g \<in> set (rd_globals b) \<and> n > rd_generation b")
    case True
    then have "rd_globals b \<noteq> []" by auto
    with True show ?thesis by (simp add: union_generations min_less_iff_disj)
  next
    case False
    with c(1) show ?thesis
      by (auto simp: dependencies_union_def Let_def)
  qed
  ultimately show ?thesis
    using c(2) by (auto simp: globals_or_states_changed_def list_ex_iff intro!: bexI [of _ g])
qed

end
