(* ===== verification/Retained_Properties.thy ===== *)
theory Retained_Properties
  imports Dependencies
begin

text \<open>
  The properties of the dependency recording of retained subtrees (\<open>gpui/src/fast/dependencies.rs\<close>).
\<close>

definition new_app :: app where
  "new_app = \<lparr>deps = \<lparr>global_generation = 0, global_changed_at = Map.empty, global_read_log = [], state_read_log = [], nested = []\<rparr>,
     ents = \<lparr>access_log = [], boundary = 0, recordings = 0, update_generation = 0, updated_at = Map.empty, write_generation = 0,
       written_at = Map.empty, rendering = None, updated_unnotified = {}, changed_at = Map.empty, queried = None\<rparr>,
     versions = (\<lambda>_. 0), alive = {}, accessed = {}, globals_set = {},
     offset_log = \<lparr>ol_recordings = 0, ol_reads = [], ol_epoch = 0\<rparr>, last_list_built = None\<rparr>"

lemma new_app_ok: "stamps_ok new_app"
  by (simp add: new_app_def stamps_ok_def)

section \<open>What a recording returns\<close>

text \<open>
  C21: A recording returns exactly what was read while it was open. For any sequence of reads, updates,
  notifications, reuses of retained subtrees and nested recordings, beginning a recording, drawing and
  finishing it never panics: the entities and globals of \<open>all\<close> are the sorted list of everything read, those of
  \<open>own\<close> leave out what was read through nested recordings and reused subtrees, and the states are listed once
  each.
\<close>

theorem recording_is_exact:
  assumes "recordings (ents app) = length (nested (deps app))" "ol_recordings (offset_log app) = length (nested (deps app))"
    and "begin_recording_dependencies app = (r, app0)"
  shows "\<exists>app1 rec app2. draws C ops app0 = Some app1 \<and> finish_recording_dependencies app1 r = Some (rec, app2)
     \<and> rd_entities (rec_all rec) = sorted_list_of_set (\<Union>op\<in>set ops. all_entities op)
     \<and> rd_entities (rec_own rec) = sorted_list_of_set (\<Union>op\<in>{op \<in> set ops. direct op}. all_entities op)
     \<and> rd_globals (rec_all rec) = sorted_list_of_set (\<Union>op\<in>set ops. all_globals op)
     \<and> rd_globals (rec_own rec) = sorted_list_of_set (\<Union>op\<in>{op \<in> set ops. direct op}. all_globals op)
     \<and> fst ` set (rd_states (rec_all rec)) = (\<Union>op\<in>set ops. all_states op) \<and> distinct (map fst (rd_states (rec_all rec)))
     \<and> fst ` set (rd_states (rec_own rec)) = (\<Union>op\<in>{op \<in> set ops. direct op}. all_states op)
     \<and> recordings (ents app2) = recordings (ents app)"
proof -
  have "opened app0 r (nested (deps app)) [] no_reads no_reads"
    by (rule begin_ok(1) [OF assms])
  from draw_ok(2) [OF this, of C ops] obtain app1 inner all own where
    1: "draws C ops app0 = Some app1" "opened app1 r (nested (deps app)) inner all own" "saw no_reads no_reads all own (set ops)"
    by blast
  from finish_ok [OF 1(2)] obtain rec app2 where
    2: "finish_recording_dependencies app1 r = Some (rec, app2)"
      "rd_entities (rec_all rec) = sorted_list_of_set (fE all)" "rd_entities (rec_own rec) = sorted_list_of_set (fE own)"
      "rd_globals (rec_all rec) = sorted_list_of_set (fG all)" "rd_globals (rec_own rec) = sorted_list_of_set (fG own)"
      "distinct (map fst (rd_states (rec_all rec)))" "fst ` set (rd_states (rec_all rec)) = fst ` fS all"
      "fst ` set (rd_states (rec_own rec)) = fst ` fS own"
      "ents app2 = mark_access_boundary ((ents app1)\<lparr>recordings := length (nested (deps app)),
         access_log := (if nested (deps app) = [] then [] else access_log (ents app1))\<rparr>)"
    by - (elim exE conjE, rule that, assumption+)
  have rec: "recordings (ents app2) = recordings (ents app)"
    by (simp add: 2(9) assms(1) mark_access_boundary_def)
  have reads: "fE all = (\<Union>op\<in>set ops. all_entities op)" "fE own = (\<Union>op\<in>{op \<in> set ops. direct op}. all_entities op)"
    "fG all = (\<Union>op\<in>set ops. all_globals op)" "fG own = (\<Union>op\<in>{op \<in> set ops. direct op}. all_globals op)"
    "fst ` fS all = (\<Union>op\<in>set ops. all_states op)" "fst ` fS own = (\<Union>op\<in>{op \<in> set ops. direct op}. all_states op)"
    using 1(3) by (simp_all add: saw_def no_reads_def)
  show ?thesis
    using 1(1) 2(1-8) [unfolded reads] rec
    by (intro exI [of _ app1] exI [of _ rec] exI [of _ app2] conjI)
qed

definition sample_draw :: "draw_op list" where
  "sample_draw = [DReadEntity 5, DReadEntity 5, DNested [DReadEntity 7, DReadState 1], DReadGlobal AmbientKeys, DReadEntity 3]"

theorem recording_is_exact_witness:
  "\<exists>app1 rec app2. draws True sample_draw (snd (begin_recording_dependencies new_app)) = Some app1
     \<and> finish_recording_dependencies app1 (fst (begin_recording_dependencies new_app)) = Some (rec, app2)
     \<and> rd_entities (rec_all rec) = [3, 5, 7] \<and> rd_entities (rec_own rec) = [3, 5]"
proof -
  have sets: "(\<Union>op\<in>set sample_draw. all_entities op) = {3, 5, 7}"
    "(\<Union>op\<in>{op \<in> set sample_draw. direct op}. all_entities op) = {3, 5}"
    unfolding set_filter [symmetric] by (simp_all add: sample_draw_def insert_commute del: set_filter)
  have lists: "sorted_list_of_set {3, 5, 7 :: nat} = [3, 5, 7]" "sorted_list_of_set {3, 5 :: nat} = [3, 5]"
    by code_simp+
  have idle: "recordings (ents new_app) = length (nested (deps new_app))"
    "ol_recordings (offset_log new_app) = length (nested (deps new_app))"
    by (simp_all add: new_app_def)
  from recording_is_exact [OF idle surjective_pairing, of True sample_draw, unfolded sets lists] obtain app1 rec app2 where
    "draws True sample_draw (snd (begin_recording_dependencies new_app)) = Some app1"
    "finish_recording_dependencies app1 (fst (begin_recording_dependencies new_app)) = Some (rec, app2)"
    "rd_entities (rec_all rec) = [3, 5, 7]" "rd_entities (rec_own rec) = [3, 5]"
    by - (elim exE conjE, rule that, assumption+)
  then show ?thesis by blast
qed

section \<open>Changes\<close>


definition reads_one :: render_dependencies where
  "reads_one = \<lparr>rd_entities = [1], rd_globals = [GlobalType 4], rd_states = [], rd_offset_reads = [], rd_generation = 0,
     rd_updates = 0, rd_writes = \<lparr>w_from = 0, w_to = 0, w_own = []\<rparr>\<rparr>"


text \<open>
  Nothing else counts as a change: for dependencies as a recording leaves them, \<open>dependencies_changed\<close> holds
  exactly when an entity read was stamped as changed after the recording began (or, inside a notified view, updated), or
  written after the recording finished, or a global read was written after the recording began, or a state read has
  another version. The shortcuts that compare only the generations never hide a change.
\<close>

theorem dependencies_changed_exactly:
  assumes "stamps_ok app" "writes_ok (rd_writes d) (write_generation (ents app))"
  shows "dependencies_changed app d inside \<longleftrightarrow>
     (\<exists>e\<in>set (rd_entities d). (\<exists>at>rd_updates d. changed_at (ents app) e = Some at)
        \<or> inside \<and> (\<exists>at>rd_updates d. updated_at (ents app) e = Some at)
        \<or> (\<exists>at>w_to (rd_writes d). written_at (ents app) e = Some at))
     \<or> (\<exists>g\<in>set (rd_globals d). \<exists>at>rd_generation d. global_changed_at (deps app) g = Some at)
     \<or> (\<exists>(v, n)\<in>set (rd_states d). versions app v \<noteq> n)"
  by (rule dependencies_changed_iff [OF assms])

theorem dependencies_changed_exactly_witness: "\<not> dependencies_changed new_app reads_one True"
proof -
  have "writes_ok (rd_writes reads_one) (write_generation (ents new_app))"
    by (auto simp: reads_one_def new_app_def writes_ok_def)
  from dependencies_changed_exactly [OF new_app_ok this, of True] show ?thesis
    by (simp add: new_app_def reads_one_def)
qed

text \<open>
  The union of two dependencies lists the entities and globals of both, each once and in order, and notices every
  change of an entity by notification or update and every change of a global that either of them notices.
\<close>

theorem union_is_sound:
  assumes "stamps_ok app" "sorted_wrt (<) (rd_entities a)" "sorted_wrt (<) (rd_entities b)"
    and "sorted_wrt (<) (rd_globals a)" "sorted_wrt (<) (rd_globals b)"
  shows "set (rd_entities (dependencies_union a b)) = set (rd_entities a) \<union> set (rd_entities b)
     \<and> set (rd_globals (dependencies_union a b)) = set (rd_globals a) \<union> set (rd_globals b)
     \<and> (changed_since (ents app) (rd_entities a) (rd_updates a) inside \<or> changed_since (ents app) (rd_entities b) (rd_updates b) inside
        \<longrightarrow> dependencies_changed app (dependencies_union a b) inside)
     \<and> (\<forall>g n. global_changed_at (deps app) g = Some n \<and>
          (g \<in> set (rd_globals a) \<and> n > rd_generation a \<or> g \<in> set (rd_globals b) \<and> n > rd_generation b)
        \<longrightarrow> dependencies_changed app (dependencies_union a b) inside)"
  unfolding dependencies_changed_def
  using union_entities [OF assms(2,3)] assms(4,5) union_notices [OF assms(1-3), of inside] union_notices_globals [OF assms(2-5), of _ _ app]
  by blast

theorem union_is_sound_witness:
  "set (rd_entities (dependencies_union reads_one (reads_one\<lparr>rd_entities := [0, 2]\<rparr>))) = {0, 1, 2}"
  using union_is_sound [OF new_app_ok, of reads_one "reads_one\<lparr>rd_entities := [0, 2]\<rparr>"]
  by (auto simp: reads_one_def)



end
