(* ===== verification/FastBoundsTree.thy ===== *)
theory FastBoundsTree
  imports BoundsTree Complex_Main "HOL-Library.Word"
begin

text \<open>
  The bounds tree the scene uses, \<open>gpui/src/fast/bounds_tree.rs\<close> (\<open>gpui.rs\<close> mounts it in place of the
  R-tree of \<open>bounds_tree.rs\<close>): a uniform grid of cells, with the orders of the last frame handed out
  again as long as nothing near has changed.

  Coordinates are an exact ordered field with floor and ceiling (\<open>f64\<close> without rounding, infinities of
  a coordinate or NaN); the two infinite cell edges are values of the type \<open>ext\<close>. Orders, list positions
  and the search budget are natural numbers; the 32-bit cast of an entry's index is written out. A
  \<^const>\<open>None\<close> is a panic (an index or a slice out of range); the walk of a cell's list is a
  \<open>partial_function\<close>, so that a cyclic list is \<^const>\<open>None\<close> too. \<open>Ord::clamp\<close> would panic on a grid
  without cells; the invariant \<open>dims_ok\<close> excludes one.

  The specification is that of \<open>BoundsTree\<close>: \<^const>\<open>next_order\<close> over the collection of the inserted
  rectangles. The locale \<open>bounds_orderer\<close> is the contract of the two implementations.
\<close>

unbundle bit_operations_syntax

section \<open>The model\<close>

definition REPLAY_SEARCH_BUDGET :: nat where
  "REPLAY_SEARCH_BUDGET = 2 ^ 15"

definition CELL_SIZE :: "'u::floor_ceiling" where
  "CELL_SIZE = 64"

definition MAX_CELLS_PER_AXIS :: nat where
  "MAX_CELLS_PER_AXIS = 256"

definition CHANGED_CELLS :: nat where
  "CHANGED_CELLS = 64"

definition NONE :: nat where
  "NONE = 2 ^ 32 - 1"

record cell =
  c_head :: nat
  c_cover :: nat
  c_max :: nat

definition EMPTY :: cell where
  "EMPTY = \<lparr>c_head = NONE, c_cover = 0, c_max = 0\<rparr>"

record 'u entry =
  e_bounds :: "'u bounds"
  e_order :: nat
  e_rest_max :: nat
  e_next :: nat

record 'u grid =
  g_columns :: nat
  g_rows :: nat
  g_cells :: "cell list"
  g_entries :: "'u entry list"
  g_degenerate :: "('u bounds \<times> nat) list"

record 'u changed_bounds =
  ch_bounds :: "'u bounds list"
  ch_rows :: "64 word list"
  ch_unmarked :: bool

record 'u fast_tree =
  ft_grid :: "'u grid"
  ft_max :: "('u bounds \<times> nat) option"
  recorded :: "('u bounds \<times> nat) list"
  previous :: "('u bounds \<times> nat) list"
  replaying :: bool
  changed :: "'u changed_bounds"
  replay_search_budget :: nat

text \<open>The coordinates with the two infinities of the outer cells.\<close>

datatype 'u ext = NegInf | Fin 'u | PosInf

instantiation ext :: (linorder) linorder
begin

fun less_eq_ext :: "'a ext \<Rightarrow> 'a ext \<Rightarrow> bool" where
  "less_eq_ext NegInf _ = True"
| "less_eq_ext _ PosInf = True"
| "less_eq_ext (Fin a) (Fin b) = (a \<le> b)"
| "less_eq_ext _ _ = False"

definition less_ext :: "'a ext \<Rightarrow> 'a ext \<Rightarrow> bool" where
  "less_ext a b \<longleftrightarrow> \<not> b \<le> a"

instance
proof
  fix x y z :: "'a ext"
  show "(x < y) = (x \<le> y \<and> \<not> y \<le> x)" "x \<le> x" "x \<le> y \<or> y \<le> x"
    by (cases x; cases y; auto simp: less_ext_def)+
  show "x \<le> y \<Longrightarrow> y \<le> z \<Longrightarrow> x \<le> z"
    by (cases x; cases y; cases z) auto
  show "x \<le> y \<Longrightarrow> y \<le> x \<Longrightarrow> x = y"
    by (cases x; cases y) auto
qed

end

text \<open>The cast \<open>as isize\<close> truncates toward zero and saturates.\<close>

definition as_isize :: "'u::floor_ceiling \<Rightarrow> int" where
  "as_isize x = max (- (2 ^ 63)) (min (2 ^ 63 - 1) (if 0 \<le> x then \<lfloor>x\<rfloor> else \<lceil>x\<rceil>))"

definition clamp_to :: "int \<Rightarrow> int \<Rightarrow> int \<Rightarrow> int" where
  "clamp_to x lo hi = (if x < lo then lo else if x > hi then hi else x)"

definition cell_at :: "'u::floor_ceiling \<Rightarrow> nat \<Rightarrow> nat" where
  "cell_at coordinate cells = nat (clamp_to (as_isize (coordinate * (1 / CELL_SIZE))) 0 (int cells - 1))"

definition cell_start :: "nat \<Rightarrow> 'u::floor_ceiling ext" where
  "cell_start cell = (if cell = 0 then NegInf else Fin (of_nat cell * CELL_SIZE))"

definition cell_end :: "nat \<Rightarrow> nat \<Rightarrow> 'u::floor_ceiling ext" where
  "cell_end cell cells = (if cell + 1 = cells then PosInf else Fin (of_nat (cell + 1) * CELL_SIZE))"

record 'u span =
  s_start :: 'u
  s_end :: 'u
  first_cell :: nat
  last_cell :: nat

definition span_new :: "'u::floor_ceiling \<Rightarrow> 'u \<Rightarrow> nat \<Rightarrow> 'u span" where
  "span_new start end cells =
     \<lparr>s_start = start, s_end = end, first_cell = cell_at start cells, last_cell = cell_at end cells\<rparr>"

definition enters :: "'u::floor_ceiling span \<Rightarrow> nat \<Rightarrow> nat \<Rightarrow> bool" where
  "enters s cell cells \<longleftrightarrow> Fin (s_start s) < cell_end cell cells \<and> Fin (s_end s) > cell_start cell"

definition span_covers :: "'u::floor_ceiling span \<Rightarrow> nat \<Rightarrow> nat \<Rightarrow> bool" where
  "span_covers s cell cells \<longleftrightarrow> Fin (s_start s) \<le> cell_start cell \<and> Fin (s_end s) \<ge> cell_end cell cells"

subsection \<open>\<open>ChangedBounds\<close>\<close>

definition changed_clear :: "'u changed_bounds \<Rightarrow> 'u changed_bounds" where
  "changed_clear c = c\<lparr>ch_bounds := [], ch_rows := replicate CHANGED_CELLS 0, ch_unmarked := False\<rparr>"

definition changed_cells :: "'u::floor_ceiling bounds \<Rightarrow> (nat \<times> nat \<times> nat \<times> nat) option" where
  "changed_cells b =
     (let left = px (origin b);
          upper = py (origin b);
          right = px (origin b) + width (bsize b);
          bottom = py (origin b) + height (bsize b)
      in if right \<ge> left \<and> bottom \<ge> upper
         then Some (cell_at left CHANGED_CELLS, cell_at right CHANGED_CELLS,
                    cell_at upper CHANGED_CELLS, cell_at bottom CHANGED_CELLS)
         else None)"

text \<open>\<open>u64::MAX\<close> is \<open>- 1\<close>.\<close>

definition columns_mask :: "nat \<Rightarrow> nat \<Rightarrow> 64 word" where
  "columns_mask first_col last_col = drop_bit (CHANGED_CELLS - 1 - last_col) (- 1) AND push_bit first_col (- 1)"

text \<open>The slice \<open>rows[top..=bottom]\<close> panics when it ends past the array or before it starts.\<close>

definition slice_incl :: "'a list \<Rightarrow> nat \<Rightarrow> nat \<Rightarrow> 'a list option" where
  "slice_incl xs i j = (if i \<le> Suc j \<and> j < length xs then Some (take (Suc j - i) (drop i xs)) else None)"

definition mark_rows :: "64 word list \<Rightarrow> nat \<Rightarrow> nat \<Rightarrow> 64 word \<Rightarrow> 64 word list option" where
  "mark_rows rows upper bottom columns =
     do { slice \<leftarrow> slice_incl rows upper bottom;
          Some (take upper rows @ map (\<lambda>row. row OR columns) slice @ drop (Suc bottom) rows) }"

definition changed_push :: "'u::floor_ceiling changed_bounds \<Rightarrow> 'u bounds \<Rightarrow> 'u changed_bounds option" where
  "changed_push c b =
     do { c \<leftarrow> (case changed_cells b of
                 Some (left, right, upper, bottom) \<Rightarrow>
                   do { rows \<leftarrow> mark_rows (ch_rows c) upper bottom (columns_mask left right);
                        Some (c\<lparr>ch_rows := rows\<rparr>) }
               | None \<Rightarrow> Some (c\<lparr>ch_unmarked := True\<rparr>));
          Some (c\<lparr>ch_bounds := ch_bounds c @ [b]\<rparr>) }"

definition might_meet :: "'u::floor_ceiling changed_bounds \<Rightarrow> 'u bounds \<Rightarrow> bool option" where
  "might_meet c b =
     (if ch_bounds c = [] then Some False
      else if ch_unmarked c then Some True
      else case changed_cells b of
             Some (left, right, upper, bottom) \<Rightarrow>
               do { rows \<leftarrow> slice_incl (ch_rows c) upper bottom;
                    Some (list_ex (\<lambda>row. row AND columns_mask left right \<noteq> 0) rows) }
           | None \<Rightarrow> Some True)"

subsection \<open>\<open>Grid\<close>\<close>

text \<open>\<open>iter().map(order).max().unwrap_or(0)\<close>.\<close>

definition greatest :: "('u bounds \<times> nat) list \<Rightarrow> nat" where
  "greatest ps = fold max (map snd ps) 0"

definition grid_clear :: "'u grid \<Rightarrow> 'u grid" where
  "grid_clear g = g\<lparr>g_cells := map (\<lambda>_. EMPTY) (g_cells g), g_entries := [], g_degenerate := []\<rparr>"

definition has_area :: "'u::floor_ceiling bounds \<Rightarrow> bool" where
  "has_area b \<longleftrightarrow> width (bsize b) > 0 \<and> height (bsize b) > 0
     \<and> px (origin b) = px (origin b) \<and> py (origin b) = py (origin b)"

definition spans :: "nat \<Rightarrow> nat \<Rightarrow> 'u::floor_ceiling bounds \<Rightarrow> 'u span \<times> 'u span" where
  "spans columns rows b =
     (let right = px (origin b) + width (bsize b);
          bottom = py (origin b) + height (bsize b)
      in (span_new (px (origin b)) right columns, span_new (py (origin b)) bottom rows))"

definition needed :: "'u::floor_ceiling \<Rightarrow> nat" where
  "needed end = nat (clamp_to (as_isize (of_int \<lceil>end / CELL_SIZE\<rceil> :: 'u)) 1 (int MAX_CELLS_PER_AXIS))"

definition needs :: "'u::floor_ceiling grid \<Rightarrow> 'u bounds \<Rightarrow> (nat \<times> nat) option" where
  "needs g b =
     (let right = px (origin b) + width (bsize b);
          bottom = py (origin b) + height (bsize b)
      in if right \<le> of_nat (g_columns g) * CELL_SIZE \<and> bottom \<le> of_nat (g_rows g) * CELL_SIZE then None
         else let columns = max (needed right) (g_columns g);
                  rows = max (needed bottom) (g_rows g)
              in if columns > g_columns g \<or> rows > g_rows g then Some (columns, rows) else None)"

definition resize :: "'u grid \<Rightarrow> nat \<Rightarrow> nat \<Rightarrow> 'u grid" where
  "resize g columns rows =
     g\<lparr>g_columns := columns, g_rows := rows, g_cells := replicate (columns * rows) EMPTY,
       g_entries := [], g_degenerate := []\<rparr>"

text \<open>The body of the two loops of \<open>Grid::add\<close>, at the cell with index \<open>i\<close>.\<close>

definition add_to_cell :: "'u bounds \<Rightarrow> nat \<Rightarrow> nat \<Rightarrow> bool \<Rightarrow> 'u grid \<Rightarrow> 'u grid option" where
  "add_to_cell b order i covered g =
     do { cell0 \<leftarrow> index_at (g_cells g) i;
          let cell = cell0\<lparr>c_max := max (c_max cell0) order\<rparr>;
          if covered
          then Some (g\<lparr>g_cells := (g_cells g)[i := cell\<lparr>c_cover := max (c_cover cell) order\<rparr>]\<rparr>)
          else
            let rest_max = (case index_at (g_entries g) (c_head cell) of
                              Some nxt \<Rightarrow> max (e_rest_max nxt) order
                            | None \<Rightarrow> order);
                entry = length (g_entries g) mod 2 ^ 32
            in Some (g\<lparr>g_cells := (g_cells g)[i := cell\<lparr>c_head := entry\<rparr>],
                       g_entries := g_entries g @
                         [\<lparr>e_bounds = b, e_order = order, e_rest_max = rest_max, e_next = c_head cell\<rparr>]\<rparr>) }"

definition grid_add :: "'u::floor_ceiling grid \<Rightarrow> 'u bounds \<Rightarrow> nat \<Rightarrow> 'u grid option" where
  "grid_add g b order =
     (if \<not> has_area b then Some (g\<lparr>g_degenerate := g_degenerate g @ [(b, order)]\<rparr>)
      else
        let (x, y) = spans (g_columns g) (g_rows g) b
        in for_each
             (\<lambda>row. let covers_row = span_covers y row (g_rows g)
                    in for_each
                         (\<lambda>column. add_to_cell b order (row * g_columns g + column)
                                     (covers_row \<and> span_covers x column (g_columns g)))
                         [first_cell x..<Suc (last_cell x)])
             [first_cell y..<Suc (last_cell y)] g)"

partial_function (option) walk :: "'u::floor_ceiling entry list \<Rightarrow> 'u bounds \<Rightarrow> nat \<Rightarrow> nat \<Rightarrow> nat option" where
  "walk es query entry_ix mx =
     (case index_at es entry_ix of
        None \<Rightarrow> Some mx
      | Some entry \<Rightarrow>
          if e_rest_max entry \<le> mx then Some mx
          else walk es query (e_next entry)
                 (if e_order entry > mx \<and> intersects (e_bounds entry) query then e_order entry else mx))"

declare walk.simps [code]

definition search_cell :: "'u::floor_ceiling grid \<Rightarrow> 'u bounds \<Rightarrow> nat \<Rightarrow> bool \<Rightarrow> nat \<Rightarrow> nat option" where
  "search_cell g query i entered mx =
     do { cell \<leftarrow> index_at (g_cells g) i;
          if c_max cell \<le> mx then Some mx
          else walk (g_entries g) query (c_head cell)
                 (if c_cover cell > mx \<and> entered then c_cover cell else mx) }"

definition max_intersecting :: "'u::floor_ceiling grid \<Rightarrow> 'u bounds \<Rightarrow> nat option" where
  "max_intersecting g query =
     (let (x, y) = spans (g_columns g) (g_rows g) query
      in for_each
           (\<lambda>row. let enters_row = enters y row (g_rows g)
                  in for_each
                       (\<lambda>column. search_cell g query (row * g_columns g + column)
                                   (enters_row \<and> enters x column (g_columns g)))
                       [first_cell x..<Suc (last_cell x)])
           [first_cell y..<Suc (last_cell y)]
           (greatest (filter (\<lambda>(b, _). intersects b query) (g_degenerate g))))"

subsection \<open>\<open>BoundsTree\<close>\<close>

definition ft_clear :: "'u fast_tree \<Rightarrow> 'u fast_tree" where
  "ft_clear t = t\<lparr>ft_grid := grid_clear (ft_grid t), ft_max := None, previous := recorded t, recorded := [],
                  replaying := True, changed := changed_clear (changed t),
                  replay_search_budget := REPLAY_SEARCH_BUDGET\<rparr>"

definition ft_forget :: "'u fast_tree \<Rightarrow> 'u fast_tree" where
  "ft_forget t = (ft_clear t)\<lparr>previous := [], replaying := False\<rparr>"

definition checked_sub :: "nat \<Rightarrow> nat \<Rightarrow> nat option" where
  "checked_sub a b = (if b \<le> a then Some (a - b) else None)"

text \<open>The \<open>match previous\<close> that ends \<open>replay\<close>.\<close>

definition note_change ::
    "('u::floor_ceiling bounds \<times> nat) option \<Rightarrow> 'u bounds \<Rightarrow> nat \<Rightarrow> 'u changed_bounds \<Rightarrow> 'u changed_bounds option" where
  "note_change before b assigned c =
     (case before of
        Some (previous_bounds, previous_ordering) \<Rightarrow>
          if previous_bounds \<noteq> b then do { c \<leftarrow> changed_push c previous_bounds; changed_push c b }
          else if previous_ordering \<noteq> assigned then changed_push c b
          else Some c
      | None \<Rightarrow> changed_push c b)"

text \<open>The second half of \<open>replay\<close>: the order is worked out from what was recorded.\<close>

definition replay_search ::
    "'u::floor_ceiling fast_tree \<Rightarrow> 'u bounds \<Rightarrow> ('u fast_tree \<times> nat option) option" where
  "replay_search t b =
     (case checked_sub (replay_search_budget t) (length (recorded t)) of
        None \<Rightarrow> Some (t, None)
      | Some budget \<Rightarrow>
          let t = t\<lparr>replay_search_budget := budget\<rparr>;
              assigned = greatest (filter (\<lambda>(other, _). intersects other b) (recorded t)) + 1
          in do { c \<leftarrow> note_change (index_at (previous t) (length (recorded t))) b assigned (changed t);
                  Some (t\<lparr>changed := c\<rparr>, Some assigned) })"

definition ft_replay :: "'u::floor_ceiling fast_tree \<Rightarrow> 'u bounds \<Rightarrow> ('u fast_tree \<times> nat option) option" where
  "ft_replay t b =
     (case index_at (previous t) (length (recorded t)) of
        Some (previous_bounds, assigned) \<Rightarrow>
          if previous_bounds = b then
            do { meet \<leftarrow> might_meet (changed t) b;
                 if meet then
                   case checked_sub (replay_search_budget t) (length (ch_bounds (changed t))) of
                     None \<Rightarrow> Some (t, None)
                   | Some budget \<Rightarrow>
                       let t = t\<lparr>replay_search_budget := budget\<rparr>
                       in if list_ex (\<lambda>c. intersects c b) (ch_bounds (changed t)) then replay_search t b
                          else Some (t, Some assigned)
                 else Some (t, Some assigned) }
          else replay_search t b
      | None \<Rightarrow> replay_search t b)"

definition raise_max :: "('u bounds \<times> nat) option \<Rightarrow> 'u bounds \<Rightarrow> nat \<Rightarrow> ('u bounds \<times> nat) option" where
  "raise_max m b assigned =
     (case m of
        None \<Rightarrow> Some (b, assigned)
      | Some (_, mx) \<Rightarrow> if mx < assigned then Some (b, assigned) else m)"

definition ft_add :: "'u::floor_ceiling fast_tree \<Rightarrow> 'u bounds \<Rightarrow> nat \<Rightarrow> 'u fast_tree option" where
  "ft_add t b assigned =
     do { g \<leftarrow> (case (if has_area b then needs (ft_grid t) b else None) of
                 Some (columns, rows) \<Rightarrow>
                   for_each (\<lambda>(rb, ro) g. grid_add g rb ro) (recorded t) (resize (ft_grid t) columns rows)
               | None \<Rightarrow> Some (ft_grid t));
          g \<leftarrow> grid_add g b assigned;
          Some (t\<lparr>ft_grid := g, ft_max := raise_max (ft_max t) b assigned\<rparr>) }"

definition grow_size :: "'u::floor_ceiling grid \<Rightarrow> 'u bounds \<times> nat \<Rightarrow> nat \<times> nat \<Rightarrow> nat \<times> nat" where
  "grow_size g p dims =
     (case (if has_area (fst p) then needs g (fst p) else None) of
        Some (columns, rows) \<Rightarrow> (max (fst dims) columns, max (snd dims) rows)
      | None \<Rightarrow> dims)"

definition build_from_recorded :: "'u::floor_ceiling fast_tree \<Rightarrow> 'u fast_tree option" where
  "build_from_recorded t =
     (let g = ft_grid t;
          dims = fold (grow_size g) (recorded t) (g_columns g, g_rows g);
          g = (if dims \<noteq> (g_columns g, g_rows g) then resize g (fst dims) (snd dims) else g)
      in do { (g, m) \<leftarrow> for_each (\<lambda>(b, assigned) (g, m).
                            do { g \<leftarrow> grid_add g b assigned; Some (g, raise_max m b assigned) })
                          (recorded t) (g, ft_max t);
              Some (t\<lparr>ft_grid := g, ft_max := m\<rparr>) })"

definition ft_find_max_ordering :: "'u::floor_ceiling fast_tree \<Rightarrow> 'u bounds \<Rightarrow> nat option" where
  "ft_find_max_ordering t query =
     (case ft_max t of
        Some (max_bounds, mx) \<Rightarrow>
          if intersects query max_bounds then Some mx
          else if has_area query then max_intersecting (ft_grid t) query
          else Some (greatest (filter (\<lambda>(b, _). intersects b query) (recorded t)))
      | None \<Rightarrow>
          if has_area query then max_intersecting (ft_grid t) query
          else Some (greatest (filter (\<lambda>(b, _). intersects b query) (recorded t))))"

text \<open>The part of \<open>insert\<close> after the replay.\<close>

definition insert_searched :: "'u::floor_ceiling fast_tree \<Rightarrow> 'u bounds \<Rightarrow> ('u fast_tree \<times> nat) option" where
  "insert_searched t b =
     do { mx \<leftarrow> ft_find_max_ordering t b;
          let assigned = mx + 1;
          t \<leftarrow> ft_add t b assigned;
          Some (t\<lparr>recorded := recorded t @ [(b, assigned)]\<rparr>, assigned) }"

definition ft_insert :: "'u::floor_ceiling fast_tree \<Rightarrow> 'u bounds \<Rightarrow> ('u fast_tree \<times> nat) option" where
  "ft_insert t b =
     (if replaying t then
        do { (t, r) \<leftarrow> ft_replay t b;
             case r of
               Some assigned \<Rightarrow> Some (t\<lparr>recorded := recorded t @ [(b, assigned)]\<rparr>, assigned)
             | None \<Rightarrow>
                 do { t \<leftarrow> build_from_recorded (t\<lparr>replaying := False\<rparr>);
                      insert_searched t b } }
      else insert_searched t b)"

definition ft_default :: "'u fast_tree" where
  "ft_default =
     \<lparr>ft_grid = \<lparr>g_columns = 1, g_rows = 1, g_cells = [EMPTY], g_entries = [], g_degenerate = []\<rparr>,
      ft_max = None, recorded = [], previous = [], replaying = False,
      changed = \<lparr>ch_bounds = [], ch_rows = replicate CHANGED_CELLS 0, ch_unmarked = False\<rparr>,
      replay_search_budget = REPLAY_SEARCH_BUDGET\<rparr>"

section \<open>Cells and coordinates\<close>

lemma CELL_SIZE_pos [simp]: "(0 :: 'u::floor_ceiling) < CELL_SIZE" "(0 :: 'u::floor_ceiling) \<le> CELL_SIZE"
  by (simp_all add: CELL_SIZE_def)

text \<open>\<open>cells_ok n\<close>: a number of cells an axis can have.\<close>

definition cells_ok :: "nat \<Rightarrow> bool" where
  "cells_ok n \<longleftrightarrow> 1 \<le> n \<and> n \<le> MAX_CELLS_PER_AXIS"

lemma cells_okD: "cells_ok n \<Longrightarrow> 1 \<le> n" "cells_ok n \<Longrightarrow> n \<le> 256"
  by (simp_all add: cells_ok_def MAX_CELLS_PER_AXIS_def)

lemma cells_ok_simps [simp]: "cells_ok CHANGED_CELLS" "cells_ok 1" "cells_ok (Suc 0)"
  by (simp_all add: cells_ok_def MAX_CELLS_PER_AXIS_def CHANGED_CELLS_def)

lemma cell_at_floor:
  fixes x :: "'u::floor_ceiling"
  assumes "cells_ok cells"
  shows "int (cell_at x cells) = max 0 (min (int cells - 1) \<lfloor>x / CELL_SIZE\<rfloor>)"
proof -
  have cells: "0 \<le> int cells - 1" "int cells - 1 \<le> 2 ^ 63 - 1"
    using cells_okD [OF assms] by simp_all
  define k where "k = (if 0 \<le> x / CELL_SIZE then \<lfloor>x / CELL_SIZE\<rfloor> else \<lceil>x / CELL_SIZE\<rceil>)"
  have k: "max 0 (min (int cells - 1) \<lfloor>x / CELL_SIZE\<rfloor>) = max 0 (min (int cells - 1) k)"
  proof (cases "0 \<le> x / CELL_SIZE")
    case False
    then have "\<lceil>x / CELL_SIZE\<rceil> \<le> 0"
      by (simp only: ceiling_le_iff) simp
    moreover from this have "\<lfloor>x / CELL_SIZE\<rfloor> \<le> 0"
      using floor_le_ceiling [of "x / CELL_SIZE"] by linarith
    moreover have "k = \<lceil>x / CELL_SIZE\<rceil>"
      unfolding k_def using False by (rule if_not_P)
    ultimately show ?thesis
      by linarith
  qed (simp add: k_def)
  have "as_isize (x * (1 / CELL_SIZE)) = max (- (2 ^ 63)) (min (2 ^ 63 - 1) k)"
    by (simp add: as_isize_def k_def)
  then show ?thesis
    unfolding k cell_at_def clamp_to_def using cells by (auto simp: max_def min_def)
qed

lemma cell_at_less [simp]: "cells_ok n \<Longrightarrow> cell_at x n < n"
  using cell_at_floor [of n x] cells_okD(1) [of n] by linarith

lemma cell_at_mono:
  assumes "cells_ok n" "x \<le> y"
  shows "cell_at x n \<le> cell_at y n"
proof -
  have "\<lfloor>x / CELL_SIZE\<rfloor> \<le> \<lfloor>y / CELL_SIZE\<rfloor>"
    using assms(2) by (intro floor_mono divide_right_mono) simp_all
  then have "int (cell_at x n) \<le> int (cell_at y n)"
    unfolding cell_at_floor [OF assms(1)] by linarith
  then show ?thesis by simp
qed

lemma cell_at_start:
  fixes x :: "'u::floor_ceiling"
  assumes "cells_ok n"
  shows "cell_start (cell_at x n) \<le> Fin x"
proof (cases "cell_at x n = 0")
  case False
  then have "int (cell_at x n) \<le> \<lfloor>x / CELL_SIZE\<rfloor>"
    using cell_at_floor [OF assms, of x] by linarith
  then have "of_nat (cell_at x n) \<le> x / CELL_SIZE"
    by (simp add: le_floor_iff)
  then show ?thesis
    using False by (simp add: cell_start_def pos_le_divide_eq)
qed (simp add: cell_start_def)

lemma cell_at_end:
  fixes x :: "'u::floor_ceiling"
  assumes "cells_ok n"
  shows "Fin x < cell_end (cell_at x n) n"
proof (cases "cell_at x n + 1 = n")
  case False
  then have "\<lfloor>x / CELL_SIZE\<rfloor> < int (cell_at x n + 1)"
    using cell_at_floor [OF assms, of x] cell_at_less [OF assms, of x] by linarith
  then have "x / CELL_SIZE < of_nat (cell_at x n + 1)"
    by (simp add: floor_less_iff)
  then show ?thesis
    using False by (simp add: cell_end_def less_ext_def pos_divide_less_eq)
qed (simp add: cell_end_def less_ext_def)

text \<open>Along one axis: where two spans overlap, the cell of the greater start is one of both, and both
  spans reach into it; a span that covers a cell overlaps every span that enters it.\<close>

lemma overlap_cell:
  fixes a b :: "'u::floor_ceiling"
  assumes "cells_ok n" "a < a'" "b < b'" "a < b'" "b < a'"
  defines "c \<equiv> cell_at (max a b) n"
  shows "cell_at a n \<le> c" "c \<le> cell_at a' n" "cell_at b n \<le> c" "c \<le> cell_at b' n" "enters (span_new a a' n) c n"
proof -
  show "cell_at a n \<le> c" "c \<le> cell_at a' n" "cell_at b n \<le> c" "c \<le> cell_at b' n"
    unfolding c_def using assms(2-5) by (auto intro!: cell_at_mono [OF assms(1)])
  have "cell_start c \<le> Fin (max a b)" "Fin (max a b) < cell_end c n"
    unfolding c_def by (rule cell_at_start [OF assms(1)], rule cell_at_end [OF assms(1)])
  moreover have "Fin a \<le> Fin (max a b)" "Fin (max a b) < Fin a'"
    using assms(2,5) by (auto simp: less_ext_def)
  ultimately have "cell_start c < Fin a'" "Fin a < cell_end c n"
    using le_less_trans by blast+
  then show "enters (span_new a a' n) c n"
    by (simp add: enters_def span_new_def)
qed

lemma covers_enters:
  "span_covers (span_new a a' n) c n \<Longrightarrow> enters (span_new b b' n) c n \<Longrightarrow> a < b' \<and> b < a'"
  using le_less_trans [of "Fin a" "cell_start c" "Fin b'"] less_le_trans [of "Fin b" "cell_end c n" "Fin a'"]
  by (simp add: span_covers_def enters_def span_new_def less_ext_def)

lemma cell_ranges_meet:
  assumes "cells_ok n" "a \<le> a'" "b \<le> b'" "a < b'" "b < a'"
  shows "\<exists>c. cell_at a n \<le> c \<and> c \<le> cell_at a' n \<and> cell_at b n \<le> c \<and> c \<le> cell_at b' n"
  using assms by (intro exI [of _ "cell_at (max a b) n"]) (auto intro!: cell_at_mono)

section \<open>Greatest orders\<close>

lemma greatest_Nil [simp]: "greatest [] = 0"
  by (simp add: greatest_def)

lemma greatest_Max: "greatest ps = Max (insert 0 (snd ` set ps))"
  unfolding greatest_def using Max.set_eq_fold [of 0 "map snd ps"] by simp

lemma greatest_le_iff: "greatest ps \<le> m \<longleftrightarrow> (\<forall>p\<in>set ps. snd p \<le> m)"
  by (simp add: greatest_Max)

lemma greatest_append [simp]: "greatest (ps @ qs) = max (greatest ps) (greatest qs)"
proof -
  have "greatest (ps @ qs) \<le> m \<longleftrightarrow> max (greatest ps) (greatest qs) \<le> m" for m
    by (auto simp: greatest_le_iff)
  from this [of "greatest (ps @ qs)"] this [of "max (greatest ps) (greatest qs)"] show ?thesis
    by (intro antisym) simp_all
qed

lemma greatest_Cons [simp]: "greatest (p # ps) = max (snd p) (greatest ps)"
  using greatest_append [of "[p]" ps] by (simp add: greatest_def)

lemma greatest_rev [simp]: "greatest (rev ps) = greatest ps"
  by (simp add: greatest_Max)

lemma greatest_ge: "p \<in> set ps \<Longrightarrow> snd p \<le> greatest ps"
  using greatest_le_iff [of ps "greatest ps"] by blast

lemma greatest_in: "greatest ps \<noteq> 0 \<Longrightarrow> \<exists>p\<in>set ps. greatest ps = snd p"
  using Max_in [of "insert 0 (snd ` set ps)"] by (auto simp: greatest_Max)

lemma greatest_cong: "set ps = set qs \<Longrightarrow> greatest ps = greatest qs"
  by (simp add: greatest_Max)

lemma greatest_mono: "set ps \<subseteq> set qs \<Longrightarrow> greatest ps \<le> greatest qs"
  by (auto simp: greatest_le_iff intro: greatest_ge)

text \<open>The specification's search in the words of the code.\<close>

abbreviation meeting :: "'u::linordered_ab_group_add bounds \<Rightarrow> ('u bounds \<times> nat) list \<Rightarrow> ('u bounds \<times> nat) list" where
  "meeting q \<equiv> filter (\<lambda>(b, _). intersects b q)"

lemma next_order_greatest: "next_order (mset ps) b = greatest (meeting b ps) + 1"
proof -
  have "set (meeting b ps) = {e \<in> set ps. intersects b (fst e)}"
    by (auto simp: intersects_sym [of b])
  then show ?thesis
    by (simp add: next_order_def greatest_Max hits_def)
qed

section \<open>The grid\<close>

text \<open>\<open>chain es h ps\<close>: the list of entries that starts at \<open>h\<close> holds \<open>ps\<close>, with the greatest orders of its
  tails.\<close>

fun chain :: "'u entry list \<Rightarrow> nat \<Rightarrow> ('u bounds \<times> nat) list \<Rightarrow> bool" where
  "chain es h [] \<longleftrightarrow> h = NONE"
| "chain es h (p # ps) \<longleftrightarrow>
     h < length es \<and> e_bounds (es ! h) = fst p \<and> e_order (es ! h) = snd p
     \<and> e_rest_max (es ! h) = greatest (p # ps) \<and> chain es (e_next (es ! h)) ps"

lemma chain_snoc: "chain es h ps \<Longrightarrow> chain (es @ [e]) h ps"
  by (induction ps arbitrary: h) (auto simp: nth_append)

text \<open>The cells a rectangle is kept in, and those of them it covers, in a grid of \<open>n\<close> columns and \<open>m\<close> rows.\<close>

definition in_cell :: "nat \<Rightarrow> nat \<Rightarrow> nat \<times> nat \<Rightarrow> 'u::floor_ceiling bounds \<Rightarrow> bool" where
  "in_cell n m rc b \<longleftrightarrow> has_area b
     \<and> fst rc \<in> {first_cell (snd (spans n m b))..last_cell (snd (spans n m b))}
     \<and> snd rc \<in> {first_cell (fst (spans n m b))..last_cell (fst (spans n m b))}"

definition covers_cell :: "nat \<Rightarrow> nat \<Rightarrow> nat \<times> nat \<Rightarrow> 'u::floor_ceiling bounds \<Rightarrow> bool" where
  "covers_cell n m rc b \<longleftrightarrow>
     span_covers (snd (spans n m b)) (fst rc) m \<and> span_covers (fst (spans n m b)) (snd rc) n"

definition cell_ok ::
    "nat \<Rightarrow> nat \<Rightarrow> 'u::floor_ceiling entry list \<Rightarrow> nat \<times> nat \<Rightarrow> ('u bounds \<times> nat) list \<Rightarrow> cell \<Rightarrow> bool" where
  "cell_ok n m es rc ps c \<longleftrightarrow>
     chain es (c_head c) (rev (filter (\<lambda>(b, _). in_cell n m rc b \<and> \<not> covers_cell n m rc b) ps))
     \<and> c_cover c = greatest (filter (\<lambda>(b, _). in_cell n m rc b \<and> covers_cell n m rc b) ps)
     \<and> c_max c = greatest (filter (\<lambda>(b, _). in_cell n m rc b) ps)"

definition dims_ok :: "'u grid \<Rightarrow> bool" where
  "dims_ok g \<longleftrightarrow> cells_ok (g_columns g) \<and> cells_ok (g_rows g) \<and> length (g_cells g) = g_columns g * g_rows g"

definition cell_ix :: "'u grid \<Rightarrow> nat \<times> nat \<Rightarrow> nat" where
  "cell_ix g rc = fst rc * g_columns g + snd rc"

definition in_range :: "'u grid \<Rightarrow> nat \<times> nat \<Rightarrow> bool" where
  "in_range g rc \<longleftrightarrow> fst rc < g_rows g \<and> snd rc < g_columns g"

text \<open>Every cell holds what \<open>C\<close> says.\<close>

definition cells_hold :: "'u::floor_ceiling grid \<Rightarrow> (nat \<times> nat \<Rightarrow> ('u bounds \<times> nat) list) \<Rightarrow> bool" where
  "cells_hold g C \<longleftrightarrow>
     (\<forall>rc. in_range g rc \<longrightarrow> cell_ok (g_columns g) (g_rows g) (g_entries g) rc (C rc) (g_cells g ! cell_ix g rc))"

definition grid_ok :: "'u::floor_ceiling grid \<Rightarrow> ('u bounds \<times> nat) list \<Rightarrow> bool" where
  "grid_ok g ps \<longleftrightarrow> dims_ok g \<and> cells_hold g (\<lambda>_. ps) \<and> g_degenerate g = filter (\<lambda>(b, _). \<not> has_area b) ps
     \<and> length (g_entries g) \<le> length ps * (g_columns g * g_rows g)"

lemma cell_ix_less: "dims_ok g \<Longrightarrow> in_range g rc \<Longrightarrow> cell_ix g rc < length (g_cells g)"
proof -
  assume a: "dims_ok g" "in_range g rc"
  then have "cell_ix g rc < Suc (fst rc) * g_columns g"
    by (simp add: cell_ix_def in_range_def)
  also have "\<dots> \<le> g_rows g * g_columns g"
    using a(2) by (intro mult_le_mono) (simp_all add: in_range_def)
  finally show ?thesis
    using a(1) by (simp add: dims_ok_def mult.commute)
qed

lemma cell_ix_inj: "in_range g rc \<Longrightarrow> in_range g rc' \<Longrightarrow> cell_ix g rc = cell_ix g rc' \<Longrightarrow> rc = rc'"
proof -
  assume a: "in_range g rc" "in_range g rc'" "cell_ix g rc = cell_ix g rc'"
  have "cell_ix g x div g_columns g = fst x \<and> cell_ix g x mod g_columns g = snd x" if "in_range g x" for x
    using that by (simp add: cell_ix_def in_range_def)
  with a show ?thesis
    by (metis prod.expand)
qed

lemma cell_ok_snoc: "cell_ok n m es rc ps c \<Longrightarrow> cell_ok n m (es @ [e]) rc ps c"
  by (simp add: cell_ok_def chain_snoc)

text \<open>One cell is updated.\<close>

lemma add_to_cell_ok:
  fixes b :: "'u::floor_ceiling bounds" and g :: "'u grid"
  defines "n \<equiv> g_columns g" and "m \<equiv> g_rows g"
  assumes g: "dims_ok g" "cells_hold g C" "length (g_entries g) < NONE"
    and rc: "in_range g rc" "in_cell n m rc b"
  shows "\<exists>g'. add_to_cell b v (cell_ix g rc) (covers_cell n m rc b) g = Some g' \<and> dims_ok g'
    \<and> g_columns g' = n \<and> g_rows g' = m \<and> g_degenerate g' = g_degenerate g
    \<and> length (g_entries g') \<le> Suc (length (g_entries g)) \<and> cells_hold g' (C(rc := C rc @ [(b, v)]))"
proof -
  let ?i = "cell_ix g rc" and ?es = "g_entries g"
  let ?c = "g_cells g ! ?i"
  have i: "?i < length (g_cells g)"
    using cell_ix_less g(1) rc(1) by blast
  have ok: "cell_ok n m ?es rc' (C rc') (g_cells g ! cell_ix g rc')" if "in_range g rc'" for rc'
    using g(2) that unfolding cells_hold_def n_def m_def by blast
  have hold: "cells_hold (g\<lparr>g_cells := (g_cells g)[?i := c'], g_entries := es'\<rparr>) (C(rc := C rc @ [(b, v)]))"
    (is "cells_hold ?g _")
    if new: "cell_ok n m es' rc (C rc @ [(b, v)]) c'" and es': "es' = ?es \<or> es' = ?es @ [e]" for c' es' e
    unfolding cells_hold_def
  proof (intro allI impI)
    fix rc' assume "in_range ?g rc'"
    then have r: "in_range g rc'" "cell_ix ?g rc' = cell_ix g rc'"
      by (simp_all add: in_range_def cell_ix_def)
    have "cell_ok n m es' rc' (C rc') (g_cells g ! cell_ix g rc')"
      using ok [OF r(1)] es' cell_ok_snoc by blast
    then show "cell_ok (g_columns ?g) (g_rows ?g) (g_entries ?g) rc' ((C(rc := C rc @ [(b, v)])) rc') (g_cells ?g ! cell_ix ?g rc')"
      unfolding r(2) using new i cell_ix_inj [OF r(1) rc(1)] by (cases "rc' = rc") (auto simp: nth_list_update n_def m_def)
  qed
  show ?thesis
  proof (cases "covers_cell n m rc b")
    case True
    let ?c' = "?c\<lparr>c_max := max (c_max ?c) v, c_cover := max (c_cover ?c) v\<rparr>"
    have "cell_ok n m ?es rc (C rc @ [(b, v)]) ?c'"
      using ok [OF rc(1)] True rc(2) by (simp add: cell_ok_def)
    from hold [OF this] show ?thesis
      using i True g(1) by (simp add: add_to_cell_def dims_ok_def n_def m_def)
  next
    case False
    let ?L = "rev (filter (\<lambda>(b, _). in_cell n m rc b \<and> \<not> covers_cell n m rc b) (C rc))"
    let ?e = "\<lparr>e_bounds = b, e_order = v, e_rest_max = max v (greatest ?L), e_next = c_head ?c\<rparr>"
    let ?c' = "?c\<lparr>c_max := max (c_max ?c) v, c_head := length ?es\<rparr>"
    have ch: "chain ?es (c_head ?c) ?L"
      using ok [OF rc(1)] by (simp add: cell_ok_def)
    have rest: "(case index_at ?es (c_head ?c) of Some nxt \<Rightarrow> max (e_rest_max nxt) v | None \<Rightarrow> v) = max v (greatest ?L)"
      using ch g(3) by (cases ?L) (auto simp: index_at_def max.commute)
    have len: "length ?es mod 2 ^ 32 = length ?es"
      using g(3) by (simp add: NONE_def)
    have "cell_ok n m (?es @ [?e]) rc (C rc @ [(b, v)]) ?c'"
      using ok [OF rc(1)] False rc(2) chain_snoc [OF ch, of ?e] by (simp add: cell_ok_def)
    from hold [OF this, of ?e] show ?thesis
      using i False g(1) rest len by (simp add: add_to_cell_def dims_ok_def n_def m_def)
  qed
qed

lemma add_cells_ok:
  fixes b :: "'u::floor_ceiling bounds"
  assumes "g_columns g = n" "g_rows g = m" "dims_ok g" "cells_hold g C"
    "length (g_entries g) + length rcs \<le> NONE" "distinct rcs"
    "\<forall>rc\<in>set rcs. in_range g rc \<and> in_cell n m rc b"
  shows "\<exists>g'. for_each (\<lambda>rc. add_to_cell b v (fst rc * n + snd rc) (covers_cell n m rc b)) rcs g = Some g'
    \<and> dims_ok g' \<and> g_columns g' = n \<and> g_rows g' = m \<and> g_degenerate g' = g_degenerate g
    \<and> length (g_entries g') \<le> length (g_entries g) + length rcs
    \<and> cells_hold g' (\<lambda>rc. if rc \<in> set rcs then C rc @ [(b, v)] else C rc)"
  using assms
proof (induction rcs arbitrary: g C)
  case (Cons rc rcs)
  have "\<exists>g1. add_to_cell b v (cell_ix g rc) (covers_cell n m rc b) g = Some g1 \<and> dims_ok g1
    \<and> g_columns g1 = n \<and> g_rows g1 = m \<and> g_degenerate g1 = g_degenerate g
    \<and> length (g_entries g1) \<le> Suc (length (g_entries g)) \<and> cells_hold g1 (C(rc := C rc @ [(b, v)]))"
    using add_to_cell_ok [OF Cons.prems(3,4), of rc b v] Cons.prems by simp
  then obtain g1 where g1: "add_to_cell b v (cell_ix g rc) (covers_cell n m rc b) g = Some g1" "dims_ok g1"
    "g_columns g1 = n" "g_rows g1 = m" "g_degenerate g1 = g_degenerate g"
    "length (g_entries g1) \<le> Suc (length (g_entries g))" "cells_hold g1 (C(rc := C rc @ [(b, v)]))"
    by - (elim exE conjE, rule that, assumption+)
  have range1: "in_range g1 rc' \<longleftrightarrow> in_range g rc'" for rc'
    using g1(3,4) Cons.prems(1,2) by (simp add: in_range_def)
  have C1: "(\<lambda>rc'. if rc' \<in> set rcs then (C(rc := C rc @ [(b, v)])) rc' @ [(b, v)] else (C(rc := C rc @ [(b, v)])) rc')
      = (\<lambda>rc'. if rc' \<in> set (rc # rcs) then C rc' @ [(b, v)] else C rc')"
    using Cons.prems(6) by auto
  have "\<exists>g'. for_each (\<lambda>rc. add_to_cell b v (fst rc * n + snd rc) (covers_cell n m rc b)) rcs g1 = Some g'
    \<and> dims_ok g' \<and> g_columns g' = n \<and> g_rows g' = m \<and> g_degenerate g' = g_degenerate g1
    \<and> length (g_entries g') \<le> length (g_entries g1) + length rcs
    \<and> cells_hold g' (\<lambda>rc'. if rc' \<in> set (rc # rcs) then C rc' @ [(b, v)] else C rc')"
    using Cons.IH [OF g1(3,4,2,7)] Cons.prems(5-7) g1(6) unfolding C1 by (simp add: range1)
  then show ?case
    using g1(1,5,6) Cons.prems(1) by (auto simp: cell_ix_def)
qed simp

text \<open>The cells of a rectangle, in the order of the loops.\<close>

definition cells_of :: "nat \<Rightarrow> nat \<Rightarrow> 'u::floor_ceiling bounds \<Rightarrow> (nat \<times> nat) list" where
  "cells_of n m b =
     List.product [first_cell (snd (spans n m b))..<Suc (last_cell (snd (spans n m b)))]
                  [first_cell (fst (spans n m b))..<Suc (last_cell (fst (spans n m b)))]"

lemma spans_cells [simp]:
  "first_cell (fst (spans n m b)) = cell_at (px (origin b)) n"
  "last_cell (fst (spans n m b)) = cell_at (px (bottom_right b)) n"
  "first_cell (snd (spans n m b)) = cell_at (py (origin b)) m"
  "last_cell (snd (spans n m b)) = cell_at (py (bottom_right b)) m"
  by (simp_all add: spans_def span_new_def bottom_right_def Let_def)

lemma spans_eq:
  "spans n m b = (span_new (px (origin b)) (px (bottom_right b)) n, span_new (py (origin b)) (py (bottom_right b)) m)"
  by (simp add: spans_def bottom_right_def Let_def)

lemma cells_of_set: "has_area b \<Longrightarrow> set (cells_of n m b) = {rc. in_cell n m rc b}"
  by (auto simp: cells_of_def in_cell_def)

lemma cells_of_range:
  assumes "dims_ok g" "rc \<in> set (cells_of (g_columns g) (g_rows g) b)"
  shows "in_range g rc"
proof -
  have "fst rc \<le> cell_at (py (bottom_right b)) (g_rows g)" "snd rc \<le> cell_at (px (bottom_right b)) (g_columns g)"
    using assms(2) by (auto simp: cells_of_def)
  then show ?thesis
    using assms(1) le_less_trans [OF _ cell_at_less] by (auto simp: in_range_def dims_ok_def)
qed

lemma cells_of_distinct: "distinct (cells_of n m b)"
  by (simp add: cells_of_def distinct_product del: upt_Suc)

lemma cells_of_length:
  assumes "cells_ok n" "cells_ok m"
  shows "length (cells_of n m b) \<le> n * m"
proof -
  have "Suc (cell_at (py (bottom_right b)) m) - cell_at (py (origin b)) m \<le> m"
    "Suc (cell_at (px (bottom_right b)) n) - cell_at (px (origin b)) n \<le> n"
    using cell_at_less [OF assms(1), of "px (bottom_right b)"] cell_at_less [OF assms(2), of "py (bottom_right b)"] by simp_all
  then have "(Suc (cell_at (py (bottom_right b)) m) - cell_at (py (origin b)) m)
      * (Suc (cell_at (px (bottom_right b)) n) - cell_at (px (origin b)) n) \<le> m * n"
    by (rule mult_le_mono)
  then show ?thesis
    by (simp add: cells_of_def mult.commute del: upt_Suc)
qed

text \<open>Both grid operations run over the cells of a rectangle.\<close>

lemma grid_add_cells:
  "grid_add g b v =
     (if has_area b
      then for_each (\<lambda>rc. add_to_cell b v (fst rc * g_columns g + snd rc) (covers_cell (g_columns g) (g_rows g) rc b))
             (cells_of (g_columns g) (g_rows g) b) g
      else Some (g\<lparr>g_degenerate := g_degenerate g @ [(b, v)]\<rparr>))"
  by (simp add: grid_add_def Let_def case_prod_unfold for_each_nested covers_cell_def cells_of_def del: upt_Suc)

lemma max_intersecting_cells:
  "max_intersecting g q =
     for_each (\<lambda>rc. search_cell g q (fst rc * g_columns g + snd rc)
                (enters (snd (spans (g_columns g) (g_rows g) q)) (fst rc) (g_rows g)
                 \<and> enters (fst (spans (g_columns g) (g_rows g) q)) (snd rc) (g_columns g)))
       (cells_of (g_columns g) (g_rows g) q) (greatest (meeting q (g_degenerate g)))"
  by (simp add: max_intersecting_def Let_def case_prod_unfold for_each_nested cells_of_def del: upt_Suc)

text \<open>The number of rectangles a tree takes before the 32-bit index of an entry can reach \<^const>\<open>NONE\<close>.\<close>

definition CAPACITY :: nat where
  "CAPACITY = 65535"

lemma entries_fit:
  assumes "cells_ok n" "cells_ok m" "k < CAPACITY"
  shows "k * (n * m) + n * m \<le> NONE"
proof -
  have "n * m \<le> 256 * 256"
    using cells_okD(2) [OF assms(1)] cells_okD(2) [OF assms(2)] by (rule mult_le_mono)
  then have "Suc k * (n * m) \<le> 65535 * (256 * 256)"
    using assms(3) by (intro mult_le_mono [of "Suc k"]) (simp_all add: CAPACITY_def)
  also have "\<dots> \<le> NONE"
    by (simp add: NONE_def)
  finally show ?thesis
    by simp
qed

lemma cell_ok_skip: "\<not> in_cell n m rc b \<Longrightarrow> cell_ok n m es rc (ps @ [(b, v)]) c \<longleftrightarrow> cell_ok n m es rc ps c"
  by (simp add: cell_ok_def)

lemma grid_add_ok:
  assumes ok: "grid_ok g ps" and room: "length ps < CAPACITY"
  shows "\<exists>g'. grid_add g b v = Some g' \<and> grid_ok g' (ps @ [(b, v)])
    \<and> g_columns g' = g_columns g \<and> g_rows g' = g_rows g"
proof (cases "has_area b")
  case False
  then have "\<not> in_cell n m rc b" for n m rc
    by (simp add: in_cell_def)
  then show ?thesis
    using ok False by (simp add: grid_add_cells grid_ok_def dims_ok_def cells_hold_def in_range_def cell_ix_def cell_ok_skip)
next
  case True
  let ?n = "g_columns g" and ?m = "g_rows g"
  let ?rcs = "cells_of ?n ?m b"
  have d: "dims_ok g" "cells_hold g (\<lambda>_. ps)" "length (g_entries g) \<le> length ps * (?n * ?m)"
      "g_degenerate g = filter (\<lambda>(b, _). \<not> has_area b) ps"
    using ok by (simp_all add: grid_ok_def)
  then have nm: "cells_ok ?n" "cells_ok ?m"
    by (simp_all add: dims_ok_def)
  have len: "length (g_entries g) + length ?rcs \<le> NONE"
    using d(3) cells_of_length [OF nm, of b] entries_fit [OF nm room] by linarith
  have "\<forall>rc\<in>set ?rcs. in_range g rc \<and> in_cell ?n ?m rc b"
    using cells_of_range [OF d(1)] cells_of_set [OF True, of ?n ?m] by blast
  note added = add_cells_ok [OF refl refl d(1,2) len cells_of_distinct this, of v]
  have "for_each (\<lambda>rc. add_to_cell b v (fst rc * ?n + snd rc) (covers_cell ?n ?m rc b)) ?rcs g = grid_add g b v"
    using True by (simp add: grid_add_cells)
  from added [unfolded this] obtain g' where g': "grid_add g b v = Some g'" "dims_ok g'" "g_columns g' = ?n" "g_rows g' = ?m"
      "g_degenerate g' = g_degenerate g" "length (g_entries g') \<le> length (g_entries g) + length ?rcs"
      and hold: "cells_hold g' (\<lambda>rc. if rc \<in> set ?rcs then ps @ [(b, v)] else ps)"
    by - (elim exE conjE, rule that, assumption+)
  have "cells_hold g' (\<lambda>_. ps @ [(b, v)])"
    unfolding cells_hold_def
  proof (intro allI impI)
    fix rc assume "in_range g' rc"
    then have "cell_ok ?n ?m (g_entries g') rc (if rc \<in> set ?rcs then ps @ [(b, v)] else ps) (g_cells g' ! cell_ix g' rc)"
      using hold unfolding cells_hold_def g'(3,4) by blast
    then show "cell_ok (g_columns g') (g_rows g') (g_entries g') rc (ps @ [(b, v)]) (g_cells g' ! cell_ix g' rc)"
      using True by (auto simp: g'(3,4) cells_of_set cell_ok_skip split: if_splits)
  qed
  moreover have "length (g_entries g') \<le> length (ps @ [(b, v)]) * (?n * ?m)"
    using g'(6) d(3) cells_of_length [OF nm, of b] by simp
  ultimately show ?thesis
    using g' d(4) True by (simp add: grid_ok_def)
qed

subsection \<open>Searching\<close>

lemma walk_ok:
  "chain es h ps \<Longrightarrow> length es \<le> NONE \<Longrightarrow> walk es q h v = Some (max v (greatest (meeting q ps)))"
proof (induction ps arbitrary: h v)
  case Nil
  then show ?case
    by (subst walk.simps) (simp add: index_at_def)
next
  case (Cons p ps)
  let ?e = "es ! h"
  have e: "h < length es" "e_bounds ?e = fst p" "e_order ?e = snd p" "e_rest_max ?e = greatest (p # ps)"
      "chain es (e_next ?e) ps"
    using Cons.prems by simp_all
  show ?case
  proof (cases "greatest (p # ps) \<le> v")
    case True
    moreover have "greatest (meeting q (p # ps)) \<le> greatest (p # ps)"
      by (rule greatest_mono) auto
    ultimately have "max v (greatest (meeting q (p # ps))) = v"
      by linarith
    with True e show ?thesis
      by (subst walk.simps) simp
  next
    case False
    have "walk es q h v = walk es q (e_next ?e) (if snd p > v \<and> intersects (fst p) q then snd p else v)"
      using False e by (subst walk.simps) auto
    also have "\<dots> = Some (max v (greatest (meeting q (p # ps))))"
      unfolding Cons.IH [OF e(5) Cons.prems(2)] by (cases p) (auto simp: max_def)
    finally show ?thesis .
  qed
qed

text \<open>What a cell contributes to a search: the covering rectangles when the query enters it, and the
  listed ones the query meets.\<close>

definition cell_answer :: "nat \<Rightarrow> nat \<Rightarrow> 'u::floor_ceiling bounds \<Rightarrow> ('u bounds \<times> nat) list \<Rightarrow> nat \<times> nat \<Rightarrow> ('u bounds \<times> nat) list" where
  "cell_answer n m q ps rc =
     filter (\<lambda>(b, _). in_cell n m rc b \<and>
       (if covers_cell n m rc b then enters (snd (spans n m q)) (fst rc) m \<and> enters (fst (spans n m q)) (snd rc) n
        else intersects b q)) ps"

lemma search_cell_ok:
  assumes "dims_ok g" "cells_hold g (\<lambda>_. ps)" "length (g_entries g) \<le> NONE" "in_range g rc"
  defines "n \<equiv> g_columns g" and "m \<equiv> g_rows g"
  shows "search_cell g q (cell_ix g rc) (enters (snd (spans n m q)) (fst rc) m \<and> enters (fst (spans n m q)) (snd rc) n) v
           = Some (max v (greatest (cell_answer n m q ps rc)))"
proof -
  let ?c = "g_cells g ! cell_ix g rc" and ?L = "filter (\<lambda>(b, _). in_cell n m rc b \<and> \<not> covers_cell n m rc b) ps"
  let ?in = "enters (snd (spans n m q)) (fst rc) m \<and> enters (fst (spans n m q)) (snd rc) n"
  have "cell_ok n m (g_entries g) rc ps ?c"
    using assms(2,4) unfolding cells_hold_def n_def m_def by blast
  then have c: "chain (g_entries g) (c_head ?c) (rev ?L)"
      "c_cover ?c = greatest (filter (\<lambda>(b, _). in_cell n m rc b \<and> covers_cell n m rc b) ps)"
      "c_max ?c = greatest (filter (\<lambda>(b, _). in_cell n m rc b) ps)"
    by (simp_all add: cell_ok_def)
  have split: "greatest (cell_answer n m q ps rc) = max (if ?in then c_cover ?c else 0) (greatest (meeting q ?L))"
  proof -
    have "set (cell_answer n m q ps rc)
        = set ((if ?in then filter (\<lambda>(b, _). in_cell n m rc b \<and> covers_cell n m rc b) ps else []) @ meeting q ?L)"
      by (auto simp: cell_answer_def split: if_splits)
    from greatest_cong [OF this] show ?thesis
      by (simp add: c(2))
  qed
  have w: "walk (g_entries g) q (c_head ?c) u = Some (max u (greatest (meeting q ?L)))" for u
    using walk_ok [OF c(1) assms(3), of q u] by (simp add: rev_filter [symmetric])
  show ?thesis
  proof (cases "c_max ?c \<le> v")
    case True
    have "greatest (cell_answer n m q ps rc) \<le> c_max ?c"
      unfolding c(3) cell_answer_def by (rule greatest_mono) auto
    with True show ?thesis
      using cell_ix_less [OF assms(1,4)] by (simp add: search_cell_def)
  next
    case False
    then show ?thesis
      using cell_ix_less [OF assms(1,4)] unfolding split by (simp add: search_cell_def w max_def)
  qed
qed

lemma for_each_greatest:
  "(\<And>rc v. rc \<in> set rcs \<Longrightarrow> f rc v = Some (max v (greatest (A rc)))) \<Longrightarrow>
   for_each f rcs v = Some (max v (greatest (concat (map A rcs))))"
  by (induction rcs arbitrary: v) (simp_all add: max.assoc)

text \<open>Two rectangles with an area that meet are found in a cell of both; and what a cell answers with
  meets the query.\<close>

lemma cell_answer_complete:
  fixes b :: "'u::floor_ceiling bounds"
  assumes "cells_ok n" "cells_ok m" "(b, v) \<in> set ps" "has_area b" "has_area q" "intersects b q"
  shows "\<exists>rc\<in>set (cells_of n m q). (b, v) \<in> set (cell_answer n m q ps rc)"
proof -
  let ?r = "cell_at (max (py (origin q)) (py (origin b))) m" and ?c = "cell_at (max (px (origin q)) (px (origin b))) n"
  have area: "px (origin c) < px (bottom_right c)" "py (origin c) < py (bottom_right c)" if "has_area c" for c :: "'u bounds"
    using that by (simp_all add: has_area_def bottom_right_def)
  note y = overlap_cell [OF assms(2) area(2) [OF assms(5)] area(2) [OF assms(4)]]
  note x = overlap_cell [OF assms(1) area(1) [OF assms(5)] area(1) [OF assms(4)]]
  have "(?r, ?c) \<in> set (cells_of n m q)" "in_cell n m (?r, ?c) b"
    using x y assms(4-6) by (simp_all add: cells_of_set in_cell_def intersects_def)
  moreover have "enters (snd (spans n m q)) ?r m" "enters (fst (spans n m q)) ?c n"
    using x(5) y(5) assms(6) by (simp_all add: spans_eq intersects_def)
  ultimately show ?thesis
    using assms(3,6) by (intro bexI [of _ "(?r, ?c)"]) (auto simp: cell_answer_def)
qed

lemma cell_answer_sound:
  assumes "(b, v) \<in> set (cell_answer n m q ps rc)"
  shows "(b, v) \<in> set ps \<and> has_area b \<and> intersects b q"
proof -
  have "intersects b q"
    if "covers_cell n m rc b" "enters (snd (spans n m q)) (fst rc) m" "enters (fst (spans n m q)) (snd rc) n"
    using that covers_enters [of "py (origin b)" "py (bottom_right b)" m "fst rc" "py (origin q)" "py (bottom_right q)"]
      covers_enters [of "px (origin b)" "px (bottom_right b)" n "snd rc" "px (origin q)" "px (bottom_right q)"]
    by (simp add: covers_cell_def spans_eq intersects_def)
  then show ?thesis
    using assms by (auto simp: cell_answer_def in_cell_def split: if_splits)
qed

lemma max_intersecting_ok:
  assumes ok: "grid_ok g ps" and room: "length ps \<le> CAPACITY" and q: "has_area q"
  shows "max_intersecting g q = Some (greatest (meeting q ps))"
proof -
  let ?n = "g_columns g" and ?m = "g_rows g"
  let ?rcs = "cells_of ?n ?m q"
  let ?A = "cell_answer ?n ?m q ps"
  have d: "dims_ok g" "cells_hold g (\<lambda>_. ps)" "g_degenerate g = filter (\<lambda>(b, _). \<not> has_area b) ps"
    using ok by (simp_all add: grid_ok_def)
  then have nm: "cells_ok ?n" "cells_ok ?m"
    by (simp_all add: dims_ok_def)
  have "length ps * (?n * ?m) \<le> NONE"
    using entries_fit [OF nm, of "length ps - 1"] room by (cases "length ps") (simp_all add: CAPACITY_def)
  then have len: "length (g_entries g) \<le> NONE"
    using ok by (simp add: grid_ok_def)
  have "search_cell g q (fst rc * ?n + snd rc) (enters (snd (spans ?n ?m q)) (fst rc) ?m \<and> enters (fst (spans ?n ?m q)) (snd rc) ?n) v
      = Some (max v (greatest (?A rc)))" if "rc \<in> set ?rcs" for rc v
    using search_cell_ok [OF d(1,2) len cells_of_range [OF d(1) that]] by (simp add: cell_ix_def)
  then have "max_intersecting g q = Some (greatest (meeting q (g_degenerate g) @ concat (map ?A ?rcs)))"
    unfolding max_intersecting_cells by (subst for_each_greatest [where A = ?A]) simp_all
  moreover have "set (meeting q (g_degenerate g) @ concat (map ?A ?rcs)) = set (meeting q ps)"
    using cell_answer_complete [OF nm _ _ q] cell_answer_sound by (fastforce simp: d(3))
  ultimately show ?thesis
    by (simp add: greatest_Max)
qed

section \<open>The bounds that changed\<close>

lemma columns_mask_bit:
  assumes "r < CHANGED_CELLS"
  shows "bit (columns_mask l r) i \<longleftrightarrow> l \<le> i \<and> i \<le> r"
  using assms by (auto simp: columns_mask_def CHANGED_CELLS_def bit_simps)

definition marked :: "64 word list \<Rightarrow> 'u::floor_ceiling bounds \<Rightarrow> bool" where
  "marked rows b \<longleftrightarrow>
     (\<exists>left right upper bottom. changed_cells b = Some (left, right, upper, bottom)
        \<and> (\<forall>row col. upper \<le> row \<and> row \<le> bottom \<and> left \<le> col \<and> col \<le> right \<longrightarrow> bit (rows ! row) col))"

definition changed_ok :: "'u::floor_ceiling changed_bounds \<Rightarrow> bool" where
  "changed_ok c \<longleftrightarrow> length (ch_rows c) = CHANGED_CELLS
     \<and> (ch_unmarked c \<or> (\<forall>b\<in>set (ch_bounds c). marked (ch_rows c) b))"

lemma changed_cells_Some:
  assumes "changed_cells b = Some (l, r, u, d)"
  shows "l = cell_at (px (origin b)) CHANGED_CELLS" "r = cell_at (px (bottom_right b)) CHANGED_CELLS"
    "u = cell_at (py (origin b)) CHANGED_CELLS" "d = cell_at (py (bottom_right b)) CHANGED_CELLS"
    "px (origin b) \<le> px (bottom_right b)" "py (origin b) \<le> py (bottom_right b)"
  using assms by (auto simp: changed_cells_def bottom_right_def Let_def split: if_splits)

lemma changed_cells_range:
  assumes "changed_cells b = Some (l, r, u, d)"
  shows "l \<le> r" "r < CHANGED_CELLS" "u \<le> d" "d < CHANGED_CELLS"
  using changed_cells_Some [OF assms] by (simp_all add: cell_at_mono)

lemma marked_mono:
  assumes "marked rows x" "\<And>i col. i < CHANGED_CELLS \<Longrightarrow> bit (rows ! i) col \<Longrightarrow> bit (rows' ! i) col"
  shows "marked rows' x"
proof -
  obtain l r u d where x: "changed_cells x = Some (l, r, u, d)"
    and bits: "\<forall>row col. u \<le> row \<and> row \<le> d \<and> l \<le> col \<and> col \<le> r \<longrightarrow> bit (rows ! row) col"
    using assms(1) by (auto simp: marked_def)
  with assms(2) le_less_trans [OF _ changed_cells_range(4) [OF x]] show ?thesis
    by (auto simp: marked_def)
qed

lemma mark_rows_ok:
  assumes "u \<le> d" "d < length rows"
  shows "\<exists>rows'. mark_rows rows u d bits = Some rows' \<and> length rows' = length rows
    \<and> (\<forall>i<length rows. rows' ! i = (if u \<le> i \<and> i \<le> d then rows ! i OR bits else rows ! i))"
  using assms by (auto simp: mark_rows_def slice_incl_def nth_append min_def)

lemma changed_push_ok:
  assumes "changed_ok c"
  shows "\<exists>c'. changed_push c b = Some c' \<and> changed_ok c' \<and> ch_bounds c' = ch_bounds c @ [b]"
proof (cases "changed_cells b")
  case None
  with assms show ?thesis
    by (simp add: changed_push_def changed_ok_def)
next
  case (Some a)
  then obtain l r u d where b: "changed_cells b = Some (l, r, u, d)"
    by (cases a) auto
  note range = changed_cells_range [OF b]
  have len: "length (ch_rows c) = CHANGED_CELLS"
    using assms by (simp add: changed_ok_def)
  obtain rows' where rows': "mark_rows (ch_rows c) u d (columns_mask l r) = Some rows'" "length rows' = length (ch_rows c)"
      "\<forall>i<length (ch_rows c). rows' ! i = (if u \<le> i \<and> i \<le> d then ch_rows c ! i OR columns_mask l r else ch_rows c ! i)"
    using mark_rows_ok [of u d "ch_rows c" "columns_mask l r"] range len by auto
  have "marked rows' b"
    using b rows'(3) range len columns_mask_bit [OF range(2), of l] by (auto simp: marked_def bit_or_iff)
  moreover have "marked rows' x" if "marked (ch_rows c) x" for x
    by (rule marked_mono [OF that]) (use rows'(3) len in \<open>auto simp: bit_or_iff\<close>)
  ultimately have "changed_ok (c\<lparr>ch_rows := rows', ch_bounds := ch_bounds c @ [b]\<rparr>)"
    using assms rows'(2) by (auto simp: changed_ok_def)
  then show ?thesis
    using b rows'(1) by (simp add: changed_push_def)
qed

lemma might_meet_ok:
  fixes c :: "'u::floor_ceiling changed_bounds"
  assumes ok: "changed_ok c"
  shows "\<exists>meet. might_meet c b = Some meet \<and> (\<not> meet \<longrightarrow> (\<forall>x\<in>set (ch_bounds c). \<not> intersects x b))"
proof (cases "ch_bounds c = [] \<or> ch_unmarked c \<or> changed_cells b = None")
  case True
  then show ?thesis
    by (auto simp: might_meet_def)
next
  case False
  then obtain l r u d where b: "changed_cells b = Some (l, r, u, d)"
    by auto
  note range = changed_cells_range [OF b] and cells = changed_cells_Some [OF b]
  have len: "length (ch_rows c) = CHANGED_CELLS" and marks: "\<forall>x\<in>set (ch_bounds c). marked (ch_rows c) x"
    using ok False by (auto simp: changed_ok_def)
  let ?rows = "take (Suc d - u) (drop u (ch_rows c))"
  have eval: "might_meet c b = Some (\<exists>row\<in>set ?rows. row AND columns_mask l r \<noteq> 0)"
    using False b range len by (simp add: might_meet_def slice_incl_def list_ex_iff)
  have "\<exists>row\<in>set ?rows. row AND columns_mask l r \<noteq> 0" if x: "x \<in> set (ch_bounds c)" "intersects x b" for x
  proof -
    obtain l' r' u' d' where x': "changed_cells x = Some (l', r', u', d')"
      and bits: "\<forall>row col. u' \<le> row \<and> row \<le> d' \<and> l' \<le> col \<and> col \<le> r' \<longrightarrow> bit (ch_rows c ! row) col"
      using marks x(1) by (auto simp: marked_def)
    note cells' = changed_cells_Some [OF x']
    obtain row where row: "u \<le> row" "row \<le> d" "u' \<le> row" "row \<le> d'"
      using cell_ranges_meet [OF cells_ok_simps(1) cells(6) cells'(6)] x(2) cells(3,4) cells'(3,4)
      by (auto simp: intersects_def)
    obtain col where col: "l \<le> col" "col \<le> r" "l' \<le> col" "col \<le> r'"
      using cell_ranges_meet [OF cells_ok_simps(1) cells(5) cells'(5)] x(2) cells(1,2) cells'(1,2)
      by (auto simp: intersects_def)
    have "bit (ch_rows c ! row AND columns_mask l r) col"
      using bits row col columns_mask_bit [OF range(2)] by (simp add: bit_and_iff)
    then have "ch_rows c ! row AND columns_mask l r \<noteq> 0"
      by auto
    moreover have "ch_rows c ! row = ?rows ! (row - u)" "row - u < length ?rows"
      using row range len by simp_all
    ultimately show ?thesis
      by (metis nth_mem)
  qed
  then show ?thesis
    using eval by blast
qed

section \<open>The tree\<close>

text \<open>Every order of a frame is the one the specification gives after the rectangles before it.\<close>

definition orders_ok :: "('u::floor_ceiling bounds \<times> nat) list \<Rightarrow> bool" where
  "orders_ok ps \<longleftrightarrow> (\<forall>i<length ps. snd (ps ! i) = next_order (mset (take i ps)) (fst (ps ! i)))"

lemma orders_ok_Nil [simp]: "orders_ok []"
  by (simp add: orders_ok_def)

lemma orders_ok_snoc: "orders_ok ps \<Longrightarrow> orders_ok (ps @ [(b, next_order (mset ps) b)])"
  by (auto simp: orders_ok_def nth_append less_Suc_eq)

definition max_ok :: "('u bounds \<times> nat) option \<Rightarrow> ('u bounds \<times> nat) list \<Rightarrow> bool" where
  "max_ok mx ps \<longleftrightarrow> (case mx of None \<Rightarrow> ps = [] | Some p \<Rightarrow> p \<in> set ps \<and> snd p = greatest ps)"

lemma raise_max_ok: "max_ok mx ps \<Longrightarrow> max_ok (raise_max mx b v) (ps @ [(b, v)])"
  by (auto simp: max_ok_def raise_max_def max_def split: option.splits)

text \<open>While replaying, every position where the frames differ has its rectangles among the changed ones.\<close>

definition changes_noted :: "('u bounds \<times> nat) list \<Rightarrow> ('u bounds \<times> nat) list \<Rightarrow> 'u bounds list \<Rightarrow> bool" where
  "changes_noted now before cs \<longleftrightarrow>
     (\<forall>i<length now. i < length before \<and> now ! i = before ! i
        \<or> fst (now ! i) \<in> set cs \<and> (i < length before \<longrightarrow> fst (before ! i) \<in> set cs))"

definition ft_ok :: "'u::floor_ceiling fast_tree \<Rightarrow> bool" where
  "ft_ok t \<longleftrightarrow> orders_ok (recorded t) \<and> orders_ok (previous t) \<and> changed_ok (changed t)
     \<and> (if replaying t
        then grid_ok (ft_grid t) [] \<and> ft_max t = None \<and> changes_noted (recorded t) (previous t) (ch_bounds (changed t))
        else grid_ok (ft_grid t) (recorded t) \<and> max_ok (ft_max t) (recorded t))"

lemma changes_noted_Nil [simp]: "changes_noted [] before cs"
  by (simp add: changes_noted_def)

lemma changes_noted_snoc:
  assumes "changes_noted now before cs" "set cs \<subseteq> set cs'"
    "length now < length before \<and> before ! length now = (b, v)
     \<or> b \<in> set cs' \<and> (length now < length before \<longrightarrow> fst (before ! length now) \<in> set cs')"
  shows "changes_noted (now @ [(b, v)]) before cs'"
  using assms by (auto simp: changes_noted_def nth_append less_Suc_eq)

text \<open>What makes the replay sound: a rectangle that meets no changed one meets the same ones as before.\<close>

lemma replay_same:
  assumes noted: "changes_noted now before cs" and before: "orders_ok before"
    and len: "length now < length before" and nth: "before ! length now = (b, v)"
    and apart: "\<forall>c\<in>set cs. \<not> intersects c b"
  shows "v = next_order (mset now) b"
proof -
  let ?old = "take (length now) before"
  have "now ! i = ?old ! i \<or> \<not> intersects (fst (now ! i)) b \<and> \<not> intersects (fst (?old ! i)) b" if "i < length now" for i
    using noted apart len that by (auto simp: changes_noted_def)
  then have "(\<exists>i<length now. now ! i = x \<and> intersects (fst x) b) \<longleftrightarrow> (\<exists>i<length now. ?old ! i = x \<and> intersects (fst x) b)" for x
    by metis
  then have "x \<in> set (meeting b now) \<longleftrightarrow> x \<in> set (meeting b ?old)" for x
    using len by (simp add: in_set_conv_nth case_prod_unfold conj_commute conj_left_commute)
  then have "greatest (meeting b now) = greatest (meeting b ?old)"
    by (intro greatest_cong) blast
  moreover have "v = next_order (mset ?old) b"
    using before len nth unfolding orders_ok_def by (metis fst_conv snd_conv)
  ultimately show ?thesis
    by (simp add: next_order_greatest)
qed

lemma replay_search_ok:
  assumes ok: "ft_ok t" "replaying t"
  shows "\<exists>c budget r. replay_search t b = Some (t\<lparr>changed := c, replay_search_budget := budget\<rparr>, r) \<and> changed_ok c
    \<and> (case r of
         None \<Rightarrow> c = changed t
       | Some v \<Rightarrow> v = next_order (mset (recorded t)) b
           \<and> changes_noted (recorded t @ [(b, v)]) (previous t) (ch_bounds c))"
proof (cases "length (recorded t) \<le> replay_search_budget t")
  case False
  then show ?thesis
    using ok by (intro exI [of _ "changed t"] exI [of _ "replay_search_budget t"] exI [of _ None])
      (simp add: replay_search_def checked_sub_def ft_ok_def)
next
  case True
  define v where "v = next_order (mset (recorded t)) b"
  let ?n = "length (recorded t)" and ?p = "previous t"
  have c: "changed_ok (changed t)" and noted: "changes_noted (recorded t) ?p (ch_bounds (changed t))"
    using ok by (auto simp: ft_ok_def)
  let ?upd = "note_change (index_at ?p ?n) b v (changed t)"
  have "\<exists>c'. ?upd = Some c' \<and> changed_ok c' \<and> changes_noted (recorded t @ [(b, v)]) ?p (ch_bounds c')"
  proof -
    obtain c1 where c1: "changed_push (changed t) b = Some c1" "changed_ok c1" "ch_bounds c1 = ch_bounds (changed t) @ [b]"
      using changed_push_ok [OF c] by blast
    obtain c2 where c2: "changed_push (changed t) (fst (?p ! ?n)) = Some c2" "changed_ok c2"
        "ch_bounds c2 = ch_bounds (changed t) @ [fst (?p ! ?n)]"
      using changed_push_ok [OF c] by blast
    obtain c3 where c3: "changed_push c2 b = Some c3" "changed_ok c3" "ch_bounds c3 = ch_bounds c2 @ [b]"
      using changed_push_ok [OF c2(2)] by blast
    show ?thesis
    proof (cases "?n < length ?p")
      case False
      then show ?thesis
        using c1 changes_noted_snoc [OF noted, of "ch_bounds c1" b v] by (simp add: index_at_def note_change_def subset_iff)
    next
      case True
      obtain pb pv where p: "?p ! ?n = (pb, pv)"
        by fastforce
      consider "pb \<noteq> b" | "pb = b" "pv \<noteq> v" | "pb = b" "pv = v"
        by blast
      then show ?thesis
      proof cases
        case 1
        then show ?thesis
          using True p c2 c3 changes_noted_snoc [OF noted, of "ch_bounds c3" b v] by (auto simp: index_at_def note_change_def)
      next
        case 2
        then show ?thesis
          using True p c1 changes_noted_snoc [OF noted, of "ch_bounds c1" b v] by (auto simp: index_at_def note_change_def)
      next
        case 3
        then show ?thesis
          using True p c changes_noted_snoc [OF noted, of "ch_bounds (changed t)" b v] by (auto simp: index_at_def note_change_def)
      qed
    qed
  qed
  then obtain c' where c': "?upd = Some c'" "changed_ok c'" "changes_noted (recorded t @ [(b, v)]) ?p (ch_bounds c')"
    by blast
  have "replay_search t b = Some (t\<lparr>changed := c', replay_search_budget := replay_search_budget t - ?n\<rparr>, Some v)"
    using True c'(1) by (simp add: replay_search_def checked_sub_def v_def next_order_greatest)
  then show ?thesis
    using c'(2,3) v_def
    by (intro exI [of _ c'] exI [of _ "replay_search_budget t - ?n"] exI [of _ "Some v"]) simp
qed

lemma ft_replay_ok:
  assumes ok: "ft_ok t" "replaying t"
  shows "\<exists>c budget r. ft_replay t b = Some (t\<lparr>changed := c, replay_search_budget := budget\<rparr>, r) \<and> changed_ok c
    \<and> (case r of
         None \<Rightarrow> c = changed t
       | Some v \<Rightarrow> v = next_order (mset (recorded t)) b
           \<and> changes_noted (recorded t @ [(b, v)]) (previous t) (ch_bounds c))"
    (is "\<exists>c budget r. ?P t c budget r")
proof (cases "length (recorded t) < length (previous t) \<and> fst (previous t ! length (recorded t)) = b")
  case False
  then have "ft_replay t b = replay_search t b"
    by (auto simp: ft_replay_def index_at_def split: prod.splits)
  with replay_search_ok [OF ok, of b] show ?thesis
    by simp
next
  case True
  let ?cs = "ch_bounds (changed t)" and ?budget = "replay_search_budget t"
  obtain v where p: "length (recorded t) < length (previous t)" "previous t ! length (recorded t) = (b, v)"
    using True by (metis prod.collapse)
  have c: "changed_ok (changed t)" and noted: "changes_noted (recorded t) (previous t) ?cs" and before: "orders_ok (previous t)"
    using ok by (auto simp: ft_ok_def)
  have kept: "changes_noted (recorded t @ [(b, v)]) (previous t) ?cs"
    using changes_noted_snoc [OF noted] p by blast
  obtain meet where meet: "might_meet (changed t) b = Some meet" "\<not> meet \<longrightarrow> (\<forall>x\<in>set ?cs. \<not> intersects x b)"
    using might_meet_ok [OF c] by blast
  have again: "v = next_order (mset (recorded t)) b" if "\<forall>x\<in>set ?cs. \<not> intersects x b"
    using replay_same [OF noted before p that] .
  have apart: "list_ex (\<lambda>x. intersects x b) ?cs \<longleftrightarrow> \<not> (\<forall>x\<in>set ?cs. \<not> intersects x b)"
    by (auto simp: list_ex_iff)
  note eval = ft_replay_def p meet(1) checked_sub_def apart
  consider "\<not> meet" | "meet" "?budget < length ?cs" | "meet" "length ?cs \<le> ?budget" "\<forall>x\<in>set ?cs. \<not> intersects x b"
    | "meet" "length ?cs \<le> ?budget" "\<not> (\<forall>x\<in>set ?cs. \<not> intersects x b)"
    by linarith
  then show ?thesis
  proof cases
    case 1
    then have "?P t (changed t) ?budget (Some v)"
      using meet(2) again kept c by (simp add: eval)
    then show ?thesis by blast
  next
    case 2
    then have "?P t (changed t) ?budget None"
      using c by (simp add: eval)
    then show ?thesis by blast
  next
    case 3
    then have "?P t (changed t) (?budget - length ?cs) (Some v)"
      using again kept c by (simp add: eval)
    then show ?thesis by blast
  next
    case 4
    let ?t = "t\<lparr>replay_search_budget := ?budget - length ?cs\<rparr>"
    have "ft_replay t b = replay_search ?t b"
      using 4 by (simp add: eval)
    moreover have "ft_ok ?t" "replaying ?t"
      using ok by (simp_all add: ft_ok_def)
    ultimately show ?thesis
      using replay_search_ok [of ?t b] by (simp cong: option.case_cong)
  qed
qed

subsection \<open>The grid behind the tree\<close>

lemma needs_ok:
  assumes "dims_ok g" "needs g b = Some (n, m)"
  shows "cells_ok n" "cells_ok m"
proof -
  have "cells_ok (needed e)" for e :: 'a
    by (auto simp: needed_def cells_ok_def clamp_to_def MAX_CELLS_PER_AXIS_def)
  then have max: "cells_ok (max (needed e) k)" if "cells_ok k" for k and e :: 'a
    using that by (simp add: max_def)
  show "cells_ok n" "cells_ok m"
    using assms max by (auto simp: needs_def dims_ok_def Let_def split: if_splits)
qed

lemma grid_empty_ok:
  assumes "dims_ok g" "\<forall>c\<in>set (g_cells g). c = EMPTY" "g_entries g = []" "g_degenerate g = []"
  shows "grid_ok g []"
proof -
  have "g_cells g ! cell_ix g rc = EMPTY" if "in_range g rc" for rc
    using assms(2) cell_ix_less [OF assms(1) that] by simp
  then show ?thesis
    using assms by (simp add: grid_ok_def cells_hold_def cell_ok_def EMPTY_def)
qed

lemma grid_clear_ok: "dims_ok g \<Longrightarrow> grid_ok (grid_clear g) []"
  by (rule grid_empty_ok) (auto simp: grid_clear_def dims_ok_def)

lemma resize_ok: "cells_ok n \<Longrightarrow> cells_ok m \<Longrightarrow> grid_ok (resize g n m) []"
  by (rule grid_empty_ok) (auto simp: resize_def dims_ok_def)

text \<open>Placing a list of rectangles whose orders are known, with the greatest of them kept.\<close>

lemma place_ok:
  assumes "grid_ok g ps" "max_ok mx ps" "length ps + length qs \<le> CAPACITY"
  shows "\<exists>g' mx'. for_each (\<lambda>(b, v) (g, mx). do { g \<leftarrow> grid_add g b v; Some (g, raise_max mx b v) }) qs (g, mx) = Some (g', mx')
    \<and> for_each (\<lambda>(b, v) g. grid_add g b v) qs g = Some g' \<and> grid_ok g' (ps @ qs) \<and> max_ok mx' (ps @ qs)"
  using assms
proof (induction qs arbitrary: g mx ps)
  case (Cons q qs)
  obtain b v where q: "q = (b, v)"
    by fastforce
  obtain g1 where g1: "grid_add g b v = Some g1" "grid_ok g1 (ps @ [(b, v)])"
    using grid_add_ok [OF Cons.prems(1), of b v] Cons.prems(3) by auto
  have "max_ok (raise_max mx b v) (ps @ [(b, v)])"
    using raise_max_ok Cons.prems(2) by blast
  from Cons.IH [OF g1(2) this] Cons.prems(3) show ?case
    using g1(1) by (simp add: q)
qed simp

lemma ft_find_max_ordering_ok:
  assumes "grid_ok (ft_grid t) (recorded t)" "max_ok (ft_max t) (recorded t)" "length (recorded t) \<le> CAPACITY"
  shows "ft_find_max_ordering t q = Some (greatest (meeting q (recorded t)))"
proof (cases "\<exists>p. ft_max t = Some p \<and> intersects q (fst p)")
  case True
  then obtain b v where p: "ft_max t = Some (b, v)" "intersects q b"
    by auto
  then have "(b, v) \<in> set (meeting q (recorded t))" "v = greatest (recorded t)"
    using assms(2) intersects_sym by (auto simp: max_ok_def)
  then have "greatest (meeting q (recorded t)) = v"
    using greatest_ge [of "(b, v)" "meeting q (recorded t)"] greatest_mono [of "meeting q (recorded t)" "recorded t"]
    by (intro antisym) auto
  with p show ?thesis
    by (simp add: ft_find_max_ordering_def)
next
  case False
  then show ?thesis
    using max_intersecting_ok [OF assms(1,3)] by (auto simp: ft_find_max_ordering_def split: option.splits)
qed

lemma ft_add_ok:
  assumes ok: "grid_ok (ft_grid t) (recorded t)" "max_ok (ft_max t) (recorded t)" and room: "length (recorded t) < CAPACITY"
  shows "\<exists>g mx. ft_add t b v = Some (t\<lparr>ft_grid := g, ft_max := mx\<rparr>)
    \<and> grid_ok g (recorded t @ [(b, v)]) \<and> max_ok mx (recorded t @ [(b, v)])"
proof -
  let ?pick = "case (if has_area b then needs (ft_grid t) b else None) of
      Some (columns, rows) \<Rightarrow> for_each (\<lambda>(rb, ro) g. grid_add g rb ro) (recorded t) (resize (ft_grid t) columns rows)
    | None \<Rightarrow> Some (ft_grid t)"
  have "\<exists>g. ?pick = Some g \<and> grid_ok g (recorded t)"
  proof (cases "if has_area b then needs (ft_grid t) b else None")
    case None
    with ok show ?thesis by simp
  next
    case (Some nm)
    then obtain n m where nm: "nm = (n, m)" "needs (ft_grid t) b = Some (n, m)"
      by (cases nm) (auto split: if_splits)
    have "grid_ok (resize (ft_grid t) n m) []"
      using resize_ok needs_ok [OF _ nm(2)] ok(1) by (auto simp: grid_ok_def)
    from place_ok [OF this, of None "recorded t"] room show ?thesis
      unfolding Some nm(1) by (auto simp: max_ok_def)
  qed
  then obtain g where g: "?pick = Some g" "grid_ok g (recorded t)"
    by blast
  obtain g' where g': "grid_add g b v = Some g'" "grid_ok g' (recorded t @ [(b, v)])"
    using grid_add_ok [OF g(2) room] by blast
  have "ft_add t b v = Some (t\<lparr>ft_grid := g', ft_max := raise_max (ft_max t) b v\<rparr>)"
    unfolding ft_add_def g(1) by (simp add: g'(1))
  with g'(2) raise_max_ok [OF ok(2)] show ?thesis
    by blast
qed

lemma insert_searched_ok:
  fixes b :: "'u::floor_ceiling bounds" and t :: "'u fast_tree"
  assumes ok: "ft_ok t" "\<not> replaying t" and room: "length (recorded t) < CAPACITY"
  defines "v \<equiv> next_order (mset (recorded t)) b"
  shows "\<exists>t'. insert_searched t b = Some (t', v) \<and> ft_ok t' \<and> recorded t' = recorded t @ [(b, v)]"
proof -
  have g: "grid_ok (ft_grid t) (recorded t)" "max_ok (ft_max t) (recorded t)"
    using ok by (simp_all add: ft_ok_def)
  have "ft_find_max_ordering t b = Some (v - 1)" "v - 1 + 1 = v"
    using ft_find_max_ordering_ok [OF g] room by (simp_all add: v_def next_order_greatest)
  moreover obtain g' mx where "ft_add t b v = Some (t\<lparr>ft_grid := g', ft_max := mx\<rparr>)"
      "grid_ok g' (recorded t @ [(b, v)])" "max_ok mx (recorded t @ [(b, v)])"
    using ft_add_ok [OF g room] by blast
  moreover have "orders_ok (recorded t @ [(b, v)])"
    unfolding v_def using ok by (intro orders_ok_snoc) (simp add: ft_ok_def)
  ultimately show ?thesis
    using ok by (simp add: insert_searched_def ft_ok_def)
qed

lemma build_from_recorded_ok:
  assumes ok: "ft_ok t" "replaying t" and room: "length (recorded t) \<le> CAPACITY"
  shows "\<exists>t'. build_from_recorded (t\<lparr>replaying := False\<rparr>) = Some t' \<and> ft_ok t' \<and> \<not> replaying t' \<and> recorded t' = recorded t"
proof -
  let ?g = "ft_grid t"
  have g: "grid_ok ?g []" "dims_ok ?g" "ft_max t = None"
    using ok by (simp_all add: ft_ok_def grid_ok_def)
  have step: "cells_ok (fst (grow_size ?g p size)) \<and> cells_ok (snd (grow_size ?g p size))"
    if "cells_ok (fst size)" "cells_ok (snd size)" for p size
    using that needs_ok [OF g(2)] by (auto simp: grow_size_def max_def split: option.splits if_splits prod.splits)
  have dims: "cells_ok (fst (fold (grow_size ?g) ps size)) \<and> cells_ok (snd (fold (grow_size ?g) ps size))"
    if "cells_ok (fst size)" "cells_ok (snd size)" for ps size
    using that by (induction ps arbitrary: size) (simp_all add: step)
  obtain n m where nm: "fold (grow_size ?g) (recorded t) (g_columns ?g, g_rows ?g) = (n, m)"
    by fastforce
  have "cells_ok n" "cells_ok m"
    using dims [of "(g_columns ?g, g_rows ?g)" "recorded t"] g(2) unfolding nm by (simp_all add: dims_ok_def)
  define g0 where "g0 = (if (n, m) \<noteq> (g_columns ?g, g_rows ?g) then resize ?g n m else ?g)"
  have "grid_ok g0 []"
    using resize_ok [OF \<open>cells_ok n\<close> \<open>cells_ok m\<close>, of ?g] g(1) by (simp add: g0_def)
  from place_ok [OF this, of None "recorded t"] room obtain g' mx where
    placed: "for_each (\<lambda>(b, v) (g, mx). do { g \<leftarrow> grid_add g b v; Some (g, raise_max mx b v) }) (recorded t) (g0, None) = Some (g', mx)"
    and g': "grid_ok g' (recorded t)" "max_ok mx (recorded t)"
    by (auto simp: max_ok_def)
  have "build_from_recorded (t\<lparr>replaying := False\<rparr>) = Some (t\<lparr>replaying := False, ft_grid := g', ft_max := mx\<rparr>)"
    using placed g(3) nm by (auto simp: build_from_recorded_def g0_def Let_def split: if_splits)
  with g' ok show ?thesis
    by (simp add: ft_ok_def)
qed

lemma ft_insert_ok:
  fixes b :: "'u::floor_ceiling bounds" and t :: "'u fast_tree"
  assumes ok: "ft_ok t" and room: "length (recorded t) < CAPACITY"
  defines "v \<equiv> next_order (mset (recorded t)) b"
  shows "\<exists>t'. ft_insert t b = Some (t', v) \<and> ft_ok t' \<and> recorded t' = recorded t @ [(b, v)]"
proof (cases "replaying t")
  case False
  then show ?thesis
    using insert_searched_ok [OF ok False room, of b] by (simp add: ft_insert_def v_def)
next
  case True
  from ft_replay_ok [OF ok True, of b] obtain c budget r where
    r: "ft_replay t b = Some (t\<lparr>changed := c, replay_search_budget := budget\<rparr>, r)" and c: "changed_ok c"
    and res: "case r of None \<Rightarrow> c = changed t
       | Some w \<Rightarrow> w = v \<and> changes_noted (recorded t @ [(b, w)]) (previous t) (ch_bounds c)"
    unfolding v_def by blast
  show ?thesis
  proof (cases r)
    case None
    let ?t = "t\<lparr>changed := c, replay_search_budget := budget\<rparr>"
    have "ft_ok ?t" "replaying ?t" "length (recorded ?t) \<le> CAPACITY"
      using ok True c res None room by (simp_all add: ft_ok_def)
    from build_from_recorded_ok [OF this] obtain t' where
      t': "build_from_recorded (?t\<lparr>replaying := False\<rparr>) = Some t'" "ft_ok t'" "\<not> replaying t'" "recorded t' = recorded t"
      by auto
    show ?thesis
      using insert_searched_ok [OF t'(2,3), of b] room True r None t'(1,4) by (simp add: ft_insert_def v_def)
  next
    case (Some w)
    then have "w = v" "changes_noted (recorded t @ [(b, v)]) (previous t) (ch_bounds c)"
      using res by auto
    moreover have "orders_ok (recorded t @ [(b, v)])"
      unfolding v_def using ok by (intro orders_ok_snoc) (simp add: ft_ok_def)
    ultimately show ?thesis
      using r c True ok Some by (simp add: ft_insert_def ft_ok_def)
  qed
qed

lemma ft_clear_ok: "ft_ok t \<Longrightarrow> ft_ok (ft_clear t)"
proof -
  assume "ft_ok t"
  then have "dims_ok (ft_grid t)" "orders_ok (recorded t)"
    by (auto simp: ft_ok_def grid_ok_def split: if_splits)
  then show ?thesis
    by (simp add: ft_ok_def ft_clear_def changed_ok_def changed_clear_def grid_clear_ok)
qed

lemma ft_default_ok: "ft_ok ft_default"
  by (simp add: ft_ok_def ft_default_def changed_ok_def max_ok_def) (rule grid_empty_ok, simp_all add: dims_ok_def)

section \<open>The contract of a bounds tree\<close>

text \<open>A run of insertions, and a run of frames with \<open>clear\<close> before each, of any implementation.\<close>

fun run_inserts :: "('t \<Rightarrow> 'b \<Rightarrow> ('t \<times> nat) option) \<Rightarrow> 't \<Rightarrow> 'b list \<Rightarrow> ('t \<times> nat list) option" where
  "run_inserts ins t [] = Some (t, [])"
| "run_inserts ins t (b # bs) =
     do { (t', v) \<leftarrow> ins t b;
          (t'', vs) \<leftarrow> run_inserts ins t' bs;
          Some (t'', v # vs) }"

fun run_frames ::
    "('t \<Rightarrow> 'b \<Rightarrow> ('t \<times> nat) option) \<Rightarrow> ('t \<Rightarrow> 't) \<Rightarrow> 't \<Rightarrow> 'b list list \<Rightarrow> ('t \<times> nat list list) option" where
  "run_frames ins clr t [] = Some (t, [])"
| "run_frames ins clr t (f # fs) =
     do { (t', vs) \<leftarrow> run_inserts ins (clr t) f;
          (t'', vss) \<leftarrow> run_frames ins clr t' fs;
          Some (t'', vs # vss) }"

text \<open>
  \<open>ok t es\<close>: the tree \<open>t\<close> holds the rectangles \<open>es\<close> with their orders; \<open>room n\<close>: a tree of \<open>n\<close> rectangles
  takes one more.
\<close>

locale bounds_orderer =
  fixes ok :: "'t \<Rightarrow> ('u::linordered_ab_group_add bounds \<times> nat) multiset \<Rightarrow> bool"
    and ins :: "'t \<Rightarrow> 'u bounds \<Rightarrow> ('t \<times> nat) option"
    and clr :: "'t \<Rightarrow> 't"
    and room :: "nat \<Rightarrow> bool"
  assumes ins_ok: "ok t es \<Longrightarrow> room (size es) \<Longrightarrow>
      \<exists>t'. ins t b = Some (t', next_order es b) \<and> ok t' (es + {#(b, next_order es b)#})"
    and clr_ok: "ok t es \<Longrightarrow> ok (clr t) {#}"
begin

lemma run_inserts_ok:
  assumes "ok t es" "\<forall>i<length bs. room (size es + i)"
  shows "\<exists>t'. run_inserts ins t bs = Some (t', spec_orders es bs) \<and> ok t' (es + mset (zip bs (spec_orders es bs)))"
  using assms
proof (induction bs arbitrary: t es)
  case (Cons b bs)
  have "room (size es)" "\<forall>i<length bs. room (size (es + {#(b, next_order es b)#}) + i)"
    using Cons.prems(2) by (auto dest: spec [of _ 0] spec [of _ "Suc _"])
  moreover from ins_ok [OF Cons.prems(1) this(1)] obtain t1 where
    "ins t b = Some (t1, next_order es b)" "ok t1 (es + {#(b, next_order es b)#})"
    by blast
  ultimately show ?case
    using Cons.IH [of t1 "es + {#(b, next_order es b)#}"] by auto
qed simp

lemma run_frames_ok:
  assumes "ok t es" "\<forall>f\<in>set fs. \<forall>i<length f. room i"
  shows "\<exists>t' es'. run_frames ins clr t fs = Some (t', map (spec_orders {#}) fs) \<and> ok t' es'"
  using assms
proof (induction fs arbitrary: t es)
  case (Cons f fs)
  obtain t1 where "run_inserts ins (clr t) f = Some (t1, spec_orders {#} f)" "ok t1 (mset (zip f (spec_orders {#} f)))"
    using run_inserts_ok [OF clr_ok [OF Cons.prems(1)], of f] Cons.prems(2) by auto
  moreover from Cons.IH [OF this(2)] Cons.prems(2) obtain t2 es2 where
    "run_frames ins clr t1 fs = Some (t2, map (spec_orders {#}) fs)" "ok t2 es2"
    by auto
  ultimately show ?case
    by auto
qed auto

end

interpretation rtree: bounds_orderer bt_ok bt_insert bt_clear "\<lambda>_. True"
  by unfold_locales (rule bt_insert_ok, assumption, rule bt_default_ok(2))

interpretation grid_tree: bounds_orderer
  "\<lambda>t es. ft_ok t \<and> mset (recorded t) = es" ft_insert ft_clear "\<lambda>n. n < CAPACITY"
proof unfold_locales
  fix t :: "'u::floor_ceiling fast_tree" and es b
  assume t: "ft_ok t \<and> mset (recorded t) = es" "size es < CAPACITY"
  then have "length (recorded t) < CAPACITY"
    by auto
  with ft_insert_ok [of t b] t(1)
  show "\<exists>t'. ft_insert t b = Some (t', next_order es b) \<and> ft_ok t' \<and> mset (recorded t') = es + {#(b, next_order es b)#}"
    by auto
next
  show "ft_ok (ft_clear t) \<and> mset (recorded (ft_clear t)) = {#}" if "ft_ok t \<and> mset (recorded t) = es"
    for t :: "'u::floor_ceiling fast_tree" and es
    using that ft_clear_ok by (auto simp: ft_clear_def)
qed

end
