(* ===== verification/SceneSort.thy ===== *)
theory SceneSort
  imports Prelude "HOL-Library.Multiset" "HOL-Library.Product_Lexorder" "HOL-Library.Word"
begin

text \<open>
  Putting the primitives of a finished scene in drawing order: \<open>gpui/src/fast/scene.rs\<close>.

  \<open>sort_by_draw_order\<close> counts the draw orders, or sorts packed keys when they are spread too wide, and
  moves each primitive once (\<open>gather\<close>); \<open>sort_sprites\<close> sorts keys packed from the draw order, the texture,
  the tile and the index. The code keeps the vectors it works in from one frame to the next; they are
  emptied before they are read, and the model makes them anew. Draw orders, textures and tiles are \<open>u32\<close>
  values, here natural numbers below \<open>2 ^ 32\<close>; the cast of an index to \<open>u32\<close> is written out. A
  \<^const>\<open>None\<close> is an index out of range.

  The specification is HOL's stable sort \<^const>\<open>sort_key\<close>.
\<close>

unbundle bit_operations_syntax

section \<open>The model\<close>

definition MAX_ORDERS_PER_PRIMITIVE :: nat where
  "MAX_ORDERS_PER_PRIMITIVE = 4"

definition gather :: "'a list \<Rightarrow> nat list \<Rightarrow> 'a list option" where
  "gather items order = those (map (index_at items) order)"

text \<open>The first pass: the greatest order, and whether the items are in order.\<close>

definition scan_orders :: "('a \<Rightarrow> nat) \<Rightarrow> 'a list \<Rightarrow> nat \<times> bool \<times> nat" where
  "scan_orders draw_order items =
     fold (\<lambda>item (mx, srt, previous).
             let order = draw_order item in (max mx order, srt \<and> order \<ge> previous, order))
       items (0, True, 0)"

definition packed_order :: "('a \<Rightarrow> nat) \<Rightarrow> 'a list \<Rightarrow> nat list" where
  "packed_order draw_order items =
     map (take_bit 32) (sort (map (\<lambda>(index, item). push_bit 32 (draw_order item) OR index) (enumerate 0 items)))"

definition count_order :: "nat \<Rightarrow> nat list \<Rightarrow> nat list option" where
  "count_order order counts = do { n \<leftarrow> index_at counts order; Some (counts[order := n + 1]) }"

fun run_starts :: "nat \<Rightarrow> nat list \<Rightarrow> nat list" where
  "run_starts start [] = []"
| "run_starts start (primitives # counts) = start # run_starts (start + primitives) counts"

definition place :: "('a \<Rightarrow> nat) \<Rightarrow> nat \<times> 'a \<Rightarrow> nat list \<times> nat list \<Rightarrow> (nat list \<times> nat list) option" where
  "place draw_order p st =
     (let (index, item) = p; (order, counts) = st
      in do { nxt \<leftarrow> index_at counts (draw_order item);
              assert_that (nxt < length order);
              Some (order[nxt := index mod 2 ^ 32], counts[draw_order item := nxt + 1]) })"

definition counted_order :: "('a \<Rightarrow> nat) \<Rightarrow> nat \<Rightarrow> 'a list \<Rightarrow> nat list option" where
  "counted_order draw_order mx items =
     do { counts \<leftarrow> for_each (\<lambda>item. count_order (draw_order item)) items (replicate (mx + 1) 0);
          (order, _) \<leftarrow> for_each (place draw_order) (enumerate 0 items)
                          (replicate (length items) 0, run_starts 0 counts);
          Some order }"

definition sort_by_draw_order :: "('a \<Rightarrow> nat) \<Rightarrow> 'a list \<Rightarrow> 'a list option" where
  "sort_by_draw_order draw_order items =
     (if length items < 2 then Some items
      else
        let (mx, srt, _) = scan_orders draw_order items
        in if srt then Some items
           else if mx > length items * MAX_ORDERS_PER_PRIMITIVE
           then gather items (packed_order draw_order items)
           else do { order \<leftarrow> counted_order draw_order mx items; gather items order })"

definition wide_key :: "nat \<times> nat \<times> nat \<Rightarrow> nat \<Rightarrow> nat" where
  "wide_key k index =
     (case k of (draw_order, texture, tile) \<Rightarrow>
        push_bit 96 draw_order OR push_bit 64 texture OR push_bit 32 tile OR index)"

definition sort_sprites :: "('a \<Rightarrow> nat \<times> nat \<times> nat) \<Rightarrow> 'a list \<Rightarrow> 'a list option" where
  "sort_sprites key items =
     (if length items < 2 then Some items
      else
        let wide_keys = map (\<lambda>(index, item). wide_key (key item) index) (enumerate 0 items)
        in if sorted wide_keys then Some items
           else gather items (map (take_bit 32) (sort wide_keys)))"

section \<open>Gathering\<close>

lemma enumerate_map: "enumerate 0 xs = map (\<lambda>i. (i, xs ! i)) [0..<length xs]"
  by (rule nth_equalityI) (simp_all add: nth_enumerate_eq)

lemma gather_ok: "(\<And>i. i \<in> set order \<Longrightarrow> i < length items) \<Longrightarrow> gather items order = Some (map ((!) items) order)"
  unfolding gather_def by (induction order) simp_all

lemma insort_key_map: "insort_key f (g x) (map g ys) = map g (insort_key (\<lambda>x. f (g x)) x ys)"
  by (induction ys) simp_all

lemma sort_key_map: "sort_key f (map g xs) = map g (sort_key (\<lambda>x. f (g x)) xs)"
  by (induction xs) (simp_all add: insort_key_map)

text \<open>Sorting the indices by the key of their items, and gathering, is the stable sort of the items.\<close>

lemma gather_sorted: "gather items (sort_key (\<lambda>i. f (items ! i)) [0..<length items]) = Some (sort_key f items)"
proof -
  have "sort_key f items = map ((!) items) (sort_key (\<lambda>i. f (items ! i)) [0..<length items])"
    using sort_key_map [of f "(!) items" "[0..<length items]"] by (simp add: map_nth)
  then show ?thesis
    by (subst gather_ok) simp_all
qed

section \<open>Packed keys\<close>

lemma map_sort_key: "map f (sort_key f xs) = sort (map f xs)"
  by (rule properties_for_sort [symmetric]) simp_all

lemma or_is_plus:
  fixes a b :: nat
  assumes "b < 2 ^ n"
  shows "push_bit n a OR b = a * 2 ^ n + b"
proof -
  have "\<not> bit (push_bit n a) i \<or> \<not> bit b i" for i
    using assms by (metis bit_push_bit_iff bit_take_bit_iff take_bit_nat_eq_self_iff not_le)
  then show ?thesis
    by (simp add: disjunctive_add push_bit_eq_mult)
qed

lemma packed_sort:
  fixes P :: "nat \<Rightarrow> nat" and h :: "nat \<Rightarrow> 'k::linorder"
  assumes key: "\<And>i j. i < n \<Longrightarrow> j < n \<Longrightarrow> P i \<le> P j \<Longrightarrow> h i \<le> h j"
    and index: "\<And>i j. i < n \<Longrightarrow> j < n \<Longrightarrow> h i = h j \<Longrightarrow> P i \<le> P j \<Longrightarrow> i \<le> j"
  shows "sort_key P [0..<n] = sort_key h [0..<n]"
proof (rule properties_for_sort_key [symmetric])
  let ?ys = "sort_key P [0..<n]"
  have range: "i < n" if "i \<in> set ?ys" for i
    using that by simp
  have P: "sorted_wrt (\<lambda>i j. P i \<le> P j) ?ys"
    using sorted_sort_key [of P "[0..<n]"] by (simp add: sorted_map)
  then have "sorted_wrt (\<lambda>i j. h i \<le> h j) ?ys"
    by (rule sorted_wrt_mono_rel [rotated]) (use key range in blast)
  then show "sorted (map h ?ys)"
    by (simp add: sorted_map)
  fix k assume "k \<in> set ?ys"
  have "sorted_wrt (\<lambda>i j. P i \<le> P j) (filter (\<lambda>i. h k = h i) ?ys)"
    using P by (rule sorted_wrt_filter)
  then have "sorted (filter (\<lambda>i. h k = h i) ?ys)"
    by (rule sorted_wrt_mono_rel [rotated]) (use index in auto)
  moreover have "sorted (filter (\<lambda>i. h k = h i) [0..<n])"
    by (intro sorted_filter [of id, simplified]) simp
  ultimately show "filter (\<lambda>i. h k = h i) ?ys = filter (\<lambda>i. h k = h i) [0..<n]"
    by (intro sorted_distinct_set_unique) auto
qed simp

lemma packed_gather:
  assumes key: "\<And>i j. i < length items \<Longrightarrow> j < length items \<Longrightarrow> P i \<le> P j \<Longrightarrow> f (items ! i) \<le> f (items ! j)"
    and index: "\<And>i j. i < length items \<Longrightarrow> j < length items \<Longrightarrow> f (items ! i) = f (items ! j) \<Longrightarrow> P i \<le> P j \<Longrightarrow> i \<le> j"
    and low: "\<And>i. i < length items \<Longrightarrow> take_bit 32 (P i) = i"
  shows "gather items (map (take_bit 32) (sort (map P [0..<length items]))) = Some (sort_key f items)"
proof -
  have "map (take_bit 32) (sort (map P [0..<length items])) = sort_key P [0..<length items]"
    unfolding map_sort_key [symmetric] using low by (auto intro!: map_idI)
  also have "\<dots> = sort_key (\<lambda>i. f (items ! i)) [0..<length items]"
    using key index by (rule packed_sort)
  finally show ?thesis
    by (simp add: gather_sorted)
qed

lemma mult_add_le_iff:
  fixes a b c d n :: nat
  assumes "b < n" "d < n"
  shows "a * n + b \<le> c * n + d \<longleftrightarrow> a < c \<or> a = c \<and> b \<le> d"
proof (cases a c rule: linorder_cases)
  case less
  then have "Suc a * n \<le> c * n"
    by (intro mult_le_mono) simp_all
  with assms less show ?thesis
    by simp
next
  case greater
  then have "Suc c * n \<le> a * n"
    by (intro mult_le_mono) simp_all
  with assms greater show ?thesis
    by simp
qed simp

lemma packed_order_ok:
  assumes "length items \<le> 2 ^ 32"
  shows "gather items (packed_order f items) = Some (sort_key f items)"
proof -
  have "map (\<lambda>(index, item). push_bit 32 (f item) OR index) (enumerate 0 items)
      = map (\<lambda>i. f (items ! i) * 2 ^ 32 + i) [0..<length items]"
    using assms by (simp add: enumerate_map or_is_plus)
  moreover have "gather items (map (take_bit 32) (sort (map (\<lambda>i. f (items ! i) * 2 ^ 32 + i) [0..<length items])))
      = Some (sort_key f items)"
    using assms by (intro packed_gather) (auto simp: mult_add_le_iff take_bit_eq_mod)
  ultimately show ?thesis
    by (simp add: packed_order_def)
qed

text \<open>The sprites' keys: the four \<open>u32\<close> values in one 128-bit number.\<close>

definition key_fits :: "nat \<times> nat \<times> nat \<Rightarrow> bool" where
  "key_fits k \<longleftrightarrow> fst k < 2 ^ 32 \<and> fst (snd k) < 2 ^ 32 \<and> snd (snd k) < 2 ^ 32"

definition key_value :: "nat \<times> nat \<times> nat \<Rightarrow> nat" where
  "key_value k = (fst k * 2 ^ 32 + fst (snd k)) * 2 ^ 32 + snd (snd k)"

lemma wide_key_value:
  assumes "key_fits k" "i < 2 ^ 32"
  shows "wide_key k i = key_value k * 2 ^ 32 + i"
proof -
  obtain o' x t where k: "k = (o', x, t)"
    by (cases k)
  have "push_bit 96 o' OR push_bit 64 x OR push_bit 32 t OR i
      = push_bit 32 (push_bit 32 (push_bit 32 o' OR x) OR t) OR i"
    by (simp add: push_bit_or or.assoc)
  also have "\<dots> = ((o' * 2 ^ 32 + x) * 2 ^ 32 + t) * 2 ^ 32 + i"
    using assms by (simp add: k key_fits_def or_is_plus)
  finally show ?thesis
    by (simp add: wide_key_def key_value_def k)
qed

lemma key_value_le_iff: "key_fits k \<Longrightarrow> key_fits l \<Longrightarrow> key_value k \<le> key_value l \<longleftrightarrow> k \<le> l"
  unfolding key_value_def by (cases k; cases l) (auto simp: mult_add_le_iff key_fits_def less_eq_prod_def)

lemma key_value_inj: "key_fits k \<Longrightarrow> key_fits l \<Longrightarrow> key_value k = key_value l \<longleftrightarrow> k = l"
  using key_value_le_iff [of k l] key_value_le_iff [of l k] by auto

lemma sort_sprites_ok:
  assumes "length items \<le> 2 ^ 32" "\<forall>x\<in>set items. key_fits (key x)"
  shows "sort_sprites key items = Some (sort_key key items)"
proof -
  let ?P = "\<lambda>i. key_value (key (items ! i)) * 2 ^ 32 + i"
  have keys: "map (\<lambda>(index, item). wide_key (key item) index) (enumerate 0 items) = map ?P [0..<length items]"
    using assms by (simp add: enumerate_map wide_key_value)
  have le: "?P i \<le> ?P j \<longleftrightarrow> key (items ! i) < key (items ! j) \<or> key (items ! i) = key (items ! j) \<and> i \<le> j"
    if "i < length items" "j < length items" for i j
  proof -
    have "key_fits (key (items ! i))" "key_fits (key (items ! j))"
      using that assms(2) by simp_all
    then have "key_value (key (items ! i)) < key_value (key (items ! j)) \<longleftrightarrow> key (items ! i) < key (items ! j)"
      "key_value (key (items ! i)) = key_value (key (items ! j)) \<longleftrightarrow> key (items ! i) = key (items ! j)"
      by (simp_all add: key_value_le_iff key_value_inj flip: not_le)
    then show ?thesis
      using that assms(1) by (simp add: mult_add_le_iff)
  qed
  have sorted: "sort_key key items = items" if "sorted (map ?P [0..<length items])"
  proof (rule sort_key_id_if_sorted)
    have "key (items ! i) \<le> key (items ! j)" if "i \<le> j" "j < length items" for i j
      using sorted_nth_mono [OF \<open>sorted (map ?P [0..<length items])\<close>, of i j] that le [of i j] by auto
    then show "sorted (map key items)"
      by (simp add: sorted_iff_nth_mono)
  qed
  have short: "sort_key key items = items" if "length items < 2"
    using that by (cases items; cases "tl items") simp_all
  have "gather items (map (take_bit 32) (sort (map ?P [0..<length items]))) = Some (sort_key key items)"
  proof (rule packed_gather)
    show "key (items ! i) \<le> key (items ! j)" if "i < length items" "j < length items" "?P i \<le> ?P j" for i j
      using le [OF that(1,2)] that(3) by auto
    show "i \<le> j" if "i < length items" "j < length items" "key (items ! i) = key (items ! j)" "?P i \<le> ?P j" for i j
      using le [OF that(1,2)] that(3,4) by auto
  qed (use assms(1) in \<open>simp add: take_bit_eq_mod\<close>)
  then show ?thesis
    using sorted short by (simp add: sort_sprites_def keys Let_def)
qed

section \<open>Counting\<close>

text \<open>The items with a key below \<open>m\<close>, key by key.\<close>

definition buckets :: "('a \<Rightarrow> nat) \<Rightarrow> 'a list \<Rightarrow> nat \<Rightarrow> 'a list" where
  "buckets f xs m = concat (map (\<lambda>k. filter (\<lambda>x. f x = k) xs) [0..<m])"

lemma buckets_Suc: "buckets f xs (Suc m) = buckets f xs m @ filter (\<lambda>x. f x = m) xs"
  by (simp add: buckets_def)

lemma buckets_0 [simp]: "buckets f xs 0 = []"
  by (simp add: buckets_def)

lemma buckets_filter: "buckets f xs m = buckets f (filter (\<lambda>x. f x < m) xs) m"
proof -
  have "filter (\<lambda>x. f x = k) xs = filter (\<lambda>x. f x = k) (filter (\<lambda>x. f x < m) xs)" if "k < m" for k
    using that by (auto intro: filter_cong)
  then show ?thesis
    unfolding buckets_def by (intro arg_cong [where f = concat] map_cong) auto
qed

lemma buckets_mset: "mset (buckets f xs m) = mset (filter (\<lambda>x. f x < m) xs)"
proof (induction m)
  case (Suc m)
  have "filter_mset (\<lambda>x. f x < Suc m) A = filter_mset (\<lambda>x. f x < m) A + filter_mset (\<lambda>x. f x = m) A" for A
    by (induction A) auto
  with Suc show ?case
    by (simp add: buckets_Suc mset_filter)
qed simp

lemma buckets_length: "length (buckets f xs m) = length (filter (\<lambda>x. f x < m) xs)"
  using buckets_mset by (metis size_mset)

lemma buckets_length_mono: "k \<le> m \<Longrightarrow> length (buckets f xs k) \<le> length (buckets f xs m)"
  by (induction m rule: dec_induct) (simp_all add: buckets_Suc)

lemma buckets_sort:
  assumes "\<forall>x\<in>set xs. f x < m"
  shows "sort_key f xs = buckets f xs m"
proof (rule properties_for_sort_key)
  have all: "filter (\<lambda>x. f x < m) xs = xs"
    using assms by simp
  show "mset (buckets f xs m) = mset xs"
    by (simp only: buckets_mset all)
  have set: "x \<in> set (buckets f xs k) \<longleftrightarrow> x \<in> set xs \<and> f x < k" for x k
    using mset_eq_setD [OF buckets_mset [of f xs k]] by auto
  have "sorted (map f (filter (\<lambda>x. f x = k) xs))" for k
    by (induction xs) auto
  then have "sorted (map f (buckets f xs k))" for k
    by (induction k) (auto simp: buckets_Suc sorted_append set)
  then show "sorted (map f (buckets f xs m))" .
  have "filter (\<lambda>x. f c = f x) (buckets f xs k) = (if f c < k then filter (\<lambda>x. f c = f x) xs else [])" for c k
    by (induction k) (auto simp: buckets_Suc less_Suc_eq intro!: filter_cong)
  then show "filter (\<lambda>x. f c = f x) (buckets f xs m) = filter (\<lambda>x. f c = f x) xs" if "c \<in> set (buckets f xs m)" for c
    using that set by simp
qed

text \<open>Where the items of one key lie.\<close>

lemma buckets_nth:
  "k < m \<Longrightarrow> r < length (filter (\<lambda>x. f x = k) xs) \<Longrightarrow>
   buckets f xs m ! (length (buckets f xs k) + r) = filter (\<lambda>x. f x = k) xs ! r"
proof (induction m)
  case (Suc m)
  show ?case
  proof (cases "k = m")
    case False
    then have "length (buckets f xs k) + r < length (buckets f xs m)"
      using Suc.prems buckets_length_mono [of "Suc k" m f xs] by (simp add: buckets_Suc)
    with False Suc show ?thesis
      by (simp add: buckets_Suc nth_append)
  qed (simp add: buckets_Suc nth_append)
qed simp

lemma buckets_position:
  "p < length (buckets f xs m) \<Longrightarrow>
   \<exists>k r. k < m \<and> r < length (filter (\<lambda>x. f x = k) xs) \<and> p = length (buckets f xs k) + r"
proof (induction m)
  case (Suc m)
  show ?case
  proof (cases "p < length (buckets f xs m)")
    case True
    with Suc.IH show ?thesis
      by (meson less_SucI)
  next
    case False
    then show ?thesis
      using Suc.prems by (intro exI [of _ m] exI [of _ "p - length (buckets f xs m)"]) (simp add: buckets_Suc)
  qed
qed simp

lemma buckets_apart:
  assumes "k \<noteq> l" "r < length (filter (\<lambda>x. f x = k) xs)" "q < length (filter (\<lambda>x. f x = l) xs)"
  shows "length (buckets f xs k) + r \<noteq> length (buckets f xs l) + q"
proof -
  have "length (buckets f xs k) + r < length (buckets f xs (Suc k))" "length (buckets f xs l) + q < length (buckets f xs (Suc l))"
    using assms(2,3) by (simp_all add: buckets_Suc)
  moreover have "length (buckets f xs (Suc k)) \<le> length (buckets f xs l) \<or> length (buckets f xs (Suc l)) \<le> length (buckets f xs k)"
    using assms(1) buckets_length_mono [of "Suc k" l f xs] buckets_length_mono [of "Suc l" k f xs] by linarith
  ultimately show ?thesis
    by linarith
qed

lemma run_starts_length [simp]: "length (run_starts s cs) = length cs"
  by (induction cs arbitrary: s) simp_all

lemma run_starts_nth: "k < length cs \<Longrightarrow> run_starts s cs ! k = s + sum_list (take k cs)"
  by (induction cs arbitrary: s k) (auto simp: nth_Cons' take_Cons' gr0_conv_Suc)

lemma buckets_length_sum: "length (buckets f xs m) = (\<Sum>k\<leftarrow>[0..<m]. length (filter (\<lambda>x. f x = k) xs))"
  by (simp add: buckets_def length_concat comp_def)

lemma count_pass:
  assumes "\<forall>x\<in>set xs. f x < length cs"
  shows "\<exists>cs'. for_each (\<lambda>x. count_order (f x)) xs cs = Some cs' \<and> length cs' = length cs
    \<and> (\<forall>k<length cs. cs' ! k = cs ! k + length (filter (\<lambda>x. f x = k) xs))"
  using assms
proof (induction xs arbitrary: cs)
  case (Cons x xs)
  then have "f x < length cs" "\<forall>y\<in>set xs. f y < length (cs[f x := cs ! f x + 1])"
    by simp_all
  with Cons.IH [of "cs[f x := cs ! f x + 1]"] show ?case
    by (auto simp: count_order_def nth_list_update)
qed simp

text \<open>The invariant of the placing pass, after the first \<open>j\<close> of \<open>n\<close> items with keys \<open>h\<close>.\<close>

definition placed :: "(nat \<Rightarrow> nat) \<Rightarrow> nat \<Rightarrow> nat \<Rightarrow> nat \<Rightarrow> nat list \<times> nat list \<Rightarrow> bool" where
  "placed h n m j st \<longleftrightarrow> length (fst st) = n \<and> length (snd st) = m
     \<and> (\<forall>k<m. snd st ! k = length (buckets h [0..<n] k) + length (filter (\<lambda>i. h i = k) [0..<j])
          \<and> (\<forall>r<length (filter (\<lambda>i. h i = k) [0..<j]).
               fst st ! (length (buckets h [0..<n] k) + r) = filter (\<lambda>i. h i = k) [0..<n] ! r))"

lemma placed_step:
  assumes st: "placed h n m j st" and j: "j < n" "n \<le> 2 ^ 32" and h: "\<forall>i<n. h i < m"
    and key: "h j = f x"
  shows "\<exists>st'. place f (j, x) st = Some st' \<and> placed h n m (Suc j) st'"
proof -
  obtain ord cs where s: "st = (ord, cs)"
    by fastforce
  let ?b = "\<lambda>k. length (buckets h [0..<n] k)" and ?f = "\<lambda>k j. filter (\<lambda>i. h i = k) [0..<j]"
  let ?k = "h j"
  have inv: "length ord = n" "length cs = m" "\<And>k. k < m \<Longrightarrow> cs ! k = ?b k + length (?f k j)"
    "\<And>k r. k < m \<Longrightarrow> r < length (?f k j) \<Longrightarrow> ord ! (?b k + r) = ?f k n ! r"
    using st by (simp_all add: placed_def s)
  have k: "?k < m"
    using h j(1) by simp
  have split: "?f k n = ?f k j @ (if h j = k then [j] else []) @ filter (\<lambda>i. h i = k) [Suc j..<n]" for k
    using j(1) upt_add_eq_append [of 0 j "n - j"] by (simp add: upt_conv_Cons)
  have next_len: "length (?f k j) < length (?f k n)" if "h j = k" for k
    using that split [of k] by simp
  have less: "?b ?k + length (?f ?k j) < n"
  proof -
    have "?b ?k + length (?f ?k j) < ?b (Suc ?k)"
      using next_len by (simp add: buckets_Suc)
    also have "\<dots> \<le> n"
      using length_filter_le [of "\<lambda>i. h i < Suc ?k" "[0..<n]"] by (simp only: buckets_length length_upt)
    finally show ?thesis .
  qed
  let ?st = "(ord[cs ! ?k := j], cs[?k := cs ! ?k + 1])"
  have "place f (j, x) st = Some ?st"
    using k less inv(1,2) inv(3) [OF k] j key by (simp add: place_def s)
  moreover have "placed h n m (Suc j) ?st"
    unfolding placed_def
  proof (intro conjI allI impI)
    show "length (fst ?st) = n" "length (snd ?st) = m"
      using inv(1,2) by simp_all
    fix k assume "k < m"
    then show "snd ?st ! k = ?b k + length (?f k (Suc j))"
      using inv(2,3) by (simp add: nth_list_update)
    fix r assume r: "r < length (?f k (Suc j))"
    show "fst ?st ! (?b k + r) = ?f k n ! r"
    proof (cases "r < length (?f k j)")
      case True
      have "?b k + r \<noteq> cs ! ?k"
      proof (cases "k = ?k")
        case True
        with \<open>r < length (?f k j)\<close> inv(3) [OF k] show ?thesis by simp
      next
        case False
        have "r < length (?f k n)"
          using \<open>r < length (?f k j)\<close> split [of k] by simp
        from buckets_apart [OF False this next_len [OF refl]] show ?thesis
          by (simp add: inv(3) [OF k])
      qed
      then show ?thesis
        using inv(4) [OF \<open>k < m\<close> True] by simp
    next
      case False
      then have "?k = k" "r = length (?f k j)"
        using r by (auto split: if_splits)
      then show ?thesis
        using inv(1,3) k less split [of k] by (simp add: nth_append)
    qed
  qed
  ultimately show ?thesis
    by blast
qed

lemma place_pass:
  assumes "j \<le> n" "n \<le> 2 ^ 32" "\<forall>i<n. f (xs ! i) < m" "placed (\<lambda>i. f (xs ! i)) n m 0 st"
  shows "\<exists>st'. for_each (place f) (map (\<lambda>i. (i, xs ! i)) [0..<j]) st = Some st' \<and> placed (\<lambda>i. f (xs ! i)) n m j st'"
  using assms(1)
proof (induction j)
  case (Suc j)
  then obtain st' where "for_each (place f) (map (\<lambda>i. (i, xs ! i)) [0..<j]) st = Some st'"
      "placed (\<lambda>i. f (xs ! i)) n m j st'"
    by auto
  with placed_step [OF this(2), of f "xs ! j"] Suc.prems assms(2,3) show ?case
    by (auto simp: for_each_append)
qed (simp add: assms(4))

lemma counted_order_ok:
  assumes len: "length items \<le> 2 ^ 32" and mx: "\<forall>x\<in>set items. f x \<le> mx"
  shows "\<exists>order. counted_order f mx items = Some order \<and> gather items order = Some (sort_key f items)"
proof -
  let ?n = "length items" and ?h = "\<lambda>i. f (items ! i)"
  have f: "\<forall>x\<in>set items. f x < length (replicate (mx + 1) (0 :: nat))"
    using mx by auto
  from count_pass [OF f] obtain cs where
    cs: "for_each (\<lambda>x. count_order (f x)) items (replicate (mx + 1) 0) = Some cs" "length cs = mx + 1"
      "\<forall>k<mx + 1. cs ! k = length (filter (\<lambda>x. f x = k) items)"
    by (auto simp del: replicate_Suc)
  have idx: "length (filter (\<lambda>x. f x = k) items) = length (filter (\<lambda>i. ?h i = k) [0..<?n])" for k
    by (subst map_nth [symmetric], subst filter_map) (simp add: comp_def)
  have starts: "run_starts 0 cs ! k = length (buckets ?h [0..<?n] k)" if "k < mx + 1" for k
  proof -
    have "take k cs = map (\<lambda>k. length (filter (\<lambda>i. ?h i = k) [0..<?n])) [0..<k]"
      using cs(2,3) that by (intro nth_equalityI) (simp_all add: idx)
    then show ?thesis
      using that cs(2) by (simp add: run_starts_nth buckets_length_sum)
  qed
  have "placed ?h ?n (mx + 1) 0 (replicate ?n 0, run_starts 0 cs)"
    using starts cs(2) by (simp add: placed_def)
  from place_pass [OF le_refl len _ this] mx obtain st where
    st: "for_each (place f) (enumerate 0 items) (replicate ?n 0, run_starts 0 cs) = Some st" "placed ?h ?n (mx + 1) ?n st"
    by (auto simp: enumerate_map less_Suc_eq_le)
  have "fst st = buckets ?h [0..<?n] (mx + 1)"
  proof (rule nth_equalityI)
    have "filter (\<lambda>i. ?h i < mx + 1) [0..<?n] = [0..<?n]"
      using mx by (simp add: less_Suc_eq_le)
    then show len: "length (fst st) = length (buckets ?h [0..<?n] (mx + 1))"
      using st(2) by (simp only: buckets_length placed_def length_upt)
    fix p assume "p < length (fst st)"
    then obtain k r where "k < mx + 1" "r < length (filter (\<lambda>i. ?h i = k) [0..<?n])" "p = length (buckets ?h [0..<?n] k) + r"
      using buckets_position [of p ?h "[0..<?n]" "mx + 1"] len by auto
    then show "fst st ! p = buckets ?h [0..<?n] (mx + 1) ! p"
      using st(2) buckets_nth [of k "mx + 1" r ?h "[0..<?n]"] by (simp add: placed_def)
  qed
  also have "\<dots> = sort_key ?h [0..<?n]"
    using mx by (intro buckets_sort [symmetric]) (simp add: less_Suc_eq_le)
  finally have "gather items (fst st) = Some (sort_key f items)"
    by (simp add: gather_sorted)
  then show ?thesis
    using cs(1) st(1) by (cases st) (simp add: counted_order_def)
qed

section \<open>Both sorts are the stable sort\<close>

lemma scan_orders_ok:
  "scan_orders f items = (mx, srt, prev) \<Longrightarrow> (\<forall>x\<in>set items. f x \<le> mx) \<and> srt = sorted (map f items)
     \<and> (items \<noteq> [] \<longrightarrow> prev = f (last items))"
proof (induction items arbitrary: mx srt prev rule: rev_induct)
  case (snoc x xs)
  obtain mx' srt' prev' where xs: "scan_orders f xs = (mx', srt', prev')"
    by (cases "scan_orders f xs") auto
  note IH = snoc.IH [OF xs]
  have res: "mx = max mx' (f x)" "srt = (srt' \<and> prev' \<le> f x)" "prev = f x"
    using snoc.prems xs by (auto simp: scan_orders_def Let_def)
  have "srt = sorted (map f (xs @ [x]))"
  proof (cases "xs = []")
    case False
    have "prev' \<le> f x \<longleftrightarrow> (\<forall>y\<in>set xs. f y \<le> f x)" if "sorted (map f xs)"
    proof -
      have "f y \<le> f (last xs)" if "y \<in> set xs" for y
        using \<open>sorted (map f xs)\<close> that False
        sorted_nth_mono [of "map f xs" _ "length xs - 1"] by (auto simp: in_set_conv_nth last_conv_nth)
      then show ?thesis
        using IH False last_in_set [OF False] by (auto intro: order_trans)
    qed
    with IH res show ?thesis
      by (auto simp: sorted_append)
  qed (use IH res xs in \<open>simp add: scan_orders_def\<close>)
  with IH res show ?case
    by auto
qed (simp add: scan_orders_def)

lemma sort_by_draw_order_ok:
  assumes "length items \<le> 2 ^ 32"
  shows "sort_by_draw_order f items = Some (sort_key f items)"
proof -
  obtain mx srt prev where scan: "scan_orders f items = (mx, srt, prev)"
    by (cases "scan_orders f items") auto
  note ok = scan_orders_ok [OF scan]
  have short: "sort_key f items = items" if "length items < 2"
    using that by (cases items; cases "tl items") simp_all
  have "sort_key f items = items" if srt
    using ok that by (simp add: sort_key_id_if_sorted)
  then show ?thesis
    using counted_order_ok [OF assms, of f mx] ok packed_order_ok [OF assms, of f] short
    by (auto simp: sort_by_draw_order_def scan)
qed

end
