(* ===== verification/Scene.thy ===== *)
theory Scene
  imports FastBoundsTree SceneSort
begin

text \<open>
  A frame's scene: \<open>gpui/src/scene.rs\<close>, with the rounded-clip scopes of \<open>fast/rounded_clip.rs\<close>, the layer tiles of
  \<open>fast/layers/scene.rs\<close> and \<open>replay_layers\<close> of \<open>fast/layers/paint.rs\<close>.

  Painting inserts primitives; each gets a draw order from the bounds tree, or the order of the innermost
  open layer, and joins the list of its kind and the list of paint operations. \<open>finish\<close> sorts the lists
  (\<open>SceneSort\<close>), and the batch iterator hands the renderer runs of one kind, in drawing order. A retained
  view is drawn again by replaying a range of the last frame's operations.

  The eight primitive structs share their order, bounds and content mask; what else they hold (colours,
  radii, widths) is the type parameter \<open>'d\<close>. The content of a scroll layer is a shared pointer, the parameter
  \<open>'f\<close>. \<open>rounded_clip_scene::compile\<close>, which \<open>finish\<close> runs first, leaves a scene without rounded clips as it is;
  its work on the others (a scene per clip) is not modelled. A \<^const>\<open>None\<close> is a panic.
\<close>

unbundle bit_operations_syntax

section \<open>The model\<close>

subsection \<open>Primitives\<close>

datatype atlas_texture_kind = Monochrome | Polychrome | Subpixel

record atlas_texture_id =
  tx_index :: nat
  tx_kind :: atlas_texture_kind

record atlas_tile =
  texture_id :: atlas_texture_id
  tile_id :: nat

record ('u, 'd) prim =
  p_order :: nat
  p_bounds :: "'u bounds"
  p_mask :: "'u bounds"
  p_data :: 'd

record ('u, 'd) path_prim = "('u, 'd) prim" +
  path_id :: nat

record ('u, 'd) sprite = "('u, 'd) prim" +
  tile :: atlas_tile

datatype ('u, 'd) primitive =
    Shadow "('u, 'd) prim"
  | Quad "('u, 'd) prim"
  | Path "('u, 'd) path_prim"
  | Underline "('u, 'd) prim"
  | MonochromeSprite "('u, 'd) sprite"
  | SubpixelSprite "('u, 'd) sprite"
  | PolychromeSprite "('u, 'd) sprite"
  | Surface "('u, 'd) prim"

fun primitive_bounds :: "('u, 'd) primitive \<Rightarrow> 'u bounds" where
  "primitive_bounds (Shadow p) = p_bounds p"
| "primitive_bounds (Quad p) = p_bounds p"
| "primitive_bounds (Path p) = p_bounds p"
| "primitive_bounds (Underline p) = p_bounds p"
| "primitive_bounds (MonochromeSprite p) = p_bounds p"
| "primitive_bounds (SubpixelSprite p) = p_bounds p"
| "primitive_bounds (PolychromeSprite p) = p_bounds p"
| "primitive_bounds (Surface p) = p_bounds p"

fun content_mask :: "('u, 'd) primitive \<Rightarrow> 'u bounds" where
  "content_mask (Shadow p) = p_mask p"
| "content_mask (Quad p) = p_mask p"
| "content_mask (Path p) = p_mask p"
| "content_mask (Underline p) = p_mask p"
| "content_mask (MonochromeSprite p) = p_mask p"
| "content_mask (SubpixelSprite p) = p_mask p"
| "content_mask (PolychromeSprite p) = p_mask p"
| "content_mask (Surface p) = p_mask p"

datatype primitive_kind =
  KShadow | KQuad | KPath | KUnderline | KMonochromeSprite | KSubpixelSprite | KPolychromeSprite | KSurface

fun kind_index :: "primitive_kind \<Rightarrow> nat" where
  "kind_index KShadow = 0"
| "kind_index KQuad = 1"
| "kind_index KPath = 2"
| "kind_index KUnderline = 3"
| "kind_index KMonochromeSprite = 4"
| "kind_index KSubpixelSprite = 5"
| "kind_index KPolychromeSprite = 6"
| "kind_index KSurface = 7"

lemma kind_index_inj: "kind_index a = kind_index b \<longleftrightarrow> a = b"
  by (cases a; cases b) simp_all

instantiation primitive_kind :: linorder
begin

definition less_eq_primitive_kind :: "primitive_kind \<Rightarrow> primitive_kind \<Rightarrow> bool" where
  "less_eq_primitive_kind a b \<longleftrightarrow> kind_index a \<le> kind_index b"

definition less_primitive_kind :: "primitive_kind \<Rightarrow> primitive_kind \<Rightarrow> bool" where
  "less_primitive_kind a b \<longleftrightarrow> kind_index a < kind_index b"

instance
  by standard (auto simp: less_eq_primitive_kind_def less_primitive_kind_def kind_index_inj [symmetric])

end

subsection \<open>Layer tiles\<close>

definition LAYER_TILE_TEXTURE_BASE :: nat where
  "LAYER_TILE_TEXTURE_BASE = 0xF0000000"

definition LAYER_KEY_LIMIT :: nat where
  "LAYER_KEY_LIMIT = 0x01000000"

definition TILE_COORD_BIAS :: int where
  "TILE_COORD_BIAS = 2048"

record tile_coord =
  tile_x :: int
  tile_y :: int

definition layer_tile_texture_id :: "nat \<Rightarrow> atlas_texture_id" where
  "layer_tile_texture_id layer = \<lparr>tx_index = LAYER_TILE_TEXTURE_BASE + layer, tx_kind = Polychrome\<rparr>"

definition layer_tile_id :: "tile_coord \<Rightarrow> nat" where
  "layer_tile_id t =
     (let x = nat ((tile_x t + TILE_COORD_BIAS) mod 2 ^ 32);
          y = nat ((tile_y t + TILE_COORD_BIAS) mod 2 ^ 32)
      in take_bit 32 (push_bit 16 x) OR y)"

definition decode_layer_tile :: "atlas_texture_id \<Rightarrow> nat \<Rightarrow> (nat \<times> tile_coord) option" where
  "decode_layer_tile texture t =
     (if tx_kind texture \<noteq> Polychrome \<or> tx_index texture < LAYER_TILE_TEXTURE_BASE
         \<or> tx_index texture - LAYER_TILE_TEXTURE_BASE \<ge> LAYER_KEY_LIMIT
      then None
      else Some (tx_index texture - LAYER_TILE_TEXTURE_BASE,
                 \<lparr>tile_x = int (drop_bit 16 t) - TILE_COORD_BIAS, tile_y = int (t AND 0xFFFF) - TILE_COORD_BIAS\<rparr>))"

subsection \<open>Scenes\<close>

record 'u clip_shape =
  sh_bounds :: "'u bounds"
  sh_top_left :: "'u size2"
  sh_top_right :: "'u size2"
  sh_bottom_right :: "'u size2"
  sh_bottom_left :: "'u size2"

datatype 'u clip_operation = Begin "'u clip_shape" | End

datatype ('u, 'd) paint_operation =
    OpPrimitive "('u, 'd) primitive"
  | StartLayer "'u bounds"
  | EndLayer
  | FastRoundedClip "'u clip_operation"

record 'u clip_scope =
  cs_start :: nat
  cs_end :: nat
  cs_shape :: "'u clip_shape"
  cs_parent :: "nat option"

record 'f layer_frame =
  lf_key :: nat
  lf_content :: 'f

record ('u, 'd, 'f) scene =
  paint_operations :: "('u, 'd) paint_operation list"
  bounds_tree :: "'u fast_tree"
  layer_stack :: "nat list"
  shadows :: "('u, 'd) prim list"
  quads :: "('u, 'd) prim list"
  paths :: "('u, 'd) path_prim list"
  underlines :: "('u, 'd) prim list"
  monochrome_sprites :: "('u, 'd) sprite list"
  subpixel_sprites :: "('u, 'd) sprite list"
  polychrome_sprites :: "('u, 'd) sprite list"
  surfaces :: "('u, 'd) prim list"
  clip_scopes :: "'u clip_scope list"
  clip_active :: "nat list"
  clip_compiled :: bool
  layers :: "'f layer_frame list"

definition scene_default :: "('u, 'd, 'f) scene" where
  "scene_default =
     \<lparr>paint_operations = [], bounds_tree = ft_default, layer_stack = [], shadows = [], quads = [], paths = [],
      underlines = [], monochrome_sprites = [], subpixel_sprites = [], polychrome_sprites = [], surfaces = [],
      clip_scopes = [], clip_active = [], clip_compiled = False, layers = []\<rparr>"

definition scene_clear :: "('u, 'd, 'f) scene \<Rightarrow> ('u, 'd, 'f) scene" where
  "scene_clear s =
     s\<lparr>clip_scopes := [], clip_active := [], clip_compiled := False,
       paint_operations := [], bounds_tree := ft_clear (bounds_tree s), layer_stack := [],
       paths := [], shadows := [], quads := [], underlines := [], monochrome_sprites := [],
       subpixel_sprites := [], polychrome_sprites := [], surfaces := [], layers := []\<rparr>"

definition push_layer :: "'u::floor_ceiling bounds \<Rightarrow> ('u, 'd, 'f) scene \<Rightarrow> ('u, 'd, 'f) scene option" where
  "push_layer b s =
     do { (t, order) \<leftarrow> ft_insert (bounds_tree s) b;
          Some (s\<lparr>bounds_tree := t, layer_stack := layer_stack s @ [order],
                  paint_operations := paint_operations s @ [StartLayer b]\<rparr>) }"

definition pop_layer :: "('u, 'd, 'f) scene \<Rightarrow> ('u, 'd, 'f) scene" where
  "pop_layer s =
     s\<lparr>layer_stack := butlast (layer_stack s), paint_operations := paint_operations s @ [EndLayer]\<rparr>"

text \<open>The \<open>match\<close> of \<open>insert_primitive\<close>: the order is written into the primitive, which joins its list.\<close>

fun push_primitive ::
    "('u, 'd) primitive \<Rightarrow> nat \<Rightarrow> ('u, 'd, 'f) scene \<Rightarrow> ('u, 'd) primitive \<times> ('u, 'd, 'f) scene" where
  "push_primitive (Shadow p) order s =
     (let p = p\<lparr>p_order := order\<rparr> in (Shadow p, s\<lparr>shadows := shadows s @ [p]\<rparr>))"
| "push_primitive (Quad p) order s =
     (let p = p\<lparr>p_order := order\<rparr> in (Quad p, s\<lparr>quads := quads s @ [p]\<rparr>))"
| "push_primitive (Path p) order s =
     (let p = p\<lparr>p_order := order, path_id := length (paths s)\<rparr> in (Path p, s\<lparr>paths := paths s @ [p]\<rparr>))"
| "push_primitive (Underline p) order s =
     (let p = p\<lparr>p_order := order\<rparr> in (Underline p, s\<lparr>underlines := underlines s @ [p]\<rparr>))"
| "push_primitive (MonochromeSprite p) order s =
     (let p = p\<lparr>p_order := order\<rparr>
      in (MonochromeSprite p, s\<lparr>monochrome_sprites := monochrome_sprites s @ [p]\<rparr>))"
| "push_primitive (SubpixelSprite p) order s =
     (let p = p\<lparr>p_order := order\<rparr> in (SubpixelSprite p, s\<lparr>subpixel_sprites := subpixel_sprites s @ [p]\<rparr>))"
| "push_primitive (PolychromeSprite p) order s =
     (let p = p\<lparr>p_order := order\<rparr>
      in (PolychromeSprite p, s\<lparr>polychrome_sprites := polychrome_sprites s @ [p]\<rparr>))"
| "push_primitive (Surface p) order s =
     (let p = p\<lparr>p_order := order\<rparr> in (Surface p, s\<lparr>surfaces := surfaces s @ [p]\<rparr>))"

definition clipped_bounds :: "('u::floor_ceiling, 'd) primitive \<Rightarrow> 'u bounds" where
  "clipped_bounds p = intersect (primitive_bounds p) (content_mask p)"

definition insert_primitive ::
    "('u::floor_ceiling, 'd) primitive \<Rightarrow> ('u, 'd, 'f) scene \<Rightarrow> ('u, 'd, 'f) scene option" where
  "insert_primitive p s =
     (if bounds_is_empty (clipped_bounds p) then Some s
      else
        do { (t, order) \<leftarrow> (case list_last (layer_stack s) of
                              Some order \<Rightarrow> Some (bounds_tree s, order)
                            | None \<Rightarrow> ft_insert (bounds_tree s) (clipped_bounds p));
             let (p, s) = push_primitive p order (s\<lparr>bounds_tree := t\<rparr>);
             Some (s\<lparr>paint_operations := paint_operations s @ [OpPrimitive p]\<rparr>) })"

text \<open>\<open>rounded_clip::record\<close> with \<open>SceneClips::begin\<close> and \<open>SceneClips::end\<close>.\<close>

definition record_clip ::
    "'u clip_operation \<Rightarrow> ('u, 'd, 'f) scene \<Rightarrow> ('u, 'd, 'f) scene option" where
  "record_clip operation s =
     (let s = s\<lparr>clip_compiled := False\<rparr>;
          index = length (paint_operations s)
      in do { s \<leftarrow> (case operation of
                      Begin sh \<Rightarrow>
                        Some (s\<lparr>clip_scopes := clip_scopes s @
                                 [\<lparr>cs_start = index, cs_end = index, cs_shape = sh, cs_parent = list_last (clip_active s)\<rparr>],
                                clip_active := clip_active s @ [length (clip_scopes s)]\<rparr>)
                    | End \<Rightarrow>
                        do { scope_ix \<leftarrow> list_last (clip_active s);
                             scope \<leftarrow> index_at (clip_scopes s) scope_ix;
                             Some (s\<lparr>clip_active := butlast (clip_active s),
                                     clip_scopes := (clip_scopes s)[scope_ix := scope\<lparr>cs_end := index + 1\<rparr>]\<rparr>) });
              Some (s\<lparr>paint_operations := paint_operations s @ [FastRoundedClip operation]\<rparr>) })"

text \<open>\<open>replay_layers\<close>: the layers whose tiles are replayed come along.\<close>

definition replay_layer ::
    "'f layer_frame list \<Rightarrow> ('u, 'd) paint_operation \<Rightarrow> 'f layer_frame list \<Rightarrow> 'f layer_frame list" where
  "replay_layer prev operation frames =
     (case operation of
        OpPrimitive (PolychromeSprite sprite) \<Rightarrow>
          (case decode_layer_tile (texture_id (tile sprite)) (tile_id (tile sprite)) of
             None \<Rightarrow> frames
           | Some (key, _) \<Rightarrow>
               if list_ex (\<lambda>frame. lf_key frame = key) frames then frames
               else (case find (\<lambda>frame. lf_key frame = key) prev of
                       Some frame \<Rightarrow> frames @ [frame]
                     | None \<Rightarrow> frames))
      | _ \<Rightarrow> frames)"

text \<open>The slice \<open>paint_operations[start..end]\<close>.\<close>

definition slice_of :: "'a list \<Rightarrow> nat \<Rightarrow> nat \<Rightarrow> 'a list option" where
  "slice_of xs i j = (if i \<le> j \<and> j \<le> length xs then Some (take (j - i) (drop i xs)) else None)"

definition replay_layers ::
    "nat \<Rightarrow> nat \<Rightarrow> ('u, 'd, 'f) scene \<Rightarrow> ('u, 'd, 'f) scene \<Rightarrow> ('u, 'd, 'f) scene option" where
  "replay_layers start stop prev s =
     (if layers prev = [] then Some s
      else do { ops \<leftarrow> slice_of (paint_operations prev) start stop;
                Some (s\<lparr>layers := fold (replay_layer (layers prev)) ops (layers s)\<rparr>) })"

definition apply_paint ::
    "('u::floor_ceiling, 'd) paint_operation \<Rightarrow> ('u, 'd, 'f) scene \<Rightarrow> ('u, 'd, 'f) scene option" where
  "apply_paint operation s =
     (case operation of
        OpPrimitive p \<Rightarrow> insert_primitive p s
      | StartLayer b \<Rightarrow> push_layer b s
      | EndLayer \<Rightarrow> Some (pop_layer s)
      | FastRoundedClip c \<Rightarrow> record_clip c s)"

definition scene_replay ::
    "nat \<Rightarrow> nat \<Rightarrow> ('u::floor_ceiling, 'd, 'f) scene \<Rightarrow> ('u, 'd, 'f) scene \<Rightarrow> ('u, 'd, 'f) scene option" where
  "scene_replay start stop prev s =
     do { s \<leftarrow> replay_layers start stop prev s;
          ops \<leftarrow> slice_of (paint_operations prev) start stop;
          for_each apply_paint ops s }"

text \<open>The sorts of \<open>sort_in_drawing_order\<close>.\<close>

definition sprite_key :: "('u, 'd) sprite \<Rightarrow> nat \<times> nat \<times> nat" where
  "sprite_key p = (p_order p, tx_index (texture_id (tile p)), tile_id (tile p))"

definition sort_in_drawing_order :: "('u, 'd, 'f) scene \<Rightarrow> ('u, 'd, 'f) scene option" where
  "sort_in_drawing_order s =
     do { shadows' \<leftarrow> sort_by_draw_order p_order (shadows s);
          quads' \<leftarrow> sort_by_draw_order p_order (quads s);
          paths' \<leftarrow> sort_by_draw_order p_order (paths s);
          underlines' \<leftarrow> sort_by_draw_order p_order (underlines s);
          monochrome' \<leftarrow> sort_sprites sprite_key (monochrome_sprites s);
          subpixel' \<leftarrow> sort_sprites sprite_key (subpixel_sprites s);
          polychrome' \<leftarrow> sort_sprites sprite_key (polychrome_sprites s);
          surfaces' \<leftarrow> sort_by_draw_order p_order (surfaces s);
          Some (s\<lparr>shadows := shadows', quads := quads', paths := paths', underlines := underlines',
                  monochrome_sprites := monochrome', subpixel_sprites := subpixel',
                  polychrome_sprites := polychrome', surfaces := surfaces'\<rparr>) }"

subsection \<open>Batches\<close>

text \<open>
  The iterator holds, for each kind, where the next batch starts and the primitives still to come, of which
  it reads the order and, for sprites, the texture.
\<close>

type_synonym batch_items = "(nat \<times> atlas_texture_id option) list"
type_synonym batch_iterator = "primitive_kind \<Rightarrow> nat \<times> batch_items"

definition scene_items :: "('u, 'd, 'f) scene \<Rightarrow> primitive_kind \<Rightarrow> batch_items" where
  "scene_items s k =
     (case k of
        KShadow \<Rightarrow> map (\<lambda>p. (p_order p, None)) (shadows s)
      | KQuad \<Rightarrow> map (\<lambda>p. (p_order p, None)) (quads s)
      | KPath \<Rightarrow> map (\<lambda>p. (p_order p, None)) (paths s)
      | KUnderline \<Rightarrow> map (\<lambda>p. (p_order p, None)) (underlines s)
      | KMonochromeSprite \<Rightarrow> map (\<lambda>p. (p_order p, Some (texture_id (tile p)))) (monochrome_sprites s)
      | KSubpixelSprite \<Rightarrow> map (\<lambda>p. (p_order p, Some (texture_id (tile p)))) (subpixel_sprites s)
      | KPolychromeSprite \<Rightarrow> map (\<lambda>p. (p_order p, Some (texture_id (tile p)))) (polychrome_sprites s)
      | KSurface \<Rightarrow> map (\<lambda>p. (p_order p, None)) (surfaces s))"

datatype primitive_batch =
    Shadows nat nat
  | Quads nat nat
  | Paths nat nat
  | Underlines nat nat
  | MonochromeSprites "atlas_texture_id option" nat nat
  | SubpixelSprites "atlas_texture_id option" nat nat
  | PolychromeSprites "atlas_texture_id option" nat nat
  | Surfaces nat nat

fun make_batch :: "primitive_kind \<Rightarrow> atlas_texture_id option \<Rightarrow> nat \<Rightarrow> nat \<Rightarrow> primitive_batch" where
  "make_batch KShadow _ i j = Shadows i j"
| "make_batch KQuad _ i j = Quads i j"
| "make_batch KPath _ i j = Paths i j"
| "make_batch KUnderline _ i j = Underlines i j"
| "make_batch KMonochromeSprite t i j = MonochromeSprites t i j"
| "make_batch KSubpixelSprite t i j = SubpixelSprites t i j"
| "make_batch KPolychromeSprite t i j = PolychromeSprites t i j"
| "make_batch KSurface _ i j = Surfaces i j"

definition U32_MAX :: nat where
  "U32_MAX = 2 ^ 32 - 1"

definition all_kinds :: "primitive_kind list" where
  "all_kinds = [KShadow, KQuad, KPath, KUnderline, KMonochromeSprite, KSubpixelSprite, KPolychromeSprite, KSurface]"

definition peek_order :: "batch_iterator \<Rightarrow> primitive_kind \<Rightarrow> nat option" where
  "peek_order it k = map_option fst (list_first (snd (it k)))"

definition order_key :: "nat option \<times> primitive_kind \<Rightarrow> nat \<times> primitive_kind" where
  "order_key e = (case fst e of Some order \<Rightarrow> order | None \<Rightarrow> U32_MAX, snd e)"

definition next_batch :: "batch_iterator \<Rightarrow> (primitive_batch \<times> batch_iterator) option" where
  "next_batch it =
     (let orders_and_kinds = sort_key order_key (map (\<lambda>k. (peek_order it k, k)) all_kinds);
          first = orders_and_kinds ! 0;
          second = orders_and_kinds ! 1
      in case fst first of
           None \<Rightarrow> None
         | Some _ \<Rightarrow>
             let batch_kind = snd first;
                 max_order_and_kind = order_key second;
                 start = fst (it batch_kind);
                 items = snd (it batch_kind);
                 texture = snd (hd items);
                 taken = takeWhile (\<lambda>(order, t). (order, batch_kind) < max_order_and_kind \<and> t = texture) (tl items);
                 stop = start + 1 + length taken
             in Some (make_batch batch_kind texture start stop,
                      it(batch_kind := (stop, drop (1 + length taken) items))))"

text \<open>What the iterator still has to hand out.\<close>

definition remaining :: "batch_iterator \<Rightarrow> nat" where
  "remaining it = (\<Sum>k\<leftarrow>all_kinds. length (snd (it k)))"

lemma all_kinds_all: "k \<in> set all_kinds"
  by (cases k) (simp_all add: all_kinds_def)

lemma all_kinds_distinct: "distinct all_kinds"
  by (simp add: all_kinds_def)

text \<open>The two least of the eight heads.\<close>

lemma heads_sorted:
  "\<exists>k0 k1 rest. sort_key order_key (map (\<lambda>k. (peek_order it k, k)) all_kinds)
       = (peek_order it k0, k0) # (peek_order it k1, k1) # rest
     \<and> (\<forall>k. order_key (peek_order it k0, k0) \<le> order_key (peek_order it k, k))
     \<and> (\<forall>k. k \<noteq> k0 \<longrightarrow> order_key (peek_order it k1, k1) \<le> order_key (peek_order it k, k))"
proof -
  let ?e = "\<lambda>k. (peek_order it k, k)"
  let ?L = "sort_key order_key (map ?e all_kinds)"
  have "length ?L = 8"
    by (simp add: all_kinds_def del: sort_key_simps)
  then obtain e0 e1 rest where L: "?L = e0 # e1 # rest"
    by (cases ?L; cases "tl ?L") auto
  have set: "set ?L = range ?e"
    using all_kinds_all by (auto simp del: sort_key_simps)
  have in_L: "e0 \<in> set ?L" "e1 \<in> set ?L"
    unfolding L by simp_all
  then obtain k0 k1 where e: "e0 = ?e k0" "e1 = ?e k1"
    unfolding set by auto
  have sorted: "sorted (map order_key (e0 # e1 # rest))"
    using sorted_sort_key [of order_key "map ?e all_kinds"] unfolding L .
  have all: "?e k \<in> set (e0 # e1 # rest)" for k
    unfolding L [symmetric] set by blast
  have "order_key e0 \<le> order_key (?e k)" for k
    using all [of k] sorted by auto
  moreover have "order_key e1 \<le> order_key (?e k)" if "k \<noteq> k0" for k
    using all [of k] sorted that e by auto
  ultimately show ?thesis
    unfolding L e by blast
qed

lemma next_batch_shrinks: "next_batch it = Some (b, it') \<Longrightarrow> remaining it' < remaining it"
proof -
  assume step: "next_batch it = Some (b, it')"
  obtain k0 k1 rest where L: "sort_key order_key (map (\<lambda>k. (peek_order it k, k)) all_kinds)
      = (peek_order it k0, k0) # (peek_order it k1, k1) # rest"
    using heads_sorted [of it] by blast
  obtain n where it': "it' = it(k0 := (fst (it k0) + 1 + n, drop (1 + n) (snd (it k0))))" and ne: "snd (it k0) \<noteq> []"
    using step unfolding next_batch_def Let_def L
    by (auto simp: peek_order_def list_first_def split: option.splits list.splits)
  have "length (snd (it' k)) \<le> length (snd (it k))" for k
    by (simp add: it')
  moreover have "length (snd (it' k0)) < length (snd (it k0))"
    using ne by (simp add: it')
  ultimately show ?thesis
    unfolding remaining_def sum_list_distinct_conv_sum_set [OF all_kinds_distinct]
    using all_kinds_all by (intro sum_strict_mono_ex1) auto
qed

function batches_from :: "batch_iterator \<Rightarrow> primitive_batch list" where
  "batches_from it =
     (case next_batch it of
        None \<Rightarrow> []
      | Some (b, it') \<Rightarrow> b # batches_from it')"
  by pat_completeness auto
termination
  by (relation "measure remaining") (auto simp: next_batch_shrinks)

declare batches_from.simps [simp del]

definition batches :: "('u, 'd, 'f) scene \<Rightarrow> primitive_batch list" where
  "batches s = batches_from (\<lambda>k. (0, scene_items s k))"

section \<open>Batches\<close>

fun batch_parts :: "primitive_batch \<Rightarrow> primitive_kind \<times> nat \<times> nat" where
  "batch_parts (Shadows i j) = (KShadow, i, j)"
| "batch_parts (Quads i j) = (KQuad, i, j)"
| "batch_parts (Paths i j) = (KPath, i, j)"
| "batch_parts (Underlines i j) = (KUnderline, i, j)"
| "batch_parts (MonochromeSprites _ i j) = (KMonochromeSprite, i, j)"
| "batch_parts (SubpixelSprites _ i j) = (KSubpixelSprite, i, j)"
| "batch_parts (PolychromeSprites _ i j) = (KPolychromeSprite, i, j)"
| "batch_parts (Surfaces i j) = (KSurface, i, j)"

lemma batch_parts_make [simp]: "batch_parts (make_batch k t i j) = (k, i, j)"
  by (cases k) simp_all

text \<open>The primitives a list of batches draws, each as its kind and its place in the list of its kind.\<close>

definition batch_draws :: "primitive_batch \<Rightarrow> (primitive_kind \<times> nat) list" where
  "batch_draws b = (case batch_parts b of (k, i, j) \<Rightarrow> map (Pair k) [i..<j])"

definition drawn :: "primitive_batch list \<Rightarrow> (primitive_kind \<times> nat) list" where
  "drawn bs = concat (map batch_draws bs)"

definition draw_key :: "(primitive_kind \<Rightarrow> batch_items) \<Rightarrow> primitive_kind \<times> nat \<Rightarrow> nat \<times> primitive_kind" where
  "draw_key items d = (fst (items (fst d) ! snd d), fst d)"

definition iter_at :: "(primitive_kind \<Rightarrow> batch_items) \<Rightarrow> (primitive_kind \<Rightarrow> nat) \<Rightarrow> batch_iterator" where
  "iter_at items c = (\<lambda>k. (c k, drop (c k) (items k)))"

definition items_ok :: "(primitive_kind \<Rightarrow> batch_items) \<Rightarrow> bool" where
  "items_ok items \<longleftrightarrow> (\<forall>k. sorted (map fst (items k)) \<and> (\<forall>x\<in>set (items k). fst x < U32_MAX))"

lemma peek_iter_at: "peek_order (iter_at items c) k = (if c k < length (items k) then Some (fst (items k ! c k)) else None)"
  by (cases "c k < length (items k)")
    (simp_all add: peek_order_def iter_at_def list_first_def Cons_nth_drop_Suc [symmetric])

text \<open>The first batch: of the kind with the least head, and nothing that remains comes before it.\<close>

lemma next_batch_ok:
  assumes ok: "items_ok items" and some: "\<exists>k. c k < length (items k)"
  shows "\<exists>k n t. next_batch (iter_at items c) = Some (make_batch k t (c k) (c k + n), iter_at items (c(k := c k + n)))
    \<and> 0 < n \<and> c k + n \<le> length (items k)
    \<and> (\<forall>i\<in>{c k..<c k + n}. snd (items k ! i) = t)
    \<and> (\<forall>i\<in>{c k..<c k + n}. \<forall>l j. (c(k := c k + n)) l \<le> j \<and> j < length (items l) \<longrightarrow>
          draw_key items (k, i) \<le> draw_key items (l, j))"
proof -
  let ?it = "iter_at items c"
  obtain k k1 rest where L: "sort_key order_key (map (\<lambda>k. (peek_order ?it k, k)) all_kinds)
      = (peek_order ?it k, k) # (peek_order ?it k1, k1) # rest"
    and least: "\<And>l. order_key (peek_order ?it k, k) \<le> order_key (peek_order ?it l, l)"
    and next_least: "\<And>l. l \<noteq> k \<Longrightarrow> order_key (peek_order ?it k1, k1) \<le> order_key (peek_order ?it l, l)"
    using heads_sorted [of ?it] by blast
  have head: "order_key (peek_order ?it l, l) = draw_key items (l, c l)" if "c l < length (items l)" for l
    using that by (simp add: peek_iter_at order_key_def draw_key_def)
  have up: "draw_key items (l, i) \<le> draw_key items (l, j)" if "i \<le> j" "j < length (items l)" for l i j
    using ok sorted_nth_mono [of "map fst (items l)" i j] that by (simp add: items_ok_def draw_key_def)
  have below: "fst (items l ! j) < U32_MAX" if "j < length (items l)" for l j
    using ok nth_mem [OF that] by (auto simp: items_ok_def)
  have ck: "c k < length (items k)"
  proof (rule ccontr)
    assume "\<not> c k < length (items k)"
    moreover obtain l where "c l < length (items l)"
      using some by blast
    ultimately show False
      using least [of l] below [of "c l" l] by (simp add: peek_iter_at order_key_def less_eq_prod_def)
  qed
  define texture where "texture = snd (items k ! c k)"
  define bound where "bound = order_key (peek_order ?it k1, k1)"
  define taken where "taken = takeWhile (\<lambda>(order, t). (order, k) < bound \<and> t = texture) (drop (Suc (c k)) (items k))"
  let ?n = "1 + length taken"
  have dropk: "drop (c k) (items k) = items k ! c k # drop (Suc (c k)) (items k)"
    using ck by (simp add: Cons_nth_drop_Suc)
  have step: "next_batch ?it = Some (make_batch k texture (c k) (c k + ?n), iter_at items (c(k := c k + ?n)))"
  proof -
    have "peek_order ?it k = Some (fst (items k ! c k))"
      using ck by (simp add: peek_iter_at)
    then show ?thesis
      unfolding next_batch_def Let_def L nth_Cons_0 One_nat_def nth_Cons_Suc fst_conv snd_conv bound_def [symmetric]
      by (simp add: iter_at_def dropk fun_eq_iff taken_def texture_def add.commute)
  qed
  have len: "c k + ?n \<le> length (items k)"
    using length_takeWhile_le [of "\<lambda>(order, t). (order, k) < bound \<and> t = texture" "drop (Suc (c k)) (items k)"] ck
    by (simp add: taken_def)
  have inside: "(i = c k \<or> draw_key items (k, i) < bound) \<and> snd (items k ! i) = texture" if "i \<in> {c k..<c k + ?n}" for i
  proof (cases "i = c k")
    case False
    then have "taken ! (i - Suc (c k)) = items k ! i" "i - Suc (c k) < length taken"
      using that len by (auto simp: taken_def takeWhile_nth)
    then have "items k ! i \<in> set taken"
      by (metis nth_mem)
    then show ?thesis
      by (auto simp: taken_def draw_key_def dest!: set_takeWhileD)
  qed (simp add: texture_def)
  have "draw_key items (k, i) \<le> draw_key items (l, j)"
    if i: "i \<in> {c k..<c k + ?n}" and j: "(c(k := c k + ?n)) l \<le> j" "j < length (items l)" for i l j
  proof (cases "l = k")
    case True
    then show ?thesis
      using up [of i j k] i j by simp
  next
    case False
    then have "draw_key items (l, c l) \<le> draw_key items (l, j)" "c l < length (items l)"
      using up [of "c l" j l] j by simp_all
    moreover have "draw_key items (k, i) \<le> draw_key items (l, c l)"
      using inside [OF i] least [of l] next_least [OF False] head [OF ck] head [OF \<open>c l < length (items l)\<close>]
      by (auto simp: bound_def)
    ultimately show ?thesis
      using order_trans by blast
  qed
  with step len inside show ?thesis
    by (intro exI [of _ k] exI [of _ ?n] exI [of _ texture]) auto
qed

lemma next_batch_end:
  assumes "\<forall>k. length (items k) \<le> c k"
  shows "next_batch (iter_at items c) = None"
proof -
  have none: "peek_order (iter_at items c) k = None" for k
    using assms by (simp add: peek_iter_at not_less)
  obtain k0 k1 rest where L: "sort_key order_key (map (\<lambda>k. (peek_order (iter_at items c) k, k)) all_kinds)
      = (peek_order (iter_at items c) k0, k0) # (peek_order (iter_at items c) k1, k1) # rest"
    using heads_sorted by blast
  show ?thesis
    unfolding next_batch_def Let_def L by (simp add: none)
qed

definition batch_uniform :: "(primitive_kind \<Rightarrow> batch_items) \<Rightarrow> primitive_batch \<Rightarrow> bool" where
  "batch_uniform items b \<longleftrightarrow>
     (\<exists>k t i j. b = make_batch k t i j \<and> i < j \<and> (\<forall>x\<in>{i..<j}. snd (items k ! x) = t))"

lemma batches_from_ok:
  assumes ok: "items_ok items" and "\<forall>k. c k \<le> length (items k)"
  shows "sorted (map (draw_key items) (drawn (batches_from (iter_at items c))))
    \<and> (\<forall>k. filter (\<lambda>d. fst d = k) (drawn (batches_from (iter_at items c))) = map (Pair k) [c k..<length (items k)])
    \<and> (\<forall>b\<in>set (batches_from (iter_at items c)). batch_uniform items b)"
  using assms(2)
proof (induction "remaining (iter_at items c)" arbitrary: c rule: less_induct)
  case less
  show ?case
  proof (cases "\<exists>k. c k < length (items k)")
    case False
    then have none: "\<forall>k. length (items k) \<le> c k"
      by (simp add: not_less)
    have "batches_from (iter_at items c) = []"
      by (subst batches_from.simps) (simp add: next_batch_end [OF none])
    with none show ?thesis
      by (simp add: drawn_def)
  next
    case True
    then obtain k n t where
      step: "next_batch (iter_at items c) = Some (make_batch k t (c k) (c k + n), iter_at items (c(k := c k + n)))"
      and n: "0 < n" "c k + n \<le> length (items k)" and tex: "\<forall>i\<in>{c k..<c k + n}. snd (items k ! i) = t"
      and before: "\<forall>i\<in>{c k..<c k + n}. \<forall>l j. (c(k := c k + n)) l \<le> j \<and> j < length (items l) \<longrightarrow>
          draw_key items (k, i) \<le> draw_key items (l, j)"
      using next_batch_ok [OF ok] by blast
    let ?c = "c(k := c k + n)"
    let ?D = "drawn (batches_from (iter_at items ?c))"
    have bs: "batches_from (iter_at items c) = make_batch k t (c k) (c k + n) # batches_from (iter_at items ?c)"
      by (subst batches_from.simps) (simp add: step)
    have D: "drawn (batches_from (iter_at items c)) = map (Pair k) [c k..<c k + n] @ ?D"
      by (simp add: bs drawn_def batch_draws_def)
    have IH: "sorted (map (draw_key items) ?D)" "\<And>l. filter (\<lambda>d. fst d = l) ?D = map (Pair l) [?c l..<length (items l)]"
        "\<forall>b\<in>set (batches_from (iter_at items ?c)). batch_uniform items b"
      using less.hyps [OF next_batch_shrinks [OF step]] less.prems n by auto
    have mem: "?c (fst d) \<le> snd d \<and> snd d < length (items (fst d))" if "d \<in> set ?D" for d
    proof -
      have "d \<in> set (filter (\<lambda>d'. fst d' = fst d) ?D)"
        using that by simp
      then obtain x where "d = (fst d, x)" "?c (fst d) \<le> x" "x < length (items (fst d))"
        unfolding IH(2) set_map set_upt atLeastLessThan_iff image_iff by (metis atLeastLessThan_iff)
      then show ?thesis
        by (metis snd_conv)
    qed
    have up: "draw_key items (k, i) \<le> draw_key items (k, j)" if "i \<le> j" "j < length (items k)" for i j
      using ok sorted_nth_mono [of "map fst (items k)" i j] that by (simp add: items_ok_def draw_key_def)
    have "sorted (map (draw_key items) (map (Pair k) [c k..<c k + n]))"
      using n up by (simp add: sorted_iff_nth_mono)
    moreover have "draw_key items (k, i) \<le> draw_key items d" if "i \<in> {c k..<c k + n}" "d \<in> set ?D" for i d
      using before that(1) mem [OF that(2)] by (cases d) auto
    ultimately have "sorted (map (draw_key items) (drawn (batches_from (iter_at items c))))"
      unfolding D map_append sorted_append using IH(1) by auto
    moreover have "filter (\<lambda>d. fst d = l) (drawn (batches_from (iter_at items c))) = map (Pair l) [c l..<length (items l)]" for l
    proof (cases "l = k")
      case True
      then show ?thesis
        using n upt_add_eq_append [of "c k" "c k + n" "length (items k) - (c k + n)"]
        by (simp add: D IH(2) filter_map comp_def flip: map_append)
    qed (simp add: D IH(2) filter_map comp_def)
    moreover have "batch_uniform items (make_batch k t (c k) (c k + n))"
      unfolding batch_uniform_def
      by (intro exI [of _ k] exI [of _ t] exI [of _ "c k"] exI [of _ "c k + n"]) (use n(1) tex in simp)
    ultimately show ?thesis
      using IH(3) by (simp add: bs)
  qed
qed

section \<open>The lists of a scene\<close>

fun kind_of :: "('u, 'd) primitive \<Rightarrow> primitive_kind" where
  "kind_of (Shadow _) = KShadow"
| "kind_of (Quad _) = KQuad"
| "kind_of (Path _) = KPath"
| "kind_of (Underline _) = KUnderline"
| "kind_of (MonochromeSprite _) = KMonochromeSprite"
| "kind_of (SubpixelSprite _) = KSubpixelSprite"
| "kind_of (PolychromeSprite _) = KPolychromeSprite"
| "kind_of (Surface _) = KSurface"

fun prim_order :: "('u, 'd) primitive \<Rightarrow> nat" where
  "prim_order (Shadow p) = p_order p"
| "prim_order (Quad p) = p_order p"
| "prim_order (Path p) = p_order p"
| "prim_order (Underline p) = p_order p"
| "prim_order (MonochromeSprite p) = p_order p"
| "prim_order (SubpixelSprite p) = p_order p"
| "prim_order (PolychromeSprite p) = p_order p"
| "prim_order (Surface p) = p_order p"

fun prim_tile :: "('u, 'd) primitive \<Rightarrow> atlas_tile option" where
  "prim_tile (MonochromeSprite p) = Some (tile p)"
| "prim_tile (SubpixelSprite p) = Some (tile p)"
| "prim_tile (PolychromeSprite p) = Some (tile p)"
| "prim_tile _ = None"

text \<open>A primitive without what the scene writes into it: its order and a path's number.\<close>

fun unplaced :: "('u, 'd) primitive \<Rightarrow> ('u, 'd) primitive" where
  "unplaced (Shadow p) = Shadow (p\<lparr>p_order := 0\<rparr>)"
| "unplaced (Quad p) = Quad (p\<lparr>p_order := 0\<rparr>)"
| "unplaced (Path p) = Path (p\<lparr>p_order := 0, path_id := 0\<rparr>)"
| "unplaced (Underline p) = Underline (p\<lparr>p_order := 0\<rparr>)"
| "unplaced (MonochromeSprite p) = MonochromeSprite (p\<lparr>p_order := 0\<rparr>)"
| "unplaced (SubpixelSprite p) = SubpixelSprite (p\<lparr>p_order := 0\<rparr>)"
| "unplaced (PolychromeSprite p) = PolychromeSprite (p\<lparr>p_order := 0\<rparr>)"
| "unplaced (Surface p) = Surface (p\<lparr>p_order := 0\<rparr>)"

fun list_of :: "('u, 'd, 'f) scene \<Rightarrow> primitive_kind \<Rightarrow> ('u, 'd) primitive list" where
  "list_of s KShadow = map Shadow (shadows s)"
| "list_of s KQuad = map Quad (quads s)"
| "list_of s KPath = map Path (paths s)"
| "list_of s KUnderline = map Underline (underlines s)"
| "list_of s KMonochromeSprite = map MonochromeSprite (monochrome_sprites s)"
| "list_of s KSubpixelSprite = map SubpixelSprite (subpixel_sprites s)"
| "list_of s KPolychromeSprite = map PolychromeSprite (polychrome_sprites s)"
| "list_of s KSurface = map Surface (surfaces s)"

lemma unplaced_cong:
  "primitive_bounds (unplaced p) = primitive_bounds p" "content_mask (unplaced p) = content_mask p"
  "kind_of (unplaced p) = kind_of p" "prim_tile (unplaced p) = prim_tile p"
  by (cases p; simp)+

lemma unplaced_eqD:
  assumes "unplaced p = unplaced q"
  shows "primitive_bounds p = primitive_bounds q" "content_mask p = content_mask q" "kind_of p = kind_of q"
    "prim_tile p = prim_tile q" "clipped_bounds p = clipped_bounds q"
  using unplaced_cong [of p] unplaced_cong [of q] assms by (simp_all add: clipped_bounds_def)

lemma scene_items_list: "scene_items s k = map (\<lambda>p. (prim_order p, map_option texture_id (prim_tile p))) (list_of s k)"
  by (cases k) (simp_all add: scene_items_def comp_def)

text \<open>What pushing a primitive does, whatever its kind.\<close>

lemma push_primitive_ok:
  assumes "push_primitive p order s = (p', s')"
  shows "unplaced p' = unplaced p" "prim_order p' = order"
    "list_of s' k = list_of s k @ (if k = kind_of p then [p'] else [])"
    "paint_operations s' = paint_operations s" "bounds_tree s' = bounds_tree s" "layer_stack s' = layer_stack s"
    "clip_scopes s' = clip_scopes s" "clip_active s' = clip_active s" "layers s' = layers s"
  using assms by (cases p; cases k; auto simp: Let_def)+

text \<open>What is pushed depends only on the lists and on what the scene does not write.\<close>

lemma prim_reorder:
  fixes p q :: "('u, 'd) prim"
  shows "p\<lparr>p_order := 0\<rparr> = q\<lparr>p_order := 0\<rparr> \<Longrightarrow> p\<lparr>p_order := v\<rparr> = q\<lparr>p_order := v\<rparr>"
  by (cases p; cases q) simp

lemma path_reorder:
  fixes p q :: "('u, 'd) path_prim"
  shows "p\<lparr>p_order := 0, path_id := 0\<rparr> = q\<lparr>p_order := 0, path_id := 0\<rparr> \<Longrightarrow>
    p\<lparr>p_order := v, path_id := i\<rparr> = q\<lparr>p_order := v, path_id := i\<rparr>"
  by (cases p; cases q) simp

lemma sprite_reorder:
  fixes p q :: "('u, 'd) sprite"
  shows "p\<lparr>p_order := 0\<rparr> = q\<lparr>p_order := 0\<rparr> \<Longrightarrow> p\<lparr>p_order := v\<rparr> = q\<lparr>p_order := v\<rparr>"
  by (cases p; cases q) simp

lemma push_primitive_cong:
  assumes "unplaced p = unplaced q" "paths s = paths r"
  shows "fst (push_primitive p order s) = fst (push_primitive q order r)"
  using assms by (cases p; cases q) (auto simp: Let_def intro: prim_reorder path_reorder sprite_reorder)

section \<open>Painting\<close>

fun op_prim :: "('u, 'd) paint_operation \<Rightarrow> ('u, 'd) primitive option" where
  "op_prim (OpPrimitive p) = Some p"
| "op_prim _ = None"

definition prims :: "('u, 'd, 'f) scene \<Rightarrow> ('u, 'd) primitive list" where
  "prims s = List.map_filter op_prim (paint_operations s)"

text \<open>The invariant of a scene while it is painted.\<close>

definition scene_ok :: "('u::floor_ceiling, 'd, 'f) scene \<Rightarrow> bool" where
  "scene_ok s \<longleftrightarrow> ft_ok (bounds_tree s)
     \<and> (\<forall>k. list_of s k = filter (\<lambda>p. kind_of p = k) (prims s))
     \<and> (\<forall>i<length (paths s). path_id (paths s ! i) = i)
     \<and> (\<forall>i\<in>set (clip_active s). i < length (clip_scopes s))"

definition scene_room :: "('u, 'd, 'f) scene \<Rightarrow> bool" where
  "scene_room s \<longleftrightarrow> length (recorded (bounds_tree s)) < CAPACITY"

definition clip_allowed :: "('u, 'd) paint_operation \<Rightarrow> ('u, 'd, 'f) scene \<Rightarrow> bool" where
  "clip_allowed operation s \<longleftrightarrow> (operation = FastRoundedClip End \<longrightarrow> clip_active s \<noteq> [])"

lemma map_filter_snoc: "List.map_filter f (xs @ [x]) = List.map_filter f xs @ (case f x of Some y \<Rightarrow> [y] | None \<Rightarrow> [])"
  by (simp add: map_filter_def split: option.splits)

lemma list_of_update [simp]:
  "list_of (s\<lparr>bounds_tree := t\<rparr>) k = list_of s k"
  "list_of (s\<lparr>layer_stack := ls\<rparr>) k = list_of s k"
  "list_of (s\<lparr>paint_operations := ops\<rparr>) k = list_of s k"
  "list_of (s\<lparr>clip_scopes := cs\<rparr>) k = list_of s k"
  "list_of (s\<lparr>clip_active := ca\<rparr>) k = list_of s k"
  "list_of (s\<lparr>clip_compiled := cc\<rparr>) k = list_of s k"
  "list_of (s\<lparr>layers := fr\<rparr>) k = list_of s k"
  by (cases k; simp)+

lemma paths_list: "list_of s KPath = map Path (paths s)"
  by simp

text \<open>Inserting a visible primitive: where its order comes from.\<close>

lemma insert_primitive_visible:
  assumes ok: "scene_ok s" and room: "scene_room s" and vis: "\<not> bounds_is_empty (clipped_bounds p)"
  shows "\<exists>s' p' v. insert_primitive p s = Some s' \<and> scene_ok s'
    \<and> unplaced p' = unplaced p \<and> prim_order p' = v
    \<and> p' = fst (push_primitive p v s)
    \<and> paint_operations s' = paint_operations s @ [OpPrimitive p'] \<and> layer_stack s' = layer_stack s
    \<and> clip_active s' = clip_active s \<and> clip_scopes s' = clip_scopes s \<and> layers s' = layers s
    \<and> (case list_last (layer_stack s) of
         Some order \<Rightarrow> v = order \<and> bounds_tree s' = bounds_tree s
       | None \<Rightarrow> v = next_order (mset (recorded (bounds_tree s))) (clipped_bounds p)
           \<and> recorded (bounds_tree s') = recorded (bounds_tree s) @ [(clipped_bounds p, v)])"
proof -
  let ?pick = "case list_last (layer_stack s) of Some order \<Rightarrow> Some (bounds_tree s, order)
      | None \<Rightarrow> ft_insert (bounds_tree s) (clipped_bounds p)"
  have tree: "ft_ok (bounds_tree s)" "length (recorded (bounds_tree s)) < CAPACITY"
    using ok room by (simp_all add: scene_ok_def scene_room_def)
  obtain t v where pick: "?pick = Some (t, v)" "ft_ok t"
    and src: "case list_last (layer_stack s) of Some order \<Rightarrow> v = order \<and> t = bounds_tree s
       | None \<Rightarrow> v = next_order (mset (recorded (bounds_tree s))) (clipped_bounds p)
           \<and> recorded t = recorded (bounds_tree s) @ [(clipped_bounds p, v)]"
    using ft_insert_ok [OF tree, of "clipped_bounds p"] tree(1) by (cases "list_last (layer_stack s)") auto
  obtain p' s1 where push: "push_primitive p v (s\<lparr>bounds_tree := t\<rparr>) = (p', s1)"
    by fastforce
  let ?s = "s1\<lparr>paint_operations := paint_operations s @ [OpPrimitive p']\<rparr>"
  note pushed = push_primitive_ok [OF push]
  have ins: "insert_primitive p s = Some ?s"
    unfolding insert_primitive_def pick(1) by (simp add: vis push pushed(4))
  have p': "p' = fst (push_primitive p v s)"
    using push_primitive_cong [of p p "s\<lparr>bounds_tree := t\<rparr>" s v] push by simp
  have kind: "kind_of p' = kind_of p"
    using unplaced_eqD [OF pushed(1)] by simp
  have "list_of ?s k = filter (\<lambda>p. kind_of p = k) (prims ?s)" for k
    using ok pushed(3) [of k] kind by (auto simp: scene_ok_def prims_def map_filter_snoc)
  moreover have "path_id (paths ?s ! i) = i" if "i < length (paths ?s)" for i
    using ok push that by (cases p) (auto simp: scene_ok_def Let_def nth_append less_Suc_eq)
  ultimately have "scene_ok ?s"
    using ok pick(2) pushed by (simp add: scene_ok_def)
  with ins p' src show ?thesis
    using pushed by (intro exI [of _ ?s] exI [of _ p'] exI [of _ v]) (auto split: option.splits)
qed

lemma push_layer_ok:
  fixes b :: "'u::floor_ceiling bounds" and s :: "('u, 'd, 'f) scene"
  assumes ok: "scene_ok s" and room: "scene_room s"
  defines "v \<equiv> next_order (mset (recorded (bounds_tree s))) b"
  shows "\<exists>s' t. push_layer b s = Some s' \<and> scene_ok s'
    \<and> s' = s\<lparr>bounds_tree := t, layer_stack := layer_stack s @ [v], paint_operations := paint_operations s @ [StartLayer b]\<rparr>
    \<and> recorded t = recorded (bounds_tree s) @ [(b, v)]"
proof -
  have tree: "ft_ok (bounds_tree s)" "length (recorded (bounds_tree s)) < CAPACITY"
    using ok room by (simp_all add: scene_ok_def scene_room_def)
  from ft_insert_ok [OF tree, of b] obtain t where
    "ft_insert (bounds_tree s) b = Some (t, v)" "ft_ok t" "recorded t = recorded (bounds_tree s) @ [(b, v)]"
    unfolding v_def by blast
  with ok show ?thesis
    by (intro exI [of _ "s\<lparr>bounds_tree := t, layer_stack := layer_stack s @ [v],
          paint_operations := paint_operations s @ [StartLayer b]\<rparr>"] exI [of _ t])
      (simp add: push_layer_def scene_ok_def prims_def map_filter_snoc)
qed

lemma pop_layer_ok: "scene_ok s \<Longrightarrow> scene_ok (pop_layer s)"
  by (simp add: scene_ok_def pop_layer_def prims_def map_filter_snoc)

lemma record_clip_ok:
  assumes ok: "scene_ok s" and allowed: "clip_allowed (FastRoundedClip c) s"
  shows "\<exists>cs ca. record_clip c s = Some (s\<lparr>clip_compiled := False, clip_scopes := cs, clip_active := ca,
        paint_operations := paint_operations s @ [FastRoundedClip c]\<rparr>)
    \<and> scene_ok (s\<lparr>clip_compiled := False, clip_scopes := cs, clip_active := ca,
        paint_operations := paint_operations s @ [FastRoundedClip c]\<rparr>)
    \<and> length ca = (case c of Begin _ \<Rightarrow> Suc (length (clip_active s)) | End \<Rightarrow> length (clip_active s) - 1)"
proof (cases c)
  case (Begin sh)
  let ?scope = "\<lparr>cs_start = length (paint_operations s), cs_end = length (paint_operations s), cs_shape = sh,
      cs_parent = list_last (clip_active s)\<rparr>"
  show ?thesis
    using Begin ok
    by (intro exI [of _ "clip_scopes s @ [?scope]"] exI [of _ "clip_active s @ [length (clip_scopes s)]"])
      (auto simp: record_clip_def scene_ok_def prims_def map_filter_snoc Let_def)
next
  case End
  then have ne: "clip_active s \<noteq> []"
    using allowed by (simp add: clip_allowed_def)
  then have "last (clip_active s) < length (clip_scopes s)"
    using ok by (simp add: scene_ok_def)
  with ne End ok show ?thesis
    by (intro exI [of _ "(clip_scopes s)[last (clip_active s) :=
          (clip_scopes s ! last (clip_active s))\<lparr>cs_end := length (paint_operations s) + 1\<rparr>]"]
        exI [of _ "butlast (clip_active s)"])
      (auto simp: record_clip_def scene_ok_def prims_def map_filter_snoc Let_def list_last_def dest: in_set_butlastD)
qed

subsection \<open>The orders of a frame\<close>

text \<open>
  The trace of a list of operations: the rectangles given to the bounds tree, the open layers as positions
  in that list, and every visible primitive with the position of the rectangle that orders it: its own, or
  that of the innermost open layer.
\<close>

type_synonym ('u, 'd) trace_state = "nat list \<times> 'u bounds list \<times> (('u, 'd) primitive \<times> nat) list"

fun trace_step :: "('u::floor_ceiling, 'd) paint_operation \<Rightarrow> ('u, 'd) trace_state \<Rightarrow> ('u, 'd) trace_state" where
  "trace_step (OpPrimitive p) (st, rects, tr) =
     (if bounds_is_empty (clipped_bounds p) then (st, rects, tr)
      else case list_last st of
             Some i \<Rightarrow> (st, rects, tr @ [(p, i)])
           | None \<Rightarrow> (st, rects @ [clipped_bounds p], tr @ [(p, length rects)]))"
| "trace_step (StartLayer b) (st, rects, tr) = (st @ [length rects], rects @ [b], tr)"
| "trace_step EndLayer (st, rects, tr) = (butlast st, rects, tr)"
| "trace_step (FastRoundedClip c) (st, rects, tr) = (st, rects, tr)"

definition paint_trace :: "('u::floor_ceiling, 'd) paint_operation list \<Rightarrow> ('u, 'd) trace_state" where
  "paint_trace ops = fold trace_step ops ([], [], [])"

text \<open>The scene agrees with the trace.\<close>

definition traced :: "('u::floor_ceiling, 'd, 'f) scene \<Rightarrow> ('u, 'd) trace_state \<Rightarrow> bool" where
  "traced s t \<longleftrightarrow>
     (case t of (st, rects, tr) \<Rightarrow>
        map fst (recorded (bounds_tree s)) = rects
        \<and> layer_stack s = map (\<lambda>i. snd (recorded (bounds_tree s) ! i)) st
        \<and> map unplaced (prims s) = map (\<lambda>e. unplaced (fst e)) tr
        \<and> map prim_order (prims s) = map (\<lambda>e. snd (recorded (bounds_tree s) ! snd e)) tr
        \<and> (\<forall>i\<in>set st. i < length rects) \<and> (\<forall>e\<in>set tr. snd e < length rects))"

text \<open>Recording one more rectangle changes no earlier order.\<close>

lemma recorded_snoc_map:
  assumes "\<forall>e\<in>set xs. f e < length ps"
  shows "map (\<lambda>e. snd ((ps @ [p]) ! f e)) xs = map (\<lambda>e. snd (ps ! f e)) xs"
  using assms by (simp add: nth_append)

lemma list_last_map: "list_last (map f xs) = map_option f (list_last xs)"
  by (simp add: list_last_def last_map)

lemma traced_insert:
  assumes ok: "scene_ok s" and room: "scene_room s" and tr: "traced s t"
  shows "\<exists>s'. insert_primitive p s = Some s' \<and> scene_ok s' \<and> traced s' (trace_step (OpPrimitive p) t)
    \<and> length (recorded (bounds_tree s')) \<le> Suc (length (recorded (bounds_tree s))) \<and> clip_active s' = clip_active s"
proof (cases "bounds_is_empty (clipped_bounds p)")
  case True
  then have "insert_primitive p s = Some s" "trace_step (OpPrimitive p) t = t"
    by (cases t, simp add: insert_primitive_def)+
  with ok tr show ?thesis
    by simp
next
  case False
  obtain st rects l where t: "t = (st, rects, l)"
    by (cases t)
  note T = tr [unfolded traced_def t prod.case]
  from insert_primitive_visible [OF ok room False] obtain s' p' v where
    s': "insert_primitive p s = Some s'" "scene_ok s'" "unplaced p' = unplaced p" "prim_order p' = v"
      "paint_operations s' = paint_operations s @ [OpPrimitive p']" "layer_stack s' = layer_stack s" "clip_active s' = clip_active s"
    and src: "case list_last (layer_stack s) of
         Some order \<Rightarrow> v = order \<and> bounds_tree s' = bounds_tree s
       | None \<Rightarrow> v = next_order (mset (recorded (bounds_tree s))) (clipped_bounds p)
           \<and> recorded (bounds_tree s') = recorded (bounds_tree s) @ [(clipped_bounds p, v)]"
    by - (elim exE conjE, rule that, assumption+)
  have prims: "prims s' = prims s @ [p']"
    by (simp add: prims_def s'(5) map_filter_snoc)
  have len: "length (recorded (bounds_tree s)) = length rects"
    using T by auto
  have "traced s' (trace_step (OpPrimitive p) t) \<and> length (recorded (bounds_tree s')) \<le> Suc (length (recorded (bounds_tree s)))"
  proof (cases "list_last st")
    case None
    then have src': "recorded (bounds_tree s') = recorded (bounds_tree s) @ [(clipped_bounds p, v)]"
      using src T by (simp add: list_last_map)
    then show ?thesis
      using None False T s'(3,4,6) len
      by (auto simp: t traced_def prims src' recorded_snoc_map nth_append intro: less_SucI)
  next
    case (Some i)
    then have "i \<in> set st" "v = snd (recorded (bounds_tree s) ! i)" "bounds_tree s' = bounds_tree s"
      using src T by (auto simp: list_last_map list_last_def last_map split: if_splits)
    then show ?thesis
      using Some False T s'(3,4,6) by (auto simp: t traced_def prims)
  qed
  with s' show ?thesis
    by blast
qed

lemma traced_step:
  assumes ok: "scene_ok s" and room: "scene_room s" and tr: "traced s t" and allowed: "clip_allowed operation s"
  shows "\<exists>s'. apply_paint operation s = Some s' \<and> scene_ok s' \<and> traced s' (trace_step operation t)
    \<and> length (recorded (bounds_tree s')) \<le> Suc (length (recorded (bounds_tree s)))
    \<and> length (clip_active s') = (case operation of
         FastRoundedClip (Begin _) \<Rightarrow> Suc (length (clip_active s))
       | FastRoundedClip End \<Rightarrow> length (clip_active s) - 1
       | _ \<Rightarrow> length (clip_active s))"
proof -
  obtain st rects l where t: "t = (st, rects, l)"
    by (cases t)
  note T = tr [unfolded traced_def t prod.case]
  show ?thesis
  proof (cases operation)
    case (OpPrimitive p)
    with traced_insert [OF ok room tr, of p] show ?thesis
      by (auto simp: apply_paint_def)
  next
    case (StartLayer b)
    obtain s' t' v where "push_layer b s = Some s'" "scene_ok s'"
        "s' = s\<lparr>bounds_tree := t', layer_stack := layer_stack s @ [v], paint_operations := paint_operations s @ [StartLayer b]\<rparr>"
        "recorded t' = recorded (bounds_tree s) @ [(b, v)]"
      using push_layer_ok [OF ok room] by blast
    with StartLayer T show ?thesis
      by (auto simp: apply_paint_def t traced_def prims_def map_filter_snoc nth_append intro: less_SucI)
  next
    case EndLayer
    with pop_layer_ok [OF ok] T show ?thesis
      by (auto simp: apply_paint_def t traced_def prims_def map_filter_snoc pop_layer_def map_butlast dest: in_set_butlastD)
  next
    case (FastRoundedClip c)
    with record_clip_ok [OF ok, of c] allowed obtain cs ca where
      "record_clip c s = Some (s\<lparr>clip_compiled := False, clip_scopes := cs, clip_active := ca,
        paint_operations := paint_operations s @ [FastRoundedClip c]\<rparr>)"
      "scene_ok (s\<lparr>clip_compiled := False, clip_scopes := cs, clip_active := ca,
        paint_operations := paint_operations s @ [FastRoundedClip c]\<rparr>)"
      "length ca = (case c of Begin _ \<Rightarrow> Suc (length (clip_active s)) | End \<Rightarrow> length (clip_active s) - 1)"
      by auto
    with FastRoundedClip T show ?thesis
      by (cases c) (auto simp: apply_paint_def t traced_def prims_def map_filter_snoc)
  qed
qed

text \<open>Every \<open>End\<close> closes an open clip; \<open>d\<close> clips are open.\<close>

fun clips_balanced :: "nat \<Rightarrow> ('u, 'd) paint_operation list \<Rightarrow> bool" where
  "clips_balanced d [] \<longleftrightarrow> True"
| "clips_balanced d (FastRoundedClip (Begin _) # ops) \<longleftrightarrow> clips_balanced (Suc d) ops"
| "clips_balanced d (FastRoundedClip End # ops) \<longleftrightarrow> 0 < d \<and> clips_balanced (d - 1) ops"
| "clips_balanced d (_ # ops) \<longleftrightarrow> clips_balanced d ops"

lemma spec_orders_snoc: "spec_orders es (bs @ [b]) = spec_orders es bs @ [next_order (es + mset (zip bs (spec_orders es bs))) b]"
  by (induction bs arbitrary: es) simp_all

lemma orders_ok_spec: "orders_ok ps \<Longrightarrow> map snd ps = spec_orders {#} (map fst ps)"
proof (induction ps rule: rev_induct)
  case (snoc p ps)
  have "orders_ok ps"
    unfolding orders_ok_def
  proof (intro allI impI)
    fix i assume "i < length ps"
    then show "snd (ps ! i) = next_order (mset (take i ps)) (fst (ps ! i))"
      using snoc.prems [unfolded orders_ok_def, rule_format, of i] by (simp add: nth_append)
  qed
  then have IH: "map snd ps = spec_orders {#} (map fst ps)"
    by (rule snoc.IH)
  have "snd p = next_order (mset ps) (fst p)"
    using snoc.prems [unfolded orders_ok_def, rule_format, of "length ps"] by simp
  then show ?case
    by (simp add: spec_orders_snoc IH [symmetric] zip_map_fst_snd)
qed simp

lemma scene_clear_ok:
  assumes "scene_ok s \<or> ft_ok (bounds_tree s)"
  shows "scene_ok (scene_clear s)" "traced (scene_clear s) ([], [], [])" "recorded (bounds_tree (scene_clear s)) = []"
    "clip_active (scene_clear s) = []"
proof -
  have "ft_ok (bounds_tree s)"
    using assms by (auto simp: scene_ok_def)
  moreover have "list_of (scene_clear s) k = []" for k
    by (cases k) (simp_all add: scene_clear_def)
  ultimately show "scene_ok (scene_clear s)"
    by (simp add: scene_ok_def prims_def ft_clear_ok) (simp add: scene_clear_def ft_clear_ok)
  show "traced (scene_clear s) ([], [], [])" "recorded (bounds_tree (scene_clear s)) = []" "clip_active (scene_clear s) = []"
    by (simp_all add: traced_def scene_clear_def ft_clear_def prims_def)
qed

lemma paint_run:
  assumes "scene_ok s" "traced s t" "length (recorded (bounds_tree s)) + length ops \<le> CAPACITY"
    "clips_balanced (length (clip_active s)) ops"
  shows "\<exists>s'. for_each apply_paint ops s = Some s' \<and> scene_ok s' \<and> traced s' (fold trace_step ops t)"
  using assms
proof (induction ops arbitrary: s t)
  case (Cons op ops)
  have room: "scene_room s"
    using Cons.prems(3) by (simp add: scene_room_def)
  have allowed: "clip_allowed op s"
    using Cons.prems(4) by (auto simp: clip_allowed_def)
  from traced_step [OF Cons.prems(1) room Cons.prems(2) allowed] obtain s1 where
    s1: "apply_paint op s = Some s1" "scene_ok s1" "traced s1 (trace_step op t)"
      "length (recorded (bounds_tree s1)) \<le> Suc (length (recorded (bounds_tree s)))"
    and depth: "length (clip_active s1) = (case op of
         FastRoundedClip (Begin _) \<Rightarrow> Suc (length (clip_active s))
       | FastRoundedClip End \<Rightarrow> length (clip_active s) - 1
       | _ \<Rightarrow> length (clip_active s))"
    by blast
  have "clips_balanced (length (clip_active s1)) ops"
    using Cons.prems(4) depth by (cases op) (auto split: clip_operation.splits paint_operation.splits)
  with Cons.IH [OF s1(2,3)] s1 Cons.prems(3) show ?case
    by simp
qed simp

text \<open>A frame painted from scratch.\<close>

lemma paint_frame:
  assumes "ft_ok (bounds_tree s)" "length ops \<le> CAPACITY" "clips_balanced 0 ops" "paint_trace ops = (st, rects, tr)"
  shows "\<exists>s'. for_each apply_paint ops (scene_clear s) = Some s' \<and> scene_ok s' \<and> traced s' (st, rects, tr)
    \<and> map unplaced (prims s') = map (\<lambda>e. unplaced (fst e)) tr
    \<and> map prim_order (prims s') = map (\<lambda>e. spec_orders {#} rects ! snd e) tr
    \<and> (\<forall>e\<in>set tr. snd e < length rects)"
proof -
  have start: "scene_ok s \<or> ft_ok (bounds_tree s)"
    using assms(1) by simp
  note cleared = scene_clear_ok [OF start]
  from paint_run [OF cleared(1,2), of ops] assms cleared(3,4) obtain s' where
    s': "for_each apply_paint ops (scene_clear s) = Some s'" "scene_ok s'" "traced s' (st, rects, tr)"
    by (auto simp: paint_trace_def)
  have rec: "map snd (recorded (bounds_tree s')) = spec_orders {#} rects"
    using s'(2,3) orders_ok_spec by (auto simp: scene_ok_def ft_ok_def traced_def)
  have T: "map unplaced (prims s') = map (\<lambda>e. unplaced (fst e)) tr" "\<forall>e\<in>set tr. snd e < length rects"
      "map prim_order (prims s') = map (\<lambda>e. snd (recorded (bounds_tree s') ! snd e)) tr"
      "length (recorded (bounds_tree s')) = length rects"
    using s'(3) by (auto simp: traced_def)
  have "snd (recorded (bounds_tree s') ! i) = spec_orders {#} rects ! i" if "i < length rects" for i
    using that T(4) rec by (metis nth_map)
  with T s' show ?thesis
    by auto
qed

subsection \<open>Replaying\<close>

text \<open>Two scenes with the same primitives, operations and clips, whose trees have recorded the same.\<close>

definition same_scene :: "('u::floor_ceiling, 'd, 'f) scene \<Rightarrow> ('u, 'd, 'f) scene \<Rightarrow> bool" where
  "same_scene s r \<longleftrightarrow> paint_operations s = paint_operations r \<and> layer_stack s = layer_stack r
     \<and> (\<forall>k. list_of s k = list_of r k) \<and> recorded (bounds_tree s) = recorded (bounds_tree r)
     \<and> clip_scopes s = clip_scopes r \<and> clip_active s = clip_active r"

lemma same_scene_paths: "same_scene s r \<Longrightarrow> paths s = paths r"
proof -
  assume "same_scene s r"
  then have "map Path (paths s) = map Path (paths r)"
    unfolding same_scene_def by (metis paths_list)
  then show ?thesis
    by (simp add: inj_map_eq_map inj_def)
qed

lemma scene_list_prims: "scene_ok s \<Longrightarrow> scene_ok r \<Longrightarrow> paint_operations s = paint_operations r \<Longrightarrow> list_of s k = list_of r k"
  by (simp add: scene_ok_def prims_def)

lemma record_clip_allowed: "record_clip c s = Some s' \<Longrightarrow> clip_allowed (FastRoundedClip c) s"
  by (cases c) (auto simp: clip_allowed_def record_clip_def list_last_def Let_def)

lemma record_clip_form:
  "record_clip c s = Some s' \<Longrightarrow>
   s' = s\<lparr>clip_compiled := False, clip_scopes := clip_scopes s', clip_active := clip_active s',
          paint_operations := paint_operations s @ [FastRoundedClip c]\<rparr>"
  by (cases c) (auto simp: record_clip_def Let_def split: bind_splits)

lemma record_clip_same:
  "record_clip c s = Some s' \<Longrightarrow> paint_operations s = paint_operations r \<Longrightarrow> clip_scopes s = clip_scopes r \<Longrightarrow>
   clip_active s = clip_active r \<Longrightarrow>
   record_clip c r = Some (r\<lparr>clip_compiled := False, clip_scopes := clip_scopes s', clip_active := clip_active s',
          paint_operations := paint_operations s @ [FastRoundedClip c]\<rparr>)"
  by (cases c) (auto simp: record_clip_def Let_def split: bind_splits)

text \<open>Applying an operation, and applying what it recorded, do the same.\<close>

lemma replay_step:
  assumes ok: "scene_ok s" "scene_ok r" and same: "same_scene s r" and room: "scene_room s"
    and step: "apply_paint operation s = Some s'"
  shows "s' = s \<or> (\<exists>operation' r'. paint_operations s' = paint_operations s @ [operation']
    \<and> apply_paint operation' r = Some r' \<and> scene_ok r' \<and> same_scene s' r' \<and> layers r' = layers r)"
proof -
  have S: "paint_operations s = paint_operations r" "layer_stack s = layer_stack r" "recorded (bounds_tree s) = recorded (bounds_tree r)"
      "clip_scopes s = clip_scopes r" "clip_active s = clip_active r"
    using same by (simp_all add: same_scene_def)
  have room': "scene_room r"
    using room S by (simp add: scene_room_def)
  show ?thesis
  proof (cases operation)
    case (OpPrimitive p)
    show ?thesis
    proof (cases "bounds_is_empty (clipped_bounds p)")
      case True
      with OpPrimitive step show ?thesis
        by (simp add: apply_paint_def insert_primitive_def)
    next
      case False
      have ins: "insert_primitive p s = Some s'"
        using step OpPrimitive by (simp add: apply_paint_def)
      from insert_primitive_visible [OF ok(1) room False, unfolded ins] obtain s0 p' v where
        "Some s' = Some s0" "scene_ok s0" "unplaced p' = unplaced p" "prim_order p' = v" "p' = fst (push_primitive p v s)"
        "paint_operations s0 = paint_operations s @ [OpPrimitive p']" "layer_stack s0 = layer_stack s"
        "clip_active s0 = clip_active s" "clip_scopes s0 = clip_scopes s"
        and src: "case list_last (layer_stack s) of
             Some order \<Rightarrow> v = order \<and> bounds_tree s0 = bounds_tree s
           | None \<Rightarrow> v = next_order (mset (recorded (bounds_tree s))) (clipped_bounds p)
               \<and> recorded (bounds_tree s0) = recorded (bounds_tree s) @ [(clipped_bounds p, v)]"
        by - (elim exE conjE, rule that, assumption+)
      then have s': "scene_ok s'" "unplaced p' = unplaced p" "prim_order p' = v" "p' = fst (push_primitive p v s)"
          "paint_operations s' = paint_operations s @ [OpPrimitive p']" "layer_stack s' = layer_stack s"
          "clip_active s' = clip_active s" "clip_scopes s' = clip_scopes s" and "s0 = s'"
        by simp_all
      have clip: "clipped_bounds p' = clipped_bounds p"
        using unplaced_eqD [OF s'(2)] by simp
      have "\<not> bounds_is_empty (clipped_bounds p')"
        using False clip by simp
      from insert_primitive_visible [OF ok(2) room' this] obtain r' p'' w where
        r': "insert_primitive p' r = Some r'" "scene_ok r'" "p'' = fst (push_primitive p' w r)"
          "paint_operations r' = paint_operations r @ [OpPrimitive p'']" "layer_stack r' = layer_stack r"
          "clip_active r' = clip_active r" "clip_scopes r' = clip_scopes r" "layers r' = layers r"
        and src': "case list_last (layer_stack r) of
             Some order \<Rightarrow> w = order \<and> bounds_tree r' = bounds_tree r
           | None \<Rightarrow> w = next_order (mset (recorded (bounds_tree r))) (clipped_bounds p')
               \<and> recorded (bounds_tree r') = recorded (bounds_tree r) @ [(clipped_bounds p', w)]"
        by - (elim exE conjE, rule that, assumption+)
      have "w = v" and rec: "recorded (bounds_tree s') = recorded (bounds_tree r')"
        using src src' S clip \<open>s0 = s'\<close> by (auto split: option.splits)
      moreover have "p'' = p'"
        using r'(3) s'(4) \<open>w = v\<close> push_primitive_cong [OF s'(2) same_scene_paths [OF same, symmetric], of v] by simp
      ultimately have "same_scene s' r'"
        using S s' r' scene_list_prims [OF s'(1) r'(2)] by (simp add: same_scene_def)
      with s'(5) r'(1,2,8) show ?thesis
        by (auto simp: apply_paint_def intro!: exI [of _ "OpPrimitive p'"])
    qed
  next
    case (StartLayer b)
    from push_layer_ok [OF ok(1) room, of b] push_layer_ok [OF ok(2) room', of b] StartLayer step S show ?thesis
      by (intro disjI2 exI [of _ operation]) (auto simp: apply_paint_def same_scene_def scene_list_prims [OF ok])
  next
    case EndLayer
    with step S pop_layer_ok [OF ok(2)] show ?thesis
      by (intro disjI2 exI [of _ operation])
        (auto simp: apply_paint_def pop_layer_def same_scene_def scene_list_prims [OF ok])
  next
    case (FastRoundedClip c)
    then have rec: "record_clip c s = Some s'"
      using step by (simp add: apply_paint_def)
    note s' = record_clip_form [OF rec]
    let ?r = "r\<lparr>clip_compiled := False, clip_scopes := clip_scopes s', clip_active := clip_active s',
        paint_operations := paint_operations s @ [FastRoundedClip c]\<rparr>"
    have r': "record_clip c r = Some ?r"
      by (rule record_clip_same [OF rec S(1,4,5)])
    have "clip_allowed (FastRoundedClip c) r"
      using record_clip_allowed [OF r'] .
    with record_clip_ok [OF ok(2), of c] r' have "scene_ok ?r"
      by auto
    moreover have "same_scene s' ?r"
      by (subst s') (simp add: same_scene_def S scene_list_prims [OF ok S(1)])
    ultimately show ?thesis
      using r' arg_cong [OF s', of paint_operations] FastRoundedClip
      by (intro disjI2 exI [of _ operation]) (simp add: apply_paint_def)
  qed
qed

lemma step_grows:
  assumes "scene_ok s" "scene_room s" "apply_paint operation s = Some s'"
  shows "scene_ok s'" "length (recorded (bounds_tree s')) \<le> Suc (length (recorded (bounds_tree s)))"
proof -
  have "scene_ok s' \<and> length (recorded (bounds_tree s')) \<le> Suc (length (recorded (bounds_tree s)))"
  proof (cases operation)
    case (OpPrimitive p)
    show ?thesis
    proof (cases "bounds_is_empty (clipped_bounds p)")
      case True
      with assms OpPrimitive show ?thesis
        by (simp add: apply_paint_def insert_primitive_def)
    next
      case False
      with insert_primitive_visible [OF assms(1,2) False] assms(3) OpPrimitive show ?thesis
        by (auto simp: apply_paint_def split: option.splits)
    qed
  next
    case (StartLayer b)
    with push_layer_ok [OF assms(1,2), of b] assms(3) show ?thesis
      by (auto simp: apply_paint_def)
  next
    case EndLayer
    with pop_layer_ok [OF assms(1)] assms(3) show ?thesis
      by (auto simp: apply_paint_def pop_layer_def)
  next
    case (FastRoundedClip c)
    then have rec: "record_clip c s = Some s'"
      using assms(3) by (simp add: apply_paint_def)
    from record_clip_ok [OF assms(1) record_clip_allowed [OF rec]] rec show ?thesis
      by auto
  qed
  then show "scene_ok s'" "length (recorded (bounds_tree s')) \<le> Suc (length (recorded (bounds_tree s)))"
    by simp_all
qed

text \<open>While a frame is painted, what it has recorded so far replays to the same scene.\<close>

lemma replay_run:
  assumes "for_each apply_paint ops s = Some s'" "scene_ok s" "length (recorded (bounds_tree s)) + length ops \<le> CAPACITY"
    "for_each apply_paint (paint_operations s) r0 = Some r" "scene_ok r" "same_scene s r" "layers r = fr"
  shows "\<exists>r'. for_each apply_paint (paint_operations s') r0 = Some r' \<and> scene_ok r' \<and> same_scene s' r' \<and> layers r' = fr"
  using assms
proof (induction ops arbitrary: s r)
  case Nil
  then show ?case
    by auto
next
  case (Cons op ops)
  from Cons.prems(1) obtain s1 where s1: "apply_paint op s = Some s1" "for_each apply_paint ops s1 = Some s'"
    by (auto split: bind_splits)
  have room: "scene_room s"
    using Cons.prems(3) by (simp add: scene_room_def)
  note grows = step_grows [OF Cons.prems(2) room s1(1)]
  have len: "length (recorded (bounds_tree s1)) + length ops \<le> CAPACITY"
    using grows(2) Cons.prems(3) by simp
  from replay_step [OF Cons.prems(2,5,6) room s1(1)] show ?case
  proof (elim disjE exE conjE)
    assume "s1 = s"
    then show ?thesis
      using Cons.IH [OF s1(2) grows(1) len] Cons.prems by simp
  next
    fix op' r'
    assume "paint_operations s1 = paint_operations s @ [op']" "apply_paint op' r = Some r'" "scene_ok r'"
      "same_scene s1 r'" "layers r' = layers r"
    then show ?thesis
      using Cons.IH [OF s1(2) grows(1) len, of r'] Cons.prems(4,7) by (simp add: for_each_append)
  qed
qed

lemma scene_ok_layers: "scene_ok (s\<lparr>layers := fr\<rparr>) \<longleftrightarrow> scene_ok s"
  by (simp add: scene_ok_def prims_def)

lemma replay_frame:
  assumes paint: "for_each apply_paint ops (scene_clear s) = Some s'" and len: "length ops \<le> CAPACITY"
    and ok: "ft_ok (bounds_tree s)" "ft_ok (bounds_tree r)" and prev: "paint_operations prev = paint_operations s'"
  shows "\<exists>r'. scene_replay 0 (length (paint_operations prev)) prev (scene_clear r) = Some r' \<and> scene_ok r' \<and> same_scene s' r'"
proof -
  let ?fr = "if layers prev = [] then [] else fold (replay_layer (layers prev)) (paint_operations prev) []"
  define r0 where "r0 = (scene_clear r)\<lparr>layers := ?fr\<rparr>"
  have r0: "replay_layers 0 (length (paint_operations prev)) prev (scene_clear r) = Some r0"
    by (simp add: replay_layers_def slice_of_def scene_clear_def r0_def)
  have s: "scene_ok (scene_clear s)" "length (recorded (bounds_tree (scene_clear s))) + length ops \<le> CAPACITY"
    using scene_clear_ok [of s] ok(1) len by simp_all
  have r: "scene_ok r0"
    using scene_clear_ok [of r] ok(2) by (simp add: scene_ok_layers r0_def)
  have "list_of (scene_clear s) k = list_of (scene_clear r) k" for k
    by (cases k) (simp_all add: scene_clear_def)
  then have same: "same_scene (scene_clear s) r0"
    by (simp add: same_scene_def r0_def) (simp add: scene_clear_def ft_clear_def)
  have "for_each apply_paint (paint_operations (scene_clear s)) r0 = Some r0"
    by (simp add: scene_clear_def)
  from replay_run [OF paint s this r same refl] show ?thesis
    by (auto simp: scene_replay_def slice_of_def r0 [unfolded prev] prev)
qed

section \<open>Finishing\<close>

definition draw_sort_key :: "('u, 'd) primitive \<Rightarrow> nat \<times> nat \<times> nat" where
  "draw_sort_key p = (prim_order p, case prim_tile p of
     Some t \<Rightarrow> (tx_index (texture_id t), tile_id t) | None \<Rightarrow> (0, 0))"

definition prim_fits :: "('u, 'd) primitive \<Rightarrow> bool" where
  "prim_fits p \<longleftrightarrow> key_fits (draw_sort_key p)"

lemma insort_key_cong: "(\<And>y. y \<in> set ys \<Longrightarrow> f x \<le> f y \<longleftrightarrow> g x \<le> g y) \<Longrightarrow> insort_key f x ys = insort_key g x ys"
  by (induction ys) auto

lemma sort_key_cong_le:
  "(\<And>x y. x \<in> set xs \<Longrightarrow> y \<in> set xs \<Longrightarrow> f x \<le> f y \<longleftrightarrow> g x \<le> g y) \<Longrightarrow> sort_key f xs = sort_key g xs"
  by (induction xs) (auto intro!: insort_key_cong)

lemma sort_constructor:
  assumes "\<And>p. draw_sort_key (K p) = (p_order p, 0, 0)"
  shows "map K (sort_key p_order ps) = sort_key draw_sort_key (map K ps)"
  unfolding sort_key_map assms by (intro arg_cong [where f = "map K"] sort_key_cong_le) auto

lemma sort_sprite_constructor:
  assumes "\<And>p. draw_sort_key (K p) = sprite_key p"
  shows "map K (sort_key sprite_key ps) = sort_key draw_sort_key (map K ps)"
  unfolding sort_key_map assms ..

lemma sort_in_drawing_order_ok:
  assumes len: "\<forall>k. length (list_of s k) \<le> 2 ^ 32" and fits: "\<forall>k. \<forall>p\<in>set (list_of s k). prim_fits p"
  shows "\<exists>s'. sort_in_drawing_order s = Some s' \<and> (\<forall>k. list_of s' k = sort_key draw_sort_key (list_of s k))
    \<and> paint_operations s' = paint_operations s \<and> bounds_tree s' = bounds_tree s"
proof -
  have plain: "sort_by_draw_order p_order (shadows s) = Some (sort_key p_order (shadows s))"
    "sort_by_draw_order p_order (quads s) = Some (sort_key p_order (quads s))"
    "sort_by_draw_order p_order (paths s) = Some (sort_key p_order (paths s))"
    "sort_by_draw_order p_order (underlines s) = Some (sort_key p_order (underlines s))"
    "sort_by_draw_order p_order (surfaces s) = Some (sort_key p_order (surfaces s))"
    using len [rule_format, of KShadow] len [rule_format, of KQuad] len [rule_format, of KPath]
      len [rule_format, of KUnderline] len [rule_format, of KSurface]
    by (simp_all add: sort_by_draw_order_ok)
  have key: "key_fits (sprite_key p)" if "K p \<in> set (list_of s k)" "draw_sort_key (K p) = sprite_key p" for K p k
    using fits that by (metis prim_fits_def)
  have "key_fits (sprite_key p)"
    if "p \<in> set (monochrome_sprites s) \<or> p \<in> set (subpixel_sprites s) \<or> p \<in> set (polychrome_sprites s)" for p
    using that key [of MonochromeSprite p KMonochromeSprite] key [of SubpixelSprite p KSubpixelSprite]
      key [of PolychromeSprite p KPolychromeSprite]
    by (auto simp: draw_sort_key_def sprite_key_def)
  then have sprites: "sort_sprites sprite_key (monochrome_sprites s) = Some (sort_key sprite_key (monochrome_sprites s))"
    "sort_sprites sprite_key (subpixel_sprites s) = Some (sort_key sprite_key (subpixel_sprites s))"
    "sort_sprites sprite_key (polychrome_sprites s) = Some (sort_key sprite_key (polychrome_sprites s))"
    using len [rule_format, of KMonochromeSprite] len [rule_format, of KSubpixelSprite] len [rule_format, of KPolychromeSprite]
    by (auto intro!: sort_sprites_ok)
  let ?s = "s\<lparr>shadows := sort_key p_order (shadows s), quads := sort_key p_order (quads s),
      paths := sort_key p_order (paths s), underlines := sort_key p_order (underlines s),
      monochrome_sprites := sort_key sprite_key (monochrome_sprites s),
      subpixel_sprites := sort_key sprite_key (subpixel_sprites s),
      polychrome_sprites := sort_key sprite_key (polychrome_sprites s), surfaces := sort_key p_order (surfaces s)\<rparr>"
  have "sort_in_drawing_order s = Some ?s"
    by (simp add: sort_in_drawing_order_def plain sprites)
  moreover have "list_of ?s k = sort_key draw_sort_key (list_of s k)" for k
    by (cases k) (auto intro!: sort_constructor sort_sprite_constructor simp: draw_sort_key_def sprite_key_def)
  ultimately show ?thesis
    by auto
qed

end
