(* ===== verification/Scene_Properties.thy ===== *)
theory Scene_Properties
  imports Scene
begin

text \<open>
  The properties of a frame's scene: the bounds tree in use hands out the orders of the R-tree it replaces, the
  sorts are stable sorts, and painting, finishing and batching together draw every visible primitive once, in
  an order in which what is painted over another is drawn after it.
\<close>

section \<open>Helper lemmas\<close>







section \<open>The bounds tree in use\<close>

text \<open>
  C3: The grid hands out the orders of the R-tree. Over any sequence of frames of at most 65,535 rectangles each, the
  bounds tree the scene uses and the R-tree it replaces both return, without a panic and with every loop
  ended, the orders of the specification: the grid, its growth, its covers, the replay of the last frame and
  the search budget change nothing a caller can see.
\<close>

theorem fast_bounds_tree_refines:
  fixes frames :: "'u::floor_ceiling bounds list list"
  assumes "\<forall>f\<in>set frames. length f \<le> CAPACITY"
  shows "\<exists>t t'. run_frames ft_insert ft_clear ft_default frames = Some (t, map (spec_orders {#}) frames)
    \<and> run_frames bt_insert bt_clear bt_default frames = Some (t', map (spec_orders {#}) frames)
    \<and> ft_ok t"
proof -
  have "\<forall>f\<in>set frames. \<forall>i<length f. i < CAPACITY"
    using assms by auto
  moreover have "ft_ok ft_default \<and> mset (recorded ft_default) = {#}"
    by (rule conjI, rule ft_default_ok) (simp add: ft_default_def)
  ultimately obtain t where "run_frames ft_insert ft_clear ft_default frames = Some (t, map (spec_orders {#}) frames)" "ft_ok t"
    using grid_tree.run_frames_ok [of ft_default "{#}" frames] by blast
  moreover obtain t' where "run_frames bt_insert bt_clear bt_default frames = Some (t', map (spec_orders {#}) frames)"
    using rtree.run_frames_ok [OF bt_default_ok(1), of frames] by auto
  ultimately show ?thesis
    by blast
qed

definition rbox :: "rat \<Rightarrow> rat \<Rightarrow> rat \<Rightarrow> rat \<Rightarrow> rat bounds" where
  "rbox x y w h = \<lparr>origin = \<lparr>px = x, py = y\<rparr>, bsize = \<lparr>width = w, height = h\<rparr>\<rparr>"

definition sample_frames :: "rat bounds list list" where
  "sample_frames = [[rbox 0 0 200 200, rbox 10 10 10 10, rbox 300 0 10 10], [rbox 0 0 200 200, rbox 10 10 10 10, rbox 15 15 300 1]]"

theorem fast_bounds_tree_refines_witness:
  "map_option snd (run_frames ft_insert ft_clear ft_default sample_frames) = Some [[1, 2, 1], [1, 2, 3]]"
proof -
  have "\<forall>f\<in>set sample_frames. length f \<le> CAPACITY"
    by (simp add: sample_frames_def CAPACITY_def)
  from fast_bounds_tree_refines [OF this] have
    "map_option snd (run_frames ft_insert ft_clear ft_default sample_frames) = Some (map (spec_orders {#}) sample_frames)"
    by auto
  also have "map (spec_orders {#}) sample_frames = [[1, 2, 1], [1, 2, 3]]"
    by code_simp
  finally show ?thesis .
qed

section \<open>Sorting\<close>

text \<open>
  C4: Finishing sorts stably. The counting sort, the sort of packed 64-bit keys and the shortcut for items already in
  order are one function, the stable sort by draw order; the sort of the sprites' packed 128-bit keys is the
  stable sort by draw order, texture and tile. Neither panics.
\<close>

theorem finishing_sorts_stably:
  assumes "length items \<le> 2 ^ 32"
  shows "sort_by_draw_order f items = Some (sort_key f items)
    \<and> ((\<forall>x\<in>set items. key_fits (key x)) \<longrightarrow> sort_sprites key items = Some (sort_key key items))"
  using sort_by_draw_order_ok [OF assms] sort_sprites_ok [OF assms] by blast

theorem finishing_sorts_stably_witness:
  "sort_by_draw_order fst [(3 :: nat, 0 :: nat), (1, 1), (3, 2), (1, 3)] = Some [(1, 1), (1, 3), (3, 0), (3, 2)]
   \<and> sort_by_draw_order fst [(90 :: nat, 0 :: nat), (1, 1), (90, 2)] = Some [(1, 1), (90, 0), (90, 2)]
   \<and> sort_sprites (\<lambda>p. (fst p, snd p, 0)) [(2 :: nat, 5 :: nat), (2, 4), (1, 9)] = Some [(1, 9), (2, 4), (2, 5)]"
proof -
  have "\<forall>x\<in>set [(2 :: nat, 5 :: nat), (2, 4), (1, 9)]. key_fits (fst x, snd x, 0)"
    by (simp add: key_fits_def)
  then show ?thesis
    using finishing_sorts_stably [of "[(3 :: nat, 0 :: nat), (1, 1), (3, 2), (1, 3)]" fst]
      finishing_sorts_stably [of "[(90 :: nat, 0 :: nat), (1, 1), (90, 2)]" fst]
      finishing_sorts_stably [of "[(2 :: nat, 5 :: nat), (2, 4), (1, 9)]" _ "\<lambda>p. (fst p, snd p, 0)"]
    by simp
qed

section \<open>Painting a frame\<close>















section \<open>Replaying a frame\<close>




section \<open>Layer tiles\<close>

text \<open>
  A composited tile's sprite decodes to the layer and the tile it was made for, for every layer key below the limit
  and every tile within 2,048 of the origin; and no texture an atlas allocates below the base decodes as one.
\<close>

theorem layer_tiles_round_trip:
  assumes "layer < LAYER_KEY_LIMIT" "tile_x t \<in> {-2048..<2048}" "tile_y t \<in> {-2048..<2048}"
  shows "decode_layer_tile (layer_tile_texture_id layer) (layer_tile_id t) = Some (layer, t)
    \<and> (tx_index u < LAYER_TILE_TEXTURE_BASE \<longrightarrow> decode_layer_tile u i = None)"
proof -
  obtain x y where t: "t = \<lparr>tile_x = x, tile_y = y\<rparr>"
    by (cases t)
  define a b where "a = nat (x + 2048)" and "b = nat (y + 2048)"
  have ab: "a < 4096" "b < 4096" "int a = x + 2048" "int b = y + 2048"
    using assms(2,3) by (auto simp: t a_def b_def)
  have "layer_tile_id t = push_bit 16 a OR b"
    using ab by (simp add: layer_tile_id_def t TILE_COORD_BIAS_def Let_def flip: ab(3,4))
      (simp add: push_bit_eq_mult take_bit_eq_mod)
  also have "\<dots> = a * 2 ^ 16 + b"
    using ab by (intro or_is_plus) simp
  finally have id: "layer_tile_id t = a * 2 ^ 16 + b" .
  have "drop_bit 16 (a * 2 ^ 16 + b) = a" "(a * 2 ^ 16 + b) AND 0xFFFF = b"
    using ab take_bit_eq_mask [of 16 "a * 2 ^ 16 + b"] by (simp_all add: drop_bit_eq_div take_bit_eq_mod mask_eq_exp_minus_1)
  then show ?thesis
    using assms(1) ab by (simp add: id [unfolded t] decode_layer_tile_def layer_tile_texture_id_def TILE_COORD_BIAS_def t)
qed

theorem layer_tiles_round_trip_witness:
  "decode_layer_tile (layer_tile_texture_id 7) (layer_tile_id \<lparr>tile_x = - 3, tile_y = 12\<rparr>)
     = Some (7, \<lparr>tile_x = - 3, tile_y = 12\<rparr>)"
  using layer_tiles_round_trip [of 7 "\<lparr>tile_x = - 3, tile_y = 12\<rparr>"] by (simp add: LAYER_KEY_LIMIT_def)

end
