(* ===== verification/KeyDispatch.thy ===== *)
theory KeyDispatch
  imports Keymap
begin

text \<open>
  Dispatching key events: the dispatch tree of \<open>gpui/src/key_dispatch.rs\<close>, and the copy of a stretch of last
  frame's nodes of \<open>gpui/src/fast/dispatch.rs\<close>.

  A frame pushes and pops nodes; each keeps its parent, its key context, its focus and view ids and its
  listeners. The stacks describe the active node. A key is looked up in the keymap with the contexts along
  the path to the focused node; input that is the start of a longer binding is kept pending, and when it
  does not complete, it is replayed piece by piece.

  Node, focus and view ids are natural numbers, a listener is a value of the type parameter \<open>'l\<close>. A
  \<^const>\<open>None\<close> is a panic, or a walk over parents that does not end. \<open>available_actions\<close> needs the order of
  \<open>TypeId\<close> values and the action registry and is not modelled.
\<close>

section \<open>The model\<close>

record 'l dispatch_node =
  dn_key_listeners :: "'l list"
  dn_action_listeners :: "(action_id \<times> 'l) list"
  dn_modifiers_listeners :: "'l list"
  dn_context :: "key_context option"
  dn_focus_id :: "nat option"
  dn_view_id :: "nat option"
  dn_parent :: "nat option"

definition default_node :: "'l dispatch_node" where
  "default_node = \<lparr>dn_key_listeners = [], dn_action_listeners = [], dn_modifiers_listeners = [],
     dn_context = None, dn_focus_id = None, dn_view_id = None, dn_parent = None\<rparr>"

record ('a, 'l) dispatch_tree =
  dt_node_stack :: "nat list"
  dt_context_stack :: "key_context list"
  dt_view_stack :: "nat list"
  dt_nodes :: "'l dispatch_node list"
  dt_focusable :: "nat \<rightharpoonup> nat"
  dt_views :: "nat \<rightharpoonup> nat"
  dt_keymap :: "'a keymap"

definition dt_new :: "'a keymap \<Rightarrow> ('a, 'l) dispatch_tree" where
  "dt_new km = \<lparr>dt_node_stack = [], dt_context_stack = [], dt_view_stack = [], dt_nodes = [],
     dt_focusable = Map.empty, dt_views = Map.empty, dt_keymap = km\<rparr>"

definition dt_clear :: "('a, 'l) dispatch_tree \<Rightarrow> ('a, 'l) dispatch_tree" where
  "dt_clear t = t\<lparr>dt_node_stack := [], dt_context_stack := [], dt_view_stack := [], dt_nodes := [],
     dt_focusable := Map.empty, dt_views := Map.empty\<rparr>"

definition active_node_id :: "('a, 'l) dispatch_tree \<Rightarrow> nat option" where
  "active_node_id t = list_last (dt_node_stack t)"

definition push_node :: "('a, 'l) dispatch_tree \<Rightarrow> ('a, 'l) dispatch_tree \<times> nat" where
  "push_node t =
     (let parent = list_last (dt_node_stack t);
          node_id = length (dt_nodes t)
      in (t\<lparr>dt_nodes := dt_nodes t @ [default_node\<lparr>dn_parent := parent\<rparr>],
            dt_node_stack := dt_node_stack t @ [node_id]\<rparr>, node_id))"

definition pop_node :: "('a, 'l) dispatch_tree \<Rightarrow> ('a, 'l) dispatch_tree option" where
  "pop_node t =
     do { i \<leftarrow> active_node_id t;
          node \<leftarrow> index_at (dt_nodes t) i;
          Some (t\<lparr>dt_context_stack := (if dn_context node \<noteq> None then butlast (dt_context_stack t) else dt_context_stack t),
                  dt_view_stack := (if dn_view_id node \<noteq> None then butlast (dt_view_stack t) else dt_view_stack t),
                  dt_node_stack := butlast (dt_node_stack t)\<rparr>) }"

text \<open>Updating the active node.\<close>

definition update_active ::
    "('l dispatch_node \<Rightarrow> 'l dispatch_node) \<Rightarrow> ('a, 'l) dispatch_tree \<Rightarrow> ('a, 'l) dispatch_tree option" where
  "update_active f t =
     do { i \<leftarrow> active_node_id t;
          node \<leftarrow> index_at (dt_nodes t) i;
          Some (t\<lparr>dt_nodes := (dt_nodes t)[i := f node]\<rparr>) }"

definition set_key_context :: "key_context \<Rightarrow> ('a, 'l) dispatch_tree \<Rightarrow> ('a, 'l) dispatch_tree option" where
  "set_key_context c t =
     do { t \<leftarrow> update_active (\<lambda>n. n\<lparr>dn_context := Some c\<rparr>) t;
          Some (t\<lparr>dt_context_stack := dt_context_stack t @ [c]\<rparr>) }"

definition set_focus_id :: "nat \<Rightarrow> ('a, 'l) dispatch_tree \<Rightarrow> ('a, 'l) dispatch_tree option" where
  "set_focus_id f t =
     do { i \<leftarrow> list_last (dt_node_stack t);
          t \<leftarrow> update_active (\<lambda>n. n\<lparr>dn_focus_id := Some f\<rparr>) t;
          Some (t\<lparr>dt_focusable := (dt_focusable t)(f \<mapsto> i)\<rparr>) }"

definition set_view_id :: "nat \<Rightarrow> ('a, 'l) dispatch_tree \<Rightarrow> ('a, 'l) dispatch_tree option" where
  "set_view_id v t =
     (if list_last (dt_view_stack t) \<noteq> Some v then
        do { i \<leftarrow> list_last (dt_node_stack t);
             t \<leftarrow> update_active (\<lambda>n. n\<lparr>dn_view_id := Some v\<rparr>) t;
             Some (t\<lparr>dt_views := (dt_views t)(v \<mapsto> i), dt_view_stack := dt_view_stack t @ [v]\<rparr>) }
      else Some t)"

definition on_key_event :: "'l \<Rightarrow> ('a, 'l) dispatch_tree \<Rightarrow> ('a, 'l) dispatch_tree option" where
  "on_key_event l = update_active (\<lambda>n. n\<lparr>dn_key_listeners := dn_key_listeners n @ [l]\<rparr>)"

definition on_modifiers_changed :: "'l \<Rightarrow> ('a, 'l) dispatch_tree \<Rightarrow> ('a, 'l) dispatch_tree option" where
  "on_modifiers_changed l = update_active (\<lambda>n. n\<lparr>dn_modifiers_listeners := dn_modifiers_listeners n @ [l]\<rparr>)"

definition on_action :: "action_id \<Rightarrow> 'l \<Rightarrow> ('a, 'l) dispatch_tree \<Rightarrow> ('a, 'l) dispatch_tree option" where
  "on_action ty l = update_active (\<lambda>n. n\<lparr>dn_action_listeners := dn_action_listeners n @ [(ty, l)]\<rparr>)"

text \<open>The two loops of \<open>set_active_node\<close>.\<close>

partial_function (option) pop_until ::
    "nat option \<Rightarrow> ('a, 'l) dispatch_tree \<Rightarrow> ('a, 'l) dispatch_tree option" where
  "pop_until parent t =
     (if list_last (dt_node_stack t) \<noteq> parent \<and> dt_node_stack t \<noteq> []
      then do { t \<leftarrow> pop_node t; pop_until parent t }
      else Some t)"

declare pop_until.simps [code]

definition push_open ::
    "nat \<Rightarrow> 'l dispatch_node \<Rightarrow> ('a, 'l) dispatch_tree \<Rightarrow> ('a, 'l) dispatch_tree" where
  "push_open i node t =
     t\<lparr>dt_node_stack := dt_node_stack t @ [i],
       dt_view_stack := dt_view_stack t @ (case dn_view_id node of Some v \<Rightarrow> [v] | None \<Rightarrow> []),
       dt_context_stack := dt_context_stack t @ (case dn_context node of Some c \<Rightarrow> [c] | None \<Rightarrow> [])\<rparr>"

partial_function (option) push_ancestors ::
    "nat option \<Rightarrow> ('a, 'l) dispatch_tree \<Rightarrow> ('a, 'l) dispatch_tree option" where
  "push_ancestors cur t =
     (case cur of
        None \<Rightarrow> Some t
      | Some i \<Rightarrow> do { node \<leftarrow> index_at (dt_nodes t) i; push_ancestors (dn_parent node) (push_open i node t) })"

declare push_ancestors.simps [code]

definition set_active_node :: "nat \<Rightarrow> ('a, 'l) dispatch_tree \<Rightarrow> ('a, 'l) dispatch_tree option" where
  "set_active_node i t =
     do { node \<leftarrow> index_at (dt_nodes t) i;
          t \<leftarrow> pop_until (dn_parent node) t;
          if list_last (dt_node_stack t) = dn_parent node then Some (push_open i node t)
          else
            do { t \<leftarrow> push_ancestors (Some i) t;
                 Some (t\<lparr>dt_context_stack := rev (dt_context_stack t), dt_view_stack := rev (dt_view_stack t),
                         dt_node_stack := rev (dt_node_stack t)\<rparr>) } }"

definition dt_truncate :: "nat \<Rightarrow> ('a, 'l) dispatch_tree \<Rightarrow> ('a, 'l) dispatch_tree option" where
  "dt_truncate index t =
     do { cut \<leftarrow> slice_from (dt_nodes t) index;
          let (fs, vs) = fold (\<lambda>node (fs, vs).
                (case dn_focus_id node of Some f \<Rightarrow> fs(f := None) | None \<Rightarrow> fs,
                 case dn_view_id node of Some v \<Rightarrow> vs(v := None) | None \<Rightarrow> vs)) cut (dt_focusable t, dt_views t);
          Some (t\<lparr>dt_focusable := fs, dt_views := vs, dt_nodes := take index (dt_nodes t)\<rparr>) }"

subsection \<open>Paths\<close>

partial_function (option) dispatch_walk :: "'l dispatch_node list \<Rightarrow> nat option \<Rightarrow> nat list \<Rightarrow> nat list option" where
  "dispatch_walk ns cur path =
     (case cur of
        None \<Rightarrow> Some path
      | Some i \<Rightarrow> dispatch_walk ns (Option.bind (index_at ns i) dn_parent) (path @ [i]))"

declare dispatch_walk.simps [code]

definition dispatch_path :: "('a, 'l) dispatch_tree \<Rightarrow> nat \<Rightarrow> nat list option" where
  "dispatch_path t target = map_option rev (dispatch_walk (dt_nodes t) (Some target) [])"

partial_function (option) collect_walk ::
    "('l dispatch_node \<Rightarrow> nat option) \<Rightarrow> 'l dispatch_node list \<Rightarrow> nat option \<Rightarrow> nat list \<Rightarrow> nat list option" where
  "collect_walk f ns cur acc =
     (case cur of
        None \<Rightarrow> Some acc
      | Some i \<Rightarrow>
          do { node \<leftarrow> index_at ns i;
               collect_walk f ns (dn_parent node) (acc @ (case f node of Some x \<Rightarrow> [x] | None \<Rightarrow> [])) })"

declare collect_walk.simps [code]

definition focus_path :: "('a, 'l) dispatch_tree \<Rightarrow> nat \<Rightarrow> nat list option" where
  "focus_path t f = map_option rev (collect_walk dn_focus_id (dt_nodes t) (dt_focusable t f) [])"

definition view_path_reversed :: "('a, 'l) dispatch_tree \<Rightarrow> nat \<Rightarrow> nat list option" where
  "view_path_reversed t v = collect_walk dn_view_id (dt_nodes t) (dt_views t v) []"

partial_function (option) ancestor_walk :: "'l dispatch_node list \<Rightarrow> nat \<Rightarrow> nat option \<Rightarrow> bool option" where
  "ancestor_walk ns parent cur =
     (case cur of
        None \<Rightarrow> Some False
      | Some i \<Rightarrow>
          if i = parent then Some True
          else do { node \<leftarrow> index_at ns i; ancestor_walk ns parent (dn_parent node) })"

declare ancestor_walk.simps [code]

definition focus_contains :: "('a, 'l) dispatch_tree \<Rightarrow> nat \<Rightarrow> nat \<Rightarrow> bool option" where
  "focus_contains t parent child =
     (if parent = child then Some True
      else case dt_focusable t parent of
             Some parent_node \<Rightarrow> ancestor_walk (dt_nodes t) parent_node (dt_focusable t child)
           | None \<Rightarrow> Some False)"

fun listener_on_path :: "'l dispatch_node list \<Rightarrow> action_id \<Rightarrow> nat list \<Rightarrow> bool option" where
  "listener_on_path ns ty [] = Some False"
| "listener_on_path ns ty (i # is) =
     do { node \<leftarrow> index_at ns i;
          if list_ex (\<lambda>(ty', _). ty' = ty) (dn_action_listeners node) then Some True
          else listener_on_path ns ty is }"

definition is_action_available :: "'a action_ops \<Rightarrow> ('a, 'l) dispatch_tree \<Rightarrow> 'a action \<Rightarrow> nat \<Rightarrow> bool option" where
  "is_action_available ops t a target =
     do { path \<leftarrow> dispatch_path t target;
          listener_on_path (dt_nodes t) (action_type_id ops a) path }"

subsection \<open>Bindings\<close>

definition binding_matches_predicate_and_not_shadowed ::
    "'a action_ops \<Rightarrow> 'a keymap \<Rightarrow> 'a key_binding \<Rightarrow> key_context list \<Rightarrow> bool" where
  "binding_matches_predicate_and_not_shadowed ops km binding cs =
     (case list_first (fst (Keymap.bindings_for_input ops km (kb_keystrokes binding) cs)) of
        Some found \<Rightarrow> action_partial_eq ops (kb_action found) (kb_action binding)
      | None \<Rightarrow> False)"

definition dt_bindings_for_action ::
    "'a action_ops \<Rightarrow> ('a, 'l) dispatch_tree \<Rightarrow> 'a action \<Rightarrow> key_context list \<Rightarrow> 'a key_binding list option" where
  "dt_bindings_for_action ops t a cs =
     do { bs \<leftarrow> Keymap.bindings_for_action ops (dt_keymap t) a;
          Some (filter (\<lambda>b. binding_matches_predicate_and_not_shadowed ops (dt_keymap t) b cs) bs) }"

definition highest_precedence_binding_for_action ::
    "'a action_ops \<Rightarrow> ('a, 'l) dispatch_tree \<Rightarrow> 'a action \<Rightarrow> key_context list \<Rightarrow> 'a key_binding option option" where
  "highest_precedence_binding_for_action ops t a cs =
     do { bs \<leftarrow> Keymap.bindings_for_action ops (dt_keymap t) a;
          Some (find (\<lambda>b. binding_matches_predicate_and_not_shadowed ops (dt_keymap t) b cs) (rev bs)) }"

definition path_contexts :: "('a, 'l) dispatch_tree \<Rightarrow> nat list \<Rightarrow> key_context list option" where
  "path_contexts t path =
     do { ns \<leftarrow> those (map (index_at (dt_nodes t)) path);
          Some (List.map_filter dn_context ns) }"

definition dt_bindings_for_input ::
    "'a action_ops \<Rightarrow> ('a, 'l) dispatch_tree \<Rightarrow> keystroke list \<Rightarrow> nat list
       \<Rightarrow> ('a key_binding list \<times> bool \<times> key_context list) option" where
  "dt_bindings_for_input ops t input path =
     do { cs \<leftarrow> path_contexts t path;
          let (bindings, partial) = Keymap.bindings_for_input ops (dt_keymap t) input cs;
          Some (bindings, partial, cs) }"

record 'a key_replay =
  rp_keystroke :: keystroke
  rp_bindings :: "'a key_binding list"

record 'a dispatch_result =
  dr_pending :: "keystroke list"
  dr_pending_has_binding :: bool
  dr_bindings :: "'a key_binding list"
  dr_to_replay :: "'a key_replay list"
  dr_context_stack :: "key_context list"

definition default_result :: "'a dispatch_result" where
  "default_result = \<lparr>dr_pending = [], dr_pending_has_binding = False, dr_bindings = [], dr_to_replay = [], dr_context_stack = []\<rparr>"

text \<open>The loop of \<open>replay_prefix\<close>: the positions from the last, up to the first bound prefix.\<close>

fun replay_loop ::
    "'a action_ops \<Rightarrow> ('a, 'l) dispatch_tree \<Rightarrow> nat list \<Rightarrow> keystroke list \<Rightarrow> nat list
       \<Rightarrow> (nat \<times> 'a key_binding list) option option" where
  "replay_loop ops t path input [] = Some None"
| "replay_loop ops t path input (l # ls) =
     do { (bindings, _, _) \<leftarrow> dt_bindings_for_input ops t (take (Suc l) input) path;
          if bindings \<noteq> [] then Some (Some (l, bindings)) else replay_loop ops t path input ls }"

definition replay_prefix ::
    "'a action_ops \<Rightarrow> ('a, 'l) dispatch_tree \<Rightarrow> nat list \<Rightarrow> keystroke list
       \<Rightarrow> (keystroke list \<times> 'a key_replay list) option" where
  "replay_prefix ops t path input =
     do { r \<leftarrow> replay_loop ops t path input (rev [0..<length input]);
          case r of
            Some (l, bindings) \<Rightarrow> Some (drop (Suc l) input, [\<lparr>rp_keystroke = input ! l, rp_bindings = bindings\<rparr>])
          | None \<Rightarrow> do { (k, rest) \<leftarrow> first_rest input; Some (rest, [\<lparr>rp_keystroke = k, rp_bindings = []\<rparr>]) } }"

lemma replay_loop_shrinks:
  "replay_loop ops t path input ls = Some (Some (l, bs)) \<Longrightarrow> l \<in> set ls"
  by (induction ls) (auto split: bind_splits if_splits prod.splits)

lemma replay_prefix_shrinks:
  "replay_prefix ops t path input = Some (suffix, rs) \<Longrightarrow> length suffix < length input"
  by (cases input) (auto simp: replay_prefix_def first_rest_def dest: replay_loop_shrinks split: bind_splits option.splits)

function dispatch_key ::
    "'a action_ops \<Rightarrow> ('a, 'l) dispatch_tree \<Rightarrow> nat list \<Rightarrow> keystroke list \<Rightarrow> keystroke \<Rightarrow> 'a dispatch_result option" where
  "dispatch_key ops t path input k =
     do { (bindings, pending, cs) \<leftarrow> dt_bindings_for_input ops t (input @ [k]) path;
          if pending then
            Some (default_result\<lparr>dr_pending := input @ [k], dr_pending_has_binding := bindings \<noteq> [], dr_context_stack := cs\<rparr>)
          else if bindings \<noteq> [] then
            Some (default_result\<lparr>dr_bindings := bindings, dr_context_stack := cs\<rparr>)
          else if length (input @ [k]) = 1 then
            Some (default_result\<lparr>dr_context_stack := cs\<rparr>)
          else
            do { (suffix, to_replay) \<leftarrow> replay_prefix ops t path input;
                 result \<leftarrow> dispatch_key ops t path suffix k;
                 Some (result\<lparr>dr_to_replay := to_replay @ dr_to_replay result\<rparr>) } }"
  by pat_completeness auto
termination
  by (relation "measure (\<lambda>(ops, t, path, input, k). length input)") (auto simp: replay_prefix_shrinks)

declare dispatch_key.simps [simp del]

function flush_dispatch ::
    "'a action_ops \<Rightarrow> ('a, 'l) dispatch_tree \<Rightarrow> nat list \<Rightarrow> keystroke list \<Rightarrow> 'a key_replay list option" where
  "flush_dispatch ops t path input =
     do { (suffix, to_replay) \<leftarrow> replay_prefix ops t path input;
          if suffix \<noteq> [] then
            do { rest \<leftarrow> flush_dispatch ops t path suffix; Some (to_replay @ rest) }
          else Some to_replay }"
  by pat_completeness auto
termination
  by (relation "measure (\<lambda>(ops, t, path, input). length input)") (auto simp: replay_prefix_shrinks)

declare flush_dispatch.simps [simp del]

subsection \<open>Copying nodes\<close>

partial_function (option) innermost_view :: "'l dispatch_node list \<Rightarrow> nat option \<Rightarrow> nat option option" where
  "innermost_view ns cur =
     (case cur of
        None \<Rightarrow> Some None
      | Some i \<Rightarrow>
          do { node \<leftarrow> index_at ns i;
               if dn_view_id node \<noteq> None then Some (dn_view_id node) else innermost_view ns (dn_parent node) })"

declare innermost_view.simps [code]

text \<open>\<open>Iterator::rposition\<close>: the last position of an element.\<close>

definition rposition :: "'x list \<Rightarrow> 'x \<Rightarrow> nat option" where
  "rposition xs x = list_last (filter (\<lambda>i. xs ! i = x) [0..<length xs])"

record ('a, 'l) copy_state =
  cp_target :: "('a, 'l) dispatch_tree"
  cp_source :: "('a, 'l) dispatch_tree"
  cp_still_open :: nat
  cp_contains_focus :: bool

text \<open>The parent of the copy of a node, and how many of the open nodes stay open.\<close>

definition copy_parent ::
    "nat \<Rightarrow> nat \<Rightarrow> nat \<Rightarrow> nat list option \<Rightarrow> nat list \<Rightarrow> nat \<Rightarrow> nat option \<Rightarrow> nat option \<Rightarrow> nat \<Rightarrow> (nat option \<times> nat) option" where
  "copy_parent a b start opn stack base base_parent parent still_open =
     (case parent of
        Some p \<Rightarrow>
          if a \<le> p \<and> p < b then Some (Some (p - a + start), still_open)
          else
            (case opn of
               None \<Rightarrow> Some (base_parent, 0)
             | Some os \<Rightarrow>
                 do { os' \<leftarrow> slice_to os still_open;
                      case rposition os' p of
                        Some position \<Rightarrow>
                          do { n \<leftarrow> index_at stack (base + position); Some (Some n, position + 1) }
                      | None \<Rightarrow> Some (base_parent, 0) })
      | None \<Rightarrow> Some (base_parent, 0))"

definition copy_node ::
    "nat \<Rightarrow> nat \<Rightarrow> nat \<Rightarrow> nat list option \<Rightarrow> nat \<Rightarrow> nat option \<Rightarrow> nat option \<Rightarrow> nat
       \<Rightarrow> ('a, 'l) copy_state \<Rightarrow> ('a, 'l) copy_state option" where
  "copy_node a b start opn base base_parent focus index st =
     (let target = cp_target st; source = cp_source st
      in do { node \<leftarrow> index_at (dt_nodes source) index;
              (parent, still_open) \<leftarrow>
                copy_parent a b start opn (dt_node_stack target) base base_parent (dn_parent node) (cp_still_open st);
              let i = length (dt_nodes target);
              inner \<leftarrow> (if dn_view_id node = None then Some None else innermost_view (dt_nodes target) parent);
              let view_id = (if dn_view_id node \<noteq> None \<and> inner = dn_view_id node then None else dn_view_id node);
              Some (st\<lparr>cp_still_open := still_open,
                cp_contains_focus := (cp_contains_focus st \<or> dn_focus_id node \<noteq> None \<and> dn_focus_id node = focus),
                cp_target := target\<lparr>
                  dt_focusable := (case dn_focus_id node of Some f \<Rightarrow> (dt_focusable target)(f \<mapsto> i) | None \<Rightarrow> dt_focusable target),
                  dt_views := (case view_id of Some v \<Rightarrow> (dt_views target)(v \<mapsto> i) | None \<Rightarrow> dt_views target),
                  dt_nodes := dt_nodes target @ [node\<lparr>dn_view_id := view_id, dn_parent := parent\<rparr>]\<rparr>,
                cp_source := source\<lparr>dt_nodes := (dt_nodes source)[index :=
                  node\<lparr>dn_key_listeners := [], dn_action_listeners := [], dn_modifiers_listeners := []\<rparr>]\<rparr>\<rparr>) })"

text \<open>The chain from the last copied node outwards, within the copy.\<close>

partial_function (option) copied_chain :: "'l dispatch_node list \<Rightarrow> nat \<Rightarrow> nat option \<Rightarrow> nat list \<Rightarrow> nat list option" where
  "copied_chain ns start cur acc =
     (case cur of
        None \<Rightarrow> Some acc
      | Some i \<Rightarrow>
          if i \<ge> start then do { node \<leftarrow> index_at ns i; copied_chain ns start (dn_parent node) (acc @ [i]) }
          else Some acc)"

declare copied_chain.simps [code]

definition copy_nodes ::
    "('a, 'l) dispatch_tree \<Rightarrow> ('a, 'l) dispatch_tree \<Rightarrow> nat \<Rightarrow> nat \<Rightarrow> nat list option \<Rightarrow> nat option
       \<Rightarrow> (('a, 'l) dispatch_tree \<times> ('a, 'l) dispatch_tree \<times> nat list option \<times> bool) option" where
  "copy_nodes target source a b opn focus =
     (let start = length (dt_nodes target);
          open_len = (case opn of Some os \<Rightarrow> length os | None \<Rightarrow> 0)
      in do { assert_that (open_len \<le> length (dt_node_stack target));
              let base = length (dt_node_stack target) - open_len;
              let base_parent = (if 0 < base then Some (dt_node_stack target ! (base - 1)) else None);
              st \<leftarrow> for_each (copy_node a b start opn base base_parent focus) [a..<b]
                      \<lparr>cp_target = target, cp_source = source, cp_still_open = open_len, cp_contains_focus = False\<rparr>;
              case opn of
                None \<Rightarrow> Some (cp_target st, cp_source st, None, cp_contains_focus st)
              | Some os \<Rightarrow>
                  do { (os, target) \<leftarrow> for_each (\<lambda>_ (os, target). do { target \<leftarrow> pop_node target; Some (butlast os, target) })
                                          [cp_still_open st..<open_len] (os, cp_target st);
                       let stop = length (dt_nodes target);
                       (os, target) \<leftarrow>
                         (if stop > start then
                            do { chain \<leftarrow> copied_chain (dt_nodes target) start (Some (stop - 1)) [];
                                 for_each (\<lambda>i (os, target).
                                     do { node \<leftarrow> index_at (dt_nodes target) i;
                                          Some (os @ [i - start + a], push_open i node target) })
                                   (rev chain) (os, target) }
                          else Some (os, target));
                       Some (target, cp_source st, Some os, cp_contains_focus st) } })"

record reused_subtree =
  rs_old_start :: nat
  rs_old_end :: nat
  rs_new_start :: nat
  rs_new_end :: nat
  rs_contains_focus :: bool

definition refresh_node_id :: "reused_subtree \<Rightarrow> nat \<Rightarrow> nat" where
  "refresh_node_id r i = (i - rs_old_start r) + rs_new_start r"

definition reuse_subtree ::
    "('a, 'l) dispatch_tree \<Rightarrow> ('a, 'l) dispatch_tree \<Rightarrow> nat \<Rightarrow> nat \<Rightarrow> nat option
       \<Rightarrow> (('a, 'l) dispatch_tree \<times> ('a, 'l) dispatch_tree \<times> reused_subtree) option" where
  "reuse_subtree t source a b focus =
     (let n = length (dt_nodes t)
      in do { (t, source, _, contains_focus) \<leftarrow> copy_nodes t source a b None focus;
              Some (t, source, \<lparr>rs_old_start = a, rs_old_end = b, rs_new_start = n, rs_new_end = n + (b - a),
                                rs_contains_focus = contains_focus\<rparr>) })"

section \<open>Paths\<close>

text \<open>Parents come before their children.\<close>

definition nodes_ok :: "'l dispatch_node list \<Rightarrow> bool" where
  "nodes_ok ns \<longleftrightarrow> (\<forall>i<length ns. \<forall>p. dn_parent (ns ! i) = Some p \<longrightarrow> p < i)"

function path_of :: "'l dispatch_node list \<Rightarrow> nat \<Rightarrow> nat list" where
  "path_of ns i =
     (case dn_parent (ns ! i) of
        Some p \<Rightarrow> if p < i then path_of ns p @ [i] else [i]
      | None \<Rightarrow> [i])"
  by pat_completeness auto
termination
  by (relation "measure snd") auto

declare path_of.simps [simp del]

lemma path_of_root: "dn_parent (ns ! i) = None \<Longrightarrow> path_of ns i = [i]"
  by (simp add: path_of.simps)

lemma path_of_child: "dn_parent (ns ! i) = Some p \<Longrightarrow> p < i \<Longrightarrow> path_of ns i = path_of ns p @ [i]"
  by (simp add: path_of.simps [of ns i])

lemma path_of_not_Nil [simp]: "path_of ns i \<noteq> []"
  by (subst path_of.simps) (simp split: option.splits)

lemma path_of_last [simp]: "last (path_of ns i) = i"
  by (subst path_of.simps) (simp split: option.splits)

lemma path_of_le: "j \<in> set (path_of ns i) \<Longrightarrow> j \<le> i"
proof (induction ns i rule: path_of.induct)
  case (1 ns i)
  then show ?case
    by (subst (asm) path_of.simps) (fastforce split: option.splits if_splits)
qed

lemma path_of_strict: "sorted_wrt (<) (path_of ns i)"
proof (induction ns i rule: path_of.induct)
  case (1 ns i)
  then show ?case
    by (subst path_of.simps) (auto simp: sorted_wrt_append split: option.splits dest: path_of_le)
qed

text \<open>A path depends only on the nodes up to its end.\<close>

lemma path_of_cong: "(\<And>j. j \<le> i \<Longrightarrow> dn_parent (ns ! j) = dn_parent (ms ! j)) \<Longrightarrow> path_of ns i = path_of ms i"
proof (induction ns i rule: path_of.induct)
  case (1 ns i)
  have "path_of ns p = path_of ms p" if "dn_parent (ns ! i) = Some p" "p < i" for p
    using 1(1) [OF that] 1(2) that(2) by simp
  then show ?case
    using 1(2) [of i] by (subst (1 2) path_of.simps) (auto split: option.splits)
qed

lemma path_of_append: "i < length ns \<Longrightarrow> path_of (ns @ ms) i = path_of ns i"
  by (rule path_of_cong) (simp add: nth_append)

text \<open>The walks over parents end, and are the path read backwards.\<close>

lemma nodes_ok_parent: "nodes_ok ns \<Longrightarrow> i < length ns \<Longrightarrow> dn_parent (ns ! i) = Some p \<Longrightarrow> p < i \<and> p < length ns"
  unfolding nodes_ok_def by (meson less_trans)

lemma dispatch_walk_ok:
  "nodes_ok ns \<Longrightarrow> i < length ns \<Longrightarrow> dispatch_walk ns (Some i) acc = Some (acc @ rev (path_of ns i))"
proof (induction i arbitrary: acc rule: less_induct)
  case (less i)
  show ?case
  proof (cases "dn_parent (ns ! i)")
    case None
    then show ?thesis
      using less.prems by (simp add: dispatch_walk.simps [of ns "Some i"] dispatch_walk.simps [of ns None] path_of_root)
  next
    case (Some p)
    then show ?thesis
      using less nodes_ok_parent [OF less.prems Some]
      by (simp add: dispatch_walk.simps [of ns "Some i"] path_of_child)
  qed
qed

lemma dispatch_path_ok:
  "nodes_ok (dt_nodes t) \<Longrightarrow> i < length (dt_nodes t) \<Longrightarrow> dispatch_path t i = Some (path_of (dt_nodes t) i)"
  by (simp add: dispatch_path_def dispatch_walk_ok)

lemma collect_walk_ok:
  "nodes_ok ns \<Longrightarrow> i < length ns \<Longrightarrow>
   collect_walk f ns (Some i) acc = Some (acc @ List.map_filter (\<lambda>j. f (ns ! j)) (rev (path_of ns i)))"
proof (induction i arbitrary: acc rule: less_induct)
  case (less i)
  show ?case
  proof (cases "dn_parent (ns ! i)")
    case None
    then show ?thesis
      using less.prems
      by (simp add: collect_walk.simps [of f ns "Some i"] collect_walk.simps [of f ns None] path_of_root map_filter_def
          split: option.splits)
  next
    case (Some p)
    then show ?thesis
      using less nodes_ok_parent [OF less.prems Some]
      by (simp add: collect_walk.simps [of f ns "Some i"] path_of_child map_filter_def split: option.splits)
  qed
qed

lemma ancestor_walk_ok:
  "nodes_ok ns \<Longrightarrow> i < length ns \<Longrightarrow> ancestor_walk ns q (Some i) = Some (q \<in> set (path_of ns i))"
proof (induction i rule: less_induct)
  case (less i)
  show ?case
  proof (cases "dn_parent (ns ! i)")
    case None
    then show ?thesis
      using less.prems by (auto simp: ancestor_walk.simps [of ns q "Some i"] ancestor_walk.simps [of ns q None] path_of_root)
  next
    case (Some p)
    then show ?thesis
      using less nodes_ok_parent [OF less.prems Some]
      by (auto simp: ancestor_walk.simps [of ns q "Some i"] path_of_child)
  qed
qed

lemma innermost_view_total:
  "nodes_ok ns \<Longrightarrow> (\<forall>i. cur = Some i \<longrightarrow> i < length ns) \<Longrightarrow> \<exists>v. innermost_view ns cur = Some v"
proof (cases cur)
  case (Some i)
  moreover have "\<exists>v. innermost_view ns (Some i) = Some v" if "nodes_ok ns" "i < length ns" for i
    using that
  proof (induction i rule: less_induct)
    case (less i)
    then show ?case
      using nodes_ok_parent [OF less.prems] less.IH
      by (cases "dn_parent (ns ! i)") (auto simp: innermost_view.simps [of ns "Some i"] innermost_view.simps [of ns None])
  qed
  ultimately show "nodes_ok ns \<Longrightarrow> (\<forall>i. cur = Some i \<longrightarrow> i < length ns) \<Longrightarrow> \<exists>v. innermost_view ns cur = Some v"
    by simp
qed (simp add: innermost_view.simps)

lemma listener_on_path_ok:
  "\<forall>i\<in>set is. i < length ns \<Longrightarrow>
   listener_on_path ns ty is = Some (\<exists>i\<in>set is. \<exists>l. (ty, l) \<in> set (dn_action_listeners (ns ! i)))"
  by (induction "is") (auto simp: list_ex_iff)

lemma those_nodes: "\<forall>i\<in>set is. i < length ns \<Longrightarrow> those (map (index_at ns) is) = Some (map ((!) ns) is)"
  by (induction "is") simp_all

lemma path_contexts_ok:
  "\<forall>i\<in>set path. i < length (dt_nodes t) \<Longrightarrow>
   path_contexts t path = Some (List.map_filter (\<lambda>i. dn_context (dt_nodes t ! i)) path)"
  by (simp add: path_contexts_def those_nodes map_filter_def filter_map comp_def)


section \<open>Dispatching keys\<close>

text \<open>
  A segmentation of replayed input: each segment is the longest bound prefix of what is left, or one unbound
  keystroke.
\<close>

fun greedy :: "(keystroke list \<Rightarrow> bool) \<Rightarrow> keystroke list list \<Rightarrow> keystroke list \<Rightarrow> bool" where
  "greedy bound [] rest \<longleftrightarrow> True"
| "greedy bound (s # segs) rest \<longleftrightarrow>
     s \<noteq> [] \<and> (bound s \<or> length s = 1) \<and>
     (\<forall>n. length s < n \<and> n \<le> length (s @ concat segs @ rest) \<longrightarrow> \<not> bound (take n (s @ concat segs @ rest))) \<and>
     greedy bound segs rest"

definition path_ok :: "('a, 'l) dispatch_tree \<Rightarrow> nat list \<Rightarrow> bool" where
  "path_ok t path \<longleftrightarrow> (\<forall>i\<in>set path. i < length (dt_nodes t))"

definition contexts_along :: "('a, 'l) dispatch_tree \<Rightarrow> nat list \<Rightarrow> key_context list" where
  "contexts_along t path = List.map_filter (\<lambda>i. dn_context (dt_nodes t ! i)) path"

text \<open>What the keymap answers for input at the end of a path: the bindings, and whether a longer one may follow.\<close>

definition bound_at :: "'a action_ops \<Rightarrow> ('a, 'l) dispatch_tree \<Rightarrow> nat list \<Rightarrow> keystroke list \<Rightarrow> 'a key_binding list" where
  "bound_at ops t path input = fst (Keymap.bindings_for_input ops (dt_keymap t) input (contexts_along t path))"

definition pending_at :: "'a action_ops \<Rightarrow> ('a, 'l) dispatch_tree \<Rightarrow> nat list \<Rightarrow> keystroke list \<Rightarrow> bool" where
  "pending_at ops t path input \<longleftrightarrow> snd (Keymap.bindings_for_input ops (dt_keymap t) input (contexts_along t path))"

definition replay_of :: "'a action_ops \<Rightarrow> ('a, 'l) dispatch_tree \<Rightarrow> nat list \<Rightarrow> keystroke list \<Rightarrow> 'a key_replay" where
  "replay_of ops t path s = \<lparr>rp_keystroke = last s, rp_bindings = bound_at ops t path s\<rparr>"

lemma dt_bindings_for_input_ok:
  "path_ok t path \<Longrightarrow>
   dt_bindings_for_input ops t input path =
     Some (bound_at ops t path input, pending_at ops t path input, contexts_along t path)"
  by (simp add: dt_bindings_for_input_def path_ok_def path_contexts_ok contexts_along_def bound_at_def pending_at_def
      split: prod.split)

lemma replay_loop_ok:
  assumes "path_ok t path"
  shows "replay_loop ops t path input ls =
    Some (map_option (\<lambda>l. (l, bound_at ops t path (take (Suc l) input)))
           (find (\<lambda>l. bound_at ops t path (take (Suc l) input) \<noteq> []) ls))"
  by (induction ls) (simp_all add: dt_bindings_for_input_ok [OF assms])

text \<open>Searching the positions from the last finds the last one, or there is none.\<close>

lemma find_rev_upt:
  "find P (rev [0..<n]) = Some l \<Longrightarrow> l < n \<and> P l \<and> (\<forall>m. l < m \<and> m < n \<longrightarrow> \<not> P m)"
  by (induction n) (auto split: if_splits simp: less_Suc_eq)

lemma find_rev_upt_None: "find P (rev [0..<n]) = None \<longleftrightarrow> (\<forall>m<n. \<not> P m)"
  by (auto simp: find_None_iff)

text \<open>One step of the replay takes one segment.\<close>

lemma replay_prefix_ok:
  assumes p: "path_ok t path" and ne: "input \<noteq> []"
  obtains s suffix where "input = s @ suffix" "s \<noteq> []" "bound_at ops t path s \<noteq> [] \<or> length s = 1"
    "\<forall>n. length s < n \<and> n \<le> length input \<longrightarrow> bound_at ops t path (take n input) = []"
    "replay_prefix ops t path input = Some (suffix, [replay_of ops t path s])"
proof (cases "find (\<lambda>l. bound_at ops t path (take (Suc l) input) \<noteq> []) (rev [0..<length input])")
  case (Some l)
  note f = find_rev_upt [OF Some]
  have rest: "bound_at ops t path (take n input) = []" if "length (take (Suc l) input) < n" "n \<le> length input" for n
    using f that by (cases n) auto
  show thesis
  proof (rule that)
    show "input = take (Suc l) input @ drop (Suc l) input" by simp
    show "replay_prefix ops t path input = Some (drop (Suc l) input, [replay_of ops t path (take (Suc l) input)])"
      using f Some by (simp add: replay_prefix_def replay_loop_ok [OF p] replay_of_def take_Suc_conv_app_nth)
  qed (use f ne rest in auto)
next
  case None
  note f = None [unfolded find_rev_upt_None]
  obtain k ks where input: "input = k # ks" using ne by (cases input) auto
  have rest: "bound_at ops t path (take n input) = []" if "0 < n" "n \<le> length input" for n
    using f that by (cases n) auto
  show thesis
  proof (rule that [of "[k]" ks])
    show "replay_prefix ops t path input = Some (ks, [replay_of ops t path [k]])"
      unfolding replay_prefix_def replay_loop_ok [OF p] None using rest [of 1] input by (simp add: replay_of_def)
  qed (use input rest in auto)
qed

lemma flush_dispatch_ok:
  assumes p: "path_ok t path"
  shows "input \<noteq> [] \<Longrightarrow>
    \<exists>segs. concat segs = input \<and> greedy (\<lambda>s. bound_at ops t path s \<noteq> []) segs [] \<and>
      flush_dispatch ops t path input = Some (map (replay_of ops t path) segs)"
proof (induction input rule: length_induct)
  case (1 input)
  obtain s suffix where s: "input = s @ suffix" "s \<noteq> []" "bound_at ops t path s \<noteq> [] \<or> length s = 1"
    "\<forall>n. length s < n \<and> n \<le> length input \<longrightarrow> bound_at ops t path (take n input) = []"
    "replay_prefix ops t path input = Some (suffix, [replay_of ops t path s])"
    by (rule replay_prefix_ok [where ops = ops, OF p 1(2)])
  show ?case
  proof (cases "suffix = []")
    case True
    then have "flush_dispatch ops t path input = Some (map (replay_of ops t path) [s])"
      using s(5) by (subst flush_dispatch.simps) simp
    moreover have "greedy (\<lambda>s. bound_at ops t path s \<noteq> []) [s] []"
      using s(2,3) by auto
    moreover have "concat [s] = input"
      using s(1) True by simp
    ultimately show ?thesis
      by blast
  next
    case False
    have "length suffix < length input" using s(1,2) by simp
    then obtain segs where segs: "concat segs = suffix" "greedy (\<lambda>s. bound_at ops t path s \<noteq> []) segs []"
      "flush_dispatch ops t path suffix = Some (map (replay_of ops t path) segs)"
      using 1(1) False by metis
    then have "flush_dispatch ops t path input = Some (map (replay_of ops t path) (s # segs))"
      using s(5) False by (subst flush_dispatch.simps) simp
    moreover have "greedy (\<lambda>s. bound_at ops t path s \<noteq> []) (s # segs) []"
      using s(1-4) segs(1,2) by auto
    moreover have "concat (s # segs) = input"
      using s(1) segs(1) by simp
    ultimately show ?thesis
      by blast
  qed
qed

text \<open>
  The outcome of a key: some segments of the pending input are replayed, and the rest with the key is pending,
  bound, or (when nothing is left before the key) nothing.
\<close>

definition outcome_of :: "'a action_ops \<Rightarrow> ('a, 'l) dispatch_tree \<Rightarrow> nat list \<Rightarrow> keystroke list \<Rightarrow> 'a dispatch_result" where
  "outcome_of ops t path input =
     default_result\<lparr>dr_context_stack := contexts_along t path,
       dr_pending := (if pending_at ops t path input then input else []),
       dr_pending_has_binding := (pending_at ops t path input \<and> bound_at ops t path input \<noteq> []),
       dr_bindings := (if pending_at ops t path input then [] else bound_at ops t path input)\<rparr>"

definition matches_at :: "'a action_ops \<Rightarrow> ('a, 'l) dispatch_tree \<Rightarrow> nat list \<Rightarrow> keystroke list \<Rightarrow> bool" where
  "matches_at ops t path input \<longleftrightarrow> pending_at ops t path input \<or> bound_at ops t path input \<noteq> []"

lemma dispatch_key_ok:
  assumes p: "path_ok t path"
  shows "\<exists>segs rest. input = concat segs @ rest \<and> greedy (\<lambda>s. bound_at ops t path s \<noteq> []) segs rest \<and>
      (rest = [] \<or> matches_at ops t path (rest @ [k])) \<and>
      (\<forall>i<length segs. \<not> matches_at ops t path (concat (drop i segs) @ rest @ [k])) \<and>
      dispatch_key ops t path input k =
        Some ((outcome_of ops t path (rest @ [k]))\<lparr>dr_to_replay := map (replay_of ops t path) segs\<rparr>)"
proof (induction input rule: length_induct)
  case (1 input)
  show ?case
  proof (cases "input = [] \<or> matches_at ops t path (input @ [k])")
    case True
    then show ?thesis
      by (intro exI [of _ "[]"] exI [of _ input])
        (auto simp: dispatch_key.simps [of ops t path input] dt_bindings_for_input_ok [OF p] outcome_of_def matches_at_def default_result_def)
  next
    case False
    then have ne: "input \<noteq> []" and nm: "\<not> matches_at ops t path (input @ [k])" by auto
    obtain s suffix where s: "input = s @ suffix" "s \<noteq> []" "bound_at ops t path s \<noteq> [] \<or> length s = 1"
      "\<forall>n. length s < n \<and> n \<le> length input \<longrightarrow> bound_at ops t path (take n input) = []"
      "replay_prefix ops t path input = Some (suffix, [replay_of ops t path s])"
      by (rule replay_prefix_ok [where ops = ops, OF p ne])
    have "length suffix < length input" using s(1,2) by simp
    then obtain segs rest where r: "suffix = concat segs @ rest" "greedy (\<lambda>s. bound_at ops t path s \<noteq> []) segs rest"
      "rest = [] \<or> matches_at ops t path (rest @ [k])"
      "\<forall>i<length segs. \<not> matches_at ops t path (concat (drop i segs) @ rest @ [k])"
      "dispatch_key ops t path suffix k =
        Some ((outcome_of ops t path (rest @ [k]))\<lparr>dr_to_replay := map (replay_of ops t path) segs\<rparr>)"
      using 1 by metis
    have "dispatch_key ops t path input k =
        Some ((outcome_of ops t path (rest @ [k]))\<lparr>dr_to_replay := map (replay_of ops t path) (s # segs)\<rparr>)"
      using nm ne s(5) r(5)
      by (simp add: dispatch_key.simps [of ops t path input] dt_bindings_for_input_ok [OF p] matches_at_def)
    moreover have "\<forall>i<length (s # segs). \<not> matches_at ops t path (concat (drop i (s # segs)) @ rest @ [k])"
      using nm r(1,4) s(1) by (auto simp: less_Suc_eq_0_disj)
    ultimately show ?thesis
      using s r by (intro exI [of _ "s # segs"] exI [of _ rest]) auto
  qed
qed

end
