(* ===== verification/DispatchStacks.thy ===== *)
theory DispatchStacks
  imports KeyDispatch
begin

text \<open>
  The invariant of the dispatch tree of \<open>gpui/src/key_dispatch.rs\<close>: parents precede their children, the node
  stack is the path to the active node, the context and view stacks are what the nodes on it carry, and the
  focus and view maps point at nodes with that id. Every operation of a frame keeps it, \<open>set_active_node\<close>
  establishes it for the node it is given, and \<open>reuse_subtree\<close> of \<open>gpui/src/fast/dispatch.rs\<close> hangs a stretch of
  last frame's nodes off the active node with their paths.
\<close>

section \<open>The invariant\<close>

definition carried :: "('l dispatch_node \<Rightarrow> 'x option) \<Rightarrow> 'l dispatch_node list \<Rightarrow> nat list \<Rightarrow> 'x list" where
  "carried f ns path = List.map_filter (\<lambda>i. f (ns ! i)) path"

definition active_path :: "'l dispatch_node list \<Rightarrow> nat option \<Rightarrow> nat list" where
  "active_path ns cur = (case cur of None \<Rightarrow> [] | Some i \<Rightarrow> path_of ns i)"

definition ids_ok :: "('l dispatch_node \<Rightarrow> nat option) \<Rightarrow> 'l dispatch_node list \<Rightarrow> (nat \<rightharpoonup> nat) \<Rightarrow> bool" where
  "ids_ok f ns m \<longleftrightarrow> (\<forall>x i. m x = Some i \<longrightarrow> i < length ns \<and> f (ns ! i) = Some x)"

definition stacks_at :: "('a, 'l) dispatch_tree \<Rightarrow> nat option \<Rightarrow> bool" where
  "stacks_at t cur \<longleftrightarrow>
     (\<forall>i. cur = Some i \<longrightarrow> i < length (dt_nodes t)) \<and>
     dt_node_stack t = active_path (dt_nodes t) cur \<and>
     dt_context_stack t = carried dn_context (dt_nodes t) (active_path (dt_nodes t) cur) \<and>
     dt_view_stack t = carried dn_view_id (dt_nodes t) (active_path (dt_nodes t) cur)"

definition dt_ok :: "('a, 'l) dispatch_tree \<Rightarrow> bool" where
  "dt_ok t \<longleftrightarrow> nodes_ok (dt_nodes t) \<and> stacks_at t (active_node_id t) \<and>
     ids_ok dn_focus_id (dt_nodes t) (dt_focusable t) \<and> ids_ok dn_view_id (dt_nodes t) (dt_views t)"

text \<open>The active node has not been given a key context, a focus id, another view.\<close>

definition fresh_active :: "('l dispatch_node \<Rightarrow> 'x option) \<Rightarrow> ('a, 'l) dispatch_tree \<Rightarrow> bool" where
  "fresh_active f t \<longleftrightarrow> (\<exists>i. active_node_id t = Some i \<and> f (dt_nodes t ! i) = None)"

lemma map_filter_append: "List.map_filter f (xs @ ys) = List.map_filter f xs @ List.map_filter f ys"
  by (simp add: map_filter_def)

lemma map_filter_Cons: "List.map_filter f (x # xs) = (case f x of Some y \<Rightarrow> [y] | None \<Rightarrow> []) @ List.map_filter f xs"
  by (simp add: map_filter_def split: option.split)

lemma map_filter_cong: "(\<And>x. x \<in> set xs \<Longrightarrow> f x = g x) \<Longrightarrow> List.map_filter f xs = List.map_filter g xs"
  unfolding map_filter_def by (intro arg_cong2 [where f = map] filter_cong map_cong) auto

lemma map_filter_rev: "List.map_filter f (rev xs) = rev (List.map_filter f xs)"
  by (simp add: map_filter_def rev_map flip: rev_filter)

lemma carried_append: "carried f ns (xs @ ys) = carried f ns xs @ carried f ns ys"
  by (simp add: carried_def map_filter_append)

lemma carried_single: "carried f ns [i] = (case f (ns ! i) of Some y \<Rightarrow> [y] | None \<Rightarrow> [])"
  by (simp add: carried_def map_filter_def split: option.split)

lemma carried_Nil [simp]: "carried f ns [] = []"
  by (simp add: carried_def map_filter_def)

lemma carried_cong: "(\<And>i. i \<in> set path \<Longrightarrow> f (ns ! i) = g (ms ! i)) \<Longrightarrow> carried f ns path = carried g ms path"
  unfolding carried_def by (rule map_filter_cong)

lemma contexts_along_carried: "contexts_along t path = carried dn_context (dt_nodes t) path"
  by (simp add: contexts_along_def carried_def)

lemma active_path_None [simp]: "active_path ns None = []"
  by (simp add: active_path_def)

lemma active_path_last: "list_last (active_path ns cur) = cur"
  by (simp add: active_path_def list_last_def split: option.split)

lemma active_path_bound: "\<forall>i. cur = Some i \<longrightarrow> i < n \<Longrightarrow> \<forall>j\<in>set (active_path ns cur). j < n"
  by (fastforce simp: active_path_def split: option.splits dest: path_of_le)

lemma stacks_at_active: "stacks_at t cur \<Longrightarrow> active_node_id t = cur"
  by (simp add: stacks_at_def active_node_id_def active_path_last)

lemma dt_okI:
  "nodes_ok (dt_nodes t) \<Longrightarrow> stacks_at t cur \<Longrightarrow> ids_ok dn_focus_id (dt_nodes t) (dt_focusable t) \<Longrightarrow>
   ids_ok dn_view_id (dt_nodes t) (dt_views t) \<Longrightarrow> dt_ok t"
  by (simp add: dt_ok_def stacks_at_active)

lemma active_path_child:
  "nodes_ok ns \<Longrightarrow> i < length ns \<Longrightarrow> active_path ns (Some i) = active_path ns (dn_parent (ns ! i)) @ [i]"
  using nodes_ok_parent [of ns i]
  by (cases "dn_parent (ns ! i)") (simp_all add: active_path_def path_of_root path_of_child)

lemma parent_bound:
  "nodes_ok ns \<Longrightarrow> i < length ns \<Longrightarrow> \<forall>p. dn_parent (ns ! i) = Some p \<longrightarrow> p < length ns"
  using nodes_ok_parent by blast

text \<open>Opening a node whose parent is active.\<close>

lemma push_open_stacks:
  assumes "nodes_ok (dt_nodes t)" "i < length (dt_nodes t)" "stacks_at t (dn_parent (dt_nodes t ! i))"
  shows "stacks_at (push_open i (dt_nodes t ! i) t) (Some i)"
  using assms active_path_child [OF assms(1,2)]
  by (simp add: stacks_at_def push_open_def carried_append carried_single)

text \<open>Closing the active node.\<close>

lemma pop_node_ok:
  assumes n: "nodes_ok (dt_nodes t)" and s: "stacks_at t (Some i)"
  obtains t' where "pop_node t = Some t'" "stacks_at t' (dn_parent (dt_nodes t ! i))"
    "dt_nodes t' = dt_nodes t" "dt_focusable t' = dt_focusable t" "dt_views t' = dt_views t" "dt_keymap t' = dt_keymap t"
    "length (dt_node_stack t') < length (dt_node_stack t)"
proof -
  have i: "i < length (dt_nodes t)" using s by (simp add: stacks_at_def)
  note c = active_path_child [OF n i] and a = stacks_at_active [OF s]
  define t' where "t' = the (pop_node t)"
  have t': "pop_node t = Some t'"
    using i a by (simp add: pop_node_def t'_def)
  have "stacks_at t' (dn_parent (dt_nodes t ! i))"
    using s c i a parent_bound [OF n i]
    by (auto simp: stacks_at_def pop_node_def t'_def carried_append carried_single butlast_append split: option.splits)
  moreover have "length (dt_node_stack t') < length (dt_node_stack t)"
    using s c i a by (simp add: stacks_at_def pop_node_def t'_def)
  ultimately show thesis
    using that t' i a by (simp add: pop_node_def t'_def)
qed

text \<open>
  Changing the active node in a way that keeps the parents: the stacks follow when the new context and view are
  pushed.
\<close>

lemma update_active_ok:
  assumes "dt_ok t" "active_node_id t = Some i"
  shows "i < length (dt_nodes t)" "update_active f t = Some (t\<lparr>dt_nodes := (dt_nodes t)[i := f (dt_nodes t ! i)]\<rparr>)"
  using assms by (simp_all add: dt_ok_def stacks_at_def update_active_def)

lemma nth_update: "ns[i := n] ! j = (if i = j \<and> i < length ns then n else ns ! j)"
  by (cases "i < length ns") (auto simp: nth_list_update list_update_beyond)

lemma nodes_ok_update: "nodes_ok ns \<Longrightarrow> dn_parent n = dn_parent (ns ! i) \<Longrightarrow> nodes_ok (ns[i := n])"
  by (auto simp: nodes_ok_def nth_update split: if_splits)

lemma path_of_update: "dn_parent n = dn_parent (ns ! i) \<Longrightarrow> path_of (ns[i := n]) j = path_of ns j"
  by (rule path_of_cong) (simp add: nth_update)

lemma active_path_update: "dn_parent n = dn_parent (ns ! i) \<Longrightarrow> active_path (ns[i := n]) cur = active_path ns cur"
  by (simp add: active_path_def path_of_update split: option.split)

lemma ids_ok_update:
  "ids_ok f ns m \<Longrightarrow> f (ns ! i) = None \<or> f n = f (ns ! i) \<Longrightarrow> ids_ok f (ns[i := n]) m"
  unfolding ids_ok_def by (auto simp: nth_update)

lemma path_of_distinct: "distinct (path_of ns i)"
  using path_of_strict strict_sorted_iff by blast

lemma carried_update:
  assumes "nodes_ok ns" "i < length ns" "dn_parent n = dn_parent (ns ! i)"
  shows "carried f (ns[i := n]) (active_path (ns[i := n]) (Some i)) =
    carried f ns (active_path ns (dn_parent (ns ! i))) @ (case f n of Some y \<Rightarrow> [y] | None \<Rightarrow> [])"
proof -
  have "i \<notin> set (active_path ns (dn_parent (ns ! i)))"
    using path_of_distinct [of ns i] active_path_child [OF assms(1,2)] by (simp add: active_path_def)
  then have "carried f (ns[i := n]) (active_path ns (dn_parent (ns ! i))) = carried f ns (active_path ns (dn_parent (ns ! i)))"
    by (intro carried_cong) (metis nth_list_update_neq)
  then show ?thesis
    using assms active_path_child [OF assms(1,2)] by (simp add: active_path_update carried_append carried_single)
qed


section \<open>The operations of a frame\<close>

lemma set_key_context_ok:
  assumes ok: "dt_ok t" and fr: "fresh_active dn_context t"
  shows "\<exists>t'. set_key_context c t = Some t' \<and> dt_ok t' \<and> dt_node_stack t' = dt_node_stack t \<and>
    dt_context_stack t' = dt_context_stack t @ [c]"
proof -
  obtain i where a: "active_node_id t = Some i" and f: "dn_context (dt_nodes t ! i) = None"
    using fr by (auto simp: fresh_active_def)
  note u = update_active_ok [OF ok a]
  have n: "nodes_ok (dt_nodes t)" and s: "stacks_at t (Some i)"
    using ok a by (simp_all add: dt_ok_def)
  let ?n = "(dt_nodes t ! i)\<lparr>dn_context := Some c\<rparr>"
  let ?t = "t\<lparr>dt_nodes := (dt_nodes t)[i := ?n], dt_context_stack := dt_context_stack t @ [c]\<rparr>"
  have "stacks_at ?t (Some i)"
    using s u(1) f active_path_child [OF n u(1)] carried_update [OF n u(1), of ?n dn_context] carried_update [OF n u(1), of ?n dn_view_id]
    by (simp add: stacks_at_def active_path_update carried_append carried_single)
  moreover have "ids_ok dn_focus_id (dt_nodes ?t) (dt_focusable ?t)" "ids_ok dn_view_id (dt_nodes ?t) (dt_views ?t)"
    using ok by (auto simp: dt_ok_def intro: ids_ok_update)
  ultimately show ?thesis
    using n by (intro exI [of _ ?t]) (auto simp: set_key_context_def u(2) intro!: dt_okI [of ?t "Some i"] nodes_ok_update)
qed

lemma set_focus_id_ok:
  assumes ok: "dt_ok t" and fr: "fresh_active dn_focus_id t"
  shows "\<exists>t'. set_focus_id f t = Some t' \<and> dt_ok t' \<and> dt_node_stack t' = dt_node_stack t \<and>
    dt_focusable t' = (dt_focusable t)(f := active_node_id t)"
proof -
  obtain i where a: "active_node_id t = Some i" and f: "dn_focus_id (dt_nodes t ! i) = None"
    using fr by (auto simp: fresh_active_def)
  note u = update_active_ok [OF ok a]
  have n: "nodes_ok (dt_nodes t)" and s: "stacks_at t (Some i)"
    using ok a by (simp_all add: dt_ok_def)
  let ?n = "(dt_nodes t ! i)\<lparr>dn_focus_id := Some f\<rparr>"
  let ?t = "t\<lparr>dt_nodes := (dt_nodes t)[i := ?n], dt_focusable := (dt_focusable t)(f \<mapsto> i)\<rparr>"
  have "stacks_at ?t (Some i)"
    using s u(1) active_path_child [OF n u(1)] carried_update [OF n u(1), of ?n dn_context] carried_update [OF n u(1), of ?n dn_view_id]
    by (simp add: stacks_at_def active_path_update carried_append carried_single)
  moreover have "ids_ok dn_focus_id (dt_nodes ?t) (dt_focusable ?t)"
    using ok u(1) f by (auto simp: dt_ok_def ids_ok_def nth_update)
  moreover have "ids_ok dn_view_id (dt_nodes ?t) (dt_views ?t)"
    using ok by (auto simp: dt_ok_def intro: ids_ok_update)
  ultimately show ?thesis
    using n a by (intro exI [of _ ?t]) (auto simp: set_focus_id_def u(2) active_node_id_def intro!: dt_okI [of ?t "Some i"] nodes_ok_update)
qed

lemma set_view_id_ok:
  assumes ok: "dt_ok t" and fr: "fresh_active dn_view_id t"
  shows "\<exists>t'. set_view_id v t = Some t' \<and> dt_ok t' \<and> dt_node_stack t' = dt_node_stack t \<and> list_last (dt_view_stack t') = Some v"
proof (cases "list_last (dt_view_stack t) = Some v")
  case True
  then show ?thesis
    using ok by (simp add: set_view_id_def)
next
  case False
  obtain i where a: "active_node_id t = Some i" and f: "dn_view_id (dt_nodes t ! i) = None"
    using fr by (auto simp: fresh_active_def)
  note u = update_active_ok [OF ok a]
  have n: "nodes_ok (dt_nodes t)" and s: "stacks_at t (Some i)"
    using ok a by (simp_all add: dt_ok_def)
  let ?n = "(dt_nodes t ! i)\<lparr>dn_view_id := Some v\<rparr>"
  let ?t = "t\<lparr>dt_nodes := (dt_nodes t)[i := ?n], dt_views := (dt_views t)(v \<mapsto> i), dt_view_stack := dt_view_stack t @ [v]\<rparr>"
  have "stacks_at ?t (Some i)"
    using s u(1) f active_path_child [OF n u(1)] carried_update [OF n u(1), of ?n dn_context] carried_update [OF n u(1), of ?n dn_view_id]
    by (simp add: stacks_at_def active_path_update carried_append carried_single)
  moreover have "ids_ok dn_view_id (dt_nodes ?t) (dt_views ?t)"
    using ok u(1) f by (auto simp: dt_ok_def ids_ok_def nth_update)
  moreover have "ids_ok dn_focus_id (dt_nodes ?t) (dt_focusable ?t)"
    using ok by (auto simp: dt_ok_def intro: ids_ok_update)
  ultimately show ?thesis
    using n a False by (intro exI [of _ ?t])
      (auto simp: set_view_id_def u(2) active_node_id_def list_last_append list_last_def [of "[v]"] intro!: dt_okI [of ?t "Some i"] nodes_ok_update)
qed

text \<open>Adding a listener.\<close>

lemma update_active_listener:
  assumes ok: "dt_ok t" and a: "active_node_id t = Some i"
    and f: "\<And>n. dn_parent (f n) = dn_parent n \<and> dn_context (f n) = dn_context n \<and> dn_focus_id (f n) = dn_focus_id n \<and> dn_view_id (f n) = dn_view_id n"
  shows "\<exists>t'. update_active f t = Some t' \<and> dt_ok t' \<and> dt_node_stack t' = dt_node_stack t"
proof -
  note u = update_active_ok [OF ok a]
  have n: "nodes_ok (dt_nodes t)" and s: "stacks_at t (Some i)"
    using ok a by (simp_all add: dt_ok_def)
  let ?t = "t\<lparr>dt_nodes := (dt_nodes t)[i := f (dt_nodes t ! i)]\<rparr>"
  have "stacks_at ?t (Some i)"
    using s u(1) active_path_child [OF n u(1)] carried_update [OF n u(1), of "f (dt_nodes t ! i)" dn_context]
      carried_update [OF n u(1), of "f (dt_nodes t ! i)" dn_view_id]
    by (simp add: stacks_at_def active_path_update carried_append carried_single f)
  moreover have "ids_ok dn_focus_id (dt_nodes ?t) (dt_focusable ?t)" "ids_ok dn_view_id (dt_nodes ?t) (dt_views ?t)"
    using ok f by (auto simp: dt_ok_def intro: ids_ok_update)
  ultimately show ?thesis
    using n f by (intro exI [of _ ?t]) (auto simp: u(2) intro!: dt_okI [of ?t "Some i"] nodes_ok_update)
qed


text \<open>Adding nodes at the end leaves the paths of the others.\<close>

lemma nodes_ok_append:
  assumes "nodes_ok ns" "\<And>k p. k < length ms \<Longrightarrow> dn_parent (ms ! k) = Some p \<Longrightarrow> p < length ns + k"
  shows "nodes_ok (ns @ ms)"
  unfolding nodes_ok_def
proof (intro allI impI)
  fix i p assume i: "i < length (ns @ ms)" and p: "dn_parent ((ns @ ms) ! i) = Some p"
  show "p < i"
  proof (cases "i < length ns")
    case True
    then show ?thesis
      using assms(1) p by (simp add: nodes_ok_def nth_append)
  next
    case False
    then show ?thesis
      using assms(2) [of "i - length ns" p] i p by (simp add: nth_append)
  qed
qed

lemma active_path_append:
  "\<forall>i. cur = Some i \<longrightarrow> i < length ns \<Longrightarrow> active_path (ns @ ms) cur = active_path ns cur"
  by (auto simp: active_path_def path_of_append split: option.split)

lemma carried_append_nodes: "\<forall>i\<in>set path. i < length ns \<Longrightarrow> carried f (ns @ ms) path = carried f ns path"
  by (intro carried_cong) (simp add: nth_append)

lemma ids_ok_append: "ids_ok f ns m \<Longrightarrow> ids_ok f (ns @ ms) m"
  unfolding ids_ok_def by (simp add: nth_append trans_less_add1)

lemma stacks_at_append:
  assumes "stacks_at t cur" "dt_nodes t' = dt_nodes t @ ms" "dt_node_stack t' = dt_node_stack t"
    "dt_context_stack t' = dt_context_stack t" "dt_view_stack t' = dt_view_stack t"
  shows "stacks_at t' cur"
proof -
  have c: "\<forall>i. cur = Some i \<longrightarrow> i < length (dt_nodes t)" using assms(1) by (simp add: stacks_at_def)
  show ?thesis
    using assms c
    by (auto simp: stacks_at_def trans_less_add1 active_path_append [OF c] carried_append_nodes [OF active_path_bound [OF c]])
qed

lemma push_node_ok:
  assumes ok: "dt_ok t"
  shows "dt_ok (fst (push_node t))" "snd (push_node t) = length (dt_nodes t)"
    "dt_node_stack (fst (push_node t)) = dt_node_stack t @ [length (dt_nodes t)]"
proof -
  let ?n = "default_node\<lparr>dn_parent := active_node_id t\<rparr>"
  let ?u = "t\<lparr>dt_nodes := dt_nodes t @ [?n]\<rparr>"
  have s: "stacks_at t (active_node_id t)" and n: "nodes_ok (dt_nodes t)"
    using ok by (simp_all add: dt_ok_def)
  have n': "nodes_ok (dt_nodes ?u)"
    using n s by (auto intro!: nodes_ok_append simp: stacks_at_def)
  have "stacks_at ?u (active_node_id t)"
    by (rule stacks_at_append [OF s, where ms = "[?n]"]) simp_all
  then have "stacks_at (push_open (length (dt_nodes t)) (dt_nodes ?u ! length (dt_nodes t)) ?u) (Some (length (dt_nodes t)))"
    by (intro push_open_stacks [OF n']) simp_all
  moreover have "push_open (length (dt_nodes t)) (dt_nodes ?u ! length (dt_nodes t)) ?u = fst (push_node t)"
    by (simp add: push_open_def push_node_def Let_def active_node_id_def default_node_def)
  ultimately show "dt_ok (fst (push_node t))"
    using n' ok by (intro dt_okI [of _ "Some (length (dt_nodes t))"])
      (simp_all add: push_node_def Let_def active_node_id_def dt_ok_def ids_ok_append)
qed (simp_all add: push_node_def Let_def)

text \<open>Truncating to nodes that include the active one.\<close>

lemma truncate_fold:
  "fold (\<lambda>node (fs, vs). (case dn_focus_id node of Some f \<Rightarrow> fs(f := None) | None \<Rightarrow> fs,
                           case dn_view_id node of Some v \<Rightarrow> vs(v := None) | None \<Rightarrow> vs)) gone (fs, vs) =
   ((\<lambda>f. if \<exists>node\<in>set gone. dn_focus_id node = Some f then None else fs f),
    (\<lambda>v. if \<exists>node\<in>set gone. dn_view_id node = Some v then None else vs v))"
  by (induction gone arbitrary: fs vs) (auto simp: fun_eq_iff split: option.splits)

lemma path_of_take: "i < n \<Longrightarrow> path_of (take n ns) i = path_of ns i"
  by (rule path_of_cong) simp

lemma ids_ok_take:
  assumes "ids_ok f ns m"
  shows "ids_ok f (take n ns) (\<lambda>x. if \<exists>node\<in>set (drop n ns). f node = Some x then None else m x)"
  unfolding ids_ok_def
proof (intro allI impI)
  fix x i
  assume "(if \<exists>node\<in>set (drop n ns). f node = Some x then None else m x) = Some i"
  then have no: "\<forall>node\<in>set (drop n ns). f node \<noteq> Some x" and m: "m x = Some i" by (auto split: if_splits)
  then have i: "i < length ns" "f (ns ! i) = Some x"
    using assms by (auto simp: ids_ok_def)
  have "i < n"
  proof (rule ccontr)
    assume "\<not> i < n"
    then have "ns ! i \<in> set (drop n ns)"
      using i(1) by (auto simp: in_set_conv_nth intro!: exI [of _ "i - n"])
    then show False
      using no i(2) by blast
  qed
  then show "i < length (take n ns) \<and> f (take n ns ! i) = Some x"
    using i by simp
qed

lemma truncate_ok:
  assumes ok: "dt_ok t" and n: "n \<le> length (dt_nodes t)" and a: "\<forall>i. active_node_id t = Some i \<longrightarrow> i < n"
  shows "\<exists>t'. dt_truncate n t = Some t' \<and> dt_ok t' \<and> dt_nodes t' = take n (dt_nodes t) \<and> dt_node_stack t' = dt_node_stack t"
proof -
  let ?t = "t\<lparr>dt_focusable := \<lambda>f. if \<exists>node\<in>set (drop n (dt_nodes t)). dn_focus_id node = Some f then None else dt_focusable t f,
    dt_views := \<lambda>v. if \<exists>node\<in>set (drop n (dt_nodes t)). dn_view_id node = Some v then None else dt_views t v,
    dt_nodes := take n (dt_nodes t)\<rparr>"
  have e: "active_path (take n (dt_nodes t)) (active_node_id t) = active_path (dt_nodes t) (active_node_id t)"
    using a by (auto simp: active_path_def path_of_take split: option.split)
  moreover have "\<forall>j\<in>set (active_path (dt_nodes t) (active_node_id t)). j < n"
    by (rule active_path_bound [OF a])
  ultimately have "stacks_at ?t (active_node_id t)"
    using ok a n by (auto simp: dt_ok_def stacks_at_def intro!: carried_cong)
  moreover have "nodes_ok (take n (dt_nodes t))"
    using ok by (simp add: dt_ok_def nodes_ok_def)
  ultimately have "dt_ok ?t"
    using ok by (auto simp: dt_ok_def [of t] intro!: dt_okI [of ?t "active_node_id t"] ids_ok_take)
  then show ?thesis
    using n by (intro exI [of _ ?t]) (simp add: dt_truncate_def truncate_fold)
qed


section \<open>Making a node active\<close>

lemma pop_until_ok:
  assumes "nodes_ok (dt_nodes t)" "stacks_at t cur"
  shows "\<exists>t' cur'. pop_until parent t = Some t' \<and> stacks_at t' cur' \<and> (cur' = parent \<or> cur' = None) \<and>
    dt_nodes t' = dt_nodes t \<and> dt_focusable t' = dt_focusable t \<and> dt_views t' = dt_views t \<and> dt_keymap t' = dt_keymap t"
  using assms
proof (induction "length (dt_node_stack t)" arbitrary: t cur rule: less_induct)
  case less
  note a = stacks_at_active [OF less.prems(2), unfolded active_node_id_def]
  show ?case
  proof (cases "cur = parent \<or> cur = None")
    case True
    then have "pop_until parent t = Some t"
      using a less.prems(2) by (subst pop_until.simps) (auto simp: stacks_at_def)
    then show ?thesis
      using True less.prems by blast
  next
    case False
    then obtain i where c: "cur = Some i" by auto
    obtain t1 where t1: "pop_node t = Some t1" "stacks_at t1 (dn_parent (dt_nodes t ! i))"
      "dt_nodes t1 = dt_nodes t" "dt_focusable t1 = dt_focusable t" "dt_views t1 = dt_views t" "dt_keymap t1 = dt_keymap t"
      "length (dt_node_stack t1) < length (dt_node_stack t)"
      using pop_node_ok less.prems c by metis
    have "pop_until parent t = pop_until parent t1"
      using False a t1(1) by (subst pop_until.simps) (auto simp: list_last_def split: if_splits)
    then show ?thesis
      using less.hyps [OF t1(7) _ t1(2)] less.prems(1) t1(3-6) by simp
  qed
qed

lemma push_ancestors_ok:
  "nodes_ok (dt_nodes t) \<Longrightarrow> i < length (dt_nodes t) \<Longrightarrow>
   push_ancestors (Some i) t = Some (t\<lparr>dt_node_stack := dt_node_stack t @ rev (path_of (dt_nodes t) i),
     dt_context_stack := dt_context_stack t @ carried dn_context (dt_nodes t) (rev (path_of (dt_nodes t) i)),
     dt_view_stack := dt_view_stack t @ carried dn_view_id (dt_nodes t) (rev (path_of (dt_nodes t) i))\<rparr>)"
proof (induction i arbitrary: t rule: less_induct)
  case (less i)
  show ?case
  proof (cases "dn_parent (dt_nodes t ! i)")
    case None
    then show ?thesis
      using less.prems
      by (simp add: push_ancestors.simps [of "Some i"] push_ancestors.simps [of None] path_of_root push_open_def carried_single)
  next
    case (Some p)
    show ?thesis
      using less.IH [of p "push_open i (dt_nodes t ! i) t"] less.prems nodes_ok_parent [OF less.prems Some] Some
      by (simp add: push_ancestors.simps [of "Some i"] path_of_child push_open_def carried_def map_filter_Cons
          split: option.split)
  qed
qed

lemma set_active_node_ok:
  assumes ok: "dt_ok t" and i: "i < length (dt_nodes t)"
  shows "\<exists>t'. set_active_node i t = Some t' \<and> dt_ok t' \<and> active_node_id t' = Some i \<and>
    dt_nodes t' = dt_nodes t \<and> dt_focusable t' = dt_focusable t \<and> dt_views t' = dt_views t"
proof -
  have n: "nodes_ok (dt_nodes t)" and s: "stacks_at t (active_node_id t)" using ok by (simp_all add: dt_ok_def)
  obtain t1 cur where t1: "pop_until (dn_parent (dt_nodes t ! i)) t = Some t1" "stacks_at t1 cur"
      "cur = dn_parent (dt_nodes t ! i) \<or> cur = None"
      "dt_nodes t1 = dt_nodes t" "dt_focusable t1 = dt_focusable t" "dt_views t1 = dt_views t" "dt_keymap t1 = dt_keymap t"
    using pop_until_ok [OF n s] by blast
  note a = stacks_at_active [OF t1(2), unfolded active_node_id_def]
  have "\<exists>t'. set_active_node i t = Some t' \<and> stacks_at t' (Some i) \<and>
      dt_nodes t' = dt_nodes t1 \<and> dt_focusable t' = dt_focusable t1 \<and> dt_views t' = dt_views t1"
  proof (cases "cur = dn_parent (dt_nodes t ! i)")
    case True
    then have "set_active_node i t = Some (push_open i (dt_nodes t1 ! i) t1)"
      using a t1(1,4) i by (simp add: set_active_node_def)
    moreover have "stacks_at (push_open i (dt_nodes t1 ! i) t1) (Some i)"
      using True t1 n i by (intro push_open_stacks) simp_all
    ultimately show ?thesis
      by (simp add: push_open_def)
  next
    case False
    then have "cur = None" using t1(3) by simp
    then have "dt_node_stack t1 = []" "dt_context_stack t1 = []" "dt_view_stack t1 = []"
      using t1(2) by (simp_all add: stacks_at_def)
    then show ?thesis
      using False a t1 n i push_ancestors_ok [of t1 i]
      by (simp add: set_active_node_def stacks_at_def active_path_def carried_def map_filter_rev)
  qed
  then obtain t' where t': "set_active_node i t = Some t'" "stacks_at t' (Some i)"
    "dt_nodes t' = dt_nodes t" "dt_focusable t' = dt_focusable t" "dt_views t' = dt_views t"
    using t1(4-6) by auto
  then have "dt_ok t'"
    using ok by (intro dt_okI [of t' "Some i"]) (simp_all add: dt_ok_def)
  then show ?thesis
    using t' stacks_at_active by blast
qed


section \<open>Reusing a stretch of last frame's nodes\<close>

lemma innermost_view_append:
  "nodes_ok ns \<Longrightarrow> \<forall>i. cur = Some i \<longrightarrow> i < length ns \<Longrightarrow> innermost_view (ns @ ms) cur = innermost_view ns cur"
proof (cases cur)
  case (Some i)
  moreover have "innermost_view (ns @ ms) (Some i) = innermost_view ns (Some i)" if "nodes_ok ns" "i < length ns" for i
    using that
  proof (induction i rule: less_induct)
    case (less i)
    then show ?case
      using nodes_ok_parent [OF less.prems] less.IH
      by (cases "dn_parent (ns ! i)")
        (auto simp: innermost_view.simps [of _ "Some i"] innermost_view.simps [of _ None] nth_append)
  qed
  ultimately show "nodes_ok ns \<Longrightarrow> \<forall>i. cur = Some i \<longrightarrow> i < length ns \<Longrightarrow> ?thesis"
    by simp
qed (simp add: innermost_view.simps)

definition without_listeners :: "'l dispatch_node \<Rightarrow> 'l dispatch_node" where
  "without_listeners n = n\<lparr>dn_key_listeners := [], dn_action_listeners := [], dn_modifiers_listeners := []\<rparr>"

text \<open>The parent of a copy: moved with the stretch, or the node the stretch hangs off.\<close>

definition moved_parent :: "nat \<Rightarrow> nat \<Rightarrow> nat option \<Rightarrow> nat option \<Rightarrow> nat option" where
  "moved_parent a start hook parent =
     (case parent of Some p \<Rightarrow> if a \<le> p then Some (p - a + start) else hook | None \<Rightarrow> hook)"

text \<open>A copy: everything of the original but the parent, and a view id unless that view is the innermost around it already.\<close>

definition copy_of :: "'l dispatch_node list \<Rightarrow> nat \<Rightarrow> nat \<Rightarrow> nat option \<Rightarrow> 'l dispatch_node \<Rightarrow> nat \<Rightarrow> bool" where
  "copy_of ns a start hook orig j \<longleftrightarrow>
     (\<exists>v. ns ! j = orig\<lparr>dn_view_id := v, dn_parent := moved_parent a start hook (dn_parent orig)\<rparr> \<and>
        (v = dn_view_id orig \<or> v = None)) \<and>
     (dn_view_id orig \<noteq> None \<longrightarrow> innermost_view ns (Some j) = Some (dn_view_id orig))"

definition copied ::
    "('a, 'l) dispatch_tree \<Rightarrow> ('a, 'l) dispatch_tree \<Rightarrow> nat \<Rightarrow> nat \<Rightarrow> nat option \<Rightarrow> ('a, 'l) copy_state \<Rightarrow> bool" where
  "copied t source a m focus st \<longleftrightarrow>
     (let t' = cp_target st; start = length (dt_nodes t)
      in length (dt_nodes t') = start + (m - a) \<and> take start (dt_nodes t') = dt_nodes t \<and>
         (\<forall>j. a \<le> j \<and> j < m \<longrightarrow>
            copy_of (dt_nodes t') a start (active_node_id t) (dt_nodes source ! j) (j - a + start)) \<and>
         dt_node_stack t' = dt_node_stack t \<and> dt_context_stack t' = dt_context_stack t \<and>
         dt_view_stack t' = dt_view_stack t \<and> dt_keymap t' = dt_keymap t \<and> dt_ok t' \<and>
         length (dt_nodes (cp_source st)) = length (dt_nodes source) \<and>
         (\<forall>j<length (dt_nodes source). dt_nodes (cp_source st) ! j =
            (if a \<le> j \<and> j < m then without_listeners (dt_nodes source ! j) else dt_nodes source ! j)) \<and>
         (cp_contains_focus st \<longleftrightarrow> focus \<noteq> None \<and> (\<exists>j. a \<le> j \<and> j < m \<and> dn_focus_id (dt_nodes source ! j) = focus)))"

text \<open>One more node keeps the copies made before.\<close>

lemma copy_of_snoc:
  "copy_of ns a start hook orig j \<Longrightarrow> nodes_ok ns \<Longrightarrow> j < length ns \<Longrightarrow> copy_of (ns @ [n]) a start hook orig j"
  using innermost_view_append [of ns "Some j" "[n]"] by (simp add: copy_of_def nth_append)

lemma copy_parent_None:
  assumes "nodes_ok ns" "j < length ns" "j < b"
  shows "copy_parent a b start None stack base hook (dn_parent (ns ! j)) so =
    Some (moved_parent a start hook (dn_parent (ns ! j)),
          case dn_parent (ns ! j) of Some p \<Rightarrow> if a \<le> p then so else 0 | None \<Rightarrow> 0)"
  using nodes_ok_parent [OF assms(1,2)] assms(3)
  by (cases "dn_parent (ns ! j)") (auto simp: copy_parent_def moved_parent_def)

lemma moved_parent_bound:
  assumes "nodes_ok ns" "j < length ns" "a \<le> j" "\<forall>i. hook = Some i \<longrightarrow> i < start"
    "moved_parent a start hook (dn_parent (ns ! j)) = Some p"
  shows "p < j - a + start"
  using assms nodes_ok_parent [OF assms(1,2)]
  by (cases "dn_parent (ns ! j)") (auto simp: moved_parent_def split: if_splits)


text \<open>Appending a node, with its ids entered into the maps.\<close>

definition add_node :: "'l dispatch_node \<Rightarrow> ('a, 'l) dispatch_tree \<Rightarrow> ('a, 'l) dispatch_tree" where
  "add_node n t = t\<lparr>
     dt_focusable := (case dn_focus_id n of Some f \<Rightarrow> (dt_focusable t)(f \<mapsto> length (dt_nodes t)) | None \<Rightarrow> dt_focusable t),
     dt_views := (case dn_view_id n of Some v \<Rightarrow> (dt_views t)(v \<mapsto> length (dt_nodes t)) | None \<Rightarrow> dt_views t),
     dt_nodes := dt_nodes t @ [n]\<rparr>"

lemma ids_ok_snoc:
  "ids_ok f ns m \<Longrightarrow> ids_ok f (ns @ [n]) (case f n of Some x \<Rightarrow> m(x \<mapsto> length ns) | None \<Rightarrow> m)"
  unfolding ids_ok_def by (auto simp: nth_append split: option.splits if_splits)

lemma add_node_ok:
  assumes ok: "dt_ok t" and p: "\<forall>p. dn_parent n = Some p \<longrightarrow> p < length (dt_nodes t)"
  shows "dt_ok (add_node n t)"
proof (rule dt_okI)
  show "stacks_at (add_node n t) (active_node_id t)"
    by (rule stacks_at_append [where t = t and ms = "[n]"]) (use ok in \<open>simp_all add: dt_ok_def add_node_def\<close>)
  show "nodes_ok (dt_nodes (add_node n t))"
    using nodes_ok_append [of "dt_nodes t" "[n]"] ok p by (simp add: dt_ok_def add_node_def)
qed (use ok in \<open>simp_all add: dt_ok_def add_node_def ids_ok_snoc\<close>)

lemma copy_of_new:
  assumes n: "nodes_ok ns" and p: "\<forall>p. moved_parent a start hook (dn_parent orig) = Some p \<longrightarrow> p < length ns"
    and inner: "dn_view_id orig = None \<or> innermost_view ns (moved_parent a start hook (dn_parent orig)) = Some inner"
    and v: "v = (if dn_view_id orig \<noteq> None \<and> inner = dn_view_id orig then None else dn_view_id orig)"
  shows "copy_of (ns @ [orig\<lparr>dn_view_id := v, dn_parent := moved_parent a start hook (dn_parent orig)\<rparr>]) a start hook orig (length ns)"
proof -
  let ?n = "orig\<lparr>dn_view_id := v, dn_parent := moved_parent a start hook (dn_parent orig)\<rparr>"
  have "innermost_view (ns @ [?n]) (Some (length ns)) =
      (if v \<noteq> None then Some v else innermost_view ns (moved_parent a start hook (dn_parent orig)))"
    by (subst innermost_view.simps) (simp add: innermost_view_append [OF n p])
  moreover have "dn_view_id orig \<noteq> None \<longrightarrow>
      (if v \<noteq> None then Some v else innermost_view ns (moved_parent a start hook (dn_parent orig))) = Some (dn_view_id orig)"
    using inner v by (auto split: if_splits)
  ultimately have "dn_view_id orig \<noteq> None \<longrightarrow> innermost_view (ns @ [?n]) (Some (length ns)) = Some (dn_view_id orig)"
    by simp
  moreover have "v = dn_view_id orig \<or> v = None"
    using v by simp
  ultimately show ?thesis
    unfolding copy_of_def nth_append_length by blast
qed

lemma copy_node_ok:
  assumes c: "copied t source a m focus st" and ok: "dt_ok t" and so: "nodes_ok (dt_nodes source)"
    and r: "a \<le> m" "m < b" "b \<le> length (dt_nodes source)"
  shows "\<exists>st'. copy_node a b (length (dt_nodes t)) None base (active_node_id t) focus m st = Some st' \<and>
    copied t source a (Suc m) focus st'"
proof -
  let ?start = "length (dt_nodes t)" and ?orig = "dt_nodes source ! m" and ?t = "cp_target st"
  let ?p = "moved_parent a ?start (active_node_id t) (dn_parent ?orig)"
  have m: "m < length (dt_nodes source)" using r by simp
  have okt: "dt_ok ?t" and len: "length (dt_nodes ?t) = m - a + ?start" and take: "take ?start (dt_nodes ?t) = dt_nodes t"
    using c by (simp_all add: copied_def Let_def)
  then have nt: "nodes_ok (dt_nodes ?t)" by (simp add: dt_ok_def)
  have hook: "\<forall>i. active_node_id t = Some i \<longrightarrow> i < ?start"
    using ok by (simp add: dt_ok_def stacks_at_def)
  have pb: "\<forall>p. ?p = Some p \<longrightarrow> p < length (dt_nodes ?t)"
    using moved_parent_bound [OF so m r(1) hook] len by simp
  obtain inner where inner: "innermost_view (dt_nodes ?t) ?p = Some inner"
    using innermost_view_total [OF nt pb] by blast
  define inner' where "inner' = (if dn_view_id ?orig = None then None else inner)"
  define v where "v = (if dn_view_id ?orig \<noteq> None \<and> inner' = dn_view_id ?orig then None else dn_view_id ?orig)"
  let ?n = "?orig\<lparr>dn_view_id := v, dn_parent := ?p\<rparr>"
  have src: "index_at (dt_nodes (cp_source st)) m = Some ?orig"
    using c m by (simp add: copied_def Let_def)
  have "\<exists>st'. copy_node a b ?start None base (active_node_id t) focus m st = Some st' \<and> cp_target st' = add_node ?n ?t \<and>
      cp_source st' = (cp_source st)\<lparr>dt_nodes := (dt_nodes (cp_source st))[m := without_listeners ?orig]\<rparr> \<and>
      cp_contains_focus st' = (cp_contains_focus st \<or> dn_focus_id ?orig \<noteq> None \<and> dn_focus_id ?orig = focus)"
    using inner by (simp add: copy_node_def Let_def src copy_parent_None [OF so m r(2)] v_def inner'_def
        add_node_def without_listeners_def cong: if_cong)
  then obtain st' where st': "copy_node a b ?start None base (active_node_id t) focus m st = Some st'"
    and e: "cp_target st' = add_node ?n ?t"
      "cp_source st' = (cp_source st)\<lparr>dt_nodes := (dt_nodes (cp_source st))[m := without_listeners ?orig]\<rparr>"
      "cp_contains_focus st' = (cp_contains_focus st \<or> dn_focus_id ?orig \<noteq> None \<and> dn_focus_id ?orig = focus)"
    by blast
  have old: "copy_of (dt_nodes ?t @ [?n]) a ?start (active_node_id t) (dt_nodes source ! j) (j - a + ?start)"
    if "a \<le> j" "j < m" for j
    using c that by (intro copy_of_snoc nt) (auto simp: copied_def Let_def)
  have new: "copy_of (dt_nodes ?t @ [?n]) a ?start (active_node_id t) ?orig (m - a + ?start)"
    using copy_of_new [OF nt pb, of inner' v] inner v_def inner'_def len by simp
  have "copied t source a (Suc m) focus st'"
    unfolding copied_def Let_def
  proof (intro conjI)
    show "dt_ok (cp_target st')" using add_node_ok [OF okt, of ?n] pb e(1) by simp
    show "\<forall>j. a \<le> j \<and> j < Suc m \<longrightarrow>
        copy_of (dt_nodes (cp_target st')) a ?start (active_node_id t) (dt_nodes source ! j) (j - a + ?start)"
      using old new by (auto simp: less_Suc_eq e(1) add_node_def)
    show "\<forall>j<length (dt_nodes source). dt_nodes (cp_source st') ! j =
        (if a \<le> j \<and> j < Suc m then without_listeners (dt_nodes source ! j) else dt_nodes source ! j)"
      using c m r(1) by (auto simp: e(2) copied_def Let_def nth_list_update less_Suc_eq)
    show "cp_contains_focus st' \<longleftrightarrow> focus \<noteq> None \<and> (\<exists>j. a \<le> j \<and> j < Suc m \<and> dn_focus_id (dt_nodes source ! j) = focus)"
      using c r(1) by (auto simp: e(3) copied_def Let_def less_Suc_eq)
  qed (use c e r(1) in \<open>simp_all add: copied_def Let_def add_node_def Suc_diff_le\<close>)
  then show ?thesis using st' by blast
qed


lemma copy_loop_ok:
  assumes ok: "dt_ok t" and so: "nodes_ok (dt_nodes source)" and b: "b \<le> length (dt_nodes source)"
  shows "a \<le> m \<Longrightarrow> m \<le> b \<Longrightarrow>
    \<exists>st. for_each (copy_node a b (length (dt_nodes t)) None base (active_node_id t) focus) [a..<m]
           \<lparr>cp_target = t, cp_source = source, cp_still_open = 0, cp_contains_focus = False\<rparr> = Some st \<and>
         copied t source a m focus st"
proof (induction m rule: dec_induct)
  case base
  then show ?case
    using ok by (auto simp: copied_def Let_def)
next
  case (step m)
  then obtain st where "for_each (copy_node a b (length (dt_nodes t)) None base (active_node_id t) focus) [a..<m]
      \<lparr>cp_target = t, cp_source = source, cp_still_open = 0, cp_contains_focus = False\<rparr> = Some st"
    "copied t source a m focus st"
    by auto
  then show ?case
    using copy_node_ok [OF _ ok so, of a m focus st b base] step b by (auto simp: for_each_append)
qed

text \<open>The path of a copy: the active path, then the original's path within the stretch, moved.\<close>

lemma copied_path:
  assumes c: "copied t source a b focus st" and ok: "dt_ok t" and so: "nodes_ok (dt_nodes source)"
    and b: "b \<le> length (dt_nodes source)"
  shows "a \<le> j \<Longrightarrow> j < b \<Longrightarrow>
    path_of (dt_nodes (cp_target st)) (j - a + length (dt_nodes t)) =
      dt_node_stack t @ map (\<lambda>i. i - a + length (dt_nodes t)) (filter ((\<le>) a) (path_of (dt_nodes source) j))"
proof (induction j rule: less_induct)
  case (less j)
  let ?start = "length (dt_nodes t)" and ?ns = "dt_nodes (cp_target st)"
  have j: "j < length (dt_nodes source)" using less.prems b by simp
  obtain rest where ns: "?ns = dt_nodes t @ rest"
    using c unfolding copied_def Let_def by (metis append_take_drop_id)
  have n: "nodes_ok ?ns" and new: "j - a + ?start < length ?ns"
    using c less.prems by (auto simp: copied_def Let_def dt_ok_def)
  have s: "stacks_at t (active_node_id t)" using ok by (simp add: dt_ok_def)
  have par: "dn_parent (?ns ! (j - a + ?start)) = moved_parent a ?start (active_node_id t) (dn_parent (dt_nodes source ! j))"
    using c less.prems by (auto simp: copied_def Let_def copy_of_def)
  have path: "path_of ?ns (j - a + ?start) = active_path ?ns (dn_parent (?ns ! (j - a + ?start))) @ [j - a + ?start]"
    using active_path_child [OF n new] by (simp add: active_path_def)
  have hook: "active_path ?ns (active_node_id t) = dt_node_stack t"
    using s by (simp add: ns active_path_append stacks_at_def)
  show ?case
  proof (cases "\<exists>p. dn_parent (dt_nodes source ! j) = Some p \<and> a \<le> p")
    case True
    then obtain p where p: "dn_parent (dt_nodes source ! j) = Some p" "a \<le> p" by blast
    then show ?thesis
      using less.IH [of p] less.prems nodes_ok_parent [OF so j p(1)] path par
      by (simp add: moved_parent_def active_path_def path_of_child)
  next
    case False
    then have "filter ((\<le>) a) (path_of (dt_nodes source) j) = [j]"
      using less.prems nodes_ok_parent [OF so j]
      by (cases "dn_parent (dt_nodes source ! j)") (auto simp: path_of_root path_of_child filter_empty_conv dest!: path_of_le)
    moreover have "moved_parent a ?start (active_node_id t) (dn_parent (dt_nodes source ! j)) = active_node_id t"
      using False by (auto simp: moved_parent_def split: option.split)
    ultimately show ?thesis
      using path par hook by simp
  qed
qed

lemma copied_contexts:
  assumes c: "copied t source a b focus st" and ok: "dt_ok t" and so: "nodes_ok (dt_nodes source)"
    and b: "b \<le> length (dt_nodes source)" and j: "a \<le> j" "j < b"
  shows "contexts_along (cp_target st) (path_of (dt_nodes (cp_target st)) (j - a + length (dt_nodes t))) =
      dt_context_stack t @ contexts_along source (filter ((\<le>) a) (path_of (dt_nodes source) j))"
proof -
  let ?start = "length (dt_nodes t)" and ?ns = "dt_nodes (cp_target st)" and ?in = "filter ((\<le>) a) (path_of (dt_nodes source) j)"
  obtain rest where ns: "?ns = dt_nodes t @ rest"
    using c unfolding copied_def Let_def by (metis append_take_drop_id)
  have s: "stacks_at t (active_node_id t)" using ok by (simp add: dt_ok_def)
  then have "\<forall>i\<in>set (dt_node_stack t). i < ?start"
    unfolding stacks_at_def using active_path_bound by metis
  then have "carried dn_context ?ns (dt_node_stack t) = dt_context_stack t"
    using s by (simp add: ns carried_append_nodes stacks_at_def)
  moreover have "carried dn_context ?ns (map (\<lambda>i. i - a + ?start) ?in) = carried dn_context (dt_nodes source) ?in"
  proof -
    have "dn_context (?ns ! (i - a + ?start)) = dn_context (dt_nodes source ! i)" if "i \<in> set ?in" for i
      using c that j path_of_le [of i "dt_nodes source" j] by (auto simp: copied_def Let_def copy_of_def)
    then show ?thesis
      unfolding carried_def map_filter_def by (auto simp: filter_map comp_def intro!: filter_cong map_cong)
  qed
  ultimately show ?thesis
    by (simp add: contexts_along_carried copied_path [OF c ok so b j] carried_append)
qed

lemma copied_node:
  assumes "copied t source a b focus st" "a \<le> j" "j < b"
  shows "dn_focus_id (dt_nodes (cp_target st) ! (j - a + length (dt_nodes t))) = dn_focus_id (dt_nodes source ! j) \<and>
    dn_key_listeners (dt_nodes (cp_target st) ! (j - a + length (dt_nodes t))) = dn_key_listeners (dt_nodes source ! j) \<and>
    dn_action_listeners (dt_nodes (cp_target st) ! (j - a + length (dt_nodes t))) = dn_action_listeners (dt_nodes source ! j) \<and>
    dn_modifiers_listeners (dt_nodes (cp_target st) ! (j - a + length (dt_nodes t))) = dn_modifiers_listeners (dt_nodes source ! j)"
proof -
  have "copy_of (dt_nodes (cp_target st)) a (length (dt_nodes t)) (active_node_id t) (dt_nodes source ! j) (j - a + length (dt_nodes t))"
    using assms by (simp add: copied_def Let_def)
  then show ?thesis
    by (auto simp: copy_of_def)
qed

lemma copied_source_parents:
  assumes "copied t source a b focus st"
  shows "map dn_parent (dt_nodes (cp_source st)) = map dn_parent (dt_nodes source)"
  using assms by (intro nth_equalityI) (auto simp: copied_def Let_def without_listeners_def)

lemma reuse_subtree_ok:
  assumes ok: "dt_ok t" and so: "nodes_ok (dt_nodes source)" and r: "a \<le> b" "b \<le> length (dt_nodes source)"
  shows "\<exists>st. copied t source a b focus st \<and>
    reuse_subtree t source a b focus = Some (cp_target st, cp_source st,
      \<lparr>rs_old_start = a, rs_old_end = b, rs_new_start = length (dt_nodes t), rs_new_end = length (dt_nodes t) + (b - a),
       rs_contains_focus = cp_contains_focus st\<rparr>)"
proof -
  obtain st where "for_each (copy_node a b (length (dt_nodes t)) None (length (dt_node_stack t)) (active_node_id t) focus) [a..<b]
      \<lparr>cp_target = t, cp_source = source, cp_still_open = 0, cp_contains_focus = False\<rparr> = Some st"
    "copied t source a b focus st"
    using copy_loop_ok [OF ok so r(2,1)] by blast
  then show ?thesis
    by (cases "dt_node_stack t = []")
      (auto simp: reuse_subtree_def copy_nodes_def Let_def active_node_id_def list_last_def last_conv_nth intro!: exI [of _ st])
qed

end
