(* ===== verification/KeyDispatch_Properties.thy ===== *)
theory KeyDispatch_Properties
  imports DispatchStacks
begin

text \<open>
  The properties of key dispatch (\<open>gpui/src/key_dispatch.rs\<close>, \<open>gpui/src/fast/dispatch.rs\<close>): what happens to the
  keystrokes that are pending, what the stacks of the dispatch tree hold while a frame is built, and what a copied
  stretch of nodes keeps.
\<close>

section \<open>Samples\<close>

definition run_actions :: "nat action_ops" where
  "run_actions = \<lparr>app_type_id = (\<lambda>a. a), app_name = (\<lambda>_. ''app::Run''), app_eq = (=)\<rparr>"

definition stroke :: "string \<Rightarrow> keystroke" where
  "stroke key = \<lparr>ks_modifiers = no_modifiers, ks_key = key, ks_key_char = None\<rparr>"

definition binding_on :: "nat \<Rightarrow> string list \<Rightarrow> nat key_binding" where
  "binding_on a keys = \<lparr>kb_action = AppAction a, kb_keystrokes = map stroke keys, kb_context_predicate = None, kb_meta = None,
     kb_action_input = None\<rparr>"

definition chord_keymap :: "nat keymap" where
  "chord_keymap = new_keymap run_actions [binding_on 1 [''a'', ''b'', ''c''], binding_on 2 [''d'']]"

definition chord_tree :: "(nat, nat) dispatch_tree" where
  "chord_tree = fst (push_node (dt_new chord_keymap))"

section \<open>Keys\<close>

text \<open>
  C6: Dispatching a key never loses or reorders a pending keystroke. The pending input is a sequence of segments and
  a rest. Each segment is replayed, as its last keystroke with its bindings, and is the longest bound prefix of what
  was left, or one unbound keystroke; the rest with the new key stays pending, runs its bindings, or (when no rest is
  left) is an unbound key. No shorter replay would have matched. Flushing replays all of the input in such segments.
\<close>

theorem keys_are_replayed_in_order:
  assumes "path_ok t path"
  shows "(\<exists>segs rest. input = concat segs @ rest \<and> greedy (\<lambda>s. bound_at ops t path s \<noteq> []) segs rest \<and>
      (rest = [] \<or> matches_at ops t path (rest @ [k])) \<and>
      \<not> (\<exists>i<length segs. matches_at ops t path (concat (drop i segs) @ rest @ [k])) \<and>
      dispatch_key ops t path input k =
        Some ((outcome_of ops t path (rest @ [k]))\<lparr>dr_to_replay := map (replay_of ops t path) segs\<rparr>)) \<and>
    (input = [] \<or>
     (\<exists>segs. concat segs = input \<and> greedy (\<lambda>s. bound_at ops t path s \<noteq> []) segs [] \<and>
        flush_dispatch ops t path input = Some (map (replay_of ops t path) segs)))"
  using dispatch_key_ok [OF assms, of input ops k] flush_dispatch_ok [OF assms, of input ops] by blast

theorem keys_are_replayed_in_order_witness:
  "\<exists>segs rest. [stroke ''a'', stroke ''b''] = concat segs @ rest \<and>
     dispatch_key run_actions chord_tree [0] [stroke ''a'', stroke ''b''] (stroke ''d'') =
        Some ((outcome_of run_actions chord_tree [0] (rest @ [stroke ''d'']))
          \<lparr>dr_to_replay := map (replay_of run_actions chord_tree [0]) segs\<rparr>)"
proof -
  have "path_ok chord_tree [0]" by code_simp
  from keys_are_replayed_in_order [OF this, of "[stroke ''a'', stroke ''b'']" run_actions "stroke ''d''"]
  show ?thesis by blast
qed

text \<open>
  In the sample, \<open>a\<close> and \<open>b\<close> start a binding that \<open>d\<close> does not complete: both are replayed unbound, and \<open>d\<close> runs its
  own binding.
\<close>

lemma chord_sample:
  "map_option (\<lambda>r. (map (\<lambda>p. (rp_keystroke p, length (rp_bindings p))) (dr_to_replay r), dr_pending r, dr_bindings r))
     (dispatch_key run_actions chord_tree [0] [stroke ''a'', stroke ''b''] (stroke ''d'')) =
   Some ([(stroke ''a'', 0), (stroke ''b'', 0)], [], [binding_on 2 [''d'']])"
  by code_simp

section \<open>The tree of a frame\<close>


lemma dt_new_ok: "dt_ok (dt_new km)"
  by (simp add: dt_ok_def dt_new_def nodes_ok_def stacks_at_def active_node_id_def list_last_def ids_ok_def)







text \<open>What the invariant says of the operations that read the tree.\<close>

lemma dt_ok_path:
  assumes "dt_ok t" "i < length (dt_nodes t)"
  shows "dispatch_path t i = Some (path_of (dt_nodes t) i)"
    "path_contexts t (path_of (dt_nodes t) i) = Some (contexts_along t (path_of (dt_nodes t) i))"
proof -
  show "dispatch_path t i = Some (path_of (dt_nodes t) i)"
    using assms by (simp add: dispatch_path_ok dt_ok_def)
  have "\<forall>j\<in>set (path_of (dt_nodes t) i). j < length (dt_nodes t)"
    using assms(2) path_of_le by (metis le_less_trans)
  then show "path_contexts t (path_of (dt_nodes t) i) = Some (contexts_along t (path_of (dt_nodes t) i))"
    by (simp add: path_contexts_ok contexts_along_def)
qed

lemma dt_ok_active:
  assumes "dt_ok t" "active_node_id t = Some i"
  shows "i < length (dt_nodes t)" "path_of (dt_nodes t) i = dt_node_stack t"
    "contexts_along t (dt_node_stack t) = dt_context_stack t"
  using assms by (simp_all add: dt_ok_def stacks_at_def active_path_def contexts_along_carried)



text \<open>
  C40: \<open>set_active_node\<close> reaches any node of the tree from any other: it returns, changes no node, and leaves the
  stacks as the path to that node and the contexts and views on it.
\<close>

theorem set_active_node_reaches:
  assumes "dt_ok t" "i < length (dt_nodes t)"
  shows "\<exists>t'. set_active_node i t = Some t' \<and> dt_nodes t' = dt_nodes t \<and> dt_ok t' \<and>
    dispatch_path t i = Some (dt_node_stack t') \<and> path_contexts t (dt_node_stack t') = Some (dt_context_stack t')"
proof -
  obtain t' where t': "set_active_node i t = Some t'" "dt_ok t'" "active_node_id t' = Some i" "dt_nodes t' = dt_nodes t"
    using set_active_node_ok [OF assms] by blast
  have "path_of (dt_nodes t) i = dt_node_stack t'" "contexts_along t (dt_node_stack t') = dt_context_stack t'"
    using dt_ok_active [OF t'(2,3)] t'(4) by (simp_all add: contexts_along_def)
  then show ?thesis
    using t' dt_ok_path [OF assms] by auto
qed

theorem set_active_node_reaches_witness:
  "\<exists>t'. set_active_node 0 (fst (push_node chord_tree)) = Some t' \<and> dt_node_stack t' = [0]"
proof -
  have "dt_ok (fst (push_node chord_tree))"
    by (simp add: chord_tree_def push_node_ok dt_new_ok)
  moreover have "0 < length (dt_nodes (fst (push_node chord_tree)))" by (simp add: push_node_def Let_def)
  ultimately obtain t' where "set_active_node 0 (fst (push_node chord_tree)) = Some t'"
    "dispatch_path (fst (push_node chord_tree)) 0 = Some (dt_node_stack t')"
    using set_active_node_reaches by blast
  moreover have "dispatch_path (fst (push_node chord_tree)) 0 = Some [0]" by code_simp
  ultimately show ?thesis by auto
qed


section \<open>Reused nodes\<close>

text \<open>
  C7: Copying a stretch of last frame's nodes hangs it off the active node without touching the stacks or the nodes
  before it. A copied node keeps its focus id and its listeners; its dispatch path is the active path followed by its
  path within the stretch, and so are its key contexts. The report says whether the focus is in the stretch, and the
  source keeps its nodes.
\<close>

theorem reused_nodes_keep_their_paths:
  assumes "dt_ok t" "nodes_ok (dt_nodes source)" "a \<le> b" "b \<le> length (dt_nodes source)"
  shows "\<exists>t' source' r. reuse_subtree t source a b focus = Some (t', source', r) \<and> dt_ok t' \<and>
    dt_nodes t = take (length (dt_nodes t)) (dt_nodes t') \<and> length (dt_nodes t') = length (dt_nodes t) + (b - a) \<and>
    dt_node_stack t' = dt_node_stack t \<and> dt_context_stack t' = dt_context_stack t \<and> dt_view_stack t' = dt_view_stack t \<and>
    (\<forall>j. a \<le> j \<and> j < b \<longrightarrow>
      (let new = refresh_node_id r j; inside = filter ((\<le>) a) (path_of (dt_nodes source) j);
           path = dt_node_stack t @ map (refresh_node_id r) inside
       in dispatch_path t' new = Some path \<and>
          path_contexts t' path = Some (dt_context_stack t @ contexts_along source inside) \<and>
          dn_focus_id (dt_nodes t' ! new) = dn_focus_id (dt_nodes source ! j) \<and>
          dn_key_listeners (dt_nodes t' ! new) = dn_key_listeners (dt_nodes source ! j) \<and>
          dn_action_listeners (dt_nodes t' ! new) = dn_action_listeners (dt_nodes source ! j) \<and>
          dn_modifiers_listeners (dt_nodes t' ! new) = dn_modifiers_listeners (dt_nodes source ! j))) \<and>
    (rs_contains_focus r \<longleftrightarrow> focus \<noteq> None \<and> (\<exists>j. a \<le> j \<and> j < b \<and> dn_focus_id (dt_nodes source ! j) = focus)) \<and>
    map dn_parent (dt_nodes source') = map dn_parent (dt_nodes source)"
proof -
  obtain st where c: "copied t source a b focus st"
    and e: "reuse_subtree t source a b focus = Some (cp_target st, cp_source st,
      \<lparr>rs_old_start = a, rs_old_end = b, rs_new_start = length (dt_nodes t), rs_new_end = length (dt_nodes t) + (b - a),
       rs_contains_focus = cp_contains_focus st\<rparr>)"
    using reuse_subtree_ok [OF assms] by blast
  define r where "r = \<lparr>rs_old_start = a, rs_old_end = b, rs_new_start = length (dt_nodes t),
    rs_new_end = length (dt_nodes t) + (b - a), rs_contains_focus = cp_contains_focus st\<rparr>"
  have shift: "refresh_node_id r = (\<lambda>i. i - a + length (dt_nodes t))"
    by (simp add: refresh_node_id_def fun_eq_iff r_def)
  have ok: "dt_ok (cp_target st)" and len: "length (dt_nodes (cp_target st)) = length (dt_nodes t) + (b - a)"
    using c by (simp_all add: copied_def Let_def)
  have path: "dispatch_path (cp_target st) (refresh_node_id r j) =
        Some (dt_node_stack t @ map (refresh_node_id r) (filter ((\<le>) a) (path_of (dt_nodes source) j)))"
      "path_contexts (cp_target st) (dt_node_stack t @ map (refresh_node_id r) (filter ((\<le>) a) (path_of (dt_nodes source) j))) =
        Some (dt_context_stack t @ contexts_along source (filter ((\<le>) a) (path_of (dt_nodes source) j)))"
    if "a \<le> j" "j < b" for j
    using dt_ok_path [OF ok, of "j - a + length (dt_nodes t)"] copied_path [OF c assms(1,2,4) that]
      copied_contexts [OF c assms(1,2,4) that] that len by (simp_all add: shift)
  note same = copied_node [OF c, folded fun_cong [OF shift]]
  show ?thesis
    unfolding e r_def [symmetric]
    by (rule exI [of _ "cp_target st"], rule exI [of _ "cp_source st"], rule exI [of _ r])
      (use c ok len path same copied_source_parents [OF c] in \<open>simp add: Let_def copied_def r_def [THEN arg_cong [of _ _ rs_contains_focus]]\<close>)
qed

theorem reused_nodes_keep_their_paths_witness:
  "\<exists>t' source' r. reuse_subtree chord_tree (fst (push_node chord_tree)) 1 2 None = Some (t', source', r) \<and>
     dispatch_path t' (refresh_node_id r 1) = Some [0, refresh_node_id r 1]"
proof -
  have ok: "dt_ok chord_tree"
    unfolding chord_tree_def by (rule push_node_ok(1) [OF dt_new_ok])
  have nok: "nodes_ok (dt_nodes (fst (push_node chord_tree)))"
    using push_node_ok(1) [OF ok] by (simp add: dt_ok_def)
  have "(1::nat) \<le> 2" "2 \<le> length (dt_nodes (fst (push_node chord_tree)))" by code_simp+
  moreover have "dt_node_stack chord_tree = [0]" "filter ((\<le>) 1) (path_of (dt_nodes (fst (push_node chord_tree))) 1) = [1]"
    by code_simp+
  ultimately show ?thesis
    using reused_nodes_keep_their_paths [OF ok nok, of 1 2 None] by (fastforce simp: Let_def)
qed

section \<open>Lookups\<close>

lemma find_rev_filter: "find P (rev xs) = list_last (filter P xs)"
  by (induction xs rule: rev_induct) (simp_all add: list_last_def)

text \<open>
  \<open>focus_contains\<close> says whether the outer focus is the inner one or on the path to it; \<open>is_action_available\<close>
  whether a node on the path listens to the action's type; and \<open>highest_precedence_binding_for_action\<close> is the last
  of \<open>bindings_for_action\<close>.
\<close>

theorem focus_and_action_lookups:
  assumes "dt_ok t" "i < length (dt_nodes t)"
  shows "focus_contains t outer inner =
      Some (outer = inner \<or> (\<exists>p c. dt_focusable t outer = Some p \<and> dt_focusable t inner = Some c \<and>
        p \<in> set (path_of (dt_nodes t) c))) \<and>
    is_action_available ops t act i =
      Some (\<exists>j l. j \<in> set (path_of (dt_nodes t) i) \<and> (action_type_id ops act, l) \<in> set (dn_action_listeners (dt_nodes t ! j))) \<and>
    highest_precedence_binding_for_action ops t act cs = map_option list_last (dt_bindings_for_action ops t act cs)"
proof (intro conjI)
  have n: "nodes_ok (dt_nodes t)" and f: "\<And>x c. dt_focusable t x = Some c \<Longrightarrow> c < length (dt_nodes t)"
    using assms(1) by (auto simp: dt_ok_def ids_ok_def)
  show "focus_contains t outer inner =
      Some (outer = inner \<or> (\<exists>p c. dt_focusable t outer = Some p \<and> dt_focusable t inner = Some c \<and>
        p \<in> set (path_of (dt_nodes t) c)))"
    using ancestor_walk_ok [OF n f]
    by (cases "dt_focusable t inner") (auto simp: focus_contains_def ancestor_walk.simps [of _ _ None] split: option.splits)
  have "\<forall>j\<in>set (path_of (dt_nodes t) i). j < length (dt_nodes t)"
    using assms(2) path_of_le by (metis le_less_trans)
  then show "is_action_available ops t act i =
      Some (\<exists>j l. j \<in> set (path_of (dt_nodes t) i) \<and> (action_type_id ops act, l) \<in> set (dn_action_listeners (dt_nodes t ! j)))"
    using dt_ok_path [OF assms] by (auto simp: is_action_available_def listener_on_path_ok)
  show "highest_precedence_binding_for_action ops t act cs = map_option list_last (dt_bindings_for_action ops t act cs)"
    by (cases "Keymap.bindings_for_action ops (dt_keymap t) act")
      (simp_all add: highest_precedence_binding_for_action_def dt_bindings_for_action_def find_rev_filter)
qed

theorem focus_and_action_lookups_witness:
  "is_action_available run_actions chord_tree (AppAction 1) 0 = Some False \<and> focus_contains chord_tree 3 4 = Some False"
proof -
  have "dt_ok chord_tree" "0 < length (dt_nodes chord_tree)"
    by (simp_all add: chord_tree_def push_node_ok dt_new_ok) (simp add: push_node_def Let_def)
  from focus_and_action_lookups [OF this, of 3 4 run_actions "AppAction 1"] show ?thesis
    by (simp add: chord_tree_def push_node_def dt_new_def path_of_root default_node_def list_last_def)
qed

end
