(* ===== verification/ListState.thy ===== *)
theory ListState
  imports SumTree_Keyed Geometry
begin

text \<open>
  The state of a list element, \<open>gpui/src/elements/list.rs\<close>: a sum tree of items whose heights may be measured,
  hinted or unknown, and the position the list is scrolled to, kept as an item and an offset within it.

  Lengths are elements of an ordered field, with exact arithmetic; a focus handle is its id. \<open>Rc<RefCell<\<dots>>>\<close> is
  the state itself. Left out are the version of the state, which only the dependency tracking reads, the scroll
  handler (\<open>list_scroll\<close> returns the event it is called with) and the notes the getters leave for retained views.
  \<^const>\<open>None\<close> is a panic.
\<close>

section \<open>Data\<close>

datatype 'p list_item =
  Unmeasured "'p size2 option" "nat option"
| Measured "'p size2" "nat option"

fun with_measurement :: "'p list_item \<Rightarrow> 'p size2 \<Rightarrow> bool \<Rightarrow> 'p list_item" where
  "with_measurement (Unmeasured _ f) s ready = (if ready then Measured s f else Unmeasured (Some s) f)"
| "with_measurement (Measured _ f) s ready = (if ready then Measured s f else Unmeasured (Some s) f)"

fun item_size :: "'p list_item \<Rightarrow> 'p size2 option" where
  "item_size (Measured s _) = Some s"
| "item_size (Unmeasured _ _) = None"

fun item_size_hint :: "'p list_item \<Rightarrow> 'p size2 option" where
  "item_size_hint (Measured s _) = Some s"
| "item_size_hint (Unmeasured h _) = h"

fun item_focus_handle :: "'p list_item \<Rightarrow> nat option" where
  "item_focus_handle (Measured _ f) = f"
| "item_focus_handle (Unmeasured _ f) = f"

record 'p list_item_summary =
  ls_count :: nat
  ls_rendered_count :: nat
  ls_unrendered_count :: nat
  ls_height :: 'p
  ls_has_focus_handles :: bool
  ls_has_unknown_height :: bool

definition list_summary_zero :: "'p::linordered_field list_item_summary" where
  "list_summary_zero = \<lparr>ls_count = 0, ls_rendered_count = 0, ls_unrendered_count = 0, ls_height = 0,
     ls_has_focus_handles = False, ls_has_unknown_height = False\<rparr>"

definition list_summary_add ::
    "'p::linordered_field list_item_summary \<Rightarrow> 'p list_item_summary \<Rightarrow> 'p list_item_summary" where
  "list_summary_add a b = \<lparr>ls_count = ls_count a + ls_count b, ls_rendered_count = ls_rendered_count a + ls_rendered_count b,
     ls_unrendered_count = ls_unrendered_count a + ls_unrendered_count b, ls_height = ls_height a + ls_height b,
     ls_has_focus_handles = (ls_has_focus_handles a \<or> ls_has_focus_handles b),
     ls_has_unknown_height = (ls_has_unknown_height a \<or> ls_has_unknown_height b)\<rparr>"

fun list_item_summary_of :: "'p::linordered_field list_item \<Rightarrow> 'p list_item_summary" where
  "list_item_summary_of (Unmeasured h f) = \<lparr>ls_count = 1, ls_rendered_count = 0, ls_unrendered_count = 1,
     ls_height = (case h of Some s \<Rightarrow> height s | None \<Rightarrow> 0), ls_has_focus_handles = (f \<noteq> None),
     ls_has_unknown_height = (h = None)\<rparr>"
| "list_item_summary_of (Measured s f) = \<lparr>ls_count = 1, ls_rendered_count = 1, ls_unrendered_count = 0,
     ls_height = height s, ls_has_focus_handles = (f \<noteq> None), ls_has_unknown_height = False\<rparr>"

definition list_ops :: "('p::linordered_field list_item, 'p list_item_summary) summary_ops" where
  "list_ops = \<lparr>s_zero = list_summary_zero, s_add = list_summary_add, s_item = list_item_summary_of\<rparr>"

type_synonym 'p list_items = "('p list_item, 'p list_item_summary) node"

text \<open>The dimensions \<open>Count\<close> and \<open>Height\<close>, and the targets that seek them.\<close>

definition count_dim :: "('p::linordered_field list_item_summary, nat) dim_ops" where
  "count_dim = \<lparr>d_zero = 0, d_add = (\<lambda>n s. n + ls_count s)\<rparr>"

definition height_dim :: "('p::linordered_field list_item_summary, 'p) dim_ops" where
  "height_dim = \<lparr>d_zero = 0, d_add = (\<lambda>h s. h + ls_height s)\<rparr>"

definition count_height_dim :: "('p::linordered_field list_item_summary, nat \<times> 'p \<times> unit) dim_ops" where
  "count_height_dim = dimensions_dim count_dim height_dim unit_dim"

abbreviation list_sums :: "('p::linordered_field list_item_summary, 'p list_item_summary) dim_ops" where
  "list_sums \<equiv> summary_dim list_ops"

definition count_target :: "nat \<Rightarrow> nat seek_target" where
  "count_target n = ord_cmp n"

definition count_summary_target :: "nat \<Rightarrow> 'p::linordered_field list_item_summary seek_target" where
  "count_summary_target n = (\<lambda>s. ord_cmp n (ls_count s))"

definition height_summary_target :: "'p::linordered_field \<Rightarrow> 'p list_item_summary seek_target" where
  "height_summary_target h = (\<lambda>s. ord_cmp h (ls_height s))"

record 'p list_offset =
  lo_item_ix :: nat
  lo_offset_in_item :: 'p

datatype 'p pending_scroll = PendingAbsolute 'p | PendingProportional 'p

record 'p scroll_anchor =
  sa_position :: "'p list_offset"
  sa_pending :: "'p pending_scroll option"
  sa_provisional :: bool
  sa_pending_end :: bool

datatype scroll_anchor_mode = AnchorAbsolute | AnchorProportional

datatype follow_mode = NormalMode | TailMode

datatype follow_state = FollowNormal | FollowTail bool

fun is_following :: "follow_state \<Rightarrow> bool" where
  "is_following (FollowTail b) = b"
| "is_following FollowNormal = False"

fun has_stopped_following :: "follow_state \<Rightarrow> bool" where
  "has_stopped_following (FollowTail b) = (\<not> b)"
| "has_stopped_following FollowNormal = False"

fun start_following :: "follow_state \<Rightarrow> follow_state" where
  "start_following (FollowTail b) = FollowTail True"
| "start_following FollowNormal = FollowNormal"

fun stop_following :: "follow_state \<Rightarrow> follow_state" where
  "stop_following (FollowTail b) = FollowTail False"
| "stop_following FollowNormal = FollowNormal"

datatype list_alignment = TopAligned | BottomAligned

datatype list_measuring_behavior = MeasureAll bool | MeasureVisible

fun measuring_reset :: "list_measuring_behavior \<Rightarrow> list_measuring_behavior" where
  "measuring_reset (MeasureAll _) = MeasureAll False"
| "measuring_reset MeasureVisible = MeasureVisible"

record 'p list_state =
  li_last_layout_bounds :: "'p bounds option"
  li_last_padding :: "'p edges option"
  li_items :: "'p list_items"
  li_scroll_anchor :: "'p scroll_anchor option"
  li_alignment :: list_alignment
  li_overdraw :: 'p
  li_reset :: bool
  li_drag_start_height :: "'p option"
  li_measuring_behavior :: list_measuring_behavior
  li_follow_state :: follow_state

text \<open>\<open>unwrap_or_default\<close> of a rectangle and of paddings.\<close>

definition layout_bounds :: "'p::linordered_field list_state \<Rightarrow> 'p bounds" where
  "layout_bounds st = (case li_last_layout_bounds st of Some b \<Rightarrow> b
     | None \<Rightarrow> \<lparr>origin = \<lparr>px = 0, py = 0\<rparr>, bsize = \<lparr>width = 0, height = 0\<rparr>\<rparr>)"

definition layout_padding :: "'p::linordered_field list_state \<Rightarrow> 'p edges" where
  "layout_padding st = (case li_last_padding st of Some p \<Rightarrow> p
     | None \<Rightarrow> \<lparr>e_top = 0, e_right = 0, e_bottom = 0, e_left = 0\<rparr>)"

definition clamp_unit :: "'p::linordered_field \<Rightarrow> 'p" where
  "clamp_unit x = (if x < 0 then 0 else if 1 < x then 1 else x)"

section \<open>Operations\<close>

definition item_count :: "'p::linordered_field list_state \<Rightarrow> nat" where
  "item_count st = ls_count (node_summary (li_items st))"

definition logical_scroll_top :: "'p::linordered_field list_state \<Rightarrow> 'p list_offset" where
  "logical_scroll_top st =
     (case li_scroll_anchor st of
        Some anchor \<Rightarrow> sa_position anchor
      | None \<Rightarrow>
          (case li_alignment st of
             TopAligned \<Rightarrow> \<lparr>lo_item_ix = 0, lo_offset_in_item = 0\<rparr>
           | BottomAligned \<Rightarrow> \<lparr>lo_item_ix = item_count st, lo_offset_in_item = 0\<rparr>))"

definition scroll_top :: "'p::linordered_field list_state \<Rightarrow> 'p list_offset \<Rightarrow> 'p" where
  "scroll_top st logical =
     (let (start, _, _) = find list_sums (li_items st) (count_summary_target (lo_item_ix logical)) Right
      in ls_height start + lo_offset_in_item logical)"

definition is_provisional :: "'p list_state \<Rightarrow> bool" where
  "is_provisional st = (case li_scroll_anchor st of Some anchor \<Rightarrow> sa_provisional anchor | None \<Rightarrow> False)"

text \<open>The item a cursor over the counts finds at an index.\<close>

definition item_at :: "'p::linordered_field list_items \<Rightarrow> nat \<Rightarrow> 'p list_item option option" where
  "item_at its ix =
     do { (_, c) \<leftarrow> seek count_dim (cursor_new count_dim its) (count_target ix) Right;
          cursor_item c }"

definition pending_after :: "'p::linordered_field list_state \<Rightarrow> 'p list_offset \<Rightarrow> 'p pending_scroll option option" where
  "pending_after st position =
     (case Option.bind (li_scroll_anchor st) sa_pending of
        None \<Rightarrow> Some None
      | Some pending \<Rightarrow>
          if lo_item_ix position < item_count st then
            (case pending of
               PendingAbsolute _ \<Rightarrow> Some (Some (PendingAbsolute (lo_offset_in_item position)))
             | PendingProportional _ \<Rightarrow>
                 if is_provisional st then Some (Some (PendingAbsolute (lo_offset_in_item position)))
                 else
                   do { item \<leftarrow> item_at (li_items st) (lo_item_ix position);
                        Some (case Option.bind item item_size_hint of
                                Some s \<Rightarrow>
                                  if height s > 0
                                  then Some (PendingProportional (clamp_unit (lo_offset_in_item position / height s)))
                                  else None
                              | None \<Rightarrow> None) })
          else Some None)"

definition set_scroll_anchor :: "'p::linordered_field list_offset option \<Rightarrow> 'p list_state \<Rightarrow> 'p list_state option" where
  "set_scroll_anchor position st =
     (case position of
        None \<Rightarrow> Some (st\<lparr>li_scroll_anchor := None\<rparr>)
      | Some position \<Rightarrow>
          do { pending \<leftarrow> pending_after st position;
               Some (st\<lparr>li_scroll_anchor := Some \<lparr>sa_position = position, sa_pending = pending,
                        sa_provisional = False, sa_pending_end = False\<rparr>\<rparr>) })"

definition splice_anchor :: "nat \<Rightarrow> nat \<Rightarrow> nat \<Rightarrow> 'p::linordered_field scroll_anchor \<Rightarrow> 'p scroll_anchor" where
  "splice_anchor a b n anchor =
     (let anchor = (if sa_provisional anchor \<and> a \<le> lo_item_ix (sa_position anchor)
                    then anchor\<lparr>sa_provisional := False, sa_pending := None\<rparr> else anchor);
          ix = lo_item_ix (sa_position anchor)
      in if a \<le> ix \<and> ix < b
         then anchor\<lparr>sa_position := \<lparr>lo_item_ix = a, lo_offset_in_item = 0\<rparr>, sa_pending := None\<rparr>
         else if b \<le> ix
         then anchor\<lparr>sa_position := (sa_position anchor)\<lparr>lo_item_ix := ix - (b - a) + n\<rparr>\<rparr>
         else anchor)"

definition splice_focusable ::
    "nat \<Rightarrow> nat \<Rightarrow> nat option list \<Rightarrow> 'p::linordered_field list_state \<Rightarrow> 'p list_state option" where
  "splice_focusable a b focus_handles st =
     do { (new_items, c) \<leftarrow> slice list_ops count_dim (cursor_new count_dim (li_items st)) (count_target a) Right;
          (_, c) \<leftarrow> seek_forward count_dim c (count_target b) Right;
          new_items \<leftarrow> tree_extend list_ops new_items (map (Unmeasured None) focus_handles);
          (rest, _) \<leftarrow> suffix list_ops count_dim c;
          new_items \<leftarrow> append_tree list_ops new_items rest;
          Some (st\<lparr>li_items := new_items,
                   li_scroll_anchor := map_option (splice_anchor a b (length focus_handles)) (li_scroll_anchor st)\<rparr>) }"

definition list_splice :: "nat \<Rightarrow> nat \<Rightarrow> nat \<Rightarrow> 'p::linordered_field list_state \<Rightarrow> 'p list_state option" where
  "list_splice a b n st = splice_focusable a b (replicate n None) st"

definition list_new :: "nat \<Rightarrow> list_alignment \<Rightarrow> 'p::linordered_field \<Rightarrow> 'p list_state option" where
  "list_new n alignment overdraw =
     list_splice 0 0 n
       \<lparr>li_last_layout_bounds = None, li_last_padding = None, li_items = new_tree list_ops, li_scroll_anchor = None,
        li_alignment = alignment, li_overdraw = overdraw, li_reset = False, li_drag_start_height = None,
        li_measuring_behavior = MeasureVisible, li_follow_state = FollowNormal\<rparr>"

definition measure_all :: "'p list_state \<Rightarrow> 'p list_state" where
  "measure_all st = st\<lparr>li_measuring_behavior := MeasureAll False\<rparr>"

definition list_reset :: "nat \<Rightarrow> 'p::linordered_field list_state \<Rightarrow> 'p list_state option" where
  "list_reset element_count st =
     do { st \<leftarrow> set_scroll_anchor None
                  (st\<lparr>li_reset := True, li_measuring_behavior := measuring_reset (li_measuring_behavior st)\<rparr>);
          list_splice 0 (item_count st) element_count (st\<lparr>li_drag_start_height := None\<rparr>) }"

definition apply_uniform_item_height :: "'p::linordered_field \<Rightarrow> 'p list_state \<Rightarrow> 'p list_state option" where
  "apply_uniform_item_height h st =
     do { its \<leftarrow> tree_iter (li_items st);
          tree \<leftarrow> tree_extend list_ops (new_tree list_ops)
            (map (\<lambda>item. Unmeasured (Some (case item_size_hint item of Some s \<Rightarrow> s | None \<Rightarrow> \<lparr>width = 0, height = h\<rparr>))
                           (item_focus_handle item)) its);
          Some (st\<lparr>li_items := tree\<rparr>) }"

definition reset_with_uniform_height :: "nat \<Rightarrow> 'p::linordered_field \<Rightarrow> 'p list_state \<Rightarrow> 'p list_state option" where
  "reset_with_uniform_height element_count h st =
     do { st \<leftarrow> list_reset element_count st; apply_uniform_item_height h st }"

definition remeasure_anchor ::
    "nat \<Rightarrow> nat \<Rightarrow> scroll_anchor_mode \<Rightarrow> 'p::linordered_field list_items \<Rightarrow> 'p scroll_anchor \<Rightarrow> 'p scroll_anchor option" where
  "remeasure_anchor a b mode its anchor =
     (let position = sa_position anchor
      in if a \<le> lo_item_ix position \<and> lo_item_ix position < b then
           (case mode of
              AnchorAbsolute \<Rightarrow> Some (anchor\<lparr>sa_pending := Some (PendingAbsolute (lo_offset_in_item position))\<rparr>)
            | AnchorProportional \<Rightarrow>
                do { item \<leftarrow> item_at its (lo_item_ix position);
                     Some (case Option.bind item item_size of
                             Some s \<Rightarrow> anchor\<lparr>sa_pending := Some (PendingProportional
                               (if height s > 0 then clamp_unit (lo_offset_in_item position / height s) else 0))\<rparr>
                           | None \<Rightarrow> anchor) })
         else Some anchor)"

definition forget_measurement :: "'p list_item \<Rightarrow> 'p list_item" where
  "forget_measurement item = Unmeasured (item_size_hint item) (item_focus_handle item)"

definition remeasure_items_with_scroll_anchor ::
    "nat \<Rightarrow> nat \<Rightarrow> scroll_anchor_mode \<Rightarrow> 'p::linordered_field list_state \<Rightarrow> 'p list_state option" where
  "remeasure_items_with_scroll_anchor a b mode st =
     do { anchor \<leftarrow> (case li_scroll_anchor st of
            Some anchor \<Rightarrow> map_option Some (remeasure_anchor a b mode (li_items st) anchor) | None \<Rightarrow> Some None);
          (new_items, c) \<leftarrow> slice list_ops count_dim (cursor_new count_dim (li_items st)) (count_target a) Right;
          (invalidated, c) \<leftarrow> slice list_ops count_dim c (count_target b) Right;
          invalidated \<leftarrow> tree_iter invalidated;
          new_items \<leftarrow> tree_extend list_ops new_items (map forget_measurement invalidated);
          (rest, _) \<leftarrow> suffix list_ops count_dim c;
          new_items \<leftarrow> append_tree list_ops new_items rest;
          Some (st\<lparr>li_scroll_anchor := anchor, li_items := new_items,
                   li_measuring_behavior := measuring_reset (li_measuring_behavior st)\<rparr>) }"

definition remeasure :: "'p::linordered_field list_state \<Rightarrow> 'p list_state option" where
  "remeasure st = remeasure_items_with_scroll_anchor 0 (item_count st) AnchorProportional st"

definition remeasure_items :: "nat \<Rightarrow> nat \<Rightarrow> 'p::linordered_field list_state \<Rightarrow> 'p list_state option" where
  "remeasure_items a b st = remeasure_items_with_scroll_anchor a b AnchorAbsolute st"

definition is_scrolled_to_end :: "'p::linordered_field list_state \<Rightarrow> bool option" where
  "is_scrolled_to_end st =
     (case li_last_layout_bounds st of
        None \<Rightarrow> None
      | Some bounds \<Rightarrow>
          let summary = node_summary (li_items st)
          in if ls_has_unknown_height summary then None
             else
               let padding = layout_padding st;
                   content_height = ls_height summary + e_top padding + e_bottom padding;
                   scroll_max = max (content_height - height (bsize bounds)) 0
               in if scroll_max \<le> 0 then None
                  else Some (scroll_top st (logical_scroll_top st) \<ge> scroll_max))"


definition scroll_by :: "'p::linordered_field \<Rightarrow> 'p list_state \<Rightarrow> 'p list_state option" where
  "scroll_by distance st =
     (if distance = 0 then Some st
      else
        do { let current = logical_scroll_top st;
             let st = (if distance < 0 then st\<lparr>li_follow_state := stop_following (li_follow_state st)\<rparr> else st);
             (_, c) \<leftarrow> seek list_sums (cursor_new list_sums (li_items st)) (count_summary_target (lo_item_ix current)) Right;
             let start_pixel_offset = ls_height (cursor_start c) + lo_offset_in_item current;
             let new_pixel_offset = max (start_pixel_offset + distance) 0;
             (_, c) \<leftarrow> (if new_pixel_offset > start_pixel_offset
                       then seek_forward list_sums c (height_summary_target new_pixel_offset) Right
                       else seek list_sums c (height_summary_target new_pixel_offset) Right);
             set_scroll_anchor (Some \<lparr>lo_item_ix = ls_count (cursor_start c),
               lo_offset_in_item = new_pixel_offset - ls_height (cursor_start c)\<rparr>) st })"

definition scroll_to_end :: "'p::linordered_field list_state \<Rightarrow> 'p list_state option" where
  "scroll_to_end st = set_scroll_anchor (Some \<lparr>lo_item_ix = item_count st, lo_offset_in_item = 0\<rparr>) st"

definition pause_following_tail :: "'p list_state \<Rightarrow> 'p list_state" where
  "pause_following_tail st =
     (let st = (if is_following (li_follow_state st)
                then st\<lparr>li_scroll_anchor := map_option (sa_pending_end_update (\<lambda>_. False)) (li_scroll_anchor st)\<rparr> else st)
      in st\<lparr>li_follow_state := stop_following (li_follow_state st)\<rparr>)"

definition set_follow_mode :: "follow_mode \<Rightarrow> 'p::linordered_field list_state \<Rightarrow> 'p list_state option" where
  "set_follow_mode mode st =
     (case mode of
        NormalMode \<Rightarrow> Some ((pause_following_tail st)\<lparr>li_follow_state := FollowNormal\<rparr>)
      | TailMode \<Rightarrow> set_scroll_anchor (Some \<lparr>lo_item_ix = item_count st, lo_offset_in_item = 0\<rparr>)
                      (st\<lparr>li_follow_state := FollowTail True\<rparr>))"

definition is_following_tail :: "'p list_state \<Rightarrow> bool" where
  "is_following_tail st = (li_follow_state st = FollowTail True)"

definition scroll_to :: "'p::linordered_field list_offset \<Rightarrow> 'p list_state \<Rightarrow> 'p list_state option" where
  "scroll_to target st =
     (let target = (if lo_item_ix target \<ge> item_count st
                    then target\<lparr>lo_item_ix := item_count st, lo_offset_in_item := 0\<rparr> else target);
          st = (if lo_item_ix target < item_count st
                then st\<lparr>li_follow_state := stop_following (li_follow_state st)\<rparr> else st)
      in set_scroll_anchor (Some target) st)"

definition scroll_to_reveal_item :: "nat \<Rightarrow> 'p::linordered_field list_state \<Rightarrow> 'p list_state option" where
  "scroll_to_reveal_item ix st =
     (let current = logical_scroll_top st;
          view = (case li_last_layout_bounds st of Some b \<Rightarrow> height (bsize b) | None \<Rightarrow> 0);
          padding = layout_padding st
      in if ix \<le> lo_item_ix current
         then set_scroll_anchor (Some (current\<lparr>lo_item_ix := ix, lo_offset_in_item := 0\<rparr>)) st
         else
           do { (_, c) \<leftarrow> seek list_sums (cursor_new list_sums (li_items st)) (count_summary_target (ix + 1)) Right;
                let bottom = ls_height (cursor_start c) + e_top padding;
                let goal_top = max 0 (bottom - view + e_bottom padding);
                (_, c) \<leftarrow> seek list_sums c (height_summary_target goal_top) Left;
                let start_ix = ls_count (cursor_start c);
                let start_item_top = ls_height (cursor_start c);
                set_scroll_anchor (Some (if start_ix \<ge> lo_item_ix current
                  then current\<lparr>lo_item_ix := start_ix, lo_offset_in_item := goal_top - start_item_top\<rparr> else current)) st })"

definition bounds_for_item :: "nat \<Rightarrow> 'p::linordered_field list_state \<Rightarrow> 'p bounds option option" where
  "bounds_for_item ix st =
     (let bounds = layout_bounds st; logical = logical_scroll_top st
      in if ix < lo_item_ix logical then Some None
         else
           do { (_, c) \<leftarrow> seek count_height_dim (cursor_new count_height_dim (li_items st))
                            (dimensions_target (count_target (lo_item_ix logical))) Right;
                let top = fst (snd (cursor_start c)) + lo_offset_in_item logical;
                (_, c) \<leftarrow> seek_forward count_height_dim c (dimensions_target (count_target ix)) Right;
                item \<leftarrow> cursor_item c;
                Some (case item of
                        Some (Measured s _) \<Rightarrow>
                          if fst (cursor_start c) = ix then
                            let y = py (origin bounds) + fst (snd (cursor_start c)) - top
                            in Some (from_corners \<lparr>px = px (origin bounds), py = y\<rparr>
                                       \<lparr>px = px (bottom_right bounds), py = y + height s\<rparr>)
                          else None
                      | _ \<Rightarrow> None) })"

definition scrollbar_drag_started :: "'p::linordered_field list_state \<Rightarrow> 'p list_state" where
  "scrollbar_drag_started st = st\<lparr>li_drag_start_height := Some (ls_height (node_summary (li_items st)))\<rparr>"

definition scrollbar_drag_ended :: "'p list_state \<Rightarrow> 'p list_state" where
  "scrollbar_drag_ended st = st\<lparr>li_drag_start_height := None\<rparr>"

definition is_scrollbar_dragging :: "'p list_state \<Rightarrow> bool" where
  "is_scrollbar_dragging st = (li_drag_start_height st \<noteq> None)"

text \<open>The content height the scrollbar shows: frozen while it is dragged.\<close>

definition scrollbar_height :: "'p::linordered_field list_state \<Rightarrow> 'p" where
  "scrollbar_height st = (case li_drag_start_height st of Some h \<Rightarrow> h | None \<Rightarrow> ls_height (node_summary (li_items st)))"

definition max_scroll_offset :: "'p::linordered_field list_state \<Rightarrow> 'p" where
  "max_scroll_offset st = max (scrollbar_height st - height (bsize (layout_bounds st))) 0"

definition max_offset_for_scrollbar :: "'p::linordered_field list_state \<Rightarrow> 'p point" where
  "max_offset_for_scrollbar st = \<lparr>px = 0, py = max_scroll_offset st\<rparr>"

definition scroll_px_offset_for_scrollbar :: "'p::linordered_field list_state \<Rightarrow> 'p point option" where
  "scroll_px_offset_for_scrollbar st =
     (if li_scroll_anchor st = None \<and> li_alignment st = BottomAligned
      then Some \<lparr>px = 0, py = - max_scroll_offset st\<rparr>
      else
        do { let logical = logical_scroll_top st;
             (summary, _) \<leftarrow> cursor_summary list_sums list_sums (cursor_new list_sums (li_items st))
                                (count_summary_target (lo_item_ix logical)) Right;
             Some \<lparr>px = 0, py = - (ls_height summary + lo_offset_in_item logical)\<rparr> })"

text \<open>The position at a pixel offset, found in the tree.\<close>

definition offset_at_height :: "'p::linordered_field list_state \<Rightarrow> 'p \<Rightarrow> 'p list_offset" where
  "offset_at_height st y =
     (let (start, _, _) = find list_sums (li_items st) (height_summary_target y) Right
      in \<lparr>lo_item_ix = ls_count start, lo_offset_in_item = y - ls_height start\<rparr>)"

definition set_offset_from_scrollbar :: "'p::linordered_field point \<Rightarrow> 'p list_state \<Rightarrow> 'p list_state option" where
  "set_offset_from_scrollbar point st =
     (case li_last_layout_bounds st of
        None \<Rightarrow> Some st
      | Some bounds \<Rightarrow>
          let padding = layout_padding st;
              scroll_max = max (scrollbar_height st + e_top padding + e_bottom padding - height (bsize bounds)) 0;
              new_scroll_top = min (max (- py point) 0) scroll_max;
              dragged_to_end = (scroll_max > 0 \<and> new_scroll_top \<ge> max (scroll_max - 1) 0)
          in if dragged_to_end \<and> li_follow_state st \<noteq> FollowNormal
             then set_scroll_anchor (Some \<lparr>lo_item_ix = item_count st, lo_offset_in_item = 0\<rparr>)
                    (st\<lparr>li_follow_state := FollowTail True\<rparr>)
             else
               let st = st\<lparr>li_follow_state := stop_following (li_follow_state st)\<rparr>
               in if li_alignment st = BottomAligned \<and> new_scroll_top = scroll_max then set_scroll_anchor None st
                  else set_scroll_anchor (Some (offset_at_height st new_scroll_top)) st)"

definition item_is_above_viewport :: "nat \<Rightarrow> 'p::linordered_field list_state \<Rightarrow> bool option option" where
  "item_is_above_viewport ix st =
     (case li_last_layout_bounds st of
        None \<Rightarrow> Some None
      | Some view \<Rightarrow>
          if ix < lo_item_ix (logical_scroll_top st) then Some (Some True)
          else
            do { b \<leftarrow> bounds_for_item ix st;
                 Some (map_option (\<lambda>b. py (bottom_right b) \<le> py (origin view)) b) })"

definition item_is_below_viewport :: "nat \<Rightarrow> 'p::linordered_field list_state \<Rightarrow> bool option option" where
  "item_is_below_viewport ix st =
     (case li_last_layout_bounds st of
        None \<Rightarrow> Some None
      | Some view \<Rightarrow>
          if ix < lo_item_ix (logical_scroll_top st) then Some (Some False)
          else
            do { b \<leftarrow> bounds_for_item ix st;
                 Some (map_option (\<lambda>b. py (origin b) \<ge> py (bottom_right view)) b) })"

definition visible_range :: "'p::linordered_field list_items \<Rightarrow> 'p \<Rightarrow> 'p list_offset \<Rightarrow> (nat \<times> nat) option" where
  "visible_range its view logical =
     do { (_, c) \<leftarrow> seek list_sums (cursor_new list_sums its) (count_summary_target (lo_item_ix logical)) Right;
          let start_y = ls_height (cursor_start c) + lo_offset_in_item logical;
          (_, c) \<leftarrow> seek_forward list_sums c (height_summary_target (start_y + view)) Left;
          Some (lo_item_ix logical, ls_count (cursor_start c) + 1) }"

record list_scroll_event =
  ev_visible_range :: "nat \<times> nat"
  ev_count :: nat
  ev_is_scrolled :: bool
  ev_is_following_tail :: bool

text \<open>\<open>StateInner::scroll\<close>, with the event a scroll handler, if there is one, is called with.\<close>

definition list_scroll ::
    "bool \<Rightarrow> 'p::linordered_field list_offset \<Rightarrow> 'p \<Rightarrow> 'p point \<Rightarrow> 'p list_state
       \<Rightarrow> ('p list_state \<times> list_scroll_event option) option" where
  "list_scroll has_handler logical view delta st =
     (if li_reset st \<or> py delta = 0 then Some (st, None)
      else
        do { let padding = layout_padding st;
             let scroll_max = max (ls_height (node_summary (li_items st)) + e_top padding + e_bottom padding - view) 0;
             let new_scroll_top = min (max (scroll_top st logical - py delta) 0) scroll_max;
             st \<leftarrow> (if li_alignment st = BottomAligned \<and> new_scroll_top = scroll_max then set_scroll_anchor None st
                    else set_scroll_anchor (Some (offset_at_height st new_scroll_top)) st);
             let st = (if py delta > 0 then st\<lparr>li_follow_state := stop_following (li_follow_state st)\<rparr> else st);
             if has_handler then
               do { visible \<leftarrow> visible_range (li_items st) view logical;
                    Some (st, Some \<lparr>ev_visible_range = visible, ev_count = item_count st,
                                    ev_is_scrolled = (li_scroll_anchor st \<noteq> None),
                                    ev_is_following_tail = is_following_tail st\<rparr>) }
             else Some (st, None) })"


section \<open>The laws of the items\<close>

interpretation counts: dimension_laws list_ops count_dim
  by unfold_locales (simp_all add: list_ops_def count_dim_def list_summary_add_def list_summary_zero_def add.assoc)

interpretation sums: dimension_laws list_ops list_sums
  by (rule counts.summary_dim_laws)

interpretation heights: dimension_laws list_ops height_dim
  by unfold_locales (simp add: list_ops_def height_dim_def list_summary_add_def add.assoc)

interpretation tops: dimension_laws list_ops count_height_dim
  unfolding count_height_dim_def
  by (rule counts.dimensions_dim_laws counts.dimension_laws_axioms heights.dimension_laws_axioms counts.unit_dim_laws)+

definition item_height :: "'p::linordered_field list_item \<Rightarrow> 'p" where
  "item_height x = ls_height (list_item_summary_of x)"

definition height_before :: "'p::linordered_field list_item list \<Rightarrow> nat \<Rightarrow> 'p" where
  "height_before xs n = sum_list (map item_height (take n xs))"

lemma summary_count [simp]: "ls_count (list_item_summary_of x) = 1"
  by (cases x) simp_all

lemma list_ops_simps [simp]:
  "s_item list_ops x = list_item_summary_of x" "s_zero list_ops = list_summary_zero" "d_zero count_dim = 0"
  "d_add count_dim n s = n + ls_count s" "d_zero list_sums = list_summary_zero" "d_add list_sums a b = list_summary_add a b"
  "ls_count (list_summary_add a b) = ls_count a + ls_count b" "ls_height (list_summary_add a b) = ls_height a + ls_height b"
  "ls_count list_summary_zero = 0" "ls_height list_summary_zero = 0"
  by (simp_all add: list_ops_def count_dim_def summary_dim_def list_summary_add_def list_summary_zero_def)

lemma advance_counts [simp]: "counts.advance n xs = n + length xs"
  by (induction xs arbitrary: n) (simp_all add: counts.advance_Cons)

lemma advance_sums [simp]:
  "ls_count (sums.advance s xs) = ls_count s + length xs"
  "ls_height (sums.advance s xs) = ls_height s + sum_list (map item_height xs)"
  by (induction xs arbitrary: s) (simp_all add: sums.advance_Cons item_height_def)

lemma count_height_add:
  "d_add count_height_dim d s = (fst d + ls_count s, fst (snd d) + ls_height s, ())" "d_zero count_height_dim = (0, 0, ())"
  by (simp_all add: count_height_dim_def dimensions_dim_def height_dim_def unit_dim_def split: prod.splits)

lemma advance_tops:
  "tops.advance (n, h, u) xs = (n + length xs, h + sum_list (map item_height xs), ())"
  by (induction xs arbitrary: n h u) (simp_all add: tops.advance_Cons count_height_add item_height_def add.assoc)

lemma lsum_sums [simp]:
  "ls_count (counts.lsum xs) = length xs" "ls_height (counts.lsum xs) = sum_list (map item_height xs)"
proof -
  have "ls_count (counts.lsum xs) = length xs \<and> ls_height (counts.lsum xs) = sum_list (map item_height xs)"
  proof (cases "xs = []")
    case True
    then show ?thesis by (simp add: counts.lsum_Nil)
  next
    case False
    from sums.d_add_lsum [OF this, of list_summary_zero]
    have "list_summary_add list_summary_zero (counts.lsum xs) = sums.advance list_summary_zero xs"
      by simp
    then show ?thesis
      using advance_sums [of list_summary_zero xs] list_ops_simps by (metis add_0)
  qed
  then show "ls_count (counts.lsum xs) = length xs" "ls_height (counts.lsum xs) = sum_list (map item_height xs)"
    by simp_all
qed

text \<open>A height is unknown when some item has neither a size nor a hint.\<close>

lemma unknown_add:
  "ls_has_unknown_height (list_summary_add a b) \<longleftrightarrow> ls_has_unknown_height a \<or> ls_has_unknown_height b"
  "\<not> ls_has_unknown_height list_summary_zero"
  "ls_has_unknown_height (list_item_summary_of x) \<longleftrightarrow> item_size_hint x = None"
  by (simp_all add: list_summary_add_def list_summary_zero_def, cases x) simp_all

lemma advance_unknown:
  "ls_has_unknown_height (sums.advance s xs) \<longleftrightarrow> ls_has_unknown_height s \<or> (\<exists>x\<in>set xs. item_size_hint x = None)"
  by (induction xs arbitrary: s) (auto simp: sums.advance_Cons unknown_add)

lemma lsum_unknown: "ls_has_unknown_height (counts.lsum xs) \<longleftrightarrow> (\<exists>x\<in>set xs. item_size_hint x = None)"
proof (cases "xs = []")
  case False
  from arg_cong [OF sums.d_add_lsum [OF this, of list_summary_zero], of ls_has_unknown_height]
  show ?thesis
    by (simp add: unknown_add advance_unknown)
qed (simp add: counts.lsum_Nil unknown_add)

lemma height_before_0 [simp]: "height_before xs 0 = 0"
  by (simp add: height_before_def)

lemma height_before_Suc: "n < length xs \<Longrightarrow> height_before xs (Suc n) = height_before xs n + item_height (xs ! n)"
  by (simp add: height_before_def take_Suc_conv_app_nth)

lemma height_before_all: "length xs \<le> n \<Longrightarrow> height_before xs n = height_before xs (length xs)"
  by (simp add: height_before_def)

definition heights_ok :: "'p::linordered_field list_item list \<Rightarrow> bool" where
  "heights_ok xs \<longleftrightarrow> (\<forall>x\<in>set xs. 0 \<le> item_height x)"

lemma height_before_mono: "m \<le> n \<Longrightarrow> heights_ok xs \<Longrightarrow> height_before xs m \<le> height_before xs n"
proof (induction n rule: dec_induct)
  case (step n)
  have "height_before xs n \<le> height_before xs (Suc n)"
  proof (cases "n < length xs")
    case True
    then show ?thesis
      using step.prems by (simp add: height_before_Suc heights_ok_def)
  next
    case False
    then show ?thesis
      using height_before_all [of xs n] height_before_all [of xs "Suc n"] by simp
  qed
  then show ?case
    using step.IH step.prems by simp
qed simp

text \<open>A target that compares a growing measure fits every list of positions.\<close>

lemma mono_target_measure: "sorted_wrt (\<lambda>a b. f a \<le> f b) ds \<Longrightarrow> mono_target (\<lambda>d. ord_cmp n (f d)) ds"
  unfolding mono_target_def by (erule sorted_wrt_mono_rel [rotated]) auto

lemma ends_nth_sums:
  "i < length xs \<Longrightarrow> sums.ends s xs ! i = sums.advance s (take (Suc i) xs)"
  by (rule sums.ends_nth)

lemma mono_counts [simp]: "mono_target (count_target n) (counts.ends d xs)"
proof -
  have "sorted_wrt (\<lambda>a b. a \<le> b) (counts.ends d xs)"
    by (simp add: sorted_wrt_iff_nth_less counts.ends_nth)
  then show ?thesis
    using mono_target_measure [of "\<lambda>d. d"] by (simp add: count_target_def)
qed

lemma mono_count_sums [simp]: "mono_target (count_summary_target n) (sums.ends d xs)"
  unfolding count_summary_target_def
  by (rule mono_target_measure) (simp add: sorted_wrt_iff_nth_less sums.ends_nth)

lemma mono_height_sums:
  assumes "heights_ok xs"
  shows "mono_target (height_summary_target h) (sums.ends d xs)"
  unfolding height_summary_target_def
proof (rule mono_target_measure)
  show "sorted_wrt (\<lambda>a b. ls_height a \<le> ls_height b) (sums.ends d xs)"
    using height_before_mono [OF _ assms] by (simp add: sorted_wrt_iff_nth_less sums.ends_nth flip: height_before_def)
qed

lemma mono_tops [simp]: "mono_target (dimensions_target (count_target n)) (tops.ends d xs)"
proof (cases d)
  case (fields c h u)
  have "mono_target (\<lambda>p. ord_cmp n (fst p)) (tops.ends d xs)"
    by (rule mono_target_measure) (simp add: sorted_wrt_iff_nth_less tops.ends_nth advance_tops fields)
  then show ?thesis
    by (simp add: dimensions_target_def count_target_def)
qed

text \<open>The number of positions a seek passes over, when the positions passed over come first.\<close>

lemma takeWhile_count:
  assumes "k \<le> length ds" "\<And>i. i < k \<Longrightarrow> P (ds ! i)" "k < length ds \<Longrightarrow> \<not> P (ds ! k)"
  shows "length (takeWhile P ds) = k"
  using assms
proof (induction ds arbitrary: k)
  case (Cons d ds)
  show ?case
  proof (cases k)
    case 0
    then show ?thesis using Cons.prems(3) by simp
  next
    case (Suc k')
    then have "P d" using Cons.prems(2) [of 0] by simp
    moreover have "length (takeWhile P ds) = k'"
      using Cons.prems Suc by (intro Cons.IH) force+
    ultimately show ?thesis using Suc by simp
  qed
qed simp

lemma skip_counts: "counts.skip_count (count_target n) Right d xs = min (n - d) (length xs)"
  unfolding counts.skip_count_def
  by (rule takeWhile_count) (auto simp: counts.ends_nth skips_def count_target_def)

lemma skip_count_sums: "sums.skip_count (count_summary_target n) Right d xs = min (n - ls_count d) (length xs)"
  unfolding sums.skip_count_def
  by (rule takeWhile_count) (auto simp: sums.ends_nth skips_def count_summary_target_def)

lemma skip_tops: "tops.skip_count (dimensions_target (count_target n)) Right (c, h, u) xs = min (n - c) (length xs)"
  unfolding tops.skip_count_def
  by (rule takeWhile_count) (auto simp: tops.ends_nth skips_def count_target_def dimensions_target_def advance_tops)


section \<open>Positions in the tree\<close>

lemma target_not_less [simp]:
  "count_target n d = Less \<longleftrightarrow> n < d" "count_summary_target n s = Less \<longleftrightarrow> n < ls_count s"
  "height_summary_target h s = Less \<longleftrightarrow> h < ls_height s" "dimensions_target (count_target n) p = Less \<longleftrightarrow> n < fst p"
  by (simp_all add: count_target_def count_summary_target_def height_summary_target_def dimensions_target_def)

definition items_fit :: "'p list_items \<Rightarrow> bool" where
  "items_fit t \<longleftrightarrow> node_height t < STACK_CAP"

lemma seek_counts:
  assumes "tree_ok list_ops t" "items_fit t"
  shows "\<exists>r c. seek count_dim (cursor_new count_dim t) (count_target n) Right = Some (r, c) \<and>
    counts.cursor_ok t c (min n (length (to_list t))) \<and> c_did_seek c"
  using counts.seek_ok [of "cursor_new count_dim t" "count_target n" Right] assms
  by (auto simp: items_fit_def cursor_new_def counts.seek_index_def skip_counts)

lemma item_at_ok:
  assumes "tree_ok list_ops t" "items_fit t"
  shows "item_at t n = Some (if n < length (to_list t) then Some (to_list t ! n) else None)"
  using seek_counts [OF assms, of n] counts.cursor_item_ok(1) [of t _ "min n (length (to_list t))"]
  by (auto simp: item_at_def min_def)

lemma count_position:
  assumes "counts.cursor_ok t c m" "m \<le> n"
  shows "count_target n (c_position c) \<noteq> Less" "counts.seek_index (count_target n) Right t m = min n (length (to_list t))"
  using counts.cursor_ok_position [OF assms(1)] counts.cursor_ok_bounds [OF assms(1)] assms(2)
  by (auto simp: counts.seek_index_def skip_counts)

lemma slice_counts:
  assumes "counts.cursor_ok t c m" "m \<le> n"
  shows "\<exists>t' c'. slice list_ops count_dim c (count_target n) Right = Some (t', c') \<and> tree_ok list_ops t' \<and>
    to_list t' = drop m (take n (to_list t)) \<and> counts.cursor_ok t c' (min n (length (to_list t))) \<and> c_did_seek c'"
  using counts.slice_ok [OF assms(1) mono_counts count_position(1) [OF assms], of Right]
  unfolding count_position(2) [OF assms] by (auto simp: min_def)

lemma seek_forward_counts:
  assumes "counts.cursor_ok t c m" "m \<le> n"
  shows "\<exists>r c'. seek_forward count_dim c (count_target n) Right = Some (r, c') \<and>
    counts.cursor_ok t c' (min n (length (to_list t))) \<and> c_did_seek c'"
  using counts.seek_forward_ok [OF assms(1) mono_counts count_position(1) [OF assms], of Right]
  unfolding count_position(2) [OF assms] by auto

lemma cursor_start_sums:
  assumes "sums.cursor_ok t c n"
  shows "ls_count (cursor_start c) = n" "ls_height (cursor_start c) = height_before (to_list t) n"
  using sums.cursor_ok_position [OF assms] sums.cursor_ok_bounds [OF assms] by (simp_all add: cursor_start_def height_before_def)

lemma seek_sums_count:
  assumes "tree_ok list_ops t" "items_fit t" "c_tree c = t"
  shows "\<exists>r c'. seek list_sums c (count_summary_target n) Right = Some (r, c') \<and>
    sums.cursor_ok t c' (min n (length (to_list t))) \<and> c_did_seek c'"
  using sums.seek_ok [of c "count_summary_target n" Right] assms
  by (auto simp: items_fit_def sums.seek_index_def skip_count_sums)

text \<open>
  The item at a height: the items before it end at or above the height (strictly, for \<open>Bias::Left\<close>), and it ends
  below it.
\<close>

definition found_at_height :: "'p::linordered_field \<Rightarrow> bias \<Rightarrow> 'p list_item list \<Rightarrow> nat \<Rightarrow> nat \<Rightarrow> bool" where
  "found_at_height h bias xs n k \<longleftrightarrow> n \<le> k \<and> k \<le> length xs \<and>
     (\<forall>i. n \<le> i \<and> i < k \<longrightarrow> height_before xs (Suc i) < h \<or> height_before xs (Suc i) = h \<and> bias = Right) \<and>
     (k < length xs \<longrightarrow> h < height_before xs (Suc k) \<or> h = height_before xs (Suc k) \<and> bias = Left)"

lemma skips_height:
  "skips (height_summary_target h) bias s \<longleftrightarrow> ls_height s < h \<or> ls_height s = h \<and> bias = Right"
  by (auto simp: skips_def height_summary_target_def)

lemma seek_index_heights:
  assumes "n \<le> length (to_list t)"
  shows "found_at_height h bias (to_list t) n (sums.seek_index (height_summary_target h) bias t n)"
proof -
  let ?xs = "to_list t"
  let ?ds = "sums.ends (sums.advance list_summary_zero (take n ?xs)) (drop n ?xs)"
  let ?P = "skips (height_summary_target h) bias"
  let ?m = "length (takeWhile ?P ?ds)"
  have k: "sums.seek_index (height_summary_target h) bias t n = n + ?m"
    by (simp add: sums.seek_index_def sums.skip_count_def)
  have ds: "ls_height (?ds ! i) = height_before ?xs (Suc (n + i))" if "i < length ?xs - n" for i
  proof -
    have "take (Suc (n + i)) ?xs = take n ?xs @ take (Suc i) (drop n ?xs)"
      by (metis add_Suc_right take_add)
    then show ?thesis
      using that by (simp add: sums.ends_nth height_before_def)
  qed
  have m: "?m \<le> length ?xs - n"
    using length_takeWhile_le [of ?P ?ds] by simp
  have before: "?P (?ds ! i)" if "i < ?m" for i
    using nth_mem [of i "takeWhile ?P ?ds"] that takeWhile_nth [OF that] by (metis set_takeWhileD)
  have after: "\<not> ?P (?ds ! ?m)" if "?m < length ?xs - n"
    using nth_length_takeWhile [of ?P ?ds] that by simp
  show ?thesis
    unfolding k found_at_height_def
  proof (intro conjI allI impI)
    show "height_before ?xs (Suc i) < h \<or> height_before ?xs (Suc i) = h \<and> bias = Right" if "n \<le> i \<and> i < n + ?m" for i
    proof -
      have "?P (?ds ! (i - n))"
        using that by (intro before) auto
      moreover have "ls_height (?ds ! (i - n)) = height_before ?xs (Suc i)"
      proof -
        have "i - n < length ?xs - n" using that m by linarith
        then show ?thesis using ds [of "i - n"] that by simp
      qed
      ultimately show ?thesis
        by (simp add: skips_height)
    qed
    show "h < height_before ?xs (Suc (n + ?m)) \<or> h = height_before ?xs (Suc (n + ?m)) \<and> bias = Left" if "n + ?m < length ?xs"
    proof -
      have "\<not> (ls_height (?ds ! ?m) < h \<or> ls_height (?ds ! ?m) = h \<and> bias = Right)"
        using after that unfolding skips_height [symmetric] by simp
      moreover have "ls_height (?ds ! ?m) = height_before ?xs (Suc (n + ?m))"
        using that by (intro ds) simp
      ultimately show ?thesis
        by (cases bias) auto
    qed
  qed (use m assms in simp_all)
qed

lemma found_height_le:
  assumes "found_at_height h bias xs n k" "height_before xs n \<le> h"
  shows "height_before xs k \<le> h"
proof (cases "n = k")
  case False
  then obtain k' where k: "k = Suc k'" "n \<le> k'"
    using assms(1) by (cases k) (auto simp: found_at_height_def)
  then have "height_before xs (Suc k') < h \<or> height_before xs (Suc k') = h \<and> bias = Right"
    using assms(1) unfolding found_at_height_def by blast
  then show ?thesis
    using k by auto
qed (use assms in simp)

text \<open>With items of no negative height, a search from an item not past the height finds the same item.\<close>

lemma found_unique:
  assumes ok: "heights_ok xs" and f: "found_at_height h bias xs n k" "found_at_height h bias xs m k'"
    and le: "height_before xs n \<le> h" "height_before xs m \<le> h" and b: "bias = Right"
  shows "k = k'"
proof -
  have *: "k \<le> k'" if f: "found_at_height h Right xs n k" "found_at_height h Right xs m k'" and le: "height_before xs n \<le> h" for n m k k'
  proof (rule ccontr)
    assume "\<not> k \<le> k'"
    then have "k' < k" "k' < length xs" using f by (auto simp: found_at_height_def)
    then have "h < height_before xs (Suc k')" using f(2) by (auto simp: found_at_height_def)
    moreover have "height_before xs (Suc k') \<le> height_before xs k"
      using \<open>k' < k\<close> ok by (intro height_before_mono) auto
    ultimately show False
      using found_height_le [OF f(1) le] by simp
  qed
  show ?thesis
    using * [OF f [unfolded b] le(1)] * [OF f(2,1) [unfolded b] le(2)] by simp
qed


lemma seek_sums_height:
  assumes "tree_ok list_ops t" "items_fit t" "c_tree c = t" "heights_ok (to_list t)" "0 \<le> h"
  shows "\<exists>r c' k. seek list_sums c (height_summary_target h) bias = Some (r, c') \<and>
    sums.cursor_ok t c' k \<and> found_at_height h bias (to_list t) 0 k"
proof -
  have "\<not> h < ls_height (list_summary_zero :: 'a list_item_summary)" using assms(5) by simp
  then show ?thesis
    using sums.seek_ok [of c "height_summary_target h" bias] assms mono_height_sums [OF assms(4)]
      seek_index_heights [of 0 t h bias] by (auto simp: items_fit_def)
qed

lemma seek_forward_sums_height:
  assumes "sums.cursor_ok t c n" "heights_ok (to_list t)" "height_before (to_list t) n \<le> h"
  shows "\<exists>r c' k. seek_forward list_sums c (height_summary_target h) bias = Some (r, c') \<and>
    sums.cursor_ok t c' k \<and> found_at_height h bias (to_list t) n k"
proof -
  have "height_summary_target h (c_position c) \<noteq> Less"
    using sums.cursor_ok_position [OF assms(1)] assms(3) by (simp add: height_before_def)
  then show ?thesis
    using sums.seek_forward_ok [OF assms(1) mono_height_sums [OF assms(2)], of h bias]
      seek_index_heights [OF sums.cursor_ok_bounds [OF assms(1)], of h bias] by auto
qed

lemma cursor_ok_tree: "sums.cursor_ok t c n \<Longrightarrow> c_tree c = t" "tops.cursor_ok t d n \<Longrightarrow> c_tree d = t"
  by (simp_all add: sums.cursor_ok_def tops.cursor_ok_def)

text \<open>\<open>find\<close> by count and by height, also on an empty list.\<close>

lemma find_sums_new: "find list_sums (new_tree list_ops) target bias = (list_summary_zero, list_summary_zero, None)"
  by (simp add: find_def find_generic_def new_tree_def with_added_summary_def Let_def list_summary_add_def list_summary_zero_def)

lemma find_sums:
  assumes "tree_ok list_ops t" "mono_target target (sums.ends list_summary_zero (to_list t))"
  shows "fst (find list_sums t target bias) =
    sums.advance list_summary_zero (take (sums.seek_index target bias t 0) (to_list t))"
  using assms(1)
proof (cases rule: tree_ok_cases)
  case 1
  then show ?thesis
    by (simp add: find_sums_new)
next
  case 2
  then show ?thesis
    using sums.find_ok [OF 2(1), of target bias] assms(2) sums.skip_count_le [of target bias list_summary_zero "to_list t"]
    by (auto simp: Let_def sums.seek_index_def)
qed

section \<open>The invariant\<close>

abbreviation items_of :: "'p list_state \<Rightarrow> 'p list_item list" where
  "items_of st \<equiv> to_list (li_items st)"

definition anchor_ok :: "nat \<Rightarrow> 'p scroll_anchor option \<Rightarrow> bool" where
  "anchor_ok n anchor \<longleftrightarrow> (\<forall>a. anchor = Some a \<longrightarrow> lo_item_ix (sa_position a) \<le> n)"

definition list_ok :: "'p::linordered_field list_state \<Rightarrow> bool" where
  "list_ok st \<longleftrightarrow> tree_ok list_ops (li_items st) \<and> heights_ok (items_of st) \<and>
     anchor_ok (length (items_of st)) (li_scroll_anchor st)"

lemma item_count_ok: "tree_ok list_ops (li_items st) \<Longrightarrow> item_count st = length (items_of st)"
  by (simp add: item_count_def counts.ok_summary)

lemma total_height: "tree_ok list_ops t \<Longrightarrow> ls_height (node_summary t) = height_before (to_list t) (length (to_list t))"
  by (simp add: counts.ok_summary height_before_def)

lemma logical_scroll_top_le: "list_ok st \<Longrightarrow> lo_item_ix (logical_scroll_top st) \<le> length (items_of st)"
  by (auto simp: logical_scroll_top_def list_ok_def anchor_ok_def item_count_ok split: option.splits list_alignment.splits)

lemma scroll_top_ok:
  assumes "tree_ok list_ops (li_items st)"
  shows "scroll_top st l = height_before (items_of st) (lo_item_ix l) + lo_offset_in_item l"
proof -
  have "fst (find list_sums (li_items st) (count_summary_target (lo_item_ix l)) Right) =
      sums.advance list_summary_zero (take (min (lo_item_ix l) (length (items_of st))) (items_of st))"
    using find_sums [OF assms mono_count_sums] by (simp add: sums.seek_index_def skip_count_sums)
  then show ?thesis
    by (auto simp: scroll_top_def case_prod_unfold height_before_def min_def)
qed

lemma offset_at_height_ok:
  assumes "list_ok st" "0 \<le> y"
  shows "\<exists>k. offset_at_height st y = \<lparr>lo_item_ix = k, lo_offset_in_item = y - height_before (items_of st) k\<rparr> \<and>
    found_at_height y Right (items_of st) 0 k"
proof -
  have t: "tree_ok list_ops (li_items st)" and h: "heights_ok (items_of st)" using assms(1) by (simp_all add: list_ok_def)
  let ?k = "sums.seek_index (height_summary_target y) Right (li_items st) 0"
  have "?k \<le> length (items_of st)"
    using sums.seek_index_bounds [of 0 "li_items st"] by simp
  then show ?thesis
    using find_sums [OF t mono_height_sums [OF h], of y Right] seek_index_heights [of 0 "li_items st" y Right]
    by (auto simp: offset_at_height_def case_prod_unfold height_before_def)
qed

lemma pending_after_total:
  assumes "tree_ok list_ops (li_items st)" "items_fit (li_items st)"
  shows "\<exists>p. pending_after st position = Some p"
  using item_at_ok [OF assms] by (auto simp: pending_after_def split: option.split pending_scroll.split)

lemma set_scroll_anchor_ok:
  assumes "tree_ok list_ops (li_items st)" "items_fit (li_items st)"
  shows "\<exists>a. set_scroll_anchor (Some position) st = Some (st\<lparr>li_scroll_anchor := Some a\<rparr>) \<and>
    sa_position a = position \<and> \<not> sa_provisional a \<and> \<not> sa_pending_end a"
  using pending_after_total [OF assms, of position] by (auto simp: set_scroll_anchor_def)


section \<open>Changing the items\<close>

lemma heights_ok_append: "heights_ok (xs @ ys) \<longleftrightarrow> heights_ok xs \<and> heights_ok ys"
  by (auto simp: heights_ok_def)

lemma heights_ok_take: "heights_ok xs \<Longrightarrow> heights_ok (take n xs) \<and> heights_ok (drop n xs)"
  by (auto simp: heights_ok_def dest: in_set_takeD in_set_dropD)

lemma item_height_unknown [simp]: "item_height (Unmeasured None f) = 0"
  by (simp add: item_height_def)

lemma item_height_forget [simp]: "item_height (forget_measurement x) = item_height x"
  by (cases x) (auto simp: item_height_def forget_measurement_def split: option.splits)

lemma cursor_new_counts:
  "tree_ok list_ops t \<Longrightarrow> items_fit t \<Longrightarrow> counts.cursor_ok t (cursor_new count_dim t) 0"
  by (simp add: counts.cursor_new_ok items_fit_def)

text \<open>The anchor of a splice points at the same item, or at the start of what replaced it.\<close>

lemma splice_anchor_position:
  "sa_position (splice_anchor a b n anchor) = (let p = sa_position anchor; ix = lo_item_ix p in
     if a \<le> ix \<and> ix < b then \<lparr>lo_item_ix = a, lo_offset_in_item = 0\<rparr>
     else if b \<le> ix then p\<lparr>lo_item_ix := ix - (b - a) + n\<rparr> else p)"
  by (auto simp: splice_anchor_def Let_def)

lemma splice_ok:
  assumes ok: "list_ok st" and fit: "items_fit (li_items st)" and r: "a \<le> b" "b \<le> length (items_of st)"
  shows "\<exists>st'. splice_focusable a b fs st = Some st' \<and> list_ok st' \<and>
    items_of st' = take a (items_of st) @ map (Unmeasured None) fs @ drop b (items_of st) \<and>
    st' = st\<lparr>li_items := li_items st', li_scroll_anchor := map_option (splice_anchor a b (length fs)) (li_scroll_anchor st)\<rparr>"
proof -
  have t: "tree_ok list_ops (li_items st)" and h: "heights_ok (items_of st)"
    using ok by (simp_all add: list_ok_def)
  obtain t1 c1 where 1: "slice list_ops count_dim (cursor_new count_dim (li_items st)) (count_target a) Right = Some (t1, c1)"
    "tree_ok list_ops t1" "to_list t1 = take a (items_of st)" "counts.cursor_ok (li_items st) c1 a"
    using slice_counts [OF cursor_new_counts [OF t fit], of a] r by (auto simp: min_def)
  obtain r2 c2 where 2: "seek_forward count_dim c1 (count_target b) Right = Some (r2, c2)" "counts.cursor_ok (li_items st) c2 b"
    using seek_forward_counts [OF 1(4) r(1)] r by (auto simp: min_def)
  obtain t3 where 3: "tree_extend list_ops t1 (map (Unmeasured None) fs) = Some t3" "tree_ok list_ops t3"
    "to_list t3 = take a (items_of st) @ map (Unmeasured None) fs"
    using counts.tree_extend_ok [OF 1(2), of "map (Unmeasured None) fs"] 1(3) by auto
  obtain t4 c4 where 4: "suffix list_ops count_dim c2 = Some (t4, c4)" "tree_ok list_ops t4" "to_list t4 = drop b (items_of st)"
    using counts.suffix_ok [OF 2(2)] by auto
  obtain t5 where 5: "append_tree list_ops t3 t4 = Some t5" "tree_ok list_ops t5"
    "to_list t5 = take a (items_of st) @ map (Unmeasured None) fs @ drop b (items_of st)"
    using counts.append_tree_ok [OF 3(2) 4(2)] 3(3) 4(3) by auto
  let ?st = "st\<lparr>li_items := t5, li_scroll_anchor := map_option (splice_anchor a b (length fs)) (li_scroll_anchor st)\<rparr>"
  have "heights_ok (to_list t5)"
    using heights_ok_take [OF h] by (simp add: 5(3) heights_ok_append) (simp add: heights_ok_def)
  moreover have "anchor_ok (length (to_list t5)) (li_scroll_anchor ?st)"
    using ok r by (auto simp: anchor_ok_def list_ok_def 5(3) splice_anchor_position Let_def)
  ultimately have "list_ok ?st"
    using 5(2) by (simp add: list_ok_def)
  then show ?thesis
    using 1(1) 2(1) 3(1) 4(1) 5(1,3) by (intro exI [of _ ?st]) (simp add: splice_focusable_def)
qed

lemma remeasure_anchor_ok:
  assumes "tree_ok list_ops t" "items_fit t"
  shows "\<exists>anchor'. remeasure_anchor a b mode t anchor = Some anchor' \<and> sa_position anchor' = sa_position anchor"
  using item_at_ok [OF assms] by (auto simp: remeasure_anchor_def Let_def split: scroll_anchor_mode.split option.split)

text \<open>The stretch to remeasure is read by an iterator, whose stack holds 16 nodes.\<close>

definition stretch_fits :: "nat \<Rightarrow> nat \<Rightarrow> 'p::linordered_field list_items \<Rightarrow> bool" where
  "stretch_fits a b t =
     (case do { (_, c) \<leftarrow> slice list_ops count_dim (cursor_new count_dim t) (count_target a) Right;
                slice list_ops count_dim c (count_target b) Right } of
        Some (stretch, _) \<Rightarrow> items_fit stretch
      | None \<Rightarrow> False)"

lemma remeasure_ok:
  assumes ok: "list_ok st" and fit: "items_fit (li_items st)" "stretch_fits a b (li_items st)"
    and r: "a \<le> b" "b \<le> length (items_of st)"
  shows "\<exists>st'. remeasure_items_with_scroll_anchor a b mode st = Some st' \<and> list_ok st' \<and>
    items_of st' = take a (items_of st) @ map forget_measurement (drop a (take b (items_of st))) @ drop b (items_of st) \<and>
    map item_height (items_of st') = map item_height (items_of st) \<and>
    map_option sa_position (li_scroll_anchor st') = map_option sa_position (li_scroll_anchor st)"
proof -
  let ?xs = "items_of st" and ?mid = "drop a (take b (items_of st))"
  have t: "tree_ok list_ops (li_items st)" and h: "heights_ok ?xs"
    using ok by (simp_all add: list_ok_def)
  obtain t1 c1 where 1: "slice list_ops count_dim (cursor_new count_dim (li_items st)) (count_target a) Right = Some (t1, c1)"
    "tree_ok list_ops t1" "to_list t1 = take a ?xs" "counts.cursor_ok (li_items st) c1 a"
    using slice_counts [OF cursor_new_counts [OF t fit(1)], of a] r by (auto simp: min_def)
  obtain t2 c2 where 2: "slice list_ops count_dim c1 (count_target b) Right = Some (t2, c2)"
    "tree_ok list_ops t2" "to_list t2 = ?mid" "counts.cursor_ok (li_items st) c2 b"
    using slice_counts [OF 1(4) r(1)] r by (auto simp: min_def)
  have iter: "tree_iter t2 = Some ?mid"
    using fit(2) 1(1) 2 by (simp add: stretch_fits_def items_fit_def counts.tree_iter_ok)
  obtain t3 where 3: "tree_extend list_ops t1 (map forget_measurement ?mid) = Some t3" "tree_ok list_ops t3"
    "to_list t3 = take a ?xs @ map forget_measurement ?mid"
    using counts.tree_extend_ok [OF 1(2)] 1(3) by metis
  obtain t4 c4 where 4: "suffix list_ops count_dim c2 = Some (t4, c4)" "tree_ok list_ops t4" "to_list t4 = drop b ?xs"
    using counts.suffix_ok [OF 2(4)] by auto
  obtain t5 where 5: "append_tree list_ops t3 t4 = Some t5" "tree_ok list_ops t5"
    "to_list t5 = take a ?xs @ map forget_measurement ?mid @ drop b ?xs"
    using counts.append_tree_ok [OF 3(2) 4(2)] 3(3) 4(3) by auto
  have split: "?xs = take a ?xs @ ?mid @ drop b ?xs"
    using r by (metis append.assoc append_take_drop_id min.absorb1 take_take)
  have same: "map item_height (to_list t5) = map item_height ?xs"
    using arg_cong [OF split, of "map item_height", symmetric] unfolding 5(3) map_append map_map comp_def item_height_forget .
  have "heights_ok (to_list t5)"
    using h same unfolding heights_ok_def by (metis imageE image_eqI image_set)
  moreover have len: "length (to_list t5) = length ?xs"
    using same map_eq_imp_length_eq by blast
  obtain anchor where anchor: "(case li_scroll_anchor st of
      Some anchor \<Rightarrow> map_option Some (remeasure_anchor a b mode (li_items st) anchor) | None \<Rightarrow> Some None) = Some anchor"
    "map_option sa_position anchor = map_option sa_position (li_scroll_anchor st)"
    using remeasure_anchor_ok [OF t fit(1)] by (cases "li_scroll_anchor st") fastforce+
  have "anchor_ok (length (to_list t5)) anchor"
    using ok anchor(2) unfolding list_ok_def anchor_ok_def len by (cases "li_scroll_anchor st"; cases anchor) simp_all
  ultimately show ?thesis
    using 1(1) 2(1) 3(1) 4(1) 5 iter anchor same
    by (auto simp: remeasure_items_with_scroll_anchor_def list_ok_def)
qed


section \<open>Scrolling\<close>

text \<open>How far the content is scrolled, and offsets that lie within their item.\<close>

definition scroll_position :: "'p::linordered_field list_state \<Rightarrow> 'p" where
  "scroll_position st = scroll_top st (logical_scroll_top st)"

definition offset_within :: "'p::linordered_field list_item list \<Rightarrow> 'p list_offset \<Rightarrow> bool" where
  "offset_within xs l \<longleftrightarrow> lo_item_ix l \<le> length xs \<and> 0 \<le> lo_offset_in_item l \<and>
     (lo_item_ix l < length xs \<longrightarrow> lo_offset_in_item l < item_height (xs ! lo_item_ix l))"

lemma found_offset_within:
  assumes "found_at_height y Right xs n k" "height_before xs n \<le> y"
  shows "offset_within xs \<lparr>lo_item_ix = k, lo_offset_in_item = y - height_before xs k\<rparr>"
  using assms found_height_le [OF assms] by (auto simp: offset_within_def found_at_height_def height_before_Suc algebra_simps)

lemma set_anchor_position:
  assumes ok: "list_ok st" and fit: "items_fit (li_items st)" and p: "lo_item_ix position \<le> length (items_of st)"
  shows "\<exists>st'. set_scroll_anchor (Some position) st = Some st' \<and> list_ok st' \<and> li_items st' = li_items st \<and>
    logical_scroll_top st' = position \<and>
    scroll_position st' = height_before (items_of st) (lo_item_ix position) + lo_offset_in_item position \<and>
    st' = st\<lparr>li_scroll_anchor := li_scroll_anchor st'\<rparr>"
proof -
  have t: "tree_ok list_ops (li_items st)" using ok by (simp add: list_ok_def)
  obtain a where a: "set_scroll_anchor (Some position) st = Some (st\<lparr>li_scroll_anchor := Some a\<rparr>)" "sa_position a = position"
    using set_scroll_anchor_ok [OF t fit] by blast
  then show ?thesis
    using ok p t by (intro exI [of _ "st\<lparr>li_scroll_anchor := Some a\<rparr>"])
      (simp add: list_ok_def anchor_ok_def logical_scroll_top_def scroll_position_def scroll_top_ok)
qed

lemma scroll_position_eq:
  "list_ok st \<Longrightarrow> scroll_position st =
     height_before (items_of st) (lo_item_ix (logical_scroll_top st)) + lo_offset_in_item (logical_scroll_top st)"
  by (simp add: scroll_position_def scroll_top_ok list_ok_def)

text \<open>Going to a pixel offset.\<close>

lemma set_anchor_at_height:
  assumes ok: "list_ok st" and fit: "items_fit (li_items st)" and y: "0 \<le> y"
  shows "\<exists>st'. set_scroll_anchor (Some (offset_at_height st y)) st = Some st' \<and> list_ok st' \<and> li_items st' = li_items st \<and>
    scroll_position st' = y \<and> offset_within (items_of st) (logical_scroll_top st') \<and>
    li_scroll_anchor st' \<noteq> None \<and> st' = st\<lparr>li_scroll_anchor := li_scroll_anchor st'\<rparr>"
proof -
  obtain k where k: "offset_at_height st y = \<lparr>lo_item_ix = k, lo_offset_in_item = y - height_before (items_of st) k\<rparr>"
    "found_at_height y Right (items_of st) 0 k"
    using offset_at_height_ok [OF ok y] by blast
  have w: "offset_within (items_of st) (offset_at_height st y)"
    using found_offset_within [OF k(2)] y k(1) by simp
  obtain st' where st': "set_scroll_anchor (Some (offset_at_height st y)) st = Some st'" "list_ok st'" "li_items st' = li_items st"
    "logical_scroll_top st' = offset_at_height st y"
    "scroll_position st' = height_before (items_of st) k + (y - height_before (items_of st) k)"
    "st' = st\<lparr>li_scroll_anchor := li_scroll_anchor st'\<rparr>"
    using set_anchor_position [OF ok fit, of "offset_at_height st y"] k w by (auto simp: offset_within_def)
  moreover have "li_scroll_anchor st' \<noteq> None"
    using st'(1) by (auto simp: set_scroll_anchor_def split: bind_splits)
  ultimately show ?thesis
    using w by (intro exI [of _ st']) simp
qed

lemma scroll_by_ok:
  assumes ok: "list_ok st" and fit: "items_fit (li_items st)" and off: "0 \<le> lo_offset_in_item (logical_scroll_top st)"
    and d: "d \<noteq> 0"
  shows "\<exists>st'. scroll_by d st = Some st' \<and> list_ok st' \<and> li_items st' = li_items st \<and>
    scroll_position st' = max (scroll_position st + d) 0 \<and> offset_within (items_of st) (logical_scroll_top st') \<and>
    li_follow_state st' = (if d < 0 then stop_following (li_follow_state st) else li_follow_state st)"
proof -
  let ?xs = "items_of st" and ?l = "logical_scroll_top st"
  let ?st = "if d < 0 then st\<lparr>li_follow_state := stop_following (li_follow_state st)\<rparr> else st"
  have t: "tree_ok list_ops (li_items st)" and h: "heights_ok ?xs" using ok by (simp_all add: list_ok_def)
  have ix: "lo_item_ix ?l \<le> length ?xs" by (rule logical_scroll_top_le [OF ok])
  have ok': "list_ok ?st" "items_fit (li_items ?st)" "li_items ?st = li_items st" using ok fit by (simp_all add: list_ok_def)
  obtain r1 c1 where 1: "seek list_sums (cursor_new list_sums (li_items st)) (count_summary_target (lo_item_ix ?l)) Right = Some (r1, c1)"
    "sums.cursor_ok (li_items st) c1 (lo_item_ix ?l)"
    using seek_sums_count [OF t fit, of "cursor_new list_sums (li_items st)" "lo_item_ix ?l"] ix by (auto simp: cursor_new_def min_def)
  let ?start = "ls_height (cursor_start c1) + lo_offset_in_item ?l"
  have start: "?start = scroll_position st"
    using cursor_start_sums(2) [OF 1(2)] by (simp add: scroll_position_eq [OF ok])
  define y where "y = max (scroll_position st + d) 0"
  have y: "0 \<le> y" by (simp add: y_def)
  obtain r2 c2 k n where 2: "(if y > ?start then seek_forward list_sums c1 (height_summary_target y) Right
       else seek list_sums c1 (height_summary_target y) Right) = Some (r2, c2)"
    "sums.cursor_ok (li_items st) c2 k" "found_at_height y Right ?xs n k" "height_before ?xs n \<le> y"
  proof (cases "y > ?start")
    case True
    then have "height_before ?xs (lo_item_ix ?l) \<le> y"
      using off start by (simp add: scroll_position_eq [OF ok])
    then show ?thesis
      using seek_forward_sums_height [OF 1(2) h, of y Right] True that by auto
  next
    case False
    then show ?thesis
      using seek_sums_height [OF t fit cursor_ok_tree(1) [OF 1(2)] h y, of Right] y that [of _ _ _ 0] by auto
  qed
  let ?p = "\<lparr>lo_item_ix = k, lo_offset_in_item = y - height_before ?xs k\<rparr>"
  have w: "offset_within ?xs ?p" by (rule found_offset_within [OF 2(3,4)])
  obtain st' where st': "set_scroll_anchor (Some ?p) ?st = Some st'" "list_ok st'" "li_items st' = li_items st"
    "logical_scroll_top st' = ?p" "scroll_position st' = y" "st' = ?st\<lparr>li_scroll_anchor := li_scroll_anchor st'\<rparr>"
    using set_anchor_position [OF ok'(1,2), of ?p] w ok'(3) by (auto simp: offset_within_def)
  have goal: "max (?start + d) 0 = y" by (simp add: start y_def)
  have "scroll_by d st =
      do { (_, c) \<leftarrow> (if y > ?start then seek_forward list_sums c1 (height_summary_target y) Right
                     else seek list_sums c1 (height_summary_target y) Right);
           set_scroll_anchor (Some \<lparr>lo_item_ix = ls_count (cursor_start c),
             lo_offset_in_item = y - ls_height (cursor_start c)\<rparr>) ?st }"
    unfolding scroll_by_def Let_def ok'(3) 1(1) using d by (simp add: goal cong del: if_weak_cong split del: if_split)
  then have "scroll_by d st = Some st'"
    unfolding 2(1) using st'(1) cursor_start_sums [OF 2(2)] by simp
  moreover have "li_follow_state st' = (if d < 0 then stop_following (li_follow_state st) else li_follow_state st)"
    by (subst st'(6)) simp
  ultimately show ?thesis
    using st' w by (intro exI [of _ st']) (simp add: y_def)
qed


lemma list_ok_cong:
  "list_ok st \<Longrightarrow> li_items st' = li_items st \<Longrightarrow> li_scroll_anchor st' = li_scroll_anchor st \<Longrightarrow> list_ok st'"
  by (simp add: list_ok_def)

lemma list_ok_unanchored: "list_ok st \<Longrightarrow> list_ok (st\<lparr>li_scroll_anchor := None\<rparr>)"
  by (simp add: list_ok_def anchor_ok_def)

text \<open>How far the scrollbar lets the content scroll.\<close>

definition scrollbar_max :: "'p::linordered_field list_state \<Rightarrow> 'p" where
  "scrollbar_max st = max (scrollbar_height st + e_top (layout_padding st) + e_bottom (layout_padding st)
     - height (bsize (layout_bounds st))) 0"

lemma scrollbar_max_bounds: "0 \<le> scrollbar_max st"
  by (simp add: scrollbar_max_def)

text \<open>
  Dragging the scrollbar goes to the clamped position, except that the end of a tail-following list resumes
  following, and the end of a list aligned to the bottom drops the anchor.
\<close>

lemma set_offset_from_scrollbar_ok:
  fixes st :: "'p::linordered_field list_state" and point :: "'p point"
  assumes ok: "list_ok st" and fit: "items_fit (li_items st)" and b: "li_last_layout_bounds st \<noteq> None"
  defines "y \<equiv> min (max (- py point) 0) (scrollbar_max st)"
  shows "\<exists>st'. set_offset_from_scrollbar point st = Some st' \<and> list_ok st' \<and> li_items st' = li_items st \<and>
    (if scrollbar_max st > 0 \<and> y \<ge> max (scrollbar_max st - 1) 0 \<and> li_follow_state st \<noteq> FollowNormal
     then is_following_tail st' \<and> logical_scroll_top st' = \<lparr>lo_item_ix = length (items_of st), lo_offset_in_item = 0\<rparr>
     else \<not> is_following_tail st' \<and>
       (if li_alignment st = BottomAligned \<and> y = scrollbar_max st then li_scroll_anchor st' = None
        else scroll_position st' = y \<and> offset_within (items_of st) (logical_scroll_top st') \<and> li_scroll_anchor st' \<noteq> None))"
proof -
  let ?st = "st\<lparr>li_follow_state := stop_following (li_follow_state st)\<rparr>"
  have t: "tree_ok list_ops (li_items st)" using ok by (simp add: list_ok_def)
  obtain bounds where bs: "li_last_layout_bounds st = Some bounds" using b by blast
  have y: "0 \<le> y" using scrollbar_max_bounds [of st] by (simp add: y_def)
  have max: "max (scrollbar_height st + e_top (layout_padding st) + e_bottom (layout_padding st) - height (bsize bounds)) 0 = scrollbar_max st"
    by (simp add: scrollbar_max_def layout_bounds_def bs)
  have ok': "list_ok ?st" by (rule list_ok_cong [OF ok]) simp_all
  have stopped: "\<not> is_following_tail ?st" by (cases "li_follow_state st") (simp_all add: is_following_tail_def)
  note eq = set_offset_from_scrollbar_def [of point st, unfolded bs option.case Let_def max, folded y_def]
  consider (follow) "scrollbar_max st > 0 \<and> y \<ge> max (scrollbar_max st - 1) 0 \<and> li_follow_state st \<noteq> FollowNormal"
    | (bottom) "\<not> (scrollbar_max st > 0 \<and> y \<ge> max (scrollbar_max st - 1) 0 \<and> li_follow_state st \<noteq> FollowNormal)"
        "li_alignment st = BottomAligned \<and> y = scrollbar_max st"
    | (at) "\<not> (scrollbar_max st > 0 \<and> y \<ge> max (scrollbar_max st - 1) 0 \<and> li_follow_state st \<noteq> FollowNormal)"
        "\<not> (li_alignment st = BottomAligned \<and> y = scrollbar_max st)"
    by blast
  then show ?thesis
  proof cases
    case follow
    let ?f = "st\<lparr>li_follow_state := FollowTail True\<rparr>"
    have okf: "list_ok ?f" by (rule list_ok_cong [OF ok]) simp_all
    obtain st' where st': "set_scroll_anchor (Some \<lparr>lo_item_ix = item_count st, lo_offset_in_item = 0\<rparr>) ?f = Some st'" "list_ok st'"
      "li_items st' = li_items st" "logical_scroll_top st' = \<lparr>lo_item_ix = length (items_of st), lo_offset_in_item = 0\<rparr>"
      "st' = ?f\<lparr>li_scroll_anchor := li_scroll_anchor st'\<rparr>"
      using set_anchor_position [OF okf, of "\<lparr>lo_item_ix = item_count st, lo_offset_in_item = 0\<rparr>"] fit
      by (auto simp: item_count_ok [OF t])
    have "is_following_tail st'" by (subst st'(5)) (simp add: is_following_tail_def)
    then show ?thesis using follow st' by (intro exI [of _ st']) (simp add: eq)
  next
    case bottom
    then show ?thesis
      using list_ok_unanchored [OF ok'] stopped
      by (intro exI [of _ "?st\<lparr>li_scroll_anchor := None\<rparr>"]) (auto simp: eq set_scroll_anchor_def is_following_tail_def)
  next
    case at
    have off: "offset_at_height ?st y = offset_at_height st y" by (simp add: offset_at_height_def)
    obtain st' where st': "set_scroll_anchor (Some (offset_at_height ?st y)) ?st = Some st'" "list_ok st'" "li_items st' = li_items st"
      "scroll_position st' = y" "offset_within (items_of st) (logical_scroll_top st')" "li_scroll_anchor st' \<noteq> None"
      "st' = ?st\<lparr>li_scroll_anchor := li_scroll_anchor st'\<rparr>"
      using set_anchor_at_height [OF ok' _ y] fit by auto
    have "\<not> is_following_tail st'" using stopped by (subst st'(7)) (simp add: is_following_tail_def)
    then show ?thesis using at st' by (intro exI [of _ st']) (auto simp: eq)
  qed
qed

text \<open>The offset the scrollbar reads back.\<close>

lemma scroll_px_offset_ok:
  assumes ok: "list_ok st" and fit: "items_fit (li_items st)"
  shows "scroll_px_offset_for_scrollbar st = Some \<lparr>px = 0, py =
    (if li_scroll_anchor st = None \<and> li_alignment st = BottomAligned then - max_scroll_offset st else - scroll_position st)\<rparr>"
proof (cases "li_scroll_anchor st = None \<and> li_alignment st = BottomAligned")
  case False
  have t: "tree_ok list_ops (li_items st)" using ok by (simp add: list_ok_def)
  let ?ix = "lo_item_ix (logical_scroll_top st)"
  have c: "sums.cursor_ok (li_items st) (cursor_new list_sums (li_items st)) 0"
    using t fit by (simp add: sums.cursor_new_ok items_fit_def)
  have "\<exists>c'. cursor_summary list_sums list_sums (cursor_new list_sums (li_items st)) (count_summary_target ?ix) Right =
      Some (sums.advance list_summary_zero (take ?ix (items_of st)), c')"
    using sums.cursor_summary_ok [OF sums.dimension_laws_axioms c mono_count_sums, of ?ix Right] logical_scroll_top_le [OF ok]
    by (auto simp: cursor_new_def sums.seek_index_def skip_count_sums min_def)
  then show ?thesis
    using False by (auto simp: scroll_px_offset_for_scrollbar_def scroll_position_eq [OF ok] height_before_def Let_def)
qed (simp add: scroll_px_offset_for_scrollbar_def)


text \<open>
  Revealing an item. The viewport shows the content from the scroll position on; a revealed item that fits it
  lies in it with the paddings.
\<close>

definition revealed :: "'p::linordered_field list_state \<Rightarrow> nat \<Rightarrow> bool" where
  "revealed st ix \<longleftrightarrow> scroll_position st \<le> height_before (items_of st) ix \<and>
     height_before (items_of st) (Suc ix) + e_top (layout_padding st) + e_bottom (layout_padding st)
       \<le> scroll_position st + height (bsize (layout_bounds st))"

lemma found_before:
  assumes "found_at_height h Left xs 0 k" "heights_ok xs" "k < n" "n \<le> length xs"
  shows "h \<le> height_before xs n"
proof -
  have "h \<le> height_before xs (Suc k)" using assms by (auto simp: found_at_height_def)
  also have "\<dots> \<le> height_before xs n" using assms by (intro height_before_mono) simp_all
  finally show ?thesis .
qed

lemma scroll_to_reveal_item_ok:
  assumes ok: "list_ok st" and fit: "items_fit (li_items st)" and ix: "ix < length (items_of st)"
    and within: "offset_within (items_of st) (logical_scroll_top st)"
    and room: "item_height (items_of st ! ix) + e_top (layout_padding st) + e_bottom (layout_padding st)
      \<le> height (bsize (layout_bounds st))"
  shows "\<exists>st'. scroll_to_reveal_item ix st = Some st' \<and> list_ok st' \<and> li_items st' = li_items st \<and> revealed st' ix"
proof -
  let ?xs = "items_of st" and ?l = "logical_scroll_top st" and ?pad = "layout_padding st"
  let ?view = "height (bsize (layout_bounds st))"
  have t: "tree_ok list_ops (li_items st)" and h: "heights_ok ?xs" using ok by (simp_all add: list_ok_def)
  have view: "(case li_last_layout_bounds st of Some b \<Rightarrow> height (bsize b) | None \<Rightarrow> 0) = ?view"
    by (simp add: layout_bounds_def split: option.split)
  have suc: "height_before ?xs (Suc ix) = height_before ?xs ix + item_height (?xs ! ix)"
    by (rule height_before_Suc [OF ix])
  note eq = scroll_to_reveal_item_def [of ix st, unfolded view Let_def]
  have reveal: "\<exists>st'. set_scroll_anchor (Some p) st = Some st' \<and> list_ok st' \<and> li_items st' = li_items st \<and> revealed st' ix"
    if "lo_item_ix p \<le> length ?xs" "height_before ?xs (lo_item_ix p) + lo_offset_in_item p \<le> height_before ?xs ix"
      "height_before ?xs (Suc ix) + e_top ?pad + e_bottom ?pad \<le> height_before ?xs (lo_item_ix p) + lo_offset_in_item p + ?view" for p
  proof -
    note p = that
    obtain st' where st': "set_scroll_anchor (Some p) st = Some st'" "list_ok st'" "li_items st' = li_items st"
      "scroll_position st' = height_before ?xs (lo_item_ix p) + lo_offset_in_item p" "st' = st\<lparr>li_scroll_anchor := li_scroll_anchor st'\<rparr>"
      using set_anchor_position [OF ok fit p(1)] by blast
    moreover have "layout_padding st' = ?pad" "layout_bounds st' = layout_bounds st"
      by (subst st'(5), simp add: layout_padding_def layout_bounds_def)+
    ultimately show ?thesis using p by (intro exI [of _ st']) (simp add: revealed_def)
  qed
  show ?thesis
  proof (cases "ix \<le> lo_item_ix ?l")
    case True
    then show ?thesis
      using reveal [of "?l\<lparr>lo_item_ix := ix, lo_offset_in_item := 0\<rparr>"] ix suc room by (simp add: eq algebra_simps)
  next
    case False
    obtain r1 c1 where 1: "seek list_sums (cursor_new list_sums (li_items st)) (count_summary_target (Suc ix)) Right = Some (r1, c1)"
      "sums.cursor_ok (li_items st) c1 (Suc ix)"
      using seek_sums_count [OF t fit, of "cursor_new list_sums (li_items st)" "Suc ix"] ix by (auto simp: cursor_new_def min_def)
    define goal where "goal = max 0 (height_before ?xs (Suc ix) + e_top ?pad - ?view + e_bottom ?pad)"
    have g: "0 \<le> goal" by (simp add: goal_def)
    obtain r2 c2 k where 2: "seek list_sums c1 (height_summary_target goal) Left = Some (r2, c2)"
      "sums.cursor_ok (li_items st) c2 k" "found_at_height goal Left ?xs 0 k"
      using seek_sums_height [OF t fit cursor_ok_tree(1) [OF 1(2)] h g] by blast
    let ?p = "if k \<ge> lo_item_ix ?l then ?l\<lparr>lo_item_ix := k, lo_offset_in_item := goal - height_before ?xs k\<rparr> else ?l"
    have "scroll_to_reveal_item ix st = set_scroll_anchor (Some ?p) st"
      using False 1(1) 2(1) by (simp add: eq cursor_start_sums [OF 1(2)] cursor_start_sums [OF 2(2)] flip: goal_def)
    moreover have "goal \<le> height_before ?xs ix"
      using room suc height_before_mono [OF _ h, of 0 ix] by (simp add: goal_def algebra_simps)
    moreover have "height_before ?xs (Suc ix) + e_top ?pad + e_bottom ?pad \<le> goal + ?view"
      by (simp add: goal_def max_def algebra_simps)
    moreover have k: "k \<le> length ?xs" using 2(3) by (simp add: found_at_height_def)
    moreover have "goal \<le> height_before ?xs (lo_item_ix ?l) + lo_offset_in_item ?l" if "k < lo_item_ix ?l"
      using found_before [OF 2(3) h that] within by (simp add: offset_within_def)
    moreover have "height_before ?xs (lo_item_ix ?l) + lo_offset_in_item ?l \<le> height_before ?xs ix"
    proof -
      have "height_before ?xs (lo_item_ix ?l) + lo_offset_in_item ?l \<le> height_before ?xs (Suc (lo_item_ix ?l))"
        using within False ix by (simp add: offset_within_def height_before_Suc)
      also have "\<dots> \<le> height_before ?xs ix" using False h by (intro height_before_mono) simp_all
      finally show ?thesis .
    qed
    ultimately show ?thesis
      using reveal [of ?p] within by (auto simp: offset_within_def intro: order.trans split: if_splits)
  qed
qed


section \<open>Where items are\<close>

lemma seek_tops:
  assumes "tree_ok list_ops t" "items_fit t"
  shows "\<exists>r c. seek count_height_dim (cursor_new count_height_dim t) (dimensions_target (count_target n)) Right = Some (r, c) \<and>
    tops.cursor_ok t c (min n (length (to_list t))) \<and> c_did_seek c"
  using tops.seek_ok [of "cursor_new count_height_dim t" "dimensions_target (count_target n)" Right] assms
  by (auto simp: items_fit_def cursor_new_def tops.seek_index_def skip_tops count_height_add)

lemma cursor_start_tops:
  assumes "tops.cursor_ok t c n"
  shows "cursor_start c = (n, height_before (to_list t) n, ())"
  using tops.cursor_ok_position [OF assms] tops.cursor_ok_bounds [OF assms]
  by (simp add: cursor_start_def height_before_def count_height_add advance_tops)

lemma seek_forward_tops:
  assumes "tops.cursor_ok t c m" "m \<le> n"
  shows "\<exists>r c'. seek_forward count_height_dim c (dimensions_target (count_target n)) Right = Some (r, c') \<and>
    tops.cursor_ok t c' (min n (length (to_list t))) \<and> c_did_seek c'"
proof -
  have "dimensions_target (count_target n) (c_position c) \<noteq> Less"
    using cursor_start_tops [OF assms(1)] assms(2) by (simp add: cursor_start_def)
  moreover have "tops.seek_index (dimensions_target (count_target n)) Right t m = min n (length (to_list t))"
    using tops.cursor_ok_bounds [OF assms(1)] assms(2)
    by (auto simp: tops.seek_index_def count_height_add advance_tops skip_tops)
  ultimately show ?thesis
    using tops.seek_forward_ok [OF assms(1) mono_tops, of n Right] by auto
qed

lemma bounds_for_item_ok:
  assumes ok: "list_ok st" and fit: "items_fit (li_items st)"
  shows "bounds_for_item ix st = Some
    (if lo_item_ix (logical_scroll_top st) \<le> ix \<and> ix < length (items_of st) then
       map_option (\<lambda>s. from_corners
           \<lparr>px = px (origin (layout_bounds st)), py = py (origin (layout_bounds st)) + height_before (items_of st) ix - scroll_position st\<rparr>
           \<lparr>px = px (bottom_right (layout_bounds st)),
            py = py (origin (layout_bounds st)) + height_before (items_of st) ix - scroll_position st + height s\<rparr>)
         (item_size (items_of st ! ix))
     else None)"
proof (cases "ix < lo_item_ix (logical_scroll_top st)")
  case True
  then show ?thesis by (simp add: bounds_for_item_def Let_def)
next
  case False
  let ?n = "lo_item_ix (logical_scroll_top st)" and ?xs = "items_of st"
  have t: "tree_ok list_ops (li_items st)" using ok by (simp add: list_ok_def)
  obtain r1 c1 where 1: "seek count_height_dim (cursor_new count_height_dim (li_items st)) (dimensions_target (count_target ?n)) Right = Some (r1, c1)"
    "tops.cursor_ok (li_items st) c1 ?n"
    using seek_tops [OF t fit, of ?n] logical_scroll_top_le [OF ok] by (auto simp: min_def)
  obtain r2 c2 where 2: "seek_forward count_height_dim c1 (dimensions_target (count_target ix)) Right = Some (r2, c2)"
    "tops.cursor_ok (li_items st) c2 (min ix (length ?xs))" "c_did_seek c2"
    using seek_forward_tops [OF 1(2), of ix] False by auto
  have "cursor_item c2 = Some (if ix < length ?xs then Some (?xs ! ix) else None)"
    using tops.cursor_item_ok(1) [OF 2(2,3)] by (auto simp: min_def split: if_splits)
  then show ?thesis
    using False 1(1) 2(1)
    by (cases "?xs ! ix") (auto simp: bounds_for_item_def Let_def cursor_start_tops [OF 1(2)] cursor_start_tops [OF 2(2)]
        scroll_position_eq [OF ok] algebra_simps)
qed

section \<open>The other operations\<close>

lemma list_new_ok: "\<exists>st. list_new n alignment overdraw = Some st \<and> list_ok st \<and> items_of st = replicate n (Unmeasured None None)"
proof -
  let ?st = "\<lparr>li_last_layout_bounds = None, li_last_padding = None, li_items = new_tree list_ops, li_scroll_anchor = None,
        li_alignment = alignment, li_overdraw = overdraw, li_reset = False, li_drag_start_height = None,
        li_measuring_behavior = MeasureVisible, li_follow_state = FollowNormal\<rparr>"
  have "list_ok ?st" "items_fit (li_items ?st)"
    by (simp_all add: list_ok_def heights_ok_def anchor_ok_def items_fit_def STACK_CAP_def)
  from splice_ok [OF this, of 0 0 "replicate n None"] show ?thesis
    by (auto simp: list_new_def list_splice_def)
qed

lemma list_reset_ok:
  assumes ok: "list_ok st" and fit: "items_fit (li_items st)"
  shows "\<exists>st'. list_reset n st = Some st' \<and> list_ok st' \<and> items_of st' = replicate n (Unmeasured None None) \<and>
    li_scroll_anchor st' = None \<and> li_reset st'"
proof -
  let ?st = "st\<lparr>li_reset := True, li_measuring_behavior := measuring_reset (li_measuring_behavior st),
    li_scroll_anchor := None, li_drag_start_height := None\<rparr>"
  have "list_ok ?st" using ok by (simp add: list_ok_def anchor_ok_def)
  then obtain st' where st': "splice_focusable 0 (length (items_of st)) (replicate n None) ?st = Some st'" "list_ok st'"
    "items_of st' = replicate n (Unmeasured None None)" "st' = ?st\<lparr>li_items := li_items st', li_scroll_anchor := None\<rparr>"
    using splice_ok [of ?st 0 "length (items_of st)" "replicate n None"] fit by auto
  have "item_count st = length (items_of st)" using ok by (simp add: item_count_ok list_ok_def)
  then have "list_reset n st = Some st'"
    using st'(1) by (simp add: list_reset_def list_splice_def set_scroll_anchor_def item_count_def)
  moreover have "li_scroll_anchor st' = None" "li_reset st'"
    by (subst st'(4), simp)+
  ultimately show ?thesis using st'(2,3) by blast
qed

lemma apply_uniform_item_height_ok:
  assumes ok: "list_ok st" and fit: "items_fit (li_items st)" and h: "0 \<le> h"
  shows "\<exists>st'. apply_uniform_item_height h st = Some st' \<and> list_ok st' \<and> length (items_of st') = length (items_of st) \<and>
    \<not> ls_has_unknown_height (node_summary (li_items st')) \<and>
    map item_height (items_of st') =
      map (\<lambda>x. if item_size_hint x = None then h else item_height x) (items_of st) \<and>
    map item_focus_handle (items_of st') = map item_focus_handle (items_of st)"
proof -
  let ?f = "\<lambda>item. Unmeasured (Some (case item_size_hint item of Some s \<Rightarrow> s | None \<Rightarrow> \<lparr>width = 0, height = h\<rparr>)) (item_focus_handle item)"
  have t: "tree_ok list_ops (li_items st)" using ok by (simp add: list_ok_def)
  obtain t' where t': "tree_extend list_ops (new_tree list_ops) (map ?f (items_of st)) = Some t'" "tree_ok list_ops t'"
    "to_list t' = map ?f (items_of st)"
    using counts.tree_extend_ok [OF tree_ok_new] by auto
  have heights: "item_height (?f x) = (if item_size_hint x = None then h else item_height x)" for x
    by (cases x) (auto simp: item_height_def split: option.splits)
  have "list_ok (st\<lparr>li_items := t'\<rparr>)"
    using ok t' h by (auto simp: list_ok_def heights_ok_def heights)
  then show ?thesis
    using t' heights t fit
    by (intro exI [of _ "st\<lparr>li_items := t'\<rparr>"])
      (simp add: apply_uniform_item_height_def counts.tree_iter_ok items_fit_def counts.ok_summary lsum_unknown comp_def)
qed


lemma visible_range_ok:
  assumes t: "tree_ok list_ops t" and fit: "items_fit t" and h: "heights_ok (to_list t)"
    and l: "lo_item_ix l \<le> length (to_list t)" "0 \<le> lo_offset_in_item l" "0 \<le> view"
  shows "\<exists>k. visible_range t view l = Some (lo_item_ix l, k + 1) \<and>
    found_at_height (height_before (to_list t) (lo_item_ix l) + lo_offset_in_item l + view) Left (to_list t) (lo_item_ix l) k"
proof -
  obtain r1 c1 where 1: "seek list_sums (cursor_new list_sums t) (count_summary_target (lo_item_ix l)) Right = Some (r1, c1)"
    "sums.cursor_ok t c1 (lo_item_ix l)"
    using seek_sums_count [OF t fit, of "cursor_new list_sums t" "lo_item_ix l"] l(1) by (auto simp: cursor_new_def min_def)
  let ?y = "height_before (to_list t) (lo_item_ix l) + lo_offset_in_item l + view"
  have "height_before (to_list t) (lo_item_ix l) \<le> ?y" using l by simp
  from seek_forward_sums_height [OF 1(2) h this, of Left] obtain r2 c2 k where
    2: "seek_forward list_sums c1 (height_summary_target ?y) Left = Some (r2, c2)" "sums.cursor_ok t c2 k"
      "found_at_height ?y Left (to_list t) (lo_item_ix l) k"
    by blast
  then show ?thesis
    using 1(1) by (intro exI [of _ k])
      (simp add: visible_range_def Let_def cursor_start_sums [OF 1(2)] cursor_start_sums [OF 2(2)])
qed

definition content_max :: "'p::linordered_field list_state \<Rightarrow> 'p \<Rightarrow> 'p" where
  "content_max st view = max (height_before (items_of st) (length (items_of st)) + e_top (layout_padding st)
     + e_bottom (layout_padding st) - view) 0"

lemma list_scroll_ok:
  fixes st :: "'p::linordered_field list_state" and view :: 'p and delta :: "'p point" and logical :: "'p list_offset"
  assumes ok: "list_ok st" and fit: "items_fit (li_items st)" and r: "\<not> li_reset st" "py delta \<noteq> 0"
    and l: "lo_item_ix logical \<le> length (items_of st)" "0 \<le> lo_offset_in_item logical" "0 \<le> view"
  defines "y \<equiv> min (max (scroll_top st logical - py delta) 0) (content_max st view)"
  shows "\<exists>st' ev. list_scroll handler logical view delta st = Some (st', ev) \<and> list_ok st' \<and> li_items st' = li_items st \<and>
    (if li_alignment st = BottomAligned \<and> y = content_max st view then li_scroll_anchor st' = None
     else scroll_position st' = y \<and> offset_within (items_of st) (logical_scroll_top st') \<and> li_scroll_anchor st' \<noteq> None) \<and>
    li_follow_state st' = (if py delta > 0 then stop_following (li_follow_state st) else li_follow_state st) \<and>
    (if handler then \<exists>e. ev = Some e \<and> ev_count e = length (items_of st) \<and> (ev_is_scrolled e \<longleftrightarrow> li_scroll_anchor st' \<noteq> None) \<and>
        (ev_is_following_tail e \<longleftrightarrow> is_following_tail st') \<and> fst (ev_visible_range e) = lo_item_ix logical
     else ev = None)"
proof -
  have t: "tree_ok list_ops (li_items st)" and h: "heights_ok (items_of st)" using ok by (simp_all add: list_ok_def)
  have y: "0 \<le> y" by (simp add: y_def content_max_def)
  have max: "max (ls_height (node_summary (li_items st)) + e_top (layout_padding st) + e_bottom (layout_padding st) - view) 0 = content_max st view"
    by (simp add: content_max_def total_height [OF t])
  let ?bottom = "li_alignment st = BottomAligned \<and> y = content_max st view"
  have "\<exists>st1. (if ?bottom then set_scroll_anchor None st else set_scroll_anchor (Some (offset_at_height st y)) st) = Some st1 \<and>
      list_ok st1 \<and> li_items st1 = li_items st \<and> st1 = st\<lparr>li_scroll_anchor := li_scroll_anchor st1\<rparr> \<and>
      (if ?bottom then li_scroll_anchor st1 = None
       else scroll_position st1 = y \<and> offset_within (items_of st) (logical_scroll_top st1) \<and> li_scroll_anchor st1 \<noteq> None)"
    using set_anchor_at_height [OF ok fit y] list_ok_unanchored [OF ok] by (auto simp: set_scroll_anchor_def)
  then obtain st1 where st1: "(if ?bottom then set_scroll_anchor None st else set_scroll_anchor (Some (offset_at_height st y)) st) = Some st1"
      "list_ok st1" "li_items st1 = li_items st" "st1 = st\<lparr>li_scroll_anchor := li_scroll_anchor st1\<rparr>"
      "if ?bottom then li_scroll_anchor st1 = None
       else scroll_position st1 = y \<and> offset_within (items_of st) (logical_scroll_top st1) \<and> li_scroll_anchor st1 \<noteq> None"
    by blast
  define st2 where "st2 = (if py delta > 0 then st1\<lparr>li_follow_state := stop_following (li_follow_state st1)\<rparr> else st1)"
  have follow: "li_follow_state st1 = li_follow_state st" "li_alignment st1 = li_alignment st" by (subst st1(4), simp)+
  have st2: "list_ok st2" "li_items st2 = li_items st" "li_scroll_anchor st2 = li_scroll_anchor st1"
      "scroll_position st2 = scroll_position st1" "logical_scroll_top st2 = logical_scroll_top st1"
      "li_follow_state st2 = (if py delta > 0 then stop_following (li_follow_state st) else li_follow_state st)"
    using st1(2,3) follow
    by (auto simp: st2_def scroll_position_def scroll_top_def logical_scroll_top_def item_count_def list_ok_def
        split: option.split list_alignment.split)
  obtain k where k: "visible_range (li_items st) view logical = Some (lo_item_ix logical, k + 1)"
    using visible_range_ok [OF t fit h l] by blast
  have "list_scroll handler logical view delta st =
      (if handler then Some (st2, Some \<lparr>ev_visible_range = (lo_item_ix logical, k + 1), ev_count = item_count st2,
          ev_is_scrolled = (li_scroll_anchor st2 \<noteq> None), ev_is_following_tail = is_following_tail st2\<rparr>) else Some (st2, None))"
    unfolding list_scroll_def Let_def max y_def [symmetric] st1(1) using r k st2(2) by (simp add: st2_def [symmetric])
  moreover have "item_count st2 = length (items_of st)"
    using st2(1,2) by (simp add: item_count_ok list_ok_def)
  ultimately show ?thesis
    using st2 st1(5) by (cases handler) auto
qed

lemma scroll_to_ok:
  assumes ok: "list_ok st" and fit: "items_fit (li_items st)"
  shows "\<exists>st'. scroll_to target st = Some st' \<and> list_ok st' \<and> li_items st' = li_items st \<and>
    logical_scroll_top st' = (if lo_item_ix target < length (items_of st) then target
      else \<lparr>lo_item_ix = length (items_of st), lo_offset_in_item = 0\<rparr>)"
proof -
  have c: "item_count st = length (items_of st)" using ok by (simp add: item_count_ok list_ok_def)
  show ?thesis
  proof (cases "lo_item_ix target < length (items_of st)")
    case True
    have "list_ok (st\<lparr>li_follow_state := f\<rparr>)" for f using ok by (simp add: list_ok_def)
    from set_anchor_position [OF this [of "stop_following (li_follow_state st)"], of target] True fit show ?thesis
      by (auto simp: scroll_to_def Let_def c)
  next
    case False
    have eq: "target\<lparr>lo_item_ix := length (items_of st), lo_offset_in_item := 0\<rparr> =
        \<lparr>lo_item_ix = length (items_of st), lo_offset_in_item = 0\<rparr>"
      by simp
    have "scroll_to target st = set_scroll_anchor (Some \<lparr>lo_item_ix = length (items_of st), lo_offset_in_item = 0\<rparr>) st"
      using False by (simp only: scroll_to_def Let_def c eq linorder_not_less if_True) simp
    then show ?thesis
      using set_anchor_position [OF ok fit, of "\<lparr>lo_item_ix = length (items_of st), lo_offset_in_item = 0\<rparr>"] False
      by auto
  qed
qed

lemma scroll_to_end_ok:
  assumes "list_ok st" "items_fit (li_items st)"
  shows "\<exists>st'. scroll_to_end st = Some st' \<and> list_ok st' \<and> li_items st' = li_items st \<and>
    logical_scroll_top st' = \<lparr>lo_item_ix = length (items_of st), lo_offset_in_item = 0\<rparr>"
  using set_anchor_position [OF assms, of "\<lparr>lo_item_ix = length (items_of st), lo_offset_in_item = 0\<rparr>"] assms(1)
  by (auto simp: scroll_to_end_def item_count_ok list_ok_def)

lemma set_follow_mode_ok:
  assumes ok: "list_ok st" and fit: "items_fit (li_items st)"
  shows "\<exists>st'. set_follow_mode mode st = Some st' \<and> list_ok st' \<and> li_items st' = li_items st \<and>
    (is_following_tail st' \<longleftrightarrow> mode = TailMode)"
proof (cases mode)
  case NormalMode
  then show ?thesis
    using ok by (auto simp: set_follow_mode_def pause_following_tail_def list_ok_def anchor_ok_def is_following_tail_def Let_def)
next
  case TailMode
  let ?st = "st\<lparr>li_follow_state := FollowTail True\<rparr>"
  have "list_ok ?st" using ok by (simp add: list_ok_def)
  from set_anchor_position [OF this, of "\<lparr>lo_item_ix = item_count st, lo_offset_in_item = 0\<rparr>"] obtain st' where
    "set_scroll_anchor (Some \<lparr>lo_item_ix = item_count st, lo_offset_in_item = 0\<rparr>) ?st = Some st'" "list_ok st'" "li_items st' = li_items st"
    "st' = ?st\<lparr>li_scroll_anchor := li_scroll_anchor st'\<rparr>"
    using ok fit by (auto simp: item_count_ok list_ok_def)
  moreover from this(4) have "is_following_tail st'" by (metis is_following_tail_def list_state.simps(10) list_state.surjective list_state.update_convs(4,10))
  ultimately show ?thesis
    using TailMode by (auto simp: set_follow_mode_def)
qed

end
