(* ===== verification/ListLayout.thy ===== *)
theory ListLayout
  imports ListState
begin

text \<open>
  Laying out and prepainting the rows of a list element, \<open>gpui/src/elements/list.rs\<close>: which rows are rendered and
  measured, where the list is scrolled to afterwards, and what a row that asks to be scrolled into view does.

  What the code calls to draw a row is a parameter, \<open>list_env\<close>: the size that rendering a row and laying it out at
  a width gives (the same whenever it is asked during a frame), whether the row's measurement is final, whether the
  row is kept in a layer and so not drawn again, whether the focus is inside a focus handle, where a layer places the rows,
  and the rectangle a row prepainted at an origin asks to be scrolled to.
\<close>

section \<open>Laying out rows\<close>

record 'p list_env =
  env_size :: "'p option \<Rightarrow> nat \<Rightarrow> 'p size2"
  env_ready :: "nat \<Rightarrow> bool"
  env_keeps :: "nat \<Rightarrow> bool \<Rightarrow> bool"
  env_focused :: "nat \<Rightarrow> bool"
  env_snap :: "'p list_offset \<Rightarrow> 'p point \<Rightarrow> 'p point"
  env_place :: "nat \<Rightarrow> 'p point \<Rightarrow> 'p point"
  env_autoscroll :: "nat \<Rightarrow> 'p point \<Rightarrow> 'p bounds option"

definition contains_focused :: "'p list_env \<Rightarrow> 'p list_item \<Rightarrow> bool" where
  "contains_focused env item = (case item_focus_handle item of Some f \<Rightarrow> env_focused env f | None \<Rightarrow> False)"

record 'p item_layout =
  il_index :: nat
  il_size :: "'p size2"

record 'p layout_items_response =
  lr_max_item_width :: 'p
  lr_scroll_top :: "'p list_offset"
  lr_item_layouts :: "'p item_layout list"

text \<open>\<open>layout_all_items\<close>: measuring every item once.\<close>

definition measure_item :: "'p list_env \<Rightarrow> 'p option \<Rightarrow> nat \<times> 'p list_item \<Rightarrow> 'p list_item" where
  "measure_item env w = (\<lambda>(ix, item).
     with_measurement item (case item_size item of Some s \<Rightarrow> s | None \<Rightarrow> env_size env w ix) (env_ready env ix))"

definition layout_all_items :: "'p list_env \<Rightarrow> 'p::linordered_field \<Rightarrow> 'p list_state \<Rightarrow> 'p list_state option" where
  "layout_all_items env available_width st =
     (case li_measuring_behavior st of
        MeasureVisible \<Rightarrow> Some st
      | MeasureAll True \<Rightarrow> Some st
      | MeasureAll False \<Rightarrow>
          do { its \<leftarrow> filter_collect count_dim (\<lambda>_. True) (cursor_new count_dim (li_items st)) [];
               tree \<leftarrow> from_iter list_ops (map (measure_item env (Some available_width)) (enumerate 0 its));
               Some (st\<lparr>li_items := tree,
                        li_measuring_behavior := MeasureAll (ls_unrendered_count (node_summary tree) = 0)\<rparr>) })"

text \<open>The locals of \<open>layout_items\<close> that its loops change.\<close>

record 'p row_state =
  rw_measured :: "'p list_item list"
  rw_layouts :: "'p item_layout list"
  rw_height :: 'p
  rw_max_width :: 'p
  rw_scroll_top :: "'p list_offset"
  rw_anchor :: "'p scroll_anchor option"
  rw_provisional :: bool
  rw_focused :: bool

text \<open>A measured first row settles the offset a pending scroll asks for.\<close>

definition settle_pending :: "'p::linordered_field \<Rightarrow> 'p row_state \<Rightarrow> 'p row_state" where
  "settle_pending h r =
     (case rw_anchor r of
        None \<Rightarrow> r
      | Some anchor \<Rightarrow>
          (case sa_pending anchor of
             None \<Rightarrow> r
           | Some pending \<Rightarrow>
               let scroll_top = (rw_scroll_top r)\<lparr>lo_offset_in_item :=
                     (case pending of PendingAbsolute offset \<Rightarrow> min offset h | PendingProportional fraction \<Rightarrow> h * fraction)\<rparr>
               in r\<lparr>rw_scroll_top := scroll_top, rw_anchor := Some (anchor\<lparr>sa_pending := None, sa_position := scroll_top\<rparr>)\<rparr>))"

definition push_layout :: "'p list_env \<Rightarrow> nat \<Rightarrow> 'p size2 \<Rightarrow> 'p list_item \<Rightarrow> 'p row_state \<Rightarrow> 'p row_state" where
  "push_layout env item_index s item r =
     r\<lparr>rw_layouts := rw_layouts r @ [\<lparr>il_index = item_index, il_size = s\<rparr>],
       rw_focused := rw_focused r \<or> contains_focused env item\<rparr>"

text \<open>One round of the loop over the rows from the scroll top on, and whether it is the last.\<close>

definition forward_row ::
    "'p::linordered_field list_env \<Rightarrow> 'p option \<Rightarrow> 'p \<Rightarrow> nat \<Rightarrow> 'p list_item \<Rightarrow> 'p row_state \<Rightarrow> 'p row_state \<times> bool" where
  "forward_row env w available_height ix item r =
     (let visible_height = rw_height r - lo_offset_in_item (rw_scroll_top r);
          item_index = lo_item_ix (rw_scroll_top r) + ix;
          ready = env_ready env item_index;
          known = (if visible_height \<ge> available_height \<or> env_keeps env item_index (item_size item \<noteq> None)
                   then item_size item else None);
          (s, r) =
            (case known of
               Some s \<Rightarrow> (s, r)
             | None \<Rightarrow>
                 let element_size = env_size env w item_index;
                     r = (if ix = 0 \<and> ready then settle_pending (height element_size) r else r);
                     r = (if visible_height < available_height then push_layout env item_index element_size item r else r)
                 in (element_size, r))
      in (r\<lparr>rw_height := rw_height r + height s, rw_max_width := max (rw_max_width r) (width s),
             rw_provisional := rw_provisional r \<or> \<not> ready, rw_measured := rw_measured r @ [with_measurement item s ready]\<rparr>,
          \<not> ready \<and> visible_height \<ge> available_height))"

partial_function (option) forward_loop ::
    "'p::linordered_field list_env \<Rightarrow> 'p option \<Rightarrow> 'p \<Rightarrow> 'p \<Rightarrow> nat \<Rightarrow> ('p list_item, 'p list_item_summary, nat) cursor
       \<Rightarrow> 'p row_state \<Rightarrow> ('p row_state \<times> ('p list_item, 'p list_item_summary, nat) cursor) option" where
  "forward_loop env w available_height overdraw ix c r =
     do { (item, c) \<leftarrow> cursor_iter_next count_dim c;
          case item of
            None \<Rightarrow> Some (r, c)
          | Some item \<Rightarrow>
              if rw_height r - lo_offset_in_item (rw_scroll_top r) \<ge> available_height + overdraw then Some (r, c)
              else
                (case forward_row env w available_height ix item r of
                   (r, stop) \<Rightarrow> if stop then Some (r, c) else forward_loop env w available_height overdraw (ix + 1) c r) }"

declare forward_loop.simps [code]

text \<open>The loop that walks up while the rows do not fill the viewport.\<close>

definition upward_row :: "'p::linordered_field list_env \<Rightarrow> 'p option \<Rightarrow> nat \<Rightarrow> 'p list_item \<Rightarrow> 'p row_state \<Rightarrow> 'p row_state" where
  "upward_row env w item_index item r =
     (let element_size = env_size env w item_index; ready = env_ready env item_index
      in r\<lparr>rw_provisional := rw_provisional r \<or> \<not> ready, rw_height := rw_height r + height element_size,
           rw_measured := with_measurement item element_size ready # rw_measured r,
           rw_layouts := \<lparr>il_index = item_index, il_size = element_size\<rparr> # rw_layouts r,
           rw_focused := rw_focused r \<or> contains_focused env item\<rparr>)"

partial_function (option) upward_loop ::
    "'p::linordered_field list_env \<Rightarrow> 'p option \<Rightarrow> 'p \<Rightarrow> bool \<Rightarrow> ('p list_item, 'p list_item_summary, nat) cursor
       \<Rightarrow> 'p row_state \<Rightarrow> ('p row_state \<times> ('p list_item, 'p list_item_summary, nat) cursor) option" where
  "upward_loop env w available_height preserve_anchor c r =
     (if rw_height r < available_height then
        do { c \<leftarrow> cursor_prev count_dim c;
             item \<leftarrow> cursor_item c;
             case item of
               None \<Rightarrow> Some (r, c)
             | Some item \<Rightarrow>
                 let r = upward_row env w (cursor_start c) item r
                 in if preserve_anchor \<and> rw_provisional r then Some (r, c)
                    else upward_loop env w available_height preserve_anchor c r }
      else Some (r, c))"

declare upward_loop.simps [code]

text \<open>If the rows do not fill the viewport, the scroll top moves up.\<close>

definition fill_viewport ::
    "'p::linordered_field list_env \<Rightarrow> 'p option \<Rightarrow> 'p \<Rightarrow> bool \<Rightarrow> ('p list_item, 'p list_item_summary, nat) cursor
       \<Rightarrow> 'p row_state \<Rightarrow> 'p list_state
       \<Rightarrow> ('p row_state \<times> ('p list_item, 'p list_item_summary, nat) cursor \<times> 'p list_state) option" where
  "fill_viewport env w available_height preserve_anchor c r st =
     (if \<not> rw_provisional r \<and> rw_height r - lo_offset_in_item (rw_scroll_top r) < available_height then
        do { (r', c) \<leftarrow> upward_loop env w available_height preserve_anchor c r;
             if preserve_anchor \<and> rw_provisional r' then
               Some (r'\<lparr>rw_layouts := drop (length (rw_layouts r') - length (rw_layouts r)) (rw_layouts r'),
                        rw_focused := rw_focused r\<rparr>, c, st)
             else
               let scroll_top = \<lparr>lo_item_ix = cursor_start c, lo_offset_in_item = rw_height r' - available_height\<rparr>
               in case li_alignment st of
                    TopAligned \<Rightarrow>
                      let scroll_top = scroll_top\<lparr>lo_offset_in_item := max (lo_offset_in_item scroll_top) 0\<rparr>
                      in do { st \<leftarrow> set_scroll_anchor (Some scroll_top) st; Some (r'\<lparr>rw_scroll_top := scroll_top\<rparr>, c, st) }
                  | BottomAligned \<Rightarrow>
                      do { st \<leftarrow> set_scroll_anchor None st; Some (r'\<lparr>rw_scroll_top := scroll_top\<rparr>, c, st) } }
      else Some (r, c, st))"

text \<open>Measuring the rows of the leading overdraw.\<close>

partial_function (option) leading_loop ::
    "'p::linordered_field list_env \<Rightarrow> 'p option \<Rightarrow> 'p \<Rightarrow> 'p \<Rightarrow> ('p list_item, 'p list_item_summary, nat) cursor
       \<Rightarrow> 'p list_item list \<Rightarrow> ('p list_item list \<times> ('p list_item, 'p list_item_summary, nat) cursor) option" where
  "leading_loop env w overdraw leading_overdraw c measured =
     (if leading_overdraw < overdraw then
        do { c \<leftarrow> cursor_prev count_dim c;
             item \<leftarrow> cursor_item c;
             case item of
               None \<Rightarrow> Some (measured, c)
             | Some item \<Rightarrow>
                 let s = (case item of Measured s _ \<Rightarrow> s | Unmeasured _ _ \<Rightarrow> env_size env w (cursor_start c));
                     ready = env_ready env (cursor_start c);
                     measured = with_measurement item s ready # measured
                 in if \<not> ready then Some (measured, c)
                    else leading_loop env w overdraw (leading_overdraw + height s) c measured }
      else Some (measured, c))"

declare leading_loop.simps [code]

text \<open>The measured rows replace the items they measure.\<close>

definition replace_measured ::
    "'p::linordered_field list_items \<Rightarrow> nat \<Rightarrow> 'p list_item list \<Rightarrow> 'p list_items option" where
  "replace_measured old_items start measured =
     do { (new_items, c) \<leftarrow> slice list_ops count_dim (cursor_new count_dim old_items) (count_target start) Right;
          new_items \<leftarrow> tree_extend list_ops new_items measured;
          (_, c) \<leftarrow> seek count_dim c (count_target (start + length measured)) Right;
          (rest, _) \<leftarrow> suffix list_ops count_dim c;
          append_tree list_ops new_items rest }"

text \<open>\<open>layout_items\<close> up to the search for a focused row outside the viewport.\<close>

definition layout_rows ::
    "'p::linordered_field list_env \<Rightarrow> 'p option \<Rightarrow> 'p \<Rightarrow> 'p edges \<Rightarrow> 'p list_state \<Rightarrow> ('p list_state \<times> 'p row_state) option" where
  "layout_rows env w available_height padding st =
     do { (target, st) \<leftarrow>
            (if is_following (li_follow_state st) \<or> (case li_scroll_anchor st of Some anchor \<Rightarrow> sa_pending_end anchor | None \<Rightarrow> False)
             then
               let target = \<lparr>lo_item_ix = item_count st, lo_offset_in_item = 0\<rparr>
               in do { st \<leftarrow> set_scroll_anchor (Some target) st; Some (target, st) }
             else Some (logical_scroll_top st, st));
          let preserve_anchor = lo_item_ix target < item_count st;
          let st = (if preserve_anchor then st else st\<lparr>li_follow_state := start_following (li_follow_state st)\<rparr>);
          (_, c) \<leftarrow> seek count_dim (cursor_new count_dim (li_items st)) (count_target (lo_item_ix target)) Right;
          (r, c) \<leftarrow> forward_loop env w available_height (li_overdraw st) 0 c
            \<lparr>rw_measured = [], rw_layouts = [], rw_height = e_top padding, rw_max_width = 0, rw_scroll_top = target,
             rw_anchor = li_scroll_anchor st, rw_provisional = False, rw_focused = False\<rparr>;
          let st = st\<lparr>li_scroll_anchor := rw_anchor r\<rparr>;
          let r = r\<lparr>rw_height := rw_height r + e_bottom padding\<rparr>;
          (_, c) \<leftarrow> seek count_dim c (count_target (lo_item_ix (rw_scroll_top r))) Right;
          (r, c, st) \<leftarrow> fill_viewport env w available_height preserve_anchor c r st;
          let st = st\<lparr>li_scroll_anchor := map_option (\<lambda>anchor. anchor\<lparr>sa_provisional := preserve_anchor \<and> rw_provisional r,
                      sa_pending_end := \<not> preserve_anchor \<and> rw_provisional r\<rparr>) (li_scroll_anchor st)\<rparr>;
          (measured, c) \<leftarrow>
            (if rw_provisional r then Some (rw_measured r, c)
             else leading_loop env w (li_overdraw st) (lo_offset_in_item (rw_scroll_top r)) c (rw_measured r));
          new_items \<leftarrow> replace_measured (li_items st) (cursor_start c) measured;
          let st = st\<lparr>li_items := new_items\<rparr>;
          let total_height = ls_height (node_summary new_items) + e_top (layout_padding st) + e_bottom (layout_padding st);
          let st = (if \<not> rw_provisional r \<and> has_stopped_following (li_follow_state st) \<and>
                       scroll_top st (rw_scroll_top r) + available_height \<ge> total_height - 1
                    then st\<lparr>li_follow_state := start_following (li_follow_state st)\<rparr> else st);
          Some (st, r) }"

text \<open>The first focused row in the tree of items.\<close>

partial_function (option) focused_loop ::
    "'p::linordered_field list_env \<Rightarrow> ('p list_item, 'p list_item_summary, nat) cursor \<Rightarrow> nat option option" where
  "focused_loop env c =
     do { item \<leftarrow> cursor_item c;
          case item of
            None \<Rightarrow> Some None
          | Some item \<Rightarrow>
              if contains_focused env item then Some (Some (cursor_start c))
              else do { c \<leftarrow> search_forward count_dim ls_has_focus_handles c; focused_loop env c } }"

declare focused_loop.simps [code]

definition layout_items ::
    "'p::linordered_field list_env \<Rightarrow> 'p option \<Rightarrow> 'p \<Rightarrow> 'p edges \<Rightarrow> 'p list_state
       \<Rightarrow> ('p list_state \<times> 'p layout_items_response) option" where
  "layout_items env w available_height padding st =
     do { (st, r) \<leftarrow> layout_rows env w available_height padding st;
          layouts \<leftarrow>
            (if rw_focused r then Some (rw_layouts r)
             else
               do { c \<leftarrow> search_forward count_dim ls_has_focus_handles (cursor_new count_dim (li_items st));
                    focused \<leftarrow> focused_loop env c;
                    Some (case focused of
                            None \<Rightarrow> rw_layouts r
                          | Some ix \<Rightarrow> rw_layouts r @ [\<lparr>il_index = ix, il_size = env_size env w ix\<rparr>]) });
          Some (st, \<lparr>lr_max_item_width = rw_max_width r, lr_scroll_top = rw_scroll_top r, lr_item_layouts = layouts\<rparr>) }"

section \<open>Prepainting\<close>

text \<open>A row that asks for what lies above the viewport: the offset from its own top is turned into one of an earlier row.\<close>

partial_function (option) walk_up ::
    "'p::linordered_field list_env \<Rightarrow> 'p option \<Rightarrow> nat \<Rightarrow> 'p \<Rightarrow> ('p list_item, 'p list_item_summary, nat) cursor
       \<Rightarrow> 'p list_offset option" where
  "walk_up env w item_ix offset_in_item c =
     (if offset_in_item < 0 then
        do { c \<leftarrow> cursor_prev count_dim c;
             item \<leftarrow> cursor_item c;
             case item of
               None \<Rightarrow> Some \<lparr>lo_item_ix = item_ix, lo_offset_in_item = 0\<rparr>
             | Some item \<Rightarrow>
                 let s = (case item_size item of Some s \<Rightarrow> s | None \<Rightarrow> env_size env w (cursor_start c))
                 in walk_up env w (cursor_start c) (offset_in_item + height s) c }
      else Some \<lparr>lo_item_ix = item_ix, lo_offset_in_item = offset_in_item\<rparr>)"

declare walk_up.simps [code]

text \<open>A row that asks for what lies below: the scroll top is the highest that leaves the request in the viewport.\<close>

partial_function (option) walk_to_fill ::
    "'p::linordered_field list_env \<Rightarrow> 'p option \<Rightarrow> 'p \<Rightarrow> ('p list_item, 'p list_item_summary, nat) cursor
       \<Rightarrow> 'p list_offset option" where
  "walk_to_fill env w h c =
     (if h > 0 then
        do { c \<leftarrow> cursor_prev count_dim c;
             item \<leftarrow> cursor_item c;
             case item of
               None \<Rightarrow> Some \<lparr>lo_item_ix = cursor_start c, lo_offset_in_item = 0\<rparr>
             | Some item \<Rightarrow>
                 let s = (case item_size item of Some s \<Rightarrow> s | None \<Rightarrow> env_size env w (cursor_start c))
                 in walk_to_fill env w (h - height s) c }
      else Some \<lparr>lo_item_ix = cursor_start c, lo_offset_in_item = (if h < 0 then - h else 0)\<rparr>)"

declare walk_to_fill.simps [code]

definition autoscroll_offset ::
    "'p::linordered_field list_env \<Rightarrow> 'p bounds \<Rightarrow> 'p edges \<Rightarrow> 'p list_state \<Rightarrow> nat \<Rightarrow> 'p point \<Rightarrow> 'p bounds
       \<Rightarrow> 'p list_offset option option" where
  "autoscroll_offset env bounds padding st index item_origin request =
     (let w = Some (width (bsize bounds))
      in if py (origin request) < py (origin bounds) then
           let offset_in_item = py (origin request) - py item_origin
           in if offset_in_item < 0 then
                do { (_, c) \<leftarrow> seek count_dim (cursor_new count_dim (li_items st)) (count_target index) Right;
                     offset \<leftarrow> walk_up env w index offset_in_item c;
                     Some (Some offset) }
              else Some (Some \<lparr>lo_item_ix = index, lo_offset_in_item = offset_in_item\<rparr>)
         else if py (bottom_right request) > py (bottom_right bounds) then
           do { (_, c) \<leftarrow> seek count_dim (cursor_new count_dim (li_items st)) (count_target index) Right;
                offset \<leftarrow> walk_to_fill env w
                  (height (bsize bounds) - e_top padding - e_bottom padding - (py (bottom_right request) - py item_origin)) c;
                Some (Some offset) }
         else Some None)"

fun prepaint_rows ::
    "'p::linordered_field list_env \<Rightarrow> 'p bounds \<Rightarrow> 'p edges \<Rightarrow> bool \<Rightarrow> 'p list_state \<Rightarrow> 'p point \<Rightarrow> 'p item_layout list
       \<Rightarrow> 'p list_offset option option" where
  "prepaint_rows env bounds padding autoscroll st item_origin [] = Some None"
| "prepaint_rows env bounds padding autoscroll st item_origin (item # layouts) =
     (let item_origin = env_place env (il_index item) item_origin
      in do { request \<leftarrow>
                (case env_autoscroll env (il_index item) item_origin of
                   Some request \<Rightarrow>
                     if autoscroll then autoscroll_offset env bounds padding st (il_index item) item_origin request else Some None
                 | None \<Rightarrow> Some None);
              case request of
                Some offset \<Rightarrow> Some (Some offset)
              | None \<Rightarrow>
                  prepaint_rows env bounds padding autoscroll st
                    (item_origin\<lparr>py := py item_origin + height (il_size item)\<rparr>) layouts })"

definition measure_unmeasured :: "'p list_env \<Rightarrow> 'p::linordered_field \<Rightarrow> 'p list_state \<Rightarrow> 'p list_state option" where
  "measure_unmeasured env w st =
     (case li_measuring_behavior st of MeasureAll False \<Rightarrow> layout_all_items env w st | _ \<Rightarrow> Some st)"

definition prepaint_items ::
    "'p::linordered_field list_env \<Rightarrow> 'p bounds \<Rightarrow> 'p edges \<Rightarrow> bool \<Rightarrow> 'p list_state
       \<Rightarrow> ('p list_state \<times> ('p list_offset + 'p layout_items_response)) option" where
  "prepaint_items env bounds padding autoscroll st =
     do { st \<leftarrow> measure_unmeasured env (width (bsize bounds)) st;
          (st, response) \<leftarrow> layout_items env (Some (width (bsize bounds))) (height (bsize bounds)) padding st;
          if height (bsize bounds) > e_top padding + e_bottom padding then
            do { request \<leftarrow> prepaint_rows env bounds padding autoscroll st
                   (env_snap env (lr_scroll_top response) \<lparr>px = px (origin bounds), py = py (origin bounds) + e_top padding\<rparr>)
                   (lr_item_layouts response);
                 Some (st, case request of Some offset \<Rightarrow> Inl offset | None \<Rightarrow> Inr response) }
          else Some (st, Inr (response\<lparr>lr_item_layouts := []\<rparr>)) }"

partial_function (option) prepaint_loop ::
    "'p::linordered_field list_env \<Rightarrow> 'p bounds \<Rightarrow> 'p edges \<Rightarrow> bool \<Rightarrow> 'p list_state
       \<Rightarrow> ('p list_state \<times> 'p layout_items_response) option" where
  "prepaint_loop env bounds padding autoscroll st =
     do { (st, result) \<leftarrow> prepaint_items env bounds padding autoscroll st;
          case result of
            Inr layout \<Rightarrow> Some (st, layout)
          | Inl autoscroll_request \<Rightarrow>
              do { st \<leftarrow> set_scroll_anchor (Some autoscroll_request) st;
                   prepaint_loop env bounds padding False st } }"

declare prepaint_loop.simps [code]

text \<open>A list whose width changed forgets the heights of its items.\<close>

definition forget_sizes :: "'p::linordered_field bounds \<Rightarrow> 'p list_state \<Rightarrow> 'p list_state option" where
  "forget_sizes bounds st =
     (if (case li_last_layout_bounds st of Some last_bounds \<Rightarrow> width (bsize last_bounds) \<noteq> width (bsize bounds) | None \<Rightarrow> True) then
        do { its \<leftarrow> tree_iter (li_items st);
             new_items \<leftarrow> from_iter list_ops (map (\<lambda>item. Unmeasured None (item_focus_handle item)) its);
             Some (st\<lparr>li_items := new_items, li_measuring_behavior := measuring_reset (li_measuring_behavior st)\<rparr>) }
      else Some st)"

definition list_prepaint ::
    "'p::linordered_field list_env \<Rightarrow> 'p bounds \<Rightarrow> 'p edges \<Rightarrow> 'p list_state
       \<Rightarrow> ('p list_state \<times> 'p layout_items_response) option" where
  "list_prepaint env bounds padding st =
     do { st \<leftarrow> forget_sizes bounds (st\<lparr>li_reset := False\<rparr>);
          (st, layout) \<leftarrow> prepaint_loop env bounds padding True st;
          Some (st\<lparr>li_last_layout_bounds := Some bounds, li_last_padding := Some padding\<rparr>, layout) }"

section \<open>Sizing a list by its items\<close>

datatype 'p available_space = Definite 'p | MinContent | MaxContent

text \<open>\<open>request_layout\<close> of a list that infers its size: the widest row and the height of the items, then the size in a space.\<close>

definition infer_layout ::
    "'p::linordered_field list_env \<Rightarrow> 'p edges \<Rightarrow> 'p list_state \<Rightarrow> ('p list_state \<times> 'p \<times> 'p) option" where
  "infer_layout env padding st =
     do { (st, layout_response) \<leftarrow> layout_items env None
            (case li_last_layout_bounds st of Some last_bounds \<Rightarrow> height (bsize last_bounds) | None \<Rightarrow> li_overdraw st) padding st;
          Some (st, lr_max_item_width layout_response, ls_height (node_summary (li_items st))) }"

definition inferred_size ::
    "'p::linordered_field \<Rightarrow> 'p \<Rightarrow> 'p option \<Rightarrow> 'p available_space \<Rightarrow> 'p available_space \<Rightarrow> 'p size2" where
  "inferred_size max_element_width total_height known_width space_width space_height =
     \<lparr>width = (case known_width of Some x \<Rightarrow> x | None \<Rightarrow> (case space_width of Definite x \<Rightarrow> x | MinContent \<Rightarrow> max_element_width | MaxContent \<Rightarrow> max_element_width)),
      height = (case space_height of Definite h \<Rightarrow> min total_height h | MinContent \<Rightarrow> total_height | MaxContent \<Rightarrow> total_height)\<rparr>"

section \<open>The loops over the items\<close>

text \<open>A cursor that has the first \<open>m\<close> items above it.\<close>

definition below_items :: "'p::linordered_field list_items \<Rightarrow> ('p list_item, 'p list_item_summary, nat) cursor \<Rightarrow> nat \<Rightarrow> bool" where
  "below_items t c m \<longleftrightarrow> c_did_seek c \<and> m \<le> length (to_list t) \<and> (counts.cursor_ok t c m \<or> m = 0 \<and> counts.cursor_before t c)"

lemma below_start: "below_items t c m \<Longrightarrow> cursor_start c = m"
  by (auto simp: below_items_def cursor_start_def counts.cursor_before_def dest: counts.cursor_ok_position)

lemma before_item: "counts.cursor_before t c \<Longrightarrow> cursor_item c = Some None"
  by (simp add: counts.cursor_before_def cursor_item_def assert_did_seek_def)

lemma before_prev: "counts.cursor_before t c \<Longrightarrow> \<exists>c'. cursor_prev count_dim c = Some c' \<and> counts.cursor_before t c' \<and> c_did_seek c'"
  by (auto simp: counts.cursor_before_def cursor_prev_def search_backward_def search_backward_loop.simps [of count_dim _ "[]"])

lemma below_prev:
  assumes "below_items t c m"
  shows "\<exists>c'. cursor_prev count_dim c = Some c' \<and> below_items t c' (m - 1) \<and>
    cursor_item c' = Some (if 0 < m then Some (to_list t ! (m - 1)) else None)"
proof (cases "counts.cursor_before t c \<or> to_list t = []")
  case True
  then show ?thesis
  proof (cases "counts.cursor_before t c")
    case True
    then have "m = 0" using assms
      by (auto simp: below_items_def counts.cursor_ok_def counts.cursor_before_def counts.at_index_def dest: to_list_nonempty)
    then show ?thesis using before_prev [OF True] before_item by (fastforce simp: below_items_def)
  next
    case False
    with True assms have "counts.cursor_ok t c m" "to_list t = []" "m = 0" by (auto simp: below_items_def)
    from counts.cursor_prev_empty [OF this(1,2)] this show ?thesis
      using counts.cursor_item_ok(1) [of t _ 0] by (fastforce simp: below_items_def)
  qed
next
  case False
  with assms have c: "counts.cursor_ok t c m" "to_list t \<noteq> []" "c_did_seek c" "m \<le> length (to_list t)" by (auto simp: below_items_def)
  from counts.cursor_prev_ok [OF c(1,2), of m] c(3) obtain c' where
    c': "cursor_prev count_dim c = Some c'" "c_did_seek c'" "if 0 < m then counts.cursor_ok t c' (m - 1) else counts.cursor_before t c'"
    by auto
  then show ?thesis
    using c(4) counts.cursor_item_ok(1) [of t c' "m - 1"] before_item [of t c'] by (auto simp: below_items_def split: if_splits)
qed

lemma counts_iter_next:
  assumes "counts.cursor_ok t c n" "c_did_seek c"
  shows "\<exists>c'. cursor_iter_next count_dim c = Some (if n < length (to_list t) then Some (to_list t ! n) else None, c') \<and>
    counts.cursor_ok t c' (min (length (to_list t)) (Suc n)) \<and> c_did_seek c'"
proof (cases "n < length (to_list t)")
  case True
  then show ?thesis
    using counts.cursor_item_ok(1) [OF assms] counts.cursor_next_ok [OF assms(1)] assms(2) by (auto simp: cursor_iter_next_def)
next
  case False
  then have "min (length (to_list t)) (Suc n) = n" using counts.cursor_ok_bounds [OF assms(1)] by simp
  then show ?thesis
    using counts.cursor_item_ok(1) [OF assms] False assms by (simp add: cursor_iter_next_def)
qed

text \<open>The loops as recursion over the items they visit.\<close>

fun forward_rows :: "'p::linordered_field list_env \<Rightarrow> 'p option \<Rightarrow> 'p \<Rightarrow> 'p \<Rightarrow> nat \<Rightarrow> 'p list_item list \<Rightarrow> 'p row_state \<Rightarrow> 'p row_state" where
  "forward_rows env w avail overdraw ix [] r = r"
| "forward_rows env w avail overdraw ix (item # its) r =
     (if rw_height r - lo_offset_in_item (rw_scroll_top r) \<ge> avail + overdraw then r
      else case forward_row env w avail ix item r of
             (r, stop) \<Rightarrow> if stop then r else forward_rows env w avail overdraw (ix + 1) its r)"

lemma forward_loop_eq:
  assumes "counts.cursor_ok t c n" "c_did_seek c"
  shows "\<exists>c'. forward_loop env w avail overdraw ix c r = Some (forward_rows env w avail overdraw ix (drop n (to_list t)) r, c') \<and> c_tree c' = t"
  using assms
proof (induction "length (to_list t) - n" arbitrary: n c ix r rule: less_induct)
  case less
  from counts_iter_next [OF less.prems] obtain c' where
    c': "cursor_iter_next count_dim c = Some (if n < length (to_list t) then Some (to_list t ! n) else None, c')"
      "counts.cursor_ok t c' (min (length (to_list t)) (Suc n))" "c_did_seek c'"
    by blast
  have t: "c_tree c' = t" using c'(2) by (simp add: counts.cursor_ok_def)
  show ?case
  proof (cases "n < length (to_list t)")
    case True
    obtain r' stop where r': "forward_row env w avail ix (to_list t ! n) r = (r', stop)" by fastforce
    have min: "min (length (to_list t)) (Suc n) = Suc n" using True by simp
    from less.hyps [OF _ c'(2,3), of "ix + 1" r'] diff_less_mono2 [OF lessI True] obtain c'' where
      "forward_loop env w avail overdraw (ix + 1) c' r' =
         Some (forward_rows env w avail overdraw (ix + 1) (drop (Suc n) (to_list t)) r', c'')" "c_tree c'' = t"
      unfolding min by auto
    moreover have "drop n (to_list t) = to_list t ! n # drop (Suc n) (to_list t)"
      using True by (simp add: Cons_nth_drop_Suc)
    ultimately show ?thesis
      using True c'(1) t r' by (subst forward_loop.simps) auto
  next
    case False
    then show ?thesis using c'(1) t by (subst forward_loop.simps) simp
  qed
qed

text \<open>The rows above, nearest first, and how many rows the walk leaves above it.\<close>

fun upward_rows :: "'p::linordered_field list_env \<Rightarrow> 'p option \<Rightarrow> 'p \<Rightarrow> bool \<Rightarrow> 'p list_item list \<Rightarrow> 'p row_state \<Rightarrow> 'p row_state \<times> nat" where
  "upward_rows env w avail preserve [] r = (r, 0)"
| "upward_rows env w avail preserve (item # ups) r =
     (if rw_height r < avail then
        let r' = upward_row env w (length ups) item r
        in if preserve \<and> rw_provisional r' then (r', length ups) else upward_rows env w avail preserve ups r'
      else (r, Suc (length ups)))"

lemma rev_take_Suc: "m < length xs \<Longrightarrow> rev (take (Suc m) xs) = xs ! m # rev (take m xs)"
  by (simp add: take_Suc_conv_app_nth)

lemma upward_loop_eq:
  assumes "below_items t c m" "upward_rows env w avail preserve (rev (take m (to_list t))) r = (r', k)"
  shows "\<exists>c'. upward_loop env w avail preserve c r = Some (r', c') \<and> below_items t c' k \<and> k \<le> m"
  using assms
proof (induction m arbitrary: c r)
  case 0
  from below_prev [OF 0(1)] obtain c' where
    "cursor_prev count_dim c = Some c'" "below_items t c' 0" "cursor_item c' = Some None"
    by auto
  then show ?case using 0 by (subst upward_loop.simps) auto
next
  case (Suc m)
  have m: "m < length (to_list t)" "length (rev (take m (to_list t))) = m" using Suc.prems(1) by (auto simp: below_items_def)
  note rev = rev_take_Suc [OF m(1)]
  from below_prev [OF Suc.prems(1)] obtain c' where
    c': "cursor_prev count_dim c = Some c'" "below_items t c' m" "cursor_item c' = Some (Some (to_list t ! m))"
    by auto
  let ?r = "upward_row env w m (to_list t ! m) r"
  show ?case
  proof (cases "rw_height r < avail \<and> \<not> (preserve \<and> rw_provisional ?r)")
    case True
    then have "upward_rows env w avail preserve (rev (take m (to_list t))) ?r = (r', k)"
      using Suc.prems(2) m(2) unfolding rev by (auto simp: Let_def)
    from Suc.IH [OF c'(2) this] True c' show ?thesis
      by (subst upward_loop.simps) (auto simp: below_start [OF c'(2)] Let_def)
  next
    case False
    then show ?thesis
      using Suc.prems m(2) c' unfolding rev by (subst upward_loop.simps) (auto simp: below_start [OF c'(2)] Let_def)
  qed
qed

fun leading_rows :: "'p::linordered_field list_env \<Rightarrow> 'p option \<Rightarrow> 'p \<Rightarrow> 'p \<Rightarrow> 'p list_item list \<Rightarrow> 'p list_item list
    \<Rightarrow> 'p list_item list \<times> nat" where
  "leading_rows env w overdraw lead [] measured = (measured, 0)"
| "leading_rows env w overdraw lead (item # ups) measured =
     (if lead < overdraw then
        let s = (case item of Measured s _ \<Rightarrow> s | Unmeasured _ _ \<Rightarrow> env_size env w (length ups));
            measured = with_measurement item s (env_ready env (length ups)) # measured
        in if \<not> env_ready env (length ups) then (measured, length ups)
           else leading_rows env w overdraw (lead + height s) ups measured
      else (measured, Suc (length ups)))"

lemma leading_loop_eq:
  assumes "below_items t c m" "leading_rows env w overdraw lead (rev (take m (to_list t))) measured = (measured', k)"
  shows "\<exists>c'. leading_loop env w overdraw lead c measured = Some (measured', c') \<and> below_items t c' k \<and> k \<le> m"
  using assms
proof (induction m arbitrary: c lead measured)
  case 0
  from below_prev [OF 0(1)] obtain c' where
    "cursor_prev count_dim c = Some c'" "below_items t c' 0" "cursor_item c' = Some None"
    by auto
  then show ?case using 0 by (subst leading_loop.simps) auto
next
  case (Suc m)
  have m: "m < length (to_list t)" "length (rev (take m (to_list t))) = m" using Suc.prems(1) by (auto simp: below_items_def)
  note rev = rev_take_Suc [OF m(1)]
  from below_prev [OF Suc.prems(1)] obtain c' where
    c': "cursor_prev count_dim c = Some c'" "below_items t c' m" "cursor_item c' = Some (Some (to_list t ! m))"
    by auto
  let ?s = "case to_list t ! m of Measured s _ \<Rightarrow> s | Unmeasured _ _ \<Rightarrow> env_size env w m"
  let ?measured = "with_measurement (to_list t ! m) ?s (env_ready env m) # measured"
  show ?case
  proof (cases "lead < overdraw \<and> env_ready env m")
    case True
    then have "leading_rows env w overdraw (lead + height ?s) (rev (take m (to_list t))) ?measured = (measured', k)"
      using Suc.prems(2) unfolding rev leading_rows.simps m(2) Let_def by simp
    from Suc.IH [OF c'(2) this] True c' show ?thesis
      by (subst leading_loop.simps) (auto simp: below_start [OF c'(2)] Let_def cong del: list_item.case_cong_weak)
  next
    case False
    then show ?thesis
      using Suc.prems c' unfolding rev leading_rows.simps m(2)
      by (subst leading_loop.simps) (auto simp: below_start [OF c'(2)] Let_def cong del: list_item.case_cong_weak)
  qed
qed

section \<open>What the loops measure\<close>

definition env_ok :: "'p::linordered_field list_env \<Rightarrow> bool" where
  "env_ok env \<longleftrightarrow> (\<forall>w ix. 0 \<le> height (env_size env w ix))"

text \<open>A measurement of an item keeps its focus handle and gives it a known height.\<close>

definition measures :: "'p::linordered_field list_item \<Rightarrow> 'p list_item \<Rightarrow> bool" where
  "measures x y \<longleftrightarrow> item_focus_handle y = item_focus_handle x \<and> item_size_hint y \<noteq> None \<and> 0 \<le> item_height y"

lemma with_measurement_simps [simp]:
  "item_focus_handle (with_measurement x s b) = item_focus_handle x"
  "item_size_hint (with_measurement x s b) = Some s" "item_height (with_measurement x s b) = height s"
  "item_size (with_measurement x s b) = (if b then Some s else None)"
  by (cases x; simp add: item_height_def)+

lemma size_height: "item_size x = Some s \<Longrightarrow> height s = item_height x"
  by (cases x) (simp_all add: item_height_def)

lemma measures_with: "0 \<le> height s \<Longrightarrow> measures x (with_measurement x s b)"
  by (simp add: measures_def)

lemma settle_pending_same [simp]:
  "rw_measured (settle_pending h r) = rw_measured r" "rw_layouts (settle_pending h r) = rw_layouts r"
  "rw_height (settle_pending h r) = rw_height r" "rw_provisional (settle_pending h r) = rw_provisional r"
  "lo_item_ix (rw_scroll_top (settle_pending h r)) = lo_item_ix (rw_scroll_top r)"
  "rw_focused (settle_pending h r) = rw_focused r" "rw_max_width (settle_pending h r) = rw_max_width r"
  by (simp_all add: settle_pending_def Let_def split: option.split)

lemma push_layout_same [simp]:
  "rw_measured (push_layout env i s x r) = rw_measured r" "rw_height (push_layout env i s x r) = rw_height r"
  "rw_provisional (push_layout env i s x r) = rw_provisional r" "rw_scroll_top (push_layout env i s x r) = rw_scroll_top r"
  "rw_anchor (push_layout env i s x r) = rw_anchor r"
  "rw_layouts (push_layout env i s x r) = rw_layouts r @ [\<lparr>il_index = i, il_size = s\<rparr>]"
  by (simp_all add: push_layout_def)

definition anchored :: "'p row_state \<Rightarrow> bool" where
  "anchored r \<longleftrightarrow> (\<forall>anchor. rw_anchor r = Some anchor \<longrightarrow> sa_position anchor = rw_scroll_top r)"

lemma settle_pending_anchored: "anchored r \<Longrightarrow> anchored (settle_pending h r)"
proof (cases "rw_anchor r")
  case (Some anchor)
  then show "anchored r \<Longrightarrow> anchored (settle_pending h r)"
    by (cases "sa_pending anchor") (simp_all add: anchored_def settle_pending_def Let_def)
qed (simp add: settle_pending_def)

lemma anchored_simps [simp]:
  "anchored (push_layout env i s x r) = anchored r" "anchored (r\<lparr>rw_height := h\<rparr>) = anchored r"
  "anchored (r\<lparr>rw_max_width := h\<rparr>) = anchored r" "anchored (r\<lparr>rw_provisional := b\<rparr>) = anchored r"
  "anchored (r\<lparr>rw_measured := m\<rparr>) = anchored r"
  by (simp_all add: anchored_def)

lemma forward_row_ok:
  assumes "forward_row env w avail ix item r = (r', stop)"
  shows "env_ok env \<Longrightarrow> 0 \<le> item_height item \<Longrightarrow> \<exists>y. rw_measured r' = rw_measured r @ [y] \<and> measures item y"
    "lo_item_ix (rw_scroll_top r') = lo_item_ix (rw_scroll_top r)" "anchored r \<Longrightarrow> anchored r'"
    "rw_provisional r' = (rw_provisional r \<or> \<not> env_ready env (lo_item_ix (rw_scroll_top r) + ix))"
    "stop \<Longrightarrow> rw_provisional r'"
proof -
  show "\<exists>y. rw_measured r' = rw_measured r @ [y] \<and> measures item y" if "env_ok env" "0 \<le> item_height item"
    using assms that size_height [of item]
    by (auto simp: forward_row_def Let_def env_ok_def measures_with split: option.splits if_splits)
  show "anchored r'" if "anchored r"
    using assms that settle_pending_anchored by (auto simp: forward_row_def Let_def split: option.splits if_splits)
  show "lo_item_ix (rw_scroll_top r') = lo_item_ix (rw_scroll_top r)"
    "rw_provisional r' = (rw_provisional r \<or> \<not> env_ready env (lo_item_ix (rw_scroll_top r) + ix))"
    "stop \<Longrightarrow> rw_provisional r'"
    using assms by (auto simp: forward_row_def Let_def split: option.splits if_splits)
qed

lemma forward_rows_ok:
  assumes "env_ok env" "heights_ok its"
  shows "\<exists>ys. rw_measured (forward_rows env w avail overdraw ix its r) = rw_measured r @ ys \<and>
      length ys \<le> length its \<and> list_all2 measures (take (length ys) its) ys"
    "lo_item_ix (rw_scroll_top (forward_rows env w avail overdraw ix its r)) = lo_item_ix (rw_scroll_top r)"
    "anchored r \<Longrightarrow> anchored (forward_rows env w avail overdraw ix its r)"
proof -
  have "(\<exists>ys. rw_measured (forward_rows env w avail overdraw ix its r) = rw_measured r @ ys \<and>
      length ys \<le> length its \<and> list_all2 measures (take (length ys) its) ys) \<and>
    lo_item_ix (rw_scroll_top (forward_rows env w avail overdraw ix its r)) = lo_item_ix (rw_scroll_top r) \<and>
    (anchored r \<longrightarrow> anchored (forward_rows env w avail overdraw ix its r))"
    using assms(2)
  proof (induction its arbitrary: ix r)
    case (Cons item its)
    obtain r' stop where r': "forward_row env w avail ix item r = (r', stop)" by fastforce
    have item: "0 \<le> item_height item" "heights_ok its" using Cons.prems by (simp_all add: heights_ok_def)
    from forward_row_ok(1) [OF r' assms(1) item(1)] obtain y where y: "rw_measured r' = rw_measured r @ [y]" "measures item y"
      by blast
    from Cons.IH [OF item(2), of "ix + 1" r'] obtain ys where ys:
      "rw_measured (forward_rows env w avail overdraw (ix + 1) its r') = rw_measured r' @ ys" "length ys \<le> length its"
      "list_all2 measures (take (length ys) its) ys"
      by blast
    have none: "\<exists>zs. rw_measured r = rw_measured r @ zs \<and> length zs \<le> Suc (length its) \<and>
        list_all2 measures (take (length zs) (item # its)) zs"
      by (rule exI [of _ "[]"]) simp
    have one: "\<exists>zs. rw_measured r' = rw_measured r @ zs \<and> length zs \<le> Suc (length its) \<and>
        list_all2 measures (take (length zs) (item # its)) zs"
      using y by (intro exI [of _ "[y]"]) simp
    have more: "\<exists>zs. rw_measured (forward_rows env w avail overdraw (ix + 1) its r') = rw_measured r @ zs \<and> length zs \<le> Suc (length its) \<and>
        list_all2 measures (take (length zs) (item # its)) zs"
      using y ys by (intro exI [of _ "y # ys"]) simp
    show ?case
      using none one more r' forward_row_ok(2,3) [OF r'] Cons.IH [OF item(2), of "ix + 1" r'] by auto
  qed simp
  then show "\<exists>ys. rw_measured (forward_rows env w avail overdraw ix its r) = rw_measured r @ ys \<and>
      length ys \<le> length its \<and> list_all2 measures (take (length ys) its) ys"
    "lo_item_ix (rw_scroll_top (forward_rows env w avail overdraw ix its r)) = lo_item_ix (rw_scroll_top r)"
    "anchored r \<Longrightarrow> anchored (forward_rows env w avail overdraw ix its r)"
    by blast+
qed

text \<open>The walks up add the rows between where they stop and where they start.\<close>

lemma upward_row_simps [simp]:
  "rw_scroll_top (upward_row env w i x r) = rw_scroll_top r" "rw_anchor (upward_row env w i x r) = rw_anchor r"
  "rw_measured (upward_row env w i x r) = with_measurement x (env_size env w i) (env_ready env i) # rw_measured r"
  "rw_layouts (upward_row env w i x r) = \<lparr>il_index = i, il_size = env_size env w i\<rparr> # rw_layouts r"
  "rw_height (upward_row env w i x r) = rw_height r + height (env_size env w i)"
  "rw_provisional (upward_row env w i x r) = (rw_provisional r \<or> \<not> env_ready env i)"
  by (simp_all add: upward_row_def Let_def)

lemma drop_take_snoc: "k \<le> m \<Longrightarrow> m < length xs \<Longrightarrow> drop k (take (Suc m) xs) = drop k (take m xs) @ [xs ! m]"
  by (simp add: take_Suc_conv_app_nth)

lemma list_all2_snoc_front:
  "list_all2 P (drop k (take m xs)) ys \<Longrightarrow> k \<le> m \<Longrightarrow> m < length xs \<Longrightarrow> P (xs ! m) y \<Longrightarrow>
     list_all2 P (drop k (take (Suc m) xs)) (ys @ [y])"
  by (simp add: drop_take_snoc list_all2_appendI)

lemma upward_rows_ok:
  assumes "upward_rows env w avail preserve (rev (take m xs)) r = (r', k)" "m \<le> length xs" "env_ok env"
  shows "k \<le> m \<and> rw_scroll_top r' = rw_scroll_top r \<and> rw_anchor r' = rw_anchor r \<and>
    (\<exists>ys. rw_measured r' = ys @ rw_measured r \<and> list_all2 measures (drop k (take m xs)) ys) \<and>
    (\<exists>ls. rw_layouts r' = ls @ rw_layouts r)"
  using assms(1,2)
proof (induction m arbitrary: r)
  case (Suc m)
  then have m: "m < length xs" "length (rev (take m xs)) = m" by simp_all
  note eq = Suc.prems(1) [unfolded rev_take_Suc [OF m(1)] upward_rows.simps m(2) Let_def]
  let ?r = "upward_row env w m (xs ! m) r" and ?y = "with_measurement (xs ! m) (env_size env w m) (env_ready env m)"
  have y: "measures (xs ! m) ?y" using assms(3) by (simp add: measures_with env_ok_def)
  show ?case
  proof (cases "rw_height r < avail")
    case True
    show ?thesis
    proof (cases "preserve \<and> rw_provisional ?r")
      case stop: True
      then show ?thesis using eq True y m(1) list_all2_snoc_front [of measures m m xs "[]", OF _ _ m(1) y] by auto
    next
      case False
      then have "upward_rows env w avail preserve (rev (take m xs)) ?r = (r', k)" using eq True by auto
      from Suc.IH [OF this] m(1) obtain ys where IH: "k \<le> m" "rw_scroll_top r' = rw_scroll_top r" "rw_anchor r' = rw_anchor r"
          "rw_measured r' = ys @ ?y # rw_measured r" "list_all2 measures (drop k (take m xs)) ys"
          "\<exists>ls. rw_layouts r' = ls @ rw_layouts ?r"
        by auto
      then show ?thesis
        using list_all2_snoc_front [OF IH(5,1) m(1) y] by (auto intro!: exI [of _ "ys @ [?y]"])
    qed
  next
    case False
    then show ?thesis using eq m(1) by auto
  qed
qed auto

lemma leading_rows_ok:
  assumes "leading_rows env w overdraw lead (rev (take m xs)) measured = (measured', k)" "m \<le> length xs" "env_ok env" "heights_ok xs"
  shows "k \<le> m \<and> (\<exists>ys. measured' = ys @ measured \<and> list_all2 measures (drop k (take m xs)) ys)"
  using assms(1,2)
proof (induction m arbitrary: lead measured)
  case (Suc m)
  then have m: "m < length xs" "length (rev (take m xs)) = m" by simp_all
  note eq = Suc.prems(1) [unfolded rev_take_Suc [OF m(1)] leading_rows.simps m(2) Let_def]
  let ?s = "case xs ! m of Measured s _ \<Rightarrow> s | Unmeasured _ _ \<Rightarrow> env_size env w m"
  let ?y = "with_measurement (xs ! m) ?s (env_ready env m)"
  have "0 \<le> height ?s"
    using assms(3,4) nth_mem [OF m(1)] by (cases "xs ! m") (auto simp: env_ok_def heights_ok_def item_height_def)
  then have y: "measures (xs ! m) ?y" by (rule measures_with)
  show ?case
  proof (cases "lead < overdraw \<and> env_ready env m")
    case True
    then have "leading_rows env w overdraw (lead + height ?s) (rev (take m xs)) (?y # measured) = (measured', k)" using eq by simp
    from Suc.IH [OF this] m(1) obtain ys where "k \<le> m" "measured' = ys @ ?y # measured" "list_all2 measures (drop k (take m xs)) ys"
      by auto
    then show ?thesis
      using list_all2_snoc_front [of measures k m xs ys, OF _ _ m(1) y] by (auto intro!: exI [of _ "ys @ [?y]"])
  next
    case False
    then show ?thesis using eq y m(1) list_all2_snoc_front [of measures m m xs "[]", OF _ _ m(1) y] by (auto split: if_splits)
  qed
qed auto

section \<open>Filling the viewport\<close>

definition fill_rows ::
    "'p::linordered_field list_env \<Rightarrow> 'p option \<Rightarrow> 'p \<Rightarrow> bool \<Rightarrow> list_alignment \<Rightarrow> 'p list_item list \<Rightarrow> 'p row_state \<Rightarrow> 'p row_state \<times> nat" where
  "fill_rows env w avail preserve alignment xs r =
     (let m = lo_item_ix (rw_scroll_top r)
      in if \<not> rw_provisional r \<and> rw_height r - lo_offset_in_item (rw_scroll_top r) < avail then
           let (r', k) = upward_rows env w avail preserve (rev (take m xs)) r
           in if preserve \<and> rw_provisional r' then
                (r'\<lparr>rw_layouts := drop (length (rw_layouts r') - length (rw_layouts r)) (rw_layouts r'), rw_focused := rw_focused r\<rparr>, k)
              else (r'\<lparr>rw_scroll_top := \<lparr>lo_item_ix = k, lo_offset_in_item =
                         (if alignment = TopAligned then max (rw_height r' - avail) 0 else rw_height r' - avail)\<rparr>\<rparr>, k)
         else (r, m))"

lemma fill_viewport_eq:
  assumes ok: "list_ok st" and fit: "items_fit (li_items st)"
    and c: "below_items (li_items st) c (lo_item_ix (rw_scroll_top r))" and e: "env_ok env"
    and anchor: "\<And>a. li_scroll_anchor st = Some a \<Longrightarrow> sa_position a = rw_scroll_top r"
    and fill: "fill_rows env w avail preserve (li_alignment st) (items_of st) r = (r', k)"
  shows "\<exists>c' st'. fill_viewport env w avail preserve c r st = Some (r', c', st') \<and> below_items (li_items st) c' k \<and> list_ok st' \<and>
    st' = st\<lparr>li_scroll_anchor := li_scroll_anchor st'\<rparr> \<and> (\<forall>a. li_scroll_anchor st' = Some a \<longrightarrow> sa_position a = rw_scroll_top r')"
proof (cases "\<not> rw_provisional r \<and> rw_height r - lo_offset_in_item (rw_scroll_top r) < avail")
  case False
  then have "r' = r" "k = lo_item_ix (rw_scroll_top r)" using fill by (auto simp: fill_rows_def Let_def)
  then show ?thesis
    using False c ok anchor by (intro exI [of _ c] exI [of _ st]) (auto simp: fill_viewport_def)
next
  case True
  obtain u l where u: "upward_rows env w avail preserve (rev (take (lo_item_ix (rw_scroll_top r)) (items_of st))) r = (u, l)"
    by fastforce
  from upward_loop_eq [OF c u] obtain c' where
    c': "upward_loop env w avail preserve c r = Some (u, c')" "below_items (li_items st) c' l"
    by blast
  have len: "lo_item_ix (rw_scroll_top r) \<le> length (items_of st)" "l \<le> length (items_of st)"
    using c c'(2) by (auto simp: below_items_def)
  note up = upward_rows_ok [OF u len(1) e]
  show ?thesis
  proof (cases "preserve \<and> rw_provisional u")
    case stop: True
    then have "r' = u\<lparr>rw_layouts := drop (length (rw_layouts u) - length (rw_layouts r)) (rw_layouts u), rw_focused := rw_focused r\<rparr>" "k = l"
      using fill True u by (auto simp: fill_rows_def Let_def)
    then show ?thesis
      using stop True c' ok anchor up by (intro exI [of _ c'] exI [of _ st]) (auto simp: fill_viewport_def)
  next
    case go: False
    let ?off = "if li_alignment st = TopAligned then max (rw_height u - avail) 0 else rw_height u - avail"
    have r': "r' = u\<lparr>rw_scroll_top := \<lparr>lo_item_ix = l, lo_offset_in_item = ?off\<rparr>\<rparr>" "k = l"
      using fill True u go by (auto simp: fill_rows_def Let_def)
    show ?thesis
    proof (cases "li_alignment st")
      case TopAligned
      from set_anchor_position [OF ok fit, of "\<lparr>lo_item_ix = l, lo_offset_in_item = ?off\<rparr>"] len(2) obtain st' where
        st': "set_scroll_anchor (Some \<lparr>lo_item_ix = l, lo_offset_in_item = ?off\<rparr>) st = Some st'" "list_ok st'"
          "logical_scroll_top st' = \<lparr>lo_item_ix = l, lo_offset_in_item = ?off\<rparr>" "st' = st\<lparr>li_scroll_anchor := li_scroll_anchor st'\<rparr>"
        by auto
      then show ?thesis
        using go True c' r' TopAligned by (intro exI [of _ c'] exI [of _ st'])
          (auto simp: fill_viewport_def Let_def below_start [OF c'(2)] logical_scroll_top_def)
    next
      case BottomAligned
      then show ?thesis
        using go True c' r' list_ok_unanchored [OF ok] by (intro exI [of _ c'] exI [of _ "st\<lparr>li_scroll_anchor := None\<rparr>"])
          (auto simp: fill_viewport_def Let_def below_start [OF c'(2)] set_scroll_anchor_def)
    qed
  qed
qed

lemma fill_rows_ok:
  assumes fill: "fill_rows env w avail preserve alignment xs r = (r', k)" and e: "env_ok env"
    and m: "lo_item_ix (rw_scroll_top r) \<le> length xs"
  shows "k \<le> lo_item_ix (rw_scroll_top r)" "lo_item_ix (rw_scroll_top r') \<le> length xs"
    "\<exists>ys. rw_measured r' = ys @ rw_measured r \<and> list_all2 measures (drop k (take (lo_item_ix (rw_scroll_top r)) xs)) ys"
    "\<not> rw_provisional r' \<Longrightarrow> k = lo_item_ix (rw_scroll_top r')"
proof -
  obtain u l where u: "upward_rows env w avail preserve (rev (take (lo_item_ix (rw_scroll_top r)) xs)) r = (u, l)" by fastforce
  note up = upward_rows_ok [OF u m e]
  show "k \<le> lo_item_ix (rw_scroll_top r)" "lo_item_ix (rw_scroll_top r') \<le> length xs"
    "\<exists>ys. rw_measured r' = ys @ rw_measured r \<and> list_all2 measures (drop k (take (lo_item_ix (rw_scroll_top r)) xs)) ys"
    "\<not> rw_provisional r' \<Longrightarrow> k = lo_item_ix (rw_scroll_top r')"
    using fill up m unfolding fill_rows_def u Let_def by (auto split: if_splits)
qed

lemma replace_measured_ok:
  assumes t: "tree_ok list_ops t" and fit: "items_fit t" and len: "start + length ys \<le> length (to_list t)"
  shows "\<exists>t'. replace_measured t start ys = Some t' \<and> tree_ok list_ops t' \<and>
    to_list t' = take start (to_list t) @ ys @ drop (start + length ys) (to_list t)"
proof -
  obtain t1 c1 where 1: "slice list_ops count_dim (cursor_new count_dim t) (count_target start) Right = Some (t1, c1)"
    "tree_ok list_ops t1" "to_list t1 = take start (to_list t)" "counts.cursor_ok t c1 start"
    using slice_counts [OF cursor_new_counts [OF t fit], of start] len by (auto simp: min_def)
  obtain t2 where 2: "tree_extend list_ops t1 ys = Some t2" "tree_ok list_ops t2" "to_list t2 = take start (to_list t) @ ys"
    using counts.tree_extend_ok [OF 1(2), of ys] 1(3) by auto
  have "c_tree c1 = t" using 1(4) by (simp add: counts.cursor_ok_def)
  then obtain r3 c3 where 3: "seek count_dim c1 (count_target (start + length ys)) Right = Some (r3, c3)"
    "counts.cursor_ok t c3 (start + length ys)"
    using counts.seek_ok [of c1 "count_target (start + length ys)" Right] t fit len
    by (auto simp: items_fit_def counts.seek_index_def skip_counts min_def split: if_splits)
  obtain t4 c4 where 4: "suffix list_ops count_dim c3 = Some (t4, c4)" "tree_ok list_ops t4" "to_list t4 = drop (start + length ys) (to_list t)"
    using counts.suffix_ok [OF 3(2)] by auto
  show ?thesis
    using counts.append_tree_ok [OF 2(2) 4(2)] 1(1) 2 3(1) 4 by (auto simp: replace_measured_def)
qed

section \<open>The layout of the rows\<close>

definition to_tail :: "'p list_state \<Rightarrow> bool" where
  "to_tail st \<longleftrightarrow> is_following (li_follow_state st) \<or> (case li_scroll_anchor st of Some anchor \<Rightarrow> sa_pending_end anchor | None \<Rightarrow> False)"

definition layout_target :: "'p::linordered_field list_state \<Rightarrow> 'p list_offset" where
  "layout_target st = (if to_tail st then \<lparr>lo_item_ix = length (items_of st), lo_offset_in_item = 0\<rparr> else logical_scroll_top st)"

definition layout_anchor :: "'p::linordered_field list_state \<Rightarrow> 'p scroll_anchor option" where
  "layout_anchor st = (if to_tail st then Some \<lparr>sa_position = layout_target st, sa_pending = None, sa_provisional = False, sa_pending_end = False\<rparr>
     else li_scroll_anchor st)"

abbreviation keeps_position :: "'p::linordered_field list_state \<Rightarrow> bool" where
  "keeps_position st \<equiv> lo_item_ix (layout_target st) < length (items_of st)"

definition rows_below :: "'p::linordered_field list_env \<Rightarrow> 'p option \<Rightarrow> 'p \<Rightarrow> 'p edges \<Rightarrow> 'p list_state \<Rightarrow> 'p row_state" where
  "rows_below env w avail padding st =
     forward_rows env w avail (li_overdraw st) 0 (drop (lo_item_ix (layout_target st)) (items_of st))
       \<lparr>rw_measured = [], rw_layouts = [], rw_height = e_top padding, rw_max_width = 0, rw_scroll_top = layout_target st,
        rw_anchor = layout_anchor st, rw_provisional = False, rw_focused = False\<rparr>"

definition rows_shown :: "'p::linordered_field list_env \<Rightarrow> 'p option \<Rightarrow> 'p \<Rightarrow> 'p edges \<Rightarrow> 'p list_state \<Rightarrow> 'p row_state \<times> nat" where
  "rows_shown env w avail padding st =
     (let r = rows_below env w avail padding st
      in fill_rows env w avail (keeps_position st) (li_alignment st) (items_of st) (r\<lparr>rw_height := rw_height r + e_bottom padding\<rparr>))"

lemma layout_target_le: "list_ok st \<Longrightarrow> lo_item_ix (layout_target st) \<le> length (items_of st)"
  by (simp add: layout_target_def logical_scroll_top_le)

lemma layout_start:
  assumes "list_ok st"
  shows "(if is_following (li_follow_state st) \<or> (case li_scroll_anchor st of Some anchor \<Rightarrow> sa_pending_end anchor | None \<Rightarrow> False)
      then let target = \<lparr>lo_item_ix = item_count st, lo_offset_in_item = 0\<rparr>
        in do { st \<leftarrow> set_scroll_anchor (Some target) st; Some (target, st) }
      else Some (logical_scroll_top st, st)) = Some (layout_target st, st\<lparr>li_scroll_anchor := layout_anchor st\<rparr>)"
proof -
  have c: "item_count st = length (items_of st)" using assms by (simp add: item_count_ok list_ok_def)
  have "pending_after st \<lparr>lo_item_ix = length (items_of st), lo_offset_in_item = 0\<rparr> = Some None"
    by (simp add: pending_after_def c split: option.split)
  then have "set_scroll_anchor (Some \<lparr>lo_item_ix = length (items_of st), lo_offset_in_item = 0\<rparr>) st =
      Some (st\<lparr>li_scroll_anchor := Some \<lparr>sa_position = \<lparr>lo_item_ix = length (items_of st), lo_offset_in_item = 0\<rparr>,
        sa_pending = None, sa_provisional = False, sa_pending_end = False\<rparr>\<rparr>)"
    by (simp add: set_scroll_anchor_def)
  then show ?thesis
    unfolding c Let_def layout_target_def layout_anchor_def to_tail_def [symmetric] by simp
qed

lemma layout_anchor_position: "layout_anchor st = Some a \<Longrightarrow> sa_position a = layout_target st"
  by (auto simp: layout_anchor_def layout_target_def logical_scroll_top_def split: if_splits)

lemma list_all2_stretch:
  assumes "list_all2 P (drop a (take b xs)) u" "list_all2 P (drop b (take c xs)) v" "a \<le> b" "b \<le> c" "c \<le> length xs"
  shows "list_all2 P (drop a (take c xs)) (u @ v)"
proof -
  have "drop a (take c xs) = drop a (take b xs) @ drop b (take c xs)"
    using assms(3-5) by (metis append_take_drop_id diff_is_0_eq drop_0 drop_append length_take min.absorb1 min.absorb2 take_take order.trans)
  then show ?thesis using assms(1,2) by (simp add: list_all2_appendI)
qed

text \<open>Laying out rows measures a stretch of the items and leaves the others as they are.\<close>

definition remeasured :: "'p::linordered_field list_item list \<Rightarrow> 'p list_item list \<Rightarrow> bool" where
  "remeasured xs ys \<longleftrightarrow> list_all2 (\<lambda>x y. y = x \<or> measures x y) xs ys"

lemma remeasured_stretch:
  assumes "list_all2 measures (drop a (take b xs)) ys" "a \<le> b" "b \<le> length xs"
  shows "remeasured xs (take a xs @ ys @ drop (a + length ys) xs)"
proof -
  have len: "a + length ys = b" using list_all2_lengthD [OF assms(1)] assms(2,3) by simp
  have "xs = take a xs @ drop a (take b xs) @ drop b xs"
    using assms(2,3) by (metis append.assoc append_take_drop_id min.absorb1 take_take)
  moreover have "list_all2 (\<lambda>x y. y = x \<or> measures x y) (take a xs @ drop a (take b xs) @ drop b xs) (take a xs @ ys @ drop b xs)"
    using assms(1) by (intro list_all2_appendI) (auto simp: list.rel_refl elim: list_all2_mono)
  ultimately show ?thesis unfolding remeasured_def len by simp
qed

lemma remeasured_ok:
  assumes "remeasured xs ys"
  shows "length ys = length xs" "heights_ok xs \<Longrightarrow> heights_ok ys" "map item_focus_handle ys = map item_focus_handle xs"
proof -
  show len: "length ys = length xs" using assms by (simp add: remeasured_def list_all2_lengthD)
  have nth: "ys ! i = xs ! i \<or> measures (xs ! i) (ys ! i)" if "i < length xs" for i
    using assms that by (auto simp: remeasured_def dest: list_all2_nthD)
  have "item_focus_handle (ys ! i) = item_focus_handle (xs ! i)" if "i < length xs" for i
    using nth [OF that] by (auto simp: measures_def)
  then show "map item_focus_handle ys = map item_focus_handle xs"
    using len by (intro nth_equalityI) simp_all
  show "heights_ok ys" if "heights_ok xs"
    using nth len that by (fastforce simp: heights_ok_def measures_def in_set_conv_nth)
qed

lemma rows_below_ok:
  assumes ok: "list_ok st" and e: "env_ok env"
  defines "m \<equiv> lo_item_ix (layout_target st)"
  shows "lo_item_ix (rw_scroll_top (rows_below env w avail padding st)) = m" "anchored (rows_below env w avail padding st)"
    "\<exists>n. m \<le> n \<and> n \<le> length (items_of st) \<and>
       list_all2 measures (drop m (take n (items_of st))) (rw_measured (rows_below env w avail padding st))"
proof -
  let ?r0 = "\<lparr>rw_measured = [], rw_layouts = [], rw_height = e_top padding, rw_max_width = 0, rw_scroll_top = layout_target st,
        rw_anchor = layout_anchor st, rw_provisional = False, rw_focused = False\<rparr>"
  let ?its = "drop m (items_of st)"
  have h: "heights_ok ?its" using ok by (auto simp: list_ok_def heights_ok_def dest: in_set_dropD)
  have m: "m \<le> length (items_of st)" using layout_target_le [OF ok] by (simp add: m_def)
  note rows = forward_rows_ok [OF e h, where w = w and avail = avail and overdraw = "li_overdraw st" and ix = 0 and r = ?r0]
  show "lo_item_ix (rw_scroll_top (rows_below env w avail padding st)) = m"
    using rows(2) by (simp add: rows_below_def m_def)
  show "anchored (rows_below env w avail padding st)"
  proof -
    have "anchored ?r0" by (simp add: anchored_def layout_anchor_position)
    from rows(3) [OF this] show ?thesis unfolding rows_below_def m_def .
  qed
  obtain ys where "rw_measured (rows_below env w avail padding st) = ys" "length ys \<le> length (items_of st) - m"
    "list_all2 measures (take (length ys) ?its) ys"
    using rows(1) by (auto simp: rows_below_def m_def)
  then show "\<exists>n. m \<le> n \<and> n \<le> length (items_of st) \<and>
       list_all2 measures (drop m (take n (items_of st))) (rw_measured (rows_below env w avail padding st))"
    using m by (intro exI [of _ "m + length ys"]) (simp add: take_drop add.commute)
qed

lemma layout_rows_ok:
  assumes ok: "list_ok st" and fit: "items_fit (li_items st)" and e: "env_ok env"
    and shown: "rows_shown env w avail padding st = (r, k)"
  shows "\<exists>st'. layout_rows env w avail padding st = Some (st', r) \<and> list_ok st' \<and> remeasured (items_of st) (items_of st') \<and>
    li_alignment st' = li_alignment st \<and> li_overdraw st' = li_overdraw st \<and>
    (\<forall>a. li_scroll_anchor st' = Some a \<longrightarrow> sa_position a = rw_scroll_top r \<and>
       sa_provisional a = (keeps_position st \<and> rw_provisional r) \<and> sa_pending_end a = (\<not> keeps_position st \<and> rw_provisional r))"
proof -
  let ?m = "lo_item_ix (layout_target st)" and ?xs = "items_of st"
  let ?below = "rows_below env w avail padding st"
  let ?r1 = "?below\<lparr>rw_height := rw_height ?below + e_bottom padding\<rparr>"
  have t: "tree_ok list_ops (li_items st)" and h: "heights_ok ?xs" using ok by (simp_all add: list_ok_def)
  have cnt: "item_count st = length ?xs" using t by (simp add: item_count_ok)
  note m = layout_target_le [OF ok] and below = rows_below_ok [OF ok e, of w avail padding]
  define st1 where "st1 = (if keeps_position st then st\<lparr>li_scroll_anchor := layout_anchor st\<rparr>
     else st\<lparr>li_scroll_anchor := layout_anchor st,
       li_follow_state := start_following (li_follow_state (st\<lparr>li_scroll_anchor := layout_anchor st\<rparr>))\<rparr>)"
  have st1: "li_items st1 = li_items st" "li_overdraw st1 = li_overdraw st" "li_scroll_anchor st1 = layout_anchor st"
    by (simp_all add: st1_def)
  have cnt': "item_count (st\<lparr>li_scroll_anchor := a\<rparr>) = length ?xs" for a
    using cnt by (simp add: item_count_def)
  have r1: "lo_item_ix (rw_scroll_top ?r1) = ?m" using below(1) by simp
  define st2 where "st2 = st1\<lparr>li_scroll_anchor := rw_anchor ?below\<rparr>"
  have st2: "li_items st2 = li_items st" "li_alignment st2 = li_alignment st" "li_overdraw st2 = li_overdraw st"
    "li_scroll_anchor st2 = rw_anchor ?below"
    by (simp_all add: st2_def st1_def)
  have "anchor_ok (length ?xs) (rw_anchor ?below)"
    using below(1,2) m by (auto simp: anchor_ok_def anchored_def)
  then have ok2: "list_ok st2" using ok by (simp add: list_ok_def st2)
  obtain r1 c1 where 1: "seek count_dim (cursor_new count_dim (li_items st)) (count_target ?m) Right = Some (r1, c1)"
    "counts.cursor_ok (li_items st) c1 ?m" "c_did_seek c1"
    using seek_counts [OF t fit, of ?m] m by (auto simp: min_def)
  obtain c2 where 2: "forward_loop env w avail (li_overdraw st) 0 c1 \<lparr>rw_measured = [], rw_layouts = [], rw_height = e_top padding,
      rw_max_width = 0, rw_scroll_top = layout_target st, rw_anchor = layout_anchor st, rw_provisional = False, rw_focused = False\<rparr> =
        Some (?below, c2)" "c_tree c2 = li_items st"
    using forward_loop_eq [OF 1(2,3)] unfolding rows_below_def by blast
  obtain r3 c3 where 3: "seek count_dim c2 (count_target ?m) Right = Some (r3, c3)" "below_items (li_items st) c3 ?m"
    using counts.seek_ok [of c2 "count_target ?m" Right] 2(2) t fit m
    by (auto simp: items_fit_def counts.seek_index_def skip_counts below_items_def min_def)
  have fill: "fill_rows env w avail (keeps_position st) (li_alignment st2) (items_of st2) ?r1 = (r, k)"
    using shown by (simp add: rows_shown_def Let_def st2)
  note fr = fill_rows_ok [OF fill e]
  obtain c4 st4 where 4: "fill_viewport env w avail (keeps_position st) c3 ?r1 st2 = Some (r, c4, st4)" "below_items (li_items st) c4 k"
    "list_ok st4" "st4 = st2\<lparr>li_scroll_anchor := li_scroll_anchor st4\<rparr>" "\<forall>a. li_scroll_anchor st4 = Some a \<longrightarrow> sa_position a = rw_scroll_top r"
    using fill_viewport_eq [OF ok2 _ _ e _ fill, of c3] fit 3(2) below(1,2) by (auto simp: st2 anchored_def)
  have st4: "li_items st4 = li_items st" "li_alignment st4 = li_alignment st" "li_overdraw st4 = li_overdraw st"
    by (subst 4(4), simp add: st2)+
  define st5 where "st5 = st4\<lparr>li_scroll_anchor := map_option (\<lambda>anchor. anchor\<lparr>sa_provisional := keeps_position st \<and> rw_provisional r,
    sa_pending_end := \<not> keeps_position st \<and> rw_provisional r\<rparr>) (li_scroll_anchor st4)\<rparr>"
  have st5: "li_items st5 = li_items st" "li_alignment st5 = li_alignment st" "li_overdraw st5 = li_overdraw st"
    "\<forall>a. li_scroll_anchor st5 = Some a \<longrightarrow> sa_position a = rw_scroll_top r \<and>
       sa_provisional a = (keeps_position st \<and> rw_provisional r) \<and> sa_pending_end a = (\<not> keeps_position st \<and> rw_provisional r)"
    using 4(5) by (auto simp: st5_def st4)
  have km: "k \<le> ?m" "k \<le> length ?xs" "lo_item_ix (rw_scroll_top r) \<le> length ?xs" using fr(1,2) below(1) m by (auto simp: st2)
  obtain ys2 where ys2: "rw_measured r = ys2 @ rw_measured ?below" "list_all2 measures (drop k (take ?m ?xs)) ys2"
    using fr(3) below(1) m by (auto simp: st2)
  obtain n where n: "?m \<le> n" "n \<le> length ?xs" "list_all2 measures (drop ?m (take n ?xs)) (rw_measured ?below)"
    using below(3) by blast
  have "\<exists>measured c5 k5 ys. (if rw_provisional r then Some (rw_measured r, c4)
      else leading_loop env w (li_overdraw st5) (lo_offset_in_item (rw_scroll_top r)) c4 (rw_measured r)) = Some (measured, c5) \<and>
    below_items (li_items st) c5 k5 \<and> k5 \<le> k \<and> measured = ys @ rw_measured r \<and> list_all2 measures (drop k5 (take k ?xs)) ys"
  proof (cases "rw_provisional r")
    case True
    then show ?thesis using 4(2) by (intro exI [of _ "rw_measured r"] exI [of _ c4] exI [of _ k] exI [of _ "[]"]) simp
  next
    case False
    obtain measured k5 where l: "leading_rows env w (li_overdraw st) (lo_offset_in_item (rw_scroll_top r)) (rev (take k ?xs)) (rw_measured r) = (measured, k5)"
      by fastforce
    then show ?thesis
      using False leading_loop_eq [OF 4(2) l] leading_rows_ok [OF l km(2) e h] by (auto simp: st5)
  qed
  then obtain measured c5 k5 ys where 5: "(if rw_provisional r then Some (rw_measured r, c4)
      else leading_loop env w (li_overdraw st5) (lo_offset_in_item (rw_scroll_top r)) c4 (rw_measured r)) = Some (measured, c5)"
    "below_items (li_items st) c5 k5" "k5 \<le> k" "measured = ys @ rw_measured r" "list_all2 measures (drop k5 (take k ?xs)) ys"
    by blast
  have all: "list_all2 measures (drop k5 (take n ?xs)) measured"
    unfolding 5(4) ys2(1)
    by (intro list_all2_stretch [OF 5(5)] list_all2_stretch [OF ys2(2)]) (use n 5(3) km in simp_all)
  have len: "k5 + length measured = n" using list_all2_lengthD [OF all] n 5(3) km by simp
  from replace_measured_ok [OF t fit, of k5 measured] len n(2) obtain t' where
    t': "replace_measured (li_items st) k5 measured = Some t'" "tree_ok list_ops t'"
      "to_list t' = take k5 ?xs @ measured @ drop (k5 + length measured) ?xs"
    by auto
  have re: "remeasured ?xs (to_list t')"
    unfolding t'(3) using remeasured_stretch [OF all] n 5(3) km by simp
  define st6 where "st6 = st5\<lparr>li_items := t'\<rparr>"
  have "list_ok st6"
    using t'(2) remeasured_ok [OF re] h st5(4) km(3) by (auto simp: st6_def list_ok_def anchor_ok_def)
  moreover have "list_ok (st6\<lparr>li_follow_state := f\<rparr>) = list_ok st6" for f by (simp add: list_ok_def)
  moreover have "layout_rows env w avail padding st =
      Some (if \<not> rw_provisional r \<and> has_stopped_following (li_follow_state st6) \<and>
         scroll_top st6 (rw_scroll_top r) + avail \<ge>
           ls_height (node_summary t') + e_top (layout_padding st6) + e_bottom (layout_padding st6) - 1
       then st6\<lparr>li_follow_state := start_following (li_follow_state st6)\<rparr> else st6, r)"
    unfolding layout_rows_def layout_start [OF ok]
    by (simp only: Option.bind.bind_lunit prod.case Let_def cnt' st1 st1_def [symmetric] 1(1) 2(1)
        st2_def [symmetric] r1 3(1) 4(1) st5_def [symmetric] st5(1) 5(1) below_start [OF 5(2)] t'(1) st6_def [symmetric])
  ultimately show ?thesis
    using re st5 by (auto simp: st6_def)
qed

section \<open>Rows that fill the viewport\<close>

definition row_layout :: "'p list_env \<Rightarrow> 'p option \<Rightarrow> nat \<Rightarrow> 'p item_layout" where
  "row_layout env w ix = \<lparr>il_index = ix, il_size = env_size env w ix\<rparr>"

definition rows_height :: "'p::linordered_field list_env \<Rightarrow> 'p option \<Rightarrow> nat \<Rightarrow> nat \<Rightarrow> 'p" where
  "rows_height env w a b = sum_list (map (\<lambda>ix. height (env_size env w ix)) [a..<b])"

text \<open>Every row has a final measurement, and none is kept in a layer.\<close>

definition draws_all :: "'p list_env \<Rightarrow> bool" where
  "draws_all env \<longleftrightarrow> (\<forall>ix. env_ready env ix) \<and> (\<forall>ix measured. \<not> env_keeps env ix measured)"

lemma rows_height_simps [simp]: "rows_height env w a a = 0"
  by (simp add: rows_height_def)

lemma rows_height_Cons: "a < b \<Longrightarrow> rows_height env w a b = height (env_size env w a) + rows_height env w (Suc a) b"
  by (simp add: rows_height_def upt_conv_Cons)

lemma rows_height_add: "a \<le> b \<Longrightarrow> b \<le> c \<Longrightarrow> rows_height env w a b + rows_height env w b c = rows_height env w a c"
  using upt_add_eq_append [of a b "c - b"] by (simp add: rows_height_def)

lemma rows_height_nonneg: "env_ok env \<Longrightarrow> 0 \<le> rows_height env w a b"
  by (induction b) (auto simp: rows_height_def env_ok_def)

lemma forward_row_drawn:
  assumes "draws_all env" "rw_height r - lo_offset_in_item (rw_scroll_top r) < avail"
  shows "\<exists>r'. forward_row env w avail ix item r = (r', False) \<and> rw_layouts r' = rw_layouts r @ [row_layout env w (lo_item_ix (rw_scroll_top r) + ix)] \<and>
    rw_height r' = rw_height r + height (env_size env w (lo_item_ix (rw_scroll_top r) + ix)) \<and> rw_provisional r' = rw_provisional r \<and>
    lo_item_ix (rw_scroll_top r') = lo_item_ix (rw_scroll_top r) \<and> (0 < ix \<longrightarrow> rw_scroll_top r' = rw_scroll_top r)"
  using assms by (auto simp: forward_row_def draws_all_def Let_def row_layout_def)

lemma forward_row_hidden:
  assumes "draws_all env" "env_ok env" "avail \<le> rw_height r - lo_offset_in_item (rw_scroll_top r)" "0 \<le> item_height item" "0 < ix"
  shows "\<exists>r'. forward_row env w avail ix item r = (r', False) \<and> rw_layouts r' = rw_layouts r \<and> rw_height r \<le> rw_height r' \<and>
    rw_provisional r' = rw_provisional r \<and> rw_scroll_top r' = rw_scroll_top r"
  using assms size_height [of item]
  by (auto simp: forward_row_def draws_all_def env_ok_def Let_def split: option.split)

lemma forward_rows_hidden:
  assumes "draws_all env" "env_ok env" "heights_ok its" "avail \<le> rw_height r - lo_offset_in_item (rw_scroll_top r)" "0 < ix"
  shows "rw_layouts (forward_rows env w avail overdraw ix its r) = rw_layouts r \<and>
    rw_height r \<le> rw_height (forward_rows env w avail overdraw ix its r) \<and>
    rw_provisional (forward_rows env w avail overdraw ix its r) = rw_provisional r \<and>
    rw_scroll_top (forward_rows env w avail overdraw ix its r) = rw_scroll_top r"
  using assms(3-5)
proof (induction its arbitrary: ix r)
  case (Cons item its)
  have item: "0 \<le> item_height item" "heights_ok its" using Cons.prems(1) by (simp_all add: heights_ok_def)
  from forward_row_hidden [OF assms(1,2) Cons.prems(2) item(1) Cons.prems(3)] obtain r' where
    r': "forward_row env w avail ix item r = (r', False)" "rw_layouts r' = rw_layouts r" "rw_height r \<le> rw_height r'"
      "rw_provisional r' = rw_provisional r" "rw_scroll_top r' = rw_scroll_top r"
    by blast
  have "avail \<le> rw_height r' - lo_offset_in_item (rw_scroll_top r')" using Cons.prems(2) r'(3,5) by simp
  from Cons.IH [OF item(2) this, of "ix + 1"] r' show ?case by auto
qed simp

lemma forward_rows_drawn:
  assumes e: "draws_all env" "env_ok env" and o: "0 \<le> overdraw" and "heights_ok its" "0 < ix"
  shows "\<exists>b. lo_item_ix (rw_scroll_top r) + ix \<le> b \<and> b \<le> lo_item_ix (rw_scroll_top r) + ix + length its \<and>
    rw_layouts (forward_rows env w avail overdraw ix its r) = rw_layouts r @ map (row_layout env w) [lo_item_ix (rw_scroll_top r) + ix..<b] \<and>
    rw_height r + rows_height env w (lo_item_ix (rw_scroll_top r) + ix) b \<le> rw_height (forward_rows env w avail overdraw ix its r) \<and>
    rw_provisional (forward_rows env w avail overdraw ix its r) = rw_provisional r \<and>
    rw_scroll_top (forward_rows env w avail overdraw ix its r) = rw_scroll_top r \<and>
    (if b = lo_item_ix (rw_scroll_top r) + ix + length its
     then rw_height (forward_rows env w avail overdraw ix its r) = rw_height r + rows_height env w (lo_item_ix (rw_scroll_top r) + ix) b
     else avail \<le> rw_height r + rows_height env w (lo_item_ix (rw_scroll_top r) + ix) b - lo_offset_in_item (rw_scroll_top r))"
  using assms(4,5)
proof (induction its arbitrary: ix r)
  case Nil
  show ?case by (rule exI [of _ "lo_item_ix (rw_scroll_top r) + ix"]) simp
next
  case (Cons item its)
  let ?s = "lo_item_ix (rw_scroll_top r) + ix"
  have item: "0 \<le> item_height item" "heights_ok its" using Cons.prems(1) by (simp_all add: heights_ok_def)
  show ?case
  proof (cases "rw_height r - lo_offset_in_item (rw_scroll_top r) < avail")
    case True
    from forward_row_drawn [OF e(1) True, of w ix item] Cons.prems(2) obtain r' where
      r': "forward_row env w avail ix item r = (r', False)" "rw_layouts r' = rw_layouts r @ [row_layout env w ?s]"
        "rw_height r' = rw_height r + height (env_size env w ?s)" "rw_provisional r' = rw_provisional r" "rw_scroll_top r' = rw_scroll_top r"
      by auto
    have step: "forward_rows env w avail overdraw ix (item # its) r = forward_rows env w avail overdraw (ix + 1) its r'"
      using True o r'(1) by auto
    have suc: "lo_item_ix (rw_scroll_top r) + (ix + 1) = Suc ?s" by simp
    have pos: "0 < ix + 1" by simp
    from Cons.IH [OF item(2) pos, of r', unfolded r'(5) suc] obtain b where b: "Suc ?s \<le> b" "b \<le> Suc ?s + length its"
      "rw_layouts (forward_rows env w avail overdraw (ix + 1) its r') = rw_layouts r' @ map (row_layout env w) [Suc ?s..<b]"
      "rw_height r' + rows_height env w (Suc ?s) b \<le> rw_height (forward_rows env w avail overdraw (ix + 1) its r')"
      "rw_provisional (forward_rows env w avail overdraw (ix + 1) its r') = rw_provisional r'"
      "rw_scroll_top (forward_rows env w avail overdraw (ix + 1) its r') = rw_scroll_top r"
      "if b = Suc ?s + length its
       then rw_height (forward_rows env w avail overdraw (ix + 1) its r') = rw_height r' + rows_height env w (Suc ?s) b
       else avail \<le> rw_height r' + rows_height env w (Suc ?s) b - lo_offset_in_item (rw_scroll_top r)"
      by blast
    have sb: "?s < b" using b(1) by simp
    show ?thesis
      unfolding step using b r'(2-4) rows_height_Cons [OF sb, of env w] upt_conv_Cons [OF sb]
      by (intro exI [of _ b]) (auto simp: add.assoc split: if_splits)
  next
    case False
    then have vis: "avail \<le> rw_height r - lo_offset_in_item (rw_scroll_top r)" by simp
    show ?thesis
      using forward_rows_hidden [OF e Cons.prems(1) vis Cons.prems(2), of w overdraw] vis
      by (intro exI [of _ ?s]) simp
  qed
qed

lemma upward_rows_drawn:
  assumes "upward_rows env w avail preserve (rev (take m xs)) r = (r', k)" "m \<le> length xs" "draws_all env" "\<not> rw_provisional r"
  shows "rw_layouts r' = map (row_layout env w) [k..<m] @ rw_layouts r \<and> rw_height r' = rw_height r + rows_height env w k m \<and>
    \<not> rw_provisional r' \<and> k \<le> m \<and> (k = 0 \<or> avail \<le> rw_height r')"
  using assms(1,2,4)
proof (induction m arbitrary: r)
  case (Suc m)
  then have m: "m < length xs" "length (rev (take m xs)) = m" by simp_all
  note eq = Suc.prems(1) [unfolded rev_take_Suc [OF m(1)] upward_rows.simps m(2) Let_def]
  let ?r = "upward_row env w m (xs ! m) r"
  have prov: "\<not> rw_provisional ?r" using Suc.prems(3) assms(3) by (simp add: draws_all_def)
  show ?case
  proof (cases "rw_height r < avail")
    case True
    then have "upward_rows env w avail preserve (rev (take m xs)) ?r = (r', k)" using eq prov by simp
    from Suc.IH [OF this _ prov] m(1) show ?thesis
      using rows_height_add [of k m "Suc m" env w] by (auto simp: row_layout_def rows_height_Cons [of m "Suc m"])
  next
    case False
    then show ?thesis using eq Suc.prems(3) by auto
  qed
qed auto

lemma rows_below_drawn:
  assumes ok: "list_ok st" and e: "draws_all env" "env_ok env" and o: "0 \<le> li_overdraw st"
    and first: "e_top padding - lo_offset_in_item (layout_target st) < avail"
  defines "m \<equiv> lo_item_ix (layout_target st)" and "n \<equiv> length (items_of st)"
  shows "\<exists>b. m \<le> b \<and> b \<le> n \<and> rw_layouts (rows_below env w avail padding st) = map (row_layout env w) [m..<b] \<and>
    e_top padding + rows_height env w m b \<le> rw_height (rows_below env w avail padding st) \<and>
    \<not> rw_provisional (rows_below env w avail padding st) \<and>
    (if b = n then rw_height (rows_below env w avail padding st) = e_top padding + rows_height env w m b
     else avail \<le> e_top padding + rows_height env w m b - lo_offset_in_item (rw_scroll_top (rows_below env w avail padding st))) \<and>
    (m = n \<longrightarrow> rw_scroll_top (rows_below env w avail padding st) = layout_target st)"
proof -
  let ?r0 = "\<lparr>rw_measured = [], rw_layouts = [], rw_height = e_top padding, rw_max_width = 0, rw_scroll_top = layout_target st,
        rw_anchor = layout_anchor st, rw_provisional = False, rw_focused = False\<rparr>"
  have m: "m \<le> n" using layout_target_le [OF ok] by (simp add: m_def n_def)
  have h: "heights_ok (drop k (items_of st))" for k using ok by (auto simp: list_ok_def heights_ok_def dest: in_set_dropD)
  show ?thesis
  proof (cases "m = n")
    case True
    then have "drop (lo_item_ix (layout_target st)) (items_of st) = []" by (simp add: m_def n_def)
    then have "rows_below env w avail padding st = ?r0" by (simp add: rows_below_def)
    then show ?thesis using True by (intro exI [of _ n]) simp
  next
    case False
    then have mn: "m < n" using m by simp
    let ?its = "drop (Suc m) (items_of st)"
    have its: "drop (lo_item_ix (layout_target st)) (items_of st) = items_of st ! m # ?its"
      using mn by (simp add: m_def n_def Cons_nth_drop_Suc)
    have vis: "rw_height ?r0 - lo_offset_in_item (rw_scroll_top ?r0) < avail" using first by simp
    from forward_row_drawn [OF e(1) vis, of w 0 "items_of st ! m"] obtain r1 where
      r1: "forward_row env w avail 0 (items_of st ! m) ?r0 = (r1, False)" "rw_layouts r1 = [row_layout env w m]"
        "rw_height r1 = e_top padding + height (env_size env w m)" "\<not> rw_provisional r1" "lo_item_ix (rw_scroll_top r1) = m"
      by (auto simp: m_def)
    have step: "rows_below env w avail padding st = forward_rows env w avail (li_overdraw st) 1 ?its r1"
      unfolding rows_below_def its using r1(1) vis o by (auto simp: not_le)
    have suc: "lo_item_ix (rw_scroll_top r1) + 1 = Suc m" by (simp add: r1(5))
    from forward_rows_drawn [OF e o h zero_less_one, of r1 "Suc m" w avail, unfolded suc step [symmetric]] r1(2,4) obtain b where b: "Suc m \<le> b" "b \<le> Suc m + length ?its"
      "rw_layouts (rows_below env w avail padding st) = row_layout env w m # map (row_layout env w) [Suc m..<b]"
      "rw_height r1 + rows_height env w (Suc m) b \<le> rw_height (rows_below env w avail padding st)"
      "\<not> rw_provisional (rows_below env w avail padding st)"
      "rw_scroll_top (rows_below env w avail padding st) = rw_scroll_top r1"
      "if b = Suc m + length ?its then rw_height (rows_below env w avail padding st) = rw_height r1 + rows_height env w (Suc m) b
       else avail \<le> rw_height r1 + rows_height env w (Suc m) b - lo_offset_in_item (rw_scroll_top r1)"
      by auto
    have len: "Suc m + length ?its = n" and "m < b" using mn b(1) by (simp_all add: n_def)
    show ?thesis
      using b [unfolded len r1(3)] rows_height_Cons [OF \<open>m < b\<close>, of env w] upt_conv_Cons [OF \<open>m < b\<close>] mn
      by (intro exI [of _ b]) (auto simp: add.assoc split: if_splits)
  qed
qed

text \<open>
  The rows laid out are consecutive from the scroll top on. They reach the end of the viewport or the last item; the
  content reaches the end of the viewport unless the list starts with its first item; and a list scrolled to its end
  ends at the end of the viewport.
\<close>

definition fills_viewport ::
    "'p::linordered_field list_env \<Rightarrow> 'p option \<Rightarrow> 'p \<Rightarrow> 'p edges \<Rightarrow> nat \<Rightarrow> 'p list_offset \<Rightarrow> nat \<Rightarrow> bool" where
  "fills_viewport env w avail padding n p b \<longleftrightarrow> lo_item_ix p \<le> b \<and> b \<le> n \<and>
     (b = n \<or> avail \<le> e_top padding + rows_height env w (lo_item_ix p) b - lo_offset_in_item p) \<and>
     (lo_item_ix p = 0 \<or> avail \<le> e_top padding + rows_height env w (lo_item_ix p) n + e_bottom padding - lo_offset_in_item p)"

lemma rows_shown_fill:
  assumes ok: "list_ok st" and e: "draws_all env" "env_ok env" and o: "0 \<le> li_overdraw st" "0 \<le> e_bottom padding"
    and first: "e_top padding - lo_offset_in_item (layout_target st) < avail"
    and shown: "rows_shown env w avail padding st = (r, k)"
  defines "n \<equiv> length (items_of st)" and "p \<equiv> rw_scroll_top r"
  shows "\<exists>b. rw_layouts r = map (row_layout env w) [lo_item_ix p..<b] \<and> fills_viewport env w avail padding n p b \<and> \<not> rw_provisional r \<and>
    (\<not> keeps_position st \<and> e_top padding + e_bottom padding < avail + lo_offset_in_item (layout_target st) \<longrightarrow>
       b = n \<and> (lo_item_ix p = 0 \<or> e_top padding + rows_height env w (lo_item_ix p) n + e_bottom padding - lo_offset_in_item p = avail))"
proof -
  let ?m = "lo_item_ix (layout_target st)" and ?below = "rows_below env w avail padding st"
  let ?r1 = "?below\<lparr>rw_height := rw_height ?below + e_bottom padding\<rparr>"
  have m: "?m \<le> n" using layout_target_le [OF ok] by (simp add: n_def)
  have ix: "lo_item_ix (rw_scroll_top ?below) = ?m" using rows_below_ok(1) [OF ok e(2)] by simp
  from rows_below_drawn [OF ok e o(1) first, of w] obtain b where b: "?m \<le> b" "b \<le> n" "rw_layouts ?below = map (row_layout env w) [?m..<b]"
    "e_top padding + rows_height env w ?m b \<le> rw_height ?below" "\<not> rw_provisional ?below"
    "if b = n then rw_height ?below = e_top padding + rows_height env w ?m b
     else avail \<le> e_top padding + rows_height env w ?m b - lo_offset_in_item (rw_scroll_top ?below)"
    "?m = n \<longrightarrow> rw_scroll_top ?below = layout_target st"
    by (auto simp: n_def)
  have fill: "fill_rows env w avail (keeps_position st) (li_alignment st) (items_of st) ?r1 = (r, k)"
    using shown by (simp add: rows_shown_def Let_def)
  show ?thesis
  proof (cases "rw_height ?r1 - lo_offset_in_item (rw_scroll_top ?r1) < avail")
    case False
    then have r: "r = ?r1" using fill by (simp add: fill_rows_def Let_def)
    have "rows_height env w ?m b \<le> rows_height env w ?m n"
      using rows_height_add [OF b(1,2), of env w] rows_height_nonneg [OF e(2), of w b n] by simp
    then show ?thesis
      using False b ix o(2) m by (intro exI [of _ b]) (auto simp: r p_def fills_viewport_def n_def split: if_splits)
  next
    case True
    have bn: "b = n" using True b(4,6) o(2) by (auto split: if_splits)
    obtain u l where u: "upward_rows env w avail (keeps_position st) (rev (take ?m (items_of st))) ?r1 = (u, l)" by fastforce
    from upward_rows_drawn [OF u _ e(1)] m b(5) have up: "rw_layouts u = map (row_layout env w) [l..<?m] @ rw_layouts ?below"
      "rw_height u = rw_height ?r1 + rows_height env w l ?m" "\<not> rw_provisional u" "l \<le> ?m" "l = 0 \<or> avail \<le> rw_height u"
      by (auto simp: n_def)
    have r: "r = u\<lparr>rw_scroll_top := \<lparr>lo_item_ix = l, lo_offset_in_item =
        (if li_alignment st = TopAligned then max (rw_height u - avail) 0 else rw_height u - avail)\<rparr>\<rparr>"
      using fill True b(5) u up(3) ix by (auto simp: fill_rows_def Let_def)
    have h: "rw_height u = e_top padding + rows_height env w l n + e_bottom padding"
      using b(6) up(2) bn rows_height_add [OF up(4) m, of env w] by simp
    have "map (row_layout env w) [l..<?m] @ map (row_layout env w) [?m..<n] = map (row_layout env w) [l..<n]"
      using upt_add_eq_append [OF up(4), of "n - ?m"] m by simp
    then show ?thesis
      using b(3) bn up h m by (intro exI [of _ n]) (auto simp: r p_def fills_viewport_def)
  qed
qed

section \<open>The focused row\<close>

fun first_focused :: "'p list_env \<Rightarrow> nat \<Rightarrow> 'p list_item list \<Rightarrow> nat option" where
  "first_focused env i [] = None"
| "first_focused env i (x # xs) = (if contains_focused env x then Some i else first_focused env (Suc i) xs)"

lemma first_focused_skip:
  "\<forall>x\<in>set ys. \<not> contains_focused env x \<Longrightarrow> first_focused env i (ys @ xs) = first_focused env (i + length ys) xs"
  by (induction ys arbitrary: i) simp_all

lemma first_focused_Some:
  "first_focused env i xs = Some j \<Longrightarrow> i \<le> j \<and> j < i + length xs \<and> contains_focused env (xs ! (j - i))"
  by (induction xs arbitrary: i) (fastforce split: if_splits simp: nth_Cons')+

lemma first_focused_None: "first_focused env i xs = None \<longleftrightarrow> (\<forall>x\<in>set xs. \<not> contains_focused env x)"
  by (induction xs arbitrary: i) auto

lemma first_focused_cong:
  "map item_focus_handle xs = map item_focus_handle ys \<Longrightarrow> first_focused env i xs = first_focused env i ys"
proof (induction xs arbitrary: i ys)
  case (Cons x xs)
  then show ?case by (cases ys) (simp_all add: contains_focused_def)
qed simp

lemma focus_add:
  "ls_has_focus_handles (list_summary_add a b) \<longleftrightarrow> ls_has_focus_handles a \<or> ls_has_focus_handles b"
  "\<not> ls_has_focus_handles list_summary_zero"
  "ls_has_focus_handles (list_item_summary_of x) \<longleftrightarrow> item_focus_handle x \<noteq> None"
  by (simp_all add: list_summary_add_def list_summary_zero_def, cases x) simp_all

lemma advance_focus:
  "ls_has_focus_handles (sums.advance s xs) \<longleftrightarrow> ls_has_focus_handles s \<or> (\<exists>x\<in>set xs. item_focus_handle x \<noteq> None)"
  by (induction xs arbitrary: s) (auto simp: sums.advance_Cons focus_add)

lemma lsum_focus: "ls_has_focus_handles (counts.lsum xs) \<longleftrightarrow> (\<exists>x\<in>set xs. item_focus_handle x \<noteq> None)"
proof (cases "xs = []")
  case False
  from arg_cong [OF sums.d_add_lsum [OF this, of list_summary_zero], of ls_has_focus_handles]
  show ?thesis
    by (simp add: focus_add advance_focus)
qed (simp add: counts.lsum_Nil focus_add)

lemma focus_filter:
  "counts.filter_sound ls_has_focus_handles" "\<not> counts.accepts ls_has_focus_handles x \<Longrightarrow> \<not> contains_focused env x"
proof -
  show "counts.filter_sound ls_has_focus_handles"
    by (auto simp: counts.filter_sound_def counts.accepts_def lsum_focus focus_add)
  show "\<not> contains_focused env x" if "\<not> counts.accepts ls_has_focus_handles x"
    using that by (auto simp: counts.accepts_def contains_focused_def focus_add split: option.splits)
qed

lemma focused_loop_eq:
  assumes "counts.cursor_ok t c n" "c_did_seek c"
  shows "focused_loop env c = Some (first_focused env n (drop n (to_list t)))"
  using assms
proof (induction "length (to_list t) - n" arbitrary: n c rule: less_induct)
  case less
  let ?xs = "to_list t" and ?F = "ls_has_focus_handles :: 'a list_item_summary \<Rightarrow> bool"
  have start: "cursor_start c = n"
    using counts.cursor_ok_position [OF less.prems(1)] counts.cursor_ok_bounds [OF less.prems(1)] by (simp add: cursor_start_def)
  show ?case
  proof (cases "n < length ?xs")
    case True
    then have drop: "drop n ?xs = ?xs ! n # drop (Suc n) ?xs" by (simp add: Cons_nth_drop_Suc)
    define k where "k = counts.reject_count ?F (drop (Suc n) ?xs)"
    note k = counts.reject_count_split [OF k_def]
    from counts.search_forward_ok [OF less.prems(1) focus_filter(1)] less.prems(2) obtain c' where
      c': "search_forward count_dim ?F c = Some c'" "counts.cursor_ok t c' (Suc n + k)" "c_did_seek c'"
      using k(1) True by (auto simp: counts.next_index_def k_def [symmetric])
    have "focused_loop env c' = Some (first_focused env (Suc n + k) (drop (Suc n + k) ?xs))"
      using less.hyps [OF _ c'(2,3)] True by simp
    moreover have "first_focused env (Suc n) (drop (Suc n) ?xs) = first_focused env (Suc n + k) (drop (Suc n + k) ?xs)"
    proof -
      have "drop (Suc n) ?xs = take k (drop (Suc n) ?xs) @ drop (Suc n + k) ?xs"
        by (metis append_take_drop_id drop_drop add.commute)
      moreover have "length (take k (drop (Suc n) ?xs)) = k" using k(1) by simp
      moreover have "\<forall>x\<in>set (take k (drop (Suc n) ?xs)). \<not> contains_focused env x" using k(2) focus_filter(2) by blast
      ultimately show ?thesis
        using first_focused_skip [of "take k (drop (Suc n) ?xs)" env "Suc n" "drop (Suc n + k) ?xs"] by simp
    qed
    ultimately show ?thesis
      using c'(1) True counts.cursor_item_ok(1) [OF less.prems] by (subst focused_loop.simps) (simp add: drop start)
  next
    case False
    then show ?thesis using counts.cursor_item_ok(1) [OF less.prems] by (subst focused_loop.simps) simp
  qed
qed

definition focus_shown :: "'p list_env \<Rightarrow> 'p list_item list \<Rightarrow> 'p row_state \<Rightarrow> bool" where
  "focus_shown env xs r \<longleftrightarrow> (\<forall>l\<in>set (rw_layouts r). il_index l < length xs) \<and>
     (rw_focused r \<longrightarrow> (\<exists>l\<in>set (rw_layouts r). contains_focused env (xs ! il_index l)))"

lemma forward_rows_focus:
  assumes "focus_shown env xs r" "its = drop (lo_item_ix (rw_scroll_top r) + ix) xs"
  shows "focus_shown env xs (forward_rows env w avail overdraw ix its r)"
  using assms
proof (induction its arbitrary: ix r)
  case (Cons item its)
  let ?i = "lo_item_ix (rw_scroll_top r) + ix"
  obtain r' stop where r': "forward_row env w avail ix item r = (r', stop)" by fastforce
  have i: "?i < length xs" "item = xs ! ?i" "its = drop (Suc ?i) xs"
    using Cons.prems(2) by (metis drop_eq_Nil linorder_not_less list.discI, metis drop_eq_Nil hd_drop_conv_nth linorder_not_less list.discI list.sel(1),
      metis drop_Suc list.sel(3) tl_drop)
  have "focus_shown env xs r'"
    using r' Cons.prems(1) i(1,2) by (auto simp: forward_row_def focus_shown_def push_layout_def Let_def split: option.splits if_splits)
  moreover have "its = drop (lo_item_ix (rw_scroll_top r') + (ix + 1)) xs" using i(3) forward_row_ok(2) [OF r'] by simp
  ultimately show ?case using Cons.IH [of r' "ix + 1"] Cons.prems(1) r' by auto
qed simp

lemma upward_rows_focus:
  assumes "upward_rows env w avail preserve (rev (take m xs)) r = (r', k)" "m \<le> length xs" "focus_shown env xs r"
  shows "focus_shown env xs r'"
  using assms
proof (induction m arbitrary: r)
  case (Suc m)
  then have m: "m < length xs" "length (rev (take m xs)) = m" by simp_all
  note eq = Suc.prems(1) [unfolded rev_take_Suc [OF m(1)] upward_rows.simps m(2) Let_def]
  have "focus_shown env xs (upward_row env w m (xs ! m) r)"
    using Suc.prems(3) m(1) by (auto simp: focus_shown_def upward_row_def Let_def)
  then show ?case using eq Suc.IH m(1) Suc.prems(3) by (auto split: if_splits)
qed simp

lemma rows_shown_focus:
  assumes "rows_shown env w avail padding st = (r, k)" "list_ok st" "env_ok env"
  shows "focus_shown env (items_of st) r"
proof -
  let ?below = "rows_below env w avail padding st" and ?xs = "items_of st"
  let ?r1 = "?below\<lparr>rw_height := rw_height ?below + e_bottom padding\<rparr>" and ?m = "lo_item_ix (layout_target st)"
  have ix: "lo_item_ix (rw_scroll_top ?below) = ?m" "?m \<le> length ?xs"
    using rows_below_ok(1) [OF assms(2,3)] layout_target_le [OF assms(2)] by auto
  have below: "focus_shown env ?xs ?below"
    unfolding rows_below_def by (rule forward_rows_focus) (simp_all add: focus_shown_def)
  then have r1: "focus_shown env ?xs ?r1" by (simp add: focus_shown_def)
  obtain u l where u: "upward_rows env w avail (keeps_position st) (rev (take ?m ?xs)) ?r1 = (u, l)" by fastforce
  note up = upward_rows_focus [OF u ix(2) r1] upward_rows_ok [OF u ix(2) assms(3)]
  have eq: "fill_rows env w avail (keeps_position st) (li_alignment st) ?xs ?r1 = (r, k)"
    using assms(1) by (simp add: rows_shown_def Let_def)
  have frame: "focus_shown env ?xs (u\<lparr>rw_scroll_top := p\<rparr>) = focus_shown env ?xs u" for p
    by (simp add: focus_shown_def)
  have drained: "focus_shown env ?xs (u\<lparr>rw_layouts := drop (length (rw_layouts u) - length (rw_layouts ?r1)) (rw_layouts u), rw_focused := rw_focused ?r1\<rparr>)"
    using up(1,2) below by (auto simp: focus_shown_def)
  show ?thesis
    using eq u up(1) r1 frame drained unfolding fill_rows_def Let_def by (auto simp: ix(1) split: if_splits)
qed

text \<open>The tree that holds the measured rows is searched for the focus by a cursor, whose stack holds 16 nodes.\<close>

definition layout_fits :: "'p::linordered_field list_env \<Rightarrow> 'p option \<Rightarrow> 'p \<Rightarrow> 'p edges \<Rightarrow> 'p list_state \<Rightarrow> bool" where
  "layout_fits env w avail padding st =
     (case layout_rows env w avail padding st of Some (st', _) \<Rightarrow> items_fit (li_items st') | None \<Rightarrow> True)"

lemma layout_items_ok:
  assumes ok: "list_ok st" and fit: "items_fit (li_items st)" "layout_fits env w avail padding st" and e: "env_ok env"
    and shown: "rows_shown env w avail padding st = (r, k)"
  shows "\<exists>st'. layout_items env w avail padding st = Some (st', \<lparr>lr_max_item_width = rw_max_width r, lr_scroll_top = rw_scroll_top r,
      lr_item_layouts = rw_layouts r @ (if rw_focused r then [] else
        case first_focused env 0 (items_of st) of None \<Rightarrow> [] | Some ix \<Rightarrow> [row_layout env w ix])\<rparr>) \<and>
    list_ok st' \<and> items_fit (li_items st') \<and> remeasured (items_of st) (items_of st') \<and>
    (\<forall>a. li_scroll_anchor st' = Some a \<longrightarrow> sa_position a = rw_scroll_top r \<and>
       sa_provisional a = (keeps_position st \<and> rw_provisional r) \<and> sa_pending_end a = (\<not> keeps_position st \<and> rw_provisional r))"
proof -
  from layout_rows_ok [OF ok fit(1) e shown] obtain st' where st': "layout_rows env w avail padding st = Some (st', r)" "list_ok st'"
    "remeasured (items_of st) (items_of st')"
    "\<forall>a. li_scroll_anchor st' = Some a \<longrightarrow> sa_position a = rw_scroll_top r \<and>
       sa_provisional a = (keeps_position st \<and> rw_provisional r) \<and> sa_pending_end a = (\<not> keeps_position st \<and> rw_provisional r)"
    by blast
  have fit': "items_fit (li_items st')" and t': "tree_ok list_ops (li_items st')"
    using fit(2) st'(1,2) by (simp_all add: layout_fits_def list_ok_def)
  let ?F = "ls_has_focus_handles :: 'a list_item_summary \<Rightarrow> bool" and ?xs = "items_of st'"
  define n where "n = counts.next_index ?F (li_items st') False 0"
  from counts.search_forward_ok [OF cursor_new_counts [OF t' fit'] focus_filter(1)] obtain c where
    c: "search_forward count_dim ?F (cursor_new count_dim (li_items st')) = Some c" "counts.cursor_ok (li_items st') c n" "c_did_seek c"
    by (auto simp: n_def cursor_new_def)
  have n: "n = counts.reject_count ?F ?xs"
    using counts.reject_count_split(1) [of _ ?F ?xs] by (simp add: n_def counts.next_index_def)
  have "\<forall>x\<in>set (take n ?xs). \<not> contains_focused env x"
    using counts.reject_count_split(2) [OF n] focus_filter(2) by blast
  from first_focused_skip [OF this, of 0 "drop n ?xs"] counts.reject_count_split(1) [OF n]
  have "first_focused env 0 ?xs = first_focused env n (drop n ?xs)" by (simp add: min_def)
  then have "focused_loop env c = Some (first_focused env 0 (items_of st))"
    using focused_loop_eq [OF c(2,3), of env] first_focused_cong [OF remeasured_ok(3) [OF st'(3)], of env 0] by simp
  then show ?thesis
    using st' fit' c(1) by (auto simp: layout_items_def row_layout_def split: option.split)
qed

section \<open>Requests to scroll\<close>

text \<open>The height of a row above, as measured or as rendered, and of a stretch of rows.\<close>

definition rows_extent :: "'p::linordered_field list_env \<Rightarrow> 'p option \<Rightarrow> 'p list_item list \<Rightarrow> nat \<Rightarrow> nat \<Rightarrow> 'p" where
  "rows_extent env w xs a b =
     sum_list (map (\<lambda>ix. height (case item_size (xs ! ix) of Some s \<Rightarrow> s | None \<Rightarrow> env_size env w ix)) [a..<b])"

lemma rows_extent_simps [simp]:
  "rows_extent env w xs a a = 0"
  "a \<le> b \<Longrightarrow> rows_extent env w xs a (Suc b) = rows_extent env w xs a b + height (case item_size (xs ! b) of Some s \<Rightarrow> s | None \<Rightarrow> env_size env w b)"
  by (simp_all add: rows_extent_def)

lemma walk_up_ok:
  assumes "below_items t c m"
  shows "\<exists>k. k \<le> m \<and> walk_up env w m offset c = Some \<lparr>lo_item_ix = k, lo_offset_in_item = max (offset + rows_extent env w (to_list t) k m) 0\<rparr> \<and>
    (k = 0 \<or> 0 \<le> offset + rows_extent env w (to_list t) k m)"
  using assms
proof (induction m arbitrary: c offset)
  case 0
  from below_prev [OF 0] obtain c' where "cursor_prev count_dim c = Some c'" "cursor_item c' = Some None" by auto
  then show ?case by (subst walk_up.simps) auto
next
  case (Suc m)
  from below_prev [OF Suc.prems] obtain c' where
    c': "cursor_prev count_dim c = Some c'" "below_items t c' m" "cursor_item c' = Some (Some (to_list t ! m))"
    by auto
  let ?h = "height (case item_size (to_list t ! m) of Some s \<Rightarrow> s | None \<Rightarrow> env_size env w m)"
  show ?case
  proof (cases "offset < 0")
    case True
    from Suc.IH [OF c'(2), of "offset + ?h"] obtain k where
      "k \<le> m" "walk_up env w m (offset + ?h) c' = Some \<lparr>lo_item_ix = k, lo_offset_in_item = max (offset + ?h + rows_extent env w (to_list t) k m) 0\<rparr>"
      "k = 0 \<or> 0 \<le> offset + ?h + rows_extent env w (to_list t) k m"
      by blast
    then show ?thesis
      using True c' by (intro exI [of _ k], subst walk_up.simps)
        (simp add: below_start [OF c'(2)] Let_def algebra_simps cong del: option.case_cong_weak)
  next
    case False
    then show ?thesis by (intro exI [of _ "Suc m"], subst walk_up.simps) simp
  qed
qed

lemma walk_to_fill_ok:
  assumes "below_items t c m"
  shows "\<exists>k. k \<le> m \<and> walk_to_fill env w h c = Some \<lparr>lo_item_ix = k, lo_offset_in_item = max (rows_extent env w (to_list t) k m - h) 0\<rparr> \<and>
    (k = 0 \<or> h \<le> rows_extent env w (to_list t) k m)"
  using assms
proof (induction m arbitrary: c h)
  case 0
  from below_prev [OF 0] obtain c' where "cursor_prev count_dim c = Some c'" "cursor_item c' = Some None" "below_items t c' 0" by auto
  then show ?case using below_start [OF 0] by (subst walk_to_fill.simps) (auto simp: below_start)
next
  case (Suc m)
  from below_prev [OF Suc.prems] obtain c' where
    c': "cursor_prev count_dim c = Some c'" "below_items t c' m" "cursor_item c' = Some (Some (to_list t ! m))"
    by auto
  let ?h = "height (case item_size (to_list t ! m) of Some s \<Rightarrow> s | None \<Rightarrow> env_size env w m)"
  show ?case
  proof (cases "h > 0")
    case True
    from Suc.IH [OF c'(2), of "h - ?h"] obtain k where
      "k \<le> m" "walk_to_fill env w (h - ?h) c' = Some \<lparr>lo_item_ix = k, lo_offset_in_item = max (rows_extent env w (to_list t) k m - (h - ?h)) 0\<rparr>"
      "k = 0 \<or> h - ?h \<le> rows_extent env w (to_list t) k m"
      by blast
    then show ?thesis
      using True c' by (intro exI [of _ k], subst walk_to_fill.simps)
        (simp add: below_start [OF c'(2)] Let_def algebra_simps cong del: option.case_cong_weak)
  next
    case False
    then show ?thesis
      using below_start [OF Suc.prems] by (intro exI [of _ "Suc m"], subst walk_to_fill.simps) auto
  qed
qed

text \<open>
  Where a request scrolls to: what it asks for starts at the top of the viewport when it lay above, and ends at its
  bottom, less the paddings, when it lay below; the list does not scroll above its first item.
\<close>

definition answers_request ::
    "'p::linordered_field list_env \<Rightarrow> 'p bounds \<Rightarrow> 'p edges \<Rightarrow> 'p list_item list \<Rightarrow> nat \<Rightarrow> 'p point \<Rightarrow> 'p bounds \<Rightarrow> 'p list_offset \<Rightarrow> bool" where
  "answers_request env bounds padding xs index item_origin request p \<longleftrightarrow>
     (let w = Some (width (bsize bounds));
          above = (py (origin request) < py (origin bounds));
          distance = rows_extent env w xs (lo_item_ix p) index - lo_offset_in_item p +
            (if above then py (origin request) else py (bottom_right request)) - py item_origin;
          room = (if above then 0 else height (bsize bounds) - e_top padding - e_bottom padding)
      in lo_item_ix p \<le> index \<and> 0 \<le> lo_offset_in_item p \<and>
         (distance = room \<or> lo_item_ix p = 0 \<and> lo_offset_in_item p = 0 \<and> distance < room))"

lemma autoscroll_offset_ok:
  assumes t: "tree_ok list_ops (li_items st)" and fit: "items_fit (li_items st)" and ix: "index \<le> length (items_of st)"
  shows "\<exists>p. autoscroll_offset env bounds padding st index item_origin request = Some p \<and>
    (if py (origin request) < py (origin bounds) \<or> py (bottom_right request) > py (bottom_right bounds)
     then \<exists>q. p = Some q \<and> answers_request env bounds padding (items_of st) index item_origin request q else p = None)"
proof -
  let ?w = "Some (width (bsize bounds))"
  obtain r c where c: "seek count_dim (cursor_new count_dim (li_items st)) (count_target index) Right = Some (r, c)"
    "below_items (li_items st) c index"
    using seek_counts [OF t fit, of index] ix by (auto simp: below_items_def min_def)
  let ?off = "py (origin request) - py item_origin"
  let ?room = "height (bsize bounds) - e_top padding - e_bottom padding - (py (bottom_right request) - py item_origin)"
  obtain k where k: "k \<le> index" "walk_up env ?w index ?off c =
      Some \<lparr>lo_item_ix = k, lo_offset_in_item = max (?off + rows_extent env ?w (items_of st) k index) 0\<rparr>"
    "k = 0 \<or> 0 \<le> ?off + rows_extent env ?w (items_of st) k index"
    using walk_up_ok [OF c(2), of env ?w ?off] by blast
  obtain l where l: "l \<le> index" "walk_to_fill env ?w ?room c =
      Some \<lparr>lo_item_ix = l, lo_offset_in_item = max (rows_extent env ?w (items_of st) l index - ?room) 0\<rparr>"
    "l = 0 \<or> ?room \<le> rows_extent env ?w (items_of st) l index"
    using walk_to_fill_ok [OF c(2), of env ?w ?room] by blast
  show ?thesis
  proof (cases "py (origin request) < py (origin bounds)")
    case True
    then show ?thesis
      using c(1) k by (auto simp: autoscroll_offset_def answers_request_def Let_def max_def not_le)
  next
    case False
    then show ?thesis
      using c(1) l by (auto simp: autoscroll_offset_def answers_request_def Let_def max_def not_le algebra_simps)
  qed
qed

section \<open>Prepainting ends\<close>

lemma remeasured_refl [simp]: "remeasured xs xs"
  by (simp add: remeasured_def list.rel_refl)

definition same_items :: "'p list_item list \<Rightarrow> 'p list_item list \<Rightarrow> bool" where
  "same_items xs ys \<longleftrightarrow> map item_focus_handle ys = map item_focus_handle xs"

lemma same_items_trans: "same_items xs ys \<Longrightarrow> same_items ys zs \<Longrightarrow> same_items xs zs"
  by (simp add: same_items_def)

lemma same_items_length: "same_items xs ys \<Longrightarrow> length ys = length xs"
  by (auto simp: same_items_def dest: map_eq_imp_length_eq)

lemma remeasured_same: "remeasured xs ys \<Longrightarrow> same_items xs ys"
  by (simp add: same_items_def remeasured_ok(3))

lemma measure_item_ok:
  assumes "env_ok env" "heights_ok xs" "i < length xs"
  shows "measures (xs ! i) (measure_item env w (i, xs ! i))"
proof -
  have "0 \<le> height (case item_size (xs ! i) of Some s \<Rightarrow> s | None \<Rightarrow> env_size env w i)"
    using assms size_height [of "xs ! i"] nth_mem [OF assms(3)] by (auto simp: env_ok_def heights_ok_def split: option.split)
  then show ?thesis unfolding measure_item_def by (simp add: measures_with)
qed

text \<open>Measuring all items gives every item a known height.\<close>

lemma layout_all_items_ok:
  assumes ok: "list_ok st" and fit: "items_fit (li_items st)" and e: "env_ok env"
  shows "\<exists>st'. layout_all_items env w st = Some st' \<and> list_ok st' \<and> remeasured (items_of st) (items_of st') \<and>
    st' = st\<lparr>li_items := li_items st', li_measuring_behavior := li_measuring_behavior st'\<rparr> \<and>
    (li_measuring_behavior st = MeasureAll False \<longrightarrow> (\<forall>x\<in>set (items_of st'). item_size_hint x \<noteq> None))"
proof (cases "li_measuring_behavior st = MeasureAll False")
  case False
  then have "layout_all_items env w st = Some st"
    by (auto simp: layout_all_items_def split: list_measuring_behavior.split bool.split)
  then show ?thesis using ok False by simp
next
  case True
  let ?xs = "items_of st" and ?ys = "map (measure_item env (Some w)) (enumerate 0 (items_of st))"
  have t: "tree_ok list_ops (li_items st)" and h: "heights_ok ?xs" using ok by (simp_all add: list_ok_def)
  have collect: "filter_collect count_dim (\<lambda>_. True) (cursor_new count_dim (li_items st)) [] = Some ?xs"
    using counts.filter_cursor_collect [OF cursor_new_counts [OF t fit], of "\<lambda>_. True"]
    by (simp add: cursor_new_def counts.accepts_def)
  obtain t' where t': "from_iter list_ops ?ys = Some t'" "tree_ok list_ops t'" "to_list t' = ?ys"
    using counts.from_iter_ok by blast
  have nth: "measures (?xs ! i) (?ys ! i)" if "i < length ?xs" for i
    using measure_item_ok [OF e h that] that by (simp add: nth_enumerate_eq)
  then have re: "remeasured ?xs ?ys" by (auto simp: remeasured_def list_all2_conv_all_nth)
  have known: "\<forall>x\<in>set ?ys. item_size_hint x \<noteq> None"
    unfolding all_set_conv_all_nth using nth by (simp add: measures_def)
  let ?st = "st\<lparr>li_items := t', li_measuring_behavior := MeasureAll (ls_unrendered_count (node_summary t') = 0)\<rparr>"
  have "list_ok ?st" using ok t' remeasured_ok [OF re] h by (simp add: list_ok_def)
  moreover have "layout_all_items env w st = Some ?st"
    using True collect t'(1) by (simp add: layout_all_items_def)
  ultimately show ?thesis
    using re known t'(3) by (intro exI [of _ ?st]) simp
qed

lemma measure_unmeasured_eq: "measure_unmeasured env w st = layout_all_items env w st"
  by (auto simp: measure_unmeasured_def layout_all_items_def split: list_measuring_behavior.split bool.split)

text \<open>The trees one round of prepainting builds fit the stacks of the cursors over them.\<close>

definition round_fits :: "'p::linordered_field list_env \<Rightarrow> 'p bounds \<Rightarrow> 'p edges \<Rightarrow> 'p list_state \<Rightarrow> bool" where
  "round_fits env bounds padding st =
     (items_fit (li_items st) \<and>
      (case measure_unmeasured env (width (bsize bounds)) st of
         Some st' \<Rightarrow> items_fit (li_items st') \<and> layout_fits env (Some (width (bsize bounds))) (height (bsize bounds)) padding st'
       | None \<Rightarrow> True))"

lemma prepaint_rows_ok:
  assumes "tree_ok list_ops (li_items st)" "items_fit (li_items st)" "\<forall>l\<in>set layouts. il_index l < length (items_of st)"
  shows "\<exists>p. prepaint_rows env bounds padding autoscroll st item_origin layouts = Some p \<and>
    (\<forall>q. p = Some q \<longrightarrow> autoscroll \<and> (\<exists>l\<in>set layouts. \<exists>at request. env_autoscroll env (il_index l) at = Some request \<and>
       answers_request env bounds padding (items_of st) (il_index l) at request q))"
  using assms(3)
proof (induction layouts arbitrary: item_origin)
  case (Cons item layouts)
  let ?at = "env_place env (il_index item) item_origin"
  have rest: "\<exists>p. prepaint_rows env bounds padding autoscroll st (?at\<lparr>py := py ?at + height (il_size item)\<rparr>) layouts = Some p \<and>
    (\<forall>q. p = Some q \<longrightarrow> autoscroll \<and> (\<exists>l\<in>set (item # layouts). \<exists>at request. env_autoscroll env (il_index l) at = Some request \<and>
       answers_request env bounds padding (items_of st) (il_index l) at request q))"
    using Cons by fastforce
  show ?case
  proof (cases "env_autoscroll env (il_index item) ?at")
    case None
    then show ?thesis using rest by (simp add: Let_def)
  next
    case (Some request)
    have ix: "il_index item \<le> length (items_of st)" using Cons.prems by auto
    obtain p where p: "autoscroll_offset env bounds padding st (il_index item) ?at request = Some p"
      "\<forall>q. p = Some q \<longrightarrow> answers_request env bounds padding (items_of st) (il_index item) ?at request q"
      using autoscroll_offset_ok [OF assms(1,2) ix, of env bounds padding ?at request] by (auto split: if_splits)
    show ?thesis
    proof (cases "autoscroll \<and> p \<noteq> None")
      case True
      then obtain q where q: "p = Some q" "autoscroll" by blast
      then have "\<exists>l\<in>set (item # layouts). \<exists>at request. env_autoscroll env (il_index l) at = Some request \<and>
          answers_request env bounds padding (items_of st) (il_index l) at request q"
        using Some p(2) by auto
      moreover have "prepaint_rows env bounds padding autoscroll st item_origin (item # layouts) = Some (Some q)"
        using Some p(1) q by (simp add: Let_def)
      ultimately show ?thesis using q(2) by blast
    next
      case False
      then show ?thesis using Some p(1) rest by (auto simp: Let_def)
    qed
  qed
qed simp

lemma row_indices_shown:
  assumes "list_ok st" "env_ok env" "rows_shown env w avail padding st = (r, k)"
  shows "\<forall>l\<in>set (rw_layouts r). il_index l < length (items_of st)"
  using rows_shown_focus [OF assms(3,1,2)] by (simp add: focus_shown_def)

lemma prepaint_items_ok:
  assumes ok: "list_ok st" and fit: "round_fits env bounds padding st" and e: "env_ok env"
  shows "\<exists>st' result. prepaint_items env bounds padding autoscroll st = Some (st', result) \<and> list_ok st' \<and> items_fit (li_items st') \<and>
    same_items (items_of st) (items_of st') \<and>
    (\<forall>q. result = Inl q \<longrightarrow> autoscroll \<and> lo_item_ix q < length (items_of st') \<and> 0 \<le> lo_offset_in_item q)"
proof -
  let ?w = "width (bsize bounds)" and ?h = "height (bsize bounds)"
  have fit0: "items_fit (li_items st)" using fit by (simp add: round_fits_def)
  from layout_all_items_ok [OF ok fit0 e, of ?w] obtain st1 where
    st1: "measure_unmeasured env ?w st = Some st1" "list_ok st1" "remeasured (items_of st) (items_of st1)"
    by (auto simp: measure_unmeasured_eq)
  have fit1: "items_fit (li_items st1)" "layout_fits env (Some ?w) ?h padding st1"
    using fit st1(1) by (simp_all add: round_fits_def)
  obtain r k where shown: "rows_shown env (Some ?w) ?h padding st1 = (r, k)" by fastforce
  from layout_items_ok [OF st1(2) fit1 e shown] obtain st' resp where
    st': "layout_items env (Some ?w) ?h padding st1 = Some (st', resp)" "list_ok st'" "items_fit (li_items st')"
      "remeasured (items_of st1) (items_of st')"
      "lr_item_layouts resp = rw_layouts r @ (if rw_focused r then [] else
        case first_focused env 0 (items_of st1) of None \<Rightarrow> [] | Some ix \<Rightarrow> [row_layout env (Some ?w) ix])"
    by auto
  have len: "length (items_of st') = length (items_of st1)" by (rule remeasured_ok(1) [OF st'(4)])
  have "\<forall>l\<in>set (lr_item_layouts resp). il_index l < length (items_of st')"
    using row_indices_shown [OF st1(2) e shown] first_focused_Some [of env 0 "items_of st1"]
    unfolding st'(5) len by (auto simp: row_layout_def split: option.splits if_splits)
  moreover have "tree_ok list_ops (li_items st')" using st'(2) by (simp add: list_ok_def)
  ultimately obtain p where p: "prepaint_rows env bounds padding autoscroll st'
      (env_snap env (lr_scroll_top resp) \<lparr>px = px (origin bounds), py = py (origin bounds) + e_top padding\<rparr>) (lr_item_layouts resp) = Some p"
    "\<forall>q. p = Some q \<longrightarrow> autoscroll \<and> (\<exists>ix<length (items_of st'). \<exists>at request.
       answers_request env bounds padding (items_of st') ix at request q)"
    using prepaint_rows_ok [OF _ st'(3), of "lr_item_layouts resp" env bounds padding autoscroll] by blast
  have q: "autoscroll \<and> lo_item_ix q < length (items_of st') \<and> 0 \<le> lo_offset_in_item q" if "p = Some q" for q
    using p(2) that by (fastforce simp: answers_request_def Let_def)
  have "same_items (items_of st) (items_of st')"
    using st1(3) st'(4) remeasured_same same_items_trans by blast
  then show ?thesis
    using st1(1) st'(1-3) p(1) q by (cases p) (auto simp: prepaint_items_def)
qed

definition prepaint_fits :: "'p::linordered_field list_env \<Rightarrow> 'p bounds \<Rightarrow> 'p edges \<Rightarrow> 'p list_state \<Rightarrow> bool" where
  "prepaint_fits env bounds padding st =
     (round_fits env bounds padding st \<and>
      (case prepaint_items env bounds padding True st of
         Some (st', Inl offset) \<Rightarrow>
           (case set_scroll_anchor (Some offset) st' of Some st'' \<Rightarrow> round_fits env bounds padding st'' | None \<Rightarrow> True)
       | _ \<Rightarrow> True))"

lemma prepaint_loop_ok:
  assumes ok: "list_ok st" and fit: "prepaint_fits env bounds padding st" and e: "env_ok env"
  shows "\<exists>st' layout. prepaint_loop env bounds padding True st = Some (st', layout) \<and> list_ok st' \<and> same_items (items_of st) (items_of st')"
proof -
  have last_round: "\<exists>st' layout. prepaint_loop env bounds padding False st = Some (st', layout) \<and> list_ok st' \<and>
      same_items (items_of st) (items_of st')" if st: "list_ok st" "round_fits env bounds padding st" for st
  proof -
    obtain st' result where 1: "prepaint_items env bounds padding False st = Some (st', result)" "list_ok st'"
      "same_items (items_of st) (items_of st')" "\<forall>q. result \<noteq> Inl q"
      using prepaint_items_ok [OF st e, of False] by auto
    then show ?thesis by (cases result) (subst prepaint_loop.simps, simp)+
  qed
  have round: "round_fits env bounds padding st" using fit by (simp add: prepaint_fits_def)
  obtain st1 result where 1: "prepaint_items env bounds padding True st = Some (st1, result)" "list_ok st1" "items_fit (li_items st1)"
    "same_items (items_of st) (items_of st1)" "\<forall>q. result = Inl q \<longrightarrow> lo_item_ix q < length (items_of st1) \<and> 0 \<le> lo_offset_in_item q"
    using prepaint_items_ok [OF ok round e, of True] by auto
  show ?thesis
  proof (cases result)
    case (Inr layout)
    then show ?thesis using 1 by (subst prepaint_loop.simps) simp
  next
    case (Inl q)
    then have "lo_item_ix q \<le> length (items_of st1)" using 1(5) by simp
    from set_anchor_position [OF 1(2,3) this] obtain st2 where
      st2: "set_scroll_anchor (Some q) st1 = Some st2" "list_ok st2" "li_items st2 = li_items st1"
      by blast
    have "round_fits env bounds padding st2" using fit 1(1) Inl st2(1) by (simp add: prepaint_fits_def)
    from last_round [OF st2(2) this] show ?thesis
      using 1 Inl st2 same_items_trans by (subst prepaint_loop.simps) fastforce
  qed
qed

lemma forget_sizes_ok:
  fixes st :: "'p::linordered_field list_state"
  assumes ok: "list_ok st" and fit: "items_fit (li_items st)"
  shows "\<exists>st'. forget_sizes bounds st = Some st' \<and> list_ok st' \<and> same_items (items_of st) (items_of st')"
proof (cases "case li_last_layout_bounds st of Some last_bounds \<Rightarrow> width (bsize last_bounds) \<noteq> width (bsize bounds) | None \<Rightarrow> True")
  case False
  then show ?thesis using ok by (simp add: forget_sizes_def same_items_def)
next
  case True
  let ?ys = "map (\<lambda>item. Unmeasured None (item_focus_handle item)) (items_of st) :: 'p list_item list"
  have t: "tree_ok list_ops (li_items st)" using ok by (simp add: list_ok_def)
  obtain t' where t': "from_iter list_ops ?ys = Some t'" "tree_ok list_ops t'" "to_list t' = ?ys"
    using counts.from_iter_ok by blast
  let ?st = "st\<lparr>li_items := t', li_measuring_behavior := measuring_reset (li_measuring_behavior st)\<rparr>"
  have "list_ok ?st" using ok t' by (auto simp: list_ok_def heights_ok_def)
  moreover have "same_items (items_of st) (items_of ?st)" using t'(3) by (simp add: same_items_def)
  moreover have "forget_sizes bounds st = Some ?st"
    using True t'(1) counts.tree_iter_ok [OF t] fit by (simp add: forget_sizes_def items_fit_def)
  ultimately show ?thesis by blast
qed

definition list_fits :: "'p::linordered_field list_env \<Rightarrow> 'p bounds \<Rightarrow> 'p edges \<Rightarrow> 'p list_state \<Rightarrow> bool" where
  "list_fits env bounds padding st =
     (items_fit (li_items st) \<and>
      (case forget_sizes bounds (st\<lparr>li_reset := False\<rparr>) of Some st' \<Rightarrow> prepaint_fits env bounds padding st' | None \<Rightarrow> True))"

lemma list_prepaint_ok:
  assumes ok: "list_ok st" and fit: "list_fits env bounds padding st" and e: "env_ok env"
  shows "\<exists>st' layout. list_prepaint env bounds padding st = Some (st', layout) \<and> list_ok st' \<and>
    same_items (items_of st) (items_of st') \<and> li_last_layout_bounds st' = Some bounds \<and> li_last_padding st' = Some padding"
proof -
  let ?st = "st\<lparr>li_reset := False\<rparr>"
  have "list_ok ?st" "items_fit (li_items ?st)" using ok fit by (simp_all add: list_ok_def list_fits_def)
  from forget_sizes_ok [OF this, of bounds] obtain st1 where
    st1: "forget_sizes bounds ?st = Some st1" "list_ok st1" "same_items (items_of st) (items_of st1)"
    by auto
  have "prepaint_fits env bounds padding st1" using fit st1(1) by (simp add: list_fits_def)
  from prepaint_loop_ok [OF st1(2) this e] obtain st2 layout where
    st2: "prepaint_loop env bounds padding True st1 = Some (st2, layout)" "list_ok st2" "same_items (items_of st1) (items_of st2)"
    by blast
  have "list_ok (st2\<lparr>li_last_layout_bounds := Some bounds, li_last_padding := Some padding\<rparr>)"
    using st2(2) by (simp add: list_ok_def)
  then show ?thesis
    using st1(1) st2(1) same_items_trans [OF st1(3) st2(3)] by (simp add: list_prepaint_def)
qed

text \<open>A layout some of whose rows are not measured yet leaves the list at the item it is scrolled to.\<close>

lemma rows_shown_provisional:
  assumes "rows_shown env w avail padding st = (r, k)" "list_ok st" "env_ok env" "keeps_position st" "rw_provisional r"
  shows "lo_item_ix (rw_scroll_top r) = lo_item_ix (layout_target st)"
proof -
  let ?below = "rows_below env w avail padding st"
  let ?r1 = "?below\<lparr>rw_height := rw_height ?below + e_bottom padding\<rparr>" and ?m = "lo_item_ix (layout_target st)"
  have ix: "lo_item_ix (rw_scroll_top ?below) = ?m" "?m \<le> length (items_of st)"
    using rows_below_ok(1) [OF assms(2,3)] layout_target_le [OF assms(2)] by auto
  obtain u l where u: "upward_rows env w avail True (rev (take ?m (items_of st))) ?r1 = (u, l)" by fastforce
  show ?thesis
    using assms(1,4,5) u upward_rows_ok [OF u ix(2) assms(3)]
    by (auto simp: rows_shown_def Let_def fill_rows_def ix(1) split: if_splits)
qed

lemma infer_layout_ok:
  fixes st :: "'p::linordered_field list_state"
  assumes "list_ok st" "items_fit (li_items st)" "env_ok env"
  defines "avail \<equiv> case li_last_layout_bounds st of Some last_bounds \<Rightarrow> height (bsize last_bounds) | None \<Rightarrow> li_overdraw st"
  assumes fits: "layout_fits env None avail padding st"
  shows "\<exists>st' max_width. infer_layout env padding st = Some (st', max_width, height_before (items_of st') (length (items_of st'))) \<and>
    list_ok st' \<and> remeasured (items_of st) (items_of st')"
proof -
  obtain r k where shown: "rows_shown env None avail padding st = (r, k)" by fastforce
  from layout_items_ok [OF assms(1,2) fits assms(3) shown] show ?thesis
    by (auto simp: infer_layout_def avail_def list_ok_def total_height)
qed

end
