(* ===== verification/ListState_Properties.thy ===== *)
theory ListState_Properties
  imports ListState Complex_Main
begin

text \<open>
  The properties of the state of a list element (\<open>gpui/src/elements/list.rs\<close>): what changing the items, scrolling,
  the scrollbar, revealing an item and measuring again do to the items and to the position the list is scrolled to.
\<close>

section \<open>A sample\<close>

definition row :: "rat \<Rightarrow> rat list_item" where
  "row h = Measured \<lparr>width = 100, height = h\<rparr> None"

definition sample_rows :: "rat list_item list" where
  "sample_rows = [row 10, row 20, row 30]"

definition shown_list :: "rat list_state" where
  "shown_list = \<lparr>li_last_layout_bounds = Some \<lparr>origin = \<lparr>px = 0, py = 5\<rparr>, bsize = \<lparr>width = 100, height = 40\<rparr>\<rparr>,
     li_last_padding = None,
     li_items = Leaf (sum_summaries list_ops (map list_item_summary_of sample_rows)) sample_rows (map list_item_summary_of sample_rows),
     li_scroll_anchor = Some \<lparr>sa_position = \<lparr>lo_item_ix = 1, lo_offset_in_item = 5\<rparr>, sa_pending = None,
       sa_provisional = False, sa_pending_end = False\<rparr>,
     li_alignment = TopAligned, li_overdraw = 0, li_reset = False, li_drag_start_height = None,
     li_measuring_behavior = MeasureVisible, li_follow_state = FollowNormal\<rparr>"

lemma shown_list_ok [simp]:
  "list_ok shown_list" "items_fit (li_items shown_list)" "items_of shown_list = [row 10, row 20, row 30]"
  "logical_scroll_top shown_list = \<lparr>lo_item_ix = 1, lo_offset_in_item = 5\<rparr>"
  "li_scroll_anchor shown_list = Some \<lparr>sa_position = \<lparr>lo_item_ix = 1, lo_offset_in_item = 5\<rparr>, sa_pending = None,
       sa_provisional = False, sa_pending_end = False\<rparr>"
  "li_follow_state shown_list = FollowNormal" "li_alignment shown_list = TopAligned" "\<not> li_reset shown_list"
  "li_last_layout_bounds shown_list \<noteq> None" "height (bsize (layout_bounds shown_list)) = 40"
  "layout_padding shown_list = \<lparr>e_top = 0, e_right = 0, e_bottom = 0, e_left = 0\<rparr>"
  by (simp_all add: shown_list_def list_ok_def heights_ok_def anchor_ok_def items_fit_def STACK_CAP_def sample_rows_def
      tree_ok_def list_ops_def TREE_BASE_def row_def item_height_def logical_scroll_top_def layout_bounds_def layout_padding_def)

section \<open>Changing the items\<close>

text \<open>
  C10: Splicing replaces exactly the given range by unmeasured items, and keeps what is shown: a list scrolled to an
  item before the range stays there, one scrolled to an item of the range goes to the start of the range, and one
  scrolled past the range shows the same items from the same offset on.
\<close>

theorem splice_keeps_what_is_shown:
  assumes "list_ok st" "items_fit (li_items st)" "a \<le> b" "b \<le> length (items_of st)"
  shows "\<exists>st'. splice_focusable a b fs st = Some st' \<and> list_ok st' \<and>
    items_of st' = take a (items_of st) @ map (Unmeasured None) fs @ drop b (items_of st) \<and>
    (li_scroll_anchor st = None \<longrightarrow> li_scroll_anchor st' = None) \<and>
    (li_scroll_anchor st \<noteq> None \<longrightarrow>
      (let old = logical_scroll_top st; new = logical_scroll_top st' in
       if lo_item_ix old < a then new = old
       else if lo_item_ix old < b then new = \<lparr>lo_item_ix = a, lo_offset_in_item = 0\<rparr>
       else lo_offset_in_item new = lo_offset_in_item old \<and>
         drop (lo_item_ix new) (items_of st') = drop (lo_item_ix old) (items_of st)))"
proof -
  obtain st' where st': "splice_focusable a b fs st = Some st'" "list_ok st'"
    "items_of st' = take a (items_of st) @ map (Unmeasured None) fs @ drop b (items_of st)"
    "st' = st\<lparr>li_items := li_items st', li_scroll_anchor := map_option (splice_anchor a b (length fs)) (li_scroll_anchor st)\<rparr>"
    using splice_ok [OF assms] by blast
  have anchor: "li_scroll_anchor st' = map_option (splice_anchor a b (length fs)) (li_scroll_anchor st)"
    by (subst st'(4)) simp
  have past: "drop (n - (b - a) + length fs) (items_of st') = drop n (items_of st)" if "b \<le> n" for n
  proof -
    have "n - (b - a) + length fs = length (take a (items_of st) @ map (Unmeasured None) fs) + (n - b)"
      using that assms(3,4) by simp
    then show ?thesis using that unfolding st'(3) append.assoc [symmetric] by (simp add: drop_append)
  qed
  show ?thesis
    using st'(1-3) anchor past assms(3)
    by (intro exI [of _ st']) (auto simp: logical_scroll_top_def splice_anchor_position Let_def)
qed

theorem splice_keeps_what_is_shown_witness:
  "\<exists>st'. splice_focusable 0 1 [None, None] shown_list = Some st' \<and>
     drop (lo_item_ix (logical_scroll_top st')) (items_of st') = [row 20, row 30]"
  using splice_keeps_what_is_shown [of shown_list 0 1 "[None, None]"] by (auto simp: Let_def numeral_2_eq_2)

text \<open>
  Measuring a stretch again forgets the measurements of exactly that stretch; every item keeps its height as a hint
  and its focus handle, and the list keeps the position it is scrolled to.
\<close>

theorem remeasuring_keeps_heights:
  assumes "list_ok st" "items_fit (li_items st)" "stretch_fits a b (li_items st)" "a \<le> b" "b \<le> length (items_of st)"
  shows "\<exists>st'. remeasure_items_with_scroll_anchor a b mode st = Some st' \<and> list_ok st' \<and>
    items_of st' = take a (items_of st) @ map forget_measurement (drop a (take b (items_of st))) @ drop b (items_of st) \<and>
    map item_height (items_of st') = map item_height (items_of st) \<and>
    logical_scroll_top st' = logical_scroll_top st \<and> scroll_position st' = scroll_position st"
proof -
  obtain st' where st': "remeasure_items_with_scroll_anchor a b mode st = Some st'" "list_ok st'"
    "items_of st' = take a (items_of st) @ map forget_measurement (drop a (take b (items_of st))) @ drop b (items_of st)"
    "map item_height (items_of st') = map item_height (items_of st)"
    "map_option sa_position (li_scroll_anchor st') = map_option sa_position (li_scroll_anchor st)"
    using remeasure_ok [OF assms] by blast
  have "li_alignment st' = li_alignment st"
    using st'(1) by (auto simp: remeasure_items_with_scroll_anchor_def split: bind_splits)
  moreover have "length (items_of st') = length (items_of st)"
    using st'(4) map_eq_imp_length_eq by blast
  moreover have "item_count st = length (items_of st)" "item_count st' = length (items_of st')"
    using assms(1) st'(2) by (simp_all add: item_count_ok list_ok_def)
  ultimately have top: "logical_scroll_top st' = logical_scroll_top st"
    using st'(5) by (cases "li_scroll_anchor st"; cases "li_scroll_anchor st'") (auto simp: logical_scroll_top_def split: list_alignment.split)
  then have "scroll_position st' = scroll_position st"
    using assms(1) st'(2,4) by (simp add: scroll_position_eq height_before_def take_map [symmetric])
  with st' top show ?thesis by blast
qed

theorem remeasuring_keeps_heights_witness:
  "\<exists>st'. remeasure_items_with_scroll_anchor 1 2 AnchorProportional shown_list = Some st' \<and>
     items_of st' = [row 10, Unmeasured (Some \<lparr>width = 100, height = 20\<rparr>) None, row 30]"
proof -
  have "stretch_fits 1 2 (li_items shown_list)" by code_simp
  from remeasuring_keeps_heights [OF shown_list_ok(1,2) this, of AnchorProportional] show ?thesis
    by (auto simp: forget_measurement_def row_def)
qed

section \<open>Scrolling\<close>

text \<open>
  C14: \<open>scroll_by\<close> moves the content by the distance, stopping at the top; a wheel event moves it against the delta,
  stopping at both ends. The position found is an offset within its item, no item changes, and only scrolling
  towards the start stops following the tail. At the end a list aligned to the bottom drops its anchor.
\<close>

theorem scrolling_moves_the_content:
  assumes "list_ok st" "items_fit (li_items st)" "offset_within (items_of st) (logical_scroll_top st)" "0 \<le> view"
    "\<not> li_reset st" "d \<noteq> 0"
  shows "(\<exists>st'. scroll_by d st = Some st' \<and> list_ok st' \<and> li_items st' = li_items st \<and>
      scroll_position st' = max (scroll_position st + d) 0 \<and> offset_within (items_of st) (logical_scroll_top st') \<and>
      li_follow_state st' = (if d < 0 then stop_following (li_follow_state st) else li_follow_state st)) \<and>
    (\<exists>st' ev. list_scroll handler (logical_scroll_top st) view \<lparr>px = x, py = d\<rparr> st = Some (st', ev) \<and> list_ok st' \<and>
      li_items st' = li_items st \<and>
      (let y = min (max (scroll_position st - d) 0) (content_max st view) in
       if li_alignment st = BottomAligned \<and> y = content_max st view then li_scroll_anchor st' = None
       else scroll_position st' = y \<and> offset_within (items_of st) (logical_scroll_top st')) \<and>
      li_follow_state st' = (if d > 0 then stop_following (li_follow_state st) else li_follow_state st) \<and>
      (ev \<noteq> None \<longleftrightarrow> handler))"
    (is "?by \<and> ?wheel")
proof
  let ?l = "logical_scroll_top st"
  have l: "0 \<le> lo_offset_in_item ?l" "lo_item_ix ?l \<le> length (items_of st)"
    using assms(3) by (simp_all add: offset_within_def)
  show ?by by (rule scroll_by_ok [OF assms(1,2) l(1) assms(6)])
  show ?wheel
    using list_scroll_ok [OF assms(1,2,5), of "\<lparr>px = x, py = d\<rparr>" ?l view handler] l assms(4,6)
    unfolding scroll_position_def [of st, symmetric] Let_def by (cases handler) fastforce+
qed

theorem scrolling_moves_the_content_witness:
  "\<exists>st'. scroll_by 20 shown_list = Some st' \<and> scroll_position st' = 35"
  using scrolling_moves_the_content [of shown_list 40 20]
  by (auto simp: offset_within_def row_def item_height_def scroll_position_eq height_before_def)

section \<open>The scrollbar\<close>

lemma set_scroll_anchor_frame: "set_scroll_anchor p st = Some st' \<Longrightarrow> st' = st\<lparr>li_scroll_anchor := li_scroll_anchor st'\<rparr>"
  by (auto simp: set_scroll_anchor_def split: option.splits bind_splits)

lemma scrollbar_range_frame:
  assumes "set_offset_from_scrollbar p st = Some st'"
  shows "max_scroll_offset st' = max_scroll_offset st \<and> li_alignment st' = li_alignment st"
proof -
  consider "st' = st" | follow where "st' = st\<lparr>li_follow_state := follow, li_scroll_anchor := li_scroll_anchor st'\<rparr>"
    using assms by (auto simp: set_offset_from_scrollbar_def Let_def split: option.splits if_splits dest!: set_scroll_anchor_frame)
  then show ?thesis
  proof cases
    case 2
    show ?thesis by (subst 2, subst (2) 2) (simp add: max_scroll_offset_def scrollbar_height_def layout_bounds_def split: option.split)
  qed simp
qed

text \<open>
  C24: The scrollbar reads back the offset it set, clamped to the content. A list aligned to the bottom and dragged to
  its end reads the largest offset; a list that follows its tail and is dragged to within one pixel of the end follows
  the tail again, and reads the height of its content.
\<close>

theorem scrollbar_round_trip:
  fixes st :: "'p::linordered_field list_state"
  assumes "list_ok st" "items_fit (li_items st)" "li_last_layout_bounds st \<noteq> None"
  shows "\<exists>st'. set_offset_from_scrollbar p st = Some st' \<and> list_ok st' \<and> li_items st' = li_items st \<and>
    (let y = min (max (- py p) 0) (scrollbar_max st);
         to_tail = (scrollbar_max st > 0 \<and> y \<ge> max (scrollbar_max st - 1) 0 \<and> li_follow_state st \<noteq> FollowNormal)
     in is_following_tail st' = to_tail \<and>
        scroll_px_offset_for_scrollbar st' = Some \<lparr>px = 0, py =
          (if to_tail then - height_before (items_of st) (length (items_of st))
           else if li_alignment st = BottomAligned \<and> y = scrollbar_max st then - max_scroll_offset st
           else - y)\<rparr>)"
proof -
  let ?y = "min (max (- py p) 0) (scrollbar_max st)"
  let ?tail = "scrollbar_max st > 0 \<and> ?y \<ge> max (scrollbar_max st - 1) 0 \<and> li_follow_state st \<noteq> FollowNormal"
  obtain st' where st': "set_offset_from_scrollbar p st = Some st'" "list_ok st'" "li_items st' = li_items st"
    "if ?tail then is_following_tail st' \<and> logical_scroll_top st' = \<lparr>lo_item_ix = length (items_of st), lo_offset_in_item = 0\<rparr>
     else \<not> is_following_tail st' \<and>
       (if li_alignment st = BottomAligned \<and> ?y = scrollbar_max st then li_scroll_anchor st' = None
        else scroll_position st' = ?y \<and> offset_within (items_of st) (logical_scroll_top st') \<and> li_scroll_anchor st' \<noteq> None)"
    using set_offset_from_scrollbar_ok [OF assms, of p] by blast
  note frame = scrollbar_range_frame [OF st'(1)]
  have read: "scroll_px_offset_for_scrollbar st' = Some \<lparr>px = 0, py =
      (if li_scroll_anchor st' = None \<and> li_alignment st' = BottomAligned then - max_scroll_offset st' else - scroll_position st')\<rparr>"
    using scroll_px_offset_ok [OF st'(2)] assms(2) st'(3) by simp
  show ?thesis
  proof (cases ?tail)
    case True
    then have "li_scroll_anchor st' \<noteq> None"
      using st'(1) assms(3) by (auto simp: set_offset_from_scrollbar_def scrollbar_max_def layout_bounds_def Let_def set_scroll_anchor_def
          split: if_splits option.splits bind_splits)
    moreover have "scroll_position st' = height_before (items_of st) (length (items_of st))"
      using True st'(2,3,4) by (simp add: scroll_position_eq)
    ultimately show ?thesis using True st' read by (intro exI [of _ st']) (auto simp: Let_def)
  next
    case False
    then show ?thesis
      using st' read frame by (intro exI [of _ st']) (auto simp: Let_def split: if_splits)
  qed
qed

theorem scrollbar_round_trip_witness:
  "\<exists>st'. set_offset_from_scrollbar \<lparr>px = 0, py = - 12\<rparr> shown_list = Some st' \<and>
     scroll_px_offset_for_scrollbar st' = Some \<lparr>px = 0, py = - 12\<rparr>"
proof -
  have "scrollbar_max shown_list = 20" by code_simp
  with scrollbar_round_trip [OF shown_list_ok(1,2,9), of "\<lparr>px = 0, py = - 12\<rparr>"] show ?thesis
    by (auto simp: Let_def)
qed

section \<open>Items and the viewport\<close>

text \<open>
  C31: Revealing an item that fits the viewport scrolls so that it lies in the viewport with the paddings, and changes
  no item.
\<close>

theorem reveal_shows_the_item:
  assumes "list_ok st" "items_fit (li_items st)" "ix < length (items_of st)"
    "offset_within (items_of st) (logical_scroll_top st)"
    "item_height (items_of st ! ix) + e_top (layout_padding st) + e_bottom (layout_padding st)
      \<le> height (bsize (layout_bounds st))"
  shows "\<exists>st'. scroll_to_reveal_item ix st = Some st' \<and> list_ok st' \<and> li_items st' = li_items st \<and> revealed st' ix"
  by (rule scroll_to_reveal_item_ok [OF assms])

theorem reveal_shows_the_item_witness:
  "\<exists>st'. scroll_to_reveal_item 2 shown_list = Some st' \<and> revealed st' 2"
proof -
  have "offset_within (items_of shown_list) (logical_scroll_top shown_list)"
    "item_height (items_of shown_list ! 2) = 30"
    by (simp_all add: offset_within_def row_def item_height_def)
  with reveal_shows_the_item [of shown_list 2] show ?thesis by auto
qed

text \<open>
  For a measured item, the tests against the viewport answer exactly whether the item ends at or above its top,
  and whether it starts at or below its bottom.
\<close>

theorem viewport_tests_are_exact:
  assumes ok: "list_ok st" and fit: "items_fit (li_items st)" and b: "li_last_layout_bounds st \<noteq> None"
    and ix: "ix < length (items_of st)" "item_size (items_of st ! ix) \<noteq> None"
    and off: "0 \<le> lo_offset_in_item (logical_scroll_top st)" and view: "0 < height (bsize (layout_bounds st))"
  shows "item_is_above_viewport ix st = Some (Some (height_before (items_of st) (Suc ix) \<le> scroll_position st)) \<and>
    item_is_below_viewport ix st =
      Some (Some (scroll_position st + height (bsize (layout_bounds st)) \<le> height_before (items_of st) ix))"
proof -
  let ?l = "logical_scroll_top st" and ?xs = "items_of st"
  obtain bounds where bounds: "li_last_layout_bounds st = Some bounds" using b by blast
  obtain s where s: "item_size (?xs ! ix) = Some s" using ix(2) by blast
  have h: "heights_ok ?xs" and t: "tree_ok list_ops (li_items st)" using ok by (simp_all add: list_ok_def)
  have suc: "height_before ?xs (Suc ix) = height_before ?xs ix + height s"
    using s by (cases "?xs ! ix") (simp_all add: height_before_Suc [OF ix(1)] item_height_def)
  show ?thesis
  proof (cases "ix < lo_item_ix ?l")
    case True
    have "height_before ?xs (Suc ix) \<le> height_before ?xs (lo_item_ix ?l)" "height_before ?xs ix \<le> height_before ?xs (lo_item_ix ?l)"
      using True h by (auto intro!: height_before_mono)
    then show ?thesis
      using True off view bounds
      by (simp add: item_is_above_viewport_def item_is_below_viewport_def scroll_position_eq [OF ok])
  next
    case False
    then show ?thesis
      using bounds_for_item_ok [OF ok fit, of ix] ix(1) s bounds suc
      by (auto simp: item_is_above_viewport_def item_is_below_viewport_def layout_bounds_def from_corners_def bottom_right_def
          algebra_simps)
  qed
qed

theorem viewport_tests_are_exact_witness:
  "item_is_above_viewport 0 shown_list = Some (Some True) \<and> item_is_below_viewport 2 shown_list = Some (Some False)"
  using viewport_tests_are_exact [of shown_list 0] viewport_tests_are_exact [of shown_list 2]
  by (simp add: row_def scroll_position_eq height_before_def item_height_def)

end
