(* ===== verification/ScrollPhysics.thy ===== *)
theory ScrollPhysics
  imports Geometry Complex_Main
begin

text \<open>
  Scrolling in \<open>gpui/src/gestures.rs\<close> with \<open>gpui/src/fast/misc/touch_fling.rs\<close>: the axis a wheel gesture is locked to, how
  far and how long a fling coasts, the sampled curve of the friction spline, and the velocity a touch is released with.

  Lengths are reals, and an instant or a duration is its time in seconds, where the code has floating-point and nanosecond
  arithmetic.
\<close>

section \<open>Axes\<close>

datatype axis = Vertical | Horizontal

datatype touch_phase = Started | Moved | Ended | Cancelled

definition point_zero :: "real point" where
  "point_zero = \<lparr>px = 0, py = 0\<rparr>"

definition point_diff :: "real point \<Rightarrow> real point \<Rightarrow> real point" where
  "point_diff a b = \<lparr>px = px a - px b, py = py a - py b\<rparr>"

definition point_add :: "real point \<Rightarrow> real point \<Rightarrow> real point" where
  "point_add a b = \<lparr>px = px a + px b, py = py a + py b\<rparr>"

definition point_scale :: "real \<Rightarrow> real point \<Rightarrow> real point" where
  "point_scale k p = \<lparr>px = px p * k, py = py p * k\<rparr>"

definition magnitude :: "real point \<Rightarrow> real" where
  "magnitude p = sqrt (px p ^ 2 + py p ^ 2)"

definition duration_since :: "real \<Rightarrow> real \<Rightarrow> real" where
  "duration_since now earlier = max (now - earlier) 0"

definition dominant_axis :: "real point \<Rightarrow> axis" where
  "dominant_axis delta = (if \<bar>px delta\<bar> \<le> \<bar>py delta\<bar> then Vertical else Horizontal)"

fun lock_delta_to_axis :: "axis \<Rightarrow> real point \<Rightarrow> real point" where
  "lock_delta_to_axis Vertical delta = delta\<lparr>px := 0\<rparr>"
| "lock_delta_to_axis Horizontal delta = delta\<lparr>py := 0\<rparr>"

definition movements_oppose :: "real point \<Rightarrow> real point \<Rightarrow> bool" where
  "movements_oppose a b \<longleftrightarrow> px a * px b + py a * py b < 0"

section \<open>Wheel gestures\<close>

definition SCROLL_EVENT_SEPARATION :: real where
  "SCROLL_EVENT_SEPARATION = 28 / 1000"

record ongoing_scroll =
  os_last_event :: "real option"
  os_axis :: "axis option"

definition filter_at :: "ongoing_scroll \<Rightarrow> real point \<Rightarrow> touch_phase \<Rightarrow> real \<Rightarrow> ongoing_scroll \<times> real point" where
  "filter_at s delta phase now =
     (if phase = Ended \<or> phase = Cancelled then (\<lparr>os_last_event = None, os_axis = None\<rparr>, delta)
      else
        let x = \<bar>px delta\<bar>; y = \<bar>py delta\<bar>
        in if x = 0 \<and> y = 0 then
             (if phase = Started then \<lparr>os_last_event = None, os_axis = None\<rparr> else s, delta)
           else
             let starts_new_gesture = (phase = Started \<or>
                   (case os_last_event s of None \<Rightarrow> True | Some t \<Rightarrow> duration_since now t \<ge> SCROLL_EVENT_SEPARATION));
                 axis =
                   (if starts_new_gesture then Some (dominant_axis delta)
                    else if max x y \<ge> 6 then
                      (case os_axis s of
                         Some Vertical \<Rightarrow> if x > y \<and> x \<ge> y * (19 / 10) then None else os_axis s
                       | Some Horizontal \<Rightarrow> if y > x \<and> y \<ge> x * (19 / 10) then None else os_axis s
                       | None \<Rightarrow> None)
                    else os_axis s)
             in (\<lparr>os_last_event = Some now, os_axis = axis\<rparr>,
                 case axis of Some a \<Rightarrow> lock_delta_to_axis a delta | None \<Rightarrow> delta))"

section \<open>Momentum\<close>

datatype scroll_physics = Exponential real | FrictionSpline real real

record gesture_tuning =
  touch_slop :: real
  multi_tap_interval :: real
  multi_tap_slop :: real
  long_press_duration :: real
  scroll_physics :: scroll_physics
  min_fling_velocity :: real

definition MOMENTUM_STOP_VELOCITY :: real where
  "MOMENTUM_STOP_VELOCITY = 10"

definition MAX_FLING_VELOCITY :: real where
  "MAX_FLING_VELOCITY = 8000"

definition ios :: scroll_physics where
  "ios = Exponential (998 / 1000)"

definition android :: scroll_physics where
  "android = FrictionSpline (15 / 1000) 160"

definition gesture_tuning_default :: gesture_tuning where
  "gesture_tuning_default = \<lparr>touch_slop = 8, multi_tap_interval = 400 / 1000, multi_tap_slop = 16,
     long_press_duration = 500 / 1000, scroll_physics = ios, min_fling_velocity = 50\<rparr>"

definition NB_SAMPLES :: nat where
  "NB_SAMPLES = 100"

definition INFLEXION :: real where
  "INFLEXION = 35 / 100"

definition START_TENSION :: real where
  "START_TENSION = 5 / 10"

definition END_TENSION :: real where
  "END_TENSION = 1"

definition P1 :: real where
  "P1 = START_TENSION * INFLEXION"

definition P2 :: real where
  "P2 = 1 - END_TENSION * (1 - INFLEXION)"

definition deceleration_rate :: real where
  "deceleration_rate = ln (78 / 100) / ln (9 / 10)"

definition physical_coefficient :: "real \<Rightarrow> real" where
  "physical_coefficient pixels_per_inch = (980665 / 100000) * (3937 / 100) * pixels_per_inch * (84 / 100)"

definition deceleration :: "real \<Rightarrow> real \<Rightarrow> real \<Rightarrow> real" where
  "deceleration speed friction pixels_per_inch =
     ln (INFLEXION * speed / (friction * physical_coefficient pixels_per_inch))"

text \<open>The bisection for one sample: the lower bound it leaves and the parameter it found. It may not end.\<close>

partial_function (option) spline_search :: "real \<Rightarrow> real \<Rightarrow> real \<Rightarrow> (real \<times> real) option" where
  "spline_search alpha x_min x_max =
     (let x = x_min + (x_max - x_min) / 2;
          coefficient = 3 * x * (1 - x);
          time = coefficient * ((1 - x) * P1 + x * P2) + x * x * x
      in if \<bar>time - alpha\<bar> < 1 / 10 ^ 5 then Some (x_min, x)
         else if time > alpha then spline_search alpha x_min x
         else spline_search alpha x x_max)"

text \<open>The samples from index \<open>i\<close> on: each search starts from the lower bound the one before it left.\<close>

fun spline_samples :: "nat list \<Rightarrow> real \<Rightarrow> real list option" where
  "spline_samples [] x_min = Some [1]"
| "spline_samples (i # is) x_min =
     (case spline_search (real i / real NB_SAMPLES) x_min 1 of
        None \<Rightarrow> None
      | Some (x_min, x) \<Rightarrow>
          let coefficient = 3 * x * (1 - x);
              sample = coefficient * ((1 - x) * START_TENSION + x) + x * x * x
          in map_option (Cons sample) (spline_samples is x_min))"

definition SPLINE_POSITION :: "real list option" where
  "SPLINE_POSITION = spline_samples [0..<NB_SAMPLES] 0"

definition distance_coefficient :: "real list \<Rightarrow> real \<Rightarrow> real" where
  "distance_coefficient spline_position time =
     (if time \<ge> 1 then 1
      else
        let index = min (nat \<lfloor>real NB_SAMPLES * time\<rfloor>) (NB_SAMPLES - 1);
            time_lower = real index / real NB_SAMPLES;
            time_upper = real (index + 1) / real NB_SAMPLES;
            distance_lower = spline_position ! index;
            distance_upper = spline_position ! (index + 1);
            velocity_coefficient = (distance_upper - distance_lower) / (time_upper - time_lower)
        in distance_lower + (time - time_lower) * velocity_coefficient)"

fun fling_duration :: "scroll_physics \<Rightarrow> real \<Rightarrow> real" where
  "fling_duration (Exponential decay_per_ms) speed =
     (if speed \<le> MOMENTUM_STOP_VELOCITY then 0
      else ln (MOMENTUM_STOP_VELOCITY / speed) / ln decay_per_ms / 1000)"
| "fling_duration (FrictionSpline friction pixels_per_inch) speed =
     (if speed \<le> 0 then 0
      else exp (deceleration speed friction pixels_per_inch / (deceleration_rate - 1)))"

fun fling_distance_within :: "real list \<Rightarrow> scroll_physics \<Rightarrow> real \<Rightarrow> real \<Rightarrow> real \<Rightarrow> real" where
  "fling_distance_within spline (Exponential decay_per_ms) speed duration elapsed =
     speed / 1000 * (decay_per_ms powr (elapsed * 1000) - 1) / ln decay_per_ms"
| "fling_distance_within spline (FrictionSpline friction pixels_per_inch) speed duration elapsed =
     (let rate = deceleration_rate;
          total_distance = friction * physical_coefficient pixels_per_inch *
            exp (rate / (rate - 1) * deceleration speed friction pixels_per_inch)
      in total_distance * distance_coefficient spline (elapsed / duration))"

definition fling_distance :: "real list \<Rightarrow> scroll_physics \<Rightarrow> real \<Rightarrow> real \<Rightarrow> real" where
  "fling_distance spline physics speed elapsed =
     (let duration = fling_duration physics speed
      in if duration = 0 then 0 else fling_distance_within spline physics speed duration (min elapsed duration))"

section \<open>Velocity\<close>

type_synonym velocity_tracker = "(real \<times> real point) list"

definition VELOCITY_MAX_SAMPLES :: nat where
  "VELOCITY_MAX_SAMPLES = 20"

definition VELOCITY_WINDOW :: real where
  "VELOCITY_WINDOW = 100 / 1000"

definition VELOCITY_ASSUME_STOPPED_GAP :: real where
  "VELOCITY_ASSUME_STOPPED_GAP = 40 / 1000"

text \<open>Samples are kept oldest first.\<close>

definition push_sample :: "real \<Rightarrow> real point \<Rightarrow> velocity_tracker \<Rightarrow> velocity_tracker" where
  "push_sample time position samples =
     (let samples = samples @ [(time, position)] in drop (length samples - VELOCITY_MAX_SAMPLES) samples)"

definition latest_sample_time :: "velocity_tracker \<Rightarrow> real option" where
  "latest_sample_time samples = (if samples = [] then None else Some (fst (last samples)))"

text \<open>The samples the estimate uses, newest first, as their time before the newest and their position.\<close>

fun recent_samples :: "real \<Rightarrow> real \<Rightarrow> (real \<times> real point) list \<Rightarrow> (real \<times> real point) list" where
  "recent_samples newest_time previous_time [] = []"
| "recent_samples newest_time previous_time ((time, position) # samples) =
     (if duration_since newest_time time > VELOCITY_WINDOW \<or> duration_since previous_time time > VELOCITY_ASSUME_STOPPED_GAP
      then []
      else (- duration_since newest_time time, position) # recent_samples newest_time time samples)"

text \<open>The smallest \<open>f64\<close> above one, less one.\<close>

definition F64_EPSILON :: real where
  "F64_EPSILON = 1 / 2 ^ 52"

definition endpoint_estimate :: "real list \<Rightarrow> real list \<Rightarrow> real" where
  "endpoint_estimate times_seconds values =
     (let elapsed = - (if times_seconds = [] then 0 else last times_seconds)
      in if elapsed \<le> F64_EPSILON then 0
         else ((if values = [] then 0 else hd values) - (if values = [] then 0 else last values)) / elapsed)"

definition quadratic_velocity_at_newest :: "real list \<Rightarrow> real list \<Rightarrow> real option" where
  "quadratic_velocity_at_newest times_seconds values =
     (let n = real (length times_seconds);
          pairs = zip times_seconds values;
          s1 = (\<Sum>(t, v)\<leftarrow>pairs. t); s2 = (\<Sum>(t, v)\<leftarrow>pairs. t * t);
          s3 = (\<Sum>(t, v)\<leftarrow>pairs. t * t * t); s4 = (\<Sum>(t, v)\<leftarrow>pairs. t * t * (t * t));
          v0 = (\<Sum>(t, v)\<leftarrow>pairs. v); v1 = (\<Sum>(t, v)\<leftarrow>pairs. v * t); v2 = (\<Sum>(t, v)\<leftarrow>pairs. v * (t * t));
          determinant = n * (s2 * s4 - s3 * s3) - s1 * (s1 * s4 - s3 * s2) + s2 * (s1 * s3 - s2 * s2)
      in if \<bar>determinant\<bar> < 1 / 10 ^ 12 then None
         else
           let linear_determinant = n * (v1 * s4 - s3 * v2) - v0 * (s1 * s4 - s3 * s2) + s2 * (s1 * v2 - v1 * s2)
           in Some (linear_determinant / determinant))"

definition signum :: "real \<Rightarrow> real" where
  "signum x = (if x \<ge> 0 then 1 else - 1)"

definition release_velocity :: "real \<Rightarrow> real option \<Rightarrow> real" where
  "release_velocity endpoint fitted =
     (case fitted of
        None \<Rightarrow> endpoint
      | Some fitted \<Rightarrow>
          if endpoint = 0 then fitted
          else if signum fitted \<noteq> signum endpoint then endpoint
          else signum endpoint * max \<bar>fitted\<bar> \<bar>endpoint\<bar>)"

definition velocity :: "velocity_tracker \<Rightarrow> real point" where
  "velocity samples =
     (if samples = [] then point_zero
      else
        let newest_time = fst (last samples);
            recent = recent_samples newest_time newest_time (rev samples);
            times_seconds = map fst recent;
            horizontal = map (px \<circ> snd) recent;
            vertical = map (py \<circ> snd) recent
        in if length times_seconds < 3 then \<lparr>px = endpoint_estimate times_seconds horizontal, py = endpoint_estimate times_seconds vertical\<rparr>
           else
             \<lparr>px = release_velocity (endpoint_estimate times_seconds horizontal) (quadratic_velocity_at_newest times_seconds horizontal),
              py = release_velocity (endpoint_estimate times_seconds vertical) (quadratic_velocity_at_newest times_seconds vertical)\<rparr>)"

section \<open>The axis of a wheel gesture\<close>

text \<open>A movement that turns a gesture away from its axis: long enough, and nearly twice as long across the axis as along it.\<close>

fun turns_away :: "axis \<Rightarrow> real point \<Rightarrow> bool" where
  "turns_away Vertical delta \<longleftrightarrow> max \<bar>px delta\<bar> \<bar>py delta\<bar> \<ge> 6 \<and> \<bar>px delta\<bar> > \<bar>py delta\<bar> \<and> \<bar>px delta\<bar> \<ge> \<bar>py delta\<bar> * (19 / 10)"
| "turns_away Horizontal delta \<longleftrightarrow> max \<bar>px delta\<bar> \<bar>py delta\<bar> \<ge> 6 \<and> \<bar>py delta\<bar> > \<bar>px delta\<bar> \<and> \<bar>py delta\<bar> \<ge> \<bar>px delta\<bar> * (19 / 10)"

lemma lock_zero [simp]: "lock_delta_to_axis axis point_zero = point_zero"
  by (cases axis) (simp_all add: point_zero_def)

lemma filter_starts_on_dominant_axis:
  assumes "delta \<noteq> point_zero"
  shows "filter_at s delta Started now =
    (\<lparr>os_last_event = Some now, os_axis = Some (dominant_axis delta)\<rparr>, lock_delta_to_axis (dominant_axis delta) delta)"
  using assms by (cases delta) (auto simp: filter_at_def Let_def point_zero_def)

lemma filter_keeps_axis:
  assumes "os_axis s = Some a" "os_last_event s = Some t" "duration_since now t < SCROLL_EVENT_SEPARATION" "\<not> turns_away a delta"
  shows "snd (filter_at s delta Moved now) = lock_delta_to_axis a delta" "os_axis (fst (filter_at s delta Moved now)) = Some a"
proof -
  have zero: "lock_delta_to_axis a delta = delta" if "px delta = 0" "py delta = 0"
    using that by (cases a) simp_all
  show "snd (filter_at s delta Moved now) = lock_delta_to_axis a delta" "os_axis (fst (filter_at s delta Moved now)) = Some a"
    using assms zero by (cases a; auto simp: filter_at_def Let_def not_le)+
qed

lemma filter_unlocks:
  assumes "os_axis s = Some a" "os_last_event s = Some t" "duration_since now t < SCROLL_EVENT_SEPARATION" "turns_away a delta"
  shows "filter_at s delta Moved now = (\<lparr>os_last_event = Some now, os_axis = None\<rparr>, delta)"
  using assms by (cases a) (auto simp: filter_at_def Let_def not_le)

section \<open>The samples of the friction spline\<close>

text \<open>The curve the samples are taken from: its time and its distance at a parameter.\<close>

definition curve_time :: "real \<Rightarrow> real" where
  "curve_time x = 525 / 1000 * x + 475 / 1000 * x ^ 3"

definition curve_distance :: "real \<Rightarrow> real" where
  "curve_distance x = 3 / 2 * x - 1 / 2 * x ^ 3"

lemma bezier_time: "3 * x * (1 - x) * ((1 - x) * P1 + x * P2) + x * x * x = curve_time x"
  by (simp add: P1_def P2_def START_TENSION_def END_TENSION_def INFLEXION_def curve_time_def power3_eq_cube field_simps)

lemma bezier_distance: "3 * x * (1 - x) * ((1 - x) * START_TENSION + x) + x * x * x = curve_distance x"
  by (simp add: START_TENSION_def curve_distance_def power3_eq_cube field_simps)

lemma cube_factor:
  fixes x y :: real
  assumes "0 \<le> x" "x \<le> y" "y \<le> 1"
  shows "0 \<le> y\<^sup>2 + x * y + x\<^sup>2" "y\<^sup>2 + x * y + x\<^sup>2 \<le> 3"
proof -
  show "0 \<le> y\<^sup>2 + x * y + x\<^sup>2" using assms by simp
  have "y\<^sup>2 \<le> 1" "x * y \<le> 1" "x\<^sup>2 \<le> 1" using assms by (auto simp: power_le_one_iff mult_le_one)
  then show "y\<^sup>2 + x * y + x\<^sup>2 \<le> 3" by linarith
qed

lemma curve_time_diff: "curve_time y - curve_time x = (y - x) * (525 / 1000 + 475 / 1000 * (y\<^sup>2 + x * y + x\<^sup>2))"
  by (simp add: curve_time_def power2_eq_square power3_eq_cube field_simps)

lemma curve_time_lipschitz:
  assumes "0 \<le> x" "x \<le> y" "y \<le> 1"
  shows "curve_time x \<le> curve_time y" "curve_time y - curve_time x \<le> 2 * (y - x)"
proof -
  note f = cube_factor [OF assms]
  have lin: "525 / 1000 + 475 / 1000 * q \<le> 2" if "q \<le> 3" for q :: real using that by simp
  have "0 \<le> (y - x) * (525 / 1000 + 475 / 1000 * (y\<^sup>2 + x * y + x\<^sup>2))" using assms f by simp
  then show "curve_time x \<le> curve_time y" using curve_time_diff [of y x] by linarith
  have "(y - x) * (525 / 1000 + 475 / 1000 * (y\<^sup>2 + x * y + x\<^sup>2)) \<le> (y - x) * 2"
    using assms lin [OF f(2)] by (intro mult_left_mono) simp_all
  then show "curve_time y - curve_time x \<le> 2 * (y - x)" using curve_time_diff [of y x] by simp
qed

lemma curve_distance_mono:
  assumes "0 \<le> x" "x \<le> y" "y \<le> 1"
  shows "curve_distance x \<le> curve_distance y"
proof -
  have "curve_distance y - curve_distance x = (y - x) * (3 / 2 - 1 / 2 * (y\<^sup>2 + x * y + x\<^sup>2))"
    by (simp add: curve_distance_def power2_eq_square power3_eq_cube field_simps)
  moreover have "0 \<le> (y - x) * (3 / 2 - 1 / 2 * (y\<^sup>2 + x * y + x\<^sup>2))" using assms cube_factor [OF assms] by simp
  ultimately show ?thesis by linarith
qed

text \<open>A bisection between a bound that is not past the sampled time and one that is not before it ends.\<close>

lemma spline_search_ends:
  assumes "x_max - x_min \<le> (1 / 10 ^ 6) * 2 ^ n" "0 \<le> x_min" "x_min \<le> x_max" "x_max \<le> 1"
    "curve_time x_min \<le> alpha" "alpha \<le> curve_time x_max"
  shows "\<exists>lo x. spline_search alpha x_min x_max = Some (lo, x) \<and> 0 \<le> lo \<and> lo \<le> x \<and> x \<le> 1 \<and>
    curve_time lo \<le> alpha \<and> \<bar>curve_time x - alpha\<bar> < 1 / 10 ^ 5"
  using assms
proof (induction n arbitrary: x_min x_max)
  case 0
  define x where "x = x_min + (x_max - x_min) / 2"
  have x: "x_min \<le> x" "x \<le> x_max" using "0.prems"(3) by (simp_all add: x_def field_simps)
  have "curve_time x_max - curve_time x_min \<le> 2 * (x_max - x_min)"
    "curve_time x_min \<le> curve_time x" "curve_time x \<le> curve_time x_max"
    using curve_time_lipschitz [of x_min x_max] curve_time_lipschitz [of x_min x] curve_time_lipschitz [of x x_max] "0.prems" x
    by auto
  moreover have "2 * (x_max - x_min) < 1 / 10 ^ 5" using "0.prems"(1) by (simp add: field_simps)
  ultimately have "\<bar>curve_time x - alpha\<bar> < 1 / 10 ^ 5" using "0.prems"(5,6) unfolding abs_less_iff by linarith
  then show ?case
    using x "0.prems" by (subst spline_search.simps) (simp add: Let_def bezier_time x_def [symmetric])
next
  case (Suc n)
  define x where "x = x_min + (x_max - x_min) / 2"
  have x: "x_min \<le> x" "x \<le> x_max" "x - x_min \<le> (1 / 10 ^ 6) * 2 ^ n" "x_max - x \<le> (1 / 10 ^ 6) * 2 ^ n"
    using Suc.prems(1,3) by (simp_all add: x_def field_simps)
  have step: "spline_search alpha x_min x_max =
      (if \<bar>curve_time x - alpha\<bar> < 1 / 10 ^ 5 then Some (x_min, x)
       else if curve_time x > alpha then spline_search alpha x_min x else spline_search alpha x x_max)"
    by (subst spline_search.simps) (simp add: Let_def bezier_time x_def [symmetric])
  show ?case
    using Suc.IH [of x x_min] Suc.IH [of x_max x] Suc.prems x by (auto simp: step)
qed

text \<open>The samples: one for every hundredth of the duration, each the distance at a parameter whose time is within 1e-5 of it.\<close>

definition samples_of :: "nat \<Rightarrow> real list \<Rightarrow> real list \<Rightarrow> bool" where
  "samples_of i xs ss \<longleftrightarrow> ss = map curve_distance xs @ [1] \<and>
     (\<forall>j<length xs. 0 \<le> xs ! j \<and> xs ! j \<le> 1 \<and> \<bar>curve_time (xs ! j) - real (i + j) / 100\<bar> < 1 / 10 ^ 5)"

lemma spline_samples_found:
  assumes "n = NB_SAMPLES - i" "i \<le> NB_SAMPLES" "0 \<le> x_min" "x_min \<le> 1" "curve_time x_min \<le> real i / 100"
  shows "\<exists>xs ss. spline_samples [i..<NB_SAMPLES] x_min = Some ss \<and> length xs = n \<and> samples_of i xs ss"
  using assms
proof (induction n arbitrary: i x_min)
  case 0
  then show ?case by (simp add: samples_of_def)
next
  case (Suc n)
  have i: "i < NB_SAMPLES" "n = NB_SAMPLES - Suc i" using Suc.prems(1,2) by auto
  have "real i / 100 \<le> curve_time 1" using i(1) by (simp add: NB_SAMPLES_def curve_time_def)
  then obtain lo x where s: "spline_search (real i / 100) x_min 1 = Some (lo, x)" "0 \<le> lo" "lo \<le> x" "x \<le> 1"
      "curve_time lo \<le> real i / 100" "\<bar>curve_time x - real i / 100\<bar> < 1 / 10 ^ 5"
    using spline_search_ends [of 1 x_min 20 "real i / 100"] Suc.prems(3-5) by auto
  have "curve_time lo \<le> real (Suc i) / 100" using s(5) by simp
  from Suc.IH [OF i(2) _ s(2) _ this] i(1) s(3,4) obtain xs ss where
    ss: "spline_samples [Suc i..<NB_SAMPLES] lo = Some ss" "length xs = n" "samples_of (Suc i) xs ss"
    by auto
  have "spline_samples [i..<NB_SAMPLES] x_min = Some (curve_distance x # ss)"
    using i(1) s(1) ss(1) by (simp add: upt_conv_Cons Let_def bezier_distance NB_SAMPLES_def)
  moreover have "samples_of i (x # xs) (curve_distance x # ss)"
    using ss(3) s(2-4,6) by (auto simp: samples_of_def nth_Cons add_ac split: nat.split)
  ultimately show ?case using ss(2) by (intro exI [of _ "x # xs"] exI [of _ "curve_distance x # ss"]) simp
qed

lemma samples_increase:
  assumes "samples_of i xs ss" "j < k" "k < length xs"
  shows "xs ! j < xs ! k"
proof (rule ccontr)
  assume "\<not> xs ! j < xs ! k"
  then have "curve_time (xs ! k) \<le> curve_time (xs ! j)"
    using assms by (intro curve_time_lipschitz(1)) (auto simp: samples_of_def)
  moreover have "\<bar>curve_time (xs ! j) - real (i + j) / 100\<bar> < 1 / 10 ^ 5" "\<bar>curve_time (xs ! k) - real (i + k) / 100\<bar> < 1 / 10 ^ 5"
    using assms by (auto simp: samples_of_def)
  moreover have "real (i + j) / 100 + 1 / 100 \<le> real (i + k) / 100" using assms(2) by (simp add: field_simps)
  moreover have "1 / 10 ^ 5 < (1 / 200 :: real)" by simp
  ultimately show False unfolding abs_less_iff by linarith
qed

text \<open>A table of samples from 0 to 1 that never decreases.\<close>

definition spline_ok :: "real list \<Rightarrow> bool" where
  "spline_ok ss \<longleftrightarrow> length ss = NB_SAMPLES + 1 \<and> sorted ss \<and> set ss \<subseteq> {0..1} \<and> ss ! NB_SAMPLES = 1"

lemma curve_distance_range:
  assumes "0 \<le> x" "x \<le> 1"
  shows "0 \<le> curve_distance x" "curve_distance x \<le> 1"
  using curve_distance_mono [of 0 x] curve_distance_mono [of x 1] assms by (simp_all add: curve_distance_def)

lemma samples_ok:
  assumes "samples_of 0 xs ss" "length xs = NB_SAMPLES"
  shows "spline_ok ss"
proof -
  have xs: "0 \<le> xs ! j" "xs ! j \<le> 1" if "j < length xs" for j using assms(1) that by (auto simp: samples_of_def)
  have "sorted (map curve_distance xs)"
  proof (simp add: sorted_iff_nth_mono_less, intro allI impI)
    fix j k assume jk: "j < k" "k < length xs"
    then show "curve_distance (xs ! j) \<le> curve_distance (xs ! k)"
      using samples_increase [OF assms(1) jk] xs [of j] xs [of k] by (intro curve_distance_mono) auto
  qed
  moreover have "set (map curve_distance xs) \<subseteq> {0..1}"
    using curve_distance_range xs by (auto simp: in_set_conv_nth)
  ultimately show ?thesis
    using assms by (fastforce simp: spline_ok_def samples_of_def sorted_append nth_append)
qed

lemma spline_position_ok: "\<exists>ss. SPLINE_POSITION = Some ss \<and> spline_ok ss"
  using spline_samples_found [of 100 0 0] samples_ok by (force simp: SPLINE_POSITION_def NB_SAMPLES_def curve_time_def)

section \<open>How far a fling travels\<close>

lemma between:
  fixes a b w :: real
  assumes "0 \<le> w" "w \<le> 1" "a \<le> b"
  shows "a \<le> a + w * (b - a)" "a + w * (b - a) \<le> b"
  using assms mult_left_le_one_le [of "b - a" w] by auto

lemma distance_coefficient_range:
  assumes ok: "spline_ok ss" and "0 \<le> time"
  shows "0 \<le> distance_coefficient ss time" "distance_coefficient ss time \<le> 1"
proof -
  have "0 \<le> distance_coefficient ss time \<and> distance_coefficient ss time \<le> 1"
  proof (cases "time \<ge> 1")
    case False
    define i where "i = nat \<lfloor>100 * time\<rfloor>"
    have i: "real i \<le> 100 * time" "100 * time < real i + 1" "i < 100"
      using False assms(2) by (auto simp: i_def le_floor_iff floor_less_iff nat_less_iff of_nat_nat)
    have index: "min (nat \<lfloor>100 * time\<rfloor>) 99 = i" "min (nat \<lfloor>time * 100\<rfloor>) 99 = i" using i(3) by (simp_all add: i_def mult.commute)
    have ss: "ss ! i \<le> ss ! (i + 1)" "0 \<le> ss ! i" "ss ! (i + 1) \<le> 1"
      using ok i(3) nth_mem [of i ss] nth_mem [of "i + 1" ss]
      by (auto simp: spline_ok_def NB_SAMPLES_def subset_iff intro: sorted_nth_mono)
    have "distance_coefficient ss time = ss ! i + (100 * time - real i) * (ss ! (i + 1) - ss ! i)"
      using False i(3) by (simp add: distance_coefficient_def NB_SAMPLES_def index Let_def field_simps)
    then show ?thesis using between [of "100 * time - real i" "ss ! i" "ss ! (i + 1)"] i ss by auto
  qed (simp add: distance_coefficient_def)
  then show "0 \<le> distance_coefficient ss time" "distance_coefficient ss time \<le> 1" by auto
qed

fun physics_ok :: "scroll_physics \<Rightarrow> bool" where
  "physics_ok (Exponential decay_per_ms) \<longleftrightarrow> 0 < decay_per_ms \<and> decay_per_ms < 1"
| "physics_ok (FrictionSpline friction pixels_per_inch) \<longleftrightarrow> 0 < friction \<and> 0 < pixels_per_inch"

lemma fling_duration_nonneg: "physics_ok physics \<Longrightarrow> 0 \<le> fling_duration physics speed"
  by (cases physics) (auto simp: MOMENTUM_STOP_VELOCITY_def divide_nonpos_neg)

lemma fling_distance_within_mono:
  assumes "physics_ok physics" "spline_ok spline" "0 < speed" "0 \<le> elapsed" "elapsed \<le> duration" "0 < duration"
  shows "fling_distance_within spline physics speed duration elapsed \<le> fling_distance_within spline physics speed duration duration"
proof (cases physics)
  case (Exponential k)
  then have k: "0 < k" "k < 1" using assms(1) by auto
  have "k powr (duration * 1000) \<le> k powr (elapsed * 1000)" using k assms(5) by (simp add: powr_mono')
  then have "speed / 1000 * (k powr (elapsed * 1000) - 1) / ln k \<le> speed / 1000 * (k powr (duration * 1000) - 1) / ln k"
    using k assms(3) by (intro divide_right_mono_neg) simp_all
  then show ?thesis by (simp add: Exponential)
next
  case (FrictionSpline friction ppi)
  have "0 \<le> friction * physical_coefficient ppi * exp c" for c
    using assms(1) FrictionSpline by (simp add: physical_coefficient_def)
  moreover have "distance_coefficient spline (elapsed / duration) \<le> distance_coefficient spline (duration / duration)"
    using distance_coefficient_range [OF assms(2), of "elapsed / duration"] assms(4,6) by (simp add: distance_coefficient_def)
  ultimately show ?thesis by (simp add: FrictionSpline Let_def mult_left_mono)
qed

lemma fling_distance_at_most:
  assumes "physics_ok physics" "spline_ok spline" "0 \<le> elapsed"
  shows "fling_distance spline physics speed elapsed \<le> fling_distance spline physics speed (fling_duration physics speed)"
proof (cases "fling_duration physics speed = 0")
  case False
  then have "0 < fling_duration physics speed" using fling_duration_nonneg [OF assms(1), of speed] by simp
  moreover have "0 < speed" using False by (cases physics) (auto simp: MOMENTUM_STOP_VELOCITY_def split: if_splits)
  ultimately show ?thesis
    using False fling_distance_within_mono [OF assms(1,2), of speed "min elapsed (fling_duration physics speed)"] assms(3)
    by (simp add: fling_distance_def Let_def)
qed (simp add: fling_distance_def)

lemma fling_distance_nonneg:
  assumes "physics_ok physics" "spline_ok spline"
  shows "0 \<le> fling_distance spline physics speed (fling_duration physics speed)"
proof (cases physics)
  case (Exponential k)
  then have k: "0 < k" "k < 1" using assms(1) by auto
  have "k powr x \<le> 1" if "0 \<le> x" for x using powr_mono' [of 0 x k] k that by simp
  then show ?thesis
    using k fling_duration_nonneg [OF assms(1), of speed] Exponential
    by (auto simp: fling_distance_def Let_def MOMENTUM_STOP_VELOCITY_def intro!: divide_nonpos_neg mult_nonneg_nonpos split: if_splits)
next
  case (FrictionSpline friction ppi)
  then show ?thesis
    using assms(1) fling_duration_nonneg [OF assms(1), of speed]
    by (auto simp: fling_distance_def Let_def physical_coefficient_def distance_coefficient_def intro!: mult_nonneg_nonneg)
qed

lemma fling_distance_reached:
  "fling_duration physics speed \<le> elapsed \<Longrightarrow>
     fling_distance spline physics speed elapsed = fling_distance spline physics speed (fling_duration physics speed)"
  by (simp add: fling_distance_def Let_def min_def)

section \<open>The velocity at release\<close>

lemma quadratic_velocity_exact:
  assumes "values = map (\<lambda>t. a + b * t + c * (t * t)) ts"
  shows "quadratic_velocity_at_newest ts values \<in> {None, Some b}"
proof -
  have zip: "zip ts values = map (\<lambda>t. (t, a + b * t + c * (t * t))) ts"
    unfolding assms by (induction ts) simp_all
  define n where "n = real (length ts)"
  define s1 where "s1 = sum_list ts"
  define s2 where "s2 = (\<Sum>t\<leftarrow>ts. t * t)"
  define s3 where "s3 = (\<Sum>t\<leftarrow>ts. t * t * t)"
  define s4 where "s4 = (\<Sum>t\<leftarrow>ts. t * t * (t * t))"
  have v: "(\<Sum>t\<leftarrow>ts. a + b * t + c * (t * t)) = n * a + s1 * b + s2 * c"
      "(\<Sum>t\<leftarrow>ts. (a + b * t + c * (t * t)) * t) = s1 * a + s2 * b + s3 * c"
      "(\<Sum>t\<leftarrow>ts. (a + b * t + c * (t * t)) * (t * t)) = s2 * a + s3 * b + s4 * c"
    unfolding n_def s1_def s2_def s3_def s4_def by (induction ts) (simp_all add: algebra_simps)
  define det where "det = n * (s2 * s4 - s3 * s3) - s1 * (s1 * s4 - s3 * s2) + s2 * (s1 * s3 - s2 * s2)"
  define v0 v1 v2 where "v0 = n * a + s1 * b + s2 * c" and "v1 = s1 * a + s2 * b + s3 * c" and "v2 = s2 * a + s3 * b + s4 * c"
  have "n * (v1 * s4 - s3 * v2) - v0 * (s1 * s4 - s3 * s2) + s2 * (s1 * v2 - v1 * s2) = b * det"
    unfolding det_def v0_def v1_def v2_def by (simp add: algebra_simps)
  then have "quadratic_velocity_at_newest ts values = (if \<bar>det\<bar> < 1 / 10 ^ 12 then None else Some (b * det / det))"
    unfolding quadratic_velocity_at_newest_def zip
    by (simp add: Let_def o_def v flip: n_def s1_def s2_def s3_def s4_def v0_def v1_def v2_def det_def)
  then show ?thesis by auto
qed

lemma release_velocity_same: "fitted \<in> {None, Some e} \<Longrightarrow> release_velocity e fitted = e"
  by (auto simp: release_velocity_def signum_def)

lemma release_velocity_agrees:
  assumes "endpoint \<noteq> 0"
  shows "signum (release_velocity endpoint fitted) = signum endpoint" "\<bar>endpoint\<bar> \<le> \<bar>release_velocity endpoint fitted\<bar>"
  using assms by (auto simp: release_velocity_def signum_def split: option.splits)

lemma fold_push_sample:
  "fold (\<lambda>(t, p). push_sample t p) xs ss = drop (length ss + length xs - VELOCITY_MAX_SAMPLES) (ss @ xs)"
  if "length ss \<le> VELOCITY_MAX_SAMPLES"
  using that
proof (induction xs arbitrary: ss)
  case (Cons x xs)
  obtain t p where x: "x = (t, p)" by fastforce
  let ?k = "length ss + 1 - VELOCITY_MAX_SAMPLES"
  have push: "push_sample t p ss = drop ?k (ss @ [x])" by (simp add: push_sample_def x)
  let ?ss = "drop ?k (ss @ [x])"
  have split: "?ss @ xs = drop ?k (ss @ x # xs)" by (simp add: VELOCITY_MAX_SAMPLES_def)
  have len: "length ?ss = length ss + 1 - ?k" by simp
  have "fold (\<lambda>(t, p). push_sample t p) (x # xs) ss = drop (length ?ss + length xs - VELOCITY_MAX_SAMPLES) (?ss @ xs)"
    using Cons.IH [of ?ss] Cons.prems push unfolding len by (simp add: x)
  also have "\<dots> = drop (length ss + 1 - ?k + length xs - VELOCITY_MAX_SAMPLES + ?k) (ss @ x # xs)"
    unfolding split len by (simp only: drop_drop)
  also have "length ss + 1 - ?k + length xs - VELOCITY_MAX_SAMPLES + ?k = length ss + length (x # xs) - VELOCITY_MAX_SAMPLES"
    using Cons.prems by simp
  finally show ?case .
qed simp

text \<open>A finger that moves along a line at one velocity.\<close>

definition on_line :: "real point \<Rightarrow> real point \<Rightarrow> real \<Rightarrow> real \<times> real point" where
  "on_line p v t = (t, point_add p (point_scale t v))"

lemma recent_on_line_Cons:
  "recent_samples newest previous (on_line p v t # ss) =
     (if duration_since newest t > VELOCITY_WINDOW \<or> duration_since previous t > VELOCITY_ASSUME_STOPPED_GAP then []
      else (- duration_since newest t, point_add p (point_scale t v)) # recent_samples newest t ss)"
  by (simp add: on_line_def)

lemma recent_on_line:
  assumes "\<forall>t\<in>set ts. t \<le> newest"
  shows "\<exists>us. recent_samples newest previous (map (on_line p v) ts) =
    map (\<lambda>u. (u, point_add (point_add p (point_scale newest v)) (point_scale u v))) us"
  using assms
proof (induction ts arbitrary: previous)
  case (Cons t ts)
  let ?f = "\<lambda>u. (u, point_add (point_add p (point_scale newest v)) (point_scale u v))"
  obtain us where us: "recent_samples newest t (map (on_line p v) ts) = map ?f us" using Cons by auto
  have "(- duration_since newest t, point_add p (point_scale t v)) = ?f (t - newest)"
    using Cons.prems by (simp add: duration_since_def point_add_def point_scale_def algebra_simps)
  then show ?case
    using us by (auto simp: recent_on_line_Cons intro: exI [of _ "(t - newest) # us"])
qed simp

lemma recent_last:
  assumes "sorted (rev ts)" "\<forall>t\<in>set ts. t \<le> newest" "recent_samples newest previous (map (on_line p v) ts) \<noteq> []"
  shows "fst (last (recent_samples newest previous (map (on_line p v) ts))) \<le> hd ts - newest"
  using assms
proof (induction ts arbitrary: previous)
  case (Cons t ts)
  have d: "- duration_since newest t = t - newest" using Cons.prems(2) by (simp add: duration_since_def)
  show ?case
  proof (cases "recent_samples newest t (map (on_line p v) ts) = []")
    case False
    then have "fst (last (recent_samples newest t (map (on_line p v) ts))) \<le> hd ts - newest" "ts \<noteq> []"
      using Cons by (auto simp: sorted_append)
    moreover have "hd ts \<le> t" using Cons.prems(1) \<open>ts \<noteq> []\<close> by (auto simp: sorted_append)
    ultimately show ?thesis using Cons.prems(3) False d by (auto simp: recent_on_line_Cons)
  qed (use Cons.prems(3) d in \<open>auto simp: recent_on_line_Cons split: if_splits\<close>)
qed simp

lemma endpoint_on_line:
  assumes "us \<noteq> []" "hd us = 0" "last us < - F64_EPSILON"
  shows "endpoint_estimate us (map (\<lambda>u. a + b * u) us) = b"
  using assms by (simp add: endpoint_estimate_def hd_map last_map F64_EPSILON_def)

lemma velocity_on_line:
  assumes sorted: "sorted (ts @ [t1, t2])" and gap: "F64_EPSILON < t2 - t1" "t2 - t1 \<le> VELOCITY_ASSUME_STOPPED_GAP"
  shows "velocity (map (on_line p v) (ts @ [t1, t2])) = v"
proof -
  let ?ts = "rev ts"
  let ?q = "point_add p (point_scale t2 v)"
  define recent where "recent = recent_samples t2 t2 (rev (map (on_line p v) (ts @ [t1, t2])))"
  have le: "\<forall>t\<in>set (t1 # ?ts). t \<le> t2" and sorted': "sorted (rev (t1 # ?ts))" using sorted by (auto simp: sorted_append)
  have tail: "recent = (0, ?q) # recent_samples t2 t2 (map (on_line p v) (t1 # ?ts))"
    by (simp add: recent_def rev_map recent_on_line_Cons duration_since_def VELOCITY_WINDOW_def VELOCITY_ASSUME_STOPPED_GAP_def)
  have ne: "recent_samples t2 t2 (map (on_line p v) (t1 # ?ts)) \<noteq> []"
    using gap(2) by (simp add: recent_on_line_Cons duration_since_def VELOCITY_WINDOW_def VELOCITY_ASSUME_STOPPED_GAP_def max_def)
  obtain us where us: "recent_samples t2 t2 (map (on_line p v) (t1 # ?ts)) = map (\<lambda>u. (u, point_add ?q (point_scale u v))) us"
    using recent_on_line [OF le] by blast
  have recent: "recent = map (\<lambda>u. (u, point_add ?q (point_scale u v))) (0 # us)"
    unfolding tail us by (simp add: point_add_def point_scale_def)
  have "last us = fst (last (map (\<lambda>u. (u, point_add ?q (point_scale u v))) us))" using ne us by (simp add: last_map)
  then have us_last: "us \<noteq> []" "last us < - F64_EPSILON"
    using recent_last [OF sorted' le ne] gap(1) ne us by auto
  have line: "endpoint_estimate (0 # us) (map (\<lambda>u. a + b * u) (0 # us)) = b"
      "quadratic_velocity_at_newest (0 # us) (map (\<lambda>u. a + b * u) (0 # us)) \<in> {None, Some b}" for a b
    using us_last endpoint_on_line [of "0 # us" a b] quadratic_velocity_exact [of _ a b 0 "0 # us"] by simp_all
  have fields: "map fst recent = 0 # us" "map (px \<circ> snd) recent = map (\<lambda>u. px ?q + px v * u) (0 # us)"
      "map (py \<circ> snd) recent = map (\<lambda>u. py ?q + py v * u) (0 # us)"
    unfolding recent by (simp_all add: point_add_def point_scale_def o_def)
  have "fst (last (map (on_line p v) (ts @ [t1, t2]))) = t2" by (simp add: on_line_def)
  then have "velocity (map (on_line p v) (ts @ [t1, t2])) = \<lparr>px = px v, py = py v\<rparr>"
    unfolding velocity_def by (simp only: Let_def recent_def [symmetric] fields line release_velocity_same [OF line(2)] if_cancel) simp
  then show ?thesis by simp
qed

end
