(* ===== verification/Gestures.thy ===== *)
theory Gestures
  imports ScrollPhysics
begin

text \<open>
  The recognition of touch gestures, \<open>TouchGestureRecognizer\<close> of \<open>gpui/src/gestures.rs\<close>: one touch at a time becomes a tap,
  a pan with its momentum, a long press or a drag.

  A touch id is a number. An event keeps the fields that differ: the modifiers, the button and the source of a synthesized
  event are constants. The table of the friction spline is an argument of the operations that read it.
\<close>

section \<open>The recognizer\<close>

record active_touch =
  at_id :: nat
  at_start_position :: "real point"
  at_last_position :: "real point"
  at_emitted_position :: "real point"
  at_last_movement :: "real point"
  at_velocity_tracker :: velocity_tracker

record completed_tap =
  ct_position :: "real point"
  ct_time :: real
  ct_count :: nat

record momentum =
  mo_position :: "real point"
  mo_direction :: "real point"
  mo_speed :: real
  mo_started_at :: real
  mo_duration :: real
  mo_emitted_distance :: real

datatype touch_gesture_state =
  TouchIdle
| TouchPending active_touch real bool bool
| Panning active_touch axis
| Caught active_touch
| LongPressing active_touch
| TouchDragging active_touch

record recognizer =
  re_tuning :: gesture_tuning
  re_state :: touch_gesture_state
  re_momentum :: "momentum option"
  re_last_tap :: "completed_tap option"

record touch_event =
  te_id :: nat
  te_phase :: touch_phase
  te_position :: "real point"
  te_predicted_position :: "real point option"

record scroll_event =
  se_position :: "real point"
  se_delta :: "real point"
  se_phase :: touch_phase

record drag_event =
  de_phase :: touch_phase
  de_start_position :: "real point"
  de_position :: "real point"

datatype recognized_gesture =
  Scroll scroll_event
| Tap "real point" nat
| TouchDrag drag_event
| LongPress drag_event

definition scroll_at :: "real point \<Rightarrow> real point \<Rightarrow> touch_phase \<Rightarrow> recognized_gesture" where
  "scroll_at position delta phase = Scroll \<lparr>se_position = position, se_delta = delta, se_phase = phase\<rparr>"

definition recognizer_new :: "gesture_tuning \<Rightarrow> recognizer" where
  "recognizer_new tuning = \<lparr>re_tuning = tuning, re_state = TouchIdle, re_momentum = None, re_last_tap = None\<rparr>"

definition touch_started :: "touch_event \<Rightarrow> real \<Rightarrow> recognizer \<Rightarrow> recognizer \<times> recognized_gesture list" where
  "touch_started event now r =
     (let caught_fling = (re_momentum r \<noteq> None);
          recognized = (case re_momentum r of Some m \<Rightarrow> [scroll_at (mo_position m) point_zero Ended] | None \<Rightarrow> []);
          r = r\<lparr>re_momentum := None\<rparr>
      in if re_state r = TouchIdle then
           let touch = \<lparr>at_id = te_id event, at_start_position = te_position event, at_last_position = te_position event,
                 at_emitted_position = te_position event, at_last_movement = point_zero,
                 at_velocity_tracker = push_sample now (te_position event) []\<rparr>
           in if caught_fling
              then (r\<lparr>re_state := Caught touch\<rparr>, recognized @ [scroll_at (at_start_position touch) point_zero Started])
              else (r\<lparr>re_state := TouchPending touch (now + long_press_duration (re_tuning r)) False False\<rparr>, recognized)
         else (r, recognized))"

text \<open>The first step of a pan, once the touch has left the slop.\<close>

definition start_panning :: "touch_event \<Rightarrow> active_touch \<Rightarrow> active_touch \<times> axis \<times> recognized_gesture" where
  "start_panning event touch =
     (let accumulated = point_diff (te_position event) (at_start_position touch);
          target = (case te_predicted_position event of Some p \<Rightarrow> p | None \<Rightarrow> te_position event);
          axis = dominant_axis accumulated;
          delta = lock_delta_to_axis axis (point_diff target (at_start_position touch));
          touch = touch\<lparr>at_last_movement := lock_delta_to_axis axis accumulated\<rparr>;
          (target, delta) =
            (if movements_oppose delta (at_last_movement touch) then (te_position event, lock_delta_to_axis axis accumulated)
             else (target, delta))
      in (touch\<lparr>at_emitted_position := target\<rparr>, axis, scroll_at (at_start_position touch) delta Started))"

text \<open>A further step of a pan.\<close>

definition pan_step :: "touch_event \<Rightarrow> real \<Rightarrow> active_touch \<Rightarrow> axis \<Rightarrow> active_touch \<times> recognized_gesture" where
  "pan_step event now touch axis =
     (let raw_delta = lock_delta_to_axis axis (point_diff (te_position event) (at_last_position touch));
          touch = (if raw_delta \<noteq> point_zero then touch\<lparr>at_last_movement := raw_delta\<rparr> else touch);
          touch = touch\<lparr>at_velocity_tracker := push_sample now (te_position event) (at_velocity_tracker touch),
                        at_last_position := te_position event\<rparr>;
          target = (case te_predicted_position event of Some p \<Rightarrow> p | None \<Rightarrow> te_position event);
          delta = lock_delta_to_axis axis (point_diff target (at_emitted_position touch));
          (target, delta) =
            (if movements_oppose delta (at_last_movement touch) then
               let target = te_position event;
                   delta = lock_delta_to_axis axis (point_diff target (at_emitted_position touch))
               in if movements_oppose delta (at_last_movement touch) then (at_emitted_position touch, point_zero)
                  else (target, delta)
             else (target, delta))
      in (touch\<lparr>at_emitted_position := target\<rparr>, scroll_at (at_start_position touch) delta Moved))"

definition touch_moved :: "touch_event \<Rightarrow> real \<Rightarrow> recognizer \<Rightarrow> recognizer \<times> recognized_gesture list" where
  "touch_moved event now r =
     (case re_state r of
        TouchPending touch deadline long_press_offered touch_drag_offered \<Rightarrow>
          if at_id touch = te_id event then
            let touch = touch\<lparr>at_velocity_tracker := push_sample now (te_position event) (at_velocity_tracker touch),
                              at_last_position := te_position event\<rparr>
            in if magnitude (point_diff (te_position event) (at_start_position touch)) > touch_slop (re_tuning r) then
                 (case start_panning event touch of
                    (touch, axis, gesture) \<Rightarrow> (r\<lparr>re_state := Panning touch axis\<rparr>, [gesture]))
               else (r\<lparr>re_state := TouchPending touch deadline long_press_offered touch_drag_offered\<rparr>, [])
          else (r, [])
      | Caught touch \<Rightarrow>
          if at_id touch = te_id event then
            let accumulated = point_diff (te_position event) (at_start_position touch)
            in if accumulated = point_zero then (r, [])
               else
                 let axis = dominant_axis accumulated
                 in (case pan_step event now touch axis of (touch, gesture) \<Rightarrow> (r\<lparr>re_state := Panning touch axis\<rparr>, [gesture]))
          else (r, [])
      | Panning touch axis \<Rightarrow>
          if at_id touch = te_id event then
            (case pan_step event now touch axis of (touch, gesture) \<Rightarrow> (r\<lparr>re_state := Panning touch axis\<rparr>, [gesture]))
          else (r, [])
      | LongPressing touch \<Rightarrow>
          if at_id touch = te_id event then
            (r\<lparr>re_state := LongPressing (touch\<lparr>at_last_position := te_position event\<rparr>)\<rparr>,
             [LongPress \<lparr>de_phase = Moved, de_start_position = at_start_position touch, de_position = te_position event\<rparr>])
          else (r, [])
      | TouchDragging touch \<Rightarrow>
          if at_id touch = te_id event then
            (r\<lparr>re_state := TouchDragging (touch\<lparr>at_last_position := te_position event\<rparr>)\<rparr>,
             [TouchDrag \<lparr>de_phase = Moved, de_start_position = at_start_position touch, de_position = te_position event\<rparr>])
          else (r, [])
      | TouchIdle \<Rightarrow> (r, []))"

text \<open>The end of a touch that stayed within the slop.\<close>

definition finish_tap :: "touch_event \<Rightarrow> real \<Rightarrow> recognizer \<Rightarrow> recognizer \<times> recognized_gesture list" where
  "finish_tap event now r =
     (let tap_count =
            (case re_last_tap r of
               Some tap \<Rightarrow>
                 if duration_since now (ct_time tap) \<le> multi_tap_interval (re_tuning r) \<and>
                    magnitude (point_diff (te_position event) (ct_position tap)) \<le> multi_tap_slop (re_tuning r)
                 then ct_count tap + 1 else 1
             | None \<Rightarrow> 1)
      in (r\<lparr>re_state := TouchIdle, re_last_tap := Some \<lparr>ct_position = te_position event, ct_time = now, ct_count = tap_count\<rparr>\<rparr>,
          [Tap (te_position event) tap_count]))"

text \<open>The end of a pan, which a fling may follow.\<close>

definition release_speed :: "real \<Rightarrow> active_touch \<Rightarrow> axis \<Rightarrow> real point \<times> real" where
  "release_speed now touch axis =
     (let finger_stopped = (case latest_sample_time (at_velocity_tracker touch) of
            None \<Rightarrow> True | Some latest \<Rightarrow> duration_since now latest > VELOCITY_ASSUME_STOPPED_GAP);
          v = (if finger_stopped then point_zero else velocity (at_velocity_tracker touch));
          v = lock_delta_to_axis axis v
      in (v, sqrt (px v ^ 2 + py v ^ 2)))"

definition finish_pan ::
    "real list \<Rightarrow> touch_event \<Rightarrow> real \<Rightarrow> active_touch \<Rightarrow> axis \<Rightarrow> recognizer \<Rightarrow> recognizer \<times> recognized_gesture list" where
  "finish_pan spline event now touch axis r =
     (let (v, speed) = release_speed now touch axis;
          release_delta = lock_delta_to_axis axis (point_diff (te_position event) (at_emitted_position touch));
          direction = \<lparr>px = px v / speed, py = py v / speed\<rparr>;
          fling_speed = min speed MAX_FLING_VELOCITY;
          physics = scroll_physics (re_tuning r);
          duration = fling_duration physics fling_speed;
          r = r\<lparr>re_state := TouchIdle\<rparr>
      in if speed \<ge> min_fling_velocity (re_tuning r) \<and> duration \<noteq> 0 then
           let total_distance = fling_distance spline physics fling_speed duration;
               overshoot = - (px release_delta * px direction + py release_delta * py direction);
               ahead = (overshoot > 0 \<and> overshoot < total_distance);
               release_delta = (if ahead
                 then \<lparr>px = px release_delta + px direction * overshoot, py = py release_delta + py direction * overshoot\<rparr>
                 else release_delta);
               emitted_distance = (if ahead then overshoot else 0)
           in (r\<lparr>re_momentum := Some \<lparr>mo_position = at_start_position touch, mo_direction = direction, mo_speed = fling_speed,
                  mo_started_at = now, mo_duration = duration, mo_emitted_distance = emitted_distance\<rparr>\<rparr>,
               [scroll_at (at_start_position touch) release_delta Ended])
         else (r, [scroll_at (at_start_position touch) release_delta Ended]))"

definition touch_ended :: "real list \<Rightarrow> touch_event \<Rightarrow> real \<Rightarrow> recognizer \<Rightarrow> recognizer \<times> recognized_gesture list" where
  "touch_ended spline event now r =
     (case re_state r of
        TouchPending touch _ _ _ \<Rightarrow> if at_id touch = te_id event then finish_tap event now r else (r, [])
      | Caught touch \<Rightarrow>
          if at_id touch = te_id event then
            (r\<lparr>re_state := TouchIdle\<rparr>, [scroll_at (at_start_position touch) point_zero Ended])
          else (r, [])
      | Panning touch axis \<Rightarrow> if at_id touch = te_id event then finish_pan spline event now touch axis r else (r, [])
      | LongPressing touch \<Rightarrow>
          if at_id touch = te_id event then
            (r\<lparr>re_state := TouchIdle\<rparr>,
             [LongPress \<lparr>de_phase = Ended, de_start_position = at_start_position touch, de_position = te_position event\<rparr>])
          else (r, [])
      | TouchDragging touch \<Rightarrow>
          if at_id touch = te_id event then
            (r\<lparr>re_state := TouchIdle\<rparr>,
             [TouchDrag \<lparr>de_phase = Ended, de_start_position = at_start_position touch, de_position = te_position event\<rparr>])
          else (r, [])
      | TouchIdle \<Rightarrow> (r, []))"

definition touch_cancelled :: "touch_event \<Rightarrow> recognizer \<Rightarrow> recognizer \<times> recognized_gesture list" where
  "touch_cancelled event r =
     (case re_state r of
        TouchPending touch _ _ _ \<Rightarrow> if at_id touch = te_id event then (r\<lparr>re_state := TouchIdle\<rparr>, []) else (r, [])
      | Panning touch _ \<Rightarrow>
          if at_id touch = te_id event then
            (r\<lparr>re_state := TouchIdle\<rparr>, [scroll_at (at_start_position touch) point_zero Cancelled])
          else (r, [])
      | Caught touch \<Rightarrow>
          if at_id touch = te_id event then
            (r\<lparr>re_state := TouchIdle\<rparr>, [scroll_at (at_start_position touch) point_zero Cancelled])
          else (r, [])
      | LongPressing touch \<Rightarrow>
          if at_id touch = te_id event then
            (r\<lparr>re_state := TouchIdle\<rparr>,
             [LongPress \<lparr>de_phase = Cancelled, de_start_position = at_start_position touch, de_position = te_position event\<rparr>])
          else (r, [])
      | TouchDragging touch \<Rightarrow>
          if at_id touch = te_id event then
            (r\<lparr>re_state := TouchIdle\<rparr>,
             [TouchDrag \<lparr>de_phase = Cancelled, de_start_position = at_start_position touch, de_position = te_position event\<rparr>])
          else (r, [])
      | TouchIdle \<Rightarrow> (r, []))"

definition handle_event_at :: "real list \<Rightarrow> touch_event \<Rightarrow> real \<Rightarrow> recognizer \<Rightarrow> recognizer \<times> recognized_gesture list" where
  "handle_event_at spline event now r =
     (case te_phase event of
        Started \<Rightarrow> touch_started event now r
      | Moved \<Rightarrow> touch_moved event now r
      | Ended \<Rightarrow> touch_ended spline event now r
      | Cancelled \<Rightarrow> touch_cancelled event r)"

definition pending_long_press :: "real \<Rightarrow> recognizer \<Rightarrow> (nat \<times> real) option" where
  "pending_long_press now r =
     (case re_state r of
        TouchPending touch deadline False _ \<Rightarrow> Some (at_id touch, duration_since deadline now)
      | _ \<Rightarrow> None)"

definition offer_long_press :: "nat \<Rightarrow> recognizer \<Rightarrow> recognizer \<times> recognized_gesture option" where
  "offer_long_press i r =
     (case re_state r of
        TouchPending touch deadline offered drag_offered \<Rightarrow>
          if at_id touch \<noteq> i \<or> offered then (r, None)
          else (r\<lparr>re_state := TouchPending touch deadline True drag_offered\<rparr>,
                Some (LongPress \<lparr>de_phase = Started, de_start_position = at_start_position touch, de_position = at_last_position touch\<rparr>))
      | _ \<Rightarrow> (r, None))"

definition resolve_long_press :: "bool \<Rightarrow> recognizer \<Rightarrow> recognizer" where
  "resolve_long_press claimed r =
     (if \<not> claimed then r
      else case re_state r of TouchPending touch _ True _ \<Rightarrow> r\<lparr>re_state := LongPressing touch\<rparr> | _ \<Rightarrow> r)"

definition offer_touch_drag :: "nat \<Rightarrow> recognizer \<Rightarrow> recognizer \<times> recognized_gesture option" where
  "offer_touch_drag i r =
     (case re_state r of
        TouchPending touch deadline press_offered offered \<Rightarrow>
          if at_id touch \<noteq> i \<or> offered then (r, None)
          else (r\<lparr>re_state := TouchPending touch deadline press_offered True\<rparr>,
                Some (TouchDrag \<lparr>de_phase = Started, de_start_position = at_start_position touch, de_position = at_last_position touch\<rparr>))
      | _ \<Rightarrow> (r, None))"

definition resolve_touch_drag :: "bool \<Rightarrow> recognizer \<Rightarrow> recognizer" where
  "resolve_touch_drag claimed r =
     (if \<not> claimed then r
      else case re_state r of TouchPending touch _ _ True \<Rightarrow> r\<lparr>re_state := TouchDragging touch\<rparr> | _ \<Rightarrow> r)"

definition has_momentum :: "recognizer \<Rightarrow> bool" where
  "has_momentum r = (re_momentum r \<noteq> None)"

definition tick_momentum_at :: "real list \<Rightarrow> real \<Rightarrow> recognizer \<Rightarrow> recognizer \<times> recognized_gesture option" where
  "tick_momentum_at spline now r =
     (case re_momentum r of
        None \<Rightarrow> (r, None)
      | Some m \<Rightarrow>
          let elapsed = duration_since now (mo_started_at m);
              distance = fling_distance spline (scroll_physics (re_tuning r)) (mo_speed m) elapsed;
              step = max (distance - mo_emitted_distance m) 0;
              m' = m\<lparr>mo_emitted_distance := max (mo_emitted_distance m) distance\<rparr>;
              delta = \<lparr>px = px (mo_direction m) * step, py = py (mo_direction m) * step\<rparr>
          in if elapsed \<ge> mo_duration m then (r\<lparr>re_momentum := None\<rparr>, Some (scroll_at (mo_position m) delta Ended))
             else (r\<lparr>re_momentum := Some m'\<rparr>, Some (scroll_at (mo_position m) delta Moved)))"

section \<open>Inputs and what they emit\<close>

datatype gesture_input =
  TouchInput touch_event real
| OfferLongPress nat
| ResolveLongPress bool
| OfferTouchDrag nat
| ResolveTouchDrag bool
| Tick real

definition emitted :: "recognizer \<times> recognized_gesture option \<Rightarrow> recognizer \<times> recognized_gesture list" where
  "emitted p = (fst p, case snd p of Some g \<Rightarrow> [g] | None \<Rightarrow> [])"

fun gesture_step :: "real list \<Rightarrow> recognizer \<Rightarrow> gesture_input \<Rightarrow> recognizer \<times> recognized_gesture list" where
  "gesture_step spline r (TouchInput event now) = handle_event_at spline event now r"
| "gesture_step spline r (OfferLongPress i) = emitted (offer_long_press i r)"
| "gesture_step spline r (ResolveLongPress claimed) = (resolve_long_press claimed r, [])"
| "gesture_step spline r (OfferTouchDrag i) = emitted (offer_touch_drag i r)"
| "gesture_step spline r (ResolveTouchDrag claimed) = (resolve_touch_drag claimed r, [])"
| "gesture_step spline r (Tick now) = emitted (tick_momentum_at spline now r)"

fun gesture_run :: "real list \<Rightarrow> recognizer \<Rightarrow> gesture_input list \<Rightarrow> recognizer \<times> recognized_gesture list" where
  "gesture_run spline r [] = (r, [])"
| "gesture_run spline r (i # is) =
     (case gesture_step spline r i of (r1, out1) \<Rightarrow> (case gesture_run spline r1 is of (r2, out2) \<Rightarrow> (r2, out1 @ out2)))"

lemma gesture_run_append:
  "gesture_run spline r (is @ js) =
     (case gesture_run spline r is of (r1, out1) \<Rightarrow> (case gesture_run spline r1 js of (r2, out2) \<Rightarrow> (r2, out1 @ out2)))"
  by (induction "is" arbitrary: r) (auto split: prod.splits)

section \<open>Scroll streams\<close>

text \<open>
  The scroll events a listener sees: a stream is opened by a \<open>Started\<close>, goes on with \<open>Moved\<close>, and is closed by one \<open>Ended\<close> or
  \<open>Cancelled\<close>. A pan that ends in a fling goes on with the steps of its momentum, which a second \<open>Ended\<close> closes.
\<close>

datatype stream = StreamClosed | StreamOpen | StreamCoasting

inductive stream_step :: "stream \<Rightarrow> touch_phase \<Rightarrow> stream \<Rightarrow> bool" where
  opens: "stream_step StreamClosed Started StreamOpen"
| moves: "stream_step StreamOpen Moved StreamOpen"
| ends: "stream_step StreamOpen Ended StreamClosed"
| flings: "stream_step StreamOpen Ended StreamCoasting"
| cancels: "stream_step StreamOpen Cancelled StreamClosed"
| coasts: "stream_step StreamCoasting Moved StreamCoasting"
| stops: "stream_step StreamCoasting Ended StreamClosed"

inductive stream_run :: "stream \<Rightarrow> touch_phase list \<Rightarrow> stream \<Rightarrow> bool" where
  finished: "stream_run s [] s"
| continues: "stream_step s p s' \<Longrightarrow> stream_run s' ps s'' \<Longrightarrow> stream_run s (p # ps) s''"

inductive_simps stream_step_simps [simp]:
  "stream_step StreamClosed p s" "stream_step StreamOpen p s" "stream_step StreamCoasting p s"

inductive_simps stream_run_simps [simp]: "stream_run s [] s'" "stream_run s (p # ps) s'"

lemma stream_run_append: "stream_run s ps s' \<Longrightarrow> stream_run s' qs s'' \<Longrightarrow> stream_run s (ps @ qs) s''"
  by (induction rule: stream_run.induct) auto

fun scroll_phases :: "recognized_gesture list \<Rightarrow> touch_phase list" where
  "scroll_phases [] = []"
| "scroll_phases (Scroll e # gs) = se_phase e # scroll_phases gs"
| "scroll_phases (g # gs) = scroll_phases gs"

lemma scroll_phases_append [simp]: "scroll_phases (xs @ ys) = scroll_phases xs @ scroll_phases ys"
  by (induction xs rule: scroll_phases.induct) simp_all

lemma scroll_phases_at [simp]: "scroll_phases (scroll_at p d ph # gs) = ph # scroll_phases gs"
  by (simp add: scroll_at_def)

definition stream_of :: "recognizer \<Rightarrow> stream" where
  "stream_of r = (if re_momentum r \<noteq> None then StreamCoasting
     else case re_state r of Panning _ _ \<Rightarrow> StreamOpen | Caught _ \<Rightarrow> StreamOpen | _ \<Rightarrow> StreamClosed)"

text \<open>The invariant: momentum runs only between touches, and a pan's last movement lies on its axis.\<close>

definition recognizer_ok :: "recognizer \<Rightarrow> bool" where
  "recognizer_ok r \<longleftrightarrow> (re_momentum r \<noteq> None \<longrightarrow> re_state r = TouchIdle) \<and>
     (\<forall>touch axis. re_state r = Panning touch axis \<longrightarrow> lock_delta_to_axis axis (at_last_movement touch) = at_last_movement touch) \<and>
     (\<forall>touch. re_state r = Caught touch \<longrightarrow> at_last_movement touch = point_zero)"

lemma lock_idem [simp]: "lock_delta_to_axis axis (lock_delta_to_axis axis p) = lock_delta_to_axis axis p"
  by (cases axis) simp_all

lemma start_panning_eq:
  assumes "start_panning event touch = (touch', axis, g)"
  shows "\<exists>delta. g = scroll_at (at_start_position touch) delta Started \<and> at_id touch' = at_id touch \<and>
    at_start_position touch' = at_start_position touch \<and> at_last_position touch' = at_last_position touch \<and>
    axis = dominant_axis (point_diff (te_position event) (at_start_position touch)) \<and>
    delta = lock_delta_to_axis axis (point_diff (at_emitted_position touch') (at_start_position touch)) \<and>
    lock_delta_to_axis axis (at_last_movement touch') = at_last_movement touch' \<and>
    \<not> movements_oppose delta (at_last_movement touch')"
proof -
  have self: "\<not> movements_oppose d d" for d by (simp add: movements_oppose_def not_less)
  show ?thesis
    using assms by (auto simp: start_panning_def Let_def self split: if_splits)
qed

lemma pan_step_eq:
  assumes "pan_step event now touch axis = (touch', g)"
  shows "\<exists>delta. g = scroll_at (at_start_position touch) delta Moved \<and> at_id touch' = at_id touch \<and>
    at_start_position touch' = at_start_position touch \<and> at_last_position touch' = te_position event \<and>
    delta = lock_delta_to_axis axis (point_diff (at_emitted_position touch') (at_emitted_position touch)) \<and>
    (lock_delta_to_axis axis (at_last_movement touch) = at_last_movement touch \<or>
       lock_delta_to_axis axis (point_diff (te_position event) (at_last_position touch)) \<noteq> point_zero \<longrightarrow>
     lock_delta_to_axis axis (at_last_movement touch') = at_last_movement touch') \<and>
    \<not> movements_oppose delta (at_last_movement touch') \<and>
    at_last_movement touch' = (let raw = lock_delta_to_axis axis (point_diff (te_position event) (at_last_position touch))
      in if raw = point_zero then at_last_movement touch else raw)"
proof -
  have zero: "\<not> movements_oppose point_zero d" for d by (simp add: movements_oppose_def point_zero_def)
  have diff: "point_diff p p = point_zero" for p by (simp add: point_diff_def point_zero_def)
  show ?thesis
    using assms by (auto simp: pan_step_def Let_def zero diff split: if_splits)
qed

lemmas touch_defs = touch_started_def touch_moved_def touch_ended_def touch_cancelled_def finish_tap_def

lemma point_eta [simp]: "\<lparr>px = px p, py = py p\<rparr> = (p :: real point)"
  by simp

lemma scroll_at_eq [simp]: "scroll_at p d ph = scroll_at p' d' ph' \<longleftrightarrow> p = p' \<and> d = d' \<and> ph = ph'"
  by (auto simp: scroll_at_def)

lemma finish_pan_eq:
  assumes "finish_pan spline event now touch axis r = (r', out)"
  shows "\<exists>delta. out = [scroll_at (at_start_position touch) delta Ended] \<and> re_state r' = TouchIdle \<and>
    (case re_momentum r' of
       None \<Rightarrow> re_momentum r = None \<longrightarrow> delta = lock_delta_to_axis axis (point_diff (te_position event) (at_emitted_position touch))
     | Some m \<Rightarrow> re_momentum r = None \<longrightarrow>
         delta = \<lparr>px = px (lock_delta_to_axis axis (point_diff (te_position event) (at_emitted_position touch))) + px (mo_direction m) * mo_emitted_distance m,
                  py = py (lock_delta_to_axis axis (point_diff (te_position event) (at_emitted_position touch))) + py (mo_direction m) * mo_emitted_distance m\<rparr> \<and>
         0 \<le> mo_emitted_distance m)"
  using assms by (auto simp: finish_pan_def Let_def split: prod.splits if_splits option.splits)

lemma started_stream:
  assumes "recognizer_ok r" "touch_started event now r = (r', out)"
  shows "recognizer_ok r' \<and> stream_run (stream_of r) (scroll_phases out) (stream_of r')"
  using assms by (auto simp: touch_started_def Let_def recognizer_ok_def stream_of_def split: option.splits if_splits touch_gesture_state.splits)

lemma moved_stream:
  assumes "recognizer_ok r" "touch_moved event now r = (r', out)"
  shows "recognizer_ok r' \<and> stream_run (stream_of r) (scroll_phases out) (stream_of r')"
proof (cases "re_state r")
  case (TouchPending touch deadline a b)
  then show ?thesis
    using assms by (auto simp: touch_moved_def Let_def recognizer_ok_def stream_of_def split: if_splits prod.splits dest!: start_panning_eq)
next
  case (Panning touch axis)
  then show ?thesis
    using assms by (auto simp: touch_moved_def Let_def recognizer_ok_def stream_of_def split: if_splits prod.splits dest!: pan_step_eq)
next
  case (Caught touch)
  then show ?thesis
    using assms by (auto simp: touch_moved_def Let_def recognizer_ok_def stream_of_def split: if_splits prod.splits dest!: pan_step_eq)
qed (use assms in \<open>auto simp: touch_moved_def recognizer_ok_def stream_of_def split: if_splits\<close>)

lemma ended_stream:
  assumes "recognizer_ok r" "touch_ended spline event now r = (r', out)"
  shows "recognizer_ok r' \<and> stream_run (stream_of r) (scroll_phases out) (stream_of r')"
proof (cases "re_state r")
  case (Panning touch axis)
  show ?thesis
  proof (cases "at_id touch = te_id event")
    case True
    then have fin: "finish_pan spline event now touch axis r = (r', out)" using assms(2) Panning by (simp add: touch_ended_def)
    have none: "re_momentum r = None" using assms(1) Panning by (auto simp: recognizer_ok_def)
    show ?thesis
      using finish_pan_eq [OF fin] none Panning by (auto simp: recognizer_ok_def stream_of_def)
  qed (use assms Panning in \<open>auto simp: touch_ended_def\<close>)
next
  case (TouchPending touch deadline a b)
  then show ?thesis
    using assms by (auto simp: touch_ended_def finish_tap_def Let_def recognizer_ok_def stream_of_def split: if_splits)
qed (use assms in \<open>auto simp: touch_ended_def recognizer_ok_def stream_of_def split: if_splits\<close>)

lemma cancelled_stream:
  assumes "recognizer_ok r" "touch_cancelled event r = (r', out)"
  shows "recognizer_ok r' \<and> stream_run (stream_of r) (scroll_phases out) (stream_of r')"
  using assms by (cases "re_state r") (auto simp: touch_cancelled_def recognizer_ok_def stream_of_def split: if_splits)

lemma tick_stream:
  assumes "recognizer_ok r" "emitted (tick_momentum_at spline now r) = (r', out)"
  shows "recognizer_ok r' \<and> stream_run (stream_of r) (scroll_phases out) (stream_of r')"
  using assms
  by (auto simp: emitted_def tick_momentum_at_def Let_def recognizer_ok_def stream_of_def split: option.splits if_splits)

lemma offers_stream:
  assumes "recognizer_ok r"
  shows "recognizer_ok (fst (offer_long_press i r)) \<and> stream_of (fst (offer_long_press i r)) = stream_of r \<and>
      scroll_phases (snd (emitted (offer_long_press i r))) = []"
    "recognizer_ok (fst (offer_touch_drag i r)) \<and> stream_of (fst (offer_touch_drag i r)) = stream_of r \<and>
      scroll_phases (snd (emitted (offer_touch_drag i r))) = []"
    "recognizer_ok (resolve_long_press b r) \<and> stream_of (resolve_long_press b r) = stream_of r"
    "recognizer_ok (resolve_touch_drag b r) \<and> stream_of (resolve_touch_drag b r) = stream_of r"
proof -
  show "recognizer_ok (fst (offer_long_press i r)) \<and> stream_of (fst (offer_long_press i r)) = stream_of r \<and>
      scroll_phases (snd (emitted (offer_long_press i r))) = []"
    using assms by (cases "re_state r") (auto simp: offer_long_press_def emitted_def recognizer_ok_def stream_of_def)
  show "recognizer_ok (fst (offer_touch_drag i r)) \<and> stream_of (fst (offer_touch_drag i r)) = stream_of r \<and>
      scroll_phases (snd (emitted (offer_touch_drag i r))) = []"
    using assms by (cases "re_state r") (auto simp: offer_touch_drag_def emitted_def recognizer_ok_def stream_of_def)
  show "recognizer_ok (resolve_long_press b r) \<and> stream_of (resolve_long_press b r) = stream_of r"
    using assms by (cases "re_state r") (auto simp: resolve_long_press_def recognizer_ok_def stream_of_def split: bool.split)
  show "recognizer_ok (resolve_touch_drag b r) \<and> stream_of (resolve_touch_drag b r) = stream_of r"
    using assms by (cases "re_state r") (auto simp: resolve_touch_drag_def recognizer_ok_def stream_of_def split: bool.split)
qed

lemma gesture_step_stream:
  assumes "recognizer_ok r" "gesture_step spline r i = (r', out)"
  shows "recognizer_ok r' \<and> stream_run (stream_of r) (scroll_phases out) (stream_of r')"
proof (cases i)
  case (TouchInput event now)
  then show ?thesis
    using assms(2) started_stream [OF assms(1), of event now r' out] moved_stream [OF assms(1), of event now r' out]
      ended_stream [OF assms(1), of spline event now r' out] cancelled_stream [OF assms(1), of event r' out]
    by (cases "te_phase event") (simp_all add: handle_event_at_def)
next
  case (Tick now)
  then show ?thesis using assms(2) tick_stream [OF assms(1), of spline now r' out] by simp
next
  case (OfferLongPress j)
  then have "r' = fst (offer_long_press j r)" "out = snd (emitted (offer_long_press j r))" using assms(2) by (auto simp: emitted_def)
  then show ?thesis using offers_stream(1) [OF assms(1), of j] by simp
next
  case (OfferTouchDrag j)
  then have "r' = fst (offer_touch_drag j r)" "out = snd (emitted (offer_touch_drag j r))" using assms(2) by (auto simp: emitted_def)
  then show ?thesis using offers_stream(2) [OF assms(1), of j] by simp
next
  case (ResolveLongPress b)
  then show ?thesis using assms(2) offers_stream(3) [OF assms(1), of b] by auto
next
  case (ResolveTouchDrag b)
  then show ?thesis using assms(2) offers_stream(4) [OF assms(1), of b] by auto
qed

lemma gesture_run_stream:
  assumes "recognizer_ok r" "gesture_run spline r is = (r', out)"
  shows "recognizer_ok r' \<and> stream_run (stream_of r) (scroll_phases out) (stream_of r')"
  using assms
proof (induction "is" arbitrary: r r' out)
  case (Cons i "is")
  obtain r1 out1 r2 out2 where s: "gesture_step spline r i = (r1, out1)" "gesture_run spline r1 is = (r2, out2)" by fastforce
  from gesture_step_stream [OF Cons.prems(1) s(1)] Cons.IH [OF _ s(2)] Cons.prems(2) s show ?case
    by (auto intro: stream_run_append)
qed auto

section \<open>How far a pan scrolls\<close>

lemmas point_defs = point_add_def point_scale_def point_diff_def point_zero_def

fun scrolled :: "recognized_gesture list \<Rightarrow> real point" where
  "scrolled [] = point_zero"
| "scrolled (Scroll e # gs) = point_add (se_delta e) (scrolled gs)"
| "scrolled (g # gs) = scrolled gs"

lemma scrolled_at [simp]: "scrolled (scroll_at p d ph # gs) = point_add d (scrolled gs)"
  by (simp add: scroll_at_def)

lemma point_add_zero [simp]: "point_add p point_zero = p" "point_add point_zero p = p"
  by (simp_all add: point_defs)

lemma point_add_assoc: "point_add (point_add a b) c = point_add a (point_add b c)"
  by (simp add: point_add_def add.assoc)

lemma scrolled_append [simp]: "scrolled (xs @ ys) = point_add (scrolled xs) (scrolled ys)"
  by (induction xs rule: scrolled.induct) (simp_all add: point_add_assoc)

lemma lock_travel [simp]:
  "point_add (lock_delta_to_axis axis (point_diff b a)) (lock_delta_to_axis axis (point_diff c b)) = lock_delta_to_axis axis (point_diff c a)"
  by (cases axis) (simp_all add: point_defs)

lemma lock_travel_none [simp]: "lock_delta_to_axis axis (point_diff a a) = point_zero"
  by (cases axis) (simp_all add: point_defs)

fun is_scroll :: "recognized_gesture \<Rightarrow> bool" where
  "is_scroll (Scroll _) = True"
| "is_scroll _ = False"

lemma is_scroll_at [simp]: "is_scroll (scroll_at p d ph)"
  by (simp add: scroll_at_def)

definition moves_of :: "nat \<Rightarrow> (touch_event \<times> real) list \<Rightarrow> bool" where
  "moves_of i ms \<longleftrightarrow> (\<forall>(e, t)\<in>set ms. te_phase e = Moved \<and> te_id e = i)"

abbreviation touches :: "(touch_event \<times> real) list \<Rightarrow> gesture_input list" where
  "touches ms \<equiv> map (\<lambda>(e, t). TouchInput e t) ms"

lemma pan_moves:
  assumes "re_state r = Panning touch axis" "moves_of (at_id touch) ms" "gesture_run spline r (touches ms) = (r', out)"
  shows "\<exists>touch'. r' = r\<lparr>re_state := Panning touch' axis\<rparr> \<and> at_id touch' = at_id touch \<and>
    at_start_position touch' = at_start_position touch \<and> (\<forall>g\<in>set out. is_scroll g) \<and>
    scrolled out = lock_delta_to_axis axis (point_diff (at_emitted_position touch') (at_emitted_position touch))"
  using assms
proof (induction ms arbitrary: r touch out)
  case Nil
  then show ?case by (intro exI [of _ touch]) (auto intro: recognizer.equality)
next
  case (Cons m ms)
  obtain e t where m: "m = (e, t)" by fastforce
  have e: "te_phase e = Moved" "te_id e = at_id touch" and ms: "moves_of (at_id touch) ms"
    using Cons.prems(2) by (auto simp: moves_of_def m)
  obtain touch1 g where g: "pan_step e t touch axis = (touch1, g)" by fastforce
  let ?r1 = "r\<lparr>re_state := Panning touch1 axis\<rparr>"
  have step: "gesture_step spline r (TouchInput e t) = (?r1, [g])"
    using Cons.prems(1) e g by (simp add: handle_event_at_def touch_moved_def)
  obtain out2 where out2: "gesture_run spline ?r1 (touches ms) = (r', out2)" "out = g # out2"
    using Cons.prems(3) step by (auto simp: m split: prod.splits)
  obtain delta where d: "g = scroll_at (at_start_position touch) delta Moved" "at_id touch1 = at_id touch"
    "at_start_position touch1 = at_start_position touch"
    "delta = lock_delta_to_axis axis (point_diff (at_emitted_position touch1) (at_emitted_position touch))"
    using pan_step_eq [OF g] by blast
  from Cons.IH [of ?r1 touch1 out2] ms out2(1) d(2) show ?case
    by (auto simp: out2(2) d)
qed

text \<open>What a fling has already travelled when the touch is released.\<close>

definition fling_lead :: "recognizer \<Rightarrow> real point" where
  "fling_lead r = (case re_momentum r of None \<Rightarrow> point_zero | Some m \<Rightarrow> point_scale (mo_emitted_distance m) (mo_direction m))"

lemma finish_pan_scrolled:
  assumes "finish_pan spline event now touch axis r = (r', out)" "re_momentum r = None"
  shows "scrolled out = point_add (lock_delta_to_axis axis (point_diff (te_position event) (at_emitted_position touch))) (fling_lead r')"
    "\<forall>g\<in>set out. is_scroll g" "re_state r' = TouchIdle"
proof -
  obtain delta where d: "out = [scroll_at (at_start_position touch) delta Ended]" "re_state r' = TouchIdle"
    "delta = point_add (lock_delta_to_axis axis (point_diff (te_position event) (at_emitted_position touch))) (fling_lead r')"
  proof (cases "re_momentum r'")
    case None
    then show thesis using that finish_pan_eq [OF assms(1)] assms(2) by (auto simp: fling_lead_def)
  next
    case (Some m)
    then show thesis using that finish_pan_eq [OF assms(1)] assms(2) by (auto simp: fling_lead_def point_add_def point_scale_def)
  qed
  then show "scrolled out = point_add (lock_delta_to_axis axis (point_diff (te_position event) (at_emitted_position touch))) (fling_lead r')"
    "\<forall>g\<in>set out. is_scroll g" "re_state r' = TouchIdle"
    by simp_all
qed

text \<open>A pan from its first step to its release.\<close>

lemma pan_to_end:
  assumes "re_state r = Panning touch axis" "re_momentum r = None" "moves_of (at_id touch) ms" "te_phase e = Ended" "te_id e = at_id touch"
    "gesture_run spline r (touches (ms @ [(e, t)])) = (r', out)"
  shows "scrolled out = point_add (lock_delta_to_axis axis (point_diff (te_position e) (at_emitted_position touch))) (fling_lead r')"
    "\<forall>g\<in>set out. is_scroll g" "re_state r' = TouchIdle"
proof -
  obtain r1 out1 where 1: "gesture_run spline r (touches ms) = (r1, out1)" by fastforce
  obtain touch1 where t1: "r1 = r\<lparr>re_state := Panning touch1 axis\<rparr>" "at_id touch1 = at_id touch" "\<forall>g\<in>set out1. is_scroll g"
    "scrolled out1 = lock_delta_to_axis axis (point_diff (at_emitted_position touch1) (at_emitted_position touch))"
    using pan_moves [OF assms(1,3) 1] by blast
  obtain out2 where out2: "finish_pan spline e t touch1 axis r1 = (r', out2)" "out = out1 @ out2"
    using assms(4-6) 1 t1(1,2) by (auto simp: gesture_run_append handle_event_at_def touch_ended_def split: prod.splits)
  have "re_momentum r1 = None" using t1(1) assms(2) by simp
  note fin = finish_pan_scrolled [OF out2(1) this]
  show "scrolled out = point_add (lock_delta_to_axis axis (point_diff (te_position e) (at_emitted_position touch))) (fling_lead r')"
    using fin(1) t1(4) by (simp add: out2(2) point_add_assoc [symmetric])
  show "\<forall>g\<in>set out. is_scroll g" "re_state r' = TouchIdle" using fin t1(3) out2(2) by auto
qed

section \<open>A whole touch\<close>

definition within_slop :: "gesture_tuning \<Rightarrow> real point \<Rightarrow> touch_event \<times> real \<Rightarrow> bool" where
  "within_slop tuning start m \<longleftrightarrow> magnitude (point_diff (te_position (fst m)) start) \<le> touch_slop tuning"

lemma pending_moves:
  assumes "re_state r = TouchPending touch deadline a b" "moves_of (at_id touch) ms"
    "\<forall>m\<in>set ms. within_slop (re_tuning r) (at_start_position touch) m"
  shows "\<exists>touch'. gesture_run spline r (touches ms) = (r\<lparr>re_state := TouchPending touch' deadline a b\<rparr>, []) \<and>
    at_id touch' = at_id touch \<and> at_start_position touch' = at_start_position touch"
  using assms
proof (induction ms arbitrary: r touch)
  case Nil
  then show ?case by (intro exI [of _ touch]) simp
next
  case (Cons m ms)
  obtain e t where m: "m = (e, t)" by fastforce
  let ?touch = "touch\<lparr>at_velocity_tracker := push_sample t (te_position e) (at_velocity_tracker touch), at_last_position := te_position e\<rparr>"
  let ?r = "r\<lparr>re_state := TouchPending ?touch deadline a b\<rparr>"
  have "gesture_step spline r (TouchInput e t) = (?r, [])"
    using Cons.prems by (auto simp: m moves_of_def within_slop_def handle_event_at_def touch_moved_def Let_def)
  moreover have "\<exists>touch'. gesture_run spline ?r (touches ms) = (?r\<lparr>re_state := TouchPending touch' deadline a b\<rparr>, []) \<and>
      at_id touch' = at_id ?touch \<and> at_start_position touch' = at_start_position ?touch"
    using Cons.prems by (intro Cons.IH) (auto simp: moves_of_def)
  ultimately show ?case by (auto simp: m)
qed

text \<open>The axis of a pan: where the first move that leaves the slop points.\<close>

definition pan_axis :: "gesture_tuning \<Rightarrow> real point \<Rightarrow> (touch_event \<times> real) list \<Rightarrow> axis" where
  "pan_axis tuning start ms = dominant_axis (point_diff (te_position (fst (hd (dropWhile (within_slop tuning start) ms)))) start)"

lemma touch_from_pending:
  assumes p: "re_state r = TouchPending touch deadline a b" and m: "re_momentum r = None" and ms: "moves_of (at_id touch) ms"
    and e: "te_phase e = Ended" "te_id e = at_id touch" and run: "gesture_run spline r (touches (ms @ [(e, t)])) = (r', out)"
  shows "re_state r' = TouchIdle \<and>
    (if \<forall>m\<in>set ms. within_slop (re_tuning r) (at_start_position touch) m
     then re_momentum r' = None \<and> (\<exists>n. out = [Tap (te_position e) n])
     else (\<forall>g\<in>set out. is_scroll g) \<and>
       scrolled out = point_add (lock_delta_to_axis (pan_axis (re_tuning r) (at_start_position touch) ms)
         (point_diff (te_position e) (at_start_position touch))) (fling_lead r'))"
proof (cases "\<forall>m\<in>set ms. within_slop (re_tuning r) (at_start_position touch) m")
  case True
  from pending_moves [OF p ms True] obtain touch' where
    "gesture_run spline r (touches ms) = (r\<lparr>re_state := TouchPending touch' deadline a b\<rparr>, [])" "at_id touch' = at_id touch"
    by blast
  then have "finish_tap e t (r\<lparr>re_state := TouchPending touch' deadline a b\<rparr>) = (r', out)"
    using run e by (auto simp: gesture_run_append handle_event_at_def touch_ended_def split: prod.splits)
  then show ?thesis using True m by (auto simp: finish_tap_def Let_def)
next
  case False
  then obtain pre f post where split: "ms = pre @ f # post" "\<not> within_slop (re_tuning r) (at_start_position touch) f"
    "\<forall>m\<in>set pre. within_slop (re_tuning r) (at_start_position touch) m"
    using split_list_first_prop [of ms "\<lambda>m. \<not> within_slop (re_tuning r) (at_start_position touch) m"] by blast
  obtain e1 t1 where f: "f = (e1, t1)" by fastforce
  have ids: "moves_of (at_id touch) pre" "te_phase e1 = Moved" "te_id e1 = at_id touch" "moves_of (at_id touch) post"
    using ms by (auto simp: split(1) f moves_of_def)
  from pending_moves [OF p ids(1) split(3)] obtain touch0 where
    t0: "gesture_run spline r (touches pre) = (r\<lparr>re_state := TouchPending touch0 deadline a b\<rparr>, [])"
      "at_id touch0 = at_id touch" "at_start_position touch0 = at_start_position touch"
    by blast
  let ?touch = "touch0\<lparr>at_velocity_tracker := push_sample t1 (te_position e1) (at_velocity_tracker touch0), at_last_position := te_position e1\<rparr>"
  obtain touch1 axis g where g: "start_panning e1 ?touch = (touch1, axis, g)" by (metis prod_cases3)
  obtain delta where d: "g = scroll_at (at_start_position touch) delta Started" "at_id touch1 = at_id touch"
    "delta = lock_delta_to_axis axis (point_diff (at_emitted_position touch1) (at_start_position touch))"
    "axis = dominant_axis (point_diff (te_position e1) (at_start_position touch))"
    using start_panning_eq [OF g] t0(2,3) by auto
  have axis: "axis = pan_axis (re_tuning r) (at_start_position touch) ms"
    using split d(4) by (simp add: pan_axis_def f)
  let ?r1 = "r\<lparr>re_state := Panning touch1 axis\<rparr>"
  have step: "gesture_step spline (r\<lparr>re_state := TouchPending touch0 deadline a b\<rparr>) (TouchInput e1 t1) = (?r1, [g])"
    using ids(2,3) split(2) t0(2,3) g by (simp add: f within_slop_def handle_event_at_def touch_moved_def Let_def)
  obtain out2 where out2: "gesture_run spline ?r1 (touches (post @ [(e, t)])) = (r', out2)" "out = g # out2"
    using run t0(1) step unfolding split(1) f
    by (simp add: gesture_run_append split: prod.splits)
  have "re_state ?r1 = Panning touch1 axis" "re_momentum ?r1 = None" using m by simp_all
  from pan_to_end [OF this _ e(1) _ out2(1)] ids(4) e(2) d(2)
  have fin: "scrolled out2 = point_add (lock_delta_to_axis axis (point_diff (te_position e) (at_emitted_position touch1))) (fling_lead r')"
    "\<forall>g\<in>set out2. is_scroll g" "re_state r' = TouchIdle"
    by simp_all
  have "scrolled out = point_add (lock_delta_to_axis axis (point_diff (te_position e) (at_start_position touch))) (fling_lead r')"
    using fin(1) d by (simp add: out2(2) point_add_assoc [symmetric])
  then show ?thesis using False fin d(1) out2(2) unfolding axis by auto
qed

lemma touch_from_idle:
  assumes "re_state r = TouchIdle" "re_momentum r = None" "te_phase s = Started" "moves_of (te_id s) ms"
    "te_phase e = Ended" "te_id e = te_id s" "gesture_run spline r (touches ((s, t0) # ms @ [(e, t)])) = (r', out)"
  shows "re_state r' = TouchIdle \<and>
    (if \<forall>m\<in>set ms. within_slop (re_tuning r) (te_position s) m
     then re_momentum r' = None \<and> (\<exists>n. out = [Tap (te_position e) n])
     else (\<forall>g\<in>set out. is_scroll g) \<and>
       scrolled out = point_add (lock_delta_to_axis (pan_axis (re_tuning r) (te_position s) ms)
         (point_diff (te_position e) (te_position s))) (fling_lead r'))"
proof -
  obtain r1 touch deadline where p: "touch_started s t0 r = (r1, [])" "re_state r1 = TouchPending touch deadline False False"
    "re_momentum r1 = None" "re_tuning r1 = re_tuning r" "at_id touch = te_id s" "at_start_position touch = te_position s"
    using assms(1,2) by (simp add: touch_started_def Let_def)
  have "gesture_run spline r1 (touches (ms @ [(e, t)])) = (r', out)"
    using assms(3,7) p(1) by (simp add: handle_event_at_def split: prod.splits)
  from touch_from_pending [OF p(2,3) _ assms(5) _ this] assms(4,6) p(4-6) show ?thesis by simp
qed

section \<open>Momentum\<close>

lemma tick_eq:
  fixes spline :: "real list" and now :: real
  assumes "re_momentum r = Some m"
  defines "distance \<equiv> fling_distance spline (scroll_physics (re_tuning r)) (mo_speed m) (duration_since now (mo_started_at m))"
  shows "gesture_step spline r (Tick now) =
    (r\<lparr>re_momentum := (if duration_since now (mo_started_at m) \<ge> mo_duration m then None
        else Some (m\<lparr>mo_emitted_distance := max (mo_emitted_distance m) distance\<rparr>))\<rparr>,
     [scroll_at (mo_position m) (point_scale (max (distance - mo_emitted_distance m) 0) (mo_direction m))
        (if duration_since now (mo_started_at m) \<ge> mo_duration m then Ended else Moved)])"
  using assms(1) by (simp add: tick_momentum_at_def emitted_def Let_def point_scale_def distance_def)

lemma point_scale_add: "point_add (point_scale a p) (point_scale b p) = point_scale (a + b) p"
  by (simp add: point_defs algebra_simps)

text \<open>Ticks travel up to the total distance, and the last one travels the rest.\<close>

lemma ticks_travel:
  assumes "re_momentum r = Some m" "mo_emitted_distance m \<le> tot"
    and le: "\<And>elapsed. 0 \<le> elapsed \<Longrightarrow> fling_distance spline (scroll_physics (re_tuning r)) (mo_speed m) elapsed \<le> tot"
    and reach: "\<And>elapsed. mo_duration m \<le> elapsed \<Longrightarrow> fling_distance spline (scroll_physics (re_tuning r)) (mo_speed m) elapsed = tot"
    and ts: "\<forall>t\<in>set ts. duration_since t (mo_started_at m) < mo_duration m" "mo_duration m \<le> duration_since t (mo_started_at m)"
    and run: "gesture_run spline r (map Tick (ts @ [t])) = (r', out)"
  shows "re_momentum r' = None \<and> scrolled out = point_scale (tot - mo_emitted_distance m) (mo_direction m)"
  using assms(1,2) le reach ts run
proof (induction ts arbitrary: r m out)
  case Nil
  have "fling_distance spline (scroll_physics (re_tuning r)) (mo_speed m) (duration_since t (mo_started_at m)) = tot"
    using Nil.prems(4,6) by simp
  then show ?case
    using Nil.prems(2,6,7) by (auto simp: tick_eq [OF Nil.prems(1)] simp del: gesture_step.simps)
next
  case (Cons u ts)
  define d where "d = fling_distance spline (scroll_physics (re_tuning r)) (mo_speed m) (duration_since u (mo_started_at m))"
  let ?m = "m\<lparr>mo_emitted_distance := max (mo_emitted_distance m) d\<rparr>"
  let ?r = "r\<lparr>re_momentum := Some ?m\<rparr>"
  have not_end: "\<not> mo_duration m \<le> duration_since u (mo_started_at m)" using Cons.prems(5) by auto
  have step: "gesture_step spline r (Tick u) =
      (?r, [scroll_at (mo_position m) (point_scale (max (d - mo_emitted_distance m) 0) (mo_direction m)) Moved])"
    using not_end by (simp add: tick_eq [OF Cons.prems(1)] d_def [symmetric] del: gesture_step.simps)
  obtain out2 where out2: "gesture_run spline ?r (map Tick (ts @ [t])) = (r', out2)"
    "out = scroll_at (mo_position m) (point_scale (max (d - mo_emitted_distance m) 0) (mo_direction m)) Moved # out2"
    using Cons.prems(7) step by (auto split: prod.splits simp del: gesture_step.simps)
  have "d \<le> tot" unfolding d_def by (rule Cons.prems(3)) (simp add: duration_since_def)
  then have "re_momentum r' = None \<and> scrolled out2 = point_scale (tot - mo_emitted_distance ?m) (mo_direction ?m)"
    using Cons.prems(2-6) out2(1) by (intro Cons.IH [of ?r ?m out2]) auto
  moreover have "scrolled out = point_add (point_scale (max (d - mo_emitted_distance m) 0) (mo_direction m)) (scrolled out2)"
    by (simp add: out2(2))
  moreover have eq: "max (d - mo_emitted_distance m) 0 + (tot - max (mo_emitted_distance m) d) = tot - mo_emitted_distance m"
    by (simp add: max_def)
  ultimately show ?case by (simp add: point_scale_add arg_cong [OF eq, of "\<lambda>x. point_scale x (mo_direction m)", simplified])
qed

text \<open>A fling in progress: its duration is that of its speed, and it has not gone further than its distance.\<close>

definition momentum_ok :: "real list \<Rightarrow> recognizer \<Rightarrow> bool" where
  "momentum_ok spline r \<longleftrightarrow> (\<forall>m. re_momentum r = Some m \<longrightarrow>
     mo_duration m = fling_duration (scroll_physics (re_tuning r)) (mo_speed m) \<and>
     mo_emitted_distance m \<le> fling_distance spline (scroll_physics (re_tuning r)) (mo_speed m) (mo_duration m))"

lemma momentum_ok_step:
  assumes ok: "physics_ok (scroll_physics (re_tuning r))" "spline_ok spline" and "momentum_ok spline r" "gesture_step spline r i = (r', out)"
  shows "re_tuning r' = re_tuning r \<and> momentum_ok spline r'"
proof (cases i)
  case (TouchInput e t)
  have nonneg: "0 \<le> fling_distance spline (scroll_physics (re_tuning r)) s (fling_duration (scroll_physics (re_tuning r)) s)" for s
    by (rule fling_distance_nonneg [OF ok])
  show ?thesis
  proof (cases "te_phase e")
    case Ended
    then show ?thesis
      using assms(3,4) TouchInput nonneg
      by (auto simp: handle_event_at_def touch_ended_def finish_tap_def finish_pan_def momentum_ok_def Let_def
          split: touch_gesture_state.splits if_splits prod.splits)
  qed (use assms(3,4) TouchInput in \<open>auto simp: handle_event_at_def touch_started_def touch_moved_def touch_cancelled_def momentum_ok_def Let_def
      split: touch_gesture_state.splits if_splits prod.splits option.splits\<close>)
next
  case (Tick now)
  have "fling_distance spline (scroll_physics (re_tuning r)) s (duration_since now t) \<le>
      fling_distance spline (scroll_physics (re_tuning r)) s (fling_duration (scroll_physics (re_tuning r)) s)" for s t
    by (rule fling_distance_at_most [OF ok]) (simp add: duration_since_def)
  then show ?thesis
    using assms(3,4) Tick
    by (auto simp: emitted_def tick_momentum_at_def momentum_ok_def Let_def split: option.splits if_splits)
qed (use assms(3,4) in \<open>auto simp: emitted_def offer_long_press_def offer_touch_drag_def resolve_long_press_def resolve_touch_drag_def
    momentum_ok_def split: touch_gesture_state.splits if_splits bool.splits\<close>)

lemma momentum_ok_run:
  assumes "physics_ok (scroll_physics (re_tuning r))" "spline_ok spline" "momentum_ok spline r" "gesture_run spline r is = (r', out)"
  shows "re_tuning r' = re_tuning r \<and> momentum_ok spline r'"
  using assms
proof (induction "is" arbitrary: r out)
  case (Cons i "is")
  obtain r1 out1 r2 out2 where s: "gesture_step spline r i = (r1, out1)" "gesture_run spline r1 is = (r2, out2)" by fastforce
  have 1: "re_tuning r1 = re_tuning r" "momentum_ok spline r1" using momentum_ok_step [OF Cons.prems(1-3) s(1)] by simp_all
  have "r2 = r'" using Cons.prems(4) s by simp
  then have "re_tuning r' = re_tuning r1 \<and> momentum_ok spline r'"
    using Cons.prems(1,2) 1 s(2) by (intro Cons.IH [of r1 out2]) simp_all
  then show ?case using 1(1) by simp
qed simp

text \<open>A fling that is ticked until it ends travels its distance, whatever the ticks in between.\<close>

lemma fling_to_end:
  assumes ok: "physics_ok (scroll_physics (re_tuning r))" "spline_ok spline" "momentum_ok spline r" and m: "re_momentum r = Some m"
    and ts: "\<forall>t\<in>set ts. duration_since t (mo_started_at m) < mo_duration m" "mo_duration m \<le> duration_since t (mo_started_at m)"
    and run: "gesture_run spline r (map Tick (ts @ [t])) = (r', out)"
  shows "re_momentum r' = None \<and>
    point_add (fling_lead r) (scrolled out) =
      point_scale (fling_distance spline (scroll_physics (re_tuning r)) (mo_speed m) (mo_duration m)) (mo_direction m)"
proof -
  let ?tot = "fling_distance spline (scroll_physics (re_tuning r)) (mo_speed m) (mo_duration m)"
  have d: "mo_duration m = fling_duration (scroll_physics (re_tuning r)) (mo_speed m)" "mo_emitted_distance m \<le> ?tot"
    using ok(3) m by (auto simp: momentum_ok_def)
  have "re_momentum r' = None \<and> scrolled out = point_scale (?tot - mo_emitted_distance m) (mo_direction m)"
    using ticks_travel [OF m d(2) _ _ ts run] fling_distance_at_most [OF ok(1,2), of _ "mo_speed m"] fling_distance_reached d(1)
    by metis
  then show ?thesis using m by (simp add: fling_lead_def point_scale_add)
qed

end
