(* ===== verification/Gestures_Properties.thy ===== *)
theory Gestures_Properties
  imports Gestures
begin

text \<open>
  What the recognizer promises: its scroll events form bracketed streams, a touch that stays near its start is a tap and any
  other pans as far as the finger went, prediction never pulls the content back, a fling adds exactly its distance, the
  friction table is built, and a finger in uniform motion is released with its velocity.
\<close>

definition sample_event :: "touch_phase \<Rightarrow> real \<Rightarrow> real \<Rightarrow> touch_event" where
  "sample_event phase x y = \<lparr>te_id = 7, te_phase = phase, te_position = \<lparr>px = x, py = y\<rparr>, te_predicted_position = None\<rparr>"

lemmas sample_simps = sample_event_def moves_of_def within_slop_def magnitude_def point_diff_def pan_axis_def dominant_axis_def
  recognizer_new_def gesture_tuning_default_def

text \<open>
  C27: Whatever the inputs, the phases of the scroll events a fresh recognizer has emitted follow the protocol of scroll
  streams: every stream is opened by one \<open>Started\<close>, closed by one \<open>Ended\<close> or \<open>Cancelled\<close>, a fling may follow and is closed by an
  \<open>Ended\<close> of its own, and which stream is open is what the state of the recognizer says.
\<close>

theorem scroll_streams_are_bracketed:
  "stream_run StreamClosed (scroll_phases (snd (gesture_run spline (recognizer_new tuning) is)))
     (stream_of (fst (gesture_run spline (recognizer_new tuning) is)))"
proof -
  have "recognizer_ok (recognizer_new tuning)" "stream_of (recognizer_new tuning) = StreamClosed"
    by (simp_all add: recognizer_ok_def stream_of_def recognizer_new_def)
  then show ?thesis using gesture_run_stream [OF _ prod.collapse [symmetric]] by metis
qed

text \<open>
  C12: A touch that starts when nothing else is in progress, moves and ends is a tap at the position where it ended, when it
  never left the slop; otherwise it scrolls, along the axis of the first move that left the slop, exactly as far as the finger
  went from its start to its end, wherever the predicted positions were, with the part of a fling it has already shown.
\<close>

theorem touch_is_a_tap_or_a_pan:
  assumes "re_state r = TouchIdle" "re_momentum r = None" "te_phase s = Started" "moves_of (te_id s) ms"
    "te_phase e = Ended" "te_id e = te_id s" "gesture_run spline r (touches ((s, t0) # ms @ [(e, t)])) = (r', out)"
  shows "re_state r' = TouchIdle \<and>
    (if \<forall>m\<in>set ms. within_slop (re_tuning r) (te_position s) m
     then re_momentum r' = None \<and> (\<exists>n. out = [Tap (te_position e) n])
     else (\<forall>g\<in>set out. is_scroll g) \<and>
       scrolled out = point_add (lock_delta_to_axis (pan_axis (re_tuning r) (te_position s) ms)
         (point_diff (te_position e) (te_position s))) (fling_lead r'))"
  by (rule touch_from_idle [OF assms])

theorem touch_is_a_tap_or_a_pan_witness:
  "case gesture_run [] (recognizer_new gesture_tuning_default)
      (touches ((sample_event Started 0 0, 0) # [(sample_event Moved 3 30, 1)] @ [(sample_event Ended 2 40, 2)])) of
     (r', out) \<Rightarrow> (\<forall>g\<in>set out. is_scroll g) \<and> scrolled out = point_add \<lparr>px = 0, py = 40\<rparr> (fling_lead r')"
proof -
  obtain r' out where run: "gesture_run [] (recognizer_new gesture_tuning_default)
      (touches ((sample_event Started 0 0, 0) # [(sample_event Moved 3 30, 1)] @ [(sample_event Ended 2 40, 2)])) = (r', out)"
    by fastforce
  have "8 < sqrt (909 :: real)" by (rule real_less_rsqrt) simp
  then show ?thesis
    unfolding run prod.case using touch_is_a_tap_or_a_pan [OF _ _ _ _ _ _ run] by (simp add: sample_simps not_le)
qed

text \<open>
  C28: While the finger pans, no predicted position scrolls the content against the finger: the scroll event of a move does not
  oppose the movement of the finger along the axis of the pan, or its last movement when it stands still.
\<close>

theorem prediction_never_reverses:
  assumes "re_state r = Panning touch axis" "te_phase e = Moved" "te_id e = at_id touch"
  shows "\<exists>delta. snd (handle_event_at spline e now r) = [scroll_at (at_start_position touch) delta Moved] \<and>
    \<not> movements_oppose delta (let raw = lock_delta_to_axis axis (point_diff (te_position e) (at_last_position touch))
      in if raw = point_zero then at_last_movement touch else raw)"
proof -
  obtain touch' g where g: "pan_step e now touch axis = (touch', g)" by fastforce
  then have "snd (handle_event_at spline e now r) = [g]" using assms by (simp add: handle_event_at_def touch_moved_def)
  then show ?thesis using pan_step_eq [OF g] by metis
qed

theorem prediction_never_reverses_witness:
  "\<exists>delta. snd (handle_event_at [] (sample_event Moved 0 10\<lparr>te_predicted_position := Some \<lparr>px = 0, py = - 5\<rparr>\<rparr>) 1
     ((recognizer_new gesture_tuning_default)\<lparr>re_state := Panning \<lparr>at_id = 7, at_start_position = point_zero, at_last_position = point_zero,
       at_emitted_position = point_zero, at_last_movement = point_zero, at_velocity_tracker = []\<rparr> Vertical\<rparr>)) =
     [scroll_at point_zero delta Moved] \<and> \<not> movements_oppose delta \<lparr>px = 0, py = 10\<rparr>"
  using prediction_never_reverses
    [of "(recognizer_new gesture_tuning_default)\<lparr>re_state := Panning \<lparr>at_id = 7, at_start_position = point_zero, at_last_position = point_zero,
       at_emitted_position = point_zero, at_last_movement = point_zero, at_velocity_tracker = []\<rparr> Vertical\<rparr>" _ _
       "sample_event Moved 0 10\<lparr>te_predicted_position := Some \<lparr>px = 0, py = - 5\<rparr>\<rparr>" "[]" 1]
  by (simp add: sample_simps point_zero_def Let_def)


text \<open>
  C30: A finger that moves at one velocity is released with exactly that velocity: whatever the number of samples pushed, when
  the last two are no more than 40 ms apart, the estimate over the window is the velocity of the finger.
\<close>

theorem uniform_motion_is_released_exactly:
  assumes "sorted (ts @ [t1, t2])" "F64_EPSILON < t2 - t1" "t2 - t1 \<le> VELOCITY_ASSUME_STOPPED_GAP"
  shows "velocity (fold (\<lambda>t. push_sample t (point_add p (point_scale t v))) (ts @ [t1, t2]) []) = v"
proof -
  let ?xs = "ts @ [t1, t2]"
  have "fold (\<lambda>t. push_sample t (point_add p (point_scale t v))) ?xs [] = fold (\<lambda>(t, p). push_sample t p) (map (on_line p v) ?xs) []"
    unfolding fold_map by (simp add: on_line_def o_def)
  also have "\<dots> = map (on_line p v) (drop (length ts + 2 - VELOCITY_MAX_SAMPLES) ?xs)"
    by (subst fold_push_sample) (simp_all add: drop_map VELOCITY_MAX_SAMPLES_def)
  also have "drop (length ts + 2 - VELOCITY_MAX_SAMPLES) ?xs = drop (length ts + 2 - VELOCITY_MAX_SAMPLES) ts @ [t1, t2]"
    by (simp add: VELOCITY_MAX_SAMPLES_def)
  finally show ?thesis
    using velocity_on_line [of "drop (length ts + 2 - VELOCITY_MAX_SAMPLES) ts" t1 t2 p v] assms
    by (simp add: sorted_append sorted_wrt_drop) (metis in_set_dropD)
qed

theorem uniform_motion_is_released_exactly_witness:
  "velocity (fold (\<lambda>t. push_sample t (point_add point_zero (point_scale t \<lparr>px = 3, py = - 4\<rparr>))) ([0] @ [1 / 100, 2 / 100]) []) =
     \<lparr>px = 3, py = - 4\<rparr>"
  by (rule uniform_motion_is_released_exactly) (simp_all add: F64_EPSILON_def VELOCITY_ASSUME_STOPPED_GAP_def)

text \<open>
  C13: When such a pan is released into a fling, the fling ends once its duration is over, and by then the content has scrolled
  exactly as far as the finger went and the distance of the fling, in the direction of the release, whatever the ticks in
  between and however far prediction had run ahead of the finger.
\<close>

theorem a_fling_completes_the_pan:
  assumes physics: "SPLINE_POSITION = Some spline" "physics_ok (scroll_physics (re_tuning r))"
    and touch: "re_state r = TouchIdle" "re_momentum r = None" "te_phase s = Started" "moves_of (te_id s) ms" "te_phase e = Ended"
      "te_id e = te_id s" "gesture_run spline r (touches ((s, t0) # ms @ [(e, t)])) = (r1, out1)"
    and fling: "re_momentum r1 = Some m" "\<forall>t\<in>set ts. duration_since t (mo_started_at m) < mo_duration m"
      "mo_duration m \<le> duration_since t' (mo_started_at m)" "gesture_run spline r1 (map Tick (ts @ [t'])) = (r2, out2)"
  shows "re_momentum r2 = None \<and>
    scrolled (out1 @ out2) =
      point_add (lock_delta_to_axis (pan_axis (re_tuning r) (te_position s) ms) (point_diff (te_position e) (te_position s)))
        (point_scale (fling_distance spline (scroll_physics (re_tuning r)) (mo_speed m) (mo_duration m)) (mo_direction m))"
proof -
  have ok: "spline_ok spline" using spline_position_ok physics(1) by (metis option.inject)
  have "momentum_ok spline r" using touch(2) by (simp add: momentum_ok_def)
  with momentum_ok_run [OF physics(2) ok _ touch(7)] have r1: "re_tuning r1 = re_tuning r" "momentum_ok spline r1" by simp_all
  have "scrolled out1 = point_add (lock_delta_to_axis (pan_axis (re_tuning r) (te_position s) ms)
      (point_diff (te_position e) (te_position s))) (fling_lead r1)"
    using touch_from_idle [OF touch] fling(1) by (auto split: if_splits)
  then show ?thesis
    using fling_to_end [OF _ ok r1(2) fling] physics(2) r1(1) by (simp add: point_add_assoc)
qed

lemma sample_fling:
  "\<exists>r1 out1 m. gesture_run spline (recognizer_new gesture_tuning_default)
     (touches ((sample_event Started 0 0, 0) # [(sample_event Moved 0 30, 1 / 100), (sample_event Moved 0 60, 2 / 100)] @
        [(sample_event Ended 0 60, 3 / 100)])) = (r1, out1) \<and> re_momentum r1 = Some m"
proof -
  have v: "velocity [(0, \<lparr>px = 0, py = 0\<rparr>), (1 / 100, \<lparr>px = 0, py = 30\<rparr>), (1 / 50, \<lparr>px = 0, py = 60\<rparr>)] = \<lparr>px = 0, py = 3000\<rparr>"
    using velocity_on_line [of "[0]" "1 / 100" "1 / 50" point_zero "\<lparr>px = 0, py = 3000\<rparr>"]
    by (simp add: on_line_def point_add_def point_scale_def point_zero_def F64_EPSILON_def VELOCITY_ASSUME_STOPPED_GAP_def)
  have s: "sqrt 900 = 30" "sqrt 9000000 = 3000" by (rule real_sqrt_unique; simp)+
  have "fling_duration ios 3000 \<noteq> 0" by (simp add: ios_def MOMENTUM_STOP_VELOCITY_def)
  then show ?thesis
    by (simp add: sample_simps handle_event_at_def touch_started_def touch_moved_def touch_ended_def start_panning_def pan_step_def
        finish_pan_def release_speed_def latest_sample_time_def push_sample_def VELOCITY_MAX_SAMPLES_def movements_oppose_def
        duration_since_def VELOCITY_ASSUME_STOPPED_GAP_def point_zero_def Let_def v s MAX_FLING_VELOCITY_def)
qed

theorem a_fling_completes_the_pan_witness:
  "\<exists>spline r1 out1 m. SPLINE_POSITION = Some spline \<and> gesture_run spline (recognizer_new gesture_tuning_default)
     (touches ((sample_event Started 0 0, 0) # [(sample_event Moved 0 30, 1 / 100), (sample_event Moved 0 60, 2 / 100)] @
        [(sample_event Ended 0 60, 3 / 100)])) = (r1, out1) \<and> re_momentum r1 = Some m \<and>
     (case gesture_run spline r1 (map Tick ([] @ [mo_started_at m + mo_duration m])) of
        (r2, out2) \<Rightarrow> re_momentum r2 = None \<and>
          scrolled (out1 @ out2) = point_add \<lparr>px = 0, py = 60\<rparr> (point_scale (fling_distance spline ios (mo_speed m) (mo_duration m)) (mo_direction m)))"
proof -
  obtain spline where spline: "SPLINE_POSITION = Some spline" using spline_position_ok by blast
  obtain r1 out1 m where run: "gesture_run spline (recognizer_new gesture_tuning_default)
     (touches ((sample_event Started 0 0, 0) # [(sample_event Moved 0 30, 1 / 100), (sample_event Moved 0 60, 2 / 100)] @
        [(sample_event Ended 0 60, 3 / 100)])) = (r1, out1)" "re_momentum r1 = Some m"
    using sample_fling by blast
  obtain r2 out2 where ticks: "gesture_run spline r1 (map Tick ([] @ [mo_started_at m + mo_duration m])) = (r2, out2)" by fastforce
  have "sqrt 900 = 30" by (rule real_sqrt_unique) simp_all
  then have "re_momentum r2 = None \<and> scrolled (out1 @ out2) = point_add \<lparr>px = 0, py = 60\<rparr>
      (point_scale (fling_distance spline ios (mo_speed m) (mo_duration m)) (mo_direction m))"
    using a_fling_completes_the_pan [OF spline _ _ _ _ _ _ _ run _ _ ticks]
    by (simp add: sample_simps ios_def duration_since_def)
  then show ?thesis using spline run ticks by (intro exI [of _ spline] exI [of _ r1] exI [of _ out1] exI [of _ m]) (simp only: prod.case simp_thms)
qed

end
