(* ===== verification/Spec2Isabelle.thy ===== *)
theory Spec2Isabelle
  imports SumTree_Properties Keymap_Properties UI_Properties Retained_Properties Scene_Properties KeyDispatch_Properties
    ListLayout_Properties Gestures_Properties
begin

text \<open>
  A verification library for gpui-fast, a fork of the GPUI user-interface framework whose views keep what they
  drew. All paths below are under \<open>src/crates\<close>.

  \<^bold>\<open>The program.\<close> A \<^emph>\<open>sum tree\<close> (crate \<open>sum_tree\<close>) is the shared ordered container: a B+ tree whose nodes cache a
  summary of what is below them, so that cursors seek along any dimension of the summary. \<open>gpui\<close> uses it for the
  tab order of a frame and for the items of a list. An application binds keys in a \<^emph>\<open>keymap\<close>; a frame builds a
  \<^emph>\<open>dispatch tree\<close> of nodes with key contexts, focus ids and listeners, and a typed key is resolved against the keymap
  with the contexts on the path to the focused node. Painting fills a \<^emph>\<open>scene\<close>: each primitive gets a drawing order
  from a \<^emph>\<open>bounds tree\<close>, and the finished scene is sorted and cut into batches for the GPU. Views that did not change are
  not built again: their part of the scene and of the dispatch tree is copied from the last frame, and
  \<^emph>\<open>dependencies\<close> recorded while a view was built tell whether anything it read has changed. Observers are kept in
  \<^emph>\<open>subscription\<close> sets. On touch screens a \<^emph>\<open>recognizer\<close> turns the raw touches into taps, scrolling with momentum, long
  presses and drags.

  \<^bold>\<open>Theories and sources.\<close>

  \<^item> \<open>Prelude\<close>: orderings, panics, the vector primitives and loops every model uses.
  \<^item> \<open>SumTree_Base\<close>, \<open>SumTree_Ops\<close>, \<open>SumTree_Find\<close>, \<open>SumTree_Keyed\<close>: \<open>sum_tree/src/sum_tree.rs\<close> (nodes, summaries,
    append, push, \<open>from_iter\<close>, \<open>from_par_iter\<close>, updates, find, keyed edits). \<open>SumTree_Cursor\<close>: \<open>sum_tree/src/cursor.rs\<close>;
    \<open>SumTree_Seek\<close> and \<open>SumTree_Traverse\<close> hold its proofs. The abstraction of a tree is the list \<open>to_list\<close>, its invariant
    \<open>tree_ok\<close>; a cursor is the index \<open>cursor_ok\<close> gives it. The locales \<open>summary_laws\<close>, \<open>dimension_laws\<close> and
    \<open>keyed_laws\<close> are what the \<open>Summary\<close>, \<open>Dimension\<close> and \<open>KeyedItem\<close> traits owe the tree, \<open>aggregate\<close> and \<open>seeking\<close> what a
    seek owes the aggregates it feeds; they are interpreted by every client below. A lemma shows for each operation
    that it does not panic, keeps \<open>tree_ok\<close> and acts on the list as it should.
  \<^item> \<open>TreeMap\<close>: \<open>sum_tree/src/tree_map.rs\<close>, an interpretation of \<open>keyed_laws\<close> that refines a finite map.
  \<^item> \<open>KeyContext\<close>, \<open>KeyPredicate\<close>: \<open>gpui/src/keymap/context.rs\<close> (contexts, the predicate language, parser, printer,
    evaluation). \<open>Keystroke\<close>: \<open>gpui/src/platform/keystroke.rs\<close>. \<open>Keymap\<close>: \<open>gpui/src/keymap.rs\<close>, \<open>keymap/binding.rs\<close> and
    the special actions of \<open>action.rs\<close>; the lemmas characterise the resolved bindings as the matches that survive.
  \<^item> \<open>KeyDispatch\<close>, \<open>DispatchStacks\<close>: \<open>gpui/src/key_dispatch.rs\<close> and \<open>gpui/src/fast/dispatch.rs\<close>. The first holds the
    model and the replay of pending keys, the second the invariant of the tree while a frame is built and the copy of
    a stretch of the last frame's nodes.
  \<^item> \<open>Geometry\<close>: rectangles of \<open>gpui/src/geometry.rs\<close>. \<open>BoundsTree\<close>: the R-tree of \<open>gpui/src/bounds_tree.rs\<close>.
    \<open>FastBoundsTree\<close>: the grid of \<open>gpui/src/fast/bounds_tree.rs\<close>, which \<open>gpui.rs\<close> mounts in place of the R-tree. Both
    interpret the locale \<open>bounds_orderer\<close>: the order of a rectangle is one above every earlier one it overlaps.
  \<^item> \<open>SceneSort\<close>: the sorts of \<open>gpui/src/fast/scene.rs\<close>. \<open>Scene\<close>: \<open>gpui/src/scene.rs\<close> with the parts of
    \<open>fast/rounded_clip.rs\<close>, \<open>fast/layers/scene.rs\<close> and \<open>fast/layers/paint.rs\<close> that painting and replaying call.
  \<^item> \<open>TabStop\<close>: \<open>gpui/src/tab_stop.rs\<close> over the sum tree. \<open>Subscription\<close>: \<open>gpui/src/subscription.rs\<close>.
  \<^item> \<open>Dependencies\<close>: \<open>gpui/src/fast/dependencies.rs\<close> and the offset log of \<open>fast/layers/invalidate.rs\<close>.
  \<^item> \<open>ListState\<close>, \<open>ListLayout\<close>: \<open>gpui/src/elements/list.rs\<close>. The first is the state, a sum tree of items counted and measured by
    their summaries, with the position it is scrolled to; its laws interpret \<open>dimension_laws\<close> four times, for the counts,
    the heights, the sums and the pairs of count and height. The second is \<open>layout_items\<close>, \<open>layout_all_items\<close> and
    \<open>prepaint\<close>, which measure the items in view, move the position when they do not fill it and follow a row that asks to be
    scrolled into view. Its loops over cursors are shown equal to recursions over the list of items.
  \<^item> \<open>ScrollPhysics\<close>, \<open>Gestures\<close>: \<open>gpui/src/gestures.rs\<close> and \<open>gpui/src/fast/misc/touch_fling.rs\<close>. The first holds the axis lock of
    wheel gestures, the curves a fling follows, the table of the friction spline and the velocity estimate; the second is
    \<open>TouchGestureRecognizer\<close>, one function for each phase of a touch event and each other operation, and runs of inputs
    (\<open>gesture_run\<close>). Its scroll events refine the step relation \<open>stream_step\<close>.

  The properties are in \<open>SumTree_Properties\<close>, \<open>Keymap_Properties\<close>, \<open>UI_Properties\<close> (rectangles, R-tree, tab stops,
  subscriptions), \<open>Retained_Properties\<close> (dependencies), \<open>Scene_Properties\<close>, \<open>KeyDispatch_Properties\<close>,
  \<open>ListState_Properties\<close>, \<open>ListLayout_Properties\<close> and \<open>Gestures_Properties\<close>, each after a text that numbers it; they rest on
  the lemmas of the components. A few theorems that stand beside them have no number.

  \<^bold>\<open>How code becomes definitions.\<close> A struct is a record, an enum a datatype, a method a function that returns the
  changed receiver. A function that can panic returns an option and \<^const>\<open>None\<close> is the panic; the properties state that
  the result is \<^const>\<open>Some\<close>. A loop that is not structurally bounded is a \<open>partial_function\<close> into option, so that not
  returning is \<^const>\<open>None\<close> too and a result is also a proof of termination; the predicate parser runs on fuel
  \<open>2 * length + 2\<close>, which \<open>parse_predicate_total\<close> shows to be enough. Cursor stacks hold 16 entries as in the source: the
  properties of cursors assume a tree of height below 16, which a tree of half-full nodes exceeds only from \<open>6 ^ 16\<close>
  items on, while \<open>append\<close> and the other builders need no such bound. Laying out a list rebuilds its tree, and its
  properties assume the same of the trees it builds (\<open>list_fits\<close>, \<open>layout_fits\<close>).
  Grid entries are numbered below 65,535 as in the source. Strings are lists of 8-bit characters.

  \<^bold>\<open>Parameters.\<close> What the code receives from elsewhere is an argument: the type id, name and equality of an application's
  actions (\<open>action_ops\<close>), the way equal keys are ordered by an unstable sort, the chunks of a parallel iterator, listeners,
  the payload of primitives and layers, \<open>Half\<close> of a unit of length, and for a list (\<open>list_env\<close>) the size a row is laid out
  at, whether its measurement is final, what its layer does with it and the rectangle it asks to be scrolled to. Lengths
  are exact: an ordered group, an ordered field, one with floor and ceiling, or the reals, where the code has \<open>f32\<close> or
  \<open>f64\<close>; an instant is a real number of seconds.

  \<^bold>\<open>What the properties show.\<close> Sum tree: every operation against the list of items. Keys: dispatch returns exactly the
  surviving bindings in order of precedence, pending keys are replayed in order and none is lost, the stacks of a frame
  describe the active node, copied nodes keep their paths. Scene: everything visible is drawn once, overlapping
  primitives in the order they were painted, and a replayed frame draws the same. Dependencies: what a view read is
  recorded exactly and a change to it is noticed. Subscriptions and tab stops: order, activity, cyclic traversal.
  Lists: splicing, scrolling and revealing move the position they should, the rows laid out fill the viewport, the
  focused row is among them, and prepainting ends. Touches: a touch is a tap or scrolls as far as the finger went, a
  fling adds its distance, prediction never pulls content back, the table of the friction spline is built, and uniform
  motion is released with its velocity.

  \<^bold>\<open>Not modelled.\<close> Sharing (\<open>Arc\<close>, \<open>Rc\<close>, interned lists, reused scratch vectors) and destructors are invisible to the
  values and left out. The rounding of floating-point lengths is not modelled. \<open>available_actions\<close> needs the order of
  \<open>TypeId\<close> values and the action registry. \<open>KeyBinding::load\<close> needs the keyboard mapper of a platform. The scenes that
  \<open>rounded_clip_scene::compile\<close> and the layer tiles build are data for the GPU. The list element registers scroll
  listeners and paints through a window, and the layers of its rows (\<open>fast/layers/lists.rs\<close>) are kept by a window. The
  recognizer's clock is an argument, and a negative duration, which \<open>Duration\<close> refuses, does not arise from the decay
  rates below one that the properties assume. Windows, elements, styling, text shaping, the executors, the entity map,
  the platform back ends, macros, the profiler and the benchmarks run on platform handles, type-erased closures,
  floating-point colour and font data or asynchronous tasks, and are not modelled.
\<close>

end
